(* ===== verification/Pelfs_Prelude.thy ===== *)
theory Pelfs_Prelude
  imports Main "HOL-Library.Word" "HOL-Library.List_Lexorder" "HOL-Library.Char_ord"
begin

text \<open>
  Shared vocabulary of the development: byte strings and their little-endian integers,
  the checked slice, Go's \<open>sort.Search\<close>, and generic lemmas on lists that several
  components use. A Go \<open>[]byte\<close> is a list of 8-bit words, compared as
  \<open>bytes.Compare\<close> does by the lexicographic order of \<^theory_text>\<open>HOL-Library.List_Lexorder\<close>;
  a Go \<open>int64\<close> whose overflow matters is a 64-bit word read with \<open>sint\<close>; a Go \<open>int\<close>
  that is a length, an index or a count is a natural number. A fallible operation
  returns a sum, with the error on the left.
\<close>

type_synonym byte = "8 word"
type_synonym bytes = "byte list"
type_synonym int64 = "64 word"
type_synonym uint64 = "64 word"

named_theorems byte_simps \<open>lengths and round trips of byte encodings\<close>
named_theorems slice_simps \<open>slices of concatenated byte strings\<close>

lemma unat_byte_less [simp]: "unat (b :: byte) < 256"
  using unsigned_less [of b, where ?'a = nat] by simp

lemma unat_u64_less: "unat (w :: 64 word) < 256 ^ 8"
  using unsigned_less [of w, where ?'a = nat] by simp

section \<open>Strings as byte strings\<close>

definition byte_of_char :: "char \<Rightarrow> byte" where
  "byte_of_char c = word_of_nat (of_char c)"

definition char_of_byte :: "byte \<Rightarrow> char" where
  "char_of_byte b = char_of (unat b)"

definition str_bytes :: "string \<Rightarrow> bytes" where
  "str_bytes s = map byte_of_char s"

definition bytes_str :: "bytes \<Rightarrow> string" where
  "bytes_str b = map char_of_byte b"

lemma char_of_byte_of_char [simp]: "char_of_byte (byte_of_char c) = c"
proof -
  have "(of_char c :: nat) < 256"
    by (rule nat_of_char_less_256)
  then have "unat (word_of_nat (of_char c) :: byte) = of_char c"
    by (simp add: unat_of_nat)
  then show ?thesis
    by (simp add: char_of_byte_def byte_of_char_def)
qed

lemma byte_of_char_of_byte [simp]: "byte_of_char (char_of_byte b) = b"
proof -
  have "of_char (char_of (unat b)) = unat b"
    by (simp add: of_char_of)
  then show ?thesis
    by (simp add: char_of_byte_def byte_of_char_def)
qed

lemma bytes_str_str_bytes [simp]: "bytes_str (str_bytes s) = s"
  by (simp add: bytes_str_def str_bytes_def comp_def)

lemma str_bytes_bytes_str [simp]: "str_bytes (bytes_str b) = b"
  by (simp add: bytes_str_def str_bytes_def comp_def)

lemma length_str_bytes [simp]: "length (str_bytes s) = length s"
  by (simp add: str_bytes_def)

lemma length_bytes_str [simp]: "length (bytes_str b) = length b"
  by (simp add: bytes_str_def)

lemma str_bytes_inject [simp]: "str_bytes s = str_bytes t \<longleftrightarrow> s = t"
  by (metis bytes_str_str_bytes)

lemma bytes_str_inject [simp]: "bytes_str a = bytes_str b \<longleftrightarrow> a = b"
  by (metis str_bytes_bytes_str)

section \<open>Little-endian integers\<close>

primrec le_bytes :: "nat \<Rightarrow> nat \<Rightarrow> bytes" where
  "le_bytes 0 x = []"
| "le_bytes (Suc n) x = word_of_nat (x mod 256) # le_bytes n (x div 256)"

primrec le_val :: "bytes \<Rightarrow> nat" where
  "le_val [] = 0"
| "le_val (b # bs) = unat b + 256 * le_val bs"

lemma length_le_bytes [simp, byte_simps]: "length (le_bytes n x) = n"
  by (induction n arbitrary: x) auto

lemma le_bytes_eq_Nil [simp]: "le_bytes n x = [] \<longleftrightarrow> n = 0"
  by (cases n) auto

lemma unat_word_mod_256: "unat (word_of_nat (x mod 256) :: byte) = x mod 256"
  by (simp add: unat_of_nat)

lemma le_val_le_bytes [byte_simps]: "le_val (le_bytes n x) = x mod 256 ^ n"
proof (induction n arbitrary: x)
  case 0
  show ?case by simp
next
  case (Suc n)
  have "x mod 256 ^ Suc n = x mod 256 + 256 * (x div 256 mod 256 ^ n)"
    by (simp add: mod_mult2_eq)
  with Suc show ?case
    by (simp add: unat_word_mod_256 del: of_nat_mod)
qed

lemma le_val_le_bytes_small [simp]: "x < 256 ^ n \<Longrightarrow> le_val (le_bytes n x) = x"
  by (simp add: le_val_le_bytes)

lemma le_val_less: "le_val b < 256 ^ length b"
proof (induction b)
  case Nil
  show ?case by simp
next
  case (Cons a b)
  have "unat a < 256"
    by simp
  moreover have "256 * le_val b + 256 \<le> 256 * 256 ^ length b"
    using Cons by (metis Suc_leI add.commute mult_Suc_right mult_le_mono2)
  ultimately have "unat a + 256 * le_val b < 256 * 256 ^ length b"
    by linarith
  then show ?case by simp
qed

lemma le_bytes_le_val: "length b = n \<Longrightarrow> le_bytes n (le_val b) = b"
proof (induction b arbitrary: n)
  case Nil
  then show ?case by simp
next
  case (Cons a b)
  have a: "unat a < 256"
    by simp
  from Cons.prems obtain m where m: "n = Suc m" "length b = m"
    by auto
  from a have "(unat a + 256 * le_val b) mod 256 = unat a"
    and "(unat a + 256 * le_val b) div 256 = le_val b"
    by simp_all
  with m Cons.IH [of m] show ?case
    by (simp del: of_nat_add of_nat_mod)
qed

text \<open>
  A 64-bit field: \<open>binary.LittleEndian.PutUint64\<close> of a 64-bit word and
  \<open>binary.LittleEndian.Uint64\<close> back.
\<close>

definition put_u64 :: "64 word \<Rightarrow> bytes" where
  "put_u64 w = le_bytes 8 (unat w)"

definition get_u64 :: "bytes \<Rightarrow> 64 word" where
  "get_u64 b = word_of_nat (le_val (take 8 b))"

lemma length_put_u64 [simp, byte_simps]: "length (put_u64 w) = 8"
  by (simp add: put_u64_def)

lemma get_u64_put_u64 [simp, byte_simps]: "get_u64 (put_u64 w @ r) = w"
proof -
  have "unat w < 256 ^ 8"
    by (rule unat_u64_less)
  then show ?thesis
    by (simp add: get_u64_def put_u64_def del: power_numeral)
qed

lemma get_u64_put_u64_alone [simp]: "get_u64 (put_u64 w) = w"
  using get_u64_put_u64 [of w "[]"] by simp

text \<open>\<open>binary.LittleEndian.Uint16\<close> and \<open>Uint32\<close> at an offset, as the lengths they are used for.\<close>

definition u16_at :: "bytes \<Rightarrow> nat \<Rightarrow> nat" where
  "u16_at b off = le_val (take 2 (drop off b))"

definition u32_at :: "bytes \<Rightarrow> nat \<Rightarrow> nat" where
  "u32_at b off = le_val (take 4 (drop off b))"

lemma u16_at_less: "u16_at b off < 65536"
proof -
  have "le_val (take 2 (drop off b)) < 256 ^ length (take 2 (drop off b))"
    by (rule le_val_less)
  also have "\<dots> \<le> 256 ^ 2"
    by (rule power_increasing) auto
  finally show ?thesis by (simp add: u16_at_def)
qed

lemma u32_at_less: "u32_at b off < 4294967296"
proof -
  have "le_val (take 4 (drop off b)) < 256 ^ length (take 4 (drop off b))"
    by (rule le_val_less)
  also have "\<dots> \<le> 256 ^ 4"
    by (rule power_increasing) auto
  finally show ?thesis by (simp add: u32_at_def)
qed

section \<open>Slices\<close>

text \<open>
  \<open>b[off : off+n]\<close>. Go panics when the slice runs past the end; the model's slice is the
  bytes that are there, and \<open>in_range\<close> is the condition under which the two agree. Every
  component that slices bytes it did not build proves \<open>in_range\<close> for its slices.
\<close>

abbreviation ext :: "'a list \<Rightarrow> nat \<Rightarrow> nat \<Rightarrow> 'a list" where
  "ext b off n \<equiv> take n (drop off b)"

definition in_range :: "'a list \<Rightarrow> nat \<Rightarrow> nat \<Rightarrow> bool" where
  "in_range b off n \<longleftrightarrow> off + n \<le> length b"

lemma length_ext: "in_range b off n \<Longrightarrow> length (ext b off n) = n"
  by (auto simp: in_range_def)

lemma ext_append_left [slice_simps]: "off + n \<le> length a \<Longrightarrow> ext (a @ b) off n = ext a off n"
  by simp

lemma ext_append_right [slice_simps]: "length a \<le> off \<Longrightarrow> ext (a @ b) off n = ext b (off - length a) n"
  by simp

lemma ext_ext: "i + n \<le> m \<Longrightarrow> ext (ext b off m) i n = ext b (off + i) n"
  by (simp add: take_drop drop_drop min_def add.commute)

section \<open>Fixed-width rows\<close>

text \<open>Row \<open>i\<close> of a byte string laid out in rows of \<open>e\<close> bytes, and the rows of one with \<open>n\<close> of them.\<close>

abbreviation row :: "'a list \<Rightarrow> nat \<Rightarrow> nat \<Rightarrow> 'a list" where
  "row b e i \<equiv> ext b (i * e) e"

definition rows :: "'a list \<Rightarrow> nat \<Rightarrow> nat \<Rightarrow> 'a list list" where
  "rows b e n = map (row b e) [0..<n]"

definition uniform :: "nat \<Rightarrow> 'a list list \<Rightarrow> bool" where
  "uniform e rs \<longleftrightarrow> (\<forall>r \<in> set rs. length r = e)"

lemma uniform_Nil [simp]: "uniform e []"
  by (simp add: uniform_def)

lemma uniform_Cons [simp]: "uniform e (r # rs) \<longleftrightarrow> length r = e \<and> uniform e rs"
  by (auto simp: uniform_def)

lemma uniform_append [simp]: "uniform e (rs @ qs) \<longleftrightarrow> uniform e rs \<and> uniform e qs"
  by (auto simp: uniform_def)

lemma uniform_nth: "uniform e rs \<Longrightarrow> i < length rs \<Longrightarrow> length (rs ! i) = e"
  by (simp add: uniform_def)

lemma uniform_take: "uniform e rs \<Longrightarrow> uniform e (take n rs)"
  and uniform_drop: "uniform e rs \<Longrightarrow> uniform e (drop n rs)"
  by (auto simp: uniform_def dest: in_set_takeD in_set_dropD)

lemma length_concat_uniform [simp]: "uniform e rs \<Longrightarrow> length (concat rs) = length rs * e"
  by (induction rs) auto

lemma row_concat: "uniform e rs \<Longrightarrow> i < length rs \<Longrightarrow> row (concat rs) e i = rs ! i"
proof (induction rs arbitrary: i)
  case (Cons r rs)
  then show ?case by (cases i) auto
qed simp

lemma rows_concat: "uniform e rs \<Longrightarrow> rows (concat rs) e (length rs) = rs"
  by (rule nth_equalityI) (auto simp: rows_def row_concat)

lemma length_rows [simp]: "length (rows b e n) = n"
  by (simp add: rows_def)

lemma nth_rows: "i < n \<Longrightarrow> rows b e n ! i = row b e i"
  by (simp add: rows_def)

lemma row_in_range: "i < n \<Longrightarrow> n * e \<le> length b \<Longrightarrow> in_range b (i * e) e"
proof -
  assume "i < n" "n * e \<le> length b"
  then have "Suc i * e \<le> n * e" by (intro mult_le_mono1) simp
  with \<open>n * e \<le> length b\<close> show ?thesis by (simp add: in_range_def add.commute)
qed

lemma length_row: "i < n \<Longrightarrow> n * e \<le> length b \<Longrightarrow> length (row b e i) = e"
  by (rule length_ext) (rule row_in_range)

lemma uniform_rows: "n * e \<le> length b \<Longrightarrow> uniform e (rows b e n)"
  by (auto simp: uniform_def rows_def length_row simp del: length_take length_drop)

lemma ext_in_row: "a + m \<le> e \<Longrightarrow> ext (row b e i) a m = ext b (i * e + a) m"
  by (rule ext_ext)

lemma take_in_row: "m \<le> e \<Longrightarrow> take m (row b e i) = ext b (i * e) m"
  by (simp add: min_def)

lemma drop_in_row: "k \<le> e \<Longrightarrow> drop k (row b e i) = ext b (i * e + k) (e - k)"
  by (simp add: drop_take add.commute)

lemma concat_take_uniform: "uniform e rs \<Longrightarrow> n \<le> length rs \<Longrightarrow> take (n * e) (concat rs) = concat (take n rs)"
proof (induction rs arbitrary: n)
  case (Cons r rs)
  then show ?case by (cases n) auto
qed simp

lemma concat_drop_uniform: "uniform e rs \<Longrightarrow> n \<le> length rs \<Longrightarrow> drop (n * e) (concat rs) = concat (drop n rs)"
proof (induction rs arbitrary: n)
  case (Cons r rs)
  then show ?case by (cases n) auto
qed simp

section \<open>The last entry with a key\<close>

text \<open>
  Replacing semantics of an association list: the value of the LAST entry added under a
  key. \<open>keep_last\<close> drops every entry that the next one repeats, which on a list sorted by
  key leaves exactly the last of each run.
\<close>

fun keep_last :: "('a \<Rightarrow> 'k) \<Rightarrow> 'a list \<Rightarrow> 'a list" where
  "keep_last f (x # y # r) = (if f y = f x then keep_last f (y # r) else x # keep_last f (y # r))"
| "keep_last f r = r"

definition latest :: "('a \<Rightarrow> 'k) \<Rightarrow> 'a list \<Rightarrow> 'k \<Rightarrow> 'a option" where
  "latest f xs k = (case filter (\<lambda>x. f x = k) xs of [] \<Rightarrow> None | y # r \<Rightarrow> Some (last (y # r)))"

lemma latest_Nil [simp]: "latest f [] k = None"
  by (simp add: latest_def)

lemma latest_Cons: "latest f (x # xs) k =
    (case latest f xs k of None \<Rightarrow> if f x = k then Some x else None | Some y \<Rightarrow> Some y)"
  by (auto simp: latest_def split: list.splits)

lemma latest_snoc: "latest f (xs @ [x]) k = (if f x = k then Some x else latest f xs k)"
  by (induction xs) (auto simp: latest_Cons split: option.splits)

lemma latest_Some: "latest f xs k = Some x \<Longrightarrow> x \<in> set xs \<and> f x = k"
  by (induction xs) (auto simp: latest_Cons split: option.splits if_splits)

lemma latest_None: "latest f xs k = None \<longleftrightarrow> k \<notin> f ` set xs"
  by (induction xs) (auto simp: latest_Cons split: option.splits)

lemma latest_sort_key: "latest f (sort_key f xs) = latest f xs"
  by (simp add: latest_def sort_key_stable fun_eq_iff)

lemma latest_keep_last: "latest f (keep_last f xs) = latest f xs"
  by (induction f xs rule: keep_last.induct) (auto simp: latest_Cons fun_eq_iff split: option.splits)

lemma set_keep_last: "set (keep_last f xs) \<subseteq> set xs"
  by (induction f xs rule: keep_last.induct) auto

lemma length_keep_last: "length (keep_last f xs) \<le> length xs"
  by (induction f xs rule: keep_last.induct) auto

definition strict_keys :: "('a \<Rightarrow> 'k::linorder) \<Rightarrow> 'a list \<Rightarrow> bool" where
  "strict_keys f xs \<longleftrightarrow> sorted_wrt (\<lambda>x y. f x < f y) xs"

lemma strict_keys_Nil [simp]: "strict_keys f []"
  by (simp add: strict_keys_def)

lemma strict_keys_Cons [simp]: "strict_keys f (x # xs) \<longleftrightarrow> (\<forall>y \<in> set xs. f x < f y) \<and> strict_keys f xs"
  by (simp add: strict_keys_def)

lemma strict_keys_nth: "strict_keys f xs \<Longrightarrow> i < j \<Longrightarrow> j < length xs \<Longrightarrow> f (xs ! i) < f (xs ! j)"
  by (simp add: strict_keys_def sorted_wrt_iff_nth_less)

lemma strict_keys_take: "strict_keys f xs \<Longrightarrow> strict_keys f (take n xs)"
  and strict_keys_drop: "strict_keys f xs \<Longrightarrow> strict_keys f (drop n xs)"
  by (simp_all add: strict_keys_def sorted_wrt_take sorted_wrt_drop)

lemma strict_keys_keep_last:
  fixes f :: "'a \<Rightarrow> 'k::linorder"
  shows "sorted (map f xs) \<Longrightarrow> strict_keys f (keep_last f xs)"
proof (induction f xs rule: keep_last.induct)
  case (1 f x y r)
  then show ?case
    using set_keep_last [of f "y # r"] by (cases "f y = f x") fastforce+
qed auto

lemma latest_strict:
  "strict_keys f xs \<Longrightarrow> i < length xs \<Longrightarrow> latest f xs (f (xs ! i)) = Some (xs ! i)"
proof (induction xs arbitrary: i)
  case (Cons x xs)
  show ?case
  proof (cases i)
    case 0
    have "latest f xs (f x) = None"
      using Cons.prems(1) by (auto simp: latest_None)
    with 0 show ?thesis by (simp add: latest_Cons)
  next
    case (Suc j)
    with Cons show ?thesis by (simp add: latest_Cons)
  qed
qed simp

section \<open>Binary search\<close>

text \<open>
  \<open>sort.Search(n, f)\<close> of the Go standard library, its loop on \<open>i\<close> and \<open>j\<close>. The facts that
  hold for ANY predicate (below the result the predicate was false, at the result it was
  true) are what a lookup in an unverified table rests on; with a monotone predicate the
  result is the least index where it holds.
\<close>

function go_search :: "(nat \<Rightarrow> bool) \<Rightarrow> nat \<Rightarrow> nat \<Rightarrow> nat" where
  "go_search f i j =
     (if i < j
      then (if f ((i + j) div 2) then go_search f i ((i + j) div 2)
            else go_search f (Suc ((i + j) div 2)) j)
      else i)"
  by pat_completeness auto
termination
  by (relation "measure (\<lambda>(f, i, j). j - i)") auto

declare go_search.simps [simp del]

lemma go_search_done [simp]: "\<not> i < j \<Longrightarrow> go_search f i j = i"
  by (simp add: go_search.simps [of f i j])

lemma go_search_lo: "i < j \<Longrightarrow> f ((i + j) div 2) \<Longrightarrow> go_search f i j = go_search f i ((i + j) div 2)"
  by (simp add: go_search.simps [of f i j])

lemma go_search_hi:
  "i < j \<Longrightarrow> \<not> f ((i + j) div 2) \<Longrightarrow> go_search f i j = go_search f (Suc ((i + j) div 2)) j"
  by (simp add: go_search.simps [of f i j])

lemma go_search_bounds: "i \<le> j \<Longrightarrow> i \<le> go_search f i j \<and> go_search f i j \<le> j"
proof (induction f i j rule: go_search.induct)
  case (1 f i j)
  let ?h = "(i + j) div 2"
  consider "\<not> i < j" | "i < j" "f ?h" | "i < j" "\<not> f ?h" by blast
  then show ?case
  proof cases
    case 1
    with "1.prems" show ?thesis by simp
  next
    case 2
    then have "i \<le> ?h" "?h < j" by auto
    with "1.IH"(1) 2 show ?thesis by (simp add: go_search_lo)
  next
    case 3
    then have "Suc ?h \<le> j" "i \<le> ?h" by auto
    with "1.IH"(2) 3 show ?thesis by (simp add: go_search_hi)
  qed
qed

lemma go_search_le: "i \<le> j \<Longrightarrow> go_search f i j \<le> j"
  and go_search_ge: "i \<le> j \<Longrightarrow> i \<le> go_search f i j"
  using go_search_bounds by blast+

lemma go_search_true: "i \<le> j \<Longrightarrow> go_search f i j < j \<Longrightarrow> f (go_search f i j)"
proof (induction f i j rule: go_search.induct)
  case (1 f i j)
  let ?h = "(i + j) div 2"
  consider "\<not> i < j" | "i < j" "f ?h" | "i < j" "\<not> f ?h" by blast
  then show ?case
  proof cases
    case 1
    with "1.prems" show ?thesis by simp
  next
    case 2
    then have le: "i \<le> ?h" by auto
    then have "go_search f i ?h \<le> ?h" by (rule go_search_le)
    then consider "go_search f i ?h = ?h" | "go_search f i ?h < ?h" by linarith
    then show ?thesis
      using 2 le "1.IH"(1) by cases (simp_all add: go_search_lo)
  next
    case 3
    then have "Suc ?h \<le> j" by auto
    with "1.IH"(2) "1.prems" 3 show ?thesis by (simp add: go_search_hi)
  qed
qed

lemma go_search_false: "i \<le> j \<Longrightarrow> i < go_search f i j \<Longrightarrow> \<not> f (go_search f i j - 1)"
proof (induction f i j rule: go_search.induct)
  case (1 f i j)
  let ?h = "(i + j) div 2"
  consider "\<not> i < j" | "i < j" "f ?h" | "i < j" "\<not> f ?h" by blast
  then show ?case
  proof cases
    case 1
    with "1.prems" show ?thesis by simp
  next
    case 2
    then have "i \<le> ?h" by auto
    with "1.IH"(1) "1.prems" 2 show ?thesis by (simp add: go_search_lo)
  next
    case 3
    then have le: "Suc ?h \<le> j" by auto
    then have "Suc ?h \<le> go_search f (Suc ?h) j" by (rule go_search_ge)
    then consider "go_search f (Suc ?h) j = Suc ?h" | "Suc ?h < go_search f (Suc ?h) j" by linarith
    then show ?thesis
      using 3 le "1.IH"(2) by cases (simp_all add: go_search_hi)
  qed
qed

definition mono_pred :: "(nat \<Rightarrow> bool) \<Rightarrow> nat \<Rightarrow> bool" where
  "mono_pred f n \<longleftrightarrow> (\<forall>i j. i \<le> j \<longrightarrow> j < n \<longrightarrow> f i \<longrightarrow> f j)"

lemma go_search_least:
  assumes "mono_pred f n"
  shows "k < n \<Longrightarrow> f k \<longleftrightarrow> go_search f 0 n \<le> k"
proof
  assume k: "k < n" and fk: "f k"
  show "go_search f 0 n \<le> k"
  proof (rule ccontr)
    assume "\<not> go_search f 0 n \<le> k"
    then have gt: "k \<le> go_search f 0 n - 1" "0 < go_search f 0 n" by auto
    have "go_search f 0 n \<le> n" by (rule go_search_le) simp
    with gt have "go_search f 0 n - 1 < n" by linarith
    with gt(1) have "f (go_search f 0 n - 1)"
      using assms fk unfolding mono_pred_def by blast
    moreover have "\<not> f (go_search f 0 n - 1)"
      using gt go_search_false [of 0 n f] by simp
    ultimately show False by blast
  qed
next
  assume k: "k < n" and le: "go_search f 0 n \<le> k"
  then have "f (go_search f 0 n)"
    using go_search_true [of 0 n f] by simp
  with assms k le show "f k"
    unfolding mono_pred_def by blast
qed

lemma go_search_unique:
  assumes "mono_pred f n" "k \<le> n" "\<And>i. i < k \<Longrightarrow> \<not> f i" "k < n \<Longrightarrow> f k"
  shows "go_search f 0 n = k"
proof (cases "k < n")
  case True
  have a: "go_search f 0 n \<le> k"
    using go_search_least [OF assms(1) True] assms(4) True by blast
  with True have "go_search f 0 n < n" by linarith
  then have "f (go_search f 0 n)"
    using go_search_true [of 0 n f] by simp
  with assms(3) a show ?thesis
    by (metis le_neq_implies_less)
next
  case False
  with assms(2) have kn: "k = n" by simp
  have le: "go_search f 0 n \<le> n" by (rule go_search_le) simp
  show ?thesis
  proof (rule ccontr)
    assume "go_search f 0 n \<noteq> k"
    with le kn have "go_search f 0 n < n" by simp
    then have "f (go_search f 0 n)" using go_search_true [of 0 n f] by simp
    with \<open>go_search f 0 n < n\<close> assms(3) kn show False by blast
  qed
qed

end
