(* ===== verification/Chunker.thy ===== *)
theory Chunker
  imports Pelfs_Prelude
begin

unbundle bit_operations_syntax

text \<open>
  Content-defined chunking, \<open>internal/chunkid/gear.go\<close> and \<open>internal/chunkid/chunker.go\<close>:
  the gear table generated by splitmix64, the FastCDC cut search with its two masks, and
  the \<open>Chunker\<close> with its growing window over an \<open>io.Reader\<close>. The reader is the bytes it
  still has and the error it ends with; \<open>read_full\<close> is \<open>io.ReadFull\<close> over it. A window
  that never fills is a \<open>None\<close> of \<^theory_text>\<open>partial_function\<close>, and the lemmas show that it
  does not happen.
\<close>

section \<open>The gear table\<close>

definition gearSeed :: uint64 where
  "gearSeed = 0x70656c6673763264"

primrec gear_values :: "nat \<Rightarrow> uint64 \<Rightarrow> uint64 list" where
  "gear_values 0 s = []"
| "gear_values (Suc n) s =
     (let s' = s + 0x9e3779b97f4a7c15;
          z1 = (s' XOR drop_bit 30 s') * 0xbf58476d1ce4e5b9;
          z2 = (z1 XOR drop_bit 27 z1) * 0x94d049bb133111eb
      in (z2 XOR drop_bit 31 z2) # gear_values n s')"

definition generateGear :: "uint64 \<Rightarrow> uint64 list" where
  "generateGear seed = gear_values 256 seed"

definition gearTable :: "uint64 list" where
  "gearTable = generateGear gearSeed"

lemma length_gear_values [simp]: "length (gear_values n s) = n"
  by (induction n arbitrary: s) (simp_all add: Let_def)

lemma length_gearTable [simp]: "length gearTable = 256"
  by (simp add: gearTable_def generateGear_def)

section \<open>Options and construction\<close>

record options =
  MinSize :: int
  AvgSize :: int
  MaxSize :: int

datatype rerr = EOF | UnexpectedEOF | ReadError nat

record reader =
  rd_data :: bytes
  rd_end :: rerr

record cparams =
  ck_min :: nat
  ck_avg :: nat
  ck_max :: nat
  ck_maskS :: uint64
  ck_maskL :: uint64

record chunker =
  ck_p :: cparams
  ck_r :: reader
  ck_buf :: bytes
  ck_cap :: nat
  ck_off :: nat
  ck_err :: "rerr option"

record chunk =
  Data :: bytes
  Offset :: nat

datatype panic = Panic

definition DefaultMinSize :: int where "DefaultMinSize = 2 ^ 20"
definition DefaultAvgSize :: int where "DefaultAvgSize = 4 * 2 ^ 20"
definition DefaultMaxSize :: int where "DefaultMaxSize = 16 * 2 ^ 20"
definition normalization :: nat where "normalization = 2"
definition initialWindow :: nat where "initialWindow = 64 * 2 ^ 10"

text \<open>\<open>bits.TrailingZeros\<close> of a 64-bit word.\<close>

fun trailing_zeros :: "nat \<Rightarrow> nat" where
  "trailing_zeros n = (if n = 0 then 64 else if odd n then 0 else Suc (trailing_zeros (n div 2)))"

declare trailing_zeros.simps [simp del]

definition topMask :: "nat \<Rightarrow> uint64" where
  "topMask k = push_bit (64 - k) (NOT 0)"

definition or_default :: "int \<Rightarrow> int \<Rightarrow> int" where
  "or_default x d = (if x = 0 then d else x)"

definition NewChunker :: "reader \<Rightarrow> options \<Rightarrow> panic + chunker" where
  "NewChunker r opts =
     (let mn = or_default (MinSize opts) DefaultMinSize;
          av = or_default (AvgSize opts) DefaultAvgSize;
          mx = or_default (MaxSize opts) DefaultMaxSize
      in if av AND (av - 1) \<noteq> 0 then Inl Panic
         else if \<not> (0 < mn \<and> mn < av \<and> av < mx) then Inl Panic
         else let avgBits = trailing_zeros (nat av)
              in if avgBits \<le> normalization \<or> 64 < avgBits + normalization then Inl Panic
                 else Inr \<lparr>ck_p = \<lparr>ck_min = nat mn, ck_avg = nat av, ck_max = nat mx,
                                   ck_maskS = topMask (avgBits + normalization),
                                   ck_maskL = topMask (avgBits - normalization)\<rparr>,
                           ck_r = r, ck_buf = [], ck_cap = min initialWindow (nat mx),
                           ck_off = 0, ck_err = None\<rparr>)"

section \<open>Reading and filling the window\<close>

text \<open>
  \<open>io.ReadFull(r, p)\<close> with a \<open>p\<close> of \<open>k\<close> bytes: the bytes read, the error
  (\<open>UnexpectedEOF\<close> for an end of input inside \<open>p\<close>) and the reader after it.
\<close>

definition read_full :: "reader \<Rightarrow> nat \<Rightarrow> bytes \<times> rerr option \<times> reader" where
  "read_full r k =
     (let d = rd_data r
      in if k \<le> length d then (take k d, None, r\<lparr>rd_data := drop k d\<rparr>)
         else (d, Some (if d \<noteq> [] \<and> rd_end r = EOF then UnexpectedEOF else rd_end r), r\<lparr>rd_data := []\<rparr>))"

text \<open>
  \<open>fill\<close>: double the buffer when it is full (never past \<open>max\<close>), read into the rest of it,
  stop at \<open>max\<close> bytes or at the first error. \<open>ck_buf\<close> is \<open>buf[:n]\<close> and \<open>ck_cap\<close> is
  \<open>len(buf)\<close>.
\<close>

partial_function (option) fill :: "chunker \<Rightarrow> chunker option" where
  "fill c =
     (if length (ck_buf c) < ck_max (ck_p c)
      then (let cap' = (if length (ck_buf c) = ck_cap c
                        then (if ck_max (ck_p c) < 2 * ck_cap c then ck_max (ck_p c) else 2 * ck_cap c)
                        else ck_cap c);
                out = read_full (ck_r c) (cap' - length (ck_buf c));
                c' = c\<lparr>ck_cap := cap', ck_buf := ck_buf c @ fst out, ck_r := snd (snd out)\<rparr>
            in case fst (snd out) of
                 None \<Rightarrow> fill c'
               | Some e \<Rightarrow> Some (c'\<lparr>ck_err := Some (if e = UnexpectedEOF then EOF else e)\<rparr>))
      else Some c)"

section \<open>The cut search\<close>

text \<open>
  One of the two loops of \<open>cut\<close>: from index \<open>i\<close> up to \<open>bound\<close> with the fingerprint \<open>h\<close>.
  \<open>Inl\<close> is the early return of a cut, \<open>Inr\<close> the fingerprint the loop leaves behind.
\<close>

function scan :: "bytes \<Rightarrow> uint64 \<Rightarrow> nat \<Rightarrow> nat \<Rightarrow> uint64 \<Rightarrow> nat + uint64" where
  "scan src msk i bound h =
     (if i < bound
      then (if (push_bit 1 h + gearTable ! unat (src ! i)) AND msk = 0 then Inl (Suc i)
            else scan src msk (Suc i) bound (push_bit 1 h + gearTable ! unat (src ! i)))
      else Inr h)"
  by pat_completeness auto
termination
  by (relation "measure (\<lambda>(src, msk, i, bound, h). bound - i)") auto

declare scan.simps [simp del]

definition cut :: "cparams \<Rightarrow> bytes \<Rightarrow> nat" where
  "cut c src =
     (let n = length src
      in if n \<le> ck_min c then n
         else let normal = (if n < ck_avg c then n else ck_avg c)
              in case scan src (ck_maskS c) (ck_min c) normal 0 of
                   Inl k \<Rightarrow> k
                 | Inr h \<Rightarrow> (case scan src (ck_maskL c) normal n h of Inl k \<Rightarrow> k | Inr _ \<Rightarrow> n))"

datatype nerr = NoProgress | Stream rerr

definition Next :: "chunker \<Rightarrow> ((nerr + chunk) \<times> chunker) option" where
  "Next c0 =
     (case (if ck_err c0 = None \<and> length (ck_buf c0) < ck_max (ck_p c0) then fill c0 else Some c0) of
        None \<Rightarrow> None
      | Some c \<Rightarrow> Some
          (if ck_buf c = []
           then (case ck_err c of None \<Rightarrow> (Inl NoProgress, c) | Some e \<Rightarrow> (Inl (Stream e), c))
           else if ck_err c \<noteq> None \<and> ck_err c \<noteq> Some EOF
           then (Inl (Stream (the (ck_err c))), c)
           else let k = cut (ck_p c) (ck_buf c)
                in (Inr \<lparr>Data = take k (ck_buf c), Offset = ck_off c\<rparr>,
                    c\<lparr>ck_off := ck_off c + k, ck_buf := drop k (ck_buf c)\<rparr>)))"

text \<open>The loop every caller runs: \<open>Next\<close> until it returns an error.\<close>

partial_function (option) drain :: "chunker \<Rightarrow> (chunk list \<times> nerr) option" where
  "drain c =
     (case Next c of
        None \<Rightarrow> None
      | Some (Inl e, c') \<Rightarrow> Some ([], e)
      | Some (Inr ch, c') \<Rightarrow>
          Option.bind (drain c') (\<lambda>(chs, e). Some (ch # chs, e)))"


section \<open>Facts of the cut search\<close>

lemma scan_done [simp]: "\<not> i < bound \<Longrightarrow> scan src m i bound h = Inr h"
  by (simp add: scan.simps [of src m i bound h])

lemma scan_hit: "i < bound \<Longrightarrow> (push_bit 1 h + gearTable ! unat (src ! i)) AND m = 0 \<Longrightarrow>
    scan src m i bound h = Inl (Suc i)"
  by (simp add: scan.simps [of src m i bound h])

lemma scan_miss: "i < bound \<Longrightarrow> (push_bit 1 h + gearTable ! unat (src ! i)) AND m \<noteq> 0 \<Longrightarrow>
    scan src m i bound h = scan src m (Suc i) bound (push_bit 1 h + gearTable ! unat (src ! i))"
  by (simp add: scan.simps [of src m i bound h])

text \<open>The three ways one iteration goes, as a case rule for the inductions below.\<close>

lemma scan_cases:
  obtains (finish) "\<not> i < bound"
  | (hit) "i < bound" "(push_bit 1 h + gearTable ! unat (src ! i)) AND m = 0"
  | (miss) "i < bound" "(push_bit 1 h + gearTable ! unat (src ! i)) AND m \<noteq> 0"
  by blast

lemma scan_Inl_bounds: "scan src m i bound h = Inl k \<Longrightarrow> i < k \<and> k \<le> bound"
proof (induction src m i bound h rule: scan.induct)
  case (1 src m i bound h)
  show ?case
    by (cases rule: scan_cases [where i = i and bound = bound and h = h and src = src and m = m])
      (use 1 in \<open>auto simp: scan_hit scan_miss\<close>)
qed

text \<open>The search reads only the bytes between its start and its result.\<close>

lemma scan_local:
  assumes "scan src m i bound h = Inl k" "k \<le> bound'" "\<And>j. j < k \<Longrightarrow> src' ! j = src ! j"
  shows "scan src' m i bound' h = Inl k"
  using assms
proof (induction src m i bound h rule: scan.induct)
  case (1 src m i bound h)
  have ik: "i < k" using scan_Inl_bounds [OF "1.prems"(1)] by simp
  then have here: "src' ! i = src ! i" "i < bound'" using "1.prems" by auto
  show ?case
    by (cases rule: scan_cases [where i = i and bound = bound and h = h and src = src and m = m])
      (use 1 here in \<open>auto simp: scan_hit scan_miss\<close>)
qed

lemma scan_Inr_local:
  assumes "scan src m i bound h = Inr g" "\<And>j. j < bound \<Longrightarrow> src' ! j = src ! j"
  shows "scan src' m i bound h = Inr g"
  using assms
proof (induction src m i bound h rule: scan.induct)
  case (1 src m i bound h)
  show ?case
    by (cases rule: scan_cases [where i = i and bound = bound and h = h and src = src and m = m])
      (use 1 in \<open>auto simp: scan_hit scan_miss\<close>)
qed

lemma cut_small: "length src \<le> ck_min c \<Longrightarrow> cut c src = length src"
  by (simp add: cut_def)

lemma cut_le: "ck_min c < ck_avg c \<Longrightarrow> cut c src \<le> length src"
  by (auto simp: cut_def Let_def dest: scan_Inl_bounds split: sum.splits)

lemma cut_gt_min: "ck_min c < ck_avg c \<Longrightarrow> ck_min c < length src \<Longrightarrow> ck_min c < cut c src"
  by (auto simp: cut_def Let_def dest: scan_Inl_bounds split: sum.splits)

lemma cut_pos: "ck_min c < ck_avg c \<Longrightarrow> src \<noteq> [] \<Longrightarrow> 0 < cut c src"
  using cut_gt_min [of c src] cut_small [of src c] by (cases "length src \<le> ck_min c") auto

lemma cut_prefix_decides:
  assumes "ck_min c < ck_avg c" "cut c xs < length xs" "take (cut c xs) ys = take (cut c xs) xs"
  shows "cut c ys = cut c xs"
proof -
  let ?k = "cut c xs"
  have long: "ck_min c < length xs"
    using assms(2) cut_small [of xs c] by force
  then have kmin: "ck_min c < ?k"
    using cut_gt_min assms(1) by blast
  have "length (take ?k ys) = ?k"
    using assms(2,3) by simp
  then have ylen: "?k \<le> length ys" by simp
  have same: "ys ! j = xs ! j" if "j < ?k" for j
    using that assms(3) by (metis nth_take)
  let ?nx = "if length xs < ck_avg c then length xs else ck_avg c"
  let ?ny = "if length ys < ck_avg c then length ys else ck_avg c"
  show ?thesis
  proof (cases "scan xs (ck_maskS c) (ck_min c) ?nx 0")
    case (Inl k)
    then have k: "?k = k" using long by (simp add: cut_def)
    then have "k \<le> ?ny" using ylen scan_Inl_bounds [OF Inl] by (auto split: if_splits)
    then have "scan ys (ck_maskS c) (ck_min c) ?ny 0 = Inl k"
      using scan_local [OF Inl] same k by blast
    then show ?thesis using k kmin ylen by (simp add: cut_def)
  next
    case first: (Inr h)
    then obtain k where second: "scan xs (ck_maskL c) ?nx (length xs) h = Inl k"
      using long assms(2) by (cases "scan xs (ck_maskL c) ?nx (length xs) h") (auto simp: cut_def Let_def)
    then have k: "?k = k" using long first by (simp add: cut_def)
    have nk: "?nx < k" "k \<le> length xs" using scan_Inl_bounds [OF second] by auto
    then have nx: "?nx = ck_avg c" by (auto split: if_splits)
    then have ny: "?ny = ck_avg c" using nk k ylen by auto
    have "scan ys (ck_maskS c) (ck_min c) ?ny 0 = Inr h"
      unfolding ny by (rule scan_Inr_local [OF first [unfolded nx]]) (use nk nx k same in auto)
    moreover have "scan ys (ck_maskL c) ?ny (length ys) h = Inl k"
      unfolding ny by (rule scan_local [OF second [unfolded nx]]) (use ylen k same in auto)
    ultimately show ?thesis using k kmin ylen by (simp add: cut_def)
  qed
qed

section \<open>Filling the window\<close>

definition stream_end :: "rerr \<Rightarrow> rerr" where
  "stream_end e = (if e = UnexpectedEOF then EOF else e)"

definition ck_inv :: "chunker \<Rightarrow> bool" where
  "ck_inv c \<longleftrightarrow> 0 < ck_min (ck_p c) \<and> ck_min (ck_p c) < ck_avg (ck_p c) \<and> ck_avg (ck_p c) < ck_max (ck_p c) \<and>
     0 < ck_cap c \<and> ck_cap c \<le> ck_max (ck_p c) \<and> length (ck_buf c) \<le> ck_cap c \<and>
     (ck_err c \<noteq> None \<longrightarrow> rd_data (ck_r c) = [] \<and> ck_err c = Some (stream_end (rd_end (ck_r c))))"

lemma NewChunker_inv: "NewChunker r opts = Inr c \<Longrightarrow>
    ck_inv c \<and> ck_buf c = [] \<and> ck_off c = 0 \<and> ck_err c = None \<and> ck_r c = r"
  by (auto simp: NewChunker_def ck_inv_def Let_def initialWindow_def split: if_splits)

lemma read_full_fits: "k \<le> length (rd_data r) \<Longrightarrow>
    read_full r k = (take k (rd_data r), None, r\<lparr>rd_data := drop k (rd_data r)\<rparr>)"
  by (simp add: read_full_def Let_def)

lemma read_full_short: "length (rd_data r) < k \<Longrightarrow> \<exists>e. stream_end e = stream_end (rd_end r) \<and>
    read_full r k = (rd_data r, Some e, r\<lparr>rd_data := []\<rparr>)"
  by (auto simp: read_full_def stream_end_def Let_def)

text \<open>
  \<open>fill\<close> returns, and what it leaves is what one \<open>io.ReadFull(r, buf[n:max])\<close> would have
  left, whatever the buffer's capacity was.
\<close>

lemma fill_correct:
  assumes "ck_inv c" "ck_err c = None"
  shows "\<exists>c'. fill c = Some c' \<and> ck_inv c' \<and> ck_p c' = ck_p c \<and>
     ck_off c' = ck_off c \<and> rd_end (ck_r c') = rd_end (ck_r c) \<and>
     ck_buf c' = take (ck_max (ck_p c)) (ck_buf c @ rd_data (ck_r c)) \<and>
     rd_data (ck_r c') = drop (ck_max (ck_p c)) (ck_buf c @ rd_data (ck_r c)) \<and>
     ck_err c' = (if ck_max (ck_p c) \<le> length (ck_buf c @ rd_data (ck_r c)) then None
                  else Some (stream_end (rd_end (ck_r c))))"
  using assms
proof (induction "ck_max (ck_p c) - length (ck_buf c)" arbitrary: c rule: less_induct)
  case less
  let ?n = "length (ck_buf c)" and ?d = "rd_data (ck_r c)"
  show ?case
  proof (cases "?n < ck_max (ck_p c)")
    case False
    then have "?n = ck_max (ck_p c)" using less.prems by (auto simp: ck_inv_def)
    then show ?thesis using less.prems by (simp add: fill.simps [of c])
  next
    case True
    define cap' where "cap' = (if ?n = ck_cap c
        then (if ck_max (ck_p c) < 2 * ck_cap c then ck_max (ck_p c) else 2 * ck_cap c) else ck_cap c)"
    have cap: "?n < cap'" "cap' \<le> ck_max (ck_p c)"
      using True less.prems(1) by (auto simp: cap'_def ck_inv_def)
    define out where "out = read_full (ck_r c) (cap' - ?n)"
    define c1 where "c1 = c\<lparr>ck_cap := cap', ck_buf := ck_buf c @ fst out, ck_r := snd (snd out)\<rparr>"
    have step: "fill c = (case fst (snd out) of None \<Rightarrow> fill c1
        | Some e \<Rightarrow> Some (c1\<lparr>ck_err := Some (if e = UnexpectedEOF then EOF else e)\<rparr>))"
      using True by (subst fill.simps)
      (simp only: cap'_def [symmetric] out_def [symmetric] c1_def [symmetric] Let_def if_True)
    show ?thesis
    proof (cases "cap' - ?n \<le> length ?d")
      case fits: True
      then have out: "out = (take (cap' - ?n) ?d, None, (ck_r c)\<lparr>rd_data := drop (cap' - ?n) ?d\<rparr>)"
        by (simp add: out_def read_full_fits)
      then have c1: "ck_buf c1 @ rd_data (ck_r c1) = ck_buf c @ ?d" "length (ck_buf c1) = cap'"
        "ck_inv c1" "ck_err c1 = None"
        "ck_p c1 = ck_p c" "ck_off c1 = ck_off c" "rd_end (ck_r c1) = rd_end (ck_r c)"
        using fits cap less.prems by (auto simp: c1_def ck_inv_def)
      have "ck_max (ck_p c1) - length (ck_buf c1) < ck_max (ck_p c) - ?n"
        using c1 cap by simp
      note ih = less.hyps [OF this c1(3,4), unfolded c1(1,5,6,7)]
      have "fill c = fill c1" using step out by simp
      with ih show ?thesis by (simp only:)
    next
      case short: False
      then obtain e where e: "stream_end e = stream_end (rd_end (ck_r c))"
        and out: "out = (?d, Some e, (ck_r c)\<lparr>rd_data := []\<rparr>)"
        using read_full_short [of "ck_r c" "cap' - ?n"] by (auto simp: out_def)
      have "fill c = Some (c1\<lparr>ck_err := Some (stream_end e)\<rparr>)"
        using step out by (simp add: stream_end_def)
      then show ?thesis
        using out e short cap less.prems by (auto simp: c1_def ck_inv_def)
    qed
  qed
qed


section \<open>The chunk sequence\<close>

text \<open>
  The reference: cut the whole byte string repeatedly, each time looking at most \<open>max\<close>
  bytes ahead. No window, no buffer, no reader.
\<close>

function cdc :: "cparams \<Rightarrow> bytes \<Rightarrow> bytes list" where
  "cdc c xs =
     (if xs = [] \<or> cut c (take (ck_max c) xs) = 0 then []
      else take (cut c (take (ck_max c) xs)) xs # cdc c (drop (cut c (take (ck_max c) xs)) xs))"
  by pat_completeness auto
termination
  by (relation "measure (\<lambda>(c, xs). length xs)") auto

declare cdc.simps [simp del]

fun located :: "nat \<Rightarrow> bytes list \<Rightarrow> chunk list" where
  "located off [] = []"
| "located off (d # ds) = \<lparr>Data = d, Offset = off\<rparr> # located (off + length d) ds"

lemma map_Data_located [simp]: "map Data (located off ds) = ds"
  by (induction ds arbitrary: off) auto

lemma Data_set_located [simp]: "Data ` set (located off ds) = set ds"
  using map_Data_located [of off ds] by (metis list.set_map)

definition sane :: "cparams \<Rightarrow> bool" where
  "sane c \<longleftrightarrow> 0 < ck_min c \<and> ck_min c < ck_avg c \<and> ck_avg c < ck_max c"

lemma cdc_Nil [simp]: "cdc c [] = []"
  by (simp add: cdc.simps [of c "[]"])

lemma sane_cut:
  assumes "sane c" "xs \<noteq> []"
  shows "0 < cut c (take (ck_max c) xs)" "cut c (take (ck_max c) xs) \<le> ck_max c"
    "cut c (take (ck_max c) xs) \<le> length xs"
proof -
  have "take (ck_max c) xs \<noteq> []" using assms by (auto simp: sane_def)
  then show "0 < cut c (take (ck_max c) xs)"
    using assms by (intro cut_pos) (auto simp: sane_def)
  have "cut c (take (ck_max c) xs) \<le> length (take (ck_max c) xs)"
    using assms by (intro cut_le) (auto simp: sane_def)
  then show "cut c (take (ck_max c) xs) \<le> ck_max c" "cut c (take (ck_max c) xs) \<le> length xs"
    by auto
qed

lemma cdc_Cons: "sane c \<Longrightarrow> xs \<noteq> [] \<Longrightarrow>
    cdc c xs = take (cut c (take (ck_max c) xs)) xs # cdc c (drop (cut c (take (ck_max c) xs)) xs)"
  using sane_cut(1) [of c xs] by (simp add: cdc.simps [of c xs])

lemma cdc_induct [consumes 1, case_names Nil Cons]:
  assumes "sane c" "P []"
    and "\<And>xs. xs \<noteq> [] \<Longrightarrow> P (drop (cut c (take (ck_max c) xs)) xs) \<Longrightarrow> P xs"
  shows "P xs"
proof (induction "length xs" arbitrary: xs rule: less_induct)
  case less
  show ?case
  proof (cases "xs = []")
    case False
    with less assms(3) sane_cut(1) [OF assms(1) False] show ?thesis
      by (metis diff_less length_drop length_greater_0_conv)
  qed (use assms(2) in simp)
qed

lemma concat_cdc:
  assumes "sane c"
  shows "concat (cdc c xs) = xs"
  using assms by (induction xs rule: cdc_induct) (use cdc_Cons [OF assms] in auto)

lemma cdc_le_max:
  assumes "sane c" "d \<in> set (cdc c xs)"
  shows "d \<noteq> [] \<and> length d \<le> ck_max c"
  using assms
proof (induction xs rule: cdc_induct)
  case (Cons xs)
  then show ?case
    using sane_cut [OF assms(1) Cons.hyps] by (auto simp: cdc_Cons [OF assms(1)])
qed simp

lemma cut_window_gt_min:
  assumes "sane c" "cut c (take (ck_max c) xs) < length xs"
  shows "ck_min c < cut c (take (ck_max c) xs)"
proof (rule ccontr)
  assume contra: "\<not> ck_min c < cut c (take (ck_max c) xs)"
  then have "length (take (ck_max c) xs) \<le> ck_min c"
    using cut_gt_min [of c "take (ck_max c) xs"] assms(1) by (metis not_le sane_def)
  then have "cut c (take (ck_max c) xs) = length (take (ck_max c) xs)"
    by (rule cut_small)
  with contra assms show False by (auto simp: sane_def)
qed

lemma cdc_gt_min:
  assumes "sane c" "d \<in> set (butlast (cdc c xs))"
  shows "ck_min c < length d"
  using assms
proof (induction xs rule: cdc_induct)
  case (Cons xs)
  let ?k = "cut c (take (ck_max c) xs)"
  have split: "cdc c xs = take ?k xs # cdc c (drop ?k xs)"
    by (rule cdc_Cons [OF assms(1) Cons.hyps])
  show ?case
  proof (cases "cdc c (drop ?k xs) = []")
    case True
    with Cons.prems split show ?thesis by simp
  next
    case False
    then have "?k < length xs" by (metis cdc_Nil drop_all not_le)
    moreover have "ck_min c < ?k"
      by (rule cut_window_gt_min [OF assms(1)]) fact
    ultimately show ?thesis
      using False Cons split by auto
  qed
qed simp

section \<open>The chunker against the reference\<close>

text \<open>What is still to come out of a chunker: its window and the reader's bytes.\<close>

definition pending :: "chunker \<Rightarrow> bytes" where
  "pending c = ck_buf c @ rd_data (ck_r c)"

lemma ck_inv_sane: "ck_inv c \<Longrightarrow> sane (ck_p c)"
  by (simp add: ck_inv_def sane_def)

lemma window_filled:
  assumes "ck_inv c"
  obtains c' where
    "(if ck_err c = None \<and> length (ck_buf c) < ck_max (ck_p c) then fill c else Some c) = Some c'"
    "ck_inv c'" "ck_p c' = ck_p c" "ck_off c' = ck_off c"
    "rd_end (ck_r c') = rd_end (ck_r c)" "pending c' = pending c"
    "ck_buf c' = take (ck_max (ck_p c)) (pending c)"
    "ck_err c' = None \<longleftrightarrow> ck_err c = None \<and> ck_max (ck_p c) \<le> length (pending c)"
proof (cases "ck_err c = None \<and> length (ck_buf c) < ck_max (ck_p c)")
  case True
  then obtain c' where c': "fill c = Some c'" "ck_inv c'" "ck_p c' = ck_p c" "ck_off c' = ck_off c"
      "rd_end (ck_r c') = rd_end (ck_r c)"
      "ck_buf c' = take (ck_max (ck_p c)) (pending c)"
      "rd_data (ck_r c') = drop (ck_max (ck_p c)) (pending c)"
      "ck_err c' = (if ck_max (ck_p c) \<le> length (pending c) then None
                    else Some (stream_end (rd_end (ck_r c))))"
    using fill_correct [OF assms] by (auto simp: pending_def)
  have "pending c' = pending c"
    unfolding pending_def [of c'] c'(6,7) by (rule append_take_drop_id)
  with True c' that show thesis by simp
next
  case False
  have "ck_buf c = take (ck_max (ck_p c)) (pending c)"
    using assms False by (auto simp: ck_inv_def pending_def)
  moreover have "ck_err c = None \<longleftrightarrow> ck_err c = None \<and> ck_max (ck_p c) \<le> length (pending c)"
    using False by (auto simp: pending_def)
  ultimately show thesis using that [of c] assms False by auto
qed


lemma Next_chunk:
  assumes "ck_inv c" "pending c \<noteq> []"
    and "stream_end (rd_end (ck_r c)) = EOF \<or> (ck_err c = None \<and> ck_max (ck_p c) \<le> length (pending c))"
  defines "k \<equiv> cut (ck_p c) (take (ck_max (ck_p c)) (pending c))"
  obtains c' where "Next c = Some (Inr \<lparr>Data = take k (pending c), Offset = ck_off c\<rparr>, c')"
    "ck_inv c'" "ck_p c' = ck_p c" "rd_end (ck_r c') = rd_end (ck_r c)"
    "pending c' = drop k (pending c)" "ck_off c' = ck_off c + k"
proof -
  obtain w where w:
    "(if ck_err c = None \<and> length (ck_buf c) < ck_max (ck_p c) then fill c else Some c) = Some w"
    "ck_inv w" "ck_p w = ck_p c" "ck_off w = ck_off c" "rd_end (ck_r w) = rd_end (ck_r c)"
    "pending w = pending c" "ck_buf w = take (ck_max (ck_p c)) (pending c)"
    "ck_err w = None \<longleftrightarrow> ck_err c = None \<and> ck_max (ck_p c) \<le> length (pending c)"
    using window_filled [OF assms(1)] by blast
  have "ck_buf w \<noteq> []" using w(7) assms(1,2) by (auto simp: ck_inv_def)
  moreover have "ck_err w = None \<or> ck_err w = Some EOF"
    using assms(3) w(2,5,8) by (auto simp: ck_inv_def)
  ultimately have next_eq: "Next c = Some (Inr \<lparr>Data = take k (ck_buf w), Offset = ck_off c\<rparr>,
      w\<lparr>ck_off := ck_off c + k, ck_buf := drop k (ck_buf w)\<rparr>)"
    unfolding Next_def w(1) by (auto simp: Let_def w(3,4,7) k_def)
  have k: "k \<le> length (ck_buf w)" "k \<le> ck_max (ck_p c)"
    using sane_cut [OF ck_inv_sane [OF assms(1)] assms(2)] unfolding k_def w(7) by auto
  have data: "take k (ck_buf w) = take k (pending c)"
    using k(2) by (simp add: w(7) min_def)
  have "pending (w\<lparr>ck_off := ck_off c + k, ck_buf := drop k (ck_buf w)\<rparr>) = drop k (pending w)"
    using k(1) by (simp add: pending_def)
  moreover have "length (ck_buf w) - k \<le> ck_cap w" using w(2) by (auto simp: ck_inv_def)
  ultimately show thesis
    using that [of "w\<lparr>ck_off := ck_off c + k, ck_buf := drop k (ck_buf w)\<rparr>"] next_eq data w(2-6)
    by (simp add: ck_inv_def)
qed

lemma Next_error:
  assumes "ck_inv c"
    and "pending c = [] \<or> stream_end (rd_end (ck_r c)) \<noteq> EOF \<and>
      \<not> (ck_err c = None \<and> ck_max (ck_p c) \<le> length (pending c))"
  shows "\<exists>c'. Next c = Some (Inl (Stream (stream_end (rd_end (ck_r c)))), c')"
proof -
  obtain w where w:
    "(if ck_err c = None \<and> length (ck_buf c) < ck_max (ck_p c) then fill c else Some c) = Some w"
    "ck_inv w" "ck_p w = ck_p c" "ck_off w = ck_off c" "rd_end (ck_r w) = rd_end (ck_r c)"
    "pending w = pending c" "ck_buf w = take (ck_max (ck_p c)) (pending c)"
    "ck_err w = None \<longleftrightarrow> ck_err c = None \<and> ck_max (ck_p c) \<le> length (pending c)"
    using window_filled [OF assms(1)] by blast
  have "ck_err w \<noteq> None"
    using assms w(8) by (auto simp: ck_inv_def)
  then have err: "ck_err w = Some (stream_end (rd_end (ck_r c)))"
    using w(2,5) by (auto simp: ck_inv_def)
  show ?thesis
    unfolding Next_def w(1) using err assms(2) w(7) by (auto simp: Let_def)
qed

lemma drain_eof:
  assumes "ck_inv c" "stream_end (rd_end (ck_r c)) = EOF"
  shows "drain c = Some (located (ck_off c) (cdc (ck_p c) (pending c)), Stream EOF)"
  using assms
proof (induction "length (pending c)" arbitrary: c rule: less_induct)
  case less
  show ?case
  proof (cases "pending c = []")
    case True
    with Next_error [of c] less.prems obtain c' where "Next c = Some (Inl (Stream EOF), c')"
      by auto
    with True show ?thesis by (simp add: drain.simps [of c])
  next
    case False
    let ?k = "cut (ck_p c) (take (ck_max (ck_p c)) (pending c))"
    obtain c' where c': "Next c = Some (Inr \<lparr>Data = take ?k (pending c), Offset = ck_off c\<rparr>, c')"
      "ck_inv c'" "ck_p c' = ck_p c" "rd_end (ck_r c') = rd_end (ck_r c)"
      "pending c' = drop ?k (pending c)" "ck_off c' = ck_off c + ?k"
      using Next_chunk [OF less.prems(1) False] less.prems(2) by blast
    note sane = ck_inv_sane [OF less.prems(1)]
    note k = sane_cut [OF sane False]
    have "length (pending c') < length (pending c)" using c'(5) k(1,3) by simp
    from less.hyps [OF this c'(2)] less.prems(2) c'(3-6)
    have "drain c' = Some (located (ck_off c + ?k) (cdc (ck_p c) (drop ?k (pending c))), Stream EOF)"
      by simp
    then show ?thesis
      using c'(1) k(3) by (simp add: drain.simps [of c] cdc_Cons [OF sane False])
  qed
qed

text \<open>
  A read that fails: what was emitted before the failure is what any completion of the
  stream would have started with, and the failure is what the caller sees.
\<close>

lemma cdc_Cons_window:
  assumes "sane c" "ck_max c \<le> length xs"
  defines "k \<equiv> cut c (take (ck_max c) xs)"
  shows "cdc c (xs @ ys) = take k xs # cdc c (drop k xs @ ys)"
proof -
  have ne: "xs \<noteq> []" using assms(1,2) by (auto simp: sane_def)
  note k = sane_cut [OF assms(1) ne, folded k_def]
  have win: "take (ck_max c) (xs @ ys) = take (ck_max c) xs" using assms(2) by simp
  show ?thesis
    using cdc_Cons [OF assms(1), of "xs @ ys"] ne k(3)
    unfolding win k_def [symmetric] by simp
qed

lemma drain_failure:
  assumes "ck_inv c" "stream_end (rd_end (ck_r c)) \<noteq> EOF"
  shows "\<exists>ds. drain c = Some (located (ck_off c) ds, Stream (stream_end (rd_end (ck_r c)))) \<and>
     (\<forall>rest. \<exists>more. cdc (ck_p c) (pending c @ rest) = ds @ more)"
  using assms
proof (induction "length (pending c)" arbitrary: c rule: less_induct)
  case less
  show ?case
  proof (cases "ck_err c = None \<and> ck_max (ck_p c) \<le> length (pending c)")
    case False
    with Next_error [of c] less.prems obtain c'
      where "Next c = Some (Inl (Stream (stream_end (rd_end (ck_r c)))), c')"
      by blast
    then show ?thesis by (intro exI [of _ "[]"]) (simp add: drain.simps [of c])
  next
    case True
    let ?k = "cut (ck_p c) (take (ck_max (ck_p c)) (pending c))"
    have ne: "pending c \<noteq> []" using True less.prems(1) by (auto simp: ck_inv_def)
    obtain c' where c': "Next c = Some (Inr \<lparr>Data = take ?k (pending c), Offset = ck_off c\<rparr>, c')"
      "ck_inv c'" "ck_p c' = ck_p c" "rd_end (ck_r c') = rd_end (ck_r c)"
      "pending c' = drop ?k (pending c)" "ck_off c' = ck_off c + ?k"
      using Next_chunk [OF less.prems(1) ne] True by blast
    note sane = ck_inv_sane [OF less.prems(1)]
    note k = sane_cut [OF sane ne]
    have "length (pending c') < length (pending c)" using c'(5) k(1,3) by simp
    from less.hyps [OF this c'(2)] less.prems(2) c'(3-6) obtain ds where ds:
      "drain c' = Some (located (ck_off c + ?k) ds, Stream (stream_end (rd_end (ck_r c))))"
      "\<forall>rest. \<exists>more. cdc (ck_p c) (drop ?k (pending c) @ rest) = ds @ more"
      by auto
    have "drain c = Some (located (ck_off c) (take ?k (pending c) # ds),
        Stream (stream_end (rd_end (ck_r c))))"
      using c'(1) ds(1) k(3) by (simp add: drain.simps [of c])
    moreover have "\<exists>more. cdc (ck_p c) (pending c @ rest) = (take ?k (pending c) # ds) @ more" for rest
      using ds(2) True by (simp add: cdc_Cons_window [OF sane])
    ultimately show ?thesis by blast
  qed
qed

text \<open>Appending to a stream leaves every chunk but the last one as it was.\<close>

lemma cut_window_append:
  assumes "sane c" "cut c (take (ck_max c) xs) < length xs"
  shows "cut c (take (ck_max c) (xs @ ys)) = cut c (take (ck_max c) xs)"
proof (cases "ck_max c \<le> length xs")
  case False
  then have "take (ck_max c) xs = xs" by simp
  with assms False show ?thesis
    by (intro cut_prefix_decides) (auto simp: sane_def)
qed simp

lemma cdc_append:
  assumes "sane c"
  shows "\<exists>more. cdc c (xs @ ys) = butlast (cdc c xs) @ more"
  using assms
proof (induction xs rule: cdc_induct)
  case (Cons xs)
  let ?k = "cut c (take (ck_max c) xs)"
  show ?case
  proof (cases "?k < length xs")
    case False
    then have "cdc c (drop ?k xs) = []" by simp
    then show ?thesis using Cons.hyps by (simp add: cdc_Cons [OF assms])
  next
    case True
    then have rest: "cdc c (drop ?k xs) \<noteq> []"
      using cdc_Cons [OF assms, of "drop ?k xs"] by simp
    have "cdc c (xs @ ys) = take ?k xs # cdc c (drop ?k xs @ ys)"
      using cdc_Cons [OF assms, of "xs @ ys"] Cons.hyps True
      unfolding cut_window_append [OF assms True] by simp
    moreover have "butlast (cdc c xs) = take ?k xs # butlast (cdc c (drop ?k xs))"
      using rest Cons.hyps by (simp add: cdc_Cons [OF assms])
    ultimately show ?thesis using Cons.IH by auto
  qed
qed simp


section \<open>Properties\<close>

lemma started:
  assumes "NewChunker \<lparr>rd_data = d, rd_end = e\<rparr> opts = Inr c"
  shows "ck_inv c" "pending c = d" "ck_off c = 0" "rd_end (ck_r c) = e" "ck_err c = None"
  using NewChunker_inv [OF assms] by (simp_all add: pending_def)

text \<open>
  C2: Draining a chunker over a stream returns (it never hangs and never reports "no
  progress"), ends with \<open>io.EOF\<close>, and the chunks are exactly the reference cuts of the
  whole stream: their data concatenates back to the stream and each \<open>Offset\<close> is where its
  data starts. So the cut points do not depend on how the window was buffered.
\<close>

theorem chunker_splits_stream:
  assumes "NewChunker \<lparr>rd_data = d, rd_end = EOF\<rparr> opts = Inr c"
  shows "\<exists>chs. drain c = Some (chs, Stream EOF) \<and> chs = located 0 (cdc (ck_p c) d) \<and>
    concat (map Data chs) = d \<and> [] \<notin> set (map Data chs)"
proof -
  note s = started [OF assms]
  have "drain c = Some (located 0 (cdc (ck_p c) d), Stream EOF)"
    using drain_eof [OF s(1)] s by (simp add: stream_end_def)
  moreover have "concat (cdc (ck_p c) d) = d"
    by (rule concat_cdc [OF ck_inv_sane [OF s(1)]])
  moreover have "[] \<notin> set (cdc (ck_p c) d)"
    using cdc_le_max [OF ck_inv_sane [OF s(1)]] by blast
  ultimately show ?thesis by simp
qed

text \<open>
  C7: Size bounds: no chunk is longer than \<open>MaxSize\<close>, and every chunk but the last is
  longer than \<open>MinSize\<close>.
\<close>

theorem chunk_size_bounds:
  assumes "NewChunker \<lparr>rd_data = d, rd_end = EOF\<rparr> opts = Inr c"
    and "drain c = Some (chs, e)" "ch \<in> set chs"
  shows "length (Data ch) \<le> ck_max (ck_p c) \<and>
    (ch \<in> set (butlast chs) \<longrightarrow> ck_min (ck_p c) < length (Data ch))"
proof -
  note s = started [OF assms(1)]
  note sane = ck_inv_sane [OF s(1)]
  have "chs = located 0 (cdc (ck_p c) d)"
    using drain_eof [OF s(1)] s assms(2) by (simp add: stream_end_def)
  then have data: "map Data chs = cdc (ck_p c) d" by simp
  then have "Data ch \<in> set (cdc (ck_p c) d)"
    using assms(3) by (metis image_eqI list.set_map)
  then have "length (Data ch) \<le> ck_max (ck_p c)"
    using cdc_le_max [OF sane] by blast
  moreover have "ck_min (ck_p c) < length (Data ch)" if "ch \<in> set (butlast chs)"
    using cdc_gt_min [OF sane, of "Data ch" d] that
    unfolding data [symmetric] map_butlast [symmetric] by auto
  ultimately show ?thesis by blast
qed

text \<open>
  A failed read. When the reader ends in an error other than an end of input, draining
  returns that error, and the chunks emitted before it are the first chunks of any stream
  that continues the bytes read: no partial chunk is emitted for the failed read.
\<close>

theorem failed_read_emits_no_partial_chunk:
  assumes "NewChunker \<lparr>rd_data = d, rd_end = ReadError n\<rparr> opts = Inr c"
  shows "\<exists>ds. drain c = Some (located 0 ds, Stream (ReadError n)) \<and>
    (\<forall>rest. \<exists>more. cdc (ck_p c) (d @ rest) = ds @ more)"
proof -
  note s = started [OF assms]
  show ?thesis
    using drain_failure [OF s(1)] s by (simp add: stream_end_def)
qed

text \<open>
  Content-defined cuts: appending bytes to a stream leaves every chunk but the last
  one unchanged, which is what lets an appended file deduplicate against its old chunks.
\<close>

theorem append_keeps_chunks:
  assumes "NewChunker \<lparr>rd_data = d, rd_end = EOF\<rparr> opts = Inr c"
    and "NewChunker \<lparr>rd_data = d @ extra, rd_end = EOF\<rparr> opts = Inr c'"
    and "drain c = Some (chs, e)" "drain c' = Some (chs', e')"
  shows "\<exists>more. map Data chs' = butlast (map Data chs) @ more"
proof -
  note s = started [OF assms(1)] and s' = started [OF assms(2)]
  have "ck_p c' = ck_p c"
    using assms(1,2) by (auto simp: NewChunker_def Let_def split: if_splits)
  moreover have "chs = located 0 (cdc (ck_p c) d)" "chs' = located 0 (cdc (ck_p c') (d @ extra))"
    using drain_eof [OF s(1)] s drain_eof [OF s'(1)] s' assms(3,4) by (simp_all add: stream_end_def)
  ultimately show ?thesis
    using cdc_append [OF ck_inv_sane [OF s(1)], of d extra] by simp
qed

text \<open>
  A truncated stream. \<open>fill\<close> turns every \<open>io.ErrUnexpectedEOF\<close> into \<open>io.EOF\<close>, so a reader
  that itself ends in \<open>io.ErrUnexpectedEOF\<close> (a body cut short) is drained exactly as if
  it had ended cleanly there.
\<close>

theorem truncated_stream_drains_as_complete:
  assumes "NewChunker \<lparr>rd_data = d, rd_end = UnexpectedEOF\<rparr> opts = Inr c"
    and "NewChunker \<lparr>rd_data = d, rd_end = EOF\<rparr> opts = Inr c'"
  shows "drain c = drain c'"
proof -
  note s = started [OF assms(1)] and s' = started [OF assms(2)]
  have "ck_p c' = ck_p c"
    using assms by (auto simp: NewChunker_def Let_def split: if_splits)
  then show ?thesis
    using drain_eof [OF s(1)] s drain_eof [OF s'(1)] s' by (simp add: stream_end_def)
qed

section \<open>Witnesses\<close>

text \<open>The smallest legal parameters (an average of eight bytes) over short streams.\<close>

lemma small_options: "NewChunker r \<lparr>MinSize = 4, AvgSize = 8, MaxSize = 16\<rparr> =
   Inr \<lparr>ck_p = \<lparr>ck_min = 4, ck_avg = 8, ck_max = 16, ck_maskS = topMask 5, ck_maskL = topMask 1\<rparr>,
        ck_r = r, ck_buf = [], ck_cap = 16, ck_off = 0, ck_err = None\<rparr>"
proof -
  have "trailing_zeros 8 = 3"
    by (simp add: trailing_zeros.simps)
  then show ?thesis
    by (simp add: NewChunker_def or_default_def normalization_def initialWindow_def)
qed


theorem chunker_splits_stream_witness:
  "\<exists>c chs. NewChunker \<lparr>rd_data = [1, 2, 3, 4, 5, 6], rd_end = EOF\<rparr>
      \<lparr>MinSize = 4, AvgSize = 8, MaxSize = 16\<rparr> = Inr c \<and>
    drain c = Some (chs, Stream EOF) \<and> concat (map Data chs) = [1, 2, 3, 4, 5, 6]"
  using chunker_splits_stream [OF small_options] by (auto simp: small_options)

theorem chunk_size_bounds_witness:
  "\<exists>c ch. NewChunker \<lparr>rd_data = [1, 2, 3], rd_end = EOF\<rparr>
      \<lparr>MinSize = 4, AvgSize = 8, MaxSize = 16\<rparr> = Inr c \<and>
    drain c = Some ([ch], Stream EOF) \<and> length (Data ch) \<le> 16"
proof -
  let ?c = "\<lparr>ck_p = \<lparr>ck_min = 4, ck_avg = 8, ck_max = 16, ck_maskS = topMask 5, ck_maskL = topMask 1\<rparr>,
        ck_r = \<lparr>rd_data = [1, 2, 3], rd_end = EOF\<rparr>, ck_buf = [], ck_cap = 16, ck_off = 0, ck_err = None\<rparr>"
  have c: "NewChunker \<lparr>rd_data = [1, 2, 3], rd_end = EOF\<rparr>
      \<lparr>MinSize = 4, AvgSize = 8, MaxSize = 16\<rparr> = Inr ?c"
    by (rule small_options)
  have "cdc (ck_p ?c) [1, 2, 3] = [[1, 2, 3]]"
    by (simp add: cdc.simps cut_def)
  then have d: "drain ?c = Some ([\<lparr>Data = [1, 2, 3], Offset = 0\<rparr>], Stream EOF)"
    using drain_eof [OF started(1) [OF c]] started [OF c] by (simp add: stream_end_def)
  show ?thesis
    using c d chunk_size_bounds [OF c d, of "\<lparr>Data = [1, 2, 3], Offset = 0\<rparr>"] by auto
qed

theorem failed_read_emits_no_partial_chunk_witness:
  "\<exists>c ds. NewChunker \<lparr>rd_data = [1, 2, 3], rd_end = ReadError 7\<rparr>
      \<lparr>MinSize = 4, AvgSize = 8, MaxSize = 16\<rparr> = Inr c \<and>
    drain c = Some (located 0 ds, Stream (ReadError 7))"
  using small_options failed_read_emits_no_partial_chunk [OF small_options] by blast

theorem append_keeps_chunks_witness:
  "\<exists>c c' chs chs' more. NewChunker \<lparr>rd_data = [1, 2, 3], rd_end = EOF\<rparr>
      \<lparr>MinSize = 4, AvgSize = 8, MaxSize = 16\<rparr> = Inr c \<and>
    NewChunker \<lparr>rd_data = [1, 2, 3] @ [9], rd_end = EOF\<rparr>
      \<lparr>MinSize = 4, AvgSize = 8, MaxSize = 16\<rparr> = Inr c' \<and>
    drain c = Some (chs, Stream EOF) \<and> drain c' = Some (chs', Stream EOF) \<and>
    map Data chs' = butlast (map Data chs) @ more"
proof -
  obtain c c' where c: "NewChunker \<lparr>rd_data = [1, 2, 3], rd_end = EOF\<rparr>
      \<lparr>MinSize = 4, AvgSize = 8, MaxSize = 16\<rparr> = Inr c"
    and c': "NewChunker \<lparr>rd_data = [1, 2, 3] @ [9], rd_end = EOF\<rparr>
      \<lparr>MinSize = 4, AvgSize = 8, MaxSize = 16\<rparr> = Inr c'"
    using small_options by blast
  have d: "drain c = Some (located 0 (cdc (ck_p c) [1, 2, 3]), Stream EOF)"
    and d': "drain c' = Some (located 0 (cdc (ck_p c') ([1, 2, 3] @ [9])), Stream EOF)"
    using drain_eof [OF started(1) [OF c]] started [OF c]
      drain_eof [OF started(1) [OF c']] started [OF c'] by (simp_all add: stream_end_def)
  from append_keeps_chunks [OF c c' d d'] c c' d d' show ?thesis by blast
qed

theorem truncated_stream_drains_as_complete_witness:
  "\<exists>c c'. NewChunker \<lparr>rd_data = [1, 2, 3], rd_end = UnexpectedEOF\<rparr>
      \<lparr>MinSize = 4, AvgSize = 8, MaxSize = 16\<rparr> = Inr c \<and>
    NewChunker \<lparr>rd_data = [1, 2, 3], rd_end = EOF\<rparr>
      \<lparr>MinSize = 4, AvgSize = 8, MaxSize = 16\<rparr> = Inr c' \<and> drain c = drain c'"
  using truncated_stream_drains_as_complete [OF small_options small_options]
  by (auto simp: small_options)

end
