(* ===== verification/Entry_Codec.thy ===== *)
theory Entry_Codec
  imports Pelfs_Prelude
begin

text \<open>
  Pack entry encoding, \<open>internal/entrycodec/entrycodec.go\<close>: store-if-smaller zstd, then
  AES-256-GCM when there is a key. The zstd library and the AEAD are parameters, gathered
  in a record; \<open>codec_laws\<close> states what the code relies on (decompression undoes
  compression, no input compresses to no output, opening undoes sealing, the tag is 16 bytes). The random nonce is an
  argument, \<open>None\<close> when the random source fails. Copies that only avoid aliasing have no
  effect on values and are not modelled.
\<close>

record codec =
  zstd_enc :: "bytes \<Rightarrow> bytes"
  zstd_dec :: "bytes \<Rightarrow> bytes option"
  gcm_seal :: "bytes \<Rightarrow> bytes \<Rightarrow> bytes \<Rightarrow> bytes"
  gcm_open :: "bytes \<Rightarrow> bytes \<Rightarrow> bytes \<Rightarrow> bytes option"

definition AlgNone :: byte where "AlgNone = 0"
definition AlgZstd :: byte where "AlgZstd = 1"
definition KeySize :: nat where "KeySize = 32"
definition nonceSize :: nat where "nonceSize = 12"
definition gcmTagSize :: nat where "gcmTagSize = 16"

definition codec_laws :: "codec \<Rightarrow> bool" where
  "codec_laws cd \<longleftrightarrow>
     (\<forall>x. zstd_dec cd (zstd_enc cd x) = Some x) \<and> zstd_enc cd [] = [] \<and>
     (\<forall>k n p. gcm_open cd k n (gcm_seal cd k n p) = Some p) \<and>
     (\<forall>k n p. length (gcm_seal cd k n p) = length p + gcmTagSize)"

datatype codec_error = KeyLength nat | NonceFailure | TooShort nat | DecryptFailed | DecompressFailed
  | UnknownAlg byte

definition SealedLen :: "nat \<Rightarrow> bytes \<Rightarrow> nat" where
  "SealedLen n key = (if key = [] then n else n + nonceSize + gcmTagSize)"

definition newAEAD :: "bytes \<Rightarrow> codec_error + bytes" where
  "newAEAD key = (if length key \<noteq> KeySize then Inl (KeyLength (length key)) else Inr key)"

definition seal :: "codec \<Rightarrow> bytes \<Rightarrow> bytes \<Rightarrow> bytes option \<Rightarrow> codec_error + bytes" where
  "seal cd payload key nonce =
     (if key = [] then Inr payload
      else case newAEAD key of
             Inl e \<Rightarrow> Inl e
           | Inr k \<Rightarrow> (case nonce of
                 None \<Rightarrow> Inl NonceFailure
               | Some n \<Rightarrow> Inr (n @ gcm_seal cd k n payload)))"

definition Encode :: "codec \<Rightarrow> bytes \<Rightarrow> bytes \<Rightarrow> bytes option \<Rightarrow> codec_error + (bytes \<times> byte)" where
  "Encode cd data key nonce =
     (let z = zstd_enc cd data;
          (payload, alg) = (if length data \<le> length z then (data, AlgNone) else (z, AlgZstd))
      in case seal cd payload key nonce of Inl e \<Rightarrow> Inl e | Inr out \<Rightarrow> Inr (out, alg))"

definition EncodeZstd :: "codec \<Rightarrow> bytes \<Rightarrow> bytes \<Rightarrow> bytes option \<Rightarrow> codec_error + bytes" where
  "EncodeZstd cd data key nonce = seal cd (zstd_enc cd data) key nonce"

definition unseal :: "codec \<Rightarrow> bytes \<Rightarrow> bytes \<Rightarrow> codec_error + bytes" where
  "unseal cd stored key =
     (if key = [] then Inr stored
      else case newAEAD key of
             Inl e \<Rightarrow> Inl e
           | Inr k \<Rightarrow>
               (if length stored < nonceSize + gcmTagSize then Inl (TooShort (length stored))
                else case gcm_open cd k (take nonceSize stored) (drop nonceSize stored) of
                       None \<Rightarrow> Inl DecryptFailed
                     | Some p \<Rightarrow> Inr p))"

definition Decode :: "codec \<Rightarrow> bytes \<Rightarrow> byte \<Rightarrow> bytes \<Rightarrow> codec_error + bytes" where
  "Decode cd stored alg key =
     (case unseal cd stored key of
        Inl e \<Rightarrow> Inl e
      | Inr payload \<Rightarrow>
          (if alg = AlgNone then Inr payload
           else if alg = AlgZstd
           then (case zstd_dec cd payload of None \<Rightarrow> Inl DecompressFailed | Some out \<Rightarrow> Inr out)
           else Inl (UnknownAlg alg)))"

definition AlgOfStored :: "codec \<Rightarrow> bytes \<Rightarrow> bytes \<Rightarrow> int \<Rightarrow> byte \<times> bool" where
  "AlgOfStored cd data key clen =
     (let raw = int (SealedLen (length data) key)
      in if clen = raw then (AlgNone, True)
         else if raw < clen \<or> clen \<le> 0 then (0, False)
         else if int (SealedLen (length (zstd_enc cd data)) key) \<noteq> clen then (0, False)
         else (AlgZstd, True))"

section \<open>Lemmas\<close>

lemma codec_lawsD:
  assumes "codec_laws cd"
  shows "zstd_dec cd (zstd_enc cd x) = Some x" "gcm_open cd k n (gcm_seal cd k n p) = Some p"
    "length (gcm_seal cd k n p) = length p + gcmTagSize"
  using assms by (simp_all add: codec_laws_def)

text \<open>The nonce the writer draws is \<open>nonceSize\<close> bytes: it reads into a slice of that size.\<close>

definition nonce_ok :: "bytes option \<Rightarrow> bool" where
  "nonce_ok nonce \<longleftrightarrow> (case nonce of None \<Rightarrow> True | Some n \<Rightarrow> length n = nonceSize)"

lemma nonce_ok_Some [simp]: "nonce_ok (Some n) \<longleftrightarrow> length n = nonceSize"
  by (simp add: nonce_ok_def)

lemma length_seal: "codec_laws cd \<Longrightarrow> nonce_ok nonce \<Longrightarrow> seal cd p key nonce = Inr out \<Longrightarrow>
    length out = SealedLen (length p) key"
  by (auto simp: seal_def SealedLen_def codec_lawsD split: if_splits sum.splits option.splits)

lemma unseal_seal: "codec_laws cd \<Longrightarrow> nonce_ok nonce \<Longrightarrow> seal cd p key nonce = Inr out \<Longrightarrow>
    unseal cd out key = Inr p"
  by (auto simp: seal_def unseal_def codec_lawsD split: if_splits sum.splits option.splits)

lemma SealedLen_mono: "SealedLen m key < SealedLen n key \<longleftrightarrow> m < n"
  by (simp add: SealedLen_def)

lemma AlgZstd_neq [simp]: "AlgZstd \<noteq> AlgNone" "AlgNone \<noteq> AlgZstd"
  by (simp_all add: AlgZstd_def AlgNone_def)

lemma Encode_cases:
  assumes "Encode cd data key nonce = Inr (out, alg)"
  obtains (stored) "length data \<le> length (zstd_enc cd data)" "alg = AlgNone"
      "seal cd data key nonce = Inr out"
  | (compressed) "length (zstd_enc cd data) < length data" "alg = AlgZstd"
      "seal cd (zstd_enc cd data) key nonce = Inr out"
  using assms by (auto simp: Encode_def Let_def split: if_splits sum.splits)

section \<open>Properties\<close>

text \<open>
  Decoding undoes encoding, under the same key and the algorithm the encoder reported:
  with or without encryption, compressed or stored verbatim.
\<close>

theorem decode_encode:
  assumes "codec_laws cd" "nonce_ok nonce"
    and "Encode cd data key nonce = Inr (out, alg)"
  shows "Decode cd out alg key = Inr data"
  using assms(3)
proof (cases rule: Encode_cases)
  case stored
  with unseal_seal [OF assms(1,2)] show ?thesis by (auto simp: Decode_def)
next
  case compressed
  with unseal_seal [OF assms(1,2)] codec_lawsD [OF assms(1)] show ?thesis
    by (auto simp: Decode_def)
qed

text \<open>
  \<open>AlgOfStored\<close> recovers the codec of an entry from its stored length alone: for any
  plaintext, key and nonce, the length of what \<open>Encode\<close> produced determines the algorithm
  it chose, and a stored entry is never longer than \<open>SealedLen\<close> of its plaintext.
\<close>

theorem AlgOfStored_Encode:
  assumes "codec_laws cd" "nonce_ok nonce"
    and "Encode cd data key nonce = Inr (out, alg)"
  shows "AlgOfStored cd data key (int (length out)) = (alg, True) \<and>
    length out \<le> SealedLen (length data) key"
  using assms(3)
proof (cases rule: Encode_cases)
  case stored
  with length_seal [OF assms(1,2)] show ?thesis by (simp add: AlgOfStored_def)
next
  case compressed
  then have len: "length out = SealedLen (length (zstd_enc cd data)) key"
    using length_seal [OF assms(1,2)] by blast
  have less: "length out < SealedLen (length data) key"
    using compressed(1) by (simp add: len SealedLen_mono)
  show ?thesis
  proof (cases "length out = 0")
    case False
    with less len compressed show ?thesis by (simp add: AlgOfStored_def Let_def)
  next
    case True
    then have "zstd_enc cd data = zstd_enc cd []"
      using len assms(1) by (simp add: SealedLen_def codec_laws_def split: if_splits)
    then have "data = []"
      using codec_lawsD(1) [OF assms(1)] by (metis option.inject)
    then show ?thesis using compressed(1) by simp
  qed
qed


text \<open>
  Decoding fails closed: under a key, an entry too short to hold a nonce and a tag, one
  the AEAD does not open, or a key of the wrong length is an error before any payload is
  looked at; and so is an unknown algorithm once the entry has been opened.
\<close>

theorem Decode_errors:
  "(key \<noteq> [] \<and> length key \<noteq> KeySize \<longrightarrow> Decode cd stored alg key = Inl (KeyLength (length key))) \<and>
   (length key = KeySize \<and> length stored < 28 \<longrightarrow> Decode cd stored alg key = Inl (TooShort (length stored))) \<and>
   (length key = KeySize \<and> 28 \<le> length stored \<and> gcm_open cd key (take 12 stored) (drop 12 stored) = None \<longrightarrow>
     Decode cd stored alg key = Inl DecryptFailed) \<and>
   (unseal cd stored key = Inr p \<and> alg \<noteq> 0 \<and> alg \<noteq> 1 \<longrightarrow> Decode cd stored alg key = Inl (UnknownAlg alg))"
  by (auto simp: Decode_def unseal_def newAEAD_def KeySize_def nonceSize_def gcmTagSize_def
      AlgNone_def AlgZstd_def)

section \<open>Witnesses\<close>

text \<open>
  A concrete codec that meets the laws: run-length coding of a repeated byte, and a seal
  that prepends a fixed tag.
\<close>

definition rle_enc :: "bytes \<Rightarrow> bytes" where
  "rle_enc x = (if x = [] then []
     else if x = replicate (length x) (hd x) \<and> length x < 256
     then [1, hd x, word_of_nat (length x)] else 0 # x)"

definition rle_dec :: "bytes \<Rightarrow> bytes option" where
  "rle_dec z = (case z of [] \<Rightarrow> Some []
     | t # r \<Rightarrow> if t = 0 then Some r
        else case r of [b, n] \<Rightarrow> Some (replicate (unat n) b) | _ \<Rightarrow> None)"

definition toy_codec :: codec where
  "toy_codec = \<lparr>zstd_enc = rle_enc, zstd_dec = rle_dec,
     gcm_seal = (\<lambda>k n p. replicate 16 7 @ p), gcm_open = (\<lambda>k n c. Some (drop 16 c))\<rparr>"

lemma rle_round_trip: "rle_dec (rle_enc x) = Some x"
proof (cases "x \<noteq> [] \<and> x = replicate (length x) (hd x) \<and> length x < 256")
  case True
  then have "unat (word_of_nat (length x) :: byte) = length x"
    by (simp add: unat_of_nat)
  with True show ?thesis
    by (simp add: rle_enc_def rle_dec_def)
next
  case False
  then show ?thesis
    by (auto simp: rle_enc_def rle_dec_def)
qed

lemma toy_codec_laws: "codec_laws toy_codec"
proof -
  have "rle_enc [] = []"
    by (simp add: rle_enc_def)
  then show ?thesis
    by (simp add: codec_laws_def toy_codec_def rle_round_trip gcmTagSize_def)
qed

lemma toy_encoding: "Encode toy_codec (replicate 9 5) (replicate 32 1) (Some (replicate 12 3)) =
    Inr (replicate 12 3 @ replicate 16 7 @ [1, 5, 9], AlgZstd)"
  by (simp add: Encode_def toy_codec_def rle_enc_def seal_def newAEAD_def KeySize_def)

theorem decode_encode_witness:
  "Decode toy_codec (replicate 12 3 @ replicate 16 7 @ [1, 5, 9]) AlgZstd (replicate 32 1) =
     Inr (replicate 9 5)"
  by (rule decode_encode [OF toy_codec_laws _ toy_encoding]) (simp add: nonceSize_def)

theorem AlgOfStored_Encode_witness:
  "AlgOfStored toy_codec (replicate 9 5) (replicate 32 1) 31 = (AlgZstd, True)"
  using AlgOfStored_Encode [OF toy_codec_laws _ toy_encoding] by (simp add: nonceSize_def)

theorem Decode_errors_witness:
  "Decode toy_codec [1, 2] AlgNone (replicate 32 1) = Inl (TooShort 2)"
  using Decode_errors [of "replicate 32 1" toy_codec "[1, 2]" AlgNone "[]"] by (simp add: KeySize_def)

end
