(* ===== verification/Identity.thy ===== *)
theory Identity
  imports Pelfs_Prelude
begin

text \<open>
  Chunk identities, \<open>internal/chunkid/chunkid.go\<close>: the 32-byte content address, its lowercase
  hex form, and the choice between keyed and unkeyed hashing. The two modes of BLAKE3 are
  third-party code and parameters here. The hex codec is Go's \<open>encoding/hex\<close>, whose decoder
  takes upper case too; it serves the pack trailers as well.
\<close>

definition IdentitySize :: nat where "IdentitySize = 32"

section \<open>Hexadecimal\<close>

definition hex_digit :: "nat \<Rightarrow> char" where
  "hex_digit n = ''0123456789abcdef'' ! n"

definition hex_value :: "char \<Rightarrow> nat option" where
  "hex_value c =
     (let n = of_char c :: nat
      in if 48 \<le> n \<and> n \<le> 57 then Some (n - 48)
         else if 97 \<le> n \<and> n \<le> 102 then Some (n - 87)
         else if 65 \<le> n \<and> n \<le> 70 then Some (n - 55)
         else None)"

fun hex_encode :: "bytes \<Rightarrow> string" where
  "hex_encode [] = []"
| "hex_encode (b # bs) = hex_digit (unat b div 16) # hex_digit (unat b mod 16) # hex_encode bs"

fun hex_decode :: "string \<Rightarrow> bytes option" where
  "hex_decode [] = Some []"
| "hex_decode [c] = None"
| "hex_decode (c # d # s) =
     (case (hex_value c, hex_value d, hex_decode s) of
        (Some h, Some l, Some bs) \<Rightarrow> Some (word_of_nat (16 * h + l) # bs)
      | _ \<Rightarrow> None)"

text \<open>The lower-case form of a hex digit, which is what the encoder writes.\<close>

definition lower :: "char \<Rightarrow> char" where
  "lower c = (let n = of_char c :: nat in if 65 \<le> n \<and> n \<le> 90 then char_of (n + 32) else c)"

section \<open>Identities\<close>

definition Hex :: "bytes \<Rightarrow> string" where
  "Hex ident = hex_encode ident"

definition ParseIdentity :: "string \<Rightarrow> bytes option" where
  "ParseIdentity s = (if length s \<noteq> 2 * IdentitySize then None else hex_decode s)"

text \<open>A \<open>Hasher\<close> is its key, absent for the unkeyed mode; \<open>NewHasher\<close> panics on any other length.\<close>

definition NewHasher :: "bytes \<Rightarrow> bytes option option" where
  "NewHasher key =
     (if key = [] then Some None else if length key \<noteq> IdentitySize then None else Some (Some key))"

definition Sum :: "(bytes \<Rightarrow> bytes) \<Rightarrow> (bytes \<Rightarrow> bytes \<Rightarrow> bytes) \<Rightarrow> bytes option \<Rightarrow> bytes \<Rightarrow> bytes" where
  "Sum sum256 keyed256 h content = (case h of None \<Rightarrow> sum256 content | Some k \<Rightarrow> keyed256 k content)"

section \<open>The codec\<close>

lemma hex_value_digit [simp]: "n < 16 \<Longrightarrow> hex_value (hex_digit n) = Some n"
proof -
  have "list_all (\<lambda>n. hex_value (hex_digit n) = Some n) [0..<16]"
    by (simp add: upt_rec hex_digit_def hex_value_def)
  then show "n < 16 \<Longrightarrow> hex_value (hex_digit n) = Some n" by (simp add: list_all_iff)
qed

lemma hex_value_less: "hex_value c = Some n \<Longrightarrow> n < 16"
  by (auto simp: hex_value_def Let_def split: if_splits)

lemma hex_digit_value: "hex_value c = Some n \<Longrightarrow> hex_digit n = lower c"
proof -
  assume v: "hex_value c = Some n"
  define m where "m = (of_char c :: nat)"
  have c: "c = char_of m" by (simp add: m_def)
  have "m \<in> set ([48..<58] @ [65..<71] @ [97..<103])"
    using v unfolding set_append set_upt hex_value_def m_def [symmetric] Let_def
    by (simp only: Un_iff atLeastLessThan_iff) (simp split: if_splits)
  moreover have "list_all (\<lambda>m. case hex_value (char_of m) of None \<Rightarrow> True
      | Some n \<Rightarrow> hex_digit n = lower (char_of m)) ([48..<58] @ [65..<71] @ [97..<103])"
    by (simp add: upt_rec hex_value_def hex_digit_def lower_def of_char_of char_of_def)
  ultimately have "case hex_value (char_of m) of None \<Rightarrow> True | Some n \<Rightarrow> hex_digit n = lower (char_of m)"
    unfolding list_all_iff by blast
  with v c show ?thesis by simp
qed

lemma hex_decode_encode [simp]: "hex_decode (hex_encode b) = Some b"
proof (induction b)
  case (Cons a b)
  have "unat a div 16 < 16" using unat_byte_less [of a] by linarith
  with Cons show ?case by (simp del: of_nat_add of_nat_mult)
qed simp

lemma length_hex_encode [simp]: "length (hex_encode b) = 2 * length b"
  by (induction b) auto

lemma hex_encode_decode: "hex_decode s = Some b \<Longrightarrow> hex_encode b = map lower s"
proof (induction s arbitrary: b rule: hex_decode.induct)
  case (3 c d s)
  then obtain h l bs where hl: "hex_value c = Some h" "hex_value d = Some l" "hex_decode s = Some bs"
    "b = word_of_nat (16 * h + l) # bs"
    by (auto split: option.splits)
  have lt: "h < 16" "l < 16" using hl hex_value_less by blast+
  then have "unat (word_of_nat (16 * h + l) :: byte) = 16 * h + l"
    by (simp add: unat_of_nat del: of_nat_add of_nat_mult)
  with hl 3 lt show ?case
    by (simp add: hex_digit_value del: of_nat_add of_nat_mult)
qed auto

lemma lower_hex_encode [simp]: "map lower (hex_encode b) = hex_encode b"
  using hex_encode_decode [of "hex_encode b" b] by simp

lemma length_hex_decode: "hex_decode s = Some b \<Longrightarrow> length s = 2 * length b"
  using arg_cong [OF hex_encode_decode, of s b length] by simp

lemma hex_encode_inject [simp]: "hex_encode a = hex_encode b \<longleftrightarrow> a = b"
  by (metis hex_decode_encode option.inject)

section \<open>Properties\<close>

text \<open>
  A parsed identity is exactly an identity. \<open>ParseIdentity\<close> accepts a string only when it
  is 64 hex digits, the identity it returns has 32 bytes, and writing it again gives the
  lower-case form of the input; every 32-byte identity is parsed back from its own hex form.
\<close>

theorem ParseIdentity_canonical:
  "ParseIdentity s = Some ident \<longleftrightarrow> length ident = IdentitySize \<and> hex_decode s = Some ident \<and> Hex ident = map lower s"
proof
  assume p: "ParseIdentity s = Some ident"
  then have d: "hex_decode s = Some ident" "length s = 64"
    by (auto simp: ParseIdentity_def IdentitySize_def split: if_splits)
  then show "length ident = IdentitySize \<and> hex_decode s = Some ident \<and> Hex ident = map lower s"
    using length_hex_decode [OF d(1)] hex_encode_decode [OF d(1)] by (simp add: IdentitySize_def Hex_def)
next
  assume a: "length ident = IdentitySize \<and> hex_decode s = Some ident \<and> Hex ident = map lower s"
  then have "length s = 2 * length ident" using length_hex_decode by blast
  with a show "ParseIdentity s = Some ident" by (simp add: ParseIdentity_def)
qed

lemma ParseIdentity_Hex: "length ident = IdentitySize \<Longrightarrow> ParseIdentity (Hex ident) = Some ident"
  by (simp add: ParseIdentity_def Hex_def)

text \<open>A truncated key never degrades into another identity domain: it is refused.\<close>

lemma NewHasher_domain: "NewHasher key = Some h \<Longrightarrow>
    Sum sum256 keyed256 h = (if key = [] then sum256 else keyed256 key) \<and> (key = [] \<or> length key = 32)"
  by (auto simp: NewHasher_def Sum_def IdentitySize_def fun_eq_iff split: if_splits)

end
