(* ===== verification/Key_Table.thy ===== *)
theory Key_Table
  imports Pelfs_Prelude
begin

text \<open>
  The contract between a table format and the components that store their entries in it:
  a table made from a list of entries opens, and answers for each key with the value added
  last under it. Pack trailers, multi-pack indexes and pack manifests are clients; the
  format of \<open>internal/packidx\<close> provides it.
\<close>

locale key_table =
  fixes okay :: "('k \<times> 'v) list \<Rightarrow> bool"
    and make :: "('k \<times> 'v) list \<Rightarrow> 'e + 'o"
    and opn :: "'o \<Rightarrow> 'f + 't"
    and find :: "'t \<Rightarrow> 'k \<Rightarrow> 'v option"
  assumes made_opens: "okay kvs \<Longrightarrow> \<exists>b t. make kvs = Inr b \<and> opn b = Inr t \<and> find t = map_of (rev kvs)"
begin

definition serves :: "'t \<Rightarrow> ('k \<times> 'v) list \<Rightarrow> bool" where
  "serves t kvs \<longleftrightarrow> okay kvs \<and> (\<exists>b. make kvs = Inr b \<and> opn b = Inr t)"

lemma serves_find: "serves t kvs \<Longrightarrow> find t = map_of (rev kvs)"
  unfolding serves_def using made_opens [of kvs] by auto

lemma serves_exists: "okay kvs \<Longrightarrow> \<exists>t. serves t kvs"
  unfolding serves_def using made_opens [of kvs] by auto

lemma find_sound: "serves t kvs \<Longrightarrow> find t k = Some v \<Longrightarrow> (k, v) \<in> set kvs"
  by (auto simp: serves_find dest: map_of_SomeD)

lemma find_absent: "serves t kvs \<Longrightarrow> k \<notin> fst ` set kvs \<Longrightarrow> find t k = None"
  by (auto simp: serves_find map_of_eq_None_iff)

lemma find_distinct:
  "serves t kvs \<Longrightarrow> distinct (map fst kvs) \<Longrightarrow> (k, v) \<in> set kvs \<Longrightarrow> find t k = Some v"
  by (simp add: serves_find map_of_is_SomeI rev_map [symmetric])

lemma find_last: "serves t (kvs @ [(k, v)]) \<Longrightarrow> find t k = Some v"
  by (simp add: serves_find)

lemma find_complete: "serves t kvs \<Longrightarrow> find t k = None \<longleftrightarrow> k \<notin> fst ` set kvs"
  by (auto simp: serves_find map_of_eq_None_iff)

end

text \<open>
  A format whose tables can be merged, oldest first: the merge answers as a table made of
  all their entries in that order, so the newest table holding a key decides.
\<close>

locale merge_table = key_table okay make opn find
  for okay :: "('k \<times> 'v) list \<Rightarrow> bool" and make :: "('k \<times> 'v) list \<Rightarrow> 'e + 'o"
    and opn :: "'o \<Rightarrow> 'f + 't" and find :: "'t \<Rightarrow> 'k \<Rightarrow> 'v option" +
  fixes merge :: "'t list \<Rightarrow> 'g + 'o"
  assumes merged_serves: "list_all2 serves ts kvss \<Longrightarrow> okay (concat kvss) \<Longrightarrow>
    \<exists>b t. merge ts = Inr b \<and> opn b = Inr t \<and> find t = map_of (rev (concat kvss))"
begin

lemma merge_newest_wins:
  assumes "list_all2 serves (ts @ [t]) (kvss @ [kvs])" "okay (concat (kvss @ [kvs]))"
    and "merge (ts @ [t]) = Inr b" "opn b = Inr m" "find t k = Some v"
  shows "find m k = Some v"
proof -
  have "find m = map_of (rev (concat (kvss @ [kvs])))"
    using merged_serves [OF assms(1,2)] assms(3,4) by auto
  moreover have "serves t kvs"
    using assms(1) by (metis last_snoc list_all2_append2 list_all2_lengthD length_append_singleton
      list_all2_conv_all_nth lessI nth_append_length nat.inject)
  ultimately show ?thesis
    using assms(5) by (simp add: serves_find map_add_def)
qed

end

end
