(* ===== verification/Pack_Index.thy ===== *)
theory Pack_Index
  imports Key_Table
begin

text \<open>
  The sorted lookup table of \<open>internal/packidx/packidx.go\<close>: a 32-byte header, one sample
  key every \<open>stride\<close> records, then the records, key beside value. \<open>Builder\<close> sorts and
  encodes; \<open>ParseHeader\<close>, \<open>Open\<close>, \<open>Lookup\<close> and \<open>At\<close> read a table held whole;
  \<open>SampleExtent\<close>, \<open>Window\<close> and \<open>LookupWindow\<close> are the remote reader's, one range request
  per lookup. Counts and lengths are natural numbers: they come from 16 and 32-bit fields,
  so on a 64-bit build no conversion to \<open>int\<close> is negative.
\<close>

definition ix_magic :: bytes where "ix_magic = str_bytes ''PELFSIX2''"
definition headerLen :: nat where "headerLen = 32"
definition KeySize :: nat where "KeySize = 32"
definition DefaultStride :: nat where "DefaultStride = 4096"

datatype ix_error = ErrFormat | KeyLength nat nat | ValueLength nat nat | OutOfOrder bytes bytes
  | MixedShapes | Spool

section \<open>Building a table\<close>

record builder =
  b_keyLen :: nat
  b_recordLen :: nat
  b_stride :: nat
  b_entries :: "bytes list"

definition NewBuilder :: "nat \<Rightarrow> nat \<Rightarrow> int \<Rightarrow> builder" where
  "NewBuilder keyLen recordLen stride =
     \<lparr>b_keyLen = keyLen, b_recordLen = recordLen,
      b_stride = (if stride \<le> 0 then DefaultStride else nat stride), b_entries = []\<rparr>"

definition Add :: "builder \<Rightarrow> bytes \<Rightarrow> bytes \<Rightarrow> ix_error + builder" where
  "Add b key val =
     (if length key \<noteq> b_keyLen b then Inl (KeyLength (length key) (b_keyLen b))
      else if length val \<noteq> b_recordLen b then Inl (ValueLength (length val) (b_recordLen b))
      else Inr (b\<lparr>b_entries := b_entries b @ [key @ val]\<rparr>))"

definition sampleCount :: "nat \<Rightarrow> nat \<Rightarrow> nat" where
  "sampleCount count stride = (if count = 0 then 0 else (count + stride - 1) div stride)"

definition putHeader :: "nat \<Rightarrow> nat \<Rightarrow> nat \<Rightarrow> nat \<Rightarrow> nat \<Rightarrow> bytes" where
  "putHeader keyLen recordLen stride count samples =
     ix_magic @ le_bytes 2 keyLen @ le_bytes 2 recordLen @ le_bytes 4 count @ le_bytes 4 stride @
     le_bytes 4 samples @ replicate 8 0"

text \<open>The samples: the key of every record whose index is a multiple of the stride.\<close>

definition sample_keys :: "nat \<Rightarrow> nat \<Rightarrow> bytes list \<Rightarrow> bytes list" where
  "sample_keys keyLen stride recs =
     map (\<lambda>i. take keyLen (recs ! i)) (filter (\<lambda>i. i mod stride = 0) [0..<length recs])"

definition encodeRecords :: "nat \<Rightarrow> nat \<Rightarrow> nat \<Rightarrow> bytes list \<Rightarrow> bytes" where
  "encodeRecords keyLen recordLen stride recs =
     putHeader keyLen recordLen stride (length recs) (sampleCount (length recs) stride) @
     concat (sample_keys keyLen stride recs) @ concat recs"

definition sorted_kept :: "builder \<Rightarrow> bytes list" where
  "sorted_kept b = keep_last (take (b_keyLen b)) (sort_key (take (b_keyLen b)) (b_entries b))"

definition Encode :: "builder \<Rightarrow> bytes" where
  "Encode b = encodeRecords (b_keyLen b) (b_recordLen b) (b_stride b) (sorted_kept b)"

section \<open>Reading the header\<close>

record header =
  KeyLen :: nat
  RecordLen :: nat
  Count :: nat
  Stride :: nat
  hsamples :: bytes
  hbase :: nat

definition ParseHeader :: "bytes \<Rightarrow> ix_error + header" where
  "ParseHeader prefix =
     (if length prefix < headerLen \<or> take 8 prefix \<noteq> ix_magic then Inl ErrFormat
      else let kl = u16_at prefix 8; rl = u16_at prefix 10; cnt = u32_at prefix 12;
               st = u32_at prefix 16; samples = u32_at prefix 20
           in if kl = 0 \<or> st = 0 then Inl ErrFormat
              else if length prefix < headerLen + samples * kl then Inl ErrFormat
              else Inr \<lparr>KeyLen = kl, RecordLen = rl, Count = cnt, Stride = st,
                        hsamples = ext prefix headerLen (samples * kl),
                        hbase = headerLen + samples * kl\<rparr>)"

definition SampleBytes :: "header \<Rightarrow> nat" where
  "SampleBytes h = hbase h"

definition SampleExtent :: "bytes \<Rightarrow> ix_error + nat" where
  "SampleExtent head =
     (if length head < headerLen \<or> take 8 head \<noteq> ix_magic then Inl ErrFormat
      else if u16_at head 8 = 0 then Inl ErrFormat
      else Inr (headerLen + u32_at head 20 * u16_at head 8))"

definition sampleAt :: "header \<Rightarrow> nat \<Rightarrow> bytes" where
  "sampleAt h i = row (hsamples h) (KeyLen h) i"

definition entryLen :: "header \<Rightarrow> nat" where
  "entryLen h = KeyLen h + RecordLen h"

text \<open>
  The byte extent that could hold a key. \<open>i\<close> is one more than the index of the last sample
  not greater than the key.
\<close>

definition Window :: "header \<Rightarrow> bytes \<Rightarrow> (nat \<times> nat) option" where
  "Window h key =
     (if Count h = 0 \<or> length key \<noteq> KeyLen h then None
      else let n = length (hsamples h) div KeyLen h;
               i = go_search (\<lambda>i. key < sampleAt h i) 0 n
           in if i = 0 then None
              else let first = (i - 1) * Stride h;
                       lst = min (first + Stride h) (Count h)
                   in if lst \<le> first then None
                      else Some (hbase h + first * entryLen h, (lst - first) * entryLen h))"

definition LookupWindow :: "header \<Rightarrow> bytes \<Rightarrow> bytes \<Rightarrow> bytes option" where
  "LookupWindow h window key =
     (let entry = entryLen h;
          n = length window div entry;
          i = go_search (\<lambda>i. \<not> ext window (i * entry) (KeyLen h) < key) 0 n
      in if n \<le> i \<or> ext window (i * entry) (KeyLen h) \<noteq> key then None
         else Some (ext window (i * entry + KeyLen h) (RecordLen h)))"

section \<open>A table held whole\<close>

record table =
  t_h :: header
  t_records :: bytes

definition Open :: "bytes \<Rightarrow> ix_error + table" where
  "Open b =
     (case ParseHeader b of
        Inl e \<Rightarrow> Inl e
      | Inr h \<Rightarrow>
          (if length b < hbase h + Count h * entryLen h then Inl ErrFormat
           else Inr \<lparr>t_h = h, t_records = ext b (hbase h) (Count h * entryLen h)\<rparr>))"

definition Len :: "table \<Rightarrow> nat" where
  "Len t = Count (t_h t)"

definition Lookup :: "table \<Rightarrow> bytes \<Rightarrow> bytes option" where
  "Lookup t key = (if length key \<noteq> KeyLen (t_h t) then None else LookupWindow (t_h t) (t_records t) key)"

definition At :: "table \<Rightarrow> nat \<Rightarrow> bytes \<times> bytes" where
  "At t i =
     (let rec = row (t_records t) (entryLen (t_h t)) i
      in (take (KeyLen (t_h t)) rec, drop (KeyLen (t_h t)) rec))"

text \<open>The table as a list of records, in the order \<open>At\<close> enumerates them.\<close>

definition table_rows :: "table \<Rightarrow> bytes list" where
  "table_rows t = rows (t_records t) (entryLen (t_h t)) (Len t)"

text \<open>Every header \<open>ParseHeader\<close> accepts, and every table \<open>Open\<close> accepts, has this shape.\<close>

definition header_ok :: "header \<Rightarrow> bool" where
  "header_ok h \<longleftrightarrow> 0 < KeyLen h \<and> KeyLen h < 2 ^ 16 \<and> RecordLen h < 2 ^ 16 \<and> Count h < 2 ^ 32 \<and>
     0 < Stride h \<and> Stride h < 2 ^ 32 \<and> KeyLen h dvd length (hsamples h) \<and>
     hbase h = headerLen + length (hsamples h)"

definition table_ok :: "table \<Rightarrow> bool" where
  "table_ok t \<longleftrightarrow> header_ok (t_h t) \<and> length (t_records t) = Count (t_h t) * entryLen (t_h t)"

section \<open>What an accepted header and table look like\<close>

lemma ParseHeader_ok:
  assumes "ParseHeader b = Inr h"
  shows "header_ok h" "hbase h \<le> length b" "hsamples h = ext b headerLen (hbase h - headerLen)"
proof -
  have len: "length (ext b headerLen (u32_at b 20 * u16_at b 8)) = u32_at b 20 * u16_at b 8"
    using assms by (intro length_ext) (auto simp: in_range_def ParseHeader_def Let_def split: if_splits)
  show "header_ok h" "hbase h \<le> length b" "hsamples h = ext b headerLen (hbase h - headerLen)"
    using assms len u16_at_less [of b 8] u16_at_less [of b 10] u32_at_less [of b 12] u32_at_less [of b 16]
    by (auto simp: ParseHeader_def header_ok_def Let_def simp del: length_take length_drop split: if_splits)
qed

lemma Open_ok:
  assumes "Open b = Inr t"
  shows "table_ok t" "ParseHeader b = Inr (t_h t)"
    "hbase (t_h t) + Len t * entryLen (t_h t) \<le> length b"
    "t_records t = ext b (hbase (t_h t)) (Len t * entryLen (t_h t))"
proof -
  obtain h where h: "ParseHeader b = Inr h" "hbase h + Count h * entryLen h \<le> length b"
    "t = \<lparr>t_h = h, t_records = ext b (hbase h) (Count h * entryLen h)\<rparr>"
    using assms by (auto simp: Open_def split: sum.splits if_splits)
  show "ParseHeader b = Inr (t_h t)" "hbase (t_h t) + Len t * entryLen (t_h t) \<le> length b"
    "t_records t = ext b (hbase (t_h t)) (Len t * entryLen (t_h t))"
    using h by (simp_all add: Len_def)
  have "length (ext b (hbase h) (Count h * entryLen h)) = Count h * entryLen h"
    using h(2) by (intro length_ext) (simp add: in_range_def)
  then show "table_ok t"
    using ParseHeader_ok(1) [OF h(1)] by (simp add: table_ok_def h(3) del: length_take length_drop)
qed

lemma entryLen_pos: "header_ok h \<Longrightarrow> 0 < entryLen h"
  by (simp add: header_ok_def entryLen_def)

lemma table_rows_props:
  assumes "table_ok t"
  shows "uniform (entryLen (t_h t)) (table_rows t)" "length (table_rows t) = Len t"
    "length (t_records t) div entryLen (t_h t) = Len t"
  using assms entryLen_pos [of "t_h t"]
  by (auto simp: table_ok_def table_rows_def Len_def intro!: uniform_rows)

lemma table_rows_concat:
  assumes "table_ok t"
  shows "t_records t = concat (table_rows t)"
proof -
  have "concat (rows (t_records t) (entryLen (t_h t)) n) = take (n * entryLen (t_h t)) (t_records t)"
    if "n \<le> Len t" for n
    using that
  proof (induction n)
    case (Suc n)
    have "take (n * entryLen (t_h t)) (t_records t) @ row (t_records t) (entryLen (t_h t)) n =
        take (n * entryLen (t_h t) + entryLen (t_h t)) (t_records t)"
      by (simp add: take_add)
    with Suc show ?case by (simp add: rows_def add.commute)
  qed (simp add: rows_def)
  then show ?thesis
    using assms by (simp add: table_rows_def table_ok_def Len_def)
qed

lemma At_row: "i < Len t \<Longrightarrow>
    At t i = (take (KeyLen (t_h t)) (table_rows t ! i), drop (KeyLen (t_h t)) (table_rows t ! i))"
  by (simp add: At_def table_rows_def nth_rows Let_def)

section \<open>Lookup in a run of records\<close>

text \<open>
  Whatever the bytes, an answer is the value of a record that is there under exactly the
  key asked for: an unsorted table can only miss.
\<close>

lemma LookupWindow_rows:
  assumes "0 < entryLen h" "uniform (entryLen h) rs"
  shows "LookupWindow h (concat rs) key =
    (let i = go_search (\<lambda>i. \<not> ext (concat rs) (i * entryLen h) (KeyLen h) < key) 0 (length rs)
     in if length rs \<le> i \<or> take (KeyLen h) (rs ! i) \<noteq> key then None
        else Some (drop (KeyLen h) (rs ! i)))"
proof -
  define i where "i = go_search (\<lambda>i. \<not> ext (concat rs) (i * entryLen h) (KeyLen h) < key) 0 (length rs)"
  have n: "length (concat rs) div entryLen h = length rs"
    using assms by simp
  have key: "ext (concat rs) (i * entryLen h) (KeyLen h) = take (KeyLen h) (rs ! i)" if "i < length rs" for i
    using that row_concat [OF assms(2) that] take_in_row [where m = "KeyLen h" and e = "entryLen h" and b = "concat rs" and i = i]
    by (simp add: entryLen_def)
  have val: "ext (concat rs) (i * entryLen h + KeyLen h) (RecordLen h) = drop (KeyLen h) (rs ! i)"
    if "i < length rs" for i
    using that row_concat [OF assms(2) that] drop_in_row [where k = "KeyLen h" and e = "entryLen h" and b = "concat rs" and i = i]
    by (simp add: entryLen_def)
  show ?thesis
    unfolding LookupWindow_def n Let_def i_def [symmetric]
    using key [of i] val [of i] by (cases "i < length rs") auto
qed

lemma LookupWindow_sound:
  assumes "0 < entryLen h" "uniform (entryLen h) rs" "LookupWindow h (concat rs) key = Some v"
  obtains i where "i < length rs" "take (KeyLen h) (rs ! i) = key" "drop (KeyLen h) (rs ! i) = v"
  using assms(3) unfolding LookupWindow_rows [OF assms(1,2)]
  by (auto simp: Let_def not_le split: if_splits)

lemma mono_pred_keys:
  assumes "strict_keys (take kl) rs" "uniform e rs" "kl \<le> e"
  shows "mono_pred (\<lambda>i. \<not> ext (concat rs) (i * e) kl < key) (length rs)"
  unfolding mono_pred_def
proof (intro allI impI)
  fix i j assume ij: "i \<le> j" "j < length rs" "\<not> ext (concat rs) (i * e) kl < key"
  have e: "ext (concat rs) (i * e) kl = take kl (rs ! i)" if "i < length rs" for i
    using row_concat [OF assms(2) that] take_in_row [where m = kl and e = e and b = "concat rs" and i = i] assms(3) by simp
  show "\<not> ext (concat rs) (j * e) kl < key"
  proof (cases "i = j")
    case False
    with ij strict_keys_nth [OF assms(1), of i j] have "take kl (rs ! i) < take kl (rs ! j)" by simp
    with ij e [of i] e [of j] show ?thesis by fastforce
  qed (use ij in simp)
qed

lemma LookupWindow_sorted:
  assumes "strict_keys (take (KeyLen h)) rs" "uniform (entryLen h) rs" "0 < entryLen h"
  shows "LookupWindow h (concat rs) key = map_option (drop (KeyLen h)) (latest (take (KeyLen h)) rs key)"
proof -
  let ?f = "\<lambda>i. \<not> ext (concat rs) (i * entryLen h) (KeyLen h) < key"
  let ?i = "go_search ?f 0 (length rs)"
  have kl: "KeyLen h \<le> entryLen h" by (simp add: entryLen_def)
  have e: "ext (concat rs) (i * entryLen h) (KeyLen h) = take (KeyLen h) (rs ! i)" if "i < length rs" for i
    using row_concat [OF assms(2) that] take_in_row [where m = "KeyLen h" and e = "entryLen h" and b = "concat rs" and i = i] kl by simp
  note mono = mono_pred_keys [OF assms(1,2) kl, of key]
  show ?thesis
  proof (cases "\<exists>j < length rs. take (KeyLen h) (rs ! j) = key")
    case True
    then obtain j where j: "j < length rs" "take (KeyLen h) (rs ! j) = key" by blast
    have "?i = j"
    proof (rule go_search_unique [OF mono])
      show "\<not> ?f i" if "i < j" for i
        using strict_keys_nth [OF assms(1) that] j that e [of i] by simp
      show "?f j" using e j by simp
    qed (use j in simp)
    with j LookupWindow_rows [OF assms(3,2), of key] latest_strict [OF assms(1) j(1)]
    show ?thesis by (simp add: Let_def)
  next
    case False
    then have "latest (take (KeyLen h)) rs key = None"
      by (auto simp: latest_None in_set_conv_nth)
    with False LookupWindow_rows [OF assms(3,2), of key] show ?thesis
      by (auto simp: Let_def not_le)
  qed
qed


section \<open>Reading back an encoded table\<close>

lemma length_ix_magic [simp]: "length ix_magic = 8"
  by (simp add: ix_magic_def)

lemma length_putHeader [simp]: "length (putHeader kl rl st c sm) = 32"
  by (simp add: putHeader_def)

lemma putHeader_fields:
  assumes "kl < 65536" "rl < 65536" "c < 4294967296" "st < 4294967296" "sm < 4294967296"
  shows "take 8 (putHeader kl rl st c sm @ rest) = ix_magic"
    "u16_at (putHeader kl rl st c sm @ rest) 8 = kl" "u16_at (putHeader kl rl st c sm @ rest) 10 = rl"
    "u32_at (putHeader kl rl st c sm @ rest) 12 = c" "u32_at (putHeader kl rl st c sm @ rest) 16 = st"
    "u32_at (putHeader kl rl st c sm @ rest) 20 = sm"
  using assms by (simp_all add: putHeader_def u16_at_def u32_at_def)

lemma sampleCount_pos: "0 < st \<Longrightarrow> sampleCount (Suc m) st = Suc (m div st)"
proof -
  assume "0 < st"
  then have "(m + st) div st = m div st + 1"
    by (intro div_add_self2) simp
  then show ?thesis by (simp add: sampleCount_def)
qed

lemma sampleCount_0 [simp]: "sampleCount 0 st = 0"
  by (simp add: sampleCount_def)

lemma sampleCount_Suc: "0 < st \<Longrightarrow>
    sampleCount (Suc n) st = (if n mod st = 0 then Suc (sampleCount n st) else sampleCount n st)"
  by (cases n) (simp_all add: sampleCount_pos div_Suc)

lemma sampleCount_multiple: "0 < st \<Longrightarrow> n mod st = 0 \<Longrightarrow> sampleCount n st * st = n"
proof (cases n)
  case (Suc m)
  assume "0 < st" "n mod st = 0"
  with Suc have "sampleCount n st = n div st" by (simp add: sampleCount_pos div_Suc)
  with \<open>n mod st = 0\<close> show ?thesis by (simp add: mod_0_imp_dvd)
qed simp

lemma sampled_indices: "0 < st \<Longrightarrow>
    filter (\<lambda>i. i mod st = 0) [0..<n] = map (\<lambda>j. j * st) [0..<sampleCount n st]"
  by (induction n) (simp_all add: sampleCount_Suc sampleCount_multiple)

lemma sampleCount_less: "0 < st \<Longrightarrow> j < sampleCount n st \<longleftrightarrow> j * st < n"
proof
  assume st: "0 < st" and "j < sampleCount n st"
  then have "j * st \<in> set (map (\<lambda>j. j * st) [0..<sampleCount n st])" by simp
  then have "j * st \<in> set (filter (\<lambda>i. i mod st = 0) [0..<n])"
    by (simp only: sampled_indices [OF st])
  then show "j * st < n" by simp
next
  assume st: "0 < st" and "j * st < n"
  then have "j * st \<in> set (filter (\<lambda>i. i mod st = 0) [0..<n])" by simp
  then have "j * st \<in> set (map (\<lambda>j. j * st) [0..<sampleCount n st])"
    by (simp only: sampled_indices [OF st])
  with st show "j < sampleCount n st" by auto
qed

lemma sampleCount_le: "0 < st \<Longrightarrow> sampleCount n st \<le> n"
proof (rule ccontr)
  assume "0 < st" "\<not> sampleCount n st \<le> n"
  then have "n * st < n" using sampleCount_less [of st n n] by simp
  with \<open>0 < st\<close> show False by (cases st) auto
qed

lemma sample_keys_alt: "0 < st \<Longrightarrow>
    sample_keys kl st recs = map (\<lambda>j. take kl (recs ! (j * st))) [0..<sampleCount (length recs) st]"
  by (simp add: sample_keys_def sampled_indices comp_def)

text \<open>The shapes the 16 and 32-bit fields of the header can state.\<close>

definition shape_ok :: "nat \<Rightarrow> nat \<Rightarrow> nat \<Rightarrow> bytes list \<Rightarrow> bool" where
  "shape_ok kl rl st recs \<longleftrightarrow> 0 < kl \<and> kl < 2 ^ 16 \<and> rl < 2 ^ 16 \<and> 0 < st \<and> st < 2 ^ 32 \<and>
     length recs < 2 ^ 32 \<and> uniform (kl + rl) recs"

definition enc_header :: "nat \<Rightarrow> nat \<Rightarrow> nat \<Rightarrow> bytes list \<Rightarrow> header" where
  "enc_header kl rl st recs = \<lparr>KeyLen = kl, RecordLen = rl, Count = length recs, Stride = st,
     hsamples = concat (sample_keys kl st recs), hbase = 32 + sampleCount (length recs) st * kl\<rparr>"

lemma sample_keys_uniform: "shape_ok kl rl st recs \<Longrightarrow> uniform kl (sample_keys kl st recs)"
  by (auto simp: shape_ok_def sample_keys_def uniform_def)

lemma length_sample_keys: "shape_ok kl rl st recs \<Longrightarrow>
    length (sample_keys kl st recs) = sampleCount (length recs) st"
  by (simp add: sample_keys_alt shape_ok_def)

lemma ParseHeader_encoded:
  assumes "shape_ok kl rl st recs"
  shows "ParseHeader (encodeRecords kl rl st recs) = Inr (enc_header kl rl st recs)"
proof -
  let ?n = "length recs" and ?sm = "sampleCount (length recs) st"
  let ?P = "putHeader kl rl st ?n ?sm" and ?rest = "concat (sample_keys kl st recs) @ concat recs"
  have "?sm \<le> ?n" using assms by (simp add: sampleCount_le shape_ok_def)
  then have f: "take 8 (?P @ ?rest) = ix_magic" "u16_at (?P @ ?rest) 8 = kl" "u16_at (?P @ ?rest) 10 = rl"
    "u32_at (?P @ ?rest) 12 = ?n" "u32_at (?P @ ?rest) 16 = st" "u32_at (?P @ ?rest) 20 = ?sm"
    using putHeader_fields [of kl rl ?n st ?sm ?rest] assms by (simp_all add: shape_ok_def)
  have len: "length (concat (sample_keys kl st recs)) = ?sm * kl"
    using sample_keys_uniform [OF assms] length_sample_keys [OF assms] by simp
  show ?thesis
    unfolding ParseHeader_def encodeRecords_def f Let_def
    using assms len by (simp add: headerLen_def enc_header_def shape_ok_def)
qed

lemma Open_encoded:
  assumes "shape_ok kl rl st recs"
  shows "Open (encodeRecords kl rl st recs) =
    Inr \<lparr>t_h = enc_header kl rl st recs, t_records = concat recs\<rparr>"
proof -
  have len: "length (concat (sample_keys kl st recs)) = sampleCount (length recs) st * kl"
    "length (concat recs) = length recs * (kl + rl)"
    using sample_keys_uniform [OF assms] length_sample_keys [OF assms] assms
    by (simp_all add: shape_ok_def)
  then have "drop (32 + sampleCount (length recs) st * kl) (encodeRecords kl rl st recs) = concat recs"
    by (simp add: encodeRecords_def)
  then show ?thesis
    unfolding Open_def ParseHeader_encoded [OF assms]
    using len by (simp add: enc_header_def entryLen_def encodeRecords_def)
qed

lemma Lookup_encoded:
  assumes "shape_ok kl rl st recs" "strict_keys (take kl) recs"
    and "Open (encodeRecords kl rl st recs) = Inr t"
  shows "Lookup t key = map_option (drop kl) (latest (take kl) recs key)"
proof -
  have t: "t = \<lparr>t_h = enc_header kl rl st recs, t_records = concat recs\<rparr>"
    using Open_encoded [OF assms(1)] assms(3) by simp
  have "LookupWindow (enc_header kl rl st recs) (concat recs) key =
      map_option (drop kl) (latest (take kl) recs key)"
    using LookupWindow_sorted [of "enc_header kl rl st recs" recs key] assms(1,2)
    by (simp add: enc_header_def entryLen_def shape_ok_def)
  moreover have "latest (take kl) recs key = None" if "length key \<noteq> kl"
    using that assms(1) by (auto simp: latest_None shape_ok_def uniform_def)
  ultimately show ?thesis
    by (auto simp: Lookup_def t enc_header_def)
qed


section \<open>The builder\<close>

text \<open>Adding a list of entries in order, the loop of every client; the first refusal ends it.\<close>

fun add_all :: "builder \<Rightarrow> (bytes \<times> bytes) list \<Rightarrow> ix_error + builder" where
  "add_all b [] = Inr b"
| "add_all b ((k, v) # kvs) = (case Add b k v of Inl e \<Rightarrow> Inl e | Inr b' \<Rightarrow> add_all b' kvs)"

definition build_table :: "nat \<Rightarrow> nat \<Rightarrow> int \<Rightarrow> (bytes \<times> bytes) list \<Rightarrow> ix_error + bytes" where
  "build_table kl rl st kvs =
     (case add_all (NewBuilder kl rl st) kvs of Inl e \<Rightarrow> Inl e | Inr b \<Rightarrow> Inr (Encode b))"

definition kvs_ok :: "nat \<Rightarrow> nat \<Rightarrow> (bytes \<times> bytes) list \<Rightarrow> bool" where
  "kvs_ok kl rl kvs \<longleftrightarrow> list_all (\<lambda>(k, v). length k = kl \<and> length v = rl) kvs"

abbreviation join :: "bytes \<times> bytes \<Rightarrow> bytes" where
  "join kv \<equiv> fst kv @ snd kv"

lemma add_all_ok: "kvs_ok (b_keyLen b) (b_recordLen b) kvs \<Longrightarrow>
    add_all b kvs = Inr (b\<lparr>b_entries := b_entries b @ map join kvs\<rparr>)"
proof (induction kvs arbitrary: b)
  case (Cons kv kvs)
  obtain k v where kv: "kv = (k, v)" by (cases kv)
  have "kvs_ok (b_keyLen b) (b_recordLen b) kvs" "Add b k v = Inr (b\<lparr>b_entries := b_entries b @ [k @ v]\<rparr>)"
    using Cons.prems by (simp_all add: kvs_ok_def Add_def kv)
  with Cons.IH [of "b\<lparr>b_entries := b_entries b @ [k @ v]\<rparr>"] show ?case
    by (simp add: kv)
qed simp

lemma kvs_ok_uniform: "kvs_ok kl rl kvs \<Longrightarrow> uniform (kl + rl) (map join kvs)"
  by (auto simp: kvs_ok_def uniform_def list_all_iff)

lemma latest_join: "kvs_ok kl rl kvs \<Longrightarrow>
    map_option (drop kl) (latest (take kl) (map join kvs) key) = map_of (rev kvs) key"
proof (induction kvs rule: rev_induct)
  case (snoc kv kvs)
  then show ?case by (cases kv) (auto simp: kvs_ok_def latest_snoc)
qed simp

lemma uniform_keep: "uniform e xs \<Longrightarrow> uniform e (keep_last f (sort_key g xs))"
  unfolding uniform_def using set_keep_last [of f "sort_key g xs"] by auto

definition stride_of :: "int \<Rightarrow> nat" where
  "stride_of st = (if st \<le> 0 then DefaultStride else nat st)"

lemma Encode_built_kept:
  assumes "0 < kl" "kl < 2 ^ 16" "rl < 2 ^ 16" "st < 2 ^ 32" "length kvs < 2 ^ 32" "kvs_ok kl rl kvs"
  defines "recs \<equiv> keep_last (take kl) (sort_key (take kl) (map join kvs))"
  shows "build_table kl rl st kvs = Inr (encodeRecords kl rl (stride_of st) recs)"
    "shape_ok kl rl (stride_of st) recs" "strict_keys (take kl) recs"
    "latest (take kl) recs = latest (take kl) (map join kvs)"
proof -
  have "length recs \<le> length kvs"
    using length_keep_last [of "take kl" "sort_key (take kl) (map join kvs)"] by (simp add: recs_def)
  then show "shape_ok kl rl (stride_of st) recs"
    using assms(1-6) uniform_keep [OF kvs_ok_uniform [OF assms(6)], of "take kl" "take kl"]
    by (auto simp: shape_ok_def recs_def stride_of_def DefaultStride_def)
  show "strict_keys (take kl) recs"
    unfolding recs_def by (intro strict_keys_keep_last) simp
  show "build_table kl rl st kvs = Inr (encodeRecords kl rl (stride_of st) recs)"
    using assms(6) add_all_ok [of "NewBuilder kl rl st" kvs]
    by (simp add: build_table_def NewBuilder_def Encode_def sorted_kept_def recs_def stride_of_def)
  show "latest (take kl) recs = latest (take kl) (map join kvs)"
    by (simp add: recs_def latest_keep_last latest_sort_key)
qed

lemma Encode_built:
  assumes "0 < kl" "kl < 2 ^ 16" "rl < 2 ^ 16" "st < 2 ^ 32" "length kvs < 2 ^ 32" "kvs_ok kl rl kvs"
  obtains recs where "build_table kl rl st kvs = Inr (encodeRecords kl rl (stride_of st) recs)"
    "shape_ok kl rl (stride_of st) recs" "strict_keys (take kl) recs"
    "latest (take kl) recs = latest (take kl) (map join kvs)"
  using Encode_built_kept [OF assms] by (rule that)

lemma built_length:
  assumes "0 < kl" "kl < 2 ^ 16" "rl < 2 ^ 16" "st < 2 ^ 32" "length kvs < 2 ^ 32" "kvs_ok kl rl kvs"
    and "build_table kl rl st kvs = Inr b"
  shows "length b \<le> 32 + length kvs * (2 * kl + rl)"
proof -
  define recs where "recs = keep_last (take kl) (sort_key (take kl) (map join kvs))"
  have r: "b = encodeRecords kl rl (stride_of st) recs" "shape_ok kl rl (stride_of st) recs"
    using Encode_built_kept [OF assms(1-6)] assms(7) by (simp_all add: recs_def)
  have n: "length recs \<le> length kvs"
    using length_keep_last [of "take kl" "sort_key (take kl) (map join kvs)"] by (simp add: recs_def)
  have "length b = 32 + sampleCount (length recs) (stride_of st) * kl + length recs * (kl + rl)"
    using sample_keys_uniform [OF r(2)] length_sample_keys [OF r(2)] r(2)
    by (simp add: r(1) encodeRecords_def shape_ok_def)
  moreover have "sampleCount (length recs) (stride_of st) * kl \<le> length kvs * kl"
    using n sampleCount_le [of "stride_of st" "length recs"] r(2)
    by (intro mult_le_mono1) (auto simp: shape_ok_def)
  moreover have "length recs * (kl + rl) \<le> length kvs * (kl + rl)" using n by (rule mult_le_mono1)
  moreover have "length kvs * kl + length kvs * (kl + rl) = length kvs * (2 * kl + rl)"
    by (simp add: add_mult_distrib2)
  ultimately show ?thesis by linarith
qed

lemma build_table_opens:
  assumes "0 < kl" "kl < 2 ^ 16" "rl < 2 ^ 16" "st < 2 ^ 32" "length kvs < 2 ^ 32" "kvs_ok kl rl kvs"
  shows "\<exists>b t. build_table kl rl st kvs = Inr b \<and> Open b = Inr t \<and> Lookup t = map_of (rev kvs)"
proof -
  obtain recs where r: "build_table kl rl st kvs = Inr (encodeRecords kl rl (stride_of st) recs)"
    "shape_ok kl rl (stride_of st) recs" "strict_keys (take kl) recs"
    "latest (take kl) recs = latest (take kl) (map join kvs)"
    using Encode_built [OF assms] by blast
  moreover have "Lookup \<lparr>t_h = enc_header kl rl (stride_of st) recs, t_records = concat recs\<rparr> key =
      map_of (rev kvs) key" for key
    using Lookup_encoded [OF r(2,3) Open_encoded [OF r(2)]] latest_join [OF assms(6)] r(4) by simp
  ultimately show ?thesis
    using Open_encoded [OF r(2)] by (intro exI conjI) (auto simp: fun_eq_iff)
qed

definition table_okay :: "nat \<Rightarrow> nat \<Rightarrow> (bytes \<times> bytes) list \<Rightarrow> bool" where
  "table_okay kl rl kvs \<longleftrightarrow> length kvs < 2 ^ 32 \<and> kvs_ok kl rl kvs"

text \<open>
  The three shapes in use: a pack trailer (whole identities, 17-byte extents), a multi-pack
  index (truncated identities, 4-byte offsets) and a pack manifest (padded names, 40-byte
  rows), all at the default stride.
\<close>

interpretation trailer_tbl: key_table "table_okay 32 17" "build_table 32 17 0" Open Lookup
  by unfold_locales (rule build_table_opens, auto simp: table_okay_def)

interpretation mpi_tbl: key_table "table_okay 12 4" "build_table 12 4 0" Open Lookup
  by unfold_locales (rule build_table_opens, auto simp: table_okay_def)

interpretation manifest_tbl: key_table "table_okay 32 40" "build_table 32 40 0" Open Lookup
  by unfold_locales (rule build_table_opens, auto simp: table_okay_def)

section \<open>One window instead of the whole table\<close>

lemma latest_append: "latest f (xs @ ys) k = (case latest f ys k of None \<Rightarrow> latest f xs k | Some y \<Rightarrow> Some y)"
  by (induction xs) (auto simp: latest_Cons split: option.splits)

lemma latest_below: "strict_keys f xs \<Longrightarrow> n < length xs \<Longrightarrow> f (xs ! n) \<le> k \<Longrightarrow> latest f (take n xs) k = None"
  unfolding latest_None by (force simp: in_set_conv_nth dest: strict_keys_nth)

lemma latest_above:
  assumes "strict_keys f xs" "n < length xs" "k < f (xs ! n)"
  shows "latest f (drop n xs) k = None"
  unfolding latest_None
proof
  assume "k \<in> f ` set (drop n xs)"
  then obtain i where i: "n + i < length xs" "k = f (xs ! (n + i))"
    by (force simp: in_set_conv_nth)
  then have "f (xs ! n) \<le> k"
    using strict_keys_nth [OF assms(1), of n "n + i"] by (cases i) auto
  with assms(3) show False by simp
qed

lemma latest_middle:
  assumes "strict_keys f xs" "a \<le> b" "b \<le> length xs" "a < length xs" "f (xs ! a) \<le> k"
    and "b < length xs \<Longrightarrow> k < f (xs ! b)"
  shows "latest f (take (b - a) (drop a xs)) k = latest f xs k"
proof -
  have split: "xs = take a xs @ take (b - a) (drop a xs) @ drop b xs"
    using assms(2) by (metis append.assoc append_take_drop_id le_add_diff_inverse take_add)
  have "latest f (drop b xs) k = None"
    using assms(1,3,6) latest_above [of f xs b k] by (cases "b < length xs") auto
  moreover have "latest f (take a xs) k = None"
    by (rule latest_below [OF assms(1,4,5)])
  ultimately show ?thesis
    by (subst (2) split) (auto simp: latest_append split: option.splits)
qed

lemma sampleAt_encoded:
  assumes "shape_ok kl rl st recs" "i < sampleCount (length recs) st"
  shows "sampleAt (enc_header kl rl st recs) i = take kl (recs ! (i * st))"
proof -
  have "row (concat (sample_keys kl st recs)) kl i = sample_keys kl st recs ! i"
    using row_concat [OF sample_keys_uniform [OF assms(1)]] length_sample_keys [OF assms(1)] assms(2)
    by simp
  then show ?thesis
    using assms by (simp add: sampleAt_def enc_header_def sample_keys_alt shape_ok_def)
qed

lemma ext_encoded_records:
  assumes "shape_ok kl rl st recs" "a \<le> b" "b \<le> length recs"
  shows "ext (encodeRecords kl rl st recs)
      (hbase (enc_header kl rl st recs) + a * (kl + rl)) ((b - a) * (kl + rl)) =
    concat (take (b - a) (drop a recs))"
proof -
  have u: "uniform (kl + rl) recs" using assms(1) by (simp add: shape_ok_def)
  have "length (concat (sample_keys kl st recs)) = sampleCount (length recs) st * kl"
    using sample_keys_uniform [OF assms(1)] length_sample_keys [OF assms(1)] by simp
  then have "drop (hbase (enc_header kl rl st recs) + a * (kl + rl)) (encodeRecords kl rl st recs) =
      drop (a * (kl + rl)) (concat recs)"
    by (simp add: encodeRecords_def enc_header_def)
  also have "\<dots> = concat (drop a recs)"
    using assms by (intro concat_drop_uniform [OF u]) simp
  finally show ?thesis
    using concat_take_uniform [OF uniform_drop [OF u], of "b - a" a] assms by simp
qed

lemma window_lookup_encoded:
  assumes "shape_ok kl rl st recs" "strict_keys (take kl) recs" "length key = kl"
  defines "h \<equiv> enc_header kl rl st recs"
  shows "(case Window h key of None \<Rightarrow> None
      | Some (off, len) \<Rightarrow> LookupWindow h (ext (encodeRecords kl rl st recs) off len) key) =
    map_option (drop kl) (latest (take kl) recs key)"
proof (cases "recs = []")
  case True
  then show ?thesis by (simp add: Window_def h_def enc_header_def)
next
  case False
  let ?N = "length recs" and ?sm = "sampleCount (length recs) st" and ?f = "\<lambda>i. key < sampleAt h i"
  define i where "i = go_search ?f 0 ?sm"
  have st: "0 < st" and kl: "0 < kl" and u: "uniform (kl + rl) recs"
    using assms(1) by (simp_all add: shape_ok_def)
  have samp: "sampleAt h j = take kl (recs ! (j * st))" "j * st < ?N" if "j < ?sm" for j
    using sampleAt_encoded [OF assms(1) that] that st by (simp_all add: h_def sampleCount_less)
  have mono: "mono_pred ?f ?sm"
    unfolding mono_pred_def
  proof (intro allI impI)
    fix a b assume ab: "a \<le> b" "b < ?sm" "key < sampleAt h a"
    show "key < sampleAt h b"
    proof (cases "a = b")
      case False
      then have "take kl (recs ! (a * st)) < take kl (recs ! (b * st))"
        using ab st samp(2) by (intro strict_keys_nth [OF assms(2)]) auto
      with ab samp(1) show ?thesis by force
    qed (use ab in simp)
  qed
  have n: "length (hsamples h) div kl = ?sm" "Count h = ?N" "KeyLen h = kl" "Stride h = st"
    "entryLen h = kl + rl"
    using sample_keys_uniform [OF assms(1)] length_sample_keys [OF assms(1)] kl
    by (simp_all add: h_def enc_header_def entryLen_def)
  have ile: "i \<le> ?sm" unfolding i_def by (rule go_search_le) simp
  have above: "key < take kl (recs ! (i * st))" if "i < ?sm"
    using go_search_true [of 0 ?sm ?f] that samp(1) by (simp add: i_def)
  show ?thesis
  proof (cases "i = 0")
    case True
    have "0 < ?sm" using False st by (simp add: sampleCount_less)
    then have "latest (take kl) recs key = None"
      using latest_above [OF assms(2), of 0 key] above True False by simp
    moreover have "Window h key = None"
      using True unfolding Window_def n i_def [symmetric] Let_def by simp
    ultimately show ?thesis by simp
  next
    case pos: False
    let ?a = "(i - 1) * st" and ?b = "min ((i - 1) * st + st) ?N"
    have i1: "i - 1 < ?sm" using ile pos by simp
    then have a: "?a < ?N" by (rule samp(2))
    have ab: "?a < ?b" using a st by simp
    have "\<not> ?f (i - 1)" using go_search_false [of 0 ?sm ?f] pos by (simp add: i_def)
    then have low: "take kl (recs ! ?a) \<le> key" using samp(1) [OF i1] by simp
    have ist: "(i - 1) * st + st = i * st" using pos by (cases i) auto
    have high: "key < take kl (recs ! ?b)" if "?b < ?N"
    proof -
      have "?b = i * st" "i * st < ?N" using that ist by auto
      then show ?thesis using above st by (simp add: sampleCount_less)
    qed
    have win: "Window h key = Some (hbase h + ?a * (kl + rl), (?b - ?a) * (kl + rl))"
      using pos False ab assms(3) unfolding Window_def n i_def [symmetric] Let_def
      by (simp add: min_le_iff_disj)
    have "LookupWindow h (concat (take (?b - ?a) (drop ?a recs))) key =
        map_option (drop kl) (latest (take kl) (take (?b - ?a) (drop ?a recs)) key)"
      using LookupWindow_sorted [of h "take (?b - ?a) (drop ?a recs)" key] assms(2) u kl
      by (simp add: n strict_keys_take strict_keys_drop uniform_take uniform_drop)
    also have "latest (take kl) (take (?b - ?a) (drop ?a recs)) key = latest (take kl) recs key"
      using latest_middle [OF assms(2) _ _ a low high] ab by simp
    finally show ?thesis
      using ext_encoded_records [OF assms(1), of ?a ?b, folded h_def] ab by (simp add: win)
  qed
qed

lemma Window_bounds:
  assumes "header_ok h" "Window h key = Some (off, len)"
  shows "hbase h \<le> off \<and> 0 < len \<and> len \<le> Stride h * entryLen h \<and>
    off + len \<le> hbase h + Count h * entryLen h"
proof -
  define first where
    "first = (go_search (\<lambda>i. key < sampleAt h i) 0 (length (hsamples h) div KeyLen h) - 1) * Stride h"
  define lst where "lst = min (first + Stride h) (Count h)"
  have w: "first < lst" "lst \<le> first + Stride h" "lst \<le> Count h"
    "off = hbase h + first * entryLen h" "len = (lst - first) * entryLen h"
    using assms(2) unfolding Window_def Let_def first_def [symmetric] lst_def [symmetric]
    by (auto simp: lst_def split: if_splits)
  have "first * entryLen h + len = lst * entryLen h"
    using w(1) by (simp add: w(5) diff_mult_distrib)
  moreover have "lst * entryLen h \<le> Count h * entryLen h" "(lst - first) * entryLen h \<le> Stride h * entryLen h"
    using w(2,3) by (intro mult_le_mono1; simp)+
  ultimately show ?thesis
    using w entryLen_pos [OF assms(1)] by simp
qed


section \<open>Properties\<close>

text \<open>
  C3: Build, encode, open, look up: a table built from a list of entries of the right sizes
  opens, and \<open>Lookup\<close> answers every key, of any length, with the value added last under
  it, or not at all.
\<close>

theorem table_round_trip:
  assumes "0 < kl" "kl < 2 ^ 16" "rl < 2 ^ 16" "st < 2 ^ 32" "length kvs < 2 ^ 32" "kvs_ok kl rl kvs"
  shows "\<exists>b t. add_all (NewBuilder kl rl st) kvs = Inr b \<and> Open (Encode b) = Inr t \<and>
    (\<forall>key. Lookup t key = map_of (rev kvs) key)"
  using build_table_opens [OF assms] add_all_ok [of "NewBuilder kl rl st" kvs] assms(6)
  by (auto simp: build_table_def NewBuilder_def)

text \<open>
  A table of arbitrary bytes never gives a wrong answer. Whatever \<open>Open\<close> accepts, a
  value that \<open>Lookup\<close> returns is the value of an entry of the table whose key is exactly the
  key asked for, and no entry or answer reaches past the bytes given.
\<close>

theorem Lookup_sound_on_any_bytes:
  assumes "Open b = Inr t" "Lookup t key = Some v"
  shows "(\<exists>i < Len t. At t i = (key, v)) \<and> hbase (t_h t) + Len t * entryLen (t_h t) \<le> length b"
proof -
  note t = Open_ok [OF assms(1)]
  note r = table_rows_props [OF t(1)]
  have pos: "0 < entryLen (t_h t)"
    using t(1) by (intro entryLen_pos) (simp add: table_ok_def)
  note recs = table_rows_concat [OF t(1)]
  have "LookupWindow (t_h t) (concat (table_rows t)) key = Some v"
    using assms(2) recs by (simp add: Lookup_def split: if_splits)
  then obtain i where "i < length (table_rows t)" "take (KeyLen (t_h t)) (table_rows t ! i) = key"
    "drop (KeyLen (t_h t)) (table_rows t ! i) = v"
    by (rule LookupWindow_sound [OF pos r(1)])
  with r(2) At_row t(3) show ?thesis by metis
qed

text \<open>
  The remote reader agrees with the whole table. For a table written by a builder, the
  header alone, parsed from any prefix that covers the samples, and the one window it asks
  for answer every key of the right length as \<open>Lookup\<close> on the whole table does.
\<close>

theorem window_lookup_agrees:
  assumes "0 < kl" "kl < 2 ^ 16" "rl < 2 ^ 16" "st < 2 ^ 32" "length kvs < 2 ^ 32" "kvs_ok kl rl kvs"
    and "build_table kl rl st kvs = Inr b" "Open b = Inr t" "ParseHeader b = Inr h" "length key = kl"
  shows "(case Window h key of None \<Rightarrow> None | Some (off, len) \<Rightarrow> LookupWindow h (ext b off len) key) =
    Lookup t key"
proof -
  obtain recs where r: "build_table kl rl st kvs = Inr (encodeRecords kl rl (stride_of st) recs)"
    "shape_ok kl rl (stride_of st) recs" "strict_keys (take kl) recs"
    using Encode_built [OF assms(1-6)] by blast
  then have bh: "b = encodeRecords kl rl (stride_of st) recs" "h = enc_header kl rl (stride_of st) recs"
    using assms(7,9) ParseHeader_encoded [OF r(2)] by simp_all
  show ?thesis
    unfolding bh Lookup_encoded [OF r(2,3) assms(8) [unfolded bh]]
    by (rule window_lookup_encoded [OF r(2,3) assms(10)])
qed

text \<open>
  A window stays in bounds for a hostile header too: for ANY bytes \<open>ParseHeader\<close>
  accepts, the extent returned is not empty, starts after the samples, is at most one
  stride of records, and ends by the end of the records the header claims.
\<close>

theorem Window_in_bounds:
  assumes "ParseHeader b = Inr h" "Window h key = Some (off, len)"
  shows "hbase h \<le> off \<and> 0 < len \<and> len \<le> Stride h * entryLen h \<and>
    off + len \<le> hbase h + Count h * entryLen h"
  using Window_bounds [OF ParseHeader_ok(1) [OF assms(1)] assms(2)] .

section \<open>Witnesses\<close>

lemma example_table: "build_table 2 1 2 [([1, 1], [10]), ([3, 1], [30]), ([2, 1], [20]), ([1, 1], [11])] =
    Inr (encodeRecords 2 1 2 [[1, 1, 11], [2, 1, 20], [3, 1, 30]])"
  by (simp add: build_table_def NewBuilder_def Add_def Encode_def sorted_kept_def)

lemma example_shape: "shape_ok 2 1 2 [[1, 1, 11], [2, 1, 20], [3, 1, 30]]"
  by (simp add: shape_ok_def)

theorem table_round_trip_witness:
  "\<exists>b t. add_all (NewBuilder 2 1 2) [([1, 1], [10]), ([3, 1], [30]), ([2, 1], [20]), ([1, 1], [11])] = Inr b \<and>
     Open (Encode b) = Inr t \<and> Lookup t [1, 1] = Some [11] \<and> Lookup t [4, 1] = None"
  using table_round_trip [of 2 1 2 "[([1, 1], [10]), ([3, 1], [30]), ([2, 1], [20]), ([1, 1], [11])]"]
  by (fastforce simp: kvs_ok_def)

lemma example_lookup:
  "Lookup \<lparr>t_h = enc_header 2 1 2 [[1, 1, 11], [2, 1, 20], [3, 1, 30]],
     t_records = concat [[1, 1, 11], [2, 1, 20], [3, 1, 30]]\<rparr> [2, 1] = Some [20]"
  using Lookup_encoded [OF example_shape _ Open_encoded [OF example_shape], of "[2, 1]"]
  by (simp add: latest_def)

theorem Lookup_sound_on_any_bytes_witness:
  "\<exists>t. Open (encodeRecords 2 1 2 [[1, 1, 11], [2, 1, 20], [3, 1, 30]]) = Inr t \<and>
     (\<exists>i < Len t. At t i = ([2, 1], [20]))"
  using Lookup_sound_on_any_bytes [OF Open_encoded [OF example_shape] example_lookup]
    Open_encoded [OF example_shape] by blast

theorem window_lookup_agrees_witness:
  "\<exists>h off len. ParseHeader (encodeRecords 2 1 2 [[1, 1, 11], [2, 1, 20], [3, 1, 30]]) = Inr h \<and>
     Window h [2, 1] = Some (off, len) \<and>
     LookupWindow h (ext (encodeRecords 2 1 2 [[1, 1, 11], [2, 1, 20], [3, 1, 30]]) off len) [2, 1] = Some [20]"
  using window_lookup_agrees [OF _ _ _ _ _ _ example_table Open_encoded [OF example_shape]
      ParseHeader_encoded [OF example_shape], of "[2, 1]"] example_lookup ParseHeader_encoded [OF example_shape]
  by (auto simp: kvs_ok_def split: option.splits)

lemma example_window: "Window (enc_header 2 1 2 [[1, 1, 11], [2, 1, 20], [3, 1, 30]]) [2, 1] = Some (36, 6)"
  by (simp add: Window_def enc_header_def sample_keys_def sampleCount_def sampleAt_def entryLen_def
      go_search.simps)

theorem Window_in_bounds_witness:
  "36 + 6 \<le> hbase (enc_header 2 1 2 [[1, 1, 11], [2, 1, 20], [3, 1, 30]]) + 3 * (3 :: nat)"
  using Window_in_bounds [OF ParseHeader_encoded [OF example_shape] example_window]
  by (simp add: enc_header_def entryLen_def)

end
