(* ===== verification/Pack_Merge.thy ===== *)
theory Pack_Merge
  imports Pack_Index
begin

text \<open>
  The merge half of \<open>internal/packidx/packidx.go\<close>: \<open>MergeKeys\<close> walks several tables with one
  cursor each, \<open>StreamWriter\<close> encodes records that arrive in order without holding them,
  and \<open>MergeTo\<close>/\<open>Merge\<close> put the two together over an in-memory spool. The callback of
  \<open>MergeKeys\<close> is a state transformer that may fail. \<open>bufio.Writer\<close> between the writer and
  its spool only delays writes, so its buffer is a byte string flushed by \<open>Finish\<close>.
\<close>

section \<open>Walking tables in key order\<close>

text \<open>A cursor: which input, its table, and the position reached in it.\<close>

type_synonym cursor = "nat \<times> table \<times> nat"

fun live :: "cursor \<Rightarrow> bool" where
  "live (i, t, a) = (a < Len t)"

fun head_key :: "cursor \<Rightarrow> bytes" where
  "head_key (i, t, a) = fst (At t a)"

text \<open>The first inner loop: the least key any live cursor stands at.\<close>

fun best_key :: "cursor list \<Rightarrow> bytes option \<Rightarrow> bytes option" where
  "best_key [] best = best"
| "best_key (c # cs) best =
     (if \<not> live c then best_key cs best
      else case best of
             None \<Rightarrow> best_key cs (Some (head_key c))
           | Some m \<Rightarrow> best_key cs (if head_key c < m then Some (head_key c) else Some m))"

text \<open>
  The second inner loop: every cursor standing at the key advances, the last one supplies
  the record.
\<close>

fun step_cursors :: "bytes \<Rightarrow> cursor list \<Rightarrow> (nat \<times> bytes \<times> bytes) option \<Rightarrow>
    (nat \<times> bytes \<times> bytes) option \<times> cursor list" where
  "step_cursors m [] w = (w, [])"
| "step_cursors m ((i, t, a) # cs) w =
     (if live (i, t, a) \<and> head_key (i, t, a) = m
      then (case step_cursors m cs (Some (i, At t a)) of (w', cs') \<Rightarrow> (w', (i, t, Suc a) # cs'))
      else (case step_cursors m cs w of (w', cs') \<Rightarrow> (w', (i, t, a) # cs')))"

fun left_in :: "cursor \<Rightarrow> nat" where
  "left_in (i, t, a) = Len t - a"

definition left_all :: "cursor list \<Rightarrow> nat" where
  "left_all cs = sum_list (map left_in cs)"

lemma step_cursors_left: "step_cursors m cs w = (w', cs') \<Longrightarrow>
    left_all cs' \<le> left_all cs \<and> (w' \<noteq> w \<longrightarrow> left_all cs' < left_all cs)"
proof (induction m cs w arbitrary: w' cs' rule: step_cursors.induct)
  case (2 m i t a cs w)
  show ?case
  proof (cases "live (i, t, a) \<and> head_key (i, t, a) = m")
    case True
    then obtain cs'' where "step_cursors m cs (Some (i, At t a)) = (w', cs'')" "cs' = (i, t, Suc a) # cs''"
      using "2.prems" by (auto split: prod.splits)
    with "2.IH"(1) True show ?thesis by (fastforce simp: left_all_def)
  next
    case False
    then obtain cs'' where "step_cursors m cs w = (w', cs'')" "cs' = (i, t, a) # cs''"
      using "2.prems" by (auto split: prod.splits if_splits)
    with "2.IH"(2) False show ?thesis by (fastforce simp: left_all_def)
  qed
qed (simp add: left_all_def)

function merge_loop :: "cursor list \<Rightarrow> (nat \<Rightarrow> bytes \<Rightarrow> bytes \<Rightarrow> 's \<Rightarrow> 'e + 's) \<Rightarrow> 's \<Rightarrow> 'e + 's" where
  "merge_loop cs fn s =
     (case best_key cs None of
        None \<Rightarrow> Inr s
      | Some m \<Rightarrow> (case step_cursors m cs None of
            (None, cs') \<Rightarrow> Inr s
          | (Some (i, k, v), cs') \<Rightarrow>
              (case fn i k v s of Inl e \<Rightarrow> Inl e | Inr s' \<Rightarrow> merge_loop cs' fn s')))"
  by pat_completeness auto
termination
  by (relation "measure (\<lambda>(cs, fn, s). left_all cs)") (auto dest!: step_cursors_left [OF sym])

declare merge_loop.simps [simp del]

definition start_cursors :: "table list \<Rightarrow> cursor list" where
  "start_cursors ts = map (\<lambda>(i, t). (i, t, 0)) (enumerate 0 ts)"

definition MergeKeys :: "table list \<Rightarrow> (nat \<Rightarrow> bytes \<Rightarrow> bytes \<Rightarrow> 's \<Rightarrow> 'e + 's) \<Rightarrow> 's \<Rightarrow> 'e + 's" where
  "MergeKeys tables fn s = merge_loop (start_cursors tables) fn s"

section \<open>The in-memory spool\<close>

record memSpool =
  ms_buf :: bytes
  ms_pos :: nat

definition MemSpool :: memSpool where
  "MemSpool = \<lparr>ms_buf = [], ms_pos = 0\<rparr>"

definition ms_write :: "memSpool \<Rightarrow> bytes \<Rightarrow> memSpool" where
  "ms_write m p =
     (if ms_pos m = length (ms_buf m)
      then m\<lparr>ms_buf := ms_buf m @ p, ms_pos := ms_pos m + length p\<rparr>
      else let fin = ms_pos m + length p;
               buf = (if length (ms_buf m) < fin
                      then ms_buf m @ replicate (fin - length (ms_buf m)) 0 else ms_buf m)
           in m\<lparr>ms_buf := take (ms_pos m) buf @ p @ drop fin buf, ms_pos := fin\<rparr>)"

definition ms_read :: "memSpool \<Rightarrow> nat \<Rightarrow> bytes option \<times> memSpool" where
  "ms_read m n =
     (if length (ms_buf m) \<le> ms_pos m then (None, m)
      else let p = ext (ms_buf m) (ms_pos m) n in (Some p, m\<lparr>ms_pos := ms_pos m + length p\<rparr>))"

datatype whence = SeekStart | SeekCurrent | SeekEnd

definition ms_seek :: "memSpool \<Rightarrow> int \<Rightarrow> whence \<Rightarrow> ix_error + memSpool" where
  "ms_seek m off w =
     (let p = (case w of SeekStart \<Rightarrow> off | SeekCurrent \<Rightarrow> int (ms_pos m) + off
                       | SeekEnd \<Rightarrow> int (length (ms_buf m)) + off)
      in if p < 0 then Inl Spool else Inr (m\<lparr>ms_pos := nat p\<rparr>))"

text \<open>\<open>io.CopyN\<close> out of the spool: an error when it holds fewer than \<open>n\<close> bytes.\<close>

definition ms_copyN :: "memSpool \<Rightarrow> nat \<Rightarrow> ix_error + bytes" where
  "ms_copyN m n =
     (if n = 0 then Inr []
      else case fst (ms_read m n) of
             None \<Rightarrow> Inl Spool
           | Some p \<Rightarrow> (if length p < n then Inl Spool else Inr p))"

section \<open>The streaming writer\<close>

record stream_writer =
  w_keyLen :: nat
  w_recordLen :: nat
  w_stride :: nat
  w_spool :: memSpool
  w_buf :: bytes
  w_count :: nat
  w_samples :: bytes
  w_last :: bytes

definition NewStreamWriter :: "nat \<Rightarrow> nat \<Rightarrow> int \<Rightarrow> stream_writer" where
  "NewStreamWriter keyLen recordLen stride =
     \<lparr>w_keyLen = keyLen, w_recordLen = recordLen, w_stride = stride_of stride,
      w_spool = MemSpool, w_buf = [], w_count = 0, w_samples = [], w_last = []\<rparr>"

definition SAdd :: "stream_writer \<Rightarrow> bytes \<Rightarrow> bytes \<Rightarrow> ix_error + stream_writer" where
  "SAdd s key val =
     (if length key \<noteq> w_keyLen s then Inl (KeyLength (length key) (w_keyLen s))
      else if length val \<noteq> w_recordLen s then Inl (ValueLength (length val) (w_recordLen s))
      else if 0 < w_count s \<and> \<not> w_last s < key then Inl (OutOfOrder key (w_last s))
      else Inr (s\<lparr>w_samples := w_samples s @ (if w_count s mod w_stride s = 0 then key else []),
                 w_buf := w_buf s @ key @ val, w_last := key, w_count := w_count s + 1\<rparr>))"

definition Finish :: "stream_writer \<Rightarrow> ix_error + bytes" where
  "Finish s =
     (let sp = ms_write (w_spool s) (w_buf s);
          head = putHeader (w_keyLen s) (w_recordLen s) (w_stride s) (w_count s)
                   (sampleCount (w_count s) (w_stride s)) @ w_samples s
      in case ms_seek sp 0 SeekStart of
           Inl e \<Rightarrow> Inl e
         | Inr sp' \<Rightarrow> (case ms_copyN sp' (w_count s * (w_keyLen s + w_recordLen s)) of
               Inl e \<Rightarrow> Inl e
             | Inr body \<Rightarrow> Inr (head @ body)))"

definition MergeTo :: "nat \<Rightarrow> nat \<Rightarrow> int \<Rightarrow> table list \<Rightarrow> ix_error + bytes" where
  "MergeTo keyLen recordLen stride tables =
     (if \<not> list_all (\<lambda>t. KeyLen (t_h t) = keyLen \<and> RecordLen (t_h t) = recordLen) tables then Inl MixedShapes
      else case MergeKeys tables (\<lambda>_ key val sw. SAdd sw key val) (NewStreamWriter keyLen recordLen stride) of
             Inl e \<Rightarrow> Inl e
           | Inr sw \<Rightarrow> Finish sw)"

section \<open>What the walk visits\<close>

text \<open>The records the walk hands to its callback, in order.\<close>

function visits :: "cursor list \<Rightarrow> (nat \<times> bytes \<times> bytes) list" where
  "visits cs =
     (case best_key cs None of
        None \<Rightarrow> []
      | Some m \<Rightarrow> (case step_cursors m cs None of
            (None, cs') \<Rightarrow> []
          | (Some w, cs') \<Rightarrow> w # visits cs'))"
  by pat_completeness auto
termination
  by (relation "measure left_all") (auto dest!: step_cursors_left [OF sym])

declare visits.simps [simp del]

fun fold_err :: "('a \<Rightarrow> 's \<Rightarrow> 'e + 's) \<Rightarrow> 'a list \<Rightarrow> 's \<Rightarrow> 'e + 's" where
  "fold_err f [] s = Inr s"
| "fold_err f (x # xs) s = (case f x s of Inl e \<Rightarrow> Inl e | Inr s' \<Rightarrow> fold_err f xs s')"

lemma merge_loop_visits: "merge_loop cs fn s = fold_err (\<lambda>(i, k, v). fn i k v) (visits cs) s"
proof (induction cs arbitrary: s rule: visits.induct)
  case (1 cs)
  show ?case
  proof (cases "best_key cs None")
    case None
    then show ?thesis by (simp add: merge_loop.simps [of cs] visits.simps [of cs])
  next
    case (Some m)
    obtain w cs' where st: "step_cursors m cs None = (w, cs')" by (cases "step_cursors m cs None")
    show ?thesis
    proof (cases w)
      case None
      with Some st show ?thesis by (simp add: merge_loop.simps [of cs] visits.simps [of cs])
    next
      case w: (Some x)
      obtain i k v where x: "x = (i, k, v)" by (cases x)
      show ?thesis
        unfolding merge_loop.simps [of cs fn s] visits.simps [of cs]
        using "1.IH" [OF Some st [symmetric] w] by (simp add: Some st w x split: sum.splits)
    qed
  qed
qed

text \<open>What a cursor still has to offer, each record with the input it comes from.\<close>

fun offers :: "cursor \<Rightarrow> (bytes \<times> nat \<times> bytes) list" where
  "offers (i, t, a) = map (\<lambda>j. (fst (At t j), i, snd (At t j))) [a..<Len t]"

text \<open>All records still to come, the newest input first: the first one under a key decides.\<close>

definition claims :: "cursor list \<Rightarrow> (bytes \<times> nat \<times> bytes) list" where
  "claims cs = concat (map offers (rev cs))"

definition ascending :: "cursor \<Rightarrow> bool" where
  "ascending c \<longleftrightarrow> strict_keys fst (offers c)"

lemma claims_Nil [simp]: "claims [] = []"
  and claims_Cons [simp]: "claims (c # cs) = claims cs @ offers c"
  by (simp_all add: claims_def)

lemma offers_live: "live c \<Longrightarrow> offers c = (head_key c, fst c, snd (At (fst (snd c)) (snd (snd c)))) #
    offers (fst c, fst (snd c), Suc (snd (snd c)))"
  by (cases c) (simp add: upt_conv_Cons)

lemma offers_dead: "\<not> live c \<longleftrightarrow> offers c = []"
  by (cases c) auto

text \<open>One round of the scan for the least key.\<close>

definition bump :: "cursor \<Rightarrow> bytes option \<Rightarrow> bytes option" where
  "bump c best = (if \<not> live c then best
    else case best of None \<Rightarrow> Some (head_key c) | Some b \<Rightarrow> if head_key c < b then Some (head_key c) else Some b)"

lemma best_key_bump: "best_key (c # cs) best = best_key cs (bump c best)"
  by (simp add: bump_def split: option.split)

lemma bump_cases:
  obtains "live c" "bump c best = Some (head_key c)" "\<And>b. best = Some b \<Longrightarrow> head_key c \<le> b"
  | "bump c best = best" "live c \<Longrightarrow> \<exists>b. best = Some b \<and> b \<le> head_key c"
proof (cases best)
  case None
  then show thesis using that by (cases "live c") (auto simp: bump_def)
next
  case (Some b)
  consider "\<not> live c" | "live c" "head_key c < b" | "live c" "b \<le> head_key c" by fastforce
  then show thesis
  proof cases
    case 1
    then show thesis using that(2) by (simp add: bump_def)
  next
    case 2
    then show thesis using that(1) Some by (simp add: bump_def)
  next
    case 3
    then show thesis using that(2) Some by (simp add: bump_def not_less [symmetric])
  qed
qed

lemma best_key_bound: "best_key cs best = Some m \<Longrightarrow>
    (\<forall>c \<in> set cs. live c \<longrightarrow> m \<le> head_key c) \<and> (\<forall>b. best = Some b \<longrightarrow> m \<le> b)"
proof (induction cs arbitrary: best)
  case (Cons c cs)
  then have "best_key cs (bump c best) = Some m" by (simp only: best_key_bump)
  note ih = Cons.IH [OF this]
  show ?case
  proof (rule bump_cases [of c best])
    assume "live c" "bump c best = Some (head_key c)" "\<And>b. best = Some b \<Longrightarrow> head_key c \<le> b"
    with ih show ?thesis by (metis order.trans set_ConsD)
  next
    assume "bump c best = best" "live c \<Longrightarrow> \<exists>b. best = Some b \<and> b \<le> head_key c"
    with ih show ?thesis by (metis order.trans set_ConsD)
  qed
qed simp

lemma best_key_None: "best_key cs best = None \<Longrightarrow> best = None \<and> (\<forall>c \<in> set cs. \<not> live c)"
proof (induction cs arbitrary: best)
  case (Cons c cs)
  then have "best_key cs (bump c best) = None" by (simp only: best_key_bump)
  note ih = Cons.IH [OF this]
  show ?case
  proof (rule bump_cases [of c best])
    assume "bump c best = Some (head_key c)"
    with ih show ?thesis by simp
  next
    assume "bump c best = best" "live c \<Longrightarrow> \<exists>b. best = Some b \<and> b \<le> head_key c"
    with ih show ?thesis by auto
  qed
qed simp

lemma best_key_found: "best_key cs best = Some m \<Longrightarrow>
    best = Some m \<or> (\<exists>c \<in> set cs. live c \<and> head_key c = m)"
proof (induction cs arbitrary: best)
  case (Cons c cs)
  then have "best_key cs (bump c best) = Some m" by (simp only: best_key_bump)
  note ih = Cons.IH [OF this]
  show ?case
  proof (rule bump_cases [of c best])
    assume "live c" "bump c best = Some (head_key c)"
    with ih show ?thesis by auto
  next
    assume "bump c best = best"
    with ih show ?thesis by auto
  qed
qed simp

text \<open>One cursor against the least key: it gives up its record under that key, if it stands there.\<close>

lemma offers_over:
  assumes "ascending c" "live c \<longrightarrow> m \<le> head_key c" "\<not> (live c \<and> head_key c = m)" "x \<in> set (offers c)"
  shows "m < fst x"
proof (cases "live c")
  case True
  with assms have "m < head_key c" by simp
  moreover have "head_key c \<le> fst x"
    using assms(1,4) unfolding ascending_def offers_live [OF True] by auto
  ultimately show ?thesis by (rule less_le_trans)
next
  case False
  then have "offers c = []" by (simp only: offers_dead)
  with assms(4) show ?thesis by simp
qed

lemma offers_next:
  assumes "ascending (i, t, a)" "live (i, t, a)"
  shows "ascending (i, t, Suc a)" "\<And>x. x \<in> set (offers (i, t, Suc a)) \<Longrightarrow> head_key (i, t, a) < fst x"
  using assms(1) unfolding ascending_def offers_live [OF assms(2)] by auto

lemma offers_not_at:
  fixes xs :: "(bytes \<times> 'v) list"
  assumes "\<And>x. x \<in> set xs \<Longrightarrow> m < fst x"
  shows "map_of xs m = None"
proof -
  have "m \<noteq> fst x" if "x \<in> set xs" for x
    using assms [OF that] by simp
  then show ?thesis by (auto simp: map_of_eq_None_iff)
qed

text \<open>
  The second inner loop, at the least key: the record comes from the newest claim under that
  key, and afterwards exactly that key is gone from what the cursors offer.
\<close>

lemma step_cursors_claims:
  assumes "\<forall>c \<in> set cs. ascending c" "\<forall>c \<in> set cs. live c \<longrightarrow> m \<le> head_key c"
    and "step_cursors m cs w = (w', cs')"
  shows "(\<forall>c \<in> set cs'. ascending c) \<and> (\<forall>x \<in> set (claims cs'). m < fst x) \<and>
    (\<forall>k. k \<noteq> m \<longrightarrow> map_of (claims cs') k = map_of (claims cs) k) \<and>
    w' = (case map_of (claims cs) m of None \<Rightarrow> w | Some (i, v) \<Rightarrow> Some (i, m, v))"
  using assms
proof (induction m cs w arbitrary: w' cs' rule: step_cursors.induct)
  case (2 m i t a cs w)
  show ?case
  proof (cases "live (i, t, a) \<and> head_key (i, t, a) = m")
    case True
    then obtain cs'' where r: "step_cursors m cs (Some (i, At t a)) = (w', cs'')" "cs' = (i, t, Suc a) # cs''"
      using "2.prems"(3) by (auto split: prod.splits)
    have asc: "ascending (i, t, a)" using "2.prems"(1) by simp
    have off: "offers (i, t, a) = (m, i, snd (At t a)) # offers (i, t, Suc a)"
      using offers_live [of "(i, t, a)"] True by simp
    have At: "At t a = (m, snd (At t a))" using True by (simp add: prod_eq_iff)
    have ih: "(\<forall>c \<in> set cs''. ascending c) \<and> (\<forall>x \<in> set (claims cs''). m < fst x) \<and>
        (\<forall>k. k \<noteq> m \<longrightarrow> map_of (claims cs'') k = map_of (claims cs) k) \<and>
        w' = (case map_of (claims cs) m of None \<Rightarrow> Some (i, At t a) | Some (i, v) \<Rightarrow> Some (i, m, v))"
      using "2.IH"(1) [OF True _ _ r(1)] "2.prems"(1,2) by simp
    have "m < fst x" if "x \<in> set (offers (i, t, Suc a))" for x
      using offers_next(2) [OF asc _ that] True by simp
    then show ?thesis
      unfolding r(2) claims_Cons off
      using ih offers_next(1) [OF asc] True At
      by (auto simp: map_add_def simp del: offers.simps split: option.splits)
  next
    case False
    then obtain cs'' where r: "step_cursors m cs w = (w', cs'')" "cs' = (i, t, a) # cs''"
      using "2.prems"(3) by (auto split: prod.splits if_splits)
    have ih: "(\<forall>c \<in> set cs''. ascending c) \<and> (\<forall>x \<in> set (claims cs''). m < fst x) \<and>
        (\<forall>k. k \<noteq> m \<longrightarrow> map_of (claims cs'') k = map_of (claims cs) k) \<and>
        w' = (case map_of (claims cs) m of None \<Rightarrow> w | Some (i, v) \<Rightarrow> Some (i, m, v))"
      using "2.IH"(2) [OF False _ _ r(1)] "2.prems"(1,2) by simp
    have over: "m < fst x" if "x \<in> set (offers (i, t, a))" for x
      using offers_over [OF _ _ False that] "2.prems"(1,2) by simp
    then have "map_of (offers (i, t, a)) m = None"
      by (rule offers_not_at)
    then show ?thesis
      unfolding r(2) claims_Cons
      using ih over "2.prems"(1)
      by (auto simp: map_add_def simp del: offers.simps split: option.splits)
  qed
qed simp

lemma claims_ge:
  assumes "\<forall>c \<in> set cs. ascending c" "\<forall>c \<in> set cs. live c \<longrightarrow> m \<le> head_key c" "x \<in> set (claims cs)"
  shows "m \<le> fst x"
proof -
  obtain c where c: "c \<in> set cs" "x \<in> set (offers c)" using assms(3) by (auto simp: claims_def)
  show ?thesis
  proof (cases "live c \<and> head_key c = m")
    case True
    have "strict_keys fst (offers c)" using c assms(1) by (simp add: ascending_def)
    with c(2) True show ?thesis by (auto simp: offers_live simp del: offers.simps)
  next
    case False
    with c assms show ?thesis using offers_over [of c m x] by (simp add: less_imp_le)
  qed
qed

abbreviation visit_key :: "nat \<times> bytes \<times> bytes \<Rightarrow> bytes" where
  "visit_key v \<equiv> fst (snd v)"

abbreviation visit_claim :: "nat \<times> bytes \<times> bytes \<Rightarrow> bytes \<times> nat \<times> bytes" where
  "visit_claim v \<equiv> (fst (snd v), fst v, snd (snd v))"

lemma visits_claims:
  "\<forall>c \<in> set cs. ascending c \<Longrightarrow>
    strict_keys visit_key (visits cs) \<and> map_of (map visit_claim (visits cs)) = map_of (claims cs)"
proof (induction cs rule: visits.induct)
  case (1 cs)
  show ?case
  proof (cases "best_key cs None")
    case None
    then have "\<forall>c \<in> set cs. offers c = []"
      using best_key_None offers_dead by blast
    then have "claims cs = []" by (simp add: claims_def)
    with None show ?thesis by (simp add: visits.simps [of cs])
  next
    case (Some m)
    note low = best_key_bound [OF Some, THEN conjunct1]
    obtain w cs' where st: "step_cursors m cs None = (w, cs')" by (cases "step_cursors m cs None")
    note step = step_cursors_claims [OF "1.prems" low st]
    obtain c where c: "c \<in> set cs" "live c" "head_key c = m"
      using best_key_found [OF Some] by auto
    then have "m \<in> fst ` set (claims cs)"
      by (force simp: claims_def offers_live simp del: offers.simps)
    then obtain i v where iv: "map_of (claims cs) m = Some (i, v)"
      by (cases "map_of (claims cs) m") (auto simp: map_of_eq_None_iff)
    with step have w: "w = Some (i, m, v)" by simp
    with Some st have vis: "visits cs = (i, m, v) # visits cs'" by (simp add: visits.simps [of cs])
    have ih: "strict_keys visit_key (visits cs')" "map_of (map visit_claim (visits cs')) = map_of (claims cs')"
      using "1.IH" [OF Some st [symmetric] w] step by simp_all
    have keys: "m < visit_key x" if "x \<in> set (visits cs')" for x
    proof -
      have "visit_key x \<in> dom (map_of (map visit_claim (visits cs')))"
        using that by (simp add: dom_map_of_conv_image_fst image_image)
      then have "visit_key x \<in> fst ` set (claims cs')"
        by (simp only: ih(2) dom_map_of_conv_image_fst)
      with step show ?thesis by auto
    qed
    have "map_of (map visit_claim (visits cs)) k = map_of (claims cs) k" for k
      using step iv by (simp add: vis ih(2))
    with ih keys vis show ?thesis by (auto simp: fun_eq_iff)
  qed
qed

section \<open>The streaming writer's state\<close>

text \<open>The writer after the given entries, all of the right sizes and in strictly increasing order.\<close>

definition sw_after :: "nat \<Rightarrow> nat \<Rightarrow> nat \<Rightarrow> (bytes \<times> bytes) list \<Rightarrow> stream_writer" where
  "sw_after kl rl st kvs =
     \<lparr>w_keyLen = kl, w_recordLen = rl, w_stride = st, w_spool = MemSpool, w_buf = concat (map join kvs),
      w_count = length kvs, w_samples = concat (sample_keys kl st (map join kvs)),
      w_last = (if kvs = [] then [] else fst (last kvs))\<rparr>"

lemma NewStreamWriter_after: "NewStreamWriter kl rl st = sw_after kl rl (stride_of st) []"
  by (simp add: NewStreamWriter_def sw_after_def sample_keys_def)

lemma sample_keys_snoc: "sample_keys kl st (rs @ [r]) =
    sample_keys kl st rs @ (if length rs mod st = 0 then [take kl r] else [])"
proof -
  have "map (\<lambda>i. take kl ((rs @ [r]) ! i)) (filter (\<lambda>i. i mod st = 0) [0..<length rs]) = sample_keys kl st rs"
    unfolding sample_keys_def by (rule map_cong) (auto simp: nth_append)
  then show ?thesis by (simp add: sample_keys_def)
qed

lemma strict_keys_snoc: "strict_keys f (xs @ [x]) \<longleftrightarrow> strict_keys f xs \<and> (\<forall>y \<in> set xs. f y < f x)"
  by (auto simp: strict_keys_def sorted_wrt_append)

lemma strict_keys_snoc_last:
  assumes "strict_keys f xs" "xs \<noteq> [] \<Longrightarrow> f (last xs) < f x"
  shows "strict_keys f (xs @ [x])"
proof (cases xs rule: rev_cases)
  case (snoc ys y)
  with assms have "f y < f x" "\<forall>z \<in> set ys. f z < f y" by (simp_all add: strict_keys_snoc)
  then have "\<forall>z \<in> set xs. f z < f x" unfolding snoc by (auto intro: order.strict_trans)
  with assms(1) show ?thesis by (simp add: strict_keys_snoc)
qed simp

text \<open>An accepted addition extends the sorted run, and an entry that extends it is accepted.\<close>

lemma SAdd_after:
  assumes "strict_keys fst kvs" "kvs_ok kl rl kvs"
  shows "SAdd (sw_after kl rl st kvs) k v = Inr s \<longleftrightarrow>
    s = sw_after kl rl st (kvs @ [(k, v)]) \<and> strict_keys fst (kvs @ [(k, v)]) \<and> kvs_ok kl rl (kvs @ [(k, v)])"
proof -
  have "strict_keys fst (kvs @ [(k, v)]) \<longleftrightarrow> kvs = [] \<or> fst (last kvs) < k"
    using strict_keys_snoc_last [of fst kvs "(k, v)"] assms(1)
    by (cases "kvs = []") (auto simp: strict_keys_snoc)
  then show ?thesis
    using assms(2) by (auto simp: SAdd_def sw_after_def kvs_ok_def sample_keys_snoc)
qed

lemma fold_SAdd:
  assumes "strict_keys fst kvs" "kvs_ok kl rl kvs"
  shows "fold_err (\<lambda>(k, v) sw. SAdd sw k v) new (sw_after kl rl st kvs) = Inr s \<longleftrightarrow>
    s = sw_after kl rl st (kvs @ new) \<and> strict_keys fst (kvs @ new) \<and> kvs_ok kl rl (kvs @ new)"
  using assms
proof (induction new arbitrary: kvs)
  case (Cons kv new)
  obtain k v where kv: "kv = (k, v)" by (cases kv)
  note one = SAdd_after [OF Cons.prems, of st k v]
  show ?case
  proof (cases "SAdd (sw_after kl rl st kvs) k v")
    case (Inl e)
    with one have "\<not> (strict_keys fst (kvs @ [(k, v)]) \<and> kvs_ok kl rl (kvs @ [(k, v)]))" by auto
    then have "\<not> (strict_keys fst (kvs @ (k, v) # new) \<and> kvs_ok kl rl (kvs @ (k, v) # new))"
      by (auto simp: strict_keys_def sorted_wrt_append kvs_ok_def)
    with Inl show ?thesis by (simp add: kv)
  next
    case (Inr s')
    with one have "s' = sw_after kl rl st (kvs @ [(k, v)])" "strict_keys fst (kvs @ [(k, v)])"
      "kvs_ok kl rl (kvs @ [(k, v)])" by auto
    with Inr Cons.IH [of "kvs @ [(k, v)]"] show ?thesis by (simp add: kv)
  qed
qed auto

lemma Finish_after:
  assumes "kvs_ok kl rl kvs"
  shows "Finish (sw_after kl rl st kvs) = Inr (encodeRecords kl rl st (map join kvs))"
proof -
  let ?b = "concat (map join kvs)"
  have len: "length ?b = length kvs * (kl + rl)"
    using kvs_ok_uniform [OF assms] length_concat_uniform [of "kl + rl" "map join kvs"] by simp
  have "ms_seek (ms_write MemSpool ?b) 0 SeekStart = Inr \<lparr>ms_buf = ?b, ms_pos = 0\<rparr>"
    by (simp add: ms_seek_def ms_write_def MemSpool_def)
  moreover have "ms_copyN \<lparr>ms_buf = ?b, ms_pos = 0\<rparr> (length kvs * (kl + rl)) = Inr ?b"
    unfolding len [symmetric] by (cases "?b = []") (simp_all add: ms_copyN_def ms_read_def Let_def del: concat_eq_Nil_conv length_concat)
  ultimately show ?thesis
    by (simp add: Finish_def sw_after_def encodeRecords_def)
qed

section \<open>Merging tables\<close>

text \<open>A table's entries in the order \<open>At\<close> gives them.\<close>

definition entries :: "table \<Rightarrow> (bytes \<times> bytes) list" where
  "entries t = map (At t) [0..<Len t]"

definition sorted_table :: "table \<Rightarrow> bool" where
  "sorted_table t \<longleftrightarrow> table_ok t \<and> strict_keys fst (entries t)"

lemma length_entries [simp]: "length (entries t) = Len t"
  by (simp add: entries_def)

lemma entries_rows: "table_ok t \<Longrightarrow>
    entries t = map (\<lambda>r. (take (KeyLen (t_h t)) r, drop (KeyLen (t_h t)) r)) (table_rows t)"
  by (rule nth_equalityI) (auto simp: entries_def At_row table_rows_props(2))

lemma entries_ok: "table_ok t \<Longrightarrow> kvs_ok (KeyLen (t_h t)) (RecordLen (t_h t)) (entries t)"
  using table_rows_props(1) [of t]
  by (auto simp: kvs_ok_def entries_rows list_all_iff uniform_def entryLen_def)

lemma join_entries: "table_ok t \<Longrightarrow> map join (entries t) = table_rows t"
  by (simp add: entries_rows comp_def)

lemma strict_keys_join: "kvs_ok kl rl kvs \<Longrightarrow> strict_keys (take kl) (map join kvs) \<longleftrightarrow> strict_keys fst kvs"
proof (induction kvs)
  case (Cons kv kvs)
  then have "kvs_ok kl rl kvs" "take kl (join kv) = fst kv" "\<forall>y \<in> set kvs. take kl (join y) = fst y"
    by (auto simp: kvs_ok_def list_all_iff)
  with Cons.IH show ?case by (simp del: take_append)
qed simp

lemma strict_keys_distinct: "strict_keys f xs \<Longrightarrow> distinct (map f xs)"
  by (induction xs) auto

lemma map_of_rev_distinct: "distinct (map fst kvs) \<Longrightarrow> map_of (rev kvs) = map_of kvs"
  by (rule map_of_eqI) (auto simp: rev_map [symmetric] intro!: map_of_is_SomeI)

text \<open>A run of entries in order, encoded and opened, answers with exactly its entries.\<close>

lemma encoded_sorted:
  assumes "0 < kl" "kl < 2 ^ 16" "rl < 2 ^ 16" "0 < st" "st < 2 ^ 32" "length kvs < 2 ^ 32"
    and "kvs_ok kl rl kvs" "strict_keys fst kvs"
  obtains t where "Open (encodeRecords kl rl st (map join kvs)) = Inr t"
    "sorted_table t" "KeyLen (t_h t) = kl" "RecordLen (t_h t) = rl" "entries t = kvs"
    "Lookup t = map_of kvs"
proof -
  let ?recs = "map join kvs"
  let ?t = "\<lparr>t_h = enc_header kl rl st ?recs, t_records = concat ?recs\<rparr>"
  have sh: "shape_ok kl rl st ?recs"
    using assms kvs_ok_uniform [OF assms(7)] by (simp add: shape_ok_def)
  note o = Open_encoded [OF sh]
  have ok: "table_ok ?t" using Open_ok(1) [OF o] .
  have "table_rows ?t = ?recs"
    using rows_concat [OF kvs_ok_uniform [OF assms(7)]]
    by (simp add: table_rows_def Len_def enc_header_def entryLen_def)
  moreover have "map (\<lambda>r. (take kl r, drop kl r)) ?recs = kvs"
    using assms(7) by (induction kvs) (auto simp: kvs_ok_def)
  ultimately have ent: "entries ?t = kvs"
    using entries_rows [OF ok] by (simp add: enc_header_def)
  have "Lookup ?t key = map_of kvs key" for key
    using Lookup_encoded [OF sh _ o, of key] latest_join [OF assms(7), of key] strict_keys_join [OF assms(7)]
      map_of_rev_distinct [OF strict_keys_distinct [OF assms(8)]] assms(8) by simp
  then show thesis
    using that [OF o] ok ent assms(8) by (simp add: sorted_table_def enc_header_def fun_eq_iff)
qed

text \<open>A sorted table answers with exactly its entries, however it was made.\<close>

lemma Lookup_sorted:
  assumes "sorted_table t"
  shows "Lookup t key = map_of (entries t) key"
proof -
  have ok: "table_ok t" and sk: "strict_keys fst (entries t)"
    using assms by (simp_all add: sorted_table_def)
  have pos: "0 < entryLen (t_h t)" using ok by (intro entryLen_pos) (simp add: table_ok_def)
  note kvs = entries_ok [OF ok]
  have "strict_keys (take (KeyLen (t_h t))) (table_rows t)"
    using strict_keys_join [OF kvs] sk join_entries [OF ok] by simp
  then have "LookupWindow (t_h t) (t_records t) key =
      map_option (drop (KeyLen (t_h t))) (latest (take (KeyLen (t_h t))) (map join (entries t)) key)"
    using LookupWindow_sorted [OF _ table_rows_props(1) [OF ok] pos, of key] join_entries [OF ok]
    by (simp add: table_rows_concat [OF ok])
  also have "\<dots> = map_of (entries t) key"
    using latest_join [OF kvs, of key] map_of_rev_distinct [OF strict_keys_distinct [OF sk]] by simp
  finally have eq: "LookupWindow (t_h t) (t_records t) key = map_of (entries t) key" .
  have "map_of (entries t) key = None" if "length key \<noteq> KeyLen (t_h t)"
    using that kvs by (auto simp: map_of_eq_None_iff kvs_ok_def list_all_iff)
  with eq show ?thesis by (auto simp: Lookup_def)
qed

text \<open>Every table a builder writes is sorted, and its entries are the latest ones added.\<close>

lemma built_table:
  assumes "0 < kl" "kl < 2 ^ 16" "rl < 2 ^ 16" "st < 2 ^ 32" "length kvs < 2 ^ 32" "kvs_ok kl rl kvs"
    and "build_table kl rl st kvs = Inr b" "Open b = Inr t"
  shows "sorted_table t" "KeyLen (t_h t) = kl" "RecordLen (t_h t) = rl" "map_of (entries t) = map_of (rev kvs)"
proof -
  obtain recs where r: "build_table kl rl st kvs = Inr (encodeRecords kl rl (stride_of st) recs)"
    "shape_ok kl rl (stride_of st) recs" "strict_keys (take kl) recs"
    "latest (take kl) recs = latest (take kl) (map join kvs)"
    using Encode_built [OF assms(1-6)] by blast
  define es where "es = map (\<lambda>r. (take kl r, drop kl r)) recs"
  have es: "map join es = recs" "kvs_ok kl rl es"
    using r(2) by (auto simp: es_def comp_def kvs_ok_def list_all_iff shape_ok_def uniform_def)
  have sk: "strict_keys fst es" using r(3) strict_keys_join [OF es(2)] es(1) by simp
  have "length es < 2 ^ 32" "0 < stride_of st" "stride_of st < 2 ^ 32"
    using r(2) by (auto simp: es_def shape_ok_def)
  then obtain t' where t': "Open b = Inr t'" "sorted_table t'" "KeyLen (t_h t') = kl" "RecordLen (t_h t') = rl"
    "entries t' = es"
    using encoded_sorted [OF assms(1-3) _ _ _ es(2) sk, of "stride_of st"] es(1) r(1) assms(7) by auto
  have "map_of es key = map_of (rev kvs) key" for key
    using latest_join [OF es(2), of key] latest_join [OF assms(6), of key] r(4) es(1)
      map_of_rev_distinct [OF strict_keys_distinct [OF sk]] by simp
  with t' assms(8) show "sorted_table t" "KeyLen (t_h t) = kl" "RecordLen (t_h t) = rl"
    "map_of (entries t) = map_of (rev kvs)"
    by (auto simp: fun_eq_iff)
qed

lemma sorted_table_ascending: "sorted_table t \<Longrightarrow> ascending (i, t, 0)"
proof -
  assume "sorted_table t"
  then have "strict_keys fst (entries t)" by (simp add: sorted_table_def)
  moreover have "strict_keys fst (map (\<lambda>j. (fst (At t j), i, snd (At t j))) xs)"
    if "strict_keys fst (map (At t) xs)" for xs
    using that by (induction xs) auto
  ultimately show ?thesis by (simp add: ascending_def entries_def)
qed

lemma claims_start: "map (\<lambda>(k, i, v). (k, v)) (claims (start_cursors ts)) = concat (map entries (rev ts))"
proof -
  have "map (\<lambda>(k, i, v). (k, v)) (claims (map (\<lambda>(i, t). (i, t, 0)) (enumerate n ts))) =
      concat (map entries (rev ts))" for n
    by (induction ts arbitrary: n) (auto simp: entries_def comp_def)
  then show ?thesis by (simp add: start_cursors_def)
qed

lemma map_of_drop_index: "map_of (map (\<lambda>(k, i, v). (k, v)) xs) = map_option snd \<circ> map_of xs"
  by (induction xs) (auto simp: fun_eq_iff)

lemma visits_start:
  assumes "\<forall>t \<in> set ts. sorted_table t"
  shows "strict_keys fst (map snd (visits (start_cursors ts)))"
    "map_of (map snd (visits (start_cursors ts))) = map_of (concat (map entries (rev ts)))"
proof -
  have "\<forall>c \<in> set (start_cursors ts). ascending c"
    using assms by (auto simp: start_cursors_def in_set_enumerate_eq intro!: sorted_table_ascending)
  note v = visits_claims [OF this]
  have "strict_keys fst (map snd vs) \<longleftrightarrow> strict_keys visit_key vs" for vs :: "(nat \<times> bytes \<times> bytes) list"
    by (induction vs) auto
  with v show "strict_keys fst (map snd (visits (start_cursors ts)))" by simp
  have "map snd vs = map (\<lambda>(k, i, v). (k, v)) (map visit_claim vs)" for vs :: "(nat \<times> bytes \<times> bytes) list"
    by (simp add: comp_def)
  then have "map_of (map snd (visits (start_cursors ts))) =
      map_option snd \<circ> map_of (map visit_claim (visits (start_cursors ts)))"
    by (simp only: map_of_drop_index)
  also have "\<dots> = map_option snd \<circ> map_of (claims (start_cursors ts))" using v by simp
  also have "\<dots> = map_of (concat (map entries (rev ts)))"
    unfolding map_of_drop_index [symmetric] claims_start ..
  finally show "map_of (map snd (visits (start_cursors ts))) = map_of (concat (map entries (rev ts)))" .
qed

lemma visits_MergeKeys: "MergeKeys ts (\<lambda>_ k v sw. f k v sw) s =
    fold_err (\<lambda>(k, v) sw. f k v sw) (map snd (visits (start_cursors ts))) s"
proof -
  have "fold_err (\<lambda>(i, k, v). f k v) vs s = fold_err (\<lambda>(k, v). f k v) (map snd vs) s"
    for vs :: "(nat \<times> bytes \<times> bytes) list"
    by (induction vs arbitrary: s) (auto split: sum.splits)
  then show ?thesis by (simp add: MergeKeys_def merge_loop_visits)
qed

lemma visits_kvs_ok:
  assumes "\<forall>t \<in> set ts. sorted_table t \<and> KeyLen (t_h t) = kl \<and> RecordLen (t_h t) = rl"
  shows "kvs_ok kl rl (map snd (visits (start_cursors ts)))"
    "set (map fst (map snd (visits (start_cursors ts)))) = (\<Union>t \<in> set ts. set (map fst (entries t)))"
proof -
  let ?vs = "map snd (visits (start_cursors ts))"
  have st: "\<forall>t \<in> set ts. sorted_table t" using assms by blast
  note v = visits_start [OF st]
  have ok: "length k = kl \<and> length w = rl" if "t \<in> set ts" "(k, w) \<in> set (entries t)" for t k w
    using entries_ok [of t] assms that by (auto simp: sorted_table_def kvs_ok_def list_all_iff)
  have "length k = kl \<and> length w = rl" if "(k, w) \<in> set ?vs" for k w
  proof -
    have "map_of ?vs k = Some w"
      using that by (rule map_of_is_SomeI [OF strict_keys_distinct [OF v(1)]])
    then have "(k, w) \<in> set (concat (map entries (rev ts)))"
      by (simp only: v(2)) (rule map_of_SomeD)
    then show ?thesis using ok by auto
  qed
  then show "kvs_ok kl rl ?vs" by (auto simp: kvs_ok_def list_all_iff simp del: set_map)
  have "dom (map_of ?vs) = dom (map_of (concat (map entries (rev ts))))" by (simp only: v(2))
  then show "set (map fst ?vs) = (\<Union>t \<in> set ts. set (map fst (entries t)))"
    by (simp add: dom_map_of_conv_image_fst image_UN image_image)
qed

text \<open>The merge of sorted tables of one shape: one sorted run, the newest table's record under each key.\<close>

lemma MergeTo_sorted:
  assumes "\<forall>t \<in> set ts. sorted_table t \<and> KeyLen (t_h t) = kl \<and> RecordLen (t_h t) = rl"
  defines "vs \<equiv> map snd (visits (start_cursors ts))"
  shows "MergeTo kl rl st ts = Inr (encodeRecords kl rl (stride_of st) (map join vs))"
    "kvs_ok kl rl vs" "strict_keys fst vs" "map_of vs = map_of (concat (map entries (rev ts)))"
proof -
  have st: "\<forall>t \<in> set ts. sorted_table t" using assms(1) by blast
  show v: "strict_keys fst vs" "map_of vs = map_of (concat (map entries (rev ts)))"
    using visits_start [OF st] by (simp_all add: vs_def)
  show ok: "kvs_ok kl rl vs" using visits_kvs_ok(1) [OF assms(1)] by (simp add: vs_def)
  have "fold_err (\<lambda>(k, v) sw. SAdd sw k v) vs (sw_after kl rl (stride_of st) []) =
      Inr (sw_after kl rl (stride_of st) vs)"
    using fold_SAdd [where kvs = "[]" and new = vs] v(1) ok by (simp add: kvs_ok_def)
  then show "MergeTo kl rl st ts = Inr (encodeRecords kl rl (stride_of st) (map join vs))"
    using assms(1) Finish_after [OF ok, of "stride_of st"]
    by (simp add: MergeTo_def visits_MergeKeys NewStreamWriter_after vs_def [symmetric] list_all_iff)
qed

lemma merge_opens:
  assumes "\<forall>t \<in> set ts. sorted_table t \<and> KeyLen (t_h t) = kl \<and> RecordLen (t_h t) = rl"
    and "0 < kl" "kl < 2 ^ 16" "rl < 2 ^ 16" "st < 2 ^ 32" "sum_list (map Len ts) < 2 ^ 32"
  obtains b m where "MergeTo kl rl st ts = Inr b" "Open b = Inr m" "sorted_table m"
    "KeyLen (t_h m) = kl" "RecordLen (t_h m) = rl" "Lookup m = map_of (concat (map entries (rev ts)))"
    "entries m = map snd (visits (start_cursors ts))"
proof -
  let ?vs = "map snd (visits (start_cursors ts))"
  note m = MergeTo_sorted [OF assms(1)]
  have "length ?vs = card (set (map fst ?vs))"
    using distinct_card [OF strict_keys_distinct [OF m(3)]] by simp
  also have "\<dots> = card (set (map fst (concat (map entries ts))))"
    using visits_kvs_ok(2) [OF assms(1)] by (simp only:) (rule arg_cong [where f = card], auto)
  also have "\<dots> \<le> length (map fst (concat (map entries ts)))" by (rule card_length)
  also have "\<dots> = sum_list (map Len ts)" by (simp add: length_concat comp_def)
  finally have len: "length ?vs < 2 ^ 32" using assms(6) by simp
  have "0 < stride_of st" "stride_of st < 2 ^ 32"
    using assms(5) by (auto simp: stride_of_def DefaultStride_def)
  then obtain t where "Open (encodeRecords kl rl (stride_of st) (map join ?vs)) = Inr t" "sorted_table t"
    "KeyLen (t_h t) = kl" "RecordLen (t_h t) = rl" "entries t = ?vs" "Lookup t = map_of ?vs"
    using encoded_sorted [OF assms(2-4) _ _ len m(2,3), of "stride_of st"] by blast
  with m(1,4) show thesis by (intro that) simp_all
qed

text \<open>
  The format of a trailer, of a multi-pack index and of a manifest is a mergeable table: the
  merge answers as one table made of all the inputs' entries, oldest first.
\<close>

lemma served_sorted:
  assumes "0 < kl" "kl < 2 ^ 16" "rl < 2 ^ 16" "table_okay kl rl kvs" "build_table kl rl 0 kvs = Inr b" "Open b = Inr t"
  shows "sorted_table t \<and> KeyLen (t_h t) = kl \<and> RecordLen (t_h t) = rl" "map_of (entries t) = map_of (rev kvs)"
    "Len t \<le> length kvs"
proof -
  have k: "(0::int) < 2 ^ 32" "length kvs < 2 ^ 32" "kvs_ok kl rl kvs"
    using assms(4) by (auto simp: table_okay_def)
  note bt = built_table [OF assms(1-3) k assms(5,6)]
  show "sorted_table t \<and> KeyLen (t_h t) = kl \<and> RecordLen (t_h t) = rl" "map_of (entries t) = map_of (rev kvs)"
    using bt by simp_all
  have "Len t = card (fst ` set (entries t))"
    using distinct_card [OF strict_keys_distinct [of fst "entries t"]] bt(1) by (simp add: sorted_table_def)
  also have "fst ` set (entries t) = fst ` set kvs"
    using arg_cong [OF bt(4), of dom] by (simp add: dom_map_of_conv_image_fst)
  also have "card \<dots> \<le> length kvs"
    using card_length [of "map fst kvs"] by simp
  finally show "Len t \<le> length kvs" .
qed

lemma merged_table:
  assumes "0 < kl" "kl < 2 ^ 16" "rl < 2 ^ 16"
    and "list_all2 (\<lambda>t kvs. table_okay kl rl kvs \<and> (\<exists>b. build_table kl rl 0 kvs = Inr b \<and> Open b = Inr t)) ts kvss"
    and "table_okay kl rl (concat kvss)"
  shows "\<exists>b t. MergeTo kl rl 0 ts = Inr b \<and> Open b = Inr t \<and> Lookup t = map_of (rev (concat kvss))"
proof -
  have each: "(\<forall>t \<in> set ts. sorted_table t \<and> KeyLen (t_h t) = kl \<and> RecordLen (t_h t) = rl) \<and>
      map_of (concat (map entries (rev ts))) = map_of (rev (concat kvss)) \<and>
      sum_list (map Len ts) \<le> length (concat kvss)"
    using assms(4)
  proof (induction ts kvss rule: list_all2_induct)
    case (Cons t ts kvs kvss)
    then obtain b where "table_okay kl rl kvs" "build_table kl rl 0 kvs = Inr b" "Open b = Inr t" by blast
    note s = served_sorted [OF assms(1-3) this]
    from Cons s show ?case by (simp add: fun_eq_iff map_add_def split: option.split)
  qed simp
  then have "sum_list (map Len ts) < 2 ^ 32"
    using assms(5) by (simp add: table_okay_def)
  then show ?thesis
    using merge_opens [of ts kl rl 0] each assms(1-3) by (metis zero_less_numeral zero_less_power)
qed

interpretation trailer_merge: merge_table "table_okay 32 17" "build_table 32 17 0" Open Lookup "MergeTo 32 17 0"
  by unfold_locales (rule merged_table, auto simp: trailer_tbl.serves_def [abs_def])

interpretation mpi_merge: merge_table "table_okay 12 4" "build_table 12 4 0" Open Lookup "MergeTo 12 4 0"
  by unfold_locales (rule merged_table, auto simp: mpi_tbl.serves_def [abs_def])

interpretation manifest_merge: merge_table "table_okay 32 40" "build_table 32 40 0" Open Lookup "MergeTo 32 40 0"
  by unfold_locales (rule merged_table, auto simp: manifest_tbl.serves_def [abs_def])

section \<open>Properties\<close>

text \<open>
  C4: The newest table wins. Tables built by the builder with the default stride, given to \<open>Merge\<close> oldest first,
  merge into a table that opens and answers each key as the newest input holding it does.
\<close>

theorem merge_newest_table_wins:
  assumes "0 < kl" "kl < 2 ^ 16" "rl < 2 ^ 16"
    and "list_all2 (\<lambda>t kvs. table_okay kl rl kvs \<and> (\<exists>b. build_table kl rl 0 kvs = Inr b \<and> Open b = Inr t)) ts kvss"
    and "table_okay kl rl (concat kvss)"
  shows "\<exists>b m. MergeTo kl rl 0 ts = Inr b \<and> Open b = Inr m \<and>
    (\<forall>key. Lookup m key = fold (\<lambda>t r. case Lookup t key of None \<Rightarrow> r | Some v \<Rightarrow> Some v) ts None)"
proof -
  obtain b m where m: "MergeTo kl rl 0 ts = Inr b" "Open b = Inr m" "Lookup m = map_of (rev (concat kvss))"
    using merged_table [OF assms] by blast
  have "fold (\<lambda>t r. case Lookup t key of None \<Rightarrow> r | Some v \<Rightarrow> Some v) ts r =
      (case map_of (rev (concat kvss)) key of None \<Rightarrow> r | Some v \<Rightarrow> Some v)" for key r
    using assms(4)
  proof (induction ts kvss arbitrary: r rule: list_all2_induct)
    case (Cons t ts kvs kvss)
    then obtain b where b: "table_okay kl rl kvs" "build_table kl rl 0 kvs = Inr b" "Open b = Inr t" by blast
    then have "\<exists>b t. build_table kl rl 0 kvs = Inr b \<and> Open b = Inr t \<and> Lookup t = map_of (rev kvs)"
      by (intro build_table_opens [OF assms(1-3)]) (simp_all add: table_okay_def)
    with b have "Lookup t = map_of (rev kvs)" by auto
    with Cons.IH show ?case by (simp add: map_add_def split: option.split)
  qed simp
  with m show ?thesis by (auto split: option.split)
qed

text \<open>
  A streaming table is sorted or refused. The records offered to a fresh \<open>StreamWriter\<close>
  are all accepted exactly when they have the right sizes and strictly increasing keys, and
  the table \<open>Finish\<close> then writes is byte for byte the one the sorting encoder writes.
\<close>

theorem stream_writer_sorted_or_refused:
  "(case fold_err (\<lambda>(k, v) sw. SAdd sw k v) kvs (NewStreamWriter kl rl st) of
      Inl e \<Rightarrow> \<not> (strict_keys fst kvs \<and> kvs_ok kl rl kvs)
    | Inr sw \<Rightarrow> strict_keys fst kvs \<and> kvs_ok kl rl kvs \<and> w_count sw = length kvs \<and>
        Finish sw = Inr (encodeRecords kl rl (stride_of st) (map join kvs)) \<and>
        build_table kl rl st kvs = Inr (encodeRecords kl rl (stride_of st) (map join kvs)))"
proof (cases "fold_err (\<lambda>(k, v) sw. SAdd sw k v) kvs (NewStreamWriter kl rl st)")
  case (Inl e)
  then show ?thesis
    using fold_SAdd [where kvs = "[]" and new = kvs and kl = kl and rl = rl and st = "stride_of st"]
    by (simp add: NewStreamWriter_after kvs_ok_def)
next
  case (Inr sw)
  then have r: "sw = sw_after kl rl (stride_of st) kvs" "strict_keys fst kvs" "kvs_ok kl rl kvs"
    using fold_SAdd [where kvs = "[]" and new = kvs and kl = kl and rl = rl and st = "stride_of st"]
    by (simp_all add: NewStreamWriter_after kvs_ok_def)
  have sk: "strict_keys (take kl) (map join kvs)" using r(2) strict_keys_join [OF r(3)] by simp
  have sorted: "sorted (map (take kl) (map join kvs))"
    using sk unfolding strict_keys_def sorted_wrt_map [symmetric] by (rule strict_sorted_imp_sorted)
  have "keep_last (take kl) rs = rs" if "strict_keys (take kl) rs" for rs :: "bytes list"
    using that by (induction "take kl :: bytes \<Rightarrow> bytes" rs rule: keep_last.induct) auto
  with sk sorted have "build_table kl rl st kvs = Inr (encodeRecords kl rl (stride_of st) (map join kvs))"
    using r(3) add_all_ok [of "NewBuilder kl rl st" kvs]
    by (simp add: build_table_def NewBuilder_def Encode_def sorted_kept_def stride_of_def sort_key_id_if_sorted)
  with Inr r Finish_after [OF r(3)] show ?thesis by (simp add: sw_after_def)
qed

section \<open>Witnesses\<close>

theorem merge_newest_table_wins_witness:
  "\<exists>ta tb b m. Lookup ta [1, 1] = Some [7] \<and> Lookup tb [1, 1] = Some [9] \<and>
     MergeTo 2 1 0 [ta, tb] = Inr b \<and> Open b = Inr m \<and>
     Lookup m [1, 1] = Some [9] \<and> Lookup m [2, 2] = Some [5] \<and> Lookup m [3, 3] = None"
proof -
  let ?a = "[([1, 1], [7]), ([2, 2], [5])] :: (bytes \<times> bytes) list" and ?b = "[([1, 1], [9])] :: (bytes \<times> bytes) list"
  have ok: "table_okay 2 1 ?a" "table_okay 2 1 ?b" "table_okay 2 1 (concat [?a, ?b])"
    by (simp_all add: table_okay_def kvs_ok_def)
  obtain ba ta where a: "build_table 2 1 0 ?a = Inr ba" "Open ba = Inr ta" "Lookup ta = map_of (rev ?a)"
    using build_table_opens [of 2 1 0 ?a] ok(1) by (auto simp: table_okay_def)
  obtain bb tb where b: "build_table 2 1 0 ?b = Inr bb" "Open bb = Inr tb" "Lookup tb = map_of (rev ?b)"
    using build_table_opens [of 2 1 0 ?b] ok(2) by (auto simp: table_okay_def)
  have "\<exists>b m. MergeTo 2 1 0 [ta, tb] = Inr b \<and> Open b = Inr m \<and>
    (\<forall>key. Lookup m key = fold (\<lambda>t r. case Lookup t key of None \<Rightarrow> r | Some v \<Rightarrow> Some v) [ta, tb] None)"
    by (rule merge_newest_table_wins [of 2 1 "[ta, tb]" "[?a, ?b]"]) (use ok a b in auto)
  then obtain c m where "MergeTo 2 1 0 [ta, tb] = Inr c" "Open c = Inr m"
    "\<And>key. Lookup m key = fold (\<lambda>t r. case Lookup t key of None \<Rightarrow> r | Some v \<Rightarrow> Some v) [ta, tb] None"
    by blast
  with a(3) b(3) show ?thesis by (intro exI [of _ ta] exI [of _ tb]) simp
qed

text \<open>A spool read back after a rewind gives what was written; a record that arrives late is refused.\<close>

lemma late_record_refused:
  "fold_err (\<lambda>(k, v) sw. SAdd sw k v) [([2], [1]), ([2], [3])] (NewStreamWriter 1 1 0) = Inl (OutOfOrder [2] [2])"
  by (simp add: NewStreamWriter_def SAdd_def)

end
