(* ===== verification/Pack_Store.thy ===== *)
theory Pack_Store
  imports Pack_Merge Identity
begin

text \<open>
  Pack trailers, \<open>internal/packstore/trailertable.go\<close> and \<open>packstore.go\<close>: the table form of a
  trailer (\<open>encodeTable\<close>, \<open>openTable\<close>, \<open>decodeTable\<close>, \<open>LookupStored\<close>), the gate on entry
  extents, the footer, and the two readers of a pack's tail. Offsets and lengths are 64-bit
  words read as signed integers, because the checks on them are about overflow. The JSON
  forms of old packs are parameters: a marshaller, an unmarshaller and the zstd library.
\<close>

definition pk_magic :: string where "pk_magic = ''PELFSPK1''"
definition pk_magicZ :: string where "pk_magicZ = ''PELFSPK2''"
definition pk_magicT :: string where "pk_magicT = ''PELFSPK3''"
definition tableMagic :: string where "tableMagic = ''PELFSTB1''"
definition footerSize :: nat where "footerSize = 16"
definition tableHeader :: nat where "tableHeader = 24"
definition tableRecord :: nat where "tableRecord = 17"
definition tailProbe :: nat where "tailProbe = 131072"

record pack_entry =
  Key :: string
  Off :: int64
  Length :: int64
  Type :: string

record trailer =
  Version :: int
  Created :: int64
  Entries :: "pack_entry list"
  Dead :: "string list"

record sealed_pack =
  sp_Name :: string
  sp_TrailerHash :: bytes
  sp_Size :: int64

datatype pk_error = BadKey string | BadExtent string | Table ix_error | NotTable | DeadBytes nat
  | TruncatedDead | DeadCount nat | BadShape nat nat | Marshal | Decompress | Unmarshal
  | BadVersion int | TooSmall | BadIndexLength | BadMagic | Transport string | HashMismatch
  | Duplicate string | Append string | EmptyPack | Finalizing | NothingToRetain | Renaming

section \<open>The table form\<close>

definition entryTypeCode :: "string \<Rightarrow> byte" where
  "entryTypeCode t =
     (if t = ''catalog'' then 1 else if t = ''shard'' then 2 else if t = ''sb'' then 3 else 0)"

definition entryTypeName :: "byte \<Rightarrow> string" where
  "entryTypeName c =
     (if c = 1 then ''catalog'' else if c = 2 then ''shard'' else if c = 3 then ''sb'' else [])"

definition isTable :: "bytes \<Rightarrow> bool" where
  "isTable stored \<longleftrightarrow> 8 \<le> length stored \<and> take 8 stored = str_bytes tableMagic"

definition table_row :: "pack_entry \<Rightarrow> bytes" where
  "table_row e = put_u64 (Off e) @ put_u64 (Length e) @ [entryTypeCode (Type e)]"

text \<open>The loop of \<open>encodeTable\<close> over the entries.\<close>

fun add_entries :: "builder \<Rightarrow> pack_entry list \<Rightarrow> pk_error + builder" where
  "add_entries b [] = Inr b"
| "add_entries b (e # es) =
     (case hex_decode (Key e) of
        None \<Rightarrow> Inl (BadKey (Key e))
      | Some ident \<Rightarrow>
          (if length ident \<noteq> KeySize then Inl (BadKey (Key e))
           else if Off e <s 0 \<or> Length e <s 0 then Inl (BadExtent (Key e))
           else case Add b ident (table_row e) of
                  Inl x \<Rightarrow> Inl (Table x)
                | Inr b' \<Rightarrow> add_entries b' es))"

definition dead_names :: "string list \<Rightarrow> bytes" where
  "dead_names ds = concat (map (\<lambda>d. le_bytes 2 (length d) @ str_bytes d) ds)"

definition encodeTable :: "trailer \<Rightarrow> pk_error + bytes" where
  "encodeTable tr =
     (case add_entries (NewBuilder KeySize tableRecord 0) (Entries tr) of
        Inl e \<Rightarrow> Inl e
      | Inr b \<Rightarrow>
          Inr (str_bytes tableMagic @ put_u64 (Created tr) @ le_bytes 4 (length (dead_names (Dead tr))) @
               le_bytes 4 (length (Dead tr)) @ dead_names (Dead tr) @ Encode b))"

text \<open>The loop of \<open>openTable\<close> over the dead names.\<close>

function read_dead :: "bytes \<Rightarrow> pk_error + string list" where
  "read_dead names =
     (if names = [] then Inr []
      else if length names < 2 then Inl TruncatedDead
      else let n = u16_at names 0; rest = drop 2 names
           in if length rest < n then Inl TruncatedDead
              else case read_dead (drop n rest) of
                     Inl e \<Rightarrow> Inl e
                   | Inr ds \<Rightarrow> Inr (bytes_str (take n rest) # ds))"
  by pat_completeness auto
termination
  by (relation "measure length") auto

declare read_dead.simps [simp del]

definition openTable :: "bytes \<Rightarrow> pk_error + table \<times> trailer" where
  "openTable stored =
     (if \<not> isTable stored \<or> length stored < tableHeader then Inl NotTable
      else let deadBytes = u32_at stored 16; deadCount = u32_at stored 20
           in if length stored - tableHeader < deadBytes then Inl (DeadBytes deadBytes)
              else case read_dead (ext stored tableHeader deadBytes) of
                     Inl e \<Rightarrow> Inl e
                   | Inr dead \<Rightarrow>
                       (if length dead \<noteq> deadCount then Inl (DeadCount deadCount)
                        else case Open (drop (tableHeader + deadBytes) stored) of
                               Inl e \<Rightarrow> Inl (Table e)
                             | Inr tbl \<Rightarrow>
                                 (if KeyLen (t_h tbl) \<noteq> KeySize \<or> RecordLen (t_h tbl) \<noteq> tableRecord
                                  then Inl (BadShape (KeyLen (t_h tbl)) (RecordLen (t_h tbl)))
                                  else Inr (tbl, \<lparr>Version = 1, Created = get_u64 (drop 8 stored),
                                                  Entries = [], Dead = dead\<rparr>))))"

definition entry_of :: "bytes \<Rightarrow> bytes \<Rightarrow> pack_entry" where
  "entry_of ident v = \<lparr>Key = hex_encode ident, Off = get_u64 v, Length = get_u64 (drop 8 v),
     Type = entryTypeName (v ! 16)\<rparr>"

definition decodeTable :: "bytes \<Rightarrow> pk_error + trailer" where
  "decodeTable stored =
     (case openTable stored of
        Inl e \<Rightarrow> Inl e
      | Inr (tbl, tr) \<Rightarrow> Inr (tr\<lparr>Entries := map (\<lambda>i. entry_of (fst (At tbl i)) (snd (At tbl i))) [0..<Len tbl]\<rparr>))"

text \<open>The gate every extent passes before it reaches a range read.\<close>

definition bad_extent :: "pack_entry \<Rightarrow> bool" where
  "bad_extent e \<longleftrightarrow> Off e <s 0 \<or> Length e <s 0 \<or> Off e + Length e <s 0"

definition LookupStored :: "bytes \<Rightarrow> bytes \<Rightarrow> pack_entry option" where
  "LookupStored stored ident =
     (case openTable stored of
        Inl e \<Rightarrow> None
      | Inr (tbl, tr) \<Rightarrow>
          (case Lookup tbl ident of
             None \<Rightarrow> None
           | Some v \<Rightarrow> (if bad_extent (entry_of ident v) then None else Some (entry_of ident v))))"

section \<open>All the forms of a trailer\<close>

record forms =
  json_out :: "trailer \<Rightarrow> bytes option"
  json_in :: "bytes \<Rightarrow> trailer option"
  z_out :: "bytes \<Rightarrow> bytes"
  z_in :: "bytes \<Rightarrow> bytes option"

definition encodeTrailer :: "forms \<Rightarrow> trailer \<Rightarrow> pk_error + bytes \<times> bytes" where
  "encodeTrailer fm tr =
     (case encodeTable tr of
        Inr stored \<Rightarrow> Inr (stored, le_bytes 8 (length stored) @ str_bytes pk_magicT)
      | Inl e \<Rightarrow>
          (case json_out fm tr of
             None \<Rightarrow> Inl Marshal
           | Some raw \<Rightarrow>
               Inr (z_out fm raw, le_bytes 8 (length (z_out fm raw)) @ str_bytes pk_magicZ)))"

definition knownTrailerMagic :: "string \<Rightarrow> bool" where
  "knownTrailerMagic m \<longleftrightarrow> m = pk_magic \<or> m = pk_magicZ \<or> m = pk_magicT"

definition idxLenFromFooter :: "bytes \<Rightarrow> int64 \<Rightarrow> pk_error + int64" where
  "idxLenFromFooter footer sz =
     (if sz <s word_of_nat footerSize then Inl TooSmall
      else let idxLen = get_u64 footer
           in if idxLen \<le>s 0 \<or> sz - word_of_nat footerSize <s idxLen then Inl BadIndexLength
              else Inr idxLen)"

definition decodeTrailerForm :: "forms \<Rightarrow> bytes \<Rightarrow> string \<Rightarrow> pk_error + trailer" where
  "decodeTrailerForm fm stored m =
     (if m = pk_magicT then decodeTable stored
      else case (if m = pk_magicZ then z_in fm stored else Some stored) of
             None \<Rightarrow> Inl Decompress
           | Some raw \<Rightarrow>
               (case json_in fm raw of
                  None \<Rightarrow> Inl Unmarshal
                | Some tr \<Rightarrow> (if Version tr \<noteq> 1 then Inl (BadVersion (Version tr)) else Inr tr)))"

definition decodeTrailer :: "forms \<Rightarrow> bytes \<Rightarrow> string \<Rightarrow> pk_error + trailer" where
  "decodeTrailer fm stored m =
     (case decodeTrailerForm fm stored m of
        Inl e \<Rightarrow> Inl e
      | Inr tr \<Rightarrow>
          (case find bad_extent (Entries tr) of
             Some e \<Rightarrow> Inl (BadExtent (Key e))
           | None \<Rightarrow> Inr tr))"

definition ParseStoredTrailer :: "forms \<Rightarrow> bytes \<Rightarrow> pk_error + pack_entry list" where
  "ParseStoredTrailer fm stored =
     (let m = (if isTable stored then pk_magicT
               else if 4 \<le> length stored \<and> u32_at stored 0 = 0xFD2FB528 then pk_magicZ
               else pk_magic)
      in case decodeTrailer fm stored m of Inl e \<Rightarrow> Inl e | Inr tr \<Rightarrow> Inr (Entries tr))"

section \<open>Reading a pack's tail\<close>

text \<open>
  \<open>io.ReaderAt\<close> over a local pack, and a range request to the object store: \<open>obj off len\<close> is
  what \<open>Get\<close> answers, an error or the body with the errors its read and its close end in.
\<close>

definition read_at :: "bytes \<Rightarrow> nat \<Rightarrow> nat \<Rightarrow> bytes option" where
  "read_at b off n = (if off + n \<le> length b then Some (ext b off n) else None)"

type_synonym object = "nat \<Rightarrow> nat \<Rightarrow> pk_error + (bytes \<times> pk_error option \<times> pk_error option)"

definition readRangeOnce :: "object \<Rightarrow> nat \<Rightarrow> nat \<Rightarrow> pk_error + bytes" where
  "readRangeOnce obj off len =
     (case obj off len of
        Inl e \<Rightarrow> Inl e
      | Inr (body, rerr, cerr) \<Rightarrow>
          (case (if length body < len then rerr else None) of
             Some e \<Rightarrow> Inl e
           | None \<Rightarrow>
               (case cerr of
                  Some e \<Rightarrow> Inl e
                | None \<Rightarrow> (if length (take len body) \<noteq> len then Inl (Transport ''short read'')
                           else Inr (take len body)))))"

definition nat64 :: "int64 \<Rightarrow> nat" where
  "nat64 w = nat (sint w)"

definition StoredTrailerFrom :: "bytes \<Rightarrow> int64 \<Rightarrow> pk_error + bytes" where
  "StoredTrailerFrom r sz =
     (if sz <s word_of_nat footerSize then Inl TooSmall
      else case read_at r (nat64 sz - footerSize) footerSize of
             None \<Rightarrow> Inl (Transport ''EOF'')
           | Some footer \<Rightarrow>
               (if \<not> knownTrailerMagic (bytes_str (drop 8 footer)) then Inl BadMagic
                else case idxLenFromFooter footer sz of
                       Inl e \<Rightarrow> Inl e
                     | Inr idxLen \<Rightarrow>
                         (case read_at r (nat64 sz - footerSize - nat64 idxLen) (nat64 idxLen) of
                            None \<Rightarrow> Inl (Transport ''EOF'')
                          | Some stored \<Rightarrow> Inr stored)))"

definition parseTail :: "forms \<Rightarrow> (nat \<Rightarrow> nat \<Rightarrow> pk_error + bytes) \<Rightarrow> int64 \<Rightarrow> bytes \<Rightarrow>
    pk_error + trailer \<times> bytes \<times> int64" where
  "parseTail fm readRange sz buf =
     (if length buf < footerSize then Inl BadMagic
      else let m = bytes_str (drop (length buf - 8) buf)
           in if \<not> knownTrailerMagic m then Inl BadMagic
              else case idxLenFromFooter (drop (length buf - footerSize) buf) sz of
                     Inl e \<Rightarrow> Inl e
                   | Inr idxLen \<Rightarrow>
                       (let n = nat64 idxLen
                        in case (if n + footerSize \<le> length buf
                                 then Inr (ext buf (length buf - footerSize - n) n)
                                 else readRange (nat64 sz - footerSize - n) n) of
                             Inl e \<Rightarrow> Inl e
                           | Inr stored \<Rightarrow>
                               (case decodeTrailer fm stored m of
                                  Inl e \<Rightarrow> Inl e
                                | Inr tr \<Rightarrow> Inr (tr, stored, idxLen))))"

text \<open>
  The tail probe, and the whole object once more when its bytes do not parse: the answer of
  the first reading stands unless the second one is sound.
\<close>

definition fetchTrailerStored :: "forms \<Rightarrow> (nat \<Rightarrow> nat \<Rightarrow> pk_error + bytes) \<Rightarrow> int64 \<Rightarrow>
    pk_error + trailer \<times> bytes \<times> int64" where
  "fetchTrailerStored fm readRange sz =
     (if sz <s word_of_nat footerSize then Inl TooSmall
      else let probe = min tailProbe (nat64 sz)
           in case readRange (nat64 sz - probe) probe of
                Inl e \<Rightarrow> Inl e
              | Inr tail \<Rightarrow>
                  (case parseTail fm readRange sz tail of
                     Inr r \<Rightarrow> Inr r
                   | Inl terr \<Rightarrow>
                       (case readRange 0 (nat64 sz) of
                          Inl werr \<Rightarrow> Inl terr
                        | Inr whole \<Rightarrow>
                            (if length whole \<noteq> nat64 sz then Inl terr
                             else case parseTail fm readRange sz whole of
                                    Inr r \<Rightarrow> Inr r
                                  | Inl ferr \<Rightarrow> Inl terr))))"

text \<open>A size that is not known comes from \<open>StatKey\<close>, \<open>stat\<close> here; the hash is BLAKE3, a parameter.\<close>

definition FetchTrailerStoredVerified :: "forms \<Rightarrow> (bytes \<Rightarrow> bytes) \<Rightarrow> (nat \<Rightarrow> nat \<Rightarrow> pk_error + bytes) \<Rightarrow>
    pk_error + int64 \<Rightarrow> int64 \<Rightarrow> bytes \<Rightarrow> pk_error + pack_entry list \<times> bytes" where
  "FetchTrailerStoredVerified fm sum256 readRange stat sz wantHash =
     (case (if sz \<le>s 0 then stat else Inr sz) of
        Inl e \<Rightarrow> Inl e
      | Inr sz' \<Rightarrow>
          (case fetchTrailerStored fm readRange sz' of
             Inl e \<Rightarrow> Inl e
           | Inr (tr, stored, idxLen) \<Rightarrow>
               (if sum256 stored \<noteq> wantHash then Inl HashMismatch else Inr (Entries tr, stored))))"

definition FetchTrailerVerified :: "forms \<Rightarrow> (bytes \<Rightarrow> bytes) \<Rightarrow> (nat \<Rightarrow> nat \<Rightarrow> pk_error + bytes) \<Rightarrow>
    pk_error + int64 \<Rightarrow> int64 \<Rightarrow> bytes \<Rightarrow> pk_error + pack_entry list" where
  "FetchTrailerVerified fm sum256 readRange stat sz wantHash =
     (case FetchTrailerStoredVerified fm sum256 readRange stat sz wantHash of
        Inl e \<Rightarrow> Inl e | Inr (es, stored) \<Rightarrow> Inr es)"

definition FetchTrailer :: "forms \<Rightarrow> (nat \<Rightarrow> nat \<Rightarrow> pk_error + bytes) \<Rightarrow> pk_error + int64 \<Rightarrow> int64 \<Rightarrow>
    pk_error + pack_entry list" where
  "FetchTrailer fm readRange stat sz =
     (case (if sz \<le>s 0 then stat else Inr sz) of
        Inl e \<Rightarrow> Inl e
      | Inr sz' \<Rightarrow>
          (case fetchTrailerStored fm readRange sz' of
             Inl e \<Rightarrow> Inl e
           | Inr (tr, stored, idxLen) \<Rightarrow> Inr (Entries tr)))"

section \<open>Facts on the table form\<close>

lemma length_table_row [simp]: "length (table_row e) = 17"
  by (simp add: table_row_def)

lemma pk_magics [simp]: "length tableMagic = 8" "length pk_magic = 8" "length pk_magicZ = 8" "length pk_magicT = 8"
  "pk_magic \<noteq> pk_magicT" "pk_magicZ \<noteq> pk_magicT" "pk_magic \<noteq> pk_magicZ"
  by (simp_all add: tableMagic_def pk_magic_def pk_magicZ_def pk_magicT_def)

text \<open>An entry as the table keeps it: the key in lower case, an unknown type as data.\<close>

definition norm_entry :: "pack_entry \<Rightarrow> pack_entry" where
  "norm_entry e = e\<lparr>Key := map lower (Key e), Type := entryTypeName (entryTypeCode (Type e))\<rparr>"

lemma entry_of_row: "hex_decode (Key e) = Some ident \<Longrightarrow> entry_of ident (table_row e) = norm_entry e"
  using hex_encode_decode [of "Key e" ident]
  by (simp add: entry_of_def norm_entry_def table_row_def nth_append)

lemma bad_extent_norm [simp]: "bad_extent (norm_entry e) = bad_extent e"
  by (simp add: bad_extent_def norm_entry_def)

definition entry_kv :: "pack_entry \<Rightarrow> bytes \<times> bytes" where
  "entry_kv e = (the (hex_decode (Key e)), table_row e)"

text \<open>The entries the table form can state; any other trailer falls back to JSON.\<close>

definition entry_fits :: "pack_entry \<Rightarrow> bool" where
  "entry_fits e \<longleftrightarrow> (\<exists>ident. hex_decode (Key e) = Some ident \<and> length ident = 32) \<and>
     0 \<le>s Off e \<and> 0 \<le>s Length e"

lemma word_sless_not: "(\<not> a <s b) \<longleftrightarrow> b \<le>s (a :: 'a::len word)"
  by (simp add: word_sless_alt word_sle_eq not_less)

lemma add_entries_fit: "list_all entry_fits es \<Longrightarrow>
    add_entries b es = (case add_all b (map entry_kv es) of Inl x \<Rightarrow> Inl (Table x) | Inr b' \<Rightarrow> Inr b')"
proof (induction es arbitrary: b)
  case (Cons e es)
  then obtain ident where i: "hex_decode (Key e) = Some ident" "length ident = 32"
    and n: "\<not> Off e <s 0" "\<not> Length e <s 0"
    by (auto simp: entry_fits_def word_sless_not)
  show ?case
  proof (cases "Add b ident (table_row e)")
    case (Inl x)
    with i n show ?thesis by (simp add: entry_kv_def KeySize_def)
  next
    case (Inr b')
    with i n Cons show ?thesis by (simp add: entry_kv_def KeySize_def)
  qed
qed simp

lemma add_entries_unfit: "\<not> list_all entry_fits es \<Longrightarrow> \<exists>x. add_entries b es = Inl x"
proof (induction es arbitrary: b)
  case (Cons e es)
  show ?case
  proof (cases "entry_fits e")
    case True
    with Cons show ?thesis by (auto split: option.split sum.split)
  next
    case False
    then show ?thesis
      by (auto simp: entry_fits_def KeySize_def word_sless_not split: option.split)
  qed
qed simp

definition dead_ok :: "string list \<Rightarrow> bool" where
  "dead_ok ds \<longleftrightarrow> list_all (\<lambda>d. length d < 65536) ds \<and> length (dead_names ds) < 2 ^ 32"

lemma read_dead_names: "list_all (\<lambda>d. length d < 65536) ds \<Longrightarrow> read_dead (dead_names ds) = Inr ds"
proof (induction ds)
  case (Cons d ds)
  then have "u16_at (dead_names (d # ds)) 0 = length d"
    by (simp add: dead_names_def u16_at_def)
  with Cons show ?case
    by (subst read_dead.simps) (auto simp: dead_names_def Let_def)
qed (simp add: dead_names_def read_dead.simps)

lemma length_dead_names: "2 * length ds \<le> length (dead_names ds)"
  by (induction ds) (auto simp: dead_names_def)

definition trailer_ok :: "trailer \<Rightarrow> bool" where
  "trailer_ok tr \<longleftrightarrow> list_all entry_fits (Entries tr) \<and> dead_ok (Dead tr) \<and> length (Entries tr) < 2 ^ 32"

lemma entry_kvs_ok: "list_all entry_fits es \<Longrightarrow> kvs_ok 32 17 (map entry_kv es)"
  by (induction es) (auto simp: kvs_ok_def entry_kv_def entry_fits_def)

lemma trailer_table_okay: "trailer_ok tr \<Longrightarrow> table_okay 32 17 (map entry_kv (Entries tr))"
  by (simp add: trailer_ok_def table_okay_def entry_kvs_ok)

lemma encodeTable_ok:
  assumes "trailer_ok tr"
  obtains b where "build_table 32 17 0 (map entry_kv (Entries tr)) = Inr b"
    "encodeTable tr = Inr (str_bytes tableMagic @ put_u64 (Created tr) @ le_bytes 4 (length (dead_names (Dead tr))) @
       le_bytes 4 (length (Dead tr)) @ dead_names (Dead tr) @ b)"
proof -
  have "kvs_ok 32 17 (map entry_kv (Entries tr))"
    using trailer_table_okay [OF assms] by (simp add: table_okay_def)
  then obtain bl where "add_all (NewBuilder 32 17 0) (map entry_kv (Entries tr)) = Inr bl"
    using add_all_ok [of "NewBuilder 32 17 0"] by (simp add: NewBuilder_def)
  then show thesis
    using that assms add_entries_fit [of "Entries tr" "NewBuilder 32 17 0"]
    by (simp add: encodeTable_def build_table_def trailer_ok_def KeySize_def tableRecord_def)
qed

lemma openTable_encoded:
  assumes "trailer_ok tr" "encodeTable tr = Inr stored"
  obtains t where "trailer_tbl.serves t (map entry_kv (Entries tr))" "sorted_table t"
    "openTable stored = Inr (t, \<lparr>Version = 1, Created = Created tr, Entries = [], Dead = Dead tr\<rparr>)"
proof -
  let ?d = "dead_names (Dead tr)" and ?kvs = "map entry_kv (Entries tr)"
  obtain b where b: "build_table 32 17 0 ?kvs = Inr b"
    "stored = str_bytes tableMagic @ put_u64 (Created tr) @ le_bytes 4 (length ?d) @
       le_bytes 4 (length (Dead tr)) @ ?d @ b"
    using encodeTable_ok [OF assms(1)] assms(2) by (metis sum.inject(2))
  note okay = trailer_table_okay [OF assms(1)]
  obtain t where t: "trailer_tbl.serves t ?kvs" "Open b = Inr t"
    using trailer_tbl.serves_exists [OF okay] b(1) by (auto simp: trailer_tbl.serves_def)
  have s: "sorted_table t \<and> KeyLen (t_h t) = 32 \<and> RecordLen (t_h t) = 17"
    by (rule served_sorted(1) [OF _ _ _ okay b(1) t(2)]) simp_all
  have dd: "list_all (\<lambda>d. length d < 65536) (Dead tr)" "length ?d < 4294967296"
    "length (Dead tr) < 4294967296"
    using assms(1) length_dead_names [of "Dead tr"] by (auto simp: trailer_ok_def dead_ok_def)
  have f: "isTable stored" "u32_at stored 16 = length ?d" "u32_at stored 20 = length (Dead tr)"
    "ext stored 24 (length ?d) = ?d" "drop (24 + length ?d) stored = b" "get_u64 (drop 8 stored) = Created tr"
    "length stored = 24 + length ?d + length b"
    using dd by (simp_all add: b(2) isTable_def u32_at_def)
  show thesis
    using that t(1) s
    unfolding openTable_def tableHeader_def f(2-6) Let_def read_dead_names [OF dd(1)] t(2)
    by (simp add: f(1,7) t(2) KeySize_def tableRecord_def read_dead_names [OF dd(1)])
qed

section \<open>Facts on the footer and the tail\<close>

lemma sint_16: "sint (word_of_nat footerSize :: int64) = 16"
  by (simp add: footerSize_def)

lemma sint64_range: "- (2 ^ 63) \<le> sint (w :: int64)" "sint (w :: int64) < 2 ^ 63"
  using sint_ge [of w] sint_lt [of w] by simp_all

lemma sint64_sub: "0 \<le> sint a \<Longrightarrow> 0 \<le> sint b \<Longrightarrow> sint (a - b :: int64) = sint a - sint b"
  using sint64_range [of a] sint64_range [of b]
  by (subst signed_take_bit_int_eq_self [symmetric, of 63 "sint a - sint b"])
     (simp_all add: sint_word_ariths)

text \<open>The word arithmetic of the footer check, read as integers: nothing wraps.\<close>

lemma idxLenFromFooter_iff: "idxLenFromFooter footer sz = Inr idxLen \<longleftrightarrow>
    16 \<le> sint sz \<and> idxLen = get_u64 footer \<and> 0 < sint idxLen \<and> sint idxLen + 16 \<le> sint sz"
proof (cases "16 \<le> sint sz")
  case True
  then have "sint (sz - word_of_nat footerSize) = sint sz - 16"
    using sint64_sub [of sz "word_of_nat footerSize"] sint_16 by simp
  with True show ?thesis
    by (auto simp: idxLenFromFooter_def word_sless_alt word_sle_eq sint_16 Let_def)
qed (auto simp: idxLenFromFooter_def word_sless_alt sint_16)

text \<open>An extent that passes the gate does not wrap.\<close>

lemma gated_extent:
  assumes "\<not> bad_extent e"
  shows "0 \<le> sint (Off e)" "0 \<le> sint (Length e)" "sint (Off e + Length e) = sint (Off e) + sint (Length e)"
proof -
  have nn: "0 \<le> sint (Off e)" "0 \<le> sint (Length e)" "0 \<le> sint (Off e + Length e)"
    using assms by (simp_all add: bad_extent_def word_sless_alt not_less)
  have "sint (Off e + Length e - Off e) = sint (Off e + Length e) - sint (Off e)"
    using nn by (intro sint64_sub)
  with nn show "0 \<le> sint (Off e)" "0 \<le> sint (Length e)"
    "sint (Off e + Length e) = sint (Off e) + sint (Length e)" by simp_all
qed

lemma decodeTrailer_gated: "decodeTrailer fm stored m = Inr tr \<Longrightarrow> e \<in> set (Entries tr) \<Longrightarrow> \<not> bad_extent e"
  by (auto simp: decodeTrailer_def find_None_iff split: sum.splits option.splits)

text \<open>What a pack says, read straight off its bytes.\<close>

definition direct_trailer :: "forms \<Rightarrow> bytes \<Rightarrow> int64 \<Rightarrow> pk_error + trailer \<times> bytes \<times> int64" where
  "direct_trailer fm file sz =
     (case StoredTrailerFrom file sz of
        Inl e \<Rightarrow> Inl e
      | Inr stored \<Rightarrow>
          (case decodeTrailer fm stored (bytes_str (drop (length file - 8) file)) of
             Inl e \<Rightarrow> Inl e
           | Inr tr \<Rightarrow> Inr (tr, stored, get_u64 (drop (length file - 16) file))))"

definition honest :: "bytes \<Rightarrow> (nat \<Rightarrow> nat \<Rightarrow> pk_error + bytes) \<Rightarrow> bool" where
  "honest file readRange \<longleftrightarrow> (\<forall>off n. off + n \<le> length file \<longrightarrow> readRange off n = Inr (ext file off n))"

lemma honestD: "honest file readRange \<Longrightarrow> off + n \<le> length file \<Longrightarrow> readRange off n = Inr (ext file off n)"
  by (simp add: honest_def)

lemma parseTail_suffix:
  assumes "honest file readRange" "sint sz = int (length file)" "16 \<le> length file" "k + 16 \<le> length file"
  shows "parseTail fm readRange sz (drop k file) = direct_trailer fm file sz"
proof -
  let ?N = "length file"
  have n: "nat64 sz = ?N" using assms(2) by (simp add: nat64_def)
  have foot: "read_at file (?N - 16) 16 = Some (drop (?N - 16) file)" "8 + (?N - 16) = ?N - 8"
    using assms(3) by (simp_all add: read_at_def)
  have buf: "length (drop k file) = ?N - k" "drop (length (drop k file) - 8) (drop k file) = drop (?N - 8) file"
    "drop (length (drop k file) - 16) (drop k file) = drop (?N - 16) file"
    using assms(4) by simp_all
  have lb: "16 \<le> ?N - k" using assms(4) by linarith
  have big: "\<not> sz <s word_of_nat footerSize" "\<not> sz <s 16"
    using assms(2,3) by (simp_all add: word_sless_alt sint_16)
  show ?thesis
  proof (cases "knownTrailerMagic (bytes_str (drop (?N - 8) file))")
    case False
    with lb show ?thesis
      by (simp add: parseTail_def direct_trailer_def StoredTrailerFrom_def big n foot footerSize_def Let_def)
  next
    case m: True
    show ?thesis
    proof (cases "idxLenFromFooter (drop (?N - 16) file) sz")
      case (Inl e)
      with m lb show ?thesis
        by (simp add: parseTail_def direct_trailer_def StoredTrailerFrom_def big n foot footerSize_def Let_def)
    next
      case (Inr idxLen)
      then have i: "idxLen = get_u64 (drop (?N - 16) file)" "0 < sint idxLen" "sint idxLen + 16 \<le> int ?N"
        using assms(2) unfolding idxLenFromFooter_iff by auto
      define x where "x = nat64 idxLen"
      have x: "x + 16 \<le> ?N" using i by (simp add: x_def nat64_def)
      have st: "read_at file (?N - 16 - x) x = Some (ext file (?N - 16 - x) x)"
        using x by (simp add: read_at_def)
      have rr: "readRange (?N - 16 - x) x = Inr (ext file (?N - 16 - x) x)"
        using x by (intro honestD [OF assms(1)]) simp
      have sub: "ext (drop k file) (?N - k - 16 - x) x = ext file (?N - 16 - x) x" if "x + 16 \<le> ?N - k"
        using that by (simp add: algebra_simps)
      have buf3: "drop (length (drop k file) - footerSize) (drop k file) = drop (?N - 16) file"
        and lb3: "\<not> length (drop k file) < footerSize"
        using buf(3) lb by (simp_all add: footerSize_def)
      have got: "(if x + footerSize \<le> length (drop k file)
          then Inr (ext (drop k file) (length (drop k file) - footerSize - x) x)
          else readRange (nat64 sz - footerSize - x) x) = Inr (ext file (?N - 16 - x) x)"
        using sub rr by (simp add: footerSize_def n)
      have "parseTail fm readRange sz (drop k file) =
          (case decodeTrailer fm (ext file (?N - 16 - x) x) (bytes_str (drop (?N - 8) file)) of
             Inl e \<Rightarrow> Inl e | Inr tr \<Rightarrow> Inr (tr, ext file (?N - 16 - x) x, idxLen))"
        unfolding parseTail_def Let_def buf(2) buf3 Inr using m lb3
        by (simp only: sum.case x_def [symmetric] got simp_thms if_True if_False)
      moreover have "StoredTrailerFrom file sz = Inr (ext file (?N - 16 - x) x)"
        using m Inr st by (simp add: StoredTrailerFrom_def big n foot footerSize_def x_def)
      ultimately show ?thesis unfolding direct_trailer_def i(1) by (simp only: sum.case)
    qed
  qed
qed

section \<open>Sealed packs\<close>

text \<open>Any pack laid out as data, stored trailer, footer is read back.\<close>

lemma nat64_of_nat: "n < 2 ^ 63 \<Longrightarrow> nat64 (word_of_nat n) = n" "n < 2 ^ 63 \<Longrightarrow> sint (word_of_nat n :: int64) = int n"
proof -
  assume "n < 2 ^ 63"
  then have "int n < 2 ^ 63" by (metis of_nat_less_iff of_nat_numeral of_nat_power)
  then have "signed_take_bit 63 (int n) = int n"
    by (intro signed_take_bit_int_eq_self) auto
  then show "sint (word_of_nat n :: int64) = int n" "nat64 (word_of_nat n) = n"
    by (simp_all add: nat64_def signed_of_nat)
qed

lemma get_u64_le_bytes: "n < 2 ^ 64 \<Longrightarrow> get_u64 (le_bytes 8 n @ r) = word_of_nat n"
  by (simp add: get_u64_def)

lemma direct_trailer_sealed:
  assumes "stored \<noteq> []" "knownTrailerMagic m" "length m = 8"
    and "length pre + length stored + 16 < 2 ^ 63"
  defines "file \<equiv> pre @ stored @ le_bytes 8 (length stored) @ str_bytes m"
  shows "StoredTrailerFrom file (word_of_nat (length file)) = Inr stored"
    "direct_trailer fm file (word_of_nat (length file)) =
      (case decodeTrailer fm stored m of Inl e \<Rightarrow> Inl e | Inr tr \<Rightarrow> Inr (tr, stored, word_of_nat (length stored)))"
proof -
  let ?n = "length stored" and ?foot = "le_bytes 8 (length stored) @ str_bytes m"
  have len: "length file = length pre + ?n + 16" using assms(3) by (simp add: file_def)
  have w: "nat64 (word_of_nat (length file)) = length file" "sint (word_of_nat (length file) :: int64) = int (length file)"
    "nat64 (word_of_nat ?n) = ?n" "sint (word_of_nat ?n :: int64) = int ?n"
    using nat64_of_nat [of "length file"] nat64_of_nat [of ?n] assms(4) len by simp_all
  have big: "\<not> word_of_nat (length file) <s (word_of_nat footerSize :: int64)"
    unfolding word_sless_alt sint_16 w(2) using len by simp
  have foot: "read_at file (length file - footerSize) footerSize = Some ?foot" "drop (length file - 16) file = ?foot"
    "bytes_str (drop 8 ?foot) = m" "drop (length file - 8) file = str_bytes m"
    using assms(3) by (simp_all add: read_at_def file_def footerSize_def)
  have g: "get_u64 ?foot = word_of_nat ?n" using assms(4) by (intro get_u64_le_bytes) simp
  have i: "idxLenFromFooter ?foot (word_of_nat (length file)) = Inr (word_of_nat ?n)"
    unfolding idxLenFromFooter_iff g w using len assms(1) by simp
  have r: "read_at file (length file - footerSize - ?n) ?n = Some stored"
    using assms(3) by (simp add: read_at_def file_def footerSize_def)
  show st: "StoredTrailerFrom file (word_of_nat (length file)) = Inr stored"
    unfolding StoredTrailerFrom_def w foot(1) using big assms(2) by (simp only: option.case foot(3) i sum.case w r simp_thms if_False)
  show "direct_trailer fm file (word_of_nat (length file)) =
      (case decodeTrailer fm stored m of Inl e \<Rightarrow> Inl e | Inr tr \<Rightarrow> Inr (tr, stored, word_of_nat (length stored)))"
    unfolding direct_trailer_def st foot g by simp
qed

text \<open>A trailer the table form can state is parsed back whole, its entries normalised.\<close>

lemma decode_encoded:
  assumes "trailer_ok tr" "encodeTable tr = Inr stored" "\<forall>e \<in> set (Entries tr). \<not> bad_extent e"
  obtains tbl tr0 tr' where "openTable stored = Inr (tbl, tr0)" "sorted_table tbl"
    "decodeTrailer fm stored pk_magicT = Inr tr'" "set (Entries tr') \<subseteq> norm_entry ` set (Entries tr)"
proof -
  obtain t tr0 where t: "trailer_tbl.serves t (map entry_kv (Entries tr))" "sorted_table t" "openTable stored = Inr (t, tr0)"
    using openTable_encoded [OF assms(1,2)] by metis
  have one: "entry_of k v \<in> norm_entry ` set (Entries tr)" if "(k, v) \<in> set (entries t)" for k v
  proof -
    have "map_of (entries t) k = Some v"
      using that t(2) by (intro map_of_is_SomeI strict_keys_distinct) (simp_all add: sorted_table_def)
    then have "Lookup t k = Some v" using Lookup_sorted [OF t(2)] by simp
    then have "(k, v) \<in> set (map entry_kv (Entries tr))"
      using trailer_tbl.find_sound [OF t(1)] by simp
    then obtain e where e: "e \<in> set (Entries tr)" "(k, v) = entry_kv e" by auto
    then have "hex_decode (Key e) = Some k"
      using assms(1) by (auto simp: trailer_ok_def list_all_iff entry_fits_def entry_kv_def)
    with e show ?thesis using entry_of_row [of e k] by (auto simp: entry_kv_def)
  qed
  define es where "es = map (\<lambda>(k, v). entry_of k v) (entries t)"
  have sub: "set es \<subseteq> norm_entry ` set (Entries tr)" using one by (auto simp: es_def)
  then have "find bad_extent es = None" using assms(3) by (force simp: find_None_iff)
  moreover have "decodeTable stored = Inr (tr0\<lparr>Entries := es\<rparr>)"
    by (simp add: decodeTable_def t(3) es_def entries_def case_prod_beta)
  ultimately have "decodeTrailer fm stored pk_magicT = Inr (tr0\<lparr>Entries := es\<rparr>)"
    by (simp add: decodeTrailer_def decodeTrailerForm_def)
  with that t sub show thesis by fastforce
qed

text \<open>What \<open>LookupStored\<close> answers from an encoded table.\<close>

lemma table_lookup:
  assumes "trailer_ok tr"
  shows "\<exists>stored. encodeTable tr = Inr stored \<and> (\<forall>ident. LookupStored stored ident =
    (case find (\<lambda>e. hex_decode (Key e) = Some ident) (rev (Entries tr)) of
       None \<Rightarrow> None
     | Some e \<Rightarrow> if bad_extent e then None else Some (norm_entry e)))"
proof -
  obtain stored where st: "encodeTable tr = Inr stored"
    using encodeTable_ok [OF assms] by metis
  obtain t tr0 where t: "trailer_tbl.serves t (map entry_kv (Entries tr))" "openTable stored = Inr (t, tr0)"
    using openTable_encoded [OF assms st] by metis
  have "map_of (map entry_kv es) ident =
      map_option table_row (find (\<lambda>e. hex_decode (Key e) = Some ident) es)"
    if "list_all entry_fits es" for es ident
    using that by (induction es) (auto simp: entry_kv_def entry_fits_def)
  moreover have "list_all entry_fits (rev (Entries tr))"
    using assms by (simp add: trailer_ok_def list_all_iff)
  ultimately have look: "Lookup t ident =
      map_option table_row (find (\<lambda>e. hex_decode (Key e) = Some ident) (rev (Entries tr)))" for ident
    by (simp add: trailer_tbl.serves_find [OF t(1)] rev_map)
  have "entry_of ident (table_row e) = norm_entry e"
    if "find (\<lambda>e. hex_decode (Key e) = Some ident) (rev (Entries tr)) = Some e" for ident e
    using that by (intro entry_of_row) (auto simp: find_Some_iff)
  then have "\<forall>ident. LookupStored stored ident =
    (case find (\<lambda>e. hex_decode (Key e) = Some ident) (rev (Entries tr)) of
       None \<Rightarrow> None
     | Some e \<Rightarrow> if bad_extent e then None else Some (norm_entry e))"
    by (auto simp: LookupStored_def t(2) look split: option.split)
  with st show ?thesis by blast
qed

text \<open>Parsing the whole trailer finds what \<open>LookupStored\<close> answers.\<close>

lemma parse_lookup:
  assumes "openTable stored = Inr (tbl, tr0)" "sorted_table tbl"
    and "decodeTrailer fm stored pk_magicT = Inr tr"
  shows "LookupStored stored ident = find (\<lambda>e. Key e = hex_encode ident) (Entries tr)"
proof -
  have e: "Entries tr = map (\<lambda>(k, v). entry_of k v) (entries tbl)" "find bad_extent (Entries tr) = None"
    using assms(1,3)
    by (auto simp: decodeTrailer_def decodeTrailerForm_def decodeTable_def entries_def case_prod_beta
        split: option.splits)
  have "find (\<lambda>e. Key e = hex_encode ident) (map (\<lambda>(k, v). entry_of k v) kvs) =
      map_option (entry_of ident) (map_of kvs ident)" for kvs
    by (induction kvs) (auto simp: entry_of_def)
  then have f: "find (\<lambda>e. Key e = hex_encode ident) (Entries tr) = map_option (entry_of ident) (map_of (entries tbl) ident)"
    by (simp add: e(1))
  show ?thesis
  proof (cases "map_of (entries tbl) ident")
    case None
    with f show ?thesis by (simp add: LookupStored_def assms(1) Lookup_sorted [OF assms(2)])
  next
    case (Some v)
    then have "entry_of ident v \<in> set (Entries tr)"
      unfolding e(1) by (force dest: map_of_SomeD)
    then have "\<not> bad_extent (entry_of ident v)"
      using e(2) by (auto simp: find_None_iff)
    with Some f show ?thesis by (simp add: LookupStored_def assms(1) Lookup_sorted [OF assms(2)])
  qed
qed

text \<open>With an honest transport the probe and the direct read agree.\<close>

lemma fetch_direct:
  assumes "honest file readRange" "sint sz = int (length file)"
  shows "fetchTrailerStored fm readRange sz = direct_trailer fm file sz"
proof (cases "16 \<le> length file")
  case False
  then have "sz <s word_of_nat footerSize"
    using assms(2) by (simp add: word_sless_alt sint_16)
  then show ?thesis
    by (simp add: fetchTrailerStored_def direct_trailer_def StoredTrailerFrom_def)
next
  case True
  let ?N = "length file" and ?p = "min tailProbe (length file)"
  have n: "nat64 sz = ?N" using assms(2) by (simp add: nat64_def)
  have big: "\<not> sz <s word_of_nat footerSize"
    using assms(2) True by (simp add: word_sless_alt sint_16)
  have "readRange (?N - ?p) ?p = Inr (drop (?N - ?p) file)"
    using honestD [OF assms(1), of "?N - ?p" ?p] by simp
  moreover have "parseTail fm readRange sz (drop (?N - ?p) file) = direct_trailer fm file sz"
    using True by (intro parseTail_suffix [OF assms True]) (simp add: tailProbe_def)
  moreover have "readRange 0 ?N = Inr file" "parseTail fm readRange sz file = direct_trailer fm file sz"
    using honestD [OF assms(1), of 0 ?N] parseTail_suffix [OF assms True, of 0] True by simp_all
  ultimately show ?thesis
    by (simp add: fetchTrailerStored_def big n split: sum.split)
qed

section \<open>Properties\<close>

text \<open>
  The footer's length claim is bounded without overflow. Whatever the eight bytes and
  whatever the size, an accepted length is positive and, in unbounded integers, the stored
  trailer and the footer together fit in the object.
\<close>

theorem idxLenFromFooter_bounded:
  "idxLenFromFooter footer sz = Inr idxLen \<longleftrightarrow>
    16 \<le> sint sz \<and> idxLen = get_u64 footer \<and> 0 < sint idxLen \<and> sint idxLen + 16 \<le> sint sz"
  by (rule idxLenFromFooter_iff)

text \<open>
  No extent that leaves the decoder wraps. Every entry \<open>decodeTrailer\<close> returns, from
  stored bytes in any form, has a non-negative offset and length whose sum, as unbounded
  integers, is the 64-bit sum the readers compute.
\<close>

theorem decodeTrailer_extents_sound:
  assumes "decodeTrailer fm stored m = Inr tr" "e \<in> set (Entries tr)"
  shows "0 \<le> sint (Off e) \<and> 0 \<le> sint (Length e) \<and> sint (Off e + Length e) = sint (Off e) + sint (Length e)"
  using gated_extent [OF decodeTrailer_gated [OF assms]] by simp

text \<open>
  The two ways to look an entry up agree. For stored bytes whose table is sorted, as
  every table this code writes is, \<open>LookupStored\<close> answers any identity with the entry that
  parsing the whole trailer gives for it, when the whole trailer passes the extent gate.
\<close>

theorem LookupStored_agrees_with_parse:
  assumes "openTable stored = Inr (tbl, tr0)" "sorted_table tbl"
    and "decodeTrailer fm stored pk_magicT = Inr tr"
  shows "LookupStored stored ident = find (\<lambda>e. Key e = hex_encode ident) (Entries tr)"
  by (rule parse_lookup [OF assms])

text \<open>
  A trailer table round trips. Every trailer the table form can state is written, and
  \<open>LookupStored\<close> on the stored bytes answers each identity with the entry added last under
  it (its key in lower case, an unknown type as data), gated on its extent.
\<close>

theorem trailer_round_trip:
  assumes "trailer_ok tr"
  shows "\<exists>stored. encodeTable tr = Inr stored \<and> (\<forall>ident. LookupStored stored ident =
    (case find (\<lambda>e. hex_decode (Key e) = Some ident) (rev (Entries tr)) of
       None \<Rightarrow> None
     | Some e \<Rightarrow> if bad_extent e then None else Some (norm_entry e)))"
  by (rule table_lookup [OF assms])

text \<open>
  Probing the tail is reading the pack. When range requests return the object's bytes,
  \<open>fetchTrailerStored\<close> on ANY object, well formed or not, gives the trailer, or the error,
  that reading the footer and the stored trailer straight off the file gives.
\<close>

theorem fetchTrailer_is_direct_read:
  assumes "honest file readRange" "sint sz = int (length file)"
  shows "fetchTrailerStored fm readRange sz = direct_trailer fm file sz"
  by (rule fetch_direct [OF assms])

text \<open>
  C5: A verified trailer is the signed one. What \<open>FetchTrailerStoredVerified\<close> returns, from
  a transport that may answer anything, hashes to the value the signed pack list gives, and
  each of its entries has an extent that does not wrap.
\<close>

theorem verified_trailer_is_signed:
  assumes "FetchTrailerStoredVerified fm sum256 readRange stat sz wantHash = Inr (es, stored)"
  shows "sum256 stored = wantHash \<and> (\<exists>m tr. decodeTrailer fm stored m = Inr tr \<and> es = Entries tr) \<and>
    list_all (\<lambda>e. 0 \<le> sint (Off e) \<and> sint (Off e + Length e) = sint (Off e) + sint (Length e)) es"
proof -
  obtain sz' tr idxLen where f: "fetchTrailerStored fm readRange sz' = Inr (tr, stored, idxLen)"
    "sum256 stored = wantHash" "es = Entries tr"
    using assms by (auto simp: FetchTrailerStoredVerified_def split: sum.splits if_splits)
  have parse: "\<exists>m. decodeTrailer fm stored m = Inr tr" if "parseTail fm readRange sz' buf = Inr (tr, stored, idxLen)" for buf
    using that by (auto simp: parseTail_def Let_def split: sum.splits if_splits)
  obtain m where m: "decodeTrailer fm stored m = Inr tr"
    using f(1) parse unfolding fetchTrailerStored_def by (auto simp: Let_def split: sum.splits if_splits)
  have "list_all (\<lambda>e. 0 \<le> sint (Off e) \<and> sint (Off e + Length e) = sint (Off e) + sint (Length e)) (Entries tr)"
    using gated_extent decodeTrailer_gated [OF m] by (auto simp: list_all_iff)
  with f(2,3) m show ?thesis by blast
qed

section \<open>Witnesses\<close>

definition id7 :: bytes where "id7 = replicate 32 7"

lemma length_id7 [simp]: "length id7 = 32"
  by (simp add: id7_def)

definition no_json :: forms where
  "no_json = \<lparr>json_out = \<lambda>_. None, json_in = \<lambda>_. None, z_out = \<lambda>b. b, z_in = Some\<rparr>"

definition ex_trailer :: trailer where
  "ex_trailer = \<lparr>Version = 1, Created = 9,
     Entries = [\<lparr>Key = hex_encode id7, Off = 0, Length = 5, Type = ''sb''\<rparr>], Dead = [''p-0'']\<rparr>"

lemma ex_trailer_ok: "trailer_ok ex_trailer"
  by (simp add: trailer_ok_def ex_trailer_def entry_fits_def dead_ok_def dead_names_def word_sle_eq)

lemma ex_trailer_gated: "\<forall>e \<in> set (Entries ex_trailer). \<not> bad_extent e"
  by (simp add: ex_trailer_def bad_extent_def word_sless_alt)

theorem trailer_round_trip_witness:
  "\<exists>stored. encodeTable ex_trailer = Inr stored \<and>
     LookupStored stored id7 =
       Some \<lparr>Key = hex_encode id7, Off = 0, Length = 5, Type = ''sb''\<rparr> \<and>
     LookupStored stored (replicate 32 8) = None"
proof -
  have n: "norm_entry \<lparr>Key = hex_encode id7, Off = 0, Length = 5, Type = ''sb''\<rparr> =
      \<lparr>Key = hex_encode id7, Off = 0, Length = 5, Type = ''sb''\<rparr>"
    by (simp add: norm_entry_def entryTypeName_def entryTypeCode_def)
  obtain stored where s: "encodeTable ex_trailer = Inr stored"
    "\<And>ident. LookupStored stored ident = (case find (\<lambda>e. hex_decode (Key e) = Some ident) (rev (Entries ex_trailer)) of
       None \<Rightarrow> None | Some e \<Rightarrow> if bad_extent e then None else Some (norm_entry e))"
    using trailer_round_trip [OF ex_trailer_ok] by blast
  have "id7 \<noteq> replicate 32 8" by (simp add: id7_def)
  then show ?thesis
    using s n by (intro exI [of _ stored]) (simp add: ex_trailer_def bad_extent_def word_sless_alt)
qed

lemma ex_decoded:
  obtains stored tbl tr0 tr where "encodeTable ex_trailer = Inr stored" "openTable stored = Inr (tbl, tr0)"
    "sorted_table tbl" "decodeTrailer no_json stored pk_magicT = Inr tr"
    "LookupStored stored id7 \<noteq> None"
proof -
  have "find (\<lambda>e. hex_decode (Key e) = Some id7) (rev (Entries ex_trailer)) =
      Some (hd (Entries ex_trailer))" "\<not> bad_extent (hd (Entries ex_trailer))"
    by (simp_all add: ex_trailer_def bad_extent_def word_sless_alt)
  then have n: "(case find (\<lambda>e. hex_decode (Key e) = Some id7) (rev (Entries ex_trailer)) of
       None \<Rightarrow> None | Some e \<Rightarrow> if bad_extent e then None else Some (norm_entry e)) \<noteq> None"
    by simp
  obtain stored where st: "encodeTable ex_trailer = Inr stored"
    "\<forall>ident. LookupStored stored ident =
      (case find (\<lambda>e. hex_decode (Key e) = Some ident) (rev (Entries ex_trailer)) of
         None \<Rightarrow> None | Some e \<Rightarrow> if bad_extent e then None else Some (norm_entry e))"
    using table_lookup [OF ex_trailer_ok] by blast
  have s: "encodeTable ex_trailer = Inr stored" "LookupStored stored id7 \<noteq> None"
    using n by (simp_all only: st(1) spec [OF st(2)] not_False_eq_True)
  obtain tbl tr0 tr where d: "openTable stored = Inr (tbl, tr0)" "sorted_table tbl"
    "decodeTrailer no_json stored pk_magicT = Inr tr"
    by (rule decode_encoded [OF ex_trailer_ok s(1) ex_trailer_gated, of no_json])
  show thesis by (rule that [OF s(1) d s(2)])
qed

lemma ex_found:
  obtains stored tr e where "encodeTable ex_trailer = Inr stored" "decodeTrailer no_json stored pk_magicT = Inr tr"
    "LookupStored stored id7 = Some e" "find (\<lambda>e. Key e = hex_encode id7) (Entries tr) = Some e"
proof -
  obtain stored tbl tr0 tr where d: "encodeTable ex_trailer = Inr stored" "openTable stored = Inr (tbl, tr0)"
    "sorted_table tbl" "decodeTrailer no_json stored pk_magicT = Inr tr" "LookupStored stored id7 \<noteq> None"
    by (rule ex_decoded)
  obtain e where e: "LookupStored stored id7 = Some e" using d(5) by auto
  show thesis
    by (rule that [OF d(1,4) e]) (simp only: parse_lookup [OF d(2-4), symmetric] e)
qed

theorem LookupStored_agrees_with_parse_witness:
  "\<exists>stored tr e. encodeTable ex_trailer = Inr stored \<and> decodeTrailer no_json stored pk_magicT = Inr tr \<and>
     LookupStored stored id7 = Some e \<and> find (\<lambda>e. Key e = hex_encode id7) (Entries tr) = Some e"
proof -
  obtain stored tbl tr0 tr where d: "encodeTable ex_trailer = Inr stored" "openTable stored = Inr (tbl, tr0)"
    "sorted_table tbl" "decodeTrailer no_json stored pk_magicT = Inr tr" "LookupStored stored id7 \<noteq> None"
    by (rule ex_decoded)
  obtain e where e: "LookupStored stored id7 = Some e" using d(5) by auto
  show ?thesis
    using d(1,4) e LookupStored_agrees_with_parse [OF d(2-4), of id7, symmetric] by (intro exI conjI) simp_all
qed

theorem decodeTrailer_extents_sound_witness:
  "\<exists>stored tr e. decodeTrailer no_json stored pk_magicT = Inr tr \<and> e \<in> set (Entries tr) \<and>
     sint (Off e + Length e) = sint (Off e) + sint (Length e)"
proof -
  obtain stored tr e where d: "decodeTrailer no_json stored pk_magicT = Inr tr"
    "find (\<lambda>e. Key e = hex_encode id7) (Entries tr) = Some e"
    by (rule ex_found)
  then have "e \<in> set (Entries tr)" by (auto simp: find_Some_iff)
  with d(1) show ?thesis using decodeTrailer_extents_sound [OF d(1)] by blast
qed

lemma ex_stored:
  obtains stored tr where "encodeTable ex_trailer = Inr stored" "stored \<noteq> []" "length stored < 1000"
    "decodeTrailer no_json stored pk_magicT = Inr tr"
proof -
  obtain b where b: "build_table 32 17 0 (map entry_kv (Entries ex_trailer)) = Inr b"
    "encodeTable ex_trailer = Inr (str_bytes tableMagic @ put_u64 (Created ex_trailer) @
       le_bytes 4 (length (dead_names (Dead ex_trailer))) @ le_bytes 4 (length (Dead ex_trailer)) @
       dead_names (Dead ex_trailer) @ b)"
    using encodeTable_ok [OF ex_trailer_ok] by blast
  have "length b = 113"
    using b(1) by (auto simp: build_table_def ex_trailer_def entry_kv_def NewBuilder_def Add_def Encode_def
        sorted_kept_def encodeRecords_def sample_keys_def)
  then have l: "\<And>stored. encodeTable ex_trailer = Inr stored \<Longrightarrow> stored \<noteq> [] \<and> length stored < 1000"
    using b(2) by (auto simp: ex_trailer_def dead_names_def)
  obtain stored tr where "encodeTable ex_trailer = Inr stored" "decodeTrailer no_json stored pk_magicT = Inr tr"
    by (rule ex_decoded)
  with l [of stored] show thesis using that by blast
qed

theorem fetchTrailer_is_direct_read_witness:
  "\<exists>stored tr. encodeTable ex_trailer = Inr stored \<and>
     (let file = stored @ le_bytes 8 (length stored) @ str_bytes pk_magicT
      in fetchTrailerStored no_json (\<lambda>off n. Inr (ext file off n)) (word_of_nat (length file)) =
           Inr (tr, stored, word_of_nat (length stored)))"
proof -
  obtain stored tr where s: "encodeTable ex_trailer = Inr stored" "stored \<noteq> []" "length stored < 1000"
    "decodeTrailer no_json stored pk_magicT = Inr tr" by (rule ex_stored)
  let ?file = "stored @ le_bytes 8 (length stored) @ str_bytes pk_magicT"
  have h: "honest ?file (\<lambda>off n. Inr (ext ?file off n))" by (simp add: honest_def)
  have "sint (word_of_nat (length ?file) :: int64) = int (length ?file)"
    using s(3) by (intro nat64_of_nat) simp
  then have "fetchTrailerStored no_json (\<lambda>off n. Inr (ext ?file off n)) (word_of_nat (length ?file)) =
      direct_trailer no_json ?file (word_of_nat (length ?file))"
    by (rule fetchTrailer_is_direct_read [OF h])
  moreover have "direct_trailer no_json ?file (word_of_nat (length ?file)) = Inr (tr, stored, word_of_nat (length stored))"
    using direct_trailer_sealed(2) [of stored pk_magicT "[]" no_json] s by (simp add: knownTrailerMagic_def)
  ultimately show ?thesis using s(1) unfolding Let_def by metis
qed

theorem verified_trailer_is_signed_witness:
  "\<exists>stored es. encodeTable ex_trailer = Inr stored \<and>
     (let file = stored @ le_bytes 8 (length stored) @ str_bytes pk_magicT
      in FetchTrailerStoredVerified no_json (\<lambda>b. rev b) (\<lambda>off n. Inr (ext file off n)) (Inl TooSmall)
           (word_of_nat (length file)) (rev stored) = Inr (es, stored)) \<and>
     list_all (\<lambda>e. 0 \<le> sint (Off e) \<and> sint (Off e + Length e) = sint (Off e) + sint (Length e)) es"
proof -
  obtain stored tr where s: "encodeTable ex_trailer = Inr stored" "stored \<noteq> []" "length stored < 1000"
    "decodeTrailer no_json stored pk_magicT = Inr tr" by (rule ex_stored)
  let ?file = "stored @ le_bytes 8 (length stored) @ str_bytes pk_magicT"
  have h: "honest ?file (\<lambda>off n. Inr (ext ?file off n))" by (simp add: honest_def)
  have sz: "sint (word_of_nat (length ?file) :: int64) = int (length ?file)"
    using s(3) by (intro nat64_of_nat) simp
  then have pos: "\<not> (word_of_nat (length ?file) :: int64) \<le>s 0" unfolding word_sle_eq sz by simp
  have "direct_trailer no_json ?file (word_of_nat (length ?file)) = Inr (tr, stored, word_of_nat (length stored))"
    using direct_trailer_sealed(2) [of stored pk_magicT "[]" no_json] s by (simp add: knownTrailerMagic_def)
  then have f: "fetchTrailerStored no_json (\<lambda>off n. Inr (ext ?file off n)) (word_of_nat (length ?file)) =
      Inr (tr, stored, word_of_nat (length stored))"
    using fetch_direct [OF h sz, of no_json] by (simp only:)
  have v: "FetchTrailerStoredVerified no_json (\<lambda>b. rev b) (\<lambda>off n. Inr (ext ?file off n)) (Inl TooSmall)
      (word_of_nat (length ?file)) (rev stored) = Inr (Entries tr, stored)"
    unfolding FetchTrailerStoredVerified_def if_not_P [OF pos] sum.case f by simp
  show ?thesis
    using s(1) v verified_trailer_is_signed [OF v] unfolding Let_def by blast
qed

end
