(* ===== verification/Pack_Writer.thy ===== *)
theory Pack_Writer
  imports Pack_Store
begin

text \<open>
  Writing packs, \<open>internal/packstore/writer.go\<close>: entries are appended to a temporary file and
  recorded in a trailer, \<open>Finalize\<close> appends the stored trailer and its footer and names the
  pack, \<open>Retain\<close> and \<open>Abort\<close> decide what becomes of the file. The results of file
  operations are arguments; a failed write may have written part of its data. BLAKE3, the
  clock and the random source are parameters.
\<close>

record pack_writer =
  pw_open :: bool
  pw_onDisk :: bool
  pw_f :: bytes
  pw_size :: nat
  pw_tr :: trailer
  pw_keys :: "string set"
  pw_keep :: bool

definition NewPackWriter :: "int64 \<Rightarrow> pack_writer" where
  "NewPackWriter now =
     \<lparr>pw_open = True, pw_onDisk = True, pw_f = [], pw_size = 0,
      pw_tr = \<lparr>Version = 1, Created = now, Entries = [], Dead = []\<rparr>, pw_keys = {}, pw_keep = False\<rparr>"

text \<open>\<open>(*os.File).WriteAt\<close>: writing past the end leaves a hole of zeros.\<close>

definition write_at :: "bytes \<Rightarrow> nat \<Rightarrow> bytes \<Rightarrow> bytes" where
  "write_at f off p = take off (f @ replicate (off - length f) 0) @ p @ drop (off + length p) f"

definition Has :: "pack_writer \<Rightarrow> string \<Rightarrow> bool" where
  "Has w key \<longleftrightarrow> key \<in> pw_keys w"

text \<open>\<open>failed\<close> is the number of bytes that reached the file before the write failed.\<close>

definition pw_Add :: "nat option \<Rightarrow> pack_writer \<Rightarrow> string \<Rightarrow> string \<Rightarrow> bytes \<Rightarrow> pk_error option \<times> pack_writer" where
  "pw_Add failed w key ty content =
     (if Has w key then (Some (Duplicate key), w)
      else if \<not> pw_open w then (Some (Append key), w)
      else case failed of
             Some n \<Rightarrow> (Some (Append key), w\<lparr>pw_f := write_at (pw_f w) (pw_size w) (take n content)\<rparr>)
           | None \<Rightarrow>
               (None, w\<lparr>pw_f := write_at (pw_f w) (pw_size w) content,
                        pw_tr := (pw_tr w)\<lparr>Entries := Entries (pw_tr w) @
                          [\<lparr>Key = key, Off = word_of_nat (pw_size w), Length = word_of_nat (length content),
                            Type = ty\<rparr>]\<rparr>,
                        pw_keys := insert key (pw_keys w),
                        pw_size := pw_size w + length content\<rparr>))"

definition pw_Count :: "pack_writer \<Rightarrow> nat" where
  "pw_Count w = length (Entries (pw_tr w))"

definition Finalize :: "forms \<Rightarrow> (bytes \<Rightarrow> bytes) \<Rightarrow> string \<Rightarrow> nat option \<Rightarrow> pack_writer \<Rightarrow>
    (pk_error + sealed_pack) \<times> pack_writer" where
  "Finalize fm sum256 name failed w =
     (if Entries (pw_tr w) = [] then (Inl EmptyPack, w)
      else case encodeTrailer fm (pw_tr w) of
             Inl e \<Rightarrow> (Inl e, w)
           | Inr (idx, footer) \<Rightarrow>
               (if \<not> pw_open w then (Inl Finalizing, w)
                else case failed of
                       Some n \<Rightarrow> (Inl Finalizing, w\<lparr>pw_f := write_at (pw_f w) (pw_size w) (take n (idx @ footer))\<rparr>)
                     | None \<Rightarrow>
                         (Inr \<lparr>sp_Name = name, sp_TrailerHash = sum256 idx,
                               sp_Size = word_of_nat (pw_size w + length idx + footerSize)\<rparr>,
                          w\<lparr>pw_f := write_at (pw_f w) (pw_size w) (idx @ footer)\<rparr>)))"

definition Abort :: "pack_writer \<Rightarrow> pack_writer" where
  "Abort w =
     (if pw_open w then w\<lparr>pw_open := False, pw_onDisk := (if pw_keep w then pw_onDisk w else False)\<rparr> else w)"

definition Retain :: "bool \<Rightarrow> pack_writer \<Rightarrow> pk_error option \<times> pack_writer" where
  "Retain renamed w =
     (if \<not> pw_open w then (Some NothingToRetain, w)
      else if \<not> renamed then (Some Renaming, w)
      else (None, w\<lparr>pw_keep := True\<rparr>))"

text \<open>
  The upload \<open>Finalize\<close> returns: the whole file from its start, again on every attempt; the
  writer is closed only when an attempt succeeds. Each element of \<open>puts\<close> is the error of one
  attempt, \<open>None\<close> for success; the retry policy is in \<open>Retry_Policy\<close>.
\<close>

fun upload :: "pk_error option list \<Rightarrow> pack_writer \<Rightarrow> (pk_error + bytes) \<times> pack_writer" where
  "upload [] w = (Inl (Transport ''no attempt''), w)"
| "upload [Some e] w = (Inl e, w)"
| "upload (Some e # puts) w = upload puts w"
| "upload (None # puts) w = (Inr (pw_f w), Abort w)"

definition Seal :: "forms \<Rightarrow> (bytes \<Rightarrow> bytes) \<Rightarrow> string \<Rightarrow> nat option \<Rightarrow> pk_error option list \<Rightarrow> pack_writer \<Rightarrow>
    (pk_error + sealed_pack) \<times> pack_writer" where
  "Seal fm sum256 name failed puts w =
     (case Finalize fm sum256 name failed w of
        (Inl e, w') \<Rightarrow> (Inl e, w')
      | (Inr sp, w') \<Rightarrow>
          (case upload puts w' of
             (Inl e, w'') \<Rightarrow> (Inl e, w'')
           | (Inr body, w'') \<Rightarrow> (Inr sp, w'')))"

section \<open>Pack names\<close>

primrec hex_fixed :: "nat \<Rightarrow> nat \<Rightarrow> string" where
  "hex_fixed 0 x = []"
| "hex_fixed (Suc n) x = hex_fixed n (x div 16) @ [hex_digit (x mod 16)]"

text \<open>\<open>newPackName\<close>: the clock in nanoseconds, positive until the year 2262, and two random bytes.\<close>

definition newPackName :: "nat \<Rightarrow> bytes \<Rightarrow> string" where
  "newPackName unixNano rnd = ''p-'' @ hex_fixed 16 unixNano @ ''-'' @ hex_encode rnd"

text \<open>\<open>strconv.ParseUint\<close> in base 16 of sixteen characters, which cannot exceed 64 bits.\<close>

definition ParseUint16 :: "string \<Rightarrow> nat option" where
  "ParseUint16 s = (if s = [] then None
     else fold (\<lambda>c r. case (r, hex_value c) of (Some x, Some d) \<Rightarrow> Some (16 * x + d) | _ \<Rightarrow> None) s (Some 0))"

text \<open>The nanoseconds since the epoch that a name states, as the signed number \<open>time.Unix\<close> is given.\<close>

definition PackNameTime :: "string \<Rightarrow> int option" where
  "PackNameTime name =
     (if take 2 name \<noteq> ''p-'' \<or> length name < 18 then None
      else map_option (\<lambda>ns. sint (word_of_nat ns :: int64)) (ParseUint16 (ext name 2 16)))"

section \<open>The writer's invariant\<close>

text \<open>
  What the writer holds after the given entries were accepted: they lie one after the other
  from the start of the file, whatever failed writes have left after them.
\<close>

fun entries_at :: "nat \<Rightarrow> (string \<times> string \<times> bytes) list \<Rightarrow> pack_entry list" where
  "entries_at off [] = []"
| "entries_at off ((key, ty, d) # items) =
     \<lparr>Key = key, Off = word_of_nat off, Length = word_of_nat (length d), Type = ty\<rparr> #
     entries_at (off + length d) items"

abbreviation payload :: "(string \<times> string \<times> bytes) list \<Rightarrow> bytes" where
  "payload items \<equiv> concat (map (\<lambda>i. snd (snd i)) items)"

definition holds :: "pack_writer \<Rightarrow> (string \<times> string \<times> bytes) list \<Rightarrow> bool" where
  "holds w items \<longleftrightarrow> Entries (pw_tr w) = entries_at 0 items \<and> pw_size w = length (payload items) \<and>
     pw_size w \<le> length (pw_f w) \<and> take (pw_size w) (pw_f w) = payload items \<and>
     distinct (map fst items) \<and> pw_keys w = fst ` set items \<and> Version (pw_tr w) = 1 \<and> Dead (pw_tr w) = []"

lemma write_at_end: "off \<le> length f \<Longrightarrow> write_at f off p = take off f @ p @ drop (off + length p) f"
  by (simp add: write_at_def)

lemma entries_at_snoc: "entries_at off (items @ [(key, ty, d)]) = entries_at off items @
    [\<lparr>Key = key, Off = word_of_nat (off + length (payload items)), Length = word_of_nat (length d), Type = ty\<rparr>]"
  by (induction off items rule: entries_at.induct) (simp_all add: add.assoc del: of_nat_add)

lemma length_entries_at [simp]: "length (entries_at off items) = length items"
  by (induction off items rule: entries_at.induct) simp_all

lemma New_holds: "holds (NewPackWriter now) []"
  by (simp add: holds_def NewPackWriter_def)

text \<open>An accepted entry extends what the writer holds; a refused or failed one changes nothing.\<close>

lemma pw_Add_holds:
  assumes "holds w items" "pw_Add failed w key ty d = (r, w')"
  shows "holds w' (if r = None then items @ [(key, ty, d)] else items)"
proof -
  consider "r \<noteq> None" "w' = w"
    | n where "r \<noteq> None" "w' = w\<lparr>pw_f := write_at (pw_f w) (pw_size w) (take n d)\<rparr>"
    | "r = None" "\<not> Has w key" "w' = snd (pw_Add None w key ty d)" "pw_open w"
    using assms(2) by (auto simp: pw_Add_def split: if_splits option.splits)
  then show ?thesis
  proof cases
    case 1
    with assms(1) show ?thesis by auto
  next
    case 2
    with assms(1) show ?thesis by (auto simp: holds_def write_at_end)
  next
    case 3
    with assms(1) show ?thesis
      by (auto simp: pw_Add_def holds_def write_at_end Has_def entries_at_snoc)
  qed
qed

text \<open>A sequence of appends, and the ones the writer accepted.\<close>

fun pw_run :: "(nat option \<times> string \<times> string \<times> bytes) list \<Rightarrow> pack_writer \<Rightarrow> pack_writer" where
  "pw_run [] w = w"
| "pw_run ((failed, key, ty, d) # ops) w = pw_run ops (snd (pw_Add failed w key ty d))"

fun pw_accepted :: "(nat option \<times> string \<times> string \<times> bytes) list \<Rightarrow> pack_writer \<Rightarrow> (string \<times> string \<times> bytes) list" where
  "pw_accepted [] w = []"
| "pw_accepted ((failed, key, ty, d) # ops) w =
     (case pw_Add failed w key ty d of
        (None, w') \<Rightarrow> (key, ty, d) # pw_accepted ops w'
      | (Some e, w') \<Rightarrow> pw_accepted ops w')"

lemma pw_run_holds: "holds w items \<Longrightarrow> holds (pw_run ops w) (items @ pw_accepted ops w)"
proof (induction ops arbitrary: w items)
  case (Cons x ops)
  obtain failed key ty d where x: "x = (failed, key, ty, d)" by (cases x)
  obtain r w' where a: "pw_Add failed w key ty d = (r, w')" by (cases "pw_Add failed w key ty d")
  note h = pw_Add_holds [OF Cons.prems a]
  show ?case
  proof (cases r)
    case None
    with h Cons.IH [of w' "items @ [(key, ty, d)]"] show ?thesis by (simp add: x a)
  next
    case (Some e)
    with h Cons.IH [of w' items] show ?thesis by (simp add: x a)
  qed
qed simp

lemma pw_Add_open: "pw_open (snd (pw_Add failed w key ty d)) = pw_open w"
  by (auto simp: pw_Add_def split: if_splits option.splits)

lemma pw_run_open: "pw_open (pw_run ops w) = pw_open w"
  by (induction ops w rule: pw_run.induct) (simp_all add: pw_Add_open)

section \<open>Reading a sealed pack\<close>

lemma entries_at_extent:
  assumes "(key, ty, d) \<in> set items"
  obtains o' where "\<lparr>Key = key, Off = word_of_nat o', Length = word_of_nat (length d), Type = ty\<rparr> \<in> set (entries_at off items)"
    "off \<le> o'" "o' + length d \<le> off + length (payload items)" "ext (payload items) (o' - off) (length d) = d"
  using assms
proof (induction items arbitrary: off thesis)
  case (Cons i items)
  obtain k t c where i: "i = (k, t, c)" by (cases i)
  show ?case
  proof (cases "(key, ty, d) = i")
    case True
    show ?thesis by (rule Cons.prems(1) [of off]) (use True i in auto)
  next
    case False
    then have "(key, ty, d) \<in> set items" using Cons.prems(2) by simp
    then obtain o' where o: "\<lparr>Key = key, Off = word_of_nat o', Length = word_of_nat (length d), Type = ty\<rparr>
        \<in> set (entries_at (off + length c) items)" "off + length c \<le> o'"
      "o' + length d \<le> off + length c + length (payload items)"
      "ext (payload items) (o' - (off + length c)) (length d) = d"
      using Cons.IH by blast
    show ?thesis
    proof (rule Cons.prems(1) [of o'])
      show "\<lparr>Key = key, Off = word_of_nat o', Length = word_of_nat (length d), Type = ty\<rparr> \<in> set (entries_at off (i # items))"
        using o(1) i by simp
      show "ext (payload (i # items)) (o' - off) (length d) = d" using o(2,4) i by simp
    qed (use o i in auto)
  qed
qed simp

lemma map_Key_entries_at [simp]: "map Key (entries_at off items) = map fst items"
  by (induction off items rule: entries_at.induct) simp_all

lemma find_distinct_key:
  "distinct (map Key es) \<Longrightarrow> e \<in> set es \<Longrightarrow> (\<And>x. x \<in> set es \<Longrightarrow> P x \<longleftrightarrow> Key x = Key e) \<Longrightarrow>
    find P es = Some e"
proof (induction es)
  case (Cons x es)
  then show ?case by (cases "Key x = Key e") (auto simp: image_iff)
qed simp

definition identity_keys :: "(string \<times> string \<times> bytes) list \<Rightarrow> bool" where
  "identity_keys items \<longleftrightarrow> list_all (\<lambda>i. \<exists>ident. fst i = hex_encode ident \<and> length ident = 32) items"

lemma entries_at_fit:
  assumes "identity_keys items" "off + length (payload items) < 2 ^ 63"
  shows "list_all entry_fits (entries_at off items) \<and> (\<forall>e \<in> set (entries_at off items). \<not> bad_extent e)"
  using assms
proof (induction off items rule: entries_at.induct)
  case (2 off key ty d items)
  have s: "sint (word_of_nat off :: int64) = int off" "sint (word_of_nat (length d) :: int64) = int (length d)"
    "sint (word_of_nat (off + length d) :: int64) = int (off + length d)"
    using 2(3) by (intro nat64_of_nat; simp)+
  moreover have "word_of_nat off + word_of_nat (length d) = (word_of_nat (off + length d) :: int64)" by simp
  ultimately have "entry_fits \<lparr>Key = key, Off = word_of_nat off, Length = word_of_nat (length d), Type = ty\<rparr>"
    "\<not> bad_extent \<lparr>Key = key, Off = word_of_nat off, Length = word_of_nat (length d), Type = ty\<rparr>"
    using 2(2) by (auto simp: entry_fits_def bad_extent_def word_sle_eq word_sless_alt identity_keys_def simp del: of_nat_add)
  with 2 show ?case by (simp add: identity_keys_def)
qed simp

section \<open>Properties\<close>

lemma sealed_trailer_ok:
  assumes "holds w items" "identity_keys items" "length (payload items) < 2 ^ 63" "length items < 2 ^ 32"
  shows "trailer_ok (pw_tr w)" "\<forall>e \<in> set (Entries (pw_tr w)). \<not> bad_extent e"
  using entries_at_fit [OF assms(2), of 0] assms(1,3,4)
  by (simp_all add: trailer_ok_def holds_def dead_ok_def dead_names_def)

lemma LookupStored_sealed:
  assumes "holds w items" "identity_keys items" "length (payload items) < 2 ^ 63" "length items < 2 ^ 32"
    and "encodeTable (pw_tr w) = Inr stored" "(hex_encode ident, ty, d) \<in> set items"
  shows "\<exists>o'. LookupStored stored ident = Some \<lparr>Key = hex_encode ident, Off = word_of_nat o',
      Length = word_of_nat (length d), Type = entryTypeName (entryTypeCode ty)\<rparr> \<and>
    o' + length d \<le> length (payload items) \<and> ext (payload items) o' (length d) = d"
proof -
  note ok = sealed_trailer_ok [OF assms(1-4)]
  have es: "Entries (pw_tr w) = entries_at 0 items" "distinct (map fst items)"
    using assms(1) by (simp_all add: holds_def)
  obtain o' where o: "\<lparr>Key = hex_encode ident, Off = word_of_nat o', Length = word_of_nat (length d), Type = ty\<rparr>
      \<in> set (entries_at 0 items)" "o' + length d \<le> 0 + length (payload items)" "ext (payload items) (o' - 0) (length d) = d"
    using entries_at_extent [OF assms(6), of 0] by metis
  let ?e = "\<lparr>Key = hex_encode ident, Off = word_of_nat o', Length = word_of_nat (length d), Type = ty\<rparr> :: pack_entry"
  have key: "hex_decode (Key x) = Some ident \<longleftrightarrow> Key x = Key ?e" if "x \<in> set (rev (entries_at 0 items))" for x
  proof -
    have "Key x \<in> fst ` set items"
      using that map_Key_entries_at [of 0 items] by (metis image_eqI image_set set_rev)
    then show ?thesis
      using assms(2) by (auto simp: identity_keys_def list_all_iff)
  qed
  have "find (\<lambda>e. hex_decode (Key e) = Some ident) (rev (entries_at 0 items)) = Some ?e"
    by (rule find_distinct_key) (use es(2) o(1) key in \<open>simp_all add: rev_map [symmetric]\<close>)
  then have "LookupStored stored ident = Some (norm_entry ?e)"
    using table_lookup [OF ok(1)] assms(5) ok(2) o(1) es(1) by auto
  with o show ?thesis by (auto simp: norm_entry_def)
qed

lemma StoredTrailerFrom_longer:
  assumes "StoredTrailerFrom f sz = Inr stored"
  shows "StoredTrailerFrom (f @ rest) sz = Inr stored"
proof -
  have more: "read_at (f @ rest) off n = Some x" if "read_at f off n = Some x" for off n x
    using that by (auto simp: read_at_def split: if_splits)
  show ?thesis
    using assms more by (auto simp: StoredTrailerFrom_def split: if_splits option.splits sum.splits)
qed

text \<open>
  C1: A sealed pack gives back what was put in it. After any sequence of appends, refused and
  failed ones included, on a writer whose accepted keys are identities, fewer than 2^32 of them
  and the sealed length below 2^63, \<open>Finalize\<close> writes the accepted data, the stored trailer
  and the footer from the start of the file and announces their length; the file is longer only
  by the bytes a failed write had left beyond that point. The trailer read at the announced
  size hashes to the announced hash, and looking an accepted identity up in it gives an extent
  of the file that holds exactly its data.
\<close>

theorem sealed_pack_round_trip:
  assumes "w = pw_run ops (NewPackWriter now)" "items = pw_accepted ops (NewPackWriter now)" "items \<noteq> []"
    and "identity_keys items" "length items < 2 ^ 32"
    and "encodeTable (pw_tr w) = Inr idx" "pw_size w + length idx + 16 < 2 ^ 63"
  shows "\<exists>sp w'. Finalize fm sum256 name None w = (Inr sp, w') \<and>
    sp_Size sp = word_of_nat (pw_size w + length idx + 16) \<and>
    pw_f w' = payload items @ idx @ le_bytes 8 (length idx) @ str_bytes pk_magicT @
      drop (pw_size w + length idx + 16) (pw_f w) \<and>
    StoredTrailerFrom (pw_f w') (sp_Size sp) = Inr idx \<and> sp_TrailerHash sp = sum256 idx \<and>
    (\<forall>ident ty d. (hex_encode ident, ty, d) \<in> set items \<longrightarrow>
      (\<exists>e. LookupStored idx ident = Some e \<and> ext (pw_f w') (nat64 (Off e)) (nat64 (Length e)) = d))"
proof -
  have h: "holds w items"
    using pw_run_holds [OF New_holds, of ops now] assms(1,2) by simp
  have op: "pw_open w" using assms(1) pw_run_open by (simp add: NewPackWriter_def)
  have sz: "pw_size w = length (payload items)" "take (pw_size w) (pw_f w) = payload items"
    "pw_size w \<le> length (pw_f w)"
    using h by (auto simp: holds_def)
  let ?foot = "le_bytes 8 (length idx) @ str_bytes pk_magicT"
  define sp where "sp = \<lparr>sp_Name = name, sp_TrailerHash = sum256 idx,
    sp_Size = word_of_nat (length (payload items) + length idx + 16)\<rparr>"
  define left where "left = drop (length (payload items) + length idx + 16) (pw_f w)"
  define w' where "w' = w\<lparr>pw_f := payload items @ idx @ ?foot @ left\<rparr>"
  have ne: "Entries (pw_tr w) \<noteq> []"
    using h assms(3) by (metis holds_def length_0_conv length_entries_at)
  have fin: "Finalize fm sum256 name None w = (Inr sp, w')"
    using ne op sz
    by (simp add: Finalize_def encodeTrailer_def assms(6) write_at_end sp_def w'_def left_def footerSize_def add.assoc)
  have "8 \<le> length idx"
    using assms(6) by (auto simp: encodeTable_def split: sum.splits)
  then have "idx \<noteq> []" by auto
  then have "StoredTrailerFrom (payload items @ idx @ ?foot) (sp_Size sp) = Inr idx"
    using direct_trailer_sealed(1) [of idx pk_magicT "payload items"] assms(7) sz(1)
    by (simp add: sp_def knownTrailerMagic_def add.assoc)
  then have st: "StoredTrailerFrom (pw_f w') (sp_Size sp) = Inr idx"
    using StoredTrailerFrom_longer [of "payload items @ idx @ ?foot" _ _ left] by (simp add: w'_def)
  have "\<exists>e. LookupStored idx ident = Some e \<and> ext (pw_f w') (nat64 (Off e)) (nat64 (Length e)) = d"
    if it: "(hex_encode ident, ty, d) \<in> set items" for ident ty d
  proof -
    have "length (payload items) < 2 ^ 63" using assms(7) sz(1) by linarith
    then obtain o' where o: "LookupStored idx ident = Some \<lparr>Key = hex_encode ident, Off = word_of_nat o',
        Length = word_of_nat (length d), Type = entryTypeName (entryTypeCode ty)\<rparr>"
      "o' + length d \<le> length (payload items)" "ext (payload items) o' (length d) = d"
      using LookupStored_sealed [OF h assms(4) _ assms(5,6) it] by blast
    have "nat64 (word_of_nat o') = o'" "nat64 (word_of_nat (length d)) = length d"
      using o(2) assms(7) sz(1) by (intro nat64_of_nat; linarith)+
    moreover have "ext (payload items @ idx @ ?foot @ left) o' (length d) = d"
      using o(2,3) ext_append_left [of o' "length d" "payload items"] by (simp only:)
    ultimately show ?thesis using o(1) by (simp add: w'_def)
  qed
  then have ext: "\<forall>ident ty d. (hex_encode ident, ty, d) \<in> set items \<longrightarrow>
      (\<exists>e. LookupStored idx ident = Some e \<and> ext (pw_f w') (nat64 (Off e)) (nat64 (Length e)) = d)"
    by (intro allI impI)
  have "sp_Size sp = word_of_nat (pw_size w + length idx + 16)" "sp_TrailerHash sp = sum256 idx"
    "pw_f w' = payload items @ idx @ le_bytes 8 (length idx) @ str_bytes pk_magicT @
      drop (pw_size w + length idx + 16) (pw_f w)"
    by (simp_all add: sp_def w'_def left_def sz(1))
  with fin st ext show ?thesis by (intro exI [of _ sp] exI [of _ w'] conjI)
qed

section \<open>Pack names carry their time\<close>

lemma length_hex_fixed [simp]: "length (hex_fixed n x) = n"
  by (induction n arbitrary: x) auto

lemma fold_hex_fixed: "x < 16 ^ n \<Longrightarrow>
    fold (\<lambda>c r. case (r, hex_value c) of (Some x, Some d) \<Rightarrow> Some (16 * x + d) | _ \<Rightarrow> None) (hex_fixed n x) (Some 0) = Some x"
proof (induction n arbitrary: x)
  case (Suc n)
  have "x div 16 < 16 ^ n" using Suc.prems by (simp add: less_mult_imp_div_less mult.commute)
  with Suc.IH show ?case by simp
qed simp

lemma PackNameTime_newPackName:
  assumes "ns < 2 ^ 63"
  shows "PackNameTime (newPackName ns rnd) = Some (int ns)"
proof -
  have "ext (newPackName ns rnd) 2 16 = hex_fixed 16 ns" "take 2 (newPackName ns rnd) = ''p-''"
    "\<not> length (newPackName ns rnd) < 18"
    by (simp_all add: newPackName_def)
  moreover have "ParseUint16 (hex_fixed 16 ns) = Some ns"
    using fold_hex_fixed [of ns 16] assms
    by (auto simp: ParseUint16_def simp flip: length_0_conv)
  ultimately show ?thesis
    using nat64_of_nat(2) [OF assms] by (simp add: PackNameTime_def)
qed

text \<open>
  A pack's name states its age. \<open>PackNameTime\<close> reads back from a new pack's name the
  nanosecond it was named at, whatever its random suffix.
\<close>

theorem pack_name_states_time:
  assumes "ns < 2 ^ 63"
  shows "PackNameTime (newPackName ns rnd) = Some (int ns)"
  by (rule PackNameTime_newPackName [OF assms])

text \<open>Once a writer is closed nothing reopens it, and its file survives only if it was retained.\<close>

lemma Abort_closed: "pw_open w \<Longrightarrow> \<not> pw_open (Abort w) \<and> pw_onDisk (Abort w) = (pw_keep w \<and> pw_onDisk w)"
  and Abort_idem: "Abort (Abort w) = Abort w"
  by (auto simp: Abort_def)

lemma Retain_keeps: "Retain True w = (None, w') \<Longrightarrow> pw_onDisk w \<Longrightarrow> pw_onDisk (Abort w')"
  by (auto simp: Retain_def Abort_def split: if_splits)

section \<open>Witnesses\<close>

definition ex_ops :: "(nat option \<times> string \<times> string \<times> bytes) list" where
  "ex_ops = [(None, hex_encode id7, ''sb'', [1, 2, 3]), (None, hex_encode id7, [], [9]),
     (Some 0, hex_encode (rev id7), [], [8]), (None, hex_encode (0 # drop 1 id7), [], [4, 5])]"

lemma ex_keys: "hex_encode (0 # drop 1 id7) \<noteq> hex_encode id7" "hex_encode id7 \<noteq> hex_encode (0 # drop 1 id7)"
proof -
  have "hd id7 \<noteq> 0" by (simp add: id7_def)
  then have "0 # drop 1 id7 \<noteq> id7" by (metis list.sel(1))
  then show "hex_encode (0 # drop 1 id7) \<noteq> hex_encode id7" "hex_encode id7 \<noteq> hex_encode (0 # drop 1 id7)"
    unfolding hex_encode_inject by metis+
qed

lemma ex_accepted: "pw_accepted ex_ops (NewPackWriter 0) =
    [(hex_encode id7, ''sb'', [1, 2, 3]), (hex_encode (0 # drop 1 id7), [], [4, 5])]"
  "pw_f (pw_run ex_ops (NewPackWriter 0)) = [1, 2, 3, 4, 5]" "pw_size (pw_run ex_ops (NewPackWriter 0)) = 5"
  using ex_keys
  by (simp_all add: ex_ops_def NewPackWriter_def pw_Add_def Has_def write_at_def del: hex_encode.simps)

theorem sealed_pack_round_trip_witness:
  "\<exists>idx sp w' e. encodeTable (pw_tr (pw_run ex_ops (NewPackWriter 0))) = Inr idx \<and>
     Finalize no_json rev ''p'' None (pw_run ex_ops (NewPackWriter 0)) = (Inr sp, w') \<and>
     StoredTrailerFrom (pw_f w') (sp_Size sp) = Inr idx \<and> LookupStored idx id7 = Some e \<and>
     ext (pw_f w') (nat64 (Off e)) (nat64 (Length e)) = [1, 2, 3]"
proof -
  let ?w = "pw_run ex_ops (NewPackWriter 0)" and ?items = "pw_accepted ex_ops (NewPackWriter 0)"
  have h: "holds ?w ?items" using pw_run_holds [OF New_holds, of ex_ops 0] by simp
  have it: "(hex_encode id7, ''sb'', [1, 2, 3]) \<in> set ?items" by (simp add: ex_accepted)
  have ne: "?items \<noteq> []" "length ?items < 2 ^ 32" "length (payload ?items) < 2 ^ 63" by (simp_all add: ex_accepted)
  have "length (0 # drop 1 id7) = 32" by simp
  then have ik: "identity_keys ?items"
    unfolding identity_keys_def ex_accepted list.pred_inject fst_conv hex_encode_inject using length_id7 by simp
  obtain b where b: "build_table 32 17 0 (map entry_kv (Entries (pw_tr ?w))) = Inr b"
    "encodeTable (pw_tr ?w) = Inr (str_bytes tableMagic @ put_u64 (Created (pw_tr ?w)) @
       le_bytes 4 (length (dead_names (Dead (pw_tr ?w)))) @ le_bytes 4 (length (Dead (pw_tr ?w))) @
       dead_names (Dead (pw_tr ?w)) @ b)" (is "_ = Inr ?idx")
    by (rule encodeTable_ok [OF sealed_trailer_ok(1) [OF h ik ne(3,2)]])
  have ok: "kvs_ok 32 17 (map entry_kv (Entries (pw_tr ?w)))"
    using sealed_trailer_ok(1) [OF h ik ne(3,2)] by (simp add: trailer_ok_def entry_kvs_ok)
  have "length (map entry_kv (Entries (pw_tr ?w))) = 2"
    using h by (simp add: holds_def ex_accepted)
  then have "length b \<le> 32 + 2 * (2 * 32 + 17)"
    using built_length [OF _ _ _ _ _ ok b(1)] by simp
  moreover have "Dead (pw_tr ?w) = []" using h by (simp add: holds_def)
  ultimately have len: "pw_size ?w + length ?idx + 16 < 2 ^ 63"
    by (simp add: ex_accepted dead_names_def)
  have "\<exists>sp w'. Finalize no_json rev ''p'' None ?w = (Inr sp, w') \<and> sp_Size sp = word_of_nat (pw_size ?w + length ?idx + 16) \<and>
    pw_f w' = payload ?items @ ?idx @ le_bytes 8 (length ?idx) @ str_bytes pk_magicT @
      drop (pw_size ?w + length ?idx + 16) (pw_f ?w) \<and>
    StoredTrailerFrom (pw_f w') (sp_Size sp) = Inr ?idx \<and> sp_TrailerHash sp = rev ?idx \<and>
    (\<forall>ident ty d. (hex_encode ident, ty, d) \<in> set ?items \<longrightarrow>
      (\<exists>e. LookupStored ?idx ident = Some e \<and> ext (pw_f w') (nat64 (Off e)) (nat64 (Length e)) = d))"
    by (rule sealed_pack_round_trip [OF refl refl ne(1) ik ne(2) b(2) len])
  then obtain sp w' where s: "Finalize no_json rev ''p'' None ?w = (Inr sp, w')"
    "StoredTrailerFrom (pw_f w') (sp_Size sp) = Inr ?idx"
    "\<forall>ident ty d. (hex_encode ident, ty, d) \<in> set ?items \<longrightarrow>
      (\<exists>e. LookupStored ?idx ident = Some e \<and> ext (pw_f w') (nat64 (Off e)) (nat64 (Length e)) = d)"
    by (elim exE conjE)
  obtain e where e: "LookupStored ?idx id7 = Some e" "ext (pw_f w') (nat64 (Off e)) (nat64 (Length e)) = [1, 2, 3]"
    using s(3) it by (elim allE impE) auto
  show ?thesis
    by (rule exI [of _ ?idx], rule exI [of _ sp], rule exI [of _ w'], rule exI [of _ e], intro conjI)
      (rule b(2) s(1,2) e)+
qed

theorem pack_name_states_time_witness:
  "PackNameTime (newPackName 1753900000000000000 [171, 205]) = Some 1753900000000000000"
  using pack_name_states_time [of 1753900000000000000 "[171, 205]"] by simp

end
