(* ===== verification/Retry_Policy.thy ===== *)
theory Retry_Policy
  imports Pelfs_Prelude "HOL-Library.Sublist"
begin

text \<open>
  Retrying federation transfers, \<open>internal/packstore/retry.go\<close>: the attempt loop with its
  doubling, jittered backoff, the errors that are not retried, and the shared link that
  counts how many sized transfers were in flight together. Durations are nanoseconds; the
  jitter, the cancellation of the context and the outcome of each attempt are arguments.
  The report of a slow operation, computed in floating point, is not modelled.
\<close>

definition defaultRetries :: int where "defaultRetries = 8"
definition backoffBase :: nat where "backoffBase = 100000000"
definition backoffCap :: nat where "backoffCap = 10000000000"

text \<open>
  An error as \<open>retryable\<close> looks at it: whether it wraps a cancellation or a deadline,
  whether it wraps \<open>os.ErrNotExist\<close>, and its message.
\<close>

record failure =
  f_canceled :: bool
  f_notExist :: bool
  f_msg :: string

definition to_lower :: "char \<Rightarrow> char" where
  "to_lower c = (let n = of_char c :: nat in if 65 \<le> n \<and> n \<le> 90 then char_of (n + 32) else c)"

definition contains :: "string \<Rightarrow> string \<Rightarrow> bool" where
  "contains s sub \<longleftrightarrow> sublist sub s"

definition isNotExist :: "failure \<Rightarrow> bool" where
  "isNotExist e \<longleftrightarrow> f_notExist e \<or> contains (map to_lower (f_msg e)) ''404'' \<or>
     contains (map to_lower (f_msg e)) ''not found''"

definition retryable :: "bool \<Rightarrow> failure \<Rightarrow> bool" where
  "retryable ctxErr e \<longleftrightarrow>
     (if ctxErr \<or> f_canceled e then False
      else if isNotExist e then False
      else \<not> contains (f_msg e) ''404'' \<and> \<not> contains (f_msg e) ''not found'')"

datatype 'a outcome = Done 'a | GaveUp failure | Canceled nat

text \<open>
  The loop from attempt \<open>i\<close>. \<open>fn\<close> is the operation, which may change the state \<open>s\<close>;
  \<open>ctxErr i\<close> is whether the context is over after attempt \<open>i\<close>, \<open>wake i\<close> whether it ends during
  the sleep that follows; \<open>rnd i\<close> is the random number drawn. The sleeps are returned.
\<close>

function retry_loop :: "('s \<Rightarrow> (failure + 'a) \<times> 's) \<Rightarrow> (nat \<Rightarrow> bool) \<Rightarrow> (nat \<Rightarrow> bool) \<Rightarrow> (nat \<Rightarrow> nat) \<Rightarrow>
    nat \<Rightarrow> nat \<Rightarrow> nat \<Rightarrow> 's \<Rightarrow> 'a outcome \<times> 's \<times> nat list" where
  "retry_loop fn ctxErr wake rnd attempts i backoff s =
     (case fn s of
        (Inr a, s') \<Rightarrow> (Done a, s', [])
      | (Inl e, s') \<Rightarrow>
          (if \<not> retryable (ctxErr i) e then (GaveUp e, s', [])
           else if attempts \<le> i then (GaveUp e, s', [])
           else let sleep = backoff + rnd i mod (backoff div 2 + 1)
                in if wake i then (Canceled i, s', [sleep])
                   else let nxt = (if backoffCap < backoff * 2 then backoffCap else backoff * 2)
                        in case retry_loop fn ctxErr wake rnd attempts (Suc i) nxt s' of
                             (r, s'', sleeps) \<Rightarrow> (r, s'', sleep # sleeps)))"
  by pat_completeness auto
termination
  by (relation "measure (\<lambda>(fn, ctxErr, wake, rnd, attempts, i, backoff, s). attempts - i)") auto

declare retry_loop.simps [simp del]

definition retryOn :: "('s \<Rightarrow> (failure + 'a) \<times> 's) \<Rightarrow> (nat \<Rightarrow> bool) \<Rightarrow> (nat \<Rightarrow> bool) \<Rightarrow> (nat \<Rightarrow> nat) \<Rightarrow>
    int \<Rightarrow> 's \<Rightarrow> 'a outcome \<times> 's \<times> nat list" where
  "retryOn fn ctxErr wake rnd attempts s =
     retry_loop fn ctxErr wake rnd (nat (if attempts \<le> 0 then defaultRetries else attempts)) 1 backoffBase s"

section \<open>The shared link\<close>

text \<open>The sized transfers in flight, each with the most of them it has shared the link with.\<close>

type_synonym link = "(nat \<times> nat) list"

definition enter :: "link \<Rightarrow> nat \<Rightarrow> link" where
  "enter l s = (let l' = l @ [(s, 0)] in map (\<lambda>(o', p). (o', if p < length l' then length l' else p)) l')"

definition peak :: "link \<Rightarrow> nat \<Rightarrow> nat option" where
  "peak l s = map_of l s"

definition leave :: "link \<Rightarrow> nat \<Rightarrow> link" where
  "leave l s = filter (\<lambda>(o', p). o' \<noteq> s) l"

datatype link_op = Enter nat | Leave nat

fun link_run :: "link \<Rightarrow> link_op list \<Rightarrow> link" where
  "link_run l [] = l"
| "link_run l (Enter s # ops) = link_run (enter l s) ops"
| "link_run l (Leave s # ops) = link_run (leave l s) ops"

text \<open>The specification: who is in flight after some operations, and the most at once during them.\<close>

fun in_flight :: "nat list \<Rightarrow> link_op list \<Rightarrow> nat list" where
  "in_flight live [] = live"
| "in_flight live (Enter s # ops) = in_flight (live @ [s]) ops"
| "in_flight live (Leave s # ops) = in_flight (filter (\<lambda>x. x \<noteq> s) live) ops"

fun most_at_once :: "nat list \<Rightarrow> link_op list \<Rightarrow> nat" where
  "most_at_once live [] = length live"
| "most_at_once live (Enter s # ops) = max (length live) (most_at_once (live @ [s]) ops)"
| "most_at_once live (Leave s # ops) = max (length live) (most_at_once (filter (\<lambda>x. x \<noteq> s) live) ops)"

section \<open>The loop\<close>

abbreviation next_backoff :: "nat \<Rightarrow> nat" where
  "next_backoff b \<equiv> if backoffCap < b * 2 then backoffCap else b * 2"

lemma retry_done: "fn s = (Inr a, t) \<Longrightarrow> retry_loop fn ctxErr wake rnd attempts i b s = (Done a, t, [])"
  by (simp add: retry_loop.simps [of fn])

lemma retry_gives_up: "fn s = (Inl e, t) \<Longrightarrow> \<not> retryable (ctxErr i) e \<or> attempts \<le> i \<Longrightarrow>
    retry_loop fn ctxErr wake rnd attempts i b s = (GaveUp e, t, [])"
  by (auto simp: retry_loop.simps [of fn ctxErr wake rnd attempts i b s])

lemma retry_canceled: "fn s = (Inl e, t) \<Longrightarrow> retryable (ctxErr i) e \<Longrightarrow> i < attempts \<Longrightarrow> wake i \<Longrightarrow>
    retry_loop fn ctxErr wake rnd attempts i b s = (Canceled i, t, [b + rnd i mod (b div 2 + 1)])"
  by (simp add: retry_loop.simps [of fn ctxErr wake rnd attempts i b s] Let_def)

lemma retry_again:
  assumes "fn s = (Inl e, t)" "retryable (ctxErr i) e" "i < attempts" "\<not> wake i"
    and "retry_loop fn ctxErr wake rnd attempts (Suc i) (next_backoff b) t = (r, t', sleeps)"
  shows "retry_loop fn ctxErr wake rnd attempts i b s = (r, t', (b + rnd i mod (b div 2 + 1)) # sleeps)"
proof -
  have "\<not> \<not> retryable (ctxErr i) e" "\<not> attempts \<le> i" using assms(2,3) by simp_all
  then show ?thesis
    by (subst retry_loop.simps) (simp only: assms(1,4,5) prod.case sum.case if_False Let_def simp_thms)
qed

lemma retry_cases:
  fixes attempts i :: nat
  obtains a t where "fn s = (Inr a, t)"
  | e t where "fn s = (Inl e, t)" "\<not> retryable (ctxErr i) e \<or> attempts \<le> i"
  | e t where "fn s = (Inl e, t)" "retryable (ctxErr i) e" "i < attempts" "wake i"
  | e t where "fn s = (Inl e, t)" "retryable (ctxErr i) e" "i < attempts" "\<not> wake i"
proof (cases "fn s")
  case (Pair x t)
  show thesis
  proof (cases x)
    case (Inr a)
    then show thesis using that(1) Pair by blast
  next
    case (Inl e)
    then have st: "fn s = (Inl e, t)" using Pair by simp
    consider "\<not> retryable (ctxErr i) e \<or> attempts \<le> i" | "retryable (ctxErr i) e" "i < attempts" "wake i"
      | "retryable (ctxErr i) e" "i < attempts" "\<not> wake i"
      by (metis not_le)
    then show thesis using that(2-4) st by cases blast+
  qed
qed

lemma sleep_bound: "b \<le> backoffCap \<Longrightarrow> b + r mod (b div 2 + 1) \<le> backoffCap + backoffCap div 2"
proof -
  assume b: "b \<le> backoffCap"
  have "r mod (b div 2 + 1) < b div 2 + 1" by (rule mod_less_divisor) simp
  moreover have "b div 2 \<le> backoffCap div 2" using b by (rule div_le_mono)
  ultimately show ?thesis using b by linarith
qed

text \<open>The operation, called through a counter.\<close>

abbreviation counted :: "('s \<Rightarrow> (failure + 'a) \<times> 's) \<Rightarrow> 's \<times> nat \<Rightarrow> (failure + 'a) \<times> ('s \<times> nat)" where
  "counted fn \<equiv> \<lambda>(s, n). case fn s of (r, s') \<Rightarrow> (r, (s', Suc n))"

lemma retry_loop_bounded:
  assumes "i \<le> attempts" "b \<le> backoffCap"
    and "retry_loop (counted fn) ctxErr wake rnd attempts i b (s, n) = (r, (s', n'), sleeps)"
  shows "n < n' \<and> n' \<le> n + Suc (attempts - i) \<and> length sleeps \<le> n' - n \<and>
    (\<forall>d \<in> set sleeps. d \<le> backoffCap + backoffCap div 2)"
  using assms
proof (induction "attempts - i" arbitrary: i b s n r s' n' sleeps)
  case less: 0
  then have at: "attempts \<le> i" by simp
  show ?case
  proof (cases "fn s")
    case (Pair x t)
    then show ?thesis
      using less.prems(3) at retry_done [of "counted fn" "(s, n)"] retry_gives_up [of "counted fn" "(s, n)" _ _ ctxErr i]
      by (cases x) auto
  qed
next
  case (Suc k)
  show ?case
  proof (rule retry_cases [where fn = "counted fn" and s = "(s, n)" and ctxErr = ctxErr and i = i
        and attempts = attempts and wake = wake])
    fix a t assume "counted fn (s, n) = (Inr a, t)"
    with retry_done [where fn = "counted fn" and s = "(s, n)" and a = a and t = t] Suc.prems show ?thesis by (auto split: prod.splits)
  next
    fix e t assume "counted fn (s, n) = (Inl e, t)" "\<not> retryable (ctxErr i) e \<or> attempts \<le> i"
    with retry_gives_up [where fn = "counted fn" and s = "(s, n)" and e = e and t = t and ctxErr = ctxErr and i = i] Suc.prems show ?thesis by (auto split: prod.splits)
  next
    fix e t assume "counted fn (s, n) = (Inl e, t)" "retryable (ctxErr i) e" "i < attempts" "wake i"
    with retry_canceled [where fn = "counted fn" and s = "(s, n)" and e = e and t = t and ctxErr = ctxErr and i = i] Suc.prems sleep_bound [of b "rnd i"] show ?thesis by (auto split: prod.splits)
  next
    fix e t assume st: "counted fn (s, n) = (Inl e, t)" "retryable (ctxErr i) e" "i < attempts" "\<not> wake i"
    obtain t' where t: "t = (t', Suc n)" using st(1) by (auto split: prod.splits)
    obtain r2 s2 n2 sl where rec: "retry_loop (counted fn) ctxErr wake rnd attempts (Suc i) (next_backoff b) (t', Suc n) =
        (r2, (s2, n2), sl)"
      by (metis prod.collapse)
    have res: "n' = n2" "sleeps = (b + rnd i mod (b div 2 + 1)) # sl"
      using retry_again [where fn = "counted fn" and s = "(s, n)", OF st [unfolded t] rec] Suc.prems(3) by auto
    have "Suc n < n2 \<and> n2 \<le> Suc n + Suc (attempts - Suc i) \<and> length sl \<le> n2 - Suc n \<and>
        (\<forall>d \<in> set sl. d \<le> backoffCap + backoffCap div 2)"
      by (rule Suc.hyps(1) [OF _ _ _ rec]) (use Suc.hyps(2) st(3) in \<open>auto simp: backoffCap_def\<close>)
    with res Suc.prems(2) st(3) sleep_bound [of b "rnd i"] show ?thesis by auto
  qed
qed

lemma retry_until_success:
  assumes "\<forall>e \<in> set es. retryable False e" "length es + i \<le> attempts"
  shows "\<exists>sleeps. length sleeps = length es \<and>
    retry_loop (\<lambda>rs. (hd rs, tl rs)) (\<lambda>_. False) (\<lambda>_. False) rnd attempts i b (map Inl es @ Inr a # rest) =
      (Done a, rest, sleeps)"
  using assms
proof (induction es arbitrary: i b)
  case Nil
  show ?case by (simp add: retry_done)
next
  case (Cons e es)
  obtain sleeps where s: "length sleeps = length es"
    "retry_loop (\<lambda>rs. (hd rs, tl rs)) (\<lambda>_. False) (\<lambda>_. False) rnd attempts (Suc i) (next_backoff b)
      (map Inl es @ Inr a # rest) = (Done a, rest, sleeps)"
    using Cons.IH [of "Suc i" "next_backoff b"] Cons.prems by auto
  have "retry_loop (\<lambda>rs. (hd rs, tl rs)) (\<lambda>_. False) (\<lambda>_. False) rnd attempts i b (map Inl (e # es) @ Inr a # rest) =
      (Done a, rest, (b + rnd i mod (b div 2 + 1)) # sleeps)"
    by (rule retry_again [where e = e and t = "map Inl es @ Inr a # rest", OF _ _ _ _ s(2)]) (use Cons.prems in auto)
  with s(1) show ?case by auto
qed

section \<open>The link\<close>

lemma enter_names: "map fst (enter l s) = map fst l @ [s]"
  by (simp add: enter_def Let_def comp_def case_prod_beta)

lemma leave_names: "map fst (leave l s) = filter (\<lambda>x. x \<noteq> s) (map fst l)"
  by (induction l) (auto simp: leave_def)

lemma link_run_names: "map fst (link_run l ops) = in_flight (map fst l) ops"
  by (induction l ops rule: link_run.induct) (simp_all add: enter_names leave_names)

lemma peak_enter: "peak (enter l x) s =
    (case peak l s of Some p \<Rightarrow> Some (max p (Suc (length l))) | None \<Rightarrow> if x = s then Some (Suc (length l)) else None)"
  by (auto simp: enter_def peak_def Let_def map_of_map map_add_def max_def split: option.split)

lemma peak_leave_other: "x \<noteq> s \<Longrightarrow> peak (leave l x) s = peak l s"
  by (induction l) (auto simp: leave_def peak_def)

lemma most_at_once_ge: "length live \<le> most_at_once live ops"
  by (induction live ops rule: most_at_once.induct) auto

lemma peak_run: "\<lbrakk>peak l s = Some p; length l \<le> p; Leave s \<notin> set ops\<rbrakk> \<Longrightarrow>
    peak (link_run l ops) s = Some (max p (most_at_once (map fst l) ops))"
proof (induction l ops arbitrary: p rule: link_run.induct)
  case (2 l x ops)
  have "length (enter l x) = Suc (length l)" by (simp add: enter_def Let_def)
  moreover have "Suc (length l) \<le> most_at_once (map fst l @ [x]) ops"
    using most_at_once_ge [of "map fst l @ [x]" ops] by simp
  ultimately show ?case using 2 by (simp add: peak_enter enter_names)
next
  case (3 l x ops)
  have "length (leave l x) \<le> length l" by (simp add: leave_def)
  with 3 show ?case by (simp add: peak_leave_other leave_names max_def)
qed simp

section \<open>Properties\<close>

text \<open>
  Retrying is bounded. The operation is called at least once and at most the given number
  of times (the default of eight when none is given), there are fewer sleeps than calls or
  as many when the context ends a sleep, and each sleep is at most half again the cap.
\<close>

theorem retry_is_bounded:
  assumes "retryOn (counted fn) ctxErr wake rnd attempts (s, 0) = (r, (s', calls), sleeps)"
  shows "1 \<le> calls \<and> int calls \<le> (if attempts \<le> 0 then 8 else attempts) \<and> length sleeps \<le> calls \<and>
    list_all (\<lambda>d. d \<le> 15000000000) sleeps"
proof -
  define n where "n = nat (if attempts \<le> 0 then defaultRetries else attempts)"
  have n: "1 \<le> n" "int n = (if attempts \<le> 0 then 8 else attempts)"
    by (auto simp: n_def defaultRetries_def)
  have "0 < calls \<and> calls \<le> 0 + Suc (n - 1) \<and> length sleeps \<le> calls - 0 \<and>
      (\<forall>d \<in> set sleeps. d \<le> backoffCap + backoffCap div 2)"
    by (rule retry_loop_bounded [OF n(1), where b = backoffBase])
      (use assms in \<open>auto simp: retryOn_def n_def backoffBase_def backoffCap_def\<close>)
  with n show ?thesis by (auto simp: list_all_iff backoffCap_def)
qed

text \<open>
  A transfer that will succeed is not given up on, and one that cannot is not repeated:
  when the first success comes after retryable failures only, within the attempts allowed,
  it is returned and nothing is called after it; a missing object ends the loop at once.
\<close>

theorem retry_reaches_first_success:
  fixes a :: 'a
  assumes "\<forall>e \<in> set es. retryable False e" "int (length es) < (if attempts \<le> 0 then 8 else attempts)"
  shows "\<exists>sleeps. length sleeps = length es \<and>
    retryOn (\<lambda>rs. (hd rs, tl rs)) (\<lambda>_. False) (\<lambda>_. False) rnd attempts (map Inl es @ Inr a # rest) =
      (Done a, rest, sleeps) \<and>
    (\<forall>e (later :: (failure + 'a) list). isNotExist e \<longrightarrow>
      retryOn (\<lambda>rs. (hd rs, tl rs)) (\<lambda>_. False) (\<lambda>_. False) rnd attempts (Inl e # later) = (GaveUp e, later, []))"
proof -
  have "length es + 1 \<le> nat (if attempts \<le> 0 then defaultRetries else attempts)"
    using assms(2) by (auto simp: defaultRetries_def split: if_splits)
  note r = retry_until_success [OF assms(1) this, of rnd backoffBase a rest]
  have "retryOn (\<lambda>rs. (hd rs, tl rs)) (\<lambda>_. False) (\<lambda>_. False) rnd attempts (Inl e # later) =
      (GaveUp e :: 'a outcome, later, [])" if "isNotExist e" for e later
    unfolding retryOn_def by (rule retry_gives_up) (use that in \<open>auto simp: retryable_def\<close>)
  moreover obtain sleeps where "length sleeps = length es"
    "retryOn (\<lambda>rs. (hd rs, tl rs)) (\<lambda>_. False) (\<lambda>_. False) rnd attempts (map Inl es @ Inr a # rest) = (Done a, rest, sleeps)"
    using r unfolding retryOn_def by blast
  ultimately show ?thesis by (intro exI [of _ sleeps] conjI allI impI)
qed

text \<open>
  The share of the link is counted exactly. For a transfer in flight, \<open>peak\<close> is the most
  transfers that were in flight at any one moment since it entered, itself included.
\<close>

theorem peak_is_most_at_once:
  assumes "s \<notin> set (in_flight [] before)" "Leave s \<notin> set since"
  shows "peak (link_run [] (before @ Enter s # since)) s = Some (most_at_once (in_flight [] before @ [s]) since)"
proof -
  define l where "l = link_run [] before"
  have run: "link_run [] (before @ ops) = link_run l ops" for ops
    unfolding l_def
  proof -
    have "link_run k (before @ ops) = link_run (link_run k before) ops" for k
      by (induction k before rule: link_run.induct) simp_all
    then show "link_run [] (before @ ops) = link_run (link_run [] before) ops" .
  qed
  have names: "map fst l = in_flight [] before" using link_run_names [of "[]" before] by (simp add: l_def)
  then have "peak l s = None" using assms(1) unfolding peak_def map_of_eq_None_iff by (metis image_set)
  then have "peak (enter l s) s = Some (Suc (length l))" by (simp add: peak_enter)
  moreover have "length (enter l s) = Suc (length l)" by (simp add: enter_def Let_def)
  ultimately have "peak (link_run (enter l s) since) s = Some (max (Suc (length l)) (most_at_once (map fst (enter l s)) since))"
    using assms(2) by (intro peak_run) simp_all
  moreover have "Suc (length l) \<le> most_at_once (map fst (enter l s)) since"
    using most_at_once_ge [of "map fst (enter l s)" since] by (simp add: enter_names)
  ultimately show ?thesis by (simp add: run enter_names names max_def)
qed

section \<open>Witnesses\<close>

definition flaky :: failure where
  "flaky = \<lparr>f_canceled = False, f_notExist = False, f_msg = ''reset''\<rparr>"

lemma flaky_retryable: "retryable False flaky"
  by (simp add: retryable_def isNotExist_def flaky_def contains_def to_lower_def sublist_code)

theorem retry_is_bounded_witness:
  "\<exists>r s' calls sleeps. retryOn (counted (\<lambda>s. (Inl flaky, s))) (\<lambda>_. False) (\<lambda>_. False) (\<lambda>_. 7) 0 ((), 0) =
     (r :: nat outcome, (s', calls), sleeps) \<and> calls \<le> 8"
proof -
  obtain r :: "nat outcome" and s' calls sleeps where
    "retryOn (counted (\<lambda>s. (Inl flaky, s))) (\<lambda>_. False) (\<lambda>_. False) (\<lambda>_. 7) 0 ((), 0) = (r, (s', calls), sleeps)"
    by (metis prod.collapse)
  with retry_is_bounded [OF this] show ?thesis by fastforce
qed

theorem retry_reaches_first_success_witness:
  "\<exists>sleeps. length sleeps = 2 \<and> retryOn (\<lambda>rs. (hd rs, tl rs)) (\<lambda>_. False) (\<lambda>_. False) (\<lambda>_. 3) 0
     [Inl flaky, Inl flaky, Inr (5 :: nat), Inl flaky] = (Done 5, [Inl flaky], sleeps)"
  using retry_reaches_first_success [of "[flaky, flaky]" 0 "\<lambda>_. 3" "5 :: nat" "[Inl flaky]"] flaky_retryable
  by (auto simp: numeral_2_eq_2)

theorem peak_is_most_at_once_witness:
  "peak (link_run [] ([Enter 1, Enter 2, Leave 1] @ Enter 3 # [Enter 4, Leave 2, Leave 4])) 3 = Some 3"
  using peak_is_most_at_once [of 3 "[Enter 1, Enter 2, Leave 1]" "[Enter 4, Leave 2, Leave 4]"] by simp

end
