(* ===== verification/Pack_Manifest.thy ===== *)
theory Pack_Manifest
  imports Pack_Store
begin

text \<open>
  Manifest segments, \<open>internal/manifest/manifest.go\<close> and \<open>packs.go\<close>: tables of a generation's packs under
  zero-padded names, the segments of one generation searched newest first, enumerated and
  merged. A \<open>Manifest\<close> is its table. Segments are fetched by a parameter and verified
  against the signed references; \<open>FetchAll\<close>'s worker pool only changes which of several
  errors is reported, so fetching is a list operation here.
\<close>

definition pm_magic :: string where "pm_magic = ''PELFSPM1''"
definition pm_headerLen :: nat where "pm_headerLen = 16"
definition pm_keyLen :: nat where "pm_keyLen = 32"
definition pm_recordLen :: nat where "pm_recordLen = 40"

datatype pm_error = NameTooLong string | PMTable ix_error | PMFormat | PMVersion nat | PMShape nat nat
  | PMFetch string | PMHash string | PMResolved nat nat

type_synonym manifest = table

definition pad_name :: "string \<Rightarrow> bytes" where
  "pad_name name = take pm_keyLen (str_bytes name @ replicate pm_keyLen 0)"

definition pack_row :: "sealed_pack \<Rightarrow> bytes" where
  "pack_row p = take 32 (sp_TrailerHash p @ replicate 32 0) @ put_u64 (sp_Size p)"

definition pm_NewBuilder :: builder where
  "pm_NewBuilder = NewBuilder pm_keyLen pm_recordLen 0"

definition pm_Add :: "builder \<Rightarrow> sealed_pack \<Rightarrow> pm_error + builder" where
  "pm_Add b p =
     (if pm_keyLen < length (sp_Name p) then Inl (NameTooLong (sp_Name p))
      else case Add b (pad_name (sp_Name p)) (pack_row p) of Inl e \<Rightarrow> Inl (PMTable e) | Inr b' \<Rightarrow> Inr b')"

definition pm_head :: bytes where
  "pm_head = str_bytes pm_magic @ le_bytes 4 1 @ replicate 4 0"

definition pm_Encode :: "builder \<Rightarrow> bytes" where
  "pm_Encode b = pm_head @ Encode b"

definition pm_Open :: "bytes \<Rightarrow> pm_error + manifest" where
  "pm_Open b =
     (if length b < pm_headerLen \<or> take 8 b \<noteq> str_bytes pm_magic then Inl PMFormat
      else if u32_at b 8 \<noteq> 1 then Inl (PMVersion (u32_at b 8))
      else case Open (drop pm_headerLen b) of
             Inl e \<Rightarrow> Inl (PMTable e)
           | Inr t \<Rightarrow>
               (if KeyLen (t_h t) \<noteq> pm_keyLen \<or> RecordLen (t_h t) \<noteq> pm_recordLen
                then Inl (PMShape (KeyLen (t_h t)) (RecordLen (t_h t)))
                else Inr t))"

definition pm_decode :: "string \<Rightarrow> bytes \<Rightarrow> sealed_pack" where
  "pm_decode name v = \<lparr>sp_Name = name, sp_TrailerHash = take 32 v, sp_Size = get_u64 (drop 32 v)\<rparr>"

definition trimName :: "bytes \<Rightarrow> string" where
  "trimName k = bytes_str (takeWhile (\<lambda>c. c \<noteq> 0) k)"

definition pm_Lookup :: "manifest \<Rightarrow> string \<Rightarrow> sealed_pack option" where
  "pm_Lookup m name =
     (if pm_keyLen < length name then None
      else map_option (pm_decode name) (Lookup m (pad_name name)))"

definition pm_At :: "manifest \<Rightarrow> nat \<Rightarrow> sealed_pack" where
  "pm_At m i = pm_decode (trimName (fst (At m i))) (snd (At m i))"

text \<open>\<open>MergeTo\<close> over a memory spool, with the number of packs it reports; \<open>Merge\<close> keeps the bytes.\<close>

definition pm_MergeTo :: "manifest list \<Rightarrow> pm_error + bytes \<times> nat" where
  "pm_MergeTo segments =
     (case MergeKeys segments (\<lambda>_ key v sw. SAdd sw key v) (NewStreamWriter pm_keyLen pm_recordLen 0) of
        Inl e \<Rightarrow> Inl (PMTable e)
      | Inr sw \<Rightarrow>
          (case Finish sw of Inl e \<Rightarrow> Inl (PMTable e) | Inr b \<Rightarrow> Inr (pm_head @ b, w_count sw)))"

definition pm_Merge :: "manifest list \<Rightarrow> bytes" where
  "pm_Merge segments = (case pm_MergeTo segments of Inl e \<Rightarrow> [] | Inr (b, n) \<Rightarrow> b)"

fun set_Lookup :: "manifest list \<Rightarrow> string \<Rightarrow> sealed_pack option" where
  "set_Lookup [] name = None"
| "set_Lookup (m # ms) name =
     (case set_Lookup ms name of Some p \<Rightarrow> Some p | None \<Rightarrow> pm_Lookup m name)"

definition set_All :: "manifest list \<Rightarrow> sealed_pack list" where
  "set_All segments =
     (case MergeKeys segments (\<lambda>_ key v out. Inr (out @ [pm_decode (trimName key) v])) [] of
        Inl (e :: ix_error) \<Rightarrow> [] | Inr out \<Rightarrow> out)"

section \<open>The packs of a generation\<close>

record manifest_ref =
  mr_Name :: string
  mr_Hash :: bytes

text \<open>\<open>get name\<close> is the object's body, \<open>None\<close> when it cannot be fetched or read.\<close>

definition pm_Fetch :: "(string \<Rightarrow> bytes option) \<Rightarrow> (bytes \<Rightarrow> bytes) \<Rightarrow> manifest_ref \<Rightarrow> pm_error + manifest" where
  "pm_Fetch get sum256 ref =
     (case get (mr_Name ref) of
        None \<Rightarrow> Inl (PMFetch (mr_Name ref))
      | Some raw \<Rightarrow> (if sum256 raw \<noteq> mr_Hash ref then Inl (PMHash (mr_Name ref)) else pm_Open raw))"

fun pm_FetchAll :: "(string \<Rightarrow> bytes option) \<Rightarrow> (bytes \<Rightarrow> bytes) \<Rightarrow> manifest_ref list \<Rightarrow> manifest list \<times> pm_error option" where
  "pm_FetchAll get sum256 [] = ([], None)"
| "pm_FetchAll get sum256 (r # rs) =
     (case (pm_Fetch get sum256 r, pm_FetchAll get sum256 rs) of
        (Inl e, (ms, err)) \<Rightarrow> (ms, Some e)
      | (Inr m, (ms, err)) \<Rightarrow> (m # ms, err))"

definition Packs :: "(string \<Rightarrow> bytes option) \<Rightarrow> (bytes \<Rightarrow> bytes) \<Rightarrow> sealed_pack list \<Rightarrow> manifest_ref list \<Rightarrow>
    pm_error + sealed_pack list" where
  "Packs get sum256 packList manifests =
     (if manifests = [] then Inr packList
      else case pm_FetchAll get sum256 manifests of
             (segments, Some e) \<Rightarrow> Inl e
           | (segments, None) \<Rightarrow>
               (if length segments \<noteq> length manifests then Inl (PMResolved (length segments) (length manifests))
                else Inr (set_All segments)))"

section \<open>Names and keys\<close>

text \<open>The names a pack can have: at most 32 bytes, no NUL.\<close>

definition name_ok :: "string \<Rightarrow> bool" where
  "name_ok name \<longleftrightarrow> length name \<le> 32 \<and> 0 \<notin> set (str_bytes name)"

lemma length_pad_name [simp]: "length (pad_name name) = 32"
  by (simp add: pad_name_def pm_keyLen_def)

lemma length_pack_row [simp]: "length (pack_row p) = 40"
  by (simp add: pack_row_def)

lemma pad_name_ok: "name_ok name \<Longrightarrow> pad_name name = str_bytes name @ replicate (32 - length name) 0"
  by (simp add: pad_name_def pm_keyLen_def name_ok_def)

lemma trim_pad [simp]: "name_ok name \<Longrightarrow> trimName (pad_name name) = name"
proof -
  assume ok: "name_ok name"
  then have "\<And>x. x \<in> set (str_bytes name) \<Longrightarrow> x \<noteq> 0" by (auto simp: name_ok_def)
  then have "takeWhile (\<lambda>c. c \<noteq> 0) (str_bytes name @ replicate n 0) = str_bytes name" for n
    by (cases n) (auto simp: takeWhile_append2)
  then show ?thesis by (simp add: trimName_def pad_name_ok [OF ok])
qed

lemma pad_name_inj: "name_ok a \<Longrightarrow> name_ok b \<Longrightarrow> pad_name a = pad_name b \<longleftrightarrow> a = b"
  by (metis trim_pad)

text \<open>Byte order over the padding is string order over the names.\<close>

lemma list_less_zeros: "0 \<notin> set a \<Longrightarrow> 0 \<notin> set b \<Longrightarrow> length a + m = length b + n \<Longrightarrow>
    (a @ replicate m (0 :: byte) < b @ replicate n 0) = (a < b)"
proof (induction a arbitrary: b)
  case Nil
  then show ?case
  proof (cases b)
    case (Cons c b')
    with Nil have "0 < c" by (simp add: word_greater_zero_iff)
    with Nil Cons show ?thesis by (cases m) simp_all
  qed simp
next
  case (Cons c a)
  then show ?case
  proof (cases b)
    case Nil
    with Cons have "\<not> c < 0" "c \<noteq> 0" by auto
    with Nil Cons.prems show ?thesis by (cases n) simp_all
  next
    case (Cons d b')
    with Cons.IH [of b'] Cons.prems show ?thesis by auto
  qed
qed

lemma pad_name_order: "name_ok a \<Longrightarrow> name_ok b \<Longrightarrow> pad_name a < pad_name b \<longleftrightarrow> str_bytes a < str_bytes b"
  unfolding name_ok_def by (simp add: pad_name_ok name_ok_def list_less_zeros)

section \<open>Segments\<close>

text \<open>A segment as the builder and the merge write it: sorted, and every key a padded name.\<close>

definition segment_ok :: "manifest \<Rightarrow> bool" where
  "segment_ok m \<longleftrightarrow> sorted_table m \<and> KeyLen (t_h m) = 32 \<and> RecordLen (t_h m) = 40 \<and>
     (\<forall>(k, v) \<in> set (entries m). name_ok (trimName k) \<and> pad_name (trimName k) = k)"

fun pm_add_all :: "builder \<Rightarrow> sealed_pack list \<Rightarrow> pm_error + builder" where
  "pm_add_all b [] = Inr b"
| "pm_add_all b (p # ps) = (case pm_Add b p of Inl e \<Rightarrow> Inl e | Inr b' \<Rightarrow> pm_add_all b' ps)"

definition pack_ok :: "sealed_pack \<Rightarrow> bool" where
  "pack_ok p \<longleftrightarrow> name_ok (sp_Name p) \<and> length (sp_TrailerHash p) = 32"

definition pack_kv :: "sealed_pack \<Rightarrow> bytes \<times> bytes" where
  "pack_kv p = (pad_name (sp_Name p), pack_row p)"

lemma pm_add_all_ok: "list_all pack_ok ps \<Longrightarrow>
    pm_add_all b ps = (case add_all b (map pack_kv ps) of Inl e \<Rightarrow> Inl (PMTable e) | Inr b' \<Rightarrow> Inr b')"
proof (induction ps arbitrary: b)
  case (Cons p ps)
  then show ?case
    by (cases "Add b (pad_name (sp_Name p)) (pack_row p)")
      (auto simp: pm_Add_def pack_kv_def pack_ok_def name_ok_def pm_keyLen_def)
qed simp

lemma pack_kvs_ok: "kvs_ok 32 40 (map pack_kv ps)"
  by (induction ps) (auto simp: kvs_ok_def pack_kv_def)

lemma pm_decode_row: "pack_ok p \<Longrightarrow> pm_decode (sp_Name p) (pack_row p) = p"
  by (simp add: pm_decode_def pack_row_def pack_ok_def)

lemma pm_head_Open: "Open b = Inr t \<Longrightarrow> KeyLen (t_h t) = 32 \<Longrightarrow> RecordLen (t_h t) = 40 \<Longrightarrow> pm_Open (pm_head @ b) = Inr t"
  by (simp add: pm_Open_def pm_head_def pm_magic_def pm_headerLen_def u32_at_def pm_keyLen_def pm_recordLen_def)

lemma pm_Open_built:
  assumes "list_all pack_ok ps" "length ps < 2 ^ 32"
  obtains b m where "pm_add_all pm_NewBuilder ps = Inr b" "pm_Open (pm_Encode b) = Inr m" "segment_ok m"
    "Lookup m = map_of (rev (map pack_kv ps))" "Len m \<le> length ps"
proof -
  have okay: "table_okay 32 40 (map pack_kv ps)"
    using assms(2) by (simp add: table_okay_def pack_kvs_ok)
  obtain t where "manifest_tbl.serves t (map pack_kv ps)"
    using manifest_tbl.serves_exists [OF okay] by blast
  then obtain tb where t: "build_table 32 40 0 (map pack_kv ps) = Inr tb" "Open tb = Inr t"
    "Lookup t = map_of (rev (map pack_kv ps))"
    using manifest_tbl.serves_find by (auto simp: manifest_tbl.serves_def)
  note sv = served_sorted [OF _ _ _ okay t(1,2)]
  obtain bl where bl: "add_all (NewBuilder 32 40 0) (map pack_kv ps) = Inr bl" "tb = Encode bl"
    using t(1) by (auto simp: build_table_def split: sum.splits)
  have "name_ok (trimName k) \<and> pad_name (trimName k) = k" if "(k, v) \<in> set (entries t)" for k v
  proof -
    have "k \<in> dom (map_of (entries t))" 
      unfolding dom_map_of_conv_image_fst using that by (metis fst_conv image_eqI)
    then have "k \<in> fst ` set (map pack_kv ps)"
      using sv(2) by (simp add: dom_map_of_conv_image_fst)
    then show ?thesis using assms(1) by (auto simp: pack_kv_def pack_ok_def list_all_iff)
  qed
  then have "segment_ok t" using sv(1) by (auto simp: segment_ok_def)
  moreover have "pm_Open (pm_Encode bl) = Inr t"
    unfolding pm_Encode_def using sv(1) t(2) bl(2) by (intro pm_head_Open) simp_all
  moreover have "pm_add_all pm_NewBuilder ps = Inr bl"
    using pm_add_all_ok [OF assms(1), of pm_NewBuilder] bl(1) by (simp add: pm_NewBuilder_def pm_keyLen_def pm_recordLen_def)
  ultimately show thesis using that t(3) sv(3) by fastforce
qed

lemma segment_Lookup:
  assumes "segment_ok m" "name_ok name"
  shows "pm_Lookup m name = map_option (pm_decode name) (map_of (entries m) (pad_name name))"
  using assms Lookup_sorted [of m] by (simp add: pm_Lookup_def segment_ok_def name_ok_def pm_keyLen_def)

lemma set_Lookup_entries:
  assumes "\<forall>m \<in> set ms. segment_ok m" "name_ok name"
  shows "set_Lookup ms name = map_option (pm_decode name) (map_of (concat (map entries (rev ms))) (pad_name name))"
  using assms(1)
proof (induction ms)
  case (Cons m ms)
  with segment_Lookup [OF _ assms(2), of m] show ?case
    by (auto simp: map_add_def split: option.split)
qed simp

lemma set_All_visits: "set_All ms = map (\<lambda>(k, v). pm_decode (trimName k) v) (map snd (visits (start_cursors ms)))"
proof -
  have "fold_err (\<lambda>(k, v) out. Inr (out @ [pm_decode (trimName k) v])) kvs out =
      (Inr (out @ map (\<lambda>(k, v). pm_decode (trimName k) v) kvs) :: ix_error + sealed_pack list)" for kvs out
    by (induction kvs arbitrary: out) auto
  then show ?thesis by (simp add: set_All_def visits_MergeKeys)
qed

lemma map_of_entries_row: "segment_ok m \<Longrightarrow> (k, v) \<in> set (entries m) \<Longrightarrow> name_ok (trimName k) \<and> pad_name (trimName k) = k"
  by (auto simp: segment_ok_def)

section \<open>Properties\<close>

text \<open>
  A segment gives its packs back. Packs with proper names and 32-byte hashes, added in
  any order, encode to a segment that opens and finds each name's pack as it was added last,
  and no other name.
\<close>

theorem manifest_round_trip:
  assumes "list_all pack_ok ps" "length ps < 2 ^ 32"
  shows "\<exists>b m. pm_add_all pm_NewBuilder ps = Inr b \<and> pm_Open (pm_Encode b) = Inr m \<and>
    (\<forall>name. name_ok name \<longrightarrow> pm_Lookup m name = find (\<lambda>p. sp_Name p = name) (rev ps))"
proof -
  obtain b m where m: "pm_add_all pm_NewBuilder ps = Inr b" "pm_Open (pm_Encode b) = Inr m"
    "Lookup m = map_of (rev (map pack_kv ps))"
    using pm_Open_built [OF assms] by metis
  have "map_option (pm_decode name) (map_of (map pack_kv qs) (pad_name name)) = find (\<lambda>p. sp_Name p = name) qs"
    if "list_all pack_ok qs" "name_ok name" for qs name
    using that
  proof (induction qs)
    case (Cons q qs)
    then have "pack_ok q" by simp
    with Cons pad_name_inj [of name "sp_Name q"] pm_decode_row [of q] show ?case
      by (auto simp: pack_kv_def pack_ok_def)
  qed simp
  moreover have "list_all pack_ok (rev ps)" using assms(1) by (simp add: list_all_iff)
  ultimately have "pm_Lookup m name = find (\<lambda>p. sp_Name p = name) (rev ps)" if "name_ok name" for name
    using that by (simp add: pm_Lookup_def m(3) rev_map name_ok_def pm_keyLen_def)
  with m(1,2) show ?thesis by blast
qed

text \<open>
  Enumeration and lookup agree. Over well-formed segments, oldest first, \<open>All\<close> lists
  exactly the packs \<open>Lookup\<close> finds, each the newest segment's record, in strictly increasing
  name order, so each name once.
\<close>

theorem manifest_All_is_Lookup:
  assumes "\<forall>m \<in> set ms. segment_ok m"
  shows "strict_keys (\<lambda>p. str_bytes (sp_Name p)) (set_All ms) \<and>
    (\<forall>p. p \<in> set (set_All ms) \<longleftrightarrow> name_ok (sp_Name p) \<and> set_Lookup ms (sp_Name p) = Some p)"
proof
  let ?vs = "map snd (visits (start_cursors ms))"
  have st: "\<forall>m \<in> set ms. sorted_table m" using assms by (simp add: segment_ok_def)
  note v = visits_start [OF st]
  have dist: "distinct (map fst ?vs)" by (rule strict_keys_distinct [OF v(1)])
  have clean: "name_ok (trimName k) \<and> pad_name (trimName k) = k" if "(k, w) \<in> set ?vs" for k w
  proof -
    have "map_of ?vs k = Some w" using that dist by (rule map_of_is_SomeI [rotated])
    then have "(k, w) \<in> set (concat (map entries (rev ms)))" by (simp only: v(2)) (rule map_of_SomeD)
    then obtain m where "m \<in> set ms" "(k, w) \<in> set (entries m)" by auto
    with assms map_of_entries_row show ?thesis by blast
  qed
  have "strict_keys (\<lambda>p. str_bytes (sp_Name p)) (map (\<lambda>(k, v). pm_decode (trimName k) v) kvs)"
    if "strict_keys fst kvs" "set kvs \<subseteq> set ?vs" for kvs
    using that
  proof (induction kvs)
    case (Cons kv kvs)
    obtain k w where kv: "kv = (k, w)" by (cases kv)
    have "str_bytes (trimName k) < str_bytes (trimName k')" if "(k', w') \<in> set kvs" for k' w'
    proof -
      have "k < k'" using Cons.prems(1) that kv by auto
      moreover have "name_ok (trimName k)" "pad_name (trimName k) = k" using clean [of k w] Cons.prems(2) kv by auto
      moreover have "name_ok (trimName k')" "pad_name (trimName k') = k'" using clean [of k' w'] Cons.prems(2) that by auto
      ultimately show ?thesis using pad_name_order [of "trimName k" "trimName k'"] by simp
    qed
    with Cons kv show ?case by (auto simp: pm_decode_def)
  qed simp
  with v(1) show "strict_keys (\<lambda>p. str_bytes (sp_Name p)) (set_All ms)"
    by (simp only: set_All_visits)
  show "\<forall>p. p \<in> set (set_All ms) \<longleftrightarrow> name_ok (sp_Name p) \<and> set_Lookup ms (sp_Name p) = Some p"
  proof
    fix p
    have look: "set_Lookup ms name = map_option (pm_decode name) (map_of ?vs (pad_name name))" if "name_ok name" for name
      using set_Lookup_entries [OF assms that] v(2) by simp
    show "p \<in> set (set_All ms) \<longleftrightarrow> name_ok (sp_Name p) \<and> set_Lookup ms (sp_Name p) = Some p"
    proof
      assume "p \<in> set (set_All ms)"
      then obtain k w where kw: "(k, w) \<in> set ?vs" "p = pm_decode (trimName k) w"
        unfolding set_All_visits by (auto simp del: map_map)
      have "map_of ?vs k = Some w" using kw(1) dist by (rule map_of_is_SomeI [rotated])
      with clean [OF kw(1)] kw(2) look show "name_ok (sp_Name p) \<and> set_Lookup ms (sp_Name p) = Some p"
        by (simp add: pm_decode_def del: map_map)
    next
      assume a: "name_ok (sp_Name p) \<and> set_Lookup ms (sp_Name p) = Some p"
      then obtain w where w: "map_of ?vs (pad_name (sp_Name p)) = Some w" "p = pm_decode (sp_Name p) w"
        using look by auto
      then have "(pad_name (sp_Name p), w) \<in> set ?vs" by (blast dest: map_of_SomeD)
      then have "(\<lambda>(k, v). pm_decode (trimName k) v) (pad_name (sp_Name p), w) \<in> set (set_All ms)"
        unfolding set_All_visits set_map [of "\<lambda>(k, v). pm_decode (trimName k) v"] by (rule imageI)
      with a w(2) show "p \<in> set (set_All ms)" by simp
    qed
  qed
qed

text \<open>
  Merging segments changes no answer. The merge of well-formed segments succeeds, opens
  as a well-formed segment that finds every name as the segments together did, and counts
  its packs right.
\<close>

theorem manifest_merge_preserves_lookup:
  assumes "\<forall>m \<in> set ms. segment_ok m" "sum_list (map Len ms) < 2 ^ 32"
  shows "\<exists>b n m. pm_MergeTo ms = Inr (b, n) \<and> pm_Merge ms = b \<and> pm_Open b = Inr m \<and> segment_ok m \<and> n = Len m \<and>
    (\<forall>name. name_ok name \<longrightarrow> pm_Lookup m name = set_Lookup ms name)"
proof -
  let ?vs = "map snd (visits (start_cursors ms))"
  have sh: "\<forall>m \<in> set ms. sorted_table m \<and> KeyLen (t_h m) = 32 \<and> RecordLen (t_h m) = 40"
    using assms(1) by (simp add: segment_ok_def)
  obtain b m where m: "MergeTo 32 40 0 ms = Inr b" "Open b = Inr m" "sorted_table m" "KeyLen (t_h m) = 32"
    "RecordLen (t_h m) = 40" "Lookup m = map_of (concat (map entries (rev ms)))" "entries m = ?vs"
    by (rule merge_opens [OF sh _ _ _ _ assms(2), of 0]) simp_all
  note srt = MergeTo_sorted [OF sh]
  have clean: "name_ok (trimName k) \<and> pad_name (trimName k) = k" if "(k, w) \<in> set (entries m)" for k w
  proof -
    have "map_of ?vs k = Some w"
      using that strict_keys_distinct [OF srt(3)] unfolding m(7) by (rule map_of_is_SomeI [rotated])
    then have "(k, w) \<in> set (concat (map entries (rev ms)))" by (simp only: srt(4)) (rule map_of_SomeD)
    then obtain m' where "m' \<in> set ms" "(k, w) \<in> set (entries m')" by auto
    with assms(1) map_of_entries_row show ?thesis by blast
  qed
  have ok: "segment_ok m" using m(3-5) clean by (auto simp: segment_ok_def)
  have fold: "fold_err (\<lambda>(k, v) sw. SAdd sw k v) ?vs (NewStreamWriter 32 40 0) = Inr (sw_after 32 40 (stride_of 0) ?vs)"
    using fold_SAdd [where kvs = "[]" and new = ?vs] srt(2,3) by (simp add: NewStreamWriter_after kvs_ok_def)
  have b: "b = encodeRecords 32 40 (stride_of 0) (map join ?vs)" using srt(1) [of 0] m(1) by simp
  have mt: "pm_MergeTo ms = Inr (pm_head @ b, Len m)"
    using Finish_after [OF srt(2), of "stride_of 0"] length_entries [of m] m(7)
    by (simp add: pm_MergeTo_def pm_keyLen_def pm_recordLen_def visits_MergeKeys fold b sw_after_def)
  have "pm_Lookup m name = set_Lookup ms name" if "name_ok name" for name
    using set_Lookup_entries [OF assms(1) that] m(6) that by (simp add: pm_Lookup_def name_ok_def pm_keyLen_def)
  then show ?thesis
    using mt pm_head_Open [OF m(2,4,5)] ok by (simp add: pm_Merge_def)
qed

section \<open>Witnesses\<close>

definition ex_pack :: "string \<Rightarrow> byte \<Rightarrow> sealed_pack" where
  "ex_pack name b = \<lparr>sp_Name = name, sp_TrailerHash = replicate 32 b, sp_Size = 77\<rparr>"

lemma ex_pack_Name [simp]: "sp_Name (ex_pack name b) = name"
  by (simp add: ex_pack_def)

lemma ex_packs_ok: "list_all pack_ok [ex_pack ''p-1'' 1, ex_pack ''p-2'' 2]" "list_all pack_ok [ex_pack ''p-2'' 3]"
  "name_ok ''p-2''" "name_ok ''p-1''"
  by (simp_all add: ex_pack_def pack_ok_def name_ok_def str_bytes_def byte_of_char_def)

theorem manifest_round_trip_witness:
  "\<exists>b m. pm_add_all pm_NewBuilder [ex_pack ''p-1'' 1, ex_pack ''p-2'' 2] = Inr b \<and>
     pm_Open (pm_Encode b) = Inr m \<and> pm_Lookup m ''p-2'' = Some (ex_pack ''p-2'' 2)"
proof -
  have "length [ex_pack ''p-1'' 1, ex_pack ''p-2'' 2] < 2 ^ 32" by simp
  then obtain b m where "pm_add_all pm_NewBuilder [ex_pack ''p-1'' 1, ex_pack ''p-2'' 2] = Inr b"
    "pm_Open (pm_Encode b) = Inr m"
    "\<And>name. name_ok name \<Longrightarrow> pm_Lookup m name = find (\<lambda>p. sp_Name p = name) (rev [ex_pack ''p-1'' 1, ex_pack ''p-2'' 2])"
    using manifest_round_trip [OF ex_packs_ok(1)] by metis
  then show ?thesis
    using ex_packs_ok(3) by (intro exI [of _ b] exI [of _ m]) simp
qed

lemma ex_segments:
  obtains m1 m2 where "segment_ok m1" "segment_ok m2" "Len m1 \<le> 2" "Len m2 \<le> 1"
    "set_Lookup [m1, m2] ''p-2'' = Some (ex_pack ''p-2'' 3)"
proof -
  have len: "length [ex_pack ''p-1'' 1, ex_pack ''p-2'' 2] < 2 ^ 32" "length [ex_pack ''p-2'' 3] < 2 ^ 32"
    by simp_all
  obtain b1 m1 where "pm_add_all pm_NewBuilder [ex_pack ''p-1'' 1, ex_pack ''p-2'' 2] = Inr b1"
    "pm_Open (pm_Encode b1) = Inr m1" and m1: "segment_ok m1"
    "Lookup m1 = map_of (rev (map pack_kv [ex_pack ''p-1'' 1, ex_pack ''p-2'' 2]))"
    "Len m1 \<le> length [ex_pack ''p-1'' 1, ex_pack ''p-2'' 2]"
    by (rule pm_Open_built [OF ex_packs_ok(1) len(1)])
  obtain b2 m2 where "pm_add_all pm_NewBuilder [ex_pack ''p-2'' 3] = Inr b2" "pm_Open (pm_Encode b2) = Inr m2"
    and m2: "segment_ok m2" "Lookup m2 = map_of (rev (map pack_kv [ex_pack ''p-2'' 3]))"
    "Len m2 \<le> length [ex_pack ''p-2'' 3]"
    by (rule pm_Open_built [OF ex_packs_ok(2) len(2)])
  have "pm_Lookup m2 ''p-2'' = Some (ex_pack ''p-2'' 3)"
    using pm_decode_row [of "ex_pack ''p-2'' 3"] ex_packs_ok(2)
    by (simp add: pm_Lookup_def m2(2) pm_keyLen_def pack_kv_def)
  then have "set_Lookup [m1, m2] ''p-2'' = Some (ex_pack ''p-2'' 3)" by simp
  moreover have "Len m1 \<le> 2" "Len m2 \<le> 1" using m1(3) m2(3) by simp_all
  ultimately show thesis using that m1(1) m2(1) by blast
qed

theorem manifest_All_is_Lookup_witness:
  "\<exists>m1 m2. set_Lookup [m1, m2] ''p-2'' = Some (ex_pack ''p-2'' 3) \<and> ex_pack ''p-2'' 3 \<in> set (set_All [m1, m2])"
proof -
  obtain m1 m2 where m: "segment_ok m1" "segment_ok m2" "set_Lookup [m1, m2] ''p-2'' = Some (ex_pack ''p-2'' 3)"
    using ex_segments by blast
  then have "\<forall>m \<in> set [m1, m2]. segment_ok m" by simp
  from manifest_All_is_Lookup [OF this] m(3) ex_packs_ok(3)
  have "ex_pack ''p-2'' 3 \<in> set (set_All [m1, m2])" by (simp del: set_Lookup.simps)
  with m(3) show ?thesis by blast
qed

theorem manifest_merge_preserves_lookup_witness:
  "\<exists>m1 m2 m. pm_Open (pm_Merge [m1, m2]) = Inr m \<and> pm_Lookup m ''p-2'' = Some (ex_pack ''p-2'' 3)"
proof -
  obtain m1 m2 where m: "segment_ok m1" "segment_ok m2" "Len m1 \<le> 2" "Len m2 \<le> 1"
    "set_Lookup [m1, m2] ''p-2'' = Some (ex_pack ''p-2'' 3)" by (rule ex_segments)
  then have "\<forall>m \<in> set [m1, m2]. segment_ok m" "sum_list (map Len [m1, m2]) < 2 ^ 32" by simp_all
  from manifest_merge_preserves_lookup [OF this] m(5) ex_packs_ok(3) show ?thesis by metis
qed

end
