(* ===== verification/Multi_Pack.thy ===== *)
theory Multi_Pack
  imports Pack_Merge
begin

text \<open>
  Multi-pack indexes, \<open>internal/mpi/mpi.go\<close>: truncated identities to the packs holding them,
  the pack lists interned in a blob of length-prefixed strings before the table. The blob's
  lengths are 16-bit fields and its offsets 32-bit ones, written modulo their width as the
  code does. Go compares strings by bytes, which on characters of one byte is their order.
\<close>

definition mp_magic :: string where "mp_magic = ''PELFSMP2''"
definition mp_headerLen :: nat where "mp_headerLen = 32"
definition mp_KeyLen :: nat where "mp_KeyLen = 12"
definition mp_recordLen :: nat where "mp_recordLen = 4"

datatype mp_error = MPKey nat | MPFormat | MPVersion nat | MPBlob nat | MPTable ix_error | MPShape nat nat
  | MPFetch string | MPHash string

section \<open>Pack lists\<close>

text \<open>\<open>strings.Join\<close> and \<open>strings.Split\<close> with a comma.\<close>

fun join_names :: "string list \<Rightarrow> string" where
  "join_names [] = []"
| "join_names [n] = n"
| "join_names (n # m # ns) = n @ CHR '','' # join_names (m # ns)"

fun splitNames :: "string \<Rightarrow> string list" where
  "splitNames [] = [[]]"
| "splitNames (c # s) =
     (if c = CHR '','' then [] # splitNames s
      else case splitNames s of n # ns \<Rightarrow> (c # n) # ns | [] \<Rightarrow> [[c]])"

fun drop_repeats :: "'a list \<Rightarrow> 'a list" where
  "drop_repeats (x # y # r) = (if y = x then drop_repeats (y # r) else x # drop_repeats (y # r))"
| "drop_repeats r = r"

definition sortedUnique :: "string list \<Rightarrow> string list" where
  "sortedUnique ns = drop_repeats (sort ns)"

section \<open>Building\<close>

record mp_builder =
  mp_packs :: "bytes \<Rightarrow> string list option"
  mp_order :: "bytes list"

definition mp_NewBuilder :: mp_builder where
  "mp_NewBuilder = \<lparr>mp_packs = Map.empty, mp_order = []\<rparr>"

definition mp_Add :: "mp_builder \<Rightarrow> bytes \<Rightarrow> string \<Rightarrow> mp_builder" where
  "mp_Add b ident pack =
     (let k = take mp_KeyLen ident
      in case mp_packs b k of
           None \<Rightarrow> b\<lparr>mp_order := mp_order b @ [k], mp_packs := (mp_packs b)(k \<mapsto> [pack])\<rparr>
         | Some cur \<Rightarrow>
             (if pack \<in> set cur then b else b\<lparr>mp_packs := (mp_packs b)(k \<mapsto> cur @ [pack])\<rparr>))"

definition mp_AddKey :: "mp_builder \<Rightarrow> bytes \<Rightarrow> string \<Rightarrow> mp_error + mp_builder" where
  "mp_AddKey b key pack =
     (if length key \<noteq> mp_KeyLen then Inl (MPKey (length key))
      else Inr (mp_Add b (key @ replicate 20 0) pack))"

text \<open>The strings blob under construction, with the offset of each string interned.\<close>

type_synonym blob = "bytes \<times> (string \<Rightarrow> nat option)"

definition intern :: "blob \<Rightarrow> string \<Rightarrow> nat \<times> blob" where
  "intern bl s =
     (case snd bl s of
        Some off \<Rightarrow> (off, bl)
      | None \<Rightarrow>
          (let off = length (fst bl) mod 2 ^ 32
           in (off, (fst bl @ le_bytes 2 (length s) @ str_bytes s, (snd bl)(s \<mapsto> off)))))"

fun encode_rows :: "(bytes \<Rightarrow> string list option) \<Rightarrow> bytes list \<Rightarrow> blob \<Rightarrow> builder \<Rightarrow> blob \<times> builder" where
  "encode_rows packs [] bl tbl = (bl, tbl)"
| "encode_rows packs (k # ks) bl tbl =
     (let names = sort (the (packs k)); (off, bl') = intern bl (join_names names)
      in encode_rows packs ks bl' (case Add tbl k (le_bytes 4 off) of Inl e \<Rightarrow> tbl | Inr tbl' \<Rightarrow> tbl'))"

definition mp_head :: "bytes \<Rightarrow> bytes" where
  "mp_head blob = str_bytes mp_magic @ le_bytes 4 1 @ le_bytes 4 (length blob) @ replicate 16 0 @ blob"

definition mp_Encode :: "mp_builder \<Rightarrow> bytes" where
  "mp_Encode b =
     (case encode_rows (mp_packs b) (sort (mp_order b)) ([], Map.empty) (NewBuilder mp_KeyLen mp_recordLen 0) of
        (bl, tbl) \<Rightarrow> mp_head (fst bl) @ Encode tbl)"

section \<open>Reading\<close>

record index =
  ix_blob :: bytes
  ix_table :: table

definition mp_Open :: "bytes \<Rightarrow> mp_error + index" where
  "mp_Open b =
     (if length b < mp_headerLen \<or> take 8 b \<noteq> str_bytes mp_magic then Inl MPFormat
      else if u32_at b 8 \<noteq> 1 then Inl (MPVersion (u32_at b 8))
      else let blobLen = u32_at b 12
           in if length b < mp_headerLen + blobLen then Inl (MPBlob blobLen)
              else case Open (drop (mp_headerLen + blobLen) b) of
                     Inl e \<Rightarrow> Inl (MPTable e)
                   | Inr t \<Rightarrow>
                       (if KeyLen (t_h t) \<noteq> mp_KeyLen \<or> RecordLen (t_h t) \<noteq> mp_recordLen
                        then Inl (MPShape (KeyLen (t_h t)) (RecordLen (t_h t)))
                        else Inr \<lparr>ix_blob = ext b mp_headerLen blobLen, ix_table = t\<rparr>))"

definition names :: "bytes \<Rightarrow> nat \<Rightarrow> string list option" where
  "names blob off =
     (if length blob < off + 2 then None
      else let n = u16_at blob off
           in if length blob < off + 2 + n then None
              else Some (splitNames (bytes_str (ext blob (off + 2) n))))"

definition mp_Lookup :: "index \<Rightarrow> bytes \<Rightarrow> string list option" where
  "mp_Lookup ix ident =
     (case Lookup (ix_table ix) (take mp_KeyLen ident) of
        None \<Rightarrow> None
      | Some v \<Rightarrow> names (ix_blob ix) (le_val (take 4 v)))"

definition Each :: "index \<Rightarrow> (bytes \<times> string list) list" where
  "Each ix = concat (map (\<lambda>i. case names (ix_blob ix) (le_val (take 4 (snd (At (ix_table ix) i)))) of
       None \<Rightarrow> [] | Some ns \<Rightarrow> [(fst (At (ix_table ix) i), ns)]) [0..<Len (ix_table ix)])"

definition mp_Packs :: "index \<Rightarrow> string list" where
  "mp_Packs ix = sort (remdups (concat (map snd (Each ix))))"

section \<open>Merging\<close>

text \<open>
  The callback of \<open>MergeTo\<close>: the newest input's pack list, sorted and interned in the new
  blob; an entry whose offset does not resolve is left out.
\<close>

definition merge_row :: "index list \<Rightarrow> nat \<Rightarrow> bytes \<Rightarrow> bytes \<Rightarrow> blob \<times> stream_writer \<Rightarrow> ix_error + blob \<times> stream_writer" where
  "merge_row indexes src key v st =
     (case names (ix_blob (indexes ! src)) (le_val (take 4 v)) of
        None \<Rightarrow> Inr st
      | Some ns \<Rightarrow>
          (if ns = [] then Inr st
           else let (off, bl') = intern (fst st) (join_names (sortedUnique ns))
                in case SAdd (snd st) key (le_bytes 4 off) of Inl e \<Rightarrow> Inl e | Inr sw \<Rightarrow> Inr (bl', sw)))"

definition mp_MergeTo :: "index list \<Rightarrow> mp_error + bytes \<times> nat" where
  "mp_MergeTo indexes =
     (case MergeKeys (map ix_table indexes) (merge_row indexes)
             (([], Map.empty), NewStreamWriter mp_KeyLen mp_recordLen 0) of
        Inl e \<Rightarrow> Inl (MPTable e)
      | Inr (bl, sw) \<Rightarrow>
          (case Finish sw of Inl e \<Rightarrow> Inl (MPTable e) | Inr b \<Rightarrow> Inr (mp_head (fst bl) @ b, w_count sw)))"

definition mp_Merge :: "index list \<Rightarrow> bytes" where
  "mp_Merge indexes = (case mp_MergeTo indexes of Inl e \<Rightarrow> [] | Inr (b, n) \<Rightarrow> b)"

fun mset_Lookup :: "index list \<Rightarrow> bytes \<Rightarrow> string list option" where
  "mset_Lookup [] ident = None"
| "mset_Lookup (ix # ixs) ident =
     (case mset_Lookup ixs ident of Some ps \<Rightarrow> Some ps | None \<Rightarrow> mp_Lookup ix ident)"

definition Covers :: "index list \<Rightarrow> string \<Rightarrow> bool" where
  "Covers indexes pack \<longleftrightarrow> list_ex (\<lambda>ix. pack \<in> set (mp_Packs ix)) indexes"

section \<open>Joining and splitting\<close>

lemma split_join: "ns \<noteq> [] \<Longrightarrow> \<forall>n \<in> set ns. CHR '','' \<notin> set n \<Longrightarrow> splitNames (join_names ns) = ns"
proof (induction ns rule: join_names.induct)
  case (2 n)
  then show ?case by (induction n) auto
next
  case (3 n m ns)
  then have ih: "splitNames (join_names (m # ns)) = m # ns" and n: "CHR '','' \<notin> set n" by auto
  from n have "splitNames (n @ CHR '','' # s) = n # splitNames s" for s
    by (induction n) auto
  with ih show ?case by simp
qed simp

lemma set_drop_repeats: "set (drop_repeats ns) = set ns"
  by (induction ns rule: drop_repeats.induct) auto

lemma drop_repeats_strict: "sorted (ns :: 'a::linorder list) \<Longrightarrow> sorted_wrt (<) (drop_repeats ns)"
proof (induction ns rule: drop_repeats.induct)
  case (1 x y r)
  then show ?case
    using set_drop_repeats [of "y # r"] by (cases "y = x") (auto simp: order.strict_iff_order)
qed auto

lemma sortedUnique_props: "set (sortedUnique ns) = set ns" "sorted_wrt (<) (sortedUnique ns)"
  by (simp_all add: sortedUnique_def set_drop_repeats drop_repeats_strict)

lemma drop_repeats_id: "sorted_wrt (<) (ns :: 'a::linorder list) \<Longrightarrow> drop_repeats ns = ns"
  by (induction ns rule: drop_repeats.induct) auto

lemma sortedUnique_id: "sorted_wrt (<) ns \<Longrightarrow> sortedUnique ns = ns"
  by (simp add: sortedUnique_def drop_repeats_id sort_key_id_if_sorted strict_sorted_imp_sorted)

lemma sortedUnique_Nil: "sortedUnique ns = [] \<longleftrightarrow> ns = []"
  using sortedUnique_props(1) [of ns] by auto

section \<open>The blob\<close>

text \<open>A blob whose offsets resolve, each to the list of the string interned.\<close>

definition blob_ok :: "blob \<Rightarrow> bool" where
  "blob_ok bl \<longleftrightarrow> (\<forall>s off. snd bl s = Some off \<longrightarrow> names (fst bl) off = Some (splitNames s) \<and> off < 2 ^ 32)"

lemma names_append: "names b off = Some ns \<Longrightarrow> names (b @ c) off = Some ns"
proof -
  assume n: "names b off = Some ns"
  then have len: "off + 2 \<le> length b" "off + 2 + u16_at b off \<le> length b"
    by (auto simp: names_def Let_def split: if_splits)
  then have "u16_at (b @ c) off = u16_at b off" by (simp add: u16_at_def)
  with n len show ?thesis by (simp add: names_def Let_def)
qed

lemma blob_ok_start: "blob_ok ([], Map.empty)"
  by (simp add: blob_ok_def)

lemma intern_ok:
  assumes "blob_ok bl" "length s < 2 ^ 16" "length (fst bl) < 2 ^ 32" "intern bl s = (off, bl')"
  shows "blob_ok bl' \<and> names (fst bl') off = Some (splitNames s) \<and> off < 2 ^ 32 \<and>
    (\<exists>ext. fst bl' = fst bl @ ext \<and> length ext \<le> length s + 2)"
proof (cases "snd bl s")
  case (Some o')
  with assms show ?thesis by (auto simp: intern_def blob_ok_def)
next
  case None
  let ?new = "le_bytes 2 (length s) @ str_bytes s"
  have bl': "off = length (fst bl)" "bl' = (fst bl @ ?new, (snd bl)(s \<mapsto> length (fst bl)))"
    using None assms(3,4) by (auto simp: intern_def Let_def)
  have "u16_at (fst bl @ ?new) (length (fst bl)) = length s"
    using assms(2) by (simp add: u16_at_def)
  then have nm: "names (fst bl @ ?new) (length (fst bl)) = Some (splitNames s)"
    by (simp add: names_def Let_def)
  have "blob_ok bl'"
    unfolding blob_ok_def bl'(2)
  proof (intro allI impI)
    fix t o' assume "snd (fst bl @ ?new, (snd bl)(s \<mapsto> length (fst bl))) t = Some o'"
    then have o': "((snd bl)(s \<mapsto> length (fst bl))) t = Some o'" by simp
    show "names (fst (fst bl @ ?new, (snd bl)(s \<mapsto> length (fst bl)))) o' = Some (splitNames t) \<and> o' < 2 ^ 32"
    proof (cases "t = s")
      case True
      with o' have "o' = length (fst bl)" by simp
      with True nm assms(3) show ?thesis by simp
    next
      case False
      with o' have "snd bl t = Some o'" by simp
      with assms(1) have r: "names (fst bl) o' = Some (splitNames t)" "o' < 2 ^ 32"
        unfolding blob_ok_def by blast+
      show ?thesis using names_append [OF r(1)] r(2) by (simp only: fst_conv simp_thms)
    qed
  qed
  with nm bl' assms(3) show ?thesis by auto
qed

section \<open>What the builder writes\<close>

text \<open>The entries and the blob of an encoding, when every joined list fits its length field.\<close>

abbreviation joined :: "(bytes \<Rightarrow> string list option) \<Rightarrow> bytes \<Rightarrow> string" where
  "joined packs k \<equiv> join_names (sort (the (packs k)))"

lemma encode_rows_ok:
  assumes "blob_ok bl" "\<forall>k \<in> set ks. length k = 12 \<and> length (joined packs k) < 2 ^ 16"
    and "length (fst bl) + sum_list (map (\<lambda>k. length (joined packs k) + 2) ks) < 2 ^ 32"
    and "b_keyLen tbl = 12" "b_recordLen tbl = 4"
  shows "\<exists>offs bl'. length offs = length ks \<and> blob_ok bl' \<and> (\<exists>e. fst bl' = fst bl @ e) \<and> length (fst bl') < 2 ^ 32 \<and>
    encode_rows packs ks bl tbl = (bl', tbl\<lparr>b_entries := b_entries tbl @ map join (zip ks (map (le_bytes 4) offs))\<rparr>) \<and>
    (\<forall>i < length ks. offs ! i < 2 ^ 32 \<and> names (fst bl') (offs ! i) = Some (splitNames (joined packs (ks ! i))))"
  using assms
proof (induction ks arbitrary: bl tbl)
  case Nil
  then show ?case by (intro exI [of _ "[]"] exI [of _ bl]) simp
next
  case (Cons k ks)
  obtain off bl1 where i: "intern bl (joined packs k) = (off, bl1)" by (cases "intern bl (joined packs k)")
  obtain e where i': "blob_ok bl1" "names (fst bl1) off = Some (splitNames (joined packs k))" "off < 2 ^ 32"
    "fst bl1 = fst bl @ e" "length e \<le> length (joined packs k) + 2"
    using intern_ok [OF Cons.prems(1) _ _ i] Cons.prems(2,3) by auto
  let ?tbl = "tbl\<lparr>b_entries := b_entries tbl @ [k @ le_bytes 4 off]\<rparr>"
  have "length (fst bl1) + sum_list (map (\<lambda>k. length (joined packs k) + 2) ks) < 2 ^ 32"
    using i'(4,5) Cons.prems(3) by simp
  then obtain offs bl' e' where r: "length offs = length ks" "blob_ok bl'" "fst bl' = fst bl1 @ e'" "length (fst bl') < 2 ^ 32"
    "encode_rows packs ks bl1 ?tbl = (bl', ?tbl\<lparr>b_entries := b_entries ?tbl @ map join (zip ks (map (le_bytes 4) offs))\<rparr>)"
    "\<forall>i < length ks. offs ! i < 2 ^ 32 \<and> names (fst bl') (offs ! i) = Some (splitNames (joined packs (ks ! i)))"
    using Cons.IH [OF i'(1), of ?tbl] Cons.prems(2,4,5) by auto
  have "Add tbl k (le_bytes 4 off) = Inr ?tbl"
    using Cons.prems(2,4,5) by (simp add: Add_def)
  then have "encode_rows packs (k # ks) bl tbl =
      (bl', tbl\<lparr>b_entries := b_entries tbl @ map join (zip (k # ks) (map (le_bytes 4) (off # offs)))\<rparr>)"
    by (simp add: i r(5) Let_def)
  moreover have "names (fst bl') off = Some (splitNames (joined packs k))"
    using names_append [OF i'(2)] r(3) by simp
  ultimately show ?case
    using r i'(3,4) by (intro exI [of _ "off # offs"] exI [of _ bl']) (auto simp: nth_Cons split: nat.split)
qed

text \<open>The builder's invariant, and the additions it stands for.\<close>

fun mp_add_all :: "mp_builder \<Rightarrow> (bytes \<times> string) list \<Rightarrow> mp_builder" where
  "mp_add_all b [] = b"
| "mp_add_all b ((ident, pack) # adds) = mp_add_all (mp_Add b ident pack) adds"

definition placed :: "(bytes \<times> string) list \<Rightarrow> bytes \<Rightarrow> string set" where
  "placed adds k = {pack. \<exists>ident. (ident, pack) \<in> set adds \<and> take 12 ident = k}"

definition mp_holds :: "mp_builder \<Rightarrow> (bytes \<times> string) list \<Rightarrow> bool" where
  "mp_holds b adds \<longleftrightarrow> distinct (mp_order b) \<and> set (mp_order b) = (\<lambda>(ident, p). take 12 ident) ` set adds \<and>
     (\<forall>k. case mp_packs b k of None \<Rightarrow> placed adds k = {} | Some ps \<Rightarrow> ps \<noteq> [] \<and> distinct ps \<and> set ps = placed adds k)"

lemma placed_empty: "placed adds k = {} \<longleftrightarrow> k \<notin> (\<lambda>(ident, p). take 12 ident) ` set adds"
  by (force simp: placed_def)

lemma placed_snoc: "placed (adds @ [(ident, pack)]) k = (if take 12 ident = k then insert pack (placed adds k) else placed adds k)"
  by (auto simp: placed_def)

lemma placed_Nil: "placed [] k = {}"
  and placed_Cons: "placed ((ident, pack) # adds) k = (if take 12 ident = k then insert pack (placed adds k) else placed adds k)"
  by (auto simp: placed_def)

lemma mp_Add_holds:
  assumes "mp_holds b adds"
  shows "mp_holds (mp_Add b ident pack) (adds @ [(ident, pack)])"
proof -
  let ?k = "take 12 ident" and ?b = "mp_Add b ident pack"
  have old: "case mp_packs b k of None \<Rightarrow> placed adds k = {} | Some ps \<Rightarrow> ps \<noteq> [] \<and> distinct ps \<and> set ps = placed adds k" for k
    using assms by (simp add: mp_holds_def)
  have ord: "distinct (mp_order b)" "set (mp_order b) = (\<lambda>(ident, p). take 12 ident) ` set adds"
    using assms by (simp_all add: mp_holds_def)
  have new: "case mp_packs ?b k of None \<Rightarrow> placed (adds @ [(ident, pack)]) k = {}
      | Some ps \<Rightarrow> ps \<noteq> [] \<and> distinct ps \<and> set ps = placed (adds @ [(ident, pack)]) k" for k
    using old [of k] by (auto simp: mp_Add_def mp_KeyLen_def placed_snoc Let_def split: option.splits)
  have "mp_order ?b = (if mp_packs b ?k = None then mp_order b @ [?k] else mp_order b)"
    by (auto simp: mp_Add_def mp_KeyLen_def Let_def split: option.splits)
  moreover have "mp_packs b ?k = None \<longleftrightarrow> ?k \<notin> set (mp_order b)"
    using old [of ?k] ord(2) placed_empty [of adds ?k] by (auto split: option.splits)
  ultimately show ?thesis
    using ord new by (auto simp: mp_holds_def)
qed

lemma mp_add_all_holds: "mp_holds b adds \<Longrightarrow> mp_holds (mp_add_all b new) (adds @ new)"
proof (induction b new arbitrary: adds rule: mp_add_all.induct)
  case (2 b ident pack new)
  show ?case using "2.IH" [OF mp_Add_holds [OF "2.prems"]] by simp
qed simp

lemma mp_New_holds: "mp_holds mp_NewBuilder []"
  by (simp add: mp_holds_def mp_NewBuilder_def placed_def)

text \<open>The sizes the format can state, for the additions made.\<close>

definition adds_fit :: "(bytes \<times> string) list \<Rightarrow> bool" where
  "adds_fit adds \<longleftrightarrow> (\<forall>(ident, pack) \<in> set adds. 12 \<le> length ident \<and> CHR '','' \<notin> set pack) \<and>
     length adds < 2 ^ 32 \<and>
     (\<forall>k. length (join_names (sorted_list_of_set (placed adds k))) < 2 ^ 16) \<and>
     (\<Sum>k \<in> (\<lambda>(ident, p). take 12 ident) ` set adds. length (join_names (sorted_list_of_set (placed adds k))) + 2) < 2 ^ 32"

lemma mp_head_Open:
  assumes "length blob < 2 ^ 32" "Open tb = Inr t" "KeyLen (t_h t) = 12" "RecordLen (t_h t) = 4"
  shows "mp_Open (mp_head blob @ tb) = Inr \<lparr>ix_blob = blob, ix_table = t\<rparr>"
proof -
  let ?b = "mp_head blob @ tb"
  have f: "take 8 ?b = str_bytes mp_magic" "u32_at ?b 8 = 1" "u32_at ?b 12 = length blob"
    "drop (32 + length blob) ?b = tb" "ext ?b 32 (length blob) = blob" "length ?b = 32 + length blob + length tb"
    using assms(1) by (simp_all add: mp_head_def mp_magic_def u32_at_def)
  show ?thesis
    unfolding mp_Open_def f(1-3) mp_headerLen_def Let_def f(4,5) assms(2)
    using assms(3,4) f(6) by (simp add: mp_KeyLen_def mp_recordLen_def)
qed

lemma set_sorted_placed: "mp_holds b adds \<Longrightarrow> mp_packs b k = Some ps \<Longrightarrow> sort ps = sorted_list_of_set (placed adds k)"
proof -
  assume "mp_holds b adds" "mp_packs b k = Some ps"
  then have "distinct ps" "set ps = placed adds k" by (auto simp: mp_holds_def split: option.splits dest: spec [of _ k])
  then show ?thesis using sorted_list_of_set_sort_remdups [of ps] by (simp add: distinct_remdups_id)
qed

text \<open>
  An index as the builder and the merge write it: a sorted table whose every entry resolves
  to a strictly sorted, non-empty list of names without commas.
\<close>

definition row_names :: "index \<Rightarrow> bytes \<Rightarrow> string list option" where
  "row_names ix v = names (ix_blob ix) (le_val (take 4 v))"

definition index_ok :: "index \<Rightarrow> bool" where
  "index_ok ix \<longleftrightarrow> sorted_table (ix_table ix) \<and> KeyLen (t_h (ix_table ix)) = 12 \<and> RecordLen (t_h (ix_table ix)) = 4 \<and>
     (\<forall>(k, v) \<in> set (entries (ix_table ix)). \<exists>ns. row_names ix v = Some ns \<and> ns \<noteq> [] \<and> sorted_wrt (<) ns \<and>
        (\<forall>n \<in> set ns. CHR '','' \<notin> set n))"

lemma index_Lookup: "index_ok ix \<Longrightarrow>
    mp_Lookup ix ident = Option.bind (map_of (entries (ix_table ix)) (take 12 ident)) (row_names ix)"
  by (simp add: mp_Lookup_def mp_KeyLen_def row_names_def index_ok_def Lookup_sorted split: option.split)

lemma index_row: "index_ok ix \<Longrightarrow> (k, v) \<in> set (entries (ix_table ix)) \<Longrightarrow>
    \<exists>ns. row_names ix v = Some ns \<and> ns \<noteq> [] \<and> sorted_wrt (<) ns \<and> (\<forall>n \<in> set ns. CHR '','' \<notin> set n)"
  by (auto simp: index_ok_def)

lemma mp_Encode_opens:
  assumes "mp_holds b adds" "adds_fit adds"
  obtains ix where "mp_Open (mp_Encode b) = Inr ix" "index_ok ix" "Len (ix_table ix) \<le> length adds"
    "\<And>ident. mp_Lookup ix ident = (if placed adds (take 12 ident) = {} then None
       else Some (sorted_list_of_set (placed adds (take 12 ident))))"
proof -
  let ?ks = "sort (mp_order b)" and ?K = "(\<lambda>(ident, p). take 12 ident) ` set adds"
    and ?j = "\<lambda>k. join_names (sorted_list_of_set (placed adds k))"
  have ord: "distinct ?ks" "set ?ks = ?K" using assms(1) by (simp_all add: mp_holds_def)
  have fin: "finite (placed adds k)" for k
    by (rule finite_subset [of _ "snd ` set adds"]) (auto simp: placed_def image_iff, force)
  have ps: "\<exists>ps. mp_packs b k = Some ps \<and> sort ps = sorted_list_of_set (placed adds k)" if "k \<in> ?K" for k
  proof -
    have "placed adds k \<noteq> {}" using that placed_empty by blast
    then obtain ps where "mp_packs b k = Some ps"
      using assms(1) by (cases "mp_packs b k") (auto simp: mp_holds_def dest: spec [of _ k])
    with set_sorted_placed [OF assms(1) this] show ?thesis by blast
  qed
  have j: "joined (mp_packs b) k = ?j k" if "k \<in> ?K" for k using ps [OF that] by auto
  have l12: "length k = 12" if "k \<in> ?K" for k using that assms(2) by (auto simp: adds_fit_def)
  have small: "\<forall>k \<in> set ?ks. length k = 12 \<and> length (joined (mp_packs b) k) < 2 ^ 16"
  proof
    fix k assume "k \<in> set ?ks"
    then have k: "k \<in> ?K" using ord(2) by simp
    have "length (?j k) < 2 ^ 16" using assms(2) unfolding adds_fit_def by blast
    then show "length k = 12 \<and> length (joined (mp_packs b) k) < 2 ^ 16" by (simp only: j [OF k] l12 [OF k] simp_thms)
  qed
  have "sum_list (map (\<lambda>k. length (joined (mp_packs b) k) + 2) ?ks) = (\<Sum>k \<in> ?K. length (joined (mp_packs b) k) + 2)"
    using sum_list_distinct_conv_sum_set [OF ord(1)] ord(2) by simp
  also have "\<dots> = (\<Sum>k \<in> ?K. length (?j k) + 2)" using j by (intro sum.cong) auto
  also have "\<dots> < 2 ^ 32" using assms(2) by (simp add: adds_fit_def)
  finally have sum: "length (fst ([], Map.empty)) + sum_list (map (\<lambda>k. length (joined (mp_packs b) k) + 2) ?ks) < 2 ^ 32"
    by simp
  obtain offs bl where r: "length offs = length ?ks" "length (fst bl) < 2 ^ 32"
    "encode_rows (mp_packs b) ?ks ([], Map.empty) (NewBuilder 12 4 0) =
      (bl, (NewBuilder 12 4 0)\<lparr>b_entries := b_entries (NewBuilder 12 4 0) @ map join (zip ?ks (map (le_bytes 4) offs))\<rparr>)"
    "\<forall>i < length ?ks. offs ! i < 2 ^ 32 \<and> names (fst bl) (offs ! i) = Some (splitNames (joined (mp_packs b) (?ks ! i)))"
    using encode_rows_ok [OF blob_ok_start small sum, of "NewBuilder 12 4 0"] by (auto simp: NewBuilder_def)
  let ?kvs = "zip ?ks (map (le_bytes 4) offs)"
  have dist: "distinct (map fst ?kvs)" using ord(1) r(1) by simp
  have "length k = 12 \<and> length v = 4" if "(k, v) \<in> set ?kvs" for k v
    using small set_zip_leftD [OF that] set_zip_rightD [OF that] by auto
  then have kvs: "kvs_ok 12 4 ?kvs" by (auto simp: kvs_ok_def list_all_iff)
  have "length ?ks \<le> length adds"
    using distinct_card [OF ord(1)] ord(2) card_image_le [of "set adds" "\<lambda>(ident, p). take 12 ident"] card_length [of adds]
    by simp
  then have nlen: "length ?kvs \<le> length adds" by simp
  then have okay: "table_okay 12 4 ?kvs" using kvs assms(2) by (simp add: table_okay_def adds_fit_def)
  have enc: "mp_Encode b = mp_head (fst bl) @ Encode ((NewBuilder 12 4 0)\<lparr>b_entries := map join ?kvs\<rparr>)"
    using r(3) by (simp add: mp_Encode_def mp_KeyLen_def mp_recordLen_def NewBuilder_def)
  have bt: "build_table 12 4 0 ?kvs = Inr (Encode ((NewBuilder 12 4 0)\<lparr>b_entries := map join ?kvs\<rparr>))"
    using add_all_ok [of "NewBuilder 12 4 0" ?kvs] kvs by (simp add: build_table_def NewBuilder_def)
  obtain t where t: "Open (Encode ((NewBuilder 12 4 0)\<lparr>b_entries := map join ?kvs\<rparr>)) = Inr t"
    "mpi_tbl.serves t ?kvs"
    using mpi_tbl.serves_exists [OF okay] bt by (auto simp: mpi_tbl.serves_def)
  note sv = served_sorted [OF _ _ _ okay bt t(1)]
  let ?ix = "\<lparr>ix_blob = fst bl, ix_table = t\<rparr>"
  have mo: "map_of (entries t) = map_of ?kvs" using sv(2) map_of_rev_distinct [OF dist] by simp
  have row: "row_names ?ix v = Some (sorted_list_of_set (placed adds k)) \<and> k \<in> ?K" if "map_of ?kvs k = Some v" for k v
  proof -
    have "(k, v) \<in> set ?kvs" using that by (rule map_of_SomeD)
    then obtain i where i: "i < length ?ks" "k = ?ks ! i" "v = le_bytes 4 (offs ! i)"
      using r(1) by (auto simp: set_zip)
    have kK: "k \<in> ?K" using i(1,2) ord(2) nth_mem [OF i(1)] by simp
    have off: "offs ! i < 256 ^ 4" using r(4) i(1) by simp
    have "sorted_list_of_set (placed adds k) \<noteq> []"
      using placed_empty [of adds k] kK fin [of k] by auto
    moreover have "\<forall>n \<in> set (sorted_list_of_set (placed adds k)). CHR '','' \<notin> set n"
      using assms(2) fin [of k] by (auto simp: adds_fit_def placed_def)
    ultimately have "splitNames (?j k) = sorted_list_of_set (placed adds k)" by (rule split_join)
    with r(4) i j [OF kK] off kK show ?thesis by (simp add: row_names_def)
  qed
  have ok: "index_ok ?ix"
  proof -
    have "\<exists>ns. row_names ?ix v = Some ns \<and> ns \<noteq> [] \<and> sorted_wrt (<) ns \<and> (\<forall>n \<in> set ns. CHR '','' \<notin> set n)"
      if "(k, v) \<in> set (entries t)" for k v
    proof -
      have "map_of (entries t) k = Some v"
        using that sv(1) by (intro map_of_is_SomeI strict_keys_distinct) (simp_all add: sorted_table_def)
      with row [of k v] mo have "row_names ?ix v = Some (sorted_list_of_set (placed adds k))" "k \<in> ?K" by auto
      then show ?thesis
        using fin [of k] placed_empty [of adds k] assms(2) by (auto simp: adds_fit_def placed_def)
    qed
    then show ?thesis using sv(1) by (auto simp: index_ok_def)
  qed
  have look: "mp_Lookup ?ix ident = (if placed adds (take 12 ident) = {} then None
      else Some (sorted_list_of_set (placed adds (take 12 ident))))" for ident
  proof (cases "map_of ?kvs (take 12 ident)")
    case None
    have "map fst ?kvs = ?ks" using r(1) by simp
    then have "fst ` set ?kvs = set ?ks" by (metis image_set)
    with None have "take 12 ident \<notin> set ?ks" by (simp only: map_of_eq_None_iff simp_thms)
    then have "placed adds (take 12 ident) = {}" using ord(2) placed_empty by blast
    with None mo index_Lookup [OF ok] show ?thesis by simp
  next
    case (Some v)
    with row [OF Some] mo index_Lookup [OF ok] placed_empty [of adds "take 12 ident"] show ?thesis by simp
  qed
  have op: "mp_Open (mp_Encode b) = Inr ?ix"
    unfolding enc using r(2) t(1) sv(1) by (intro mp_head_Open) simp_all
  have "Len t \<le> length adds" by (rule le_trans [OF sv(3) nlen]) simp_all
  with that [OF op ok] look show thesis by simp
qed

section \<open>What the merge writes\<close>

lemma join_split: "join_names (splitNames s) = s"
proof (induction s)
  case (Cons c s)
  obtain n ns where "splitNames s = n # ns"
    by (cases "splitNames s") (auto elim: splitNames.elims split: if_splits list.splits)
  with Cons show ?case by (cases ns) (auto split: list.splits)
qed simp

lemma names_join: "names blob off = Some ns \<Longrightarrow> length (join_names ns) < 2 ^ 16"
  using u16_at_less [of blob off] by (auto simp: names_def Let_def join_split split: if_splits)

lemma visit_source:
  assumes "\<forall>t \<in> set ts. sorted_table t" "(i, k, v) \<in> set (visits (start_cursors ts))"
  shows "i < length ts \<and> (k, v) \<in> set (entries (ts ! i))"
proof -
  have asc: "\<forall>c \<in> set (start_cursors ts). ascending c"
    using assms(1) by (auto simp: start_cursors_def in_set_enumerate_eq intro!: sorted_table_ascending)
  note vc = visits_claims [OF asc]
  have "distinct (map fst (map visit_claim (visits (start_cursors ts))))"
    using strict_keys_distinct [OF vc [THEN conjunct1]] by (simp add: comp_def)
  moreover have "(k, i, v) \<in> set (map visit_claim (visits (start_cursors ts)))"
    using assms(2) by force
  ultimately have "map_of (map visit_claim (visits (start_cursors ts))) k = Some (i, v)"
    by (rule map_of_is_SomeI)
  then have "map_of (claims (start_cursors ts)) k = Some (i, v)" using vc by simp
  then have "(k, i, v) \<in> set (claims (start_cursors ts))" by (rule map_of_SomeD)
  then obtain j t where "(j, t) \<in> set (enumerate 0 ts)" "(k, i, v) \<in> set (offers (j, t, 0))"
    unfolding claims_def start_cursors_def by auto
  then show ?thesis
    by (auto simp: in_set_enumerate_eq entries_def)
qed

lemma fold_merge_rows:
  assumes "\<forall>(i, k, v) \<in> set vs. length k = 12 \<and> (\<exists>ns. row_names (ixs ! i) v = Some ns \<and> ns \<noteq> [] \<and> sorted_wrt (<) ns)"
    and "strict_keys fst (kvs @ map snd vs)" "kvs_ok 12 4 kvs"
  shows "\<exists>bl' new. fold_err (\<lambda>(i, k, v). merge_row ixs i k v) vs (bl, sw_after 12 4 st kvs) = Inr (bl', sw_after 12 4 st (kvs @ new)) \<and>
    map fst new = map visit_key vs \<and> kvs_ok 12 4 new \<and> (\<exists>e. fst bl' = fst bl @ e) \<and>
    (blob_ok bl \<longrightarrow> length (fst bl') < 2 ^ 32 \<longrightarrow> blob_ok bl' \<and>
      list_all2 (\<lambda>(i, k, v) (k', v'). names (fst bl') (le_val (take 4 v')) = row_names (ixs ! i) v) vs new)"
  using assms
proof (induction vs arbitrary: kvs bl)
  case Nil
  then show ?case by (intro exI [of _ bl] exI [of _ "[]"]) (simp add: kvs_ok_def)
next
  case (Cons x vs)
  obtain i k v where x: "x = (i, k, v)" by (cases x)
  obtain ns where ns: "row_names (ixs ! i) v = Some ns" "ns \<noteq> []" "sorted_wrt (<) ns" "length k = 12"
    using Cons.prems(1) x by auto
  obtain off bl1 where it: "intern bl (join_names ns) = (off, bl1)" by (cases "intern bl (join_names ns)")
  have small: "length (join_names ns) < 2 ^ 16" using ns(1) names_join by (auto simp: row_names_def)
  let ?kv = "(k, le_bytes 4 off)"
  have sk: "strict_keys fst (kvs @ [?kv])" "strict_keys fst ((kvs @ [?kv]) @ map snd vs)"
    using Cons.prems(2) x by (auto simp: strict_keys_def sorted_wrt_append)
  have ok: "kvs_ok 12 4 (kvs @ [?kv])" using Cons.prems(3) ns(4) by (simp add: kvs_ok_def)
  have "SAdd (sw_after 12 4 st kvs) k (le_bytes 4 off) = Inr (sw_after 12 4 st (kvs @ [?kv]))"
    using SAdd_after [of kvs 12 4 st k "le_bytes 4 off"] sk(1) ok Cons.prems(3) by (auto simp: strict_keys_snoc)
  then have row: "merge_row ixs i k v (bl, sw_after 12 4 st kvs) = Inr (bl1, sw_after 12 4 st (kvs @ [?kv]))"
    using ns it by (simp add: merge_row_def row_names_def sortedUnique_id)
  have "\<forall>(i, k, v) \<in> set vs. length k = 12 \<and> (\<exists>ns. row_names (ixs ! i) v = Some ns \<and> ns \<noteq> [] \<and> sorted_wrt (<) ns)"
    using Cons.prems(1) by simp
  from Cons.IH [OF this sk(2) ok, of bl1] obtain bl' new e where r:
    "fold_err (\<lambda>(i, k, v). merge_row ixs i k v) vs (bl1, sw_after 12 4 st (kvs @ [?kv])) =
      Inr (bl', sw_after 12 4 st ((kvs @ [?kv]) @ new))"
    "map fst new = map visit_key vs" "kvs_ok 12 4 new" "fst bl' = fst bl1 @ e"
    "blob_ok bl1 \<longrightarrow> length (fst bl') < 2 ^ 32 \<longrightarrow> blob_ok bl' \<and>
      list_all2 (\<lambda>(i, k, v) (k', v'). names (fst bl') (le_val (take 4 v')) = row_names (ixs ! i) v) vs new"
    by (elim exE conjE)
  have pre: "\<exists>e. fst bl1 = fst bl @ e"
    using it by (auto simp: intern_def Let_def split: option.splits)
  have "blob_ok bl' \<and> list_all2 (\<lambda>(i, k, v) (k', v'). names (fst bl') (le_val (take 4 v')) = row_names (ixs ! i) v) (x # vs) (?kv # new)"
    if b: "blob_ok bl" "length (fst bl') < 2 ^ 32"
  proof -
    have "length (fst bl) < 2 ^ 32" using b(2) r(4) pre by auto
    note i = intern_ok [OF b(1) small this it]
    have "names (fst bl') off = Some (splitNames (join_names ns))"
      using i names_append [of "fst bl1" off] r(4) by simp
    moreover have "splitNames (join_names ns) = ns"
      using ns(1,2) by (auto simp: row_names_def names_def Let_def join_split split: if_splits)
    moreover have "le_val (take 4 (le_bytes 4 off)) = off" using i by simp
    ultimately show ?thesis using r(5) b(2) i ns(1) by (simp add: x)
  qed
  with r ok pre row ns(4) show ?case
    by (intro exI [of _ bl'] exI [of _ "?kv # new"]) (auto simp: x kvs_ok_def)
qed

lemma mset_Lookup_snoc: "mset_Lookup (ixs @ [ix]) ident =
    (case mp_Lookup ix ident of Some ps \<Rightarrow> Some ps | None \<Rightarrow> mset_Lookup ixs ident)"
  by (induction ixs) (auto split: option.splits)

lemma claims_append: "claims (cs @ ds) = claims ds @ claims cs"
  by (simp add: claims_def)

lemma claims_index: "(k, i, v) \<in> set (claims (start_cursors ts)) \<Longrightarrow> i < length ts"
  by (auto simp: claims_def start_cursors_def in_set_enumerate_eq)

text \<open>The newest index holding an identity, as the search through the set finds it.\<close>

lemma mset_Lookup_claims:
  assumes "\<forall>ix \<in> set ixs. index_ok ix"
  shows "mset_Lookup ixs ident =
    (case map_of (claims (start_cursors (map ix_table ixs))) (take 12 ident) of
       None \<Rightarrow> None | Some (i, v) \<Rightarrow> row_names (ixs ! i) v)"
  using assms
proof (induction ixs rule: rev_induct)
  case (snoc ix ixs)
  let ?k = "take 12 ident" and ?ts = "map ix_table ixs" and ?n = "length ixs"
  have ok: "index_ok ix" using snoc.prems by simp
  have "start_cursors (?ts @ [ix_table ix]) = start_cursors ?ts @ [(?n, ix_table ix, 0)]"
    by (simp add: start_cursors_def enumerate_append_eq)
  then have c: "claims (start_cursors (?ts @ [ix_table ix])) =
      map (\<lambda>(k, v). (k, ?n, v)) (entries (ix_table ix)) @ claims (start_cursors ?ts)"
    by (simp add: claims_append entries_def comp_def case_prod_beta)
  have m: "map_of (map (\<lambda>(k, v). (k, ?n, v)) es) ?k = map_option (Pair ?n) (map_of es ?k)" for es :: "(bytes \<times> bytes) list"
    by (induction es) auto
  show ?case
  proof (cases "map_of (entries (ix_table ix)) ?k")
    case None
    have "row_names ((ixs @ [ix]) ! i) v = row_names (ixs ! i) v" if "map_of (claims (start_cursors ?ts)) ?k = Some (i, v)" for i v
      using claims_index [OF map_of_SomeD [OF that]] by (simp add: nth_append)
    with None snoc m show ?thesis
      by (auto simp: mset_Lookup_snoc index_Lookup [OF ok] c map_add_def split: option.split)
  next
    case (Some v)
    then obtain ns where "row_names ix v = Some ns"
      using index_row [OF ok map_of_SomeD [OF Some]] by blast
    with Some m show ?thesis
      by (simp add: mset_Lookup_snoc index_Lookup [OF ok] c map_add_def)
  qed
qed (simp add: start_cursors_def)

lemma merged_rows:
  assumes "list_all2 (\<lambda>(i, k, v) (k', v'). names blob (le_val (take 4 v')) = row_names (ixs ! i) v) vs new"
    and "map fst new = map visit_key vs"
  shows "Option.bind (map_of new k) (\<lambda>v'. names blob (le_val (take 4 v'))) =
    (case map_of (map visit_claim vs) k of None \<Rightarrow> None | Some (i, v) \<Rightarrow> row_names (ixs ! i) v)"
  using assms by (induction vs new rule: list_all2_induct) auto

lemma merged_rows_ok:
  assumes "list_all2 (\<lambda>(i, k, v) (k', v'). names blob (le_val (take 4 v')) = row_names (ixs ! i) v) vs new"
    and "\<forall>(i, k, v) \<in> set vs. length k = 12 \<and> (\<exists>ns. row_names (ixs ! i) v = Some ns \<and> P ns)"
  shows "\<forall>(k, v) \<in> set new. \<exists>ns. names blob (le_val (take 4 v)) = Some ns \<and> P ns"
  using assms by (induction vs new rule: list_all2_induct) auto

lemma mp_Merge_opens:
  assumes "\<forall>ix \<in> set ixs. index_ok ix" "sum_list (map (\<lambda>ix. Len (ix_table ix)) ixs) < 2 ^ 32"
  shows "\<exists>b n. mp_MergeTo ixs = Inr (b, n) \<and> (length b < 2 ^ 32 \<longrightarrow>
    (\<exists>ix. mp_Open b = Inr ix \<and> index_ok ix \<and> Len (ix_table ix) = n \<and>
      (\<forall>ident. mp_Lookup ix ident = mset_Lookup ixs ident)))"
proof -
  let ?ts = "map ix_table ixs" and ?vs = "visits (start_cursors (map ix_table ixs))"
  have sh: "\<forall>t \<in> set ?ts. sorted_table t \<and> KeyLen (t_h t) = 12 \<and> RecordLen (t_h t) = 4"
    using assms(1) by (auto simp: index_ok_def)
  then have st: "\<forall>t \<in> set ?ts. sorted_table t" by blast
  have sk: "strict_keys fst (map snd ?vs)" by (rule visits_start(1) [OF st])
  have ko: "kvs_ok 12 4 (map snd ?vs)" by (rule visits_kvs_ok(1) [OF sh])
  have rows: "\<forall>(i, k, v) \<in> set ?vs. length k = 12 \<and> (\<exists>ns. row_names (ixs ! i) v = Some ns \<and> ns \<noteq> [] \<and>
      sorted_wrt (<) ns \<and> (\<forall>n \<in> set ns. CHR '','' \<notin> set n))"
  proof (clarify)
    fix i k v assume x: "(i, k, v) \<in> set ?vs"
    then have "i < length ixs" "(k, v) \<in> set (entries (ix_table (ixs ! i)))"
      using visit_source [OF st x] by auto
    moreover have "length k = 12" using ko x by (force simp: kvs_ok_def list_all_iff)
    ultimately show "length k = 12 \<and> (\<exists>ns. row_names (ixs ! i) v = Some ns \<and> ns \<noteq> [] \<and> sorted_wrt (<) ns \<and>
        (\<forall>n \<in> set ns. CHR '','' \<notin> set n))"
      using assms(1) index_row [of "ixs ! i" k v] by auto
  qed
  then have rows': "\<forall>(i, k, v) \<in> set ?vs. length k = 12 \<and> (\<exists>ns. row_names (ixs ! i) v = Some ns \<and> ns \<noteq> [] \<and> sorted_wrt (<) ns)"
    by fast
  obtain bl new where f: "fold_err (\<lambda>(i, k, v). merge_row ixs i k v) ?vs (([], Map.empty), sw_after 12 4 (stride_of 0) []) =
      Inr (bl, sw_after 12 4 (stride_of 0) new)"
    "map fst new = map visit_key ?vs" "kvs_ok 12 4 new"
    "length (fst bl) < 2 ^ 32 \<longrightarrow>
      list_all2 (\<lambda>(i, k, v) (k', v'). names (fst bl) (le_val (take 4 v')) = row_names (ixs ! i) v) ?vs new"
    using fold_merge_rows [OF rows', of "[]" "([], Map.empty)" "stride_of 0"] sk blob_ok_start
    by (auto simp: kvs_ok_def)
  have skn: "strict_keys fst new"
  proof -
    have "strict_keys fst xs \<longleftrightarrow> sorted_wrt (<) (map fst xs)" for xs :: "(bytes \<times> bytes) list"
      by (simp add: strict_keys_def sorted_wrt_map)
    moreover have "map fst new = map fst (map snd ?vs)" using f(2) by simp
    ultimately show ?thesis using sk by simp
  qed
  have len: "length new < 2 ^ 32"
  proof -
    have "length (map snd ?vs) = card (set (map fst (map snd ?vs)))"
      using distinct_card [OF strict_keys_distinct [OF sk]] by simp
    also have "\<dots> = card (set (map fst (concat (map entries ?ts))))"
      using visits_kvs_ok(2) [OF sh] by (simp only:) (rule arg_cong [where f = card], auto)
    also have "\<dots> \<le> length (map fst (concat (map entries ?ts)))" by (rule card_length)
    also have "\<dots> = sum_list (map (\<lambda>ix. Len (ix_table ix)) ixs)" by (simp add: length_concat comp_def)
    finally have "length ?vs < 2 ^ 32" using assms(2) by simp
    moreover have "length new = length ?vs" using f(2) by (metis length_map)
    ultimately show ?thesis by simp
  qed
  let ?b = "mp_head (fst bl) @ encodeRecords 12 4 (stride_of 0) (map join new)"
  have wc: "w_count (sw_after 12 4 (stride_of 0) new) = length new" by (simp add: sw_after_def)
  have mt: "mp_MergeTo ixs = Inr (?b, length new)"
    using Finish_after [OF f(3), of "stride_of 0"] wc
    by (simp add: mp_MergeTo_def MergeKeys_def merge_loop_visits f(1) NewStreamWriter_after mp_KeyLen_def mp_recordLen_def)
  moreover have "\<exists>ix. mp_Open ?b = Inr ix \<and> index_ok ix \<and> Len (ix_table ix) = length new \<and> (\<forall>ident. mp_Lookup ix ident = mset_Lookup ixs ident)"
    if small: "length ?b < 2 ^ 32"
  proof -
    have bl: "length (fst bl) < 2 ^ 32" using small by (simp add: mp_head_def)
    obtain t where t: "Open (encodeRecords 12 4 (stride_of 0) (map join new)) = Inr t" "KeyLen (t_h t) = 12"
      "RecordLen (t_h t) = 4" "entries t = new" "Lookup t = map_of new" "sorted_table t"
      by (rule encoded_sorted [OF _ _ _ _ _ len f(3) skn, of "stride_of 0"]) (auto simp: stride_of_def DefaultStride_def)
    let ?ix = "\<lparr>ix_blob = fst bl, ix_table = t\<rparr>"
    have op: "mp_Open ?b = Inr ?ix" by (rule mp_head_Open [OF bl t(1-3)])
    have asc: "\<forall>c \<in> set (start_cursors ?ts). ascending c"
      using st by (auto simp: start_cursors_def in_set_enumerate_eq intro!: sorted_table_ascending)
    note rel = f(4) [rule_format, OF bl]
    have "mp_Lookup ?ix ident = mset_Lookup ixs ident" for ident
    proof -
      have "mp_Lookup ?ix ident = Option.bind (map_of new (take 12 ident)) (\<lambda>v'. names (fst bl) (le_val (take 4 v')))"
        by (simp add: mp_Lookup_def t(5) mp_KeyLen_def split: option.split)
      also have "\<dots> = (case map_of (claims (start_cursors ?ts)) (take 12 ident) of
          None \<Rightarrow> None | Some (i, v) \<Rightarrow> row_names (ixs ! i) v)"
        using merged_rows [OF rel f(2)] visits_claims [OF asc] by simp
      also have "\<dots> = mset_Lookup ixs ident" by (rule mset_Lookup_claims [OF assms(1), symmetric])
      finally show ?thesis .
    qed
    moreover have "Len t = length new" using t(4) length_entries [of t] by simp
    moreover have "index_ok ?ix"
      using merged_rows_ok [OF rel] rows t(2-4,6) by (auto simp: index_ok_def row_names_def)
    ultimately show ?thesis using op by auto
  qed
  ultimately show ?thesis by blast
qed

section \<open>Properties\<close>

text \<open>
  An index answers with everything that was added. Build, encode, open, look up: each
  identity is answered with the sorted list of all packs added under its first twelve bytes,
  each once, and an identity whose prefix was never added is not answered.
\<close>

theorem mpi_round_trip:
  assumes "adds_fit adds"
  shows "\<exists>ix. mp_Open (mp_Encode (mp_add_all mp_NewBuilder adds)) = Inr ix \<and>
    (\<forall>ident. mp_Lookup ix ident = (if placed adds (take 12 ident) = {} then None
       else Some (sorted_list_of_set (placed adds (take 12 ident)))))"
  using mp_Encode_opens [OF mp_add_all_holds [OF mp_New_holds, of adds, simplified] assms] by metis

text \<open>
  The indexes the program writes: the builder's, within the sizes the format can state, and
  those a merge of such indexes made, within the 32-bit counts of its rows and offsets.
\<close>

inductive written_index :: "index \<Rightarrow> bool" where
  built: "adds_fit adds \<Longrightarrow> mp_Open (mp_Encode (mp_add_all mp_NewBuilder adds)) = Inr ix \<Longrightarrow> written_index ix"
| merged: "\<forall>ix \<in> set ixs. written_index ix \<Longrightarrow> sum_list (map (\<lambda>ix. Len (ix_table ix)) ixs) < 2 ^ 32 \<Longrightarrow>
    mp_MergeTo ixs = Inr (b, n) \<Longrightarrow> length b < 2 ^ 32 \<Longrightarrow> mp_Open b = Inr ix \<Longrightarrow> written_index ix"

lemma written_index_ok: "written_index ix \<Longrightarrow> index_ok ix"
proof (induction rule: written_index.induct)
  case (built adds ix)
  show ?case
    using built(2) mp_Encode_opens [OF mp_add_all_holds [OF mp_New_holds, of adds, simplified] built(1)]
    by (metis sum.inject(2))
next
  case (merged ixs b n ix)
  then have "\<forall>ix \<in> set ixs. index_ok ix" by blast
  from mp_Merge_opens [OF this merged(2)] show ?case using merged(3-5) by auto
qed

text \<open>
  C6: Merging indexes changes no answer. Indexes written by the builder within the format's
  sizes or by earlier merges, oldest first, always merge while their rows together stay below
  2^32, and when the result is shorter than 2^32 bytes it opens, is itself an index that can be
  merged again, and answers every identity as the search from the newest index to the oldest
  does.
\<close>

theorem mpi_merge_preserves_lookup:
  assumes "\<forall>ix \<in> set ixs. written_index ix" "sum_list (map (\<lambda>ix. Len (ix_table ix)) ixs) < 2 ^ 32"
  shows "\<exists>b n. mp_MergeTo ixs = Inr (b, n) \<and> (length b < 2 ^ 32 \<longrightarrow>
    (\<exists>ix. mp_Open b = Inr ix \<and> written_index ix \<and> Len (ix_table ix) = n \<and>
      (\<forall>ident. mp_Lookup ix ident = mset_Lookup ixs ident)))"
proof -
  have "\<forall>ix \<in> set ixs. index_ok ix" using assms(1) written_index_ok by blast
  from mp_Merge_opens [OF this assms(2)] show ?thesis
    using written_index.merged [OF assms] by metis
qed

text \<open>
  A pack list too long for its 16-bit length is cut silently. When the joined names of an
  identity take 65536 bytes or more, the entry is still written and opens, but the lookup
  answers with the list cut to the length modulo 65536: a wrong answer, not a missing one.
\<close>

theorem long_pack_list_is_cut:
  assumes "12 \<le> length ident" "length pack = 65536 + length rest" "CHR '','' \<notin> set pack" "length pack + 2 < 2 ^ 32"
  shows "\<exists>ix. mp_Open (mp_Encode (mp_Add mp_NewBuilder ident pack)) = Inr ix \<and>
    mp_Lookup ix ident = Some [take (length rest mod 65536) pack]"
proof -
  let ?k = "take 12 ident" and ?blob = "le_bytes 2 (length pack) @ str_bytes pack"
  let ?kvs = "[(?k, le_bytes 4 0)]"
  have okay: "table_okay 12 4 ?kvs" using assms(1) by (simp add: table_okay_def kvs_ok_def)
  have add: "add_all (NewBuilder 12 4 0) ?kvs = Inr ((NewBuilder 12 4 0)\<lparr>b_entries := [?k @ le_bytes 4 0]\<rparr>)"
    using assms(1) by (simp add: NewBuilder_def Add_def)
  have enc: "mp_Encode (mp_Add mp_NewBuilder ident pack) =
      mp_head ?blob @ Encode ((NewBuilder 12 4 0)\<lparr>b_entries := [?k @ le_bytes 4 0]\<rparr>)"
    using assms(1) by (simp add: mp_Encode_def mp_Add_def mp_NewBuilder_def mp_KeyLen_def mp_recordLen_def
        intern_def NewBuilder_def Add_def Let_def)
  obtain t where t: "Open (Encode ((NewBuilder 12 4 0)\<lparr>b_entries := [?k @ le_bytes 4 0]\<rparr>)) = Inr t" "mpi_tbl.serves t ?kvs"
    using mpi_tbl.serves_exists [OF okay] add by (auto simp: mpi_tbl.serves_def build_table_def)
  have bt: "build_table 12 4 0 ?kvs = Inr (Encode ((NewBuilder 12 4 0)\<lparr>b_entries := [?k @ le_bytes 4 0]\<rparr>))"
    using add by (simp add: build_table_def)
  note sv = served_sorted [OF _ _ _ okay bt t(1)]
  have op: "mp_Open (mp_Encode (mp_Add mp_NewBuilder ident pack)) = Inr \<lparr>ix_blob = ?blob, ix_table = t\<rparr>"
    unfolding enc using assms(4) t(1) sv(1) by (intro mp_head_Open) simp_all
  define n where "n = length rest mod 65536"
  have "u16_at ?blob 0 = n"
    using assms(2) by (simp add: u16_at_def le_val_le_bytes n_def)
  moreover have "n \<le> length pack" using assms(2) by (simp add: n_def)
  ultimately have "names ?blob 0 = Some (splitNames (bytes_str (take n (str_bytes pack))))"
    by (simp add: names_def Let_def)
  moreover have "bytes_str (take n (str_bytes pack)) = take n pack"
    by (simp add: bytes_str_def str_bytes_def take_map comp_def)
  moreover have "splitNames (take n pack) = [take n pack]"
    using split_join [of "[take n pack]"] assms(3) by (auto dest: in_set_takeD)
  moreover have "Lookup t ?k = Some (le_bytes 4 0)" by (simp add: mpi_tbl.serves_find [OF t(2)])
  ultimately have "mp_Lookup \<lparr>ix_blob = ?blob, ix_table = t\<rparr> ident = Some [take n pack]"
    by (simp add: mp_Lookup_def mp_KeyLen_def)
  with op show ?thesis by (auto simp: n_def)
qed

section \<open>Witnesses\<close>

definition ex_adds :: "(bytes \<times> string) list" where
  "ex_adds = [(replicate 32 1, ''p-b''), (replicate 32 2, ''p-a''), (replicate 32 1, ''p-a''), (replicate 32 1, ''p-b'')]"

lemma ex_adds_placed: "placed ex_adds k = (if k = replicate 12 1 then {''p-a'', ''p-b''} else if k = replicate 12 2 then {''p-a''} else {})"
proof -
  have t: "take 12 (replicate 32 (b :: byte)) = replicate 12 b" for b by simp
  have "replicate 12 (1 :: byte) \<noteq> replicate 12 2" by simp
  then show ?thesis
    unfolding ex_adds_def placed_Cons placed_Nil t by auto
qed

lemma ex_adds_sorted: "sorted_list_of_set {''p-a'', ''p-b''} = [''p-a'', ''p-b'']"
  by simp

lemma ex_adds_fit: "adds_fit ex_adds"
proof -
  have "(\<lambda>(ident, p). take 12 ident) ` set ex_adds = {replicate 12 1, replicate 12 2}"
    by (auto simp: ex_adds_def)
  moreover have "replicate 12 (1 :: byte) \<noteq> replicate 12 2" by simp
  ultimately show ?thesis
    using ex_adds_sorted unfolding adds_fit_def by (simp add: ex_adds_placed) (simp add: ex_adds_def)
qed

theorem mpi_round_trip_witness:
  "\<exists>ix. mp_Open (mp_Encode (mp_add_all mp_NewBuilder ex_adds)) = Inr ix \<and>
     mp_Lookup ix (replicate 32 1) = Some [''p-a'', ''p-b''] \<and> mp_Lookup ix (replicate 32 9) = None"
proof -
  obtain ix where ix: "mp_Open (mp_Encode (mp_add_all mp_NewBuilder ex_adds)) = Inr ix"
    "\<And>ident. mp_Lookup ix ident = (if placed ex_adds (take 12 ident) = {} then None
       else Some (sorted_list_of_set (placed ex_adds (take 12 ident))))"
    using mpi_round_trip [OF ex_adds_fit] by blast
  have "take 12 (replicate 32 (9 :: byte)) \<noteq> replicate 12 1" "take 12 (replicate 32 (9 :: byte)) \<noteq> replicate 12 2" by simp_all
  moreover have "take 12 (replicate 32 (1 :: byte)) = replicate 12 1" by simp
  ultimately have "mp_Lookup ix (replicate 32 1) = Some [''p-a'', ''p-b'']" "mp_Lookup ix (replicate 32 9) = None"
    using ex_adds_sorted unfolding ix(2) ex_adds_placed by (simp_all only: if_True if_False simp_thms) auto
  with ix(1) show ?thesis by blast
qed

theorem mpi_merge_preserves_lookup_witness:
  "\<exists>ix b n. mp_Open (mp_Encode (mp_add_all mp_NewBuilder ex_adds)) = Inr ix \<and>
    mp_Lookup ix (replicate 32 1) = Some [''p-a'', ''p-b''] \<and> mp_MergeTo [ix] = Inr (b, n)"
proof -
  have h: "mp_holds (mp_add_all mp_NewBuilder ex_adds) ex_adds"
    using mp_add_all_holds [OF mp_New_holds, of ex_adds] by simp
  obtain ix where ix: "mp_Open (mp_Encode (mp_add_all mp_NewBuilder ex_adds)) = Inr ix" "Len (ix_table ix) \<le> length ex_adds"
    "\<And>ident. mp_Lookup ix ident = (if placed ex_adds (take 12 ident) = {} then None
       else Some (sorted_list_of_set (placed ex_adds (take 12 ident))))"
    using mp_Encode_opens [OF h ex_adds_fit] by metis
  have "take 12 (replicate 32 (1 :: byte)) = replicate 12 1" by simp
  then have look: "mp_Lookup ix (replicate 32 1) = Some [''p-a'', ''p-b'']"
    using ex_adds_sorted unfolding ix(3) ex_adds_placed by (simp only: if_True if_False simp_thms) auto
  have "\<forall>i \<in> set [ix]. written_index i" "sum_list (map (\<lambda>ix. Len (ix_table ix)) [ix]) < 2 ^ 32"
    using written_index.built [OF ex_adds_fit ix(1)] ix(2) by (simp_all add: ex_adds_def)
  from mpi_merge_preserves_lookup [OF this] show ?thesis using ix(1) look by blast
qed

theorem long_pack_list_is_cut_witness:
  "\<exists>ix. mp_Open (mp_Encode (mp_Add mp_NewBuilder (replicate 32 1) (replicate 65536 CHR ''a''))) = Inr ix \<and>
     mp_Lookup ix (replicate 32 1) = Some [[]]"
  using long_pack_list_is_cut [of "replicate 32 1" "replicate 65536 CHR ''a''" "[]"] by simp

end
