(* ===== verification/Superblock.thy ===== *)
theory Superblock
  imports Pelfs_Prelude
begin

text \<open>
  The signed root document of a generation, \<open>internal/superblock/superblock.go\<close>, \<open>validate.go\<close>, \<open>size.go\<close> and
  the key wrapping of \<open>keywrap.go\<close>: its fields, inode lineages, the custody chain, signing and
  unsigned volumes, and the write budget. CBOR (third party), Ed25519, BLAKE3 and RSA-OAEP
  are parameters; a scheme is a record of functions, its laws are named hypotheses.
\<close>

type_synonym uint32 = "32 word"

section \<open>The document\<close>

record index_ref =
  ix_Name :: string
  ix_Hash :: bytes
  ix_Size :: int64
  ix_Entries :: uint32
  ix_Packs :: uint32

record manifest_ref =
  mf_Name :: string
  mf_Hash :: bytes
  mf_Size :: int64
  mf_Packs :: uint32

record lineage_pair =
  lp_From :: uint32
  lp_To :: uint32

record import_entry =
  im_Path :: string
  im_Source :: string
  im_SourceBranch :: string
  im_SourceVolumeID :: bytes
  im_SourceGeneration :: uint64
  im_SourceHash :: bytes
  im_SourcePub :: bytes
  im_ImportedUnixNano :: int64
  im_Lineages :: "lineage_pair list"
  im_Files :: uint64
  im_Inodes :: uint64
  im_Bytes :: int64

record graft_entry =
  gr_Path :: string
  gr_Source :: string
  gr_Index :: bytes
  gr_Size :: int64
  gr_Block :: int64
  gr_BlockMax :: int64
  gr_BlocksPerObject :: uint32
  gr_Blocks :: uint64
  gr_Bytes :: int64
  gr_Files :: uint64
  gr_Objects :: uint64

record shard_entry =
  sh_FirstInode :: uint64
  sh_LastInode :: uint64
  sh_Identity :: bytes

record catalog_entry =
  ce_Inode :: uint64
  ce_Identity :: bytes
  ce_Path :: string
  ce_Weight :: int64
  ce_Promoted :: uint32

record key_entry =
  ke_ID :: uint32
  ke_Kind :: nat
  ke_Alg :: byte
  ke_Wrapped :: bytes

record params =
  SMaxBytes :: int64
  SMinBytes :: int64
  InlineMax :: int64
  TGraceSeconds :: int64
  RetainK :: uint32

record pack_row =
  pr_Name :: string
  pr_TrailerHash :: bytes
  pr_Size :: int64

record condemned_row =
  cn_Name :: string
  cn_At :: int

record fork =
  fk_Base :: bytes
  fk_BaseGeneration :: uint64
  fk_BaseNextInode :: uint64
  fk_From :: string
  fk_Tag :: string
  fk_Lineage :: uint32

record maint =
  mt_RepackGeneration :: uint64
  mt_RepackPacks :: uint32
  mt_RepackUnixNano :: int64

record root_hint =
  rh_Pack :: string
  rh_Off :: int64
  rh_Length :: int64

record superblock =
  FormatVersion :: nat
  VolumeID :: bytes
  Generation :: uint64
  PrevHash :: bytes
  CreatedUnixNano :: int64
  RootCatalog :: bytes
  PackList :: "pack_row list"
  Shards :: "shard_entry list"
  NextInode :: uint64
  Params :: params
  KeyTable :: "key_entry list"
  Condemned :: "condemned_row list"
  Maint :: "maint option"
  Fork :: "fork option"
  Branch :: string
  CatalogKeyID :: uint32
  Catalogs :: "catalog_entry list"
  Grafts :: "graft_entry list"
  Imports :: "import_entry list"
  RootCatalogHint :: "root_hint option"
  PackIndexes :: "index_ref list"
  Manifests :: "manifest_ref list"
  CondemnedIndexes :: "condemned_row list"
  CondemnedManifests :: "condemned_row list"
  SigningPub :: bytes
  NextPub :: "bytes option"
  Signature :: bytes

definition zero32 :: bytes where "zero32 = replicate 32 0"
definition zero64 :: bytes where "zero64 = replicate 64 0"

section \<open>Lineages and the grace window\<close>

definition InodeLineageShift :: nat where "InodeLineageShift = 40"
definition MaxLineage :: uint32 where "MaxLineage = 2 ^ 23 - 1"

definition LineageOf :: "uint64 \<Rightarrow> uint32" where
  "LineageOf inode = ucast (drop_bit InodeLineageShift inode)"

definition FirstInode :: "uint32 \<Rightarrow> uint64" where
  "FirstInode lineage = push_bit InodeLineageShift (ucast lineage) + 2"

definition TakenLineages :: "superblock option \<Rightarrow> uint32 set" where
  "TakenLineages sb =
     (case sb of
        None \<Rightarrow> {0}
      | Some s \<Rightarrow>
          insert 0 ((case Fork s of None \<Rightarrow> {} | Some f \<Rightarrow> {fk_Lineage f}) \<union>
            insert (LineageOf (NextInode s)) (set (map lp_To (concat (map im_Lineages (Imports s)))))))"

text \<open>Durations are nanoseconds in an \<open>int64\<close>; the product of \<open>Grace\<close> wraps as Go's does.\<close>

definition second :: int64 where "second = 1000000000"
definition DefaultTGrace :: int64 where "DefaultTGrace = 72 * 3600 * second"

definition Grace :: "params \<Rightarrow> int64" where
  "Grace p = (if TGraceSeconds p \<le>s 0 then DefaultTGrace else TGraceSeconds p * second)"

definition PacksAreInManifests :: "superblock \<Rightarrow> bool" where
  "PacksAreInManifests sb \<longleftrightarrow> 0 < length (Manifests sb)"

section \<open>Signatures and the custody chain\<close>

text \<open>\<open>marshal\<close> and \<open>unmarshal\<close> are the deterministic CBOR of the document, the rest is Ed25519 and BLAKE3.\<close>

record scheme =
  marshal :: "superblock \<Rightarrow> bytes option"
  unmarshal :: "bytes \<Rightarrow> superblock option"
  ed_public :: "bytes \<Rightarrow> bytes"
  ed_sign :: "bytes \<Rightarrow> bytes \<Rightarrow> bytes"
  ed_verify :: "bytes \<Rightarrow> bytes \<Rightarrow> bytes \<Rightarrow> bool"
  sum256 :: "bytes \<Rightarrow> bytes"

datatype sb_error = PrivateKeySize nat | PublicKeySize nat | Marshalling | Unmarshalling | ErrBadSignature
  | NilSuperblock | NotSuccessor uint64 uint64 | LineageHash uint64 | NoSuccessorAnnounced | NotAnnouncedKey
  | EmbedsOtherKey | ErrSigningChange | PacksStatedTwice | UnsignedAnnounces | PastBudget string
  | WrapSize nat | WrapFailed | UnwrapFailed

definition signingMessage :: "scheme \<Rightarrow> superblock \<Rightarrow> bytes option" where
  "signingMessage sc sb = marshal sc (sb\<lparr>Signature := zero64\<rparr>)"

definition Sign :: "scheme \<Rightarrow> bytes \<Rightarrow> superblock \<Rightarrow> sb_error option \<times> superblock" where
  "Sign sc priv sb =
     (if length priv \<noteq> 64 then (Some (PrivateKeySize (length priv)), sb)
      else let sb' = sb\<lparr>SigningPub := ed_public sc priv\<rparr>
           in case signingMessage sc sb' of
                None \<Rightarrow> (Some Marshalling, sb')
              | Some msg \<Rightarrow> (None, sb'\<lparr>Signature := ed_sign sc priv msg\<rparr>))"

definition Verify :: "scheme \<Rightarrow> bytes \<Rightarrow> superblock \<Rightarrow> sb_error option" where
  "Verify sc trusted sb =
     (if length trusted \<noteq> 32 then Some (PublicKeySize (length trusted))
      else case signingMessage sc sb of
             None \<Rightarrow> Some Marshalling
           | Some msg \<Rightarrow> (if \<not> ed_verify sc trusted msg (Signature sb) then Some ErrBadSignature else None))"

definition VerifyChain :: "scheme \<Rightarrow> bytes \<Rightarrow> superblock option \<Rightarrow> bytes \<Rightarrow> sb_error option" where
  "VerifyChain sc prevRaw cur trusted =
     (case cur of
        None \<Rightarrow> Some NilSuperblock
      | Some c \<Rightarrow>
          (case unmarshal sc prevRaw of
             None \<Rightarrow> Some Unmarshalling
           | Some prev \<Rightarrow>
               (case Verify sc trusted prev of
                  Some e \<Rightarrow> Some e
                | None \<Rightarrow>
                    (if Generation c \<noteq> Generation prev + 1 then Some (NotSuccessor (Generation c) (Generation prev))
                     else if PrevHash c \<noteq> sum256 sc prevRaw then Some (LineageHash (Generation c))
                     else case Verify sc trusted c of
                            None \<Rightarrow> None
                          | Some e \<Rightarrow>
                              (if e \<noteq> ErrBadSignature then Some e
                               else case NextPub prev of
                                      None \<Rightarrow> Some NoSuccessorAnnounced
                                    | Some np \<Rightarrow>
                                        (case Verify sc np c of
                                           Some e' \<Rightarrow> Some NotAnnouncedKey
                                         | None \<Rightarrow> (if SigningPub c \<noteq> np then Some EmbedsOtherKey else None)))))))"

definition IsUnsigned :: "superblock \<Rightarrow> bool" where
  "IsUnsigned sb \<longleftrightarrow> SigningPub sb = zero32 \<and> Signature sb = zero64"

definition Unsign :: "superblock \<Rightarrow> superblock" where
  "Unsign sb = sb\<lparr>SigningPub := zero32, Signature := zero64, NextPub := None\<rparr>"

definition SignAs :: "scheme \<Rightarrow> superblock option \<Rightarrow> bytes \<Rightarrow> superblock \<Rightarrow> sb_error option \<times> superblock" where
  "SignAs sc prev key sb =
     (if (case prev of None \<Rightarrow> True | Some p \<Rightarrow> \<not> IsUnsigned p) then Sign sc key sb
      else if length key \<noteq> 0 then (Some ErrSigningChange, sb)
      else (None, Unsign sb))"

definition Validate :: "superblock \<Rightarrow> sb_error option" where
  "Validate sb =
     (if 0 < length (PackList sb) \<and> 0 < length (Manifests sb) then Some PacksStatedTwice
      else if IsUnsigned sb \<and> NextPub sb \<noteq> None then Some UnsignedAnnounces
      else None)"

section \<open>The write budget\<close>

definition MaxEncodedBytes :: int where "MaxEncodedBytes = 512 * 1024"
definition CatalogBudgetBytes :: int where "CatalogBudgetBytes = 256 * 1024"

text \<open>The parts whose encoding is weighed, and the weight: zero when the part does not encode.\<close>

datatype part = PartPacks "pack_row list" | PartCatalogs "catalog_entry list" | PartShards "shard_entry list"
  | PartKeys "key_entry list" | PartManifests "manifest_ref list" | PartIndexes "index_ref list"
  | PartCondemned "condemned_row list" | PartGrafts "graft_entry list" | PartImports "import_entry list"

definition EncodedLen :: "(part \<Rightarrow> bytes option) \<Rightarrow> part \<Rightarrow> int" where
  "EncodedLen mar v = (case mar v of None \<Rightarrow> 0 | Some b \<Rightarrow> int (length b))"

definition TrimCatalogs :: "(part \<Rightarrow> bytes option) \<Rightarrow> superblock \<Rightarrow> int \<times> superblock" where
  "TrimCatalogs mar sb =
     (let n = EncodedLen mar (PartCatalogs (Catalogs sb))
      in if n \<le> CatalogBudgetBytes then (0, sb) else (n, sb\<lparr>Catalogs := []\<rparr>))"

record contributor =
  Field :: string
  Bytes :: int
  CEntries :: nat

definition raw_contributors :: "(part \<Rightarrow> bytes option) \<Rightarrow> superblock \<Rightarrow> contributor list" where
  "raw_contributors mar sb =
     [\<lparr>Field = ''pack_list'', Bytes = EncodedLen mar (PartPacks (PackList sb)), CEntries = length (PackList sb)\<rparr>,
      \<lparr>Field = ''catalogs'', Bytes = EncodedLen mar (PartCatalogs (Catalogs sb)), CEntries = length (Catalogs sb)\<rparr>,
      \<lparr>Field = ''shards'', Bytes = EncodedLen mar (PartShards (Shards sb)), CEntries = length (Shards sb)\<rparr>,
      \<lparr>Field = ''key_table'', Bytes = EncodedLen mar (PartKeys (KeyTable sb)), CEntries = length (KeyTable sb)\<rparr>,
      \<lparr>Field = ''manifests'', Bytes = EncodedLen mar (PartManifests (Manifests sb)), CEntries = length (Manifests sb)\<rparr>,
      \<lparr>Field = ''pack_indexes'', Bytes = EncodedLen mar (PartIndexes (PackIndexes sb)), CEntries = length (PackIndexes sb)\<rparr>,
      \<lparr>Field = ''condemned'', Bytes = EncodedLen mar (PartCondemned (Condemned sb)), CEntries = length (Condemned sb)\<rparr>,
      \<lparr>Field = ''condemned_indexes'', Bytes = EncodedLen mar (PartCondemned (CondemnedIndexes sb)),
        CEntries = length (CondemnedIndexes sb)\<rparr>,
      \<lparr>Field = ''condemned_manifests'', Bytes = EncodedLen mar (PartCondemned (CondemnedManifests sb)),
        CEntries = length (CondemnedManifests sb)\<rparr>,
      \<lparr>Field = ''grafts'', Bytes = EncodedLen mar (PartGrafts (Grafts sb)), CEntries = length (Grafts sb)\<rparr>,
      \<lparr>Field = ''imports'', Bytes = EncodedLen mar (PartImports (Imports sb)), CEntries = length (Imports sb)\<rparr>]"

text \<open>\<open>sort.Slice\<close> by weight, heaviest first, then by field; the fields differ, so the order is total.\<close>

definition heavier :: "contributor \<Rightarrow> contributor \<Rightarrow> bool" where
  "heavier a b \<longleftrightarrow> (if Bytes a \<noteq> Bytes b then Bytes b < Bytes a else Field a < Field b)"

fun insert_heavy :: "contributor \<Rightarrow> contributor list \<Rightarrow> contributor list" where
  "insert_heavy c [] = [c]"
| "insert_heavy c (d # ds) = (if heavier d c then d # insert_heavy c ds else c # d # ds)"

definition Contributors :: "(part \<Rightarrow> bytes option) \<Rightarrow> superblock \<Rightarrow> contributor list" where
  "Contributors mar sb = foldr insert_heavy (raw_contributors mar sb) []"

definition CheckSize :: "(part \<Rightarrow> bytes option) \<Rightarrow> int \<Rightarrow> superblock \<Rightarrow> sb_error option" where
  "CheckSize mar encoded sb =
     (if encoded \<le> MaxEncodedBytes then None
      else Some (PastBudget (case Contributors mar sb of [] \<Rightarrow> [] | c # cs \<Rightarrow> Field c)))"

section \<open>Wrapped keys\<close>

text \<open>RSA-OAEP under the label of the volume's keys, \<open>None\<close> when it fails.\<close>

definition WrappedKeySize :: nat where "WrappedKeySize = 32"

definition WrapKey :: "(bytes \<Rightarrow> bytes \<Rightarrow> bytes option) \<Rightarrow> bytes \<Rightarrow> bytes \<Rightarrow> sb_error + bytes" where
  "WrapKey oaep pub key =
     (if length key \<noteq> WrappedKeySize then Inl (WrapSize (length key))
      else case oaep pub key of None \<Rightarrow> Inl WrapFailed | Some w \<Rightarrow> Inr w)"

definition UnwrapKey :: "(bytes \<Rightarrow> bytes \<Rightarrow> bytes option) \<Rightarrow> bytes \<Rightarrow> bytes \<Rightarrow> sb_error + bytes" where
  "UnwrapKey oaep_dec priv wrapped =
     (case oaep_dec priv wrapped of
        None \<Rightarrow> Inl UnwrapFailed
      | Some key \<Rightarrow> (if length key \<noteq> WrappedKeySize then Inl (WrapSize (length key)) else Inr key))"

section \<open>Facts\<close>

text \<open>What the code relies on of Ed25519: signatures made with a key verify under its public half.\<close>

definition signs_verify :: "scheme \<Rightarrow> bool" where
  "signs_verify sc \<longleftrightarrow> (\<forall>priv msg. length priv = 64 \<longrightarrow>
     length (ed_public sc priv) = 32 \<and> ed_verify sc (ed_public sc priv) msg (ed_sign sc priv msg))"

lemma signingMessage_Signature [simp]: "signingMessage sc (sb\<lparr>Signature := x\<rparr>) = signingMessage sc sb"
  by (simp add: signingMessage_def)

lemma Verify_ok: "Verify sc trusted sb = None \<longleftrightarrow> length trusted = 32 \<and>
    (\<exists>msg. signingMessage sc sb = Some msg \<and> ed_verify sc trusted msg (Signature sb))"
  by (auto simp: Verify_def split: option.splits)

lemma Verify_bad: "Verify sc trusted sb = Some ErrBadSignature \<longleftrightarrow> length trusted = 32 \<and>
    (\<exists>msg. signingMessage sc sb = Some msg \<and> \<not> ed_verify sc trusted msg (Signature sb))"
  by (auto simp: Verify_def split: option.splits)

text \<open>Custody flows only through signed announcements.\<close>

lemma VerifyChain_ok:
  "VerifyChain sc prevRaw (Some c) trusted = None \<longleftrightarrow>
    (\<exists>prev. unmarshal sc prevRaw = Some prev \<and> Verify sc trusted prev = None \<and>
      Generation c = Generation prev + 1 \<and> PrevHash c = sum256 sc prevRaw \<and>
      (Verify sc trusted c = None \<or>
       Verify sc trusted c = Some ErrBadSignature \<and>
        (\<exists>np. NextPub prev = Some np \<and> Verify sc np c = None \<and> SigningPub c = np)))"
  by (auto simp: VerifyChain_def split: option.splits if_splits)

lemma sint_nonneg_of_uint:
  fixes x :: uint64
  assumes "unat x < 2 ^ 63"
  shows "0 \<le> sint x"
proof -
  have a: "uint x < 2 ^ 63"
    using assms unfolding uint_nat by (metis of_nat_less_iff of_nat_numeral of_nat_power)
  have b: "- (2 ^ 63) \<le> uint x"
    by (rule order_trans [OF _ uint_ge_0]) simp
  have "sint x = uint x"
    unfolding sint_uint using a b by (simp add: signed_take_bit_int_eq_self del: uint_bounded)
  then show ?thesis by simp
qed

lemma unat_push_40: "unat (l :: uint32) < 2 ^ 24 \<Longrightarrow> unat (push_bit 40 (ucast l) :: uint64) = unat l * 2 ^ 40"
proof -
  assume l: "unat l < 2 ^ 24"
  have u: "unat (ucast l :: uint64) = unat l"
    using l by (simp add: unsigned_ucast_eq take_bit_nat_eq_self)
  have "unat (push_bit 40 (ucast l) :: uint64) = unat (ucast l * 2 ^ 40 :: uint64)"
    by (simp add: push_bit_eq_mult)
  also have "\<dots> = unat l * 2 ^ 40 mod 2 ^ 64"
    using unat_word_ariths(2) [of "ucast l :: uint64" "2 ^ 40"] by (simp add: u)
  also have "\<dots> = unat l * 2 ^ 40"
    using l by (intro mod_less) simp
  finally show ?thesis .
qed

lemma unat_inode:
  assumes "unat l < 2 ^ 24" "n < 2 ^ 40 - 2"
  shows "unat (FirstInode l + word_of_nat n) = unat l * 2 ^ 40 + (n + 2)"
proof -
  have "unat l * 2 ^ 40 \<le> (2 ^ 24 - 1) * 2 ^ 40"
    using assms(1) by (intro mult_le_mono1) simp
  then have b: "unat l * 2 ^ 40 + (n + 2) < 2 ^ 64" using assms(2) by simp
  have "(push_bit 40 (ucast l) :: uint64) = word_of_nat (unat l * 2 ^ 40)"
    using unat_push_40 [OF assms(1)] b by (simp add: word_unat_eq_iff unat_of_nat del: of_nat_mult push_bit_eq_mult)
  then have "FirstInode l + word_of_nat n = word_of_nat (unat l * 2 ^ 40 + (n + 2))"
    by (simp add: FirstInode_def InodeLineageShift_def)
  moreover have "unat (word_of_nat (unat l * 2 ^ 40 + (n + 2)) :: uint64) = unat l * 2 ^ 40 + (n + 2)"
    using b by (simp only: unat_of_nat) simp
  ultimately show ?thesis by (simp only:)
qed

lemma insert_heavy_props: "set (insert_heavy c ds) = insert c (set ds)"
  "sorted_wrt (\<lambda>a b. Bytes b \<le> Bytes a) ds \<Longrightarrow> sorted_wrt (\<lambda>a b. Bytes b \<le> Bytes a) (insert_heavy c ds)"
proof -
  show set: "set (insert_heavy c ds) = insert c (set ds)" for ds by (induction ds) auto
  show "sorted_wrt (\<lambda>a b. Bytes b \<le> Bytes a) ds \<Longrightarrow> sorted_wrt (\<lambda>a b. Bytes b \<le> Bytes a) (insert_heavy c ds)"
    by (induction ds) (auto simp: set heavier_def split: if_splits)
qed

lemma Contributors_sorted: "set (Contributors mar sb) = set (raw_contributors mar sb) \<and>
    sorted_wrt (\<lambda>a b. Bytes b \<le> Bytes a) (Contributors mar sb)"
proof -
  have "set (foldr insert_heavy cs []) = set cs \<and> sorted_wrt (\<lambda>a b. Bytes b \<le> Bytes a) (foldr insert_heavy cs [])" for cs
    by (induction cs) (simp_all add: insert_heavy_props)
  then show ?thesis by (simp add: Contributors_def)
qed

section \<open>Properties\<close>

text \<open>
  A lineage's inodes are its own. Every inode a lineage can hand out, from \<open>FirstInode\<close>
  until its 40-bit counter is spent, reports that lineage, is above the root's number, and
  for a lineage up to \<open>MaxLineage\<close> is a non-negative signed 64-bit integer; so two lineages
  never hand out the same inode.
\<close>

theorem lineage_owns_its_inodes:
  assumes "l \<le> MaxLineage" "n < 2 ^ 40 - 2"
  shows "LineageOf (FirstInode l + word_of_nat n) = l \<and> 0 \<le> sint (FirstInode l + word_of_nat n) \<and>
    1 < FirstInode l + word_of_nat n"
proof -
  have m: "unat l < 2 ^ 23"
    using assms(1) by (simp add: MaxLineage_def word_le_nat_alt)
  have u: "unat (FirstInode l + word_of_nat n) = unat l * 2 ^ 40 + (n + 2)"
    using m assms(2) by (intro unat_inode) simp_all
  have u63: "unat l * 2 ^ 40 + (n + 2) < 2 ^ 63"
  proof -
    have "unat l * 2 ^ 40 \<le> (2 ^ 23 - 1) * 2 ^ 40" using m by (intro mult_le_mono1) simp
    then show ?thesis using assms(2) by simp
  qed
  have "(unat l * 2 ^ 40 + (n + 2)) div 2 ^ 40 = unat l"
    using assms(2) by simp
  then have "unat (drop_bit 40 (FirstInode l + word_of_nat n)) = unat l"
    using u63 by (simp add: unsigned_drop_bit_eq u take_bit_nat_eq_self) (simp add: drop_bit_eq_div)
  then have "unat (LineageOf (FirstInode l + word_of_nat n)) = unat l"
    using m by (simp add: LineageOf_def InodeLineageShift_def unsigned_ucast_eq take_bit_nat_eq_self)
  moreover have "0 \<le> sint (FirstInode l + word_of_nat n)"
    using u63 unfolding u [symmetric] by (rule sint_nonneg_of_uint)
  moreover have "1 < FirstInode l + word_of_nat n"
    unfolding word_less_nat_alt u by simp
  ultimately show ?thesis
    by (simp only: word_unat_eq_iff [symmetric])
qed

text \<open>
  Every ordinary writer keeps the volume's mode. After a predecessor that is unsigned
  (no key, no signature), \<open>SignAs\<close> leaves the successor unsigned, announcing nothing, and
  refuses a signing key; otherwise it signs, and what it signs verifies under the key's
  public half, which the document embeds.
\<close>

theorem SignAs_inherits_mode:
  assumes "signs_verify sc" "SignAs sc prev key sb = (None, sb')"
  shows "case prev of
      Some p \<Rightarrow> (if IsUnsigned p then key = [] \<and> IsUnsigned sb' \<and> NextPub sb' = None
        else SigningPub sb' = ed_public sc key \<and> Verify sc (ed_public sc key) sb' = None)
    | None \<Rightarrow> SigningPub sb' = ed_public sc key \<and> Verify sc (ed_public sc key) sb' = None"
proof -
  have sign: "SigningPub sb' = ed_public sc key \<and> Verify sc (ed_public sc key) sb' = None"
    if "Sign sc key sb = (None, sb')"
    using that assms(1) by (auto simp: Sign_def Verify_ok signs_verify_def Let_def split: if_splits option.splits)
  show ?thesis
    using assms(2) sign by (auto simp: SignAs_def IsUnsigned_def Unsign_def split: option.splits if_splits)
qed

text \<open>
  The refusal names the right field. When a document is past its write budget, the part
  \<open>CheckSize\<close> blames is one of its parts and none of them encodes to more bytes.
\<close>

theorem CheckSize_blames_heaviest:
  assumes "CheckSize mar encoded sb = Some e"
  shows "MaxEncodedBytes < encoded \<and> (\<exists>c \<in> set (raw_contributors mar sb). e = PastBudget (Field c) \<and>
    list_all (\<lambda>d. Bytes d \<le> Bytes c) (raw_contributors mar sb))"
proof -
  note s = Contributors_sorted [of mar sb]
  obtain c cs where c: "Contributors mar sb = c # cs"
    using s by (cases "Contributors mar sb") (auto simp: raw_contributors_def)
  have "\<forall>d \<in> set (raw_contributors mar sb). Bytes d \<le> Bytes c" using s c by auto
  moreover have "c \<in> set (raw_contributors mar sb)" using s c by auto
  ultimately show ?thesis
    using assms c by (auto simp: CheckSize_def list_all_iff split: if_splits)
qed

section \<open>Witnesses\<close>

theorem lineage_owns_its_inodes_witness:
  "LineageOf (FirstInode 5 + word_of_nat 7) = 5"
  using lineage_owns_its_inodes [of 5 7] by (simp add: MaxLineage_def word_le_nat_alt)

definition ex_superblock :: superblock where
  "ex_superblock = \<lparr>FormatVersion = 1, VolumeID = [], Generation = 0, PrevHash = zero32, CreatedUnixNano = 0,
     RootCatalog = zero32, PackList = [], Shards = [], NextInode = 2,
     Params = \<lparr>SMaxBytes = 0, SMinBytes = 0, InlineMax = 0, TGraceSeconds = 0, RetainK = 1\<rparr>,
     KeyTable = [], Condemned = [], Maint = None, Fork = None, Branch = [], CatalogKeyID = 0, Catalogs = [],
     Grafts = [], Imports = [], RootCatalogHint = None, PackIndexes = [], Manifests = [], CondemnedIndexes = [],
     CondemnedManifests = [], SigningPub = zero32, NextPub = None, Signature = zero64\<rparr>"

definition toy_scheme :: scheme where
  "toy_scheme = \<lparr>marshal = \<lambda>sb. Some [word_of_nat (unat (Generation sb))], unmarshal = \<lambda>_. Some ex_superblock,
     ed_public = take 32, ed_sign = \<lambda>priv msg. take 32 priv @ msg, ed_verify = \<lambda>pub msg sig. sig = pub @ msg,
     sum256 = \<lambda>b. b\<rparr>"

lemma toy_signs: "signs_verify toy_scheme"
  by (simp add: signs_verify_def toy_scheme_def)

theorem SignAs_inherits_mode_witness:
  "\<exists>sb. SignAs toy_scheme None (replicate 64 3) ex_superblock = (None, sb) \<and>
     Verify toy_scheme (take 32 (replicate 64 3)) sb = None"
proof -
  obtain sb where sb: "SignAs toy_scheme None (replicate 64 3) ex_superblock = (None, sb)"
    by (simp add: SignAs_def Sign_def signingMessage_def toy_scheme_def Let_def)
  with SignAs_inherits_mode [OF toy_signs sb] show ?thesis by (auto simp: toy_scheme_def)
qed

theorem CheckSize_blames_heaviest_witness:
  "\<exists>e. CheckSize (\<lambda>p. case p of PartShards _ \<Rightarrow> Some [1, 2, 3] | _ \<Rightarrow> Some [0]) 600000 ex_superblock = Some e \<and>
     e = PastBudget ''shards''"
proof -
  let ?mar = "\<lambda>p. case p of PartShards _ \<Rightarrow> Some [1, 2, 3 :: byte] | _ \<Rightarrow> Some [0]"
  obtain e where e: "CheckSize ?mar 600000 ex_superblock = Some e"
    by (simp add: CheckSize_def MaxEncodedBytes_def)
  with CheckSize_blames_heaviest [OF e] show ?thesis
    by (auto simp: raw_contributors_def EncodedLen_def)
qed

end
