(* ===== verification/Index_Reader.thy ===== *)
theory Index_Reader
  imports Multi_Pack Superblock
begin

text \<open>
  Consulting a multi-pack index over the network, \<open>internal/mpi/remote.go\<close> and \<open>Fetch\<close> of
  \<open>mpi.go\<close>: whole when it is small, by its header and one window per lookup when it is not.
  The store is a function of the requests made so far, so it may answer anything at any time;
  every request is logged. Sizes and offsets are natural numbers: each is the sum of a 32-bit
  length and a product of a 32-bit and a 16-bit field, far below \<open>2^63\<close>.
\<close>

section \<open>Requests\<close>

datatype request = WholeObject | Range nat nat

type_synonym store_answers = "request list \<Rightarrow> request \<Rightarrow> bool + bytes"

text \<open>A failed read says whether it was the caller that gave up.\<close>

datatype reader_error = ErrNoSize | ReadFailed bool | HashMismatch | BadIndex mp_error | BadPrefix
  | PrefixVersion nat | BlobTooLong nat | SamplesTooLong nat | ShortObject nat | NotSettled
  | BadTable ix_error | EntryShape nat nat | WideStride nat | TooManyEntries nat

definition wholeFetchMax :: nat where "wholeFetchMax = 4194304"
definition prefixProbe :: nat where "prefixProbe = 262144"
definition maxWindowBytes :: nat where "maxWindowBytes = 8388608"

text \<open>\<open>get\<close>: one range, cut to its length if the store sends more.\<close>

definition get_range :: "store_answers \<Rightarrow> nat \<Rightarrow> nat \<Rightarrow> request list \<Rightarrow> (reader_error + bytes) \<times> request list" where
  "get_range srv off len log =
     ((case srv log (Range off len) of Inl c \<Rightarrow> Inl (ReadFailed c) | Inr b \<Rightarrow> Inr (take len b)), log @ [Range off len])"

definition mp_Fetch :: "(bytes \<Rightarrow> bytes) \<Rightarrow> store_answers \<Rightarrow> index_ref \<Rightarrow> request list \<Rightarrow> (reader_error + index) \<times> request list" where
  "mp_Fetch hash srv ref log =
     ((case srv log WholeObject of
         Inl c \<Rightarrow> Inl (ReadFailed c)
       | Inr raw \<Rightarrow>
           (if hash raw \<noteq> ix_Hash ref then Inl HashMismatch
            else case mp_Open raw of Inl e \<Rightarrow> Inl (BadIndex e) | Inr ix \<Rightarrow> Inr ix)),
      log @ [WholeObject])"

section \<open>The reader\<close>

record reader =
  rd_ref :: index_ref
  rd_loaded :: bool
  rd_err :: "reader_error option"
  rd_blob :: bytes
  rd_hdr :: "header option"
  rd_tbl :: nat
  rd_whole :: "index option"

definition OpenReader :: "index_ref \<Rightarrow> reader" where
  "OpenReader ref = \<lparr>rd_ref = ref, rd_loaded = False, rd_err = None, rd_blob = [], rd_hdr = None, rd_tbl = 0, rd_whole = None\<rparr>"

definition ref_size :: "index_ref \<Rightarrow> nat" where "ref_size ref = nat (sint (ix_Size ref))"

definition prefixExtent :: "index_ref \<Rightarrow> bytes \<Rightarrow> reader_error + nat" where
  "prefixExtent ref buf =
     (if length buf < mp_headerLen then Inr (mp_headerLen + headerLen)
      else if take 8 buf \<noteq> str_bytes mp_magic then Inl BadPrefix
      else if u32_at buf 8 \<noteq> 1 then Inl (PrefixVersion (u32_at buf 8))
      else let blobLen = u32_at buf 12; tbl = mp_headerLen + blobLen
           in if ref_size ref < tbl + headerLen then Inl (BlobTooLong blobLen)
              else if length buf < tbl + headerLen then
                Inr (tbl + headerLen + (unat (ix_Entries ref) + DefaultStride - 1) div DefaultStride * mp_KeyLen)
              else case SampleExtent (drop tbl buf) of
                     Inl e \<Rightarrow> Inl (BadTable e)
                   | Inr extent \<Rightarrow>
                       (if ref_size ref < tbl + extent then Inl (SamplesTooLong extent) else Inr (tbl + extent)))"

definition adopt :: "bytes \<Rightarrow> reader \<Rightarrow> reader_error + reader" where
  "adopt prefix r =
     (let blobLen = u32_at prefix 12; tbl = mp_headerLen + blobLen
      in case ParseHeader (drop tbl prefix) of
           Inl e \<Rightarrow> Inl (BadTable e)
         | Inr hdr \<Rightarrow>
             (if KeyLen hdr \<noteq> mp_KeyLen \<or> RecordLen hdr \<noteq> mp_recordLen then Inl (EntryShape (KeyLen hdr) (RecordLen hdr))
              else if maxWindowBytes < Stride hdr * entryLen hdr then Inl (WideStride (Stride hdr))
              else if ref_size (rd_ref r) < tbl + SampleBytes hdr + Count hdr * entryLen hdr then Inl (TooManyEntries (Count hdr))
              else Inr (r\<lparr>rd_blob := ext prefix mp_headerLen blobLen, rd_hdr := Some hdr, rd_tbl := tbl\<rparr>)))"

text \<open>The loop of \<open>loadPrefix\<close>, with the attempts left.\<close>

fun loadPrefix :: "store_answers \<Rightarrow> nat \<Rightarrow> nat \<Rightarrow> reader \<Rightarrow> request list \<Rightarrow> (reader_error + reader) \<times> request list" where
  "loadPrefix srv 0 want r log = (Inl NotSettled, log)"
| "loadPrefix srv (Suc attempts) want r log =
     (let want' = min want (ref_size (rd_ref r)); (res, log') = get_range srv 0 want' log
      in case res of
           Inl e \<Rightarrow> (Inl e, log')
         | Inr buf \<Rightarrow>
             (case prefixExtent (rd_ref r) buf of
                Inl e \<Rightarrow> (Inl e, log')
              | Inr need \<Rightarrow>
                  (if need \<le> length buf then (adopt (take need buf) r, log')
                   else if want' = ref_size (rd_ref r) then (Inl (ShortObject need), log')
                   else loadPrefix srv attempts need r log')))"

definition loadLocked :: "(bytes \<Rightarrow> bytes) \<Rightarrow> store_answers \<Rightarrow> reader \<Rightarrow> request list \<Rightarrow> (reader_error + reader) \<times> request list" where
  "loadLocked hash srv r log =
     (if sint (ix_Size (rd_ref r)) \<le> 0 then (Inl ErrNoSize, log)
      else if ref_size (rd_ref r) \<le> wholeFetchMax then
        (case mp_Fetch hash srv (rd_ref r) log of
           (Inl e, log') \<Rightarrow> (Inl e, log')
         | (Inr ix, log') \<Rightarrow> (Inr (r\<lparr>rd_whole := Some ix, rd_blob := ix_blob ix\<rparr>), log'))
      else loadPrefix srv 3 prefixProbe r log)"

definition caller_gave_up :: "reader_error \<Rightarrow> bool" where
  "caller_gave_up e \<longleftrightarrow> (case e of ReadFailed c \<Rightarrow> c | _ \<Rightarrow> False)"

definition load :: "(bytes \<Rightarrow> bytes) \<Rightarrow> store_answers \<Rightarrow> bool \<Rightarrow> reader \<Rightarrow> request list \<Rightarrow> reader_error option \<times> reader \<times> request list" where
  "load hash srv ctxErr r log =
     (if rd_loaded r then (None, r, log)
      else case (case rd_err r of Some e \<Rightarrow> if \<not> ctxErr \<and> \<not> caller_gave_up e then Some e else None | None \<Rightarrow> None) of
             Some e \<Rightarrow> (Some e, r, log)
           | None \<Rightarrow>
               (case loadLocked hash srv r log of
                  (Inl e, log') \<Rightarrow> (Some e, r\<lparr>rd_err := Some e\<rparr>, log')
                | (Inr r', log') \<Rightarrow> (None, r'\<lparr>rd_loaded := True, rd_err := None\<rparr>, log')))"

definition rd_Lookup :: "(bytes \<Rightarrow> bytes) \<Rightarrow> store_answers \<Rightarrow> bool \<Rightarrow> reader \<Rightarrow> bytes \<Rightarrow> request list \<Rightarrow>
    string list option \<times> reader \<times> request list" where
  "rd_Lookup hash srv ctxErr r0 ident log0 =
     (case load hash srv ctxErr r0 log0 of
        (Some e, r, log) \<Rightarrow> (None, r, log)
      | (None, r, log) \<Rightarrow>
          (case rd_whole r of
             Some ix \<Rightarrow> (mp_Lookup ix ident, r, log)
           | None \<Rightarrow>
               (case rd_hdr r of
                  None \<Rightarrow> (None, r, log)
                | Some h \<Rightarrow>
                    (case Window h (take mp_KeyLen ident) of
                       None \<Rightarrow> (None, r, log)
                     | Some (off, len) \<Rightarrow>
                         (if len = 0 \<or> maxWindowBytes < len then (None, r, log)
                          else case get_range srv (rd_tbl r + off) len log of
                                 (Inl e, log') \<Rightarrow> (None, r, log')
                               | (Inr window, log') \<Rightarrow>
                                   (if length window < len then (None, r, log')
                                    else case LookupWindow h window (take mp_KeyLen ident) of
                                           None \<Rightarrow> (None, r, log')
                                         | Some v \<Rightarrow> (names (rd_blob r) (le_val (take 4 v)), r, log')))))))"

text \<open>The walk of \<open>PackNames\<close> over the strings blob.\<close>

function blob_names :: "bytes \<Rightarrow> nat \<Rightarrow> string list" where
  "blob_names blob off =
     (if length blob < off + 2 then []
      else let n = u16_at blob off
           in if length blob < off + 2 + n then []
              else splitNames (bytes_str (ext blob (off + 2) n)) @ blob_names blob (off + 2 + n))"
  by pat_completeness auto
termination
  by (relation "measure (\<lambda>(blob, off). length blob + 2 - off)") auto

declare blob_names.simps [simp del]

definition PackNames :: "(bytes \<Rightarrow> bytes) \<Rightarrow> store_answers \<Rightarrow> bool \<Rightarrow> reader \<Rightarrow> request list \<Rightarrow>
    string list option \<times> reader \<times> request list" where
  "PackNames hash srv ctxErr r0 log0 =
     (case load hash srv ctxErr r0 log0 of
        (Some e, r, log) \<Rightarrow> (None, r, log)
      | (None, r, log) \<Rightarrow> (Some (rev (remdups (rev (blob_names (rd_blob r) 0)))), r, log))"

section \<open>A generation's indexes as one\<close>

definition NewHints :: "index_ref list \<Rightarrow> reader list option" where
  "NewHints refs = (if refs = [] then None else Some (map OpenReader refs))"

text \<open>The readers after the one at hand are newer; the walk is from the last, and stops at a hit.\<close>

fun hints_walk :: "(bytes \<Rightarrow> bytes) \<Rightarrow> (string \<Rightarrow> store_answers) \<Rightarrow> bool \<Rightarrow> reader list \<Rightarrow> bytes \<Rightarrow> string list option \<times> reader list" where
  "hints_walk hash srv ctxErr [] ident = (None, [])"
| "hints_walk hash srv ctxErr (r # rs) ident =
     (case rd_Lookup hash (srv (ix_Name (rd_ref r))) ctxErr r ident [] of
        (Some ps, r', log) \<Rightarrow> (Some ps, r' # rs)
      | (None, r', log) \<Rightarrow> (case hints_walk hash srv ctxErr rs ident of (res, rs') \<Rightarrow> (res, r' # rs')))"

definition hints_Lookup :: "(bytes \<Rightarrow> bytes) \<Rightarrow> (string \<Rightarrow> store_answers) \<Rightarrow> bool \<Rightarrow> reader list option \<Rightarrow> bytes \<Rightarrow>
    string list option \<times> reader list option" where
  "hints_Lookup hash srv ctxErr h ident =
     (case h of
        None \<Rightarrow> (None, None)
      | Some rs \<Rightarrow> (case hints_walk hash srv ctxErr (rev rs) ident of (res, rs') \<Rightarrow> (res, Some (rev rs'))))"

section \<open>Facts\<close>

lemma ParseHeader_take:
  assumes "ParseHeader b = Inr h" "hbase h \<le> n"
  shows "ParseHeader (take n b) = Inr h"
proof -
  have p: "headerLen \<le> length b" "take 8 b = ix_magic" "u16_at b 8 \<noteq> 0" "u32_at b 16 \<noteq> 0"
    "headerLen + u32_at b 20 * u16_at b 8 \<le> length b" "hbase h = headerLen + u32_at b 20 * u16_at b 8"
    using assms(1) by (auto simp: ParseHeader_def Let_def split: if_splits)
  have n: "32 \<le> n" using assms(2) p(6) by (simp add: headerLen_def)
  have f: "take 8 (take n b) = take 8 b" "u16_at (take n b) 8 = u16_at b 8" "u16_at (take n b) 10 = u16_at b 10"
    "u32_at (take n b) 12 = u32_at b 12" "u32_at (take n b) 16 = u32_at b 16" "u32_at (take n b) 20 = u32_at b 20"
    using n by (simp_all add: u16_at_def u32_at_def min_def take_drop [symmetric] drop_take)
  have e: "ext (take n b) headerLen (u32_at b 20 * u16_at b 8) = ext b headerLen (u32_at b 20 * u16_at b 8)"
    using assms(2) p(6) by (simp add: drop_take min_def)
  show ?thesis
    using assms p n unfolding ParseHeader_def Let_def f e by (auto simp: headerLen_def)
qed

lemma SampleExtent_take:
  assumes "ParseHeader b = Inr h" "headerLen \<le> n"
  shows "SampleExtent (take n b) = Inr (hbase h)"
proof -
  have p: "headerLen \<le> length b" "take 8 b = ix_magic" "u16_at b 8 \<noteq> 0" "hbase h = headerLen + u32_at b 20 * u16_at b 8"
    using assms(1) by (auto simp: ParseHeader_def Let_def split: if_splits)
  have f: "take 8 (take n b) = take 8 b" "u16_at (take n b) 8 = u16_at b 8" "u32_at (take n b) 20 = u32_at b 20"
    using assms(2) by (simp_all add: u16_at_def u32_at_def headerLen_def min_def drop_take)
  show ?thesis
    using p assms(2) unfolding SampleExtent_def f by (simp add: min_def)
qed

text \<open>What a loaded reader knows of its table, and which requests stay inside the object.\<close>

definition rd_ok :: "reader \<Rightarrow> bool" where
  "rd_ok r \<longleftrightarrow> (rd_loaded r \<longrightarrow> rd_whole r = None \<longrightarrow>
     (\<exists>h. rd_hdr r = Some h \<and> header_ok h \<and> Stride h * entryLen h \<le> maxWindowBytes \<and>
       rd_tbl r + hbase h + Count h * entryLen h \<le> ref_size (rd_ref r)))"

fun in_object :: "index_ref \<Rightarrow> request \<Rightarrow> bool" where
  "in_object ref WholeObject = (ref_size ref \<le> wholeFetchMax)"
| "in_object ref (Range off len) = (off + len \<le> ref_size ref)"

lemma adopt_ok:
  assumes "adopt prefix r = Inr r'"
  shows "rd_ok (r'\<lparr>rd_loaded := True, rd_err := None\<rparr>)" "rd_ref r' = rd_ref r" "rd_whole r' = rd_whole r"
proof -
  obtain h where h: "ParseHeader (drop (mp_headerLen + u32_at prefix 12) prefix) = Inr h"
    using assms by (auto simp: adopt_def Let_def split: sum.splits)
  let ?tbl = "mp_headerLen + u32_at prefix 12"
  have c: "Stride h * entryLen h \<le> maxWindowBytes" "?tbl + hbase h + Count h * entryLen h \<le> ref_size (rd_ref r)"
    and r': "r' = r\<lparr>rd_blob := ext prefix mp_headerLen (u32_at prefix 12), rd_hdr := Some h, rd_tbl := ?tbl\<rparr>"
    using assms unfolding adopt_def Let_def h sum.case SampleBytes_def not_less [symmetric]
    by (metis Inl_Inr_False sum.inject(2))+
  show "rd_ok (r'\<lparr>rd_loaded := True, rd_err := None\<rparr>)"
    using c ParseHeader_ok(1) [OF h] unfolding r' rd_ok_def by (intro impI exI [of _ h]) simp
  show "rd_ref r' = rd_ref r" "rd_whole r' = rd_whole r" unfolding r' by simp_all
qed

definition loads_ok :: "index_ref \<Rightarrow> reader_error + reader \<Rightarrow> bool" where
  "loads_ok ref res \<longleftrightarrow>
     (case res of Inl e \<Rightarrow> True | Inr r' \<Rightarrow> rd_ok (r'\<lparr>rd_loaded := True, rd_err := None\<rparr>) \<and> rd_ref r' = ref)"

lemma loads_ok_simps [simp]: "loads_ok ref (Inl e)"
  "loads_ok ref (Inr r') \<longleftrightarrow> rd_ok (r'\<lparr>rd_loaded := True, rd_err := None\<rparr>) \<and> rd_ref r' = ref"
  by (simp_all add: loads_ok_def)

lemma loads_ok_adopt: "loads_ok (rd_ref r) (adopt prefix r)"
  using adopt_ok by (cases "adopt prefix r") auto

lemma loadPrefix_requests:
  assumes "loadPrefix srv n want r log = (res, log')"
  shows "\<exists>reqs. log' = log @ reqs \<and> length reqs \<le> n \<and> list_all (in_object (rd_ref r)) reqs \<and>
    loads_ok (rd_ref r) res"
  using assms
proof (induction n arbitrary: want log)
  case (Suc n)
  let ?want = "min want (ref_size (rd_ref r))" and ?log = "log @ [Range 0 (min want (ref_size (rd_ref r)))]"
  have here: "list_all (in_object (rd_ref r)) [Range 0 ?want]" by simp
  show ?case
  proof (cases "get_range srv 0 ?want log")
    case (Pair got log1)
    then have log1: "log1 = ?log" by (simp add: get_range_def)
    have stop: ?thesis if "log' = ?log" "loads_ok (rd_ref r) res"
      using that here by (intro exI [of _ "[Range 0 ?want]"]) simp
    note eq = Suc.prems [unfolded loadPrefix.simps Let_def Pair log1 prod.case]
    show ?thesis
    proof (cases got)
      case (Inl e)
      with eq show ?thesis by (intro stop) auto
    next
      case (Inr buf)
      show ?thesis
      proof (cases "prefixExtent (rd_ref r) buf")
        case (Inl e)
        with eq Inr show ?thesis by (intro stop) auto
      next
        case need: (Inr need)
        show ?thesis
        proof (cases "need \<le> length buf")
          case True
          with eq Inr need have "res = adopt (take need buf) r" "log' = ?log" by auto
          then show ?thesis using loads_ok_adopt by (intro stop) auto
        next
          case False
          show ?thesis
          proof (cases "?want = ref_size (rd_ref r)")
            case True
            with eq Inr need False show ?thesis by (intro stop) auto
          next
            case more: False
            have "loadPrefix srv n need r ?log = (res, log')"
              using eq more False unfolding Inr need sum.case by (simp only: if_False)
            from Suc.IH [OF this] obtain reqs where reqs: "log' = ?log @ reqs" "length reqs \<le> n"
              "list_all (in_object (rd_ref r)) reqs"
              "loads_ok (rd_ref r) res"
              by blast
            then show ?thesis using here by (intro exI [of _ "Range 0 ?want # reqs"]) simp
          qed
        qed
      qed
    qed
  qed
qed auto

lemma loadLocked_requests:
  assumes "loadLocked hash srv r log = (res, log')"
  shows "\<exists>reqs. log' = log @ reqs \<and> length reqs \<le> 3 \<and> list_all (in_object (rd_ref r)) reqs \<and>
    loads_ok (rd_ref r) res"
proof (cases "sint (ix_Size (rd_ref r)) \<le> 0")
  case True
  then show ?thesis using assms by (auto simp: loadLocked_def)
next
  case pos: False
  show ?thesis
  proof (cases "ref_size (rd_ref r) \<le> wholeFetchMax")
    case True
    obtain got where f: "mp_Fetch hash srv (rd_ref r) log = (got, log @ [WholeObject])" by (simp add: mp_Fetch_def)
    then have "log' = log @ [WholeObject]" "res = (case got of Inl e \<Rightarrow> Inl e
        | Inr ix \<Rightarrow> Inr (r\<lparr>rd_whole := Some ix, rd_blob := ix_blob ix\<rparr>))"
      using assms pos True by (auto simp: loadLocked_def split: sum.splits)
    then show ?thesis
      using True by (intro exI [of _ "[WholeObject]"]) (auto simp: rd_ok_def split: sum.splits)
  next
    case False
    with assms pos have "loadPrefix srv 3 prefixProbe r log = (res, log')" by (simp add: loadLocked_def)
    then show ?thesis by (rule loadPrefix_requests)
  qed
qed

lemma load_requests:
  assumes "load hash srv ctxErr r log = (e, r', log')" "rd_ok r"
  shows "\<exists>reqs. log' = log @ reqs \<and> length reqs \<le> 3 \<and> (rd_loaded r \<longrightarrow> reqs = []) \<and>
    list_all (in_object (rd_ref r)) reqs \<and> rd_ok r' \<and> rd_ref r' = rd_ref r \<and> (e = None \<longrightarrow> rd_loaded r')"
proof (cases "rd_loaded r")
  case True
  then show ?thesis using assms by (simp add: load_def)
next
  case fresh: False
  show ?thesis
  proof (cases "(case rd_err r of Some e \<Rightarrow> if \<not> ctxErr \<and> \<not> caller_gave_up e then Some e else None | None \<Rightarrow> None)")
    case (Some e')
    then have "e = Some e'" "r' = r" "log' = log" using assms(1) fresh by (simp_all add: load_def)
    then show ?thesis using assms(2) fresh by simp
  next
    case None
    obtain res log1 where l: "loadLocked hash srv r log = (res, log1)" by force
    from loadLocked_requests [OF l] obtain reqs where reqs: "log1 = log @ reqs" "length reqs \<le> 3"
      "list_all (in_object (rd_ref r)) reqs"
      "loads_ok (rd_ref r) res"
      by blast
    have err: "rd_ok (r\<lparr>rd_err := Some e'\<rparr>)" for e' using fresh by (simp add: rd_ok_def)
    have eq: "(e, r', log') = (case res of Inl e \<Rightarrow> (Some e, r\<lparr>rd_err := Some e\<rparr>, log1)
        | Inr r' \<Rightarrow> (None, r'\<lparr>rd_loaded := True, rd_err := None\<rparr>, log1))"
      using assms(1) fresh None l by (simp add: load_def)
    show ?thesis
    proof (cases res)
      case (Inl e')
      then show ?thesis using eq reqs fresh err by (intro exI [of _ reqs]) simp
    next
      case (Inr r1)
      then show ?thesis using eq reqs fresh by (intro exI [of _ reqs]) simp
    qed
  qed
qed

section \<open>An honest store\<close>

definition honest :: "store_answers \<Rightarrow> bytes \<Rightarrow> bool" where
  "honest srv b \<longleftrightarrow> (\<forall>log off len. srv log (Range off len) = Inr (ext b off len)) \<and> (\<forall>log. srv log WholeObject = Inr b)"

text \<open>An index as the writers lay it out: the head with the blob, then a sorted table.\<close>

definition index_object :: "bytes \<Rightarrow> nat \<Rightarrow> bytes list \<Rightarrow> bytes" where
  "index_object blob st recs = mp_head blob @ encodeRecords 12 4 st recs"

definition index_written :: "bytes \<Rightarrow> nat \<Rightarrow> bytes list \<Rightarrow> bool" where
  "index_written blob st recs \<longleftrightarrow> length blob < 2 ^ 32 \<and> shape_ok 12 4 st recs \<and> strict_keys (take 12) recs \<and>
     st * 16 \<le> maxWindowBytes"

lemma length_mp_head [simp]: "length (mp_head blob) = 32 + length blob"
  by (simp add: mp_head_def mp_magic_def)

lemma honest_range: "honest srv b \<Longrightarrow> get_range srv off len log = (Inr (ext b off len), log @ [Range off len])"
  by (simp add: honest_def get_range_def)

lemma mp_head_fields:
  assumes "length blob < 2 ^ 32"
  shows "take 8 (mp_head blob) = str_bytes mp_magic" "u32_at (mp_head blob) 8 = 1" "u32_at (mp_head blob) 12 = length blob"
    "drop 32 (mp_head blob) = blob"
  using assms by (simp_all add: mp_head_def mp_magic_def u32_at_def)

lemma u32_at_take_append: "off + 4 \<le> n \<Longrightarrow> off + 4 \<le> length a \<Longrightarrow> u32_at (take n (a @ c)) off = u32_at a off"
  by (simp add: u32_at_def drop_take min_def)

lemma index_object_fields:
  assumes "length blob < 2 ^ 32" "32 \<le> n"
  shows "take 8 (take n (mp_head blob @ tb)) = str_bytes mp_magic" "u32_at (take n (mp_head blob @ tb)) 8 = 1"
    "u32_at (take n (mp_head blob @ tb)) 12 = length blob"
    "drop (32 + length blob) (take n (mp_head blob @ tb)) = take (n - (32 + length blob)) tb"
    "32 + length blob \<le> n \<Longrightarrow> ext (take n (mp_head blob @ tb)) 32 (length blob) = blob"
proof -
  note f = mp_head_fields [OF assms(1)]
  have "take 8 (take n (mp_head blob @ tb)) = take 8 (mp_head blob)" using assms(2) by (simp add: min_def)
  then show "take 8 (take n (mp_head blob @ tb)) = str_bytes mp_magic" using f(1) by simp
  show "u32_at (take n (mp_head blob @ tb)) 8 = 1" "u32_at (take n (mp_head blob @ tb)) 12 = length blob"
    using assms(2) f by (simp_all add: u32_at_take_append del: take_append)
  show "drop (32 + length blob) (take n (mp_head blob @ tb)) = take (n - (32 + length blob)) tb"
    by (simp add: drop_take del: take_append)
  show "32 + length blob \<le> n \<Longrightarrow> ext (take n (mp_head blob @ tb)) 32 (length blob) = blob"
    using f(4) by (simp add: drop_take del: take_append) simp
qed

lemma index_written_parts:
  assumes "index_written blob st recs"
  shows "length blob < 2 ^ 32" "shape_ok 12 4 st recs" "strict_keys (take 12) recs" "st * 16 \<le> maxWindowBytes"
  using assms by (simp_all add: index_written_def)

abbreviation index_header :: "nat \<Rightarrow> bytes list \<Rightarrow> header" where
  "index_header st recs \<equiv> enc_header 12 4 st recs"

lemma index_header_fields:
  "KeyLen (index_header st recs) = 12" "RecordLen (index_header st recs) = 4" "entryLen (index_header st recs) = 16"
  "Stride (index_header st recs) = st" "Count (index_header st recs) = length recs" "32 \<le> hbase (index_header st recs)"
  by (simp_all add: enc_header_def entryLen_def)

lemma index_table_length:
  assumes "index_written blob st recs"
  shows "length (encodeRecords 12 4 st recs) = hbase (index_header st recs) + length recs * 16"
proof -
  note w = index_written_parts(2) [OF assms]
  have "length (concat (sample_keys 12 st recs)) = sampleCount (length recs) st * 12"
    "length (concat recs) = length recs * 16"
    using sample_keys_uniform [OF w] length_sample_keys [OF w] w by (simp_all add: shape_ok_def)
  then show ?thesis by (simp add: encodeRecords_def enc_header_def length_putHeader)
qed

lemma index_object_length:
  "index_written blob st recs \<Longrightarrow>
    length (index_object blob st recs) = 32 + length blob + hbase (index_header st recs) + length recs * 16"
  by (simp add: index_object_def index_table_length)

lemma prefixExtent_written:
  assumes "index_written blob st recs" "32 \<le> n" "n \<le> ref_size ref"
    and "ref_size ref = length (index_object blob st recs)"
  defines "need \<equiv> 32 + length blob + hbase (index_header st recs)"
  shows "prefixExtent ref (take n (index_object blob st recs)) =
    Inr (if n < 64 + length blob
         then 64 + length blob + (unat (ix_Entries ref) + DefaultStride - 1) div DefaultStride * 12
         else need)"
proof -
  note w = index_written_parts [OF assms(1)]
  let ?b = "index_object blob st recs" and ?tb = "encodeRecords 12 4 st recs"
  note f = index_object_fields [OF w(1) assms(2), of ?tb, folded index_object_def]
  note hl = index_object_length [OF assms(1)] index_header_fields(6) [of st recs]
  have len: "length (take n ?b) = n" using assms(3,4) by simp
  have ext: "SampleExtent (take (n - (32 + length blob)) ?tb) = Inr (hbase (index_header st recs))" if "64 + length blob \<le> n"
    using SampleExtent_take [OF ParseHeader_encoded [OF w(2)]] that by (simp add: headerLen_def)
  have big: "\<not> ref_size ref < 32 + length blob + headerLen" "\<not> ref_size ref < need"
    using hl assms(4) by (simp_all add: headerLen_def need_def)
  show ?thesis
    using assms(2) ext big
    unfolding prefixExtent_def mp_headerLen_def Let_def len f(1-4) mp_KeyLen_def
    by (auto simp: headerLen_def need_def)
qed

lemma adopt_written:
  assumes "index_written blob st recs" "ref_size (rd_ref r) = length (index_object blob st recs)"
  defines "need \<equiv> 32 + length blob + hbase (index_header st recs)"
  shows "adopt (take need (index_object blob st recs)) r =
    Inr (r\<lparr>rd_blob := blob, rd_hdr := Some (index_header st recs), rd_tbl := 32 + length blob\<rparr>)"
proof -
  note w = index_written_parts [OF assms(1)]
  let ?b = "index_object blob st recs" and ?tb = "encodeRecords 12 4 st recs" and ?h = "index_header st recs"
  note hf = index_header_fields [of st recs]
  have n: "32 \<le> need" "32 + length blob \<le> need" by (simp_all add: need_def)
  note f = index_object_fields [OF w(1) n(1), of ?tb, folded index_object_def]
  have ph: "ParseHeader (take (need - (32 + length blob)) ?tb) = Inr ?h"
    by (rule ParseHeader_take [OF ParseHeader_encoded [OF w(2)]]) (simp add: need_def)
  have c: "\<not> maxWindowBytes < st * 16" "\<not> ref_size (rd_ref r) < 32 + length blob + hbase ?h + length recs * 16"
    using w(4) assms(2) index_object_length [OF assms(1)] by simp_all
  show ?thesis
    unfolding adopt_def mp_headerLen_def Let_def f(3,4) f(5) [OF n(2)] ph sum.case hf SampleBytes_def
      mp_KeyLen_def mp_recordLen_def
    using c by (simp only: if_False simp_thms)
qed

definition adopted :: "bytes \<Rightarrow> nat \<Rightarrow> bytes list \<Rightarrow> reader \<Rightarrow> reader" where
  "adopted blob st recs r = r\<lparr>rd_blob := blob, rd_hdr := Some (index_header st recs), rd_tbl := 32 + length blob\<rparr>"

text \<open>Asking for at least the table header settles in two attempts, whatever count the reference states.\<close>

lemma loadPrefix_settles:
  assumes "index_written blob st recs" "honest srv (index_object blob st recs)"
    and size: "ref_size (rd_ref r) = length (index_object blob st recs)"
    and want: "64 + length blob \<le> want"
  defines "need \<equiv> 32 + length blob + hbase (index_header st recs)"
  assumes k: "0 < k" "need \<le> want \<or> 1 < k"
  shows "\<exists>log'. loadPrefix srv k want r log = (Inr (adopted blob st recs r), log')"
  using want k
proof (induction k arbitrary: want log)
  case (Suc k)
  let ?b = "index_object blob st recs" and ?want = "min want (ref_size (rd_ref r))"
  note hl = index_object_length [OF assms(1)] index_header_fields(6) [of st recs]
  have w: "64 + length blob \<le> ?want" "?want \<le> ref_size (rd_ref r)" "need \<le> ref_size (rd_ref r)"
    using Suc.prems(1) hl size by (simp_all add: need_def)
  have pe: "prefixExtent (rd_ref r) (take ?want ?b) = Inr need"
    using prefixExtent_written [OF assms(1) _ w(2) size] w(1) by (simp add: need_def)
  have get: "get_range srv 0 ?want log = (Inr (take ?want ?b), log @ [Range 0 ?want])"
    using honest_range [OF assms(2), of 0 ?want log] by simp
  have len: "length (take ?want ?b) = ?want" using size by simp
  note step = loadPrefix.simps(2) [of srv k want r log, unfolded Let_def get prod.case sum.case pe len]
  show ?case
  proof (cases "need \<le> ?want")
    case True
    have "take need (take ?want ?b) = take need ?b" using True by (simp add: min_def)
    then have "adopt (take need (take ?want ?b)) r = Inr (adopted blob st recs r)"
      using adopt_written [OF assms(1) size] by (simp add: need_def adopted_def)
    then show ?thesis using step True by simp
  next
    case False
    then have ne: "?want \<noteq> ref_size (rd_ref r)" "\<not> need \<le> want" using w(3) by auto
    then have "0 < k" using Suc.prems(3) by simp
    moreover have "64 + length blob \<le> need" using hl(2) by (simp add: need_def)
    ultimately have "\<exists>log'. loadPrefix srv k need r (log @ [Range 0 ?want]) = (Inr (adopted blob st recs r), log')"
      by (intro Suc.IH) auto
    then show ?thesis using step False ne(1) by simp
  qed
qed simp

lemma loadPrefix_written:
  assumes "index_written blob st recs" "honest srv (index_object blob st recs)"
    and size: "ref_size (rd_ref r) = length (index_object blob st recs)" "wholeFetchMax < ref_size (rd_ref r)"
  shows "\<exists>log'. loadPrefix srv 3 prefixProbe r log = (Inr (adopted blob st recs r), log')"
proof (cases "64 + length blob \<le> prefixProbe")
  case True
  then show ?thesis by (intro loadPrefix_settles [OF assms(1,2) size(1)]) simp_all
next
  case False
  let ?b = "index_object blob st recs"
  let ?need = "64 + length blob + (unat (ix_Entries (rd_ref r)) + DefaultStride - 1) div DefaultStride * 12"
  have p: "min prefixProbe (ref_size (rd_ref r)) = prefixProbe" "prefixProbe \<noteq> ref_size (rd_ref r)" "32 \<le> prefixProbe"
    "prefixProbe \<le> ref_size (rd_ref r)"
    using size(2) by (simp_all add: prefixProbe_def wholeFetchMax_def)
  have get: "get_range srv 0 prefixProbe log = (Inr (take prefixProbe ?b), log @ [Range 0 prefixProbe])"
    using honest_range [OF assms(2), of 0 prefixProbe log] by simp
  have pe: "prefixExtent (rd_ref r) (take prefixProbe ?b) = Inr ?need"
    using prefixExtent_written [OF assms(1) p(3,4) size(1)] False by simp
  have len: "length (take prefixProbe ?b) = prefixProbe" using size(1) p(4) by simp
  have more: "\<not> ?need \<le> prefixProbe" using False by simp
  have "loadPrefix srv (Suc 2) prefixProbe r log = loadPrefix srv 2 ?need r (log @ [Range 0 prefixProbe])"
    unfolding loadPrefix.simps(2) Let_def p(1) get prod.case sum.case pe len
    using more p(2) by (simp only: if_False)
  moreover have "\<exists>log'. loadPrefix srv 2 ?need r (log @ [Range 0 prefixProbe]) = (Inr (adopted blob st recs r), log')"
    by (intro loadPrefix_settles [OF assms(1,2) size(1)]) simp_all
  ultimately show ?thesis by (simp add: numeral_3_eq_3 numeral_2_eq_2)
qed

lemma window_lookup_written:
  assumes "index_written blob st recs" "length key = 12"
    and "Window (index_header st recs) key = Some (off, len)"
  shows "0 < len \<and> len \<le> maxWindowBytes \<and> off + len \<le> length (encodeRecords 12 4 st recs)"
proof -
  have "header_ok (index_header st recs)"
    using ParseHeader_ok(1) [OF ParseHeader_encoded [OF index_written_parts(2) [OF assms(1)]]] .
  from Window_bounds [OF this assms(3)] show ?thesis
    using index_written_parts(4) [OF assms(1)] index_table_length [OF assms(1)]
    by (simp add: index_header_fields)
qed

section \<open>Properties\<close>

text \<open>
  C13: A hostile index cannot make a reader ask for much. Whatever the store answers, a lookup
  makes at most three requests to load the index and one for its window, a loaded reader at
  most one; no range leaves the object whose size the superblock signed, and the object is
  taken whole only when it is small.
\<close>

theorem reader_requests_stay_in_object:
  assumes "rd_ok r" "rd_Lookup hash srv ctxErr r ident log = (res, r', log')"
  shows "rd_ok r' \<and> rd_ref r' = rd_ref r \<and>
    (\<exists>reqs. log' = log @ reqs \<and> length reqs \<le> (if rd_loaded r then 1 else 4) \<and> list_all (in_object (rd_ref r)) reqs)"
proof -
  obtain e r1 log1 where l: "load hash srv ctxErr r log = (e, r1, log1)" by (metis prod_cases3)
  from load_requests [OF l assms(1)] obtain reqs where reqs: "log1 = log @ reqs" "length reqs \<le> 3"
    "rd_loaded r \<longrightarrow> reqs = []" "list_all (in_object (rd_ref r)) reqs" "rd_ok r1" "rd_ref r1 = rd_ref r"
    "e = None \<longrightarrow> rd_loaded r1" by blast
  have quiet: ?thesis if "r' = r1" "log' = log1"
    using that reqs by (intro conjI exI [of _ reqs]) auto
  note eq = assms(2) [unfolded rd_Lookup_def l prod.case]
  show ?thesis
  proof (cases "e \<noteq> None \<or> rd_whole r1 \<noteq> None")
    case True
    with eq show ?thesis by (intro quiet) (auto split: option.splits)
  next
    case False
    then have none: "e = None" "rd_whole r1 = None" by auto
    with reqs obtain h where h: "rd_hdr r1 = Some h" "header_ok h"
      "rd_tbl r1 + hbase h + Count h * entryLen h \<le> ref_size (rd_ref r1)"
      unfolding rd_ok_def by blast
    show ?thesis
    proof (cases "Window h (take mp_KeyLen ident)")
      case None
      with eq none h(1) show ?thesis by (intro quiet) auto
    next
      case (Some w)
      obtain off len where w: "w = (off, len)" by (cases w)
      note win = Window_bounds [OF h(2), of "take mp_KeyLen ident" off len] Some w
      show ?thesis
      proof (cases "len = 0 \<or> maxWindowBytes < len")
        case True
        with eq none h(1) Some w show ?thesis by (intro quiet) auto
      next
        case len: False
        have "in_object (rd_ref r) (Range (rd_tbl r1 + off) len)"
          using win h(3) reqs(6) by simp
        moreover have "r' = r1" "log' = log1 @ [Range (rd_tbl r1 + off) len]"
          using eq none h(1) Some w len
          by (auto simp: get_range_def split: sum.splits if_splits option.splits)
        ultimately show ?thesis
          using reqs by (intro conjI exI [of _ "reqs @ [Range (rd_tbl r1 + off) len]"]) auto
      qed
    qed
  qed
qed

text \<open>
  C12: Reading an index in windows answers as holding it whole. For an index as the writers lay
  it out, a store that returns the bytes asked for, and a reference that states the object's
  size and hash but may misstate its entry count, a fresh reader loads and its lookup is the
  lookup in the whole index.
\<close>

theorem reader_agrees_with_whole_index:
  assumes "index_written blob st recs" "b = index_object blob st recs" "honest srv b"
    "hash b = ix_Hash ref" "sint (ix_Size ref) = int (length b)" "mp_Open b = Inr ix" "12 \<le> length ident"
  shows "\<exists>r log. rd_Lookup hash srv ctxErr (OpenReader ref) ident [] = (mp_Lookup ix ident, r, log)"
proof -
  let ?r = "OpenReader ref" and ?tb = "encodeRecords 12 4 st recs" and ?h = "index_header st recs"
  note w = index_written_parts [OF assms(1)]
  have size: "ref_size ref = length b" "\<not> sint (ix_Size ref) \<le> 0"
    using assms(5) index_object_length [OF assms(1)] by (simp_all add: ref_size_def assms(2))
  have open_r: "rd_ref ?r = ref" "\<not> rd_loaded ?r" "rd_err ?r = None" "rd_whole ?r = None"
    by (simp_all add: OpenReader_def)
  show ?thesis
  proof (cases "ref_size ref \<le> wholeFetchMax")
    case True
    have "mp_Fetch hash srv ref [] = (Inr ix, [WholeObject])"
      using assms(3,4,6) by (simp add: mp_Fetch_def honest_def)
    then have "loadLocked hash srv ?r [] = (Inr (?r\<lparr>rd_whole := Some ix, rd_blob := ix_blob ix\<rparr>), [WholeObject])"
      using True size(2) open_r by (simp add: loadLocked_def)
    then show ?thesis using open_r by (simp add: rd_Lookup_def load_def)
  next
    case False
    obtain log where "loadPrefix srv 3 prefixProbe ?r [] = (Inr (adopted blob st recs ?r), log)"
      using loadPrefix_written [OF assms(1) assms(3) [unfolded assms(2)], of ?r "[]"] size(1) False open_r assms(2) by auto
    then have "loadLocked hash srv ?r [] = (Inr (adopted blob st recs ?r), log)"
      using False size(2) open_r by (simp add: loadLocked_def)
    then have l: "load hash srv ctxErr ?r [] = (None, (adopted blob st recs ?r)\<lparr>rd_loaded := True, rd_err := None\<rparr>, log)"
      using open_r by (simp add: load_def)
    let ?r1 = "(adopted blob st recs ?r)\<lparr>rd_loaded := True, rd_err := None\<rparr>"
    have r1: "rd_whole ?r1 = None" "rd_hdr ?r1 = Some ?h" "rd_tbl ?r1 = 32 + length blob" "rd_blob ?r1 = blob"
      using open_r by (simp_all add: adopted_def)
    let ?key = "take mp_KeyLen ident"
    have key: "length ?key = 12" using assms(7) by (simp add: mp_KeyLen_def)
    have ix: "ix = \<lparr>ix_blob = blob, ix_table = \<lparr>t_h = ?h, t_records = concat recs\<rparr>\<rparr>"
      using mp_head_Open [OF w(1) Open_encoded [OF w(2)]] assms(2,6)
      by (simp add: index_object_def index_header_fields)
    have table: "(case Window ?h ?key of None \<Rightarrow> None | Some (off, len) \<Rightarrow> LookupWindow ?h (ext ?tb off len) ?key) =
        Lookup (ix_table ix) ?key"
      using window_lookup_encoded [OF w(2,3) key] Lookup_encoded [OF w(2,3) Open_encoded [OF w(2)], of ?key] ix by simp
    note eq = rd_Lookup_def [of hash srv ctxErr ?r ident "[]", unfolded l prod.case option.case r1]
    show ?thesis
    proof (cases "Window ?h ?key")
      case None
      then have "mp_Lookup ix ident = None" using table by (simp add: mp_Lookup_def)
      then show ?thesis using eq None by simp
    next
      case (Some v)
      obtain off len where v: "v = (off, len)" by (cases v)
      note win = window_lookup_written [OF assms(1) key Some [unfolded v]]
      have "ext b (32 + length blob + off) len = ext ?tb off len"
        by (simp add: assms(2) index_object_def)
      then have get: "get_range srv (32 + length blob + off) len log = (Inr (ext ?tb off len), log @ [Range (32 + length blob + off) len])"
        using honest_range [OF assms(3), of "32 + length blob + off" len log] by simp
      have len: "\<not> (len = 0 \<or> maxWindowBytes < len)" "\<not> length (ext ?tb off len) < len" using win by auto
      have "LookupWindow ?h (ext ?tb off len) ?key = Lookup (ix_table ix) ?key"
        using table Some v by simp
      then show ?thesis
        unfolding eq Some v option.case prod.case get sum.case mp_Lookup_def
        using len ix by (simp split: option.split)
    qed
  qed
qed

section \<open>Witnesses\<close>

text \<open>An index too large to take whole, with one entry, and a reference that misstates its entries.\<close>

definition ex_recs :: "bytes list" where "ex_recs = [replicate 12 1 @ [0, 0, 0, 0]]"
definition ex_blob :: bytes where "ex_blob = replicate 5000000 0"
definition ex_object :: bytes where "ex_object = index_object ex_blob 1 ex_recs"
definition ex_ref :: index_ref where
  "ex_ref = \<lparr>ix_Name = ''i'', ix_Hash = [], ix_Size = 5000092, ix_Entries = 77, ix_Packs = 1\<rparr>"
definition ex_srv :: store_answers where
  "ex_srv log req = (case req of WholeObject \<Rightarrow> Inr ex_object | Range off len \<Rightarrow> Inr (ext ex_object off len))"

lemma ex_written: "index_written ex_blob 1 ex_recs"
  by (simp add: index_written_def shape_ok_def ex_blob_def ex_recs_def maxWindowBytes_def)

lemma ex_length: "length ex_object = 5000092"
  using index_object_length [OF ex_written]
  by (simp add: ex_object_def enc_header_def ex_blob_def ex_recs_def sampleCount_def)

theorem reader_agrees_with_whole_index_witness:
  "\<exists>ix r log. mp_Open ex_object = Inr ix \<and>
     rd_Lookup (\<lambda>_. []) ex_srv False (OpenReader ex_ref) (replicate 32 1) [] = (mp_Lookup ix (replicate 32 1), r, log)"
proof -
  note w = index_written_parts [OF ex_written]
  obtain ix where ix: "mp_Open ex_object = Inr ix"
    using mp_head_Open [OF w(1) Open_encoded [OF w(2)]]
    by (simp add: ex_object_def index_object_def index_header_fields)
  have "honest ex_srv ex_object" by (simp add: honest_def ex_srv_def)
  then have "\<exists>r log. rd_Lookup (\<lambda>_. []) ex_srv False (OpenReader ex_ref) (replicate 32 1) [] = (mp_Lookup ix (replicate 32 1), r, log)"
    by (intro reader_agrees_with_whole_index [OF ex_written ex_object_def _ _ _ ix])
      (simp_all add: ex_ref_def ex_length)
  with ix show ?thesis by blast
qed

theorem reader_requests_stay_in_object_witness:
  "\<exists>res r' log'. rd_Lookup (\<lambda>_. []) (\<lambda>_ _. Inr []) False (OpenReader ex_ref) (replicate 32 1) [] = (res, r', log') \<and>
     list_all (in_object ex_ref) log' \<and> length log' \<le> 4"
proof -
  obtain res r' log' where l: "rd_Lookup (\<lambda>_. []) (\<lambda>_ _. Inr []) False (OpenReader ex_ref) (replicate 32 1) [] = (res, r', log')"
    by (metis prod_cases3)
  have "rd_ok (OpenReader ex_ref)" by (simp add: rd_ok_def OpenReader_def)
  from reader_requests_stay_in_object [OF this l] l show ?thesis
    by (auto simp: OpenReader_def)
qed

end
