(* ===== verification/Condemned_Ledger.thy ===== *)
theory Condemned_Ledger
  imports Superblock "HOL-Library.Multiset"
begin

text \<open>
  The condemned ledgers, \<open>internal/superblock/condemn.go\<close>: which rows a generation carries from its
  parent, which it adds for the names it stopped listing, and the byte budget that evicts the
  oldest. A row's encoded size comes from the CBOR encoder, a parameter \<open>enc\<close>. Times are integers:
  \<open>now\<close> and \<open>grace\<close> in nanoseconds, a row's stamp in seconds, as the code has them; \<open>time.Sub\<close>
  saturates at the limits of a duration.
\<close>

section \<open>Rows, newest first\<close>

datatype ledgerRow = LedgerRow (row_name: string) (row_at: int)

text \<open>The comparison of \<open>capOldestFirst\<close> is a linear order: newest first, ties by name.\<close>

instantiation ledgerRow :: linorder
begin

definition less_ledgerRow :: "ledgerRow \<Rightarrow> ledgerRow \<Rightarrow> bool" where
  "less_ledgerRow ra rb \<longleftrightarrow> (if row_at ra \<noteq> row_at rb then row_at rb < row_at ra else row_name ra < row_name rb)"

definition less_eq_ledgerRow :: "ledgerRow \<Rightarrow> ledgerRow \<Rightarrow> bool" where
  "less_eq_ledgerRow ra rb \<longleftrightarrow> ra < rb \<or> ra = rb"

instance
proof
  fix a b c :: ledgerRow
  show "a < b \<longleftrightarrow> a \<le> b \<and> \<not> b \<le> a"
    by (auto simp: less_eq_ledgerRow_def less_ledgerRow_def)
  show "a \<le> a" by (simp add: less_eq_ledgerRow_def)
  show "a \<le> b \<Longrightarrow> b \<le> c \<Longrightarrow> a \<le> c"
    by (auto simp: less_eq_ledgerRow_def less_ledgerRow_def split: if_splits)
  show "a \<le> b \<Longrightarrow> b \<le> a \<Longrightarrow> a = b"
    by (auto simp: less_eq_ledgerRow_def less_ledgerRow_def split: if_splits)
  show "a \<le> b \<or> b \<le> a"
    by (cases a; cases b) (auto simp: less_eq_ledgerRow_def less_ledgerRow_def)
qed

end

lemma newer_at: "(a :: ledgerRow) \<le> b \<Longrightarrow> row_at b \<le> row_at a"
  by (auto simp: less_eq_ledgerRow_def less_ledgerRow_def split: if_splits)

section \<open>Weights and room\<close>

type_synonym row_encoder = "condemned_row \<Rightarrow> bytes option"

definition CondemnedBudgetBytes :: int where "CondemnedBudgetBytes = 48 * 1024"
definition ledgerHeaderBytes :: int where "ledgerHeaderBytes = 3"

definition rowBytes :: "row_encoder \<Rightarrow> string \<Rightarrow> int \<Rightarrow> int" where
  "rowBytes enc name at = (case enc \<lparr>cn_Name = name, cn_At = at\<rparr> of None \<Rightarrow> 0 | Some b \<Rightarrow> int (length b))"

definition hashNameForSizing :: string where "hashNameForSizing = replicate 64 (CHR ''0'')"

text \<open>Go's division truncates; both operands are positive wherever \<open>div\<close> stands for it.\<close>

definition LedgerWindow :: "row_encoder \<Rightarrow> int \<Rightarrow> int \<Rightarrow> int \<times> int" where
  "LedgerWindow enc grace interval =
     (let row = rowBytes enc hashNameForSizing (2 ^ 31)
      in (if 0 < interval \<and> 0 < grace then grace div interval else 0,
          if 0 < row then (CondemnedBudgetBytes - ledgerHeaderBytes) div row else 0))"

definition unix_seconds :: "int \<Rightarrow> int" where "unix_seconds t = t div 1000000000"

definition CondemnedRowBytes :: "row_encoder \<Rightarrow> string \<Rightarrow> int \<Rightarrow> int" where
  "CondemnedRowBytes enc name at = rowBytes enc name (unix_seconds at)"

definition CondemnedPackRoom :: "row_encoder \<Rightarrow> condemned_row list \<Rightarrow> int" where
  "CondemnedPackRoom enc carried =
     (let n = fold (\<lambda>c n. n + rowBytes enc (cn_Name c) (cn_At c)) carried ledgerHeaderBytes;
          room = CondemnedBudgetBytes - n
      in if 0 < room then room else 0)"

section \<open>Capping\<close>

text \<open>The loop over the sorted indices: it stops at the first row that does not fit.\<close>

fun keep_fitting :: "(nat \<Rightarrow> int) \<Rightarrow> int \<Rightarrow> nat list \<Rightarrow> nat list" where
  "keep_fitting cost used [] = []"
| "keep_fitting cost used (i # idx) =
     (if CondemnedBudgetBytes < used + cost i then [] else i # keep_fitting cost (used + cost i) idx)"

definition capOldestFirst :: "row_encoder \<Rightarrow> ledgerRow list \<Rightarrow> ledgerRow list \<times> nat" where
  "capOldestFirst enc rs =
     (let cost = (\<lambda>i. rowBytes enc (row_name (rs ! i)) (row_at (rs ! i)));
          total = fold (\<lambda>i n. n + cost i) [0..<length rs] ledgerHeaderBytes
      in if total \<le> CondemnedBudgetBytes then (rs, 0)
         else let keep = keep_fitting cost ledgerHeaderBytes (sort_key (\<lambda>i. rs ! i) [0..<length rs]);
                  out = map (\<lambda>i. rs ! i) (filter (\<lambda>i. i \<in> set keep) [0..<length rs])
              in (out, length rs - length out))"

section \<open>Carrying\<close>

definition time_sub :: "int \<Rightarrow> int \<Rightarrow> int" where
  "time_sub t u = max (- (2 ^ 63)) (min (2 ^ 63 - 1) (t - u))"

definition expired :: "int \<Rightarrow> int \<Rightarrow> int \<Rightarrow> bool" where
  "expired now grace at \<longleftrightarrow> grace \<le> time_sub now (at * 1000000000)"

text \<open>The two loops of \<open>carryCondemned\<close> over the growing set of names seen.\<close>

fun carry_prev :: "int \<Rightarrow> int \<Rightarrow> string set \<Rightarrow> ledgerRow list \<Rightarrow> string set \<times> ledgerRow list" where
  "carry_prev now grace seen [] = (seen, [])"
| "carry_prev now grace seen (c # cs) =
     (if row_name c \<in> seen \<or> expired now grace (row_at c) then carry_prev now grace seen cs
      else let (seen', out) = carry_prev now grace (insert (row_name c) seen) cs in (seen', c # out))"

fun carry_dropped :: "int \<Rightarrow> string set \<Rightarrow> string list \<Rightarrow> ledgerRow list" where
  "carry_dropped now seen [] = []"
| "carry_dropped now seen (name # names) =
     (if name = [] \<or> name \<in> seen then carry_dropped now seen names
      else LedgerRow name (unix_seconds now) # carry_dropped now (insert name seen) names)"

definition carryCondemned :: "row_encoder \<Rightarrow> ledgerRow list \<Rightarrow> string list \<Rightarrow> string list \<Rightarrow> int \<Rightarrow> int \<Rightarrow>
    ledgerRow list \<times> nat" where
  "carryCondemned enc prev dropped listed now grace =
     (if prev = [] \<and> dropped = [] then ([], 0)
      else let (seen, out) = carry_prev now grace (set listed) prev
           in capOldestFirst enc (out @ carry_dropped now seen dropped))"

definition CarryCondemnedPacks :: "row_encoder \<Rightarrow> condemned_row list \<Rightarrow> string list \<Rightarrow> string list \<Rightarrow> int \<Rightarrow> int \<Rightarrow>
    condemned_row list \<times> nat" where
  "CarryCondemnedPacks enc prev dropped listed now grace =
     (let (kept, over) = carryCondemned enc (map (\<lambda>c. LedgerRow (cn_Name c) (cn_At c)) prev) dropped listed now grace
      in (map (\<lambda>r. \<lparr>cn_Name = row_name r, cn_At = row_at r\<rparr>) kept, over))"

definition CarryCondemnedRefs :: "row_encoder \<Rightarrow> condemned_row list \<Rightarrow> string list \<Rightarrow> string list \<Rightarrow> int \<Rightarrow> int \<Rightarrow>
    condemned_row list \<times> nat" where
  "CarryCondemnedRefs enc prev dropped listed now grace =
     (let (kept, over) = carryCondemned enc (map (\<lambda>c. LedgerRow (cn_Name c) (cn_At c)) prev) dropped listed now grace
      in (map (\<lambda>r. \<lparr>cn_Name = row_name r, cn_At = row_at r\<rparr>) kept, over))"

section \<open>Facts\<close>

definition weight :: "row_encoder \<Rightarrow> ledgerRow \<Rightarrow> int" where
  "weight enc r = rowBytes enc (row_name r) (row_at r)"

definition ledger_weight :: "row_encoder \<Rightarrow> ledgerRow list \<Rightarrow> int" where
  "ledger_weight enc rs = ledgerHeaderBytes + sum_list (map (weight enc) rs)"

lemma rowBytes_nonneg [simp]: "0 \<le> rowBytes enc name at"
  by (simp add: rowBytes_def split: option.split)

lemma weight_nonneg [simp]: "0 \<le> weight enc r"
  by (simp add: weight_def)

lemma fold_plus_sum: "fold (\<lambda>x n. n + f x) xs (a :: int) = a + sum_list (map f xs)"
  by (induction xs arbitrary: a) simp_all

lemma cap_total: "fold (\<lambda>i n. n + rowBytes enc (row_name (rs ! i)) (row_at (rs ! i))) [0..<length rs] ledgerHeaderBytes =
    ledger_weight enc rs"
proof -
  have "map (\<lambda>i. weight enc (rs ! i)) [0..<length rs] = map (weight enc) rs"
    by (rule nth_equalityI) simp_all
  then show ?thesis
    by (simp add: fold_plus_sum ledger_weight_def weight_def)
qed

lemma cap_fits: "ledger_weight enc rs \<le> CondemnedBudgetBytes \<Longrightarrow> capOldestFirst enc rs = (rs, 0)"
  by (simp add: capOldestFirst_def cap_total Let_def)

text \<open>The loop keeps an index when what comes before it and itself fit together.\<close>

lemma keep_fitting_iff:
  assumes "distinct idx" "i \<in> set idx" "\<And>j. 0 \<le> cost j"
  shows "i \<in> set (keep_fitting cost used idx) \<longleftrightarrow>
    used + sum_list (map cost (takeWhile (\<lambda>j. j \<noteq> i) idx)) + cost i \<le> CondemnedBudgetBytes"
  using assms(1,2)
proof (induction idx arbitrary: used)
  case (Cons j idx)
  have pos: "0 \<le> sum_list (map cost js)" for js by (rule sum_list_nonneg) (auto simp: assms(3))
  show ?case
  proof (cases "j = i")
    case True
    have "i \<notin> set (keep_fitting cost u idx)" for u
      using Cons.prems(1) True by (induction idx arbitrary: u) auto
    then show ?thesis using True by simp
  next
    case False
    then show ?thesis
      using Cons.IH [of "used + cost j"] Cons.prems pos [of "takeWhile (\<lambda>j. j \<noteq> i) idx"] assms(3) [of i]
      by (auto simp: add.assoc)
  qed
qed simp

text \<open>In a strictly sorted list, what comes up to an element is what is not greater.\<close>

lemma up_to_sorted:
  fixes key :: "'b \<Rightarrow> 'a :: linorder"
  assumes "sorted_wrt (<) (map key idx)" "i \<in> set idx"
  shows "takeWhile (\<lambda>j. j \<noteq> i) idx @ [i] = filter (\<lambda>j. key j \<le> key i) idx"
  using assms
proof (induction idx)
  case (Cons j idx)
  show ?case
  proof (cases "j = i")
    case True
    then have "filter (\<lambda>j. key j \<le> key i) idx = []" using Cons.prems(1) by (auto simp: filter_empty_conv)
    then show ?thesis using True by simp
  next
    case False
    then have "key j \<le> key i" using Cons.prems by auto
    then show ?thesis using Cons False by simp
  qed
qed simp

text \<open>
  What the cap keeps, as a condition on each row: the header, the rows newer than it and the
  row itself fit the budget.
\<close>

definition within_budget :: "row_encoder \<Rightarrow> ledgerRow list \<Rightarrow> ledgerRow \<Rightarrow> bool" where
  "within_budget enc rs r \<longleftrightarrow> ledger_weight enc (filter (\<lambda>q. q \<le> r) rs) \<le> CondemnedBudgetBytes"

lemma ledger_weight_filter: "ledger_weight enc (filter P rs) \<le> ledger_weight enc rs"
  by (induction rs) (auto simp: ledger_weight_def add_increasing)

lemma within_budget_fits: "ledger_weight enc (filter (within_budget enc rs) rs) \<le> CondemnedBudgetBytes"
proof (cases "filter (within_budget enc rs) rs = []")
  case True
  show ?thesis by (simp add: True ledger_weight_def ledgerHeaderBytes_def CondemnedBudgetBytes_def)
next
  case False
  define K where "K = set (filter (within_budget enc rs) rs)"
  have K: "finite K" "K \<noteq> {}" using False by (auto simp: K_def filter_empty_conv)
  have oldest: "within_budget enc rs (Max K)" using Max_in [OF K] by (simp add: K_def)
  have "q \<le> Max K" if "q \<in> set rs" "within_budget enc rs q" for q
    using that K(1) by (intro Max_ge) (auto simp: K_def)
  then have "filter (within_budget enc rs) rs = filter (within_budget enc rs) (filter (\<lambda>q. q \<le> Max K) rs)"
    by (auto intro: filter_cong)
  then have "ledger_weight enc (filter (within_budget enc rs) rs) \<le> ledger_weight enc (filter (\<lambda>q. q \<le> Max K) rs)"
    using ledger_weight_filter by metis
  then show ?thesis using oldest by (simp add: within_budget_def)
qed

lemma cap_exact:
  assumes d: "distinct rs"
  shows "capOldestFirst enc rs =
    (filter (within_budget enc rs) rs, length rs - length (filter (within_budget enc rs) rs))"
proof (cases "ledger_weight enc rs \<le> CondemnedBudgetBytes")
  case True
  have "filter (within_budget enc rs) rs = rs"
    using order_trans [OF ledger_weight_filter True] by (intro filter_True) (simp add: within_budget_def)
  then show ?thesis using True by (simp add: cap_fits)
next
  case False
  let ?w = "\<lambda>i. weight enc (rs ! i)" and ?n = "length rs"
  define idx where "idx = sort_key (\<lambda>i. rs ! i) [0..<?n]"
  have m: "mset idx = mset [0..<?n]" by (simp only: idx_def mset_sort)
  have di: "distinct idx" and si: "set idx = {..<?n}"
    by (auto simp: idx_def)
  have "distinct (map (\<lambda>i. rs ! i) idx)"
    using d di si by (auto simp: distinct_map inj_on_def nth_eq_iff_index_eq)
  then have srt: "sorted_wrt (<) (map (\<lambda>i. rs ! i) idx)"
    by (simp add: strict_sorted_iff idx_def)
  have kept: "i \<in> set (keep_fitting ?w ledgerHeaderBytes idx) \<longleftrightarrow> within_budget enc rs (rs ! i)" if i: "i < ?n" for i
  proof -
    have "i \<in> set idx" using i si by simp
    note up = up_to_sorted [OF srt this]
    have "sum_list (map ?w (takeWhile (\<lambda>j. j \<noteq> i) idx)) + ?w i = sum_list (map ?w (takeWhile (\<lambda>j. j \<noteq> i) idx @ [i]))"
      by simp
    also have "\<dots> = sum_mset (image_mset ?w (filter_mset (\<lambda>j. rs ! j \<le> rs ! i) (mset idx)))"
      unfolding up by (simp only: sum_mset_sum_list [symmetric] mset_map mset_filter)
    also have "\<dots> = sum_mset (image_mset (weight enc) (mset (filter (\<lambda>q. q \<le> rs ! i) (map ((!) rs) [0..<?n]))))"
      unfolding m by (simp only: filter_map mset_map mset_filter comp_def image_mset.compositionality)
    also have "\<dots> = sum_list (map (weight enc) (filter (\<lambda>q. q \<le> rs ! i) rs))"
      by (simp only: map_nth sum_mset_sum_list [symmetric] mset_map)
    finally show ?thesis
      using keep_fitting_iff [OF di \<open>i \<in> set idx\<close>, of ?w ledgerHeaderBytes]
      by (simp add: within_budget_def ledger_weight_def add.assoc)
  qed
  have "filter (\<lambda>i. i \<in> set (keep_fitting ?w ledgerHeaderBytes idx)) [0..<?n] =
      filter (within_budget enc rs \<circ> (!) rs) [0..<?n]"
    using kept by (intro filter_cong) auto
  then have "map ((!) rs) (filter (\<lambda>i. i \<in> set (keep_fitting ?w ledgerHeaderBytes idx)) [0..<?n]) =
      filter (within_budget enc rs) rs"
    by (simp add: filter_map [symmetric] map_nth)
  then show ?thesis
    using False by (simp add: capOldestFirst_def cap_total Let_def idx_def weight_def del: length_map)
qed

text \<open>The rows before the cap: the two loops, and the names they have seen.\<close>

definition live :: "int \<Rightarrow> int \<Rightarrow> ledgerRow list \<Rightarrow> ledgerRow list" where
  "live now grace prev = filter (\<lambda>c. \<not> expired now grace (row_at c)) prev"

lemma carry_prev_props:
  "carry_prev now grace seen cs = (seen', out) \<Longrightarrow>
    seen' = seen \<union> row_name ` set out \<and> distinct (map row_name out) \<and> row_name ` set out \<inter> seen = {} \<and>
    row_name ` set out = row_name ` set (live now grace cs) - seen \<and>
    (\<forall>r \<in> set out. find (\<lambda>c. row_name c = row_name r) (live now grace cs) = Some r)"
proof (induction cs arbitrary: seen seen' out)
  case (Cons c cs)
  show ?case
  proof (cases "row_name c \<in> seen \<or> expired now grace (row_at c)")
    case True
    then have rec: "carry_prev now grace seen cs = (seen', out)" using Cons.prems by simp
    show ?thesis
      using True Cons.IH [OF rec] by (auto simp: live_def)
  next
    case False
    obtain out' where rec: "carry_prev now grace (insert (row_name c) seen) cs = (seen', out')"
      and out: "out = c # out'"
      using Cons.prems False by (auto split: prod.splits)
    show ?thesis
      using False Cons.IH [OF rec] unfolding out by (auto simp: live_def)
  qed
qed (auto simp: live_def)

lemma carry_dropped_props:
  "distinct (map row_name (carry_dropped now seen names)) \<and>
    row_name ` set (carry_dropped now seen names) = set names - {[]} - seen \<and>
    (\<forall>r \<in> set (carry_dropped now seen names). row_at r = unix_seconds now)"
  by (induction names arbitrary: seen) auto

definition full_ledger :: "ledgerRow list \<Rightarrow> string list \<Rightarrow> string list \<Rightarrow> int \<Rightarrow> int \<Rightarrow> ledgerRow list" where
  "full_ledger prev dropped listed now grace =
     (let (seen, out) = carry_prev now grace (set listed) prev in out @ carry_dropped now seen dropped)"

lemma carryCondemned_full:
  "carryCondemned enc prev dropped listed now grace = capOldestFirst enc (full_ledger prev dropped listed now grace)"
  by (auto simp: carryCondemned_def full_ledger_def cap_fits ledger_weight_def ledgerHeaderBytes_def
      CondemnedBudgetBytes_def split: prod.splits)

lemma full_ledger_props:
  assumes "full = full_ledger prev dropped listed now grace"
  shows "distinct (map row_name full)"
    "row_name ` set full = row_name ` set (live now grace prev) \<union> (set dropped - {[]}) - set listed"
    "r \<in> set full \<Longrightarrow> r = (case find (\<lambda>c. row_name c = row_name r) (live now grace prev) of
       Some c \<Rightarrow> c | None \<Rightarrow> LedgerRow (row_name r) (unix_seconds now))"
proof -
  obtain seen out where cp: "carry_prev now grace (set listed) prev = (seen, out)" by force
  note p = carry_prev_props [OF cp] and d = carry_dropped_props [of now seen dropped]
  have full: "full = out @ carry_dropped now seen dropped" using cp assms by (simp add: full_ledger_def)
  show "distinct (map row_name full)" using p d by (auto simp: full)
  show "row_name ` set full = row_name ` set (live now grace prev) \<union> (set dropped - {[]}) - set listed"
    using p d by (auto simp: full image_Un)
  show "r = (case find (\<lambda>c. row_name c = row_name r) (live now grace prev) of
       Some c \<Rightarrow> c | None \<Rightarrow> LedgerRow (row_name r) (unix_seconds now))" if "r \<in> set full"
  proof (cases "r \<in> set out")
    case False
    then have r: "r \<in> set (carry_dropped now seen dropped)" using that full by simp
    then have "row_name r \<in> set dropped - {[]} - seen" using d by blast
    then have "row_name r \<notin> row_name ` set (live now grace prev)" using p that full
      by (metis DiffD2 DiffI UnCI)
    then have "find (\<lambda>c. row_name c = row_name r) (live now grace prev) = None"
      unfolding find_None_iff by (metis imageI)
    moreover have "LedgerRow (row_name r) (unix_seconds now) = r"
      using r d by (metis ledgerRow.collapse)
    ultimately show ?thesis by simp
  qed (use p in auto)
qed

text \<open>The first element of each key, in the list's order, and with it the rows due on the ledger.\<close>

fun firsts :: "('a \<Rightarrow> 'b) \<Rightarrow> 'a list \<Rightarrow> 'a list" where
  "firsts f [] = []"
| "firsts f (x # xs) = x # firsts f (filter (\<lambda>y. f y \<noteq> f x) xs)"

definition due_rows :: "ledgerRow list \<Rightarrow> string list \<Rightarrow> string list \<Rightarrow> int \<Rightarrow> int \<Rightarrow> ledgerRow list" where
  "due_rows prev dropped listed now grace =
     firsts row_name (filter (\<lambda>c. row_name c \<notin> set listed) (live now grace prev)) @
     map (\<lambda>name. LedgerRow name (unix_seconds now))
       (firsts id (filter (\<lambda>name. name \<noteq> [] \<and> name \<notin> set listed \<and> name \<notin> row_name ` set (live now grace prev)) dropped))"

lemma carry_prev_firsts:
  "snd (carry_prev now grace seen cs) = firsts row_name (filter (\<lambda>c. row_name c \<notin> seen) (live now grace cs))"
proof (induction cs arbitrary: seen)
  case (Cons c cs)
  show ?case
    using Cons.IH [of seen] Cons.IH [of "insert (row_name c) seen"] by (simp add: live_def split_beta conj_ac)
qed (simp add: live_def)

lemma carry_dropped_firsts:
  "carry_dropped now seen names =
    map (\<lambda>name. LedgerRow name (unix_seconds now)) (firsts id (filter (\<lambda>name. name \<noteq> [] \<and> name \<notin> seen) names))"
proof (induction names arbitrary: seen)
  case (Cons n names)
  show ?case using Cons.IH [of seen] Cons.IH [of "insert n seen"] by (simp add: conj_ac)
qed simp

lemma full_ledger_due: "full_ledger prev dropped listed now grace = due_rows prev dropped listed now grace"
proof -
  obtain seen out where cp: "carry_prev now grace (set listed) prev = (seen, out)" by force
  have "seen = set listed \<union> row_name ` set (live now grace prev)"
    using carry_prev_props [OF cp] by blast
  then have "name \<notin> seen \<longleftrightarrow> name \<notin> set listed \<and> name \<notin> row_name ` set (live now grace prev)" for name by auto
  then show ?thesis
    using carry_prev_firsts [of now grace "set listed" prev]
    by (simp add: full_ledger_def cp due_rows_def carry_dropped_firsts)
qed

lemma carry_prev_weight:
  "carry_prev now grace seen cs = (seen', out) \<Longrightarrow> sum_list (map (weight enc) out) \<le> sum_list (map (weight enc) cs)"
proof (induction cs arbitrary: seen seen' out)
  case (Cons c cs)
  show ?case
  proof (cases "row_name c \<in> seen \<or> expired now grace (row_at c)")
    case True
    then have rec: "carry_prev now grace seen cs = (seen', out)" using Cons.prems by simp
    show ?thesis using Cons.IH [OF rec] by (simp add: add_increasing)
  next
    case False
    obtain out' where rec: "carry_prev now grace (insert (row_name c) seen) cs = (seen', out')"
      and out: "out = c # out'"
      using Cons.prems False by (auto split: prod.splits)
    show ?thesis using Cons.IH [OF rec] by (simp add: out)
  qed
qed simp

lemma carry_dropped_weight:
  "sum_list (map (weight enc) (carry_dropped now seen names)) \<le>
    sum_list (map (\<lambda>n. CondemnedRowBytes enc n now) names)"
proof (induction names arbitrary: seen)
  case (Cons n names)
  show ?case
    using Cons.IH [of seen] Cons.IH [of "insert n seen"]
    by (auto simp: CondemnedRowBytes_def weight_def add_increasing)
qed simp

lemma full_ledger_weight:
  "ledger_weight enc (full_ledger prev dropped listed now grace) \<le>
    ledger_weight enc prev + sum_list (map (\<lambda>n. CondemnedRowBytes enc n now) dropped)"
proof -
  obtain seen out where cp: "carry_prev now grace (set listed) prev = (seen, out)" by force
  show ?thesis
    using carry_prev_weight [OF cp, of enc] carry_dropped_weight [of enc now seen dropped]
    by (simp add: full_ledger_def cp ledger_weight_def)
qed

definition as_rows :: "condemned_row list \<Rightarrow> ledgerRow list" where
  "as_rows = map (\<lambda>c. LedgerRow (cn_Name c) (cn_At c))"

lemma CondemnedPackRoom_weight:
  "CondemnedPackRoom enc prev = max 0 (CondemnedBudgetBytes - ledger_weight enc (as_rows prev))"
  by (simp add: CondemnedPackRoom_def ledger_weight_def as_rows_def fold_plus_sum weight_def o_def Let_def)

section \<open>Properties\<close>

text \<open>
  C8: The ledger's rules, exactly. Before the cap a generation is due one row for each name that
  is not listed any more: first the unexpired rows of its parent, in their order and of a name
  given twice the first, stamp and all, then the non-empty dropped names that have no such row,
  in their order and each once, stamped now. The cap keeps of these, in the same order, exactly
  the rows that fit the byte budget together with the header and every row newer than them
  (ties by name), and reports how many it left out; what is kept fits the budget.
\<close>

theorem condemned_ledger_rules:
  "carryCondemned enc prev dropped listed now grace =
     (let due = due_rows prev dropped listed now grace;
          kept = filter (\<lambda>r. ledger_weight enc (filter (\<lambda>q. q \<le> r) due) \<le> CondemnedBudgetBytes) due
      in (kept, length due - length kept)) \<and>
   ledger_weight enc (fst (carryCondemned enc prev dropped listed now grace)) \<le> CondemnedBudgetBytes \<and>
   distinct (map row_name (due_rows prev dropped listed now grace)) \<and>
   row_name ` set (due_rows prev dropped listed now grace) =
     row_name ` set (live now grace prev) \<union> (set dropped - {[]}) - set listed"
proof -
  let ?due = "due_rows prev dropped listed now grace"
  note p = full_ledger_props(1,2) [OF refl, of prev dropped listed now grace, unfolded full_ledger_due]
  have "distinct ?due" using p(1) by (simp add: distinct_map)
  note c = cap_exact [OF this, of enc]
  have "(\<lambda>r. ledger_weight enc (filter (\<lambda>q. q \<le> r) ?due) \<le> CondemnedBudgetBytes) = within_budget enc ?due"
    by (simp add: within_budget_def fun_eq_iff)
  then show ?thesis
    using p c within_budget_fits [of enc ?due] by (simp add: carryCondemned_full full_ledger_due Let_def)
qed

text \<open>
  Planning and the cap agree. A repack that condemns packs whose rows, weighed one by one,
  fit the room \<open>CondemnedPackRoom\<close> reports overflows nothing: as long as the rows it inherited
  were within the budget, every row it adds and every unexpired one it inherited is written.
\<close>

theorem planned_room_is_enough:
  assumes "ledger_weight enc (as_rows prev) \<le> CondemnedBudgetBytes"
    "sum_list (map (\<lambda>n. CondemnedRowBytes enc n now) dropped) \<le> CondemnedPackRoom enc prev"
  shows "\<exists>kept. CarryCondemnedPacks enc prev dropped listed now grace = (kept, 0) \<and>
    cn_Name ` set kept = row_name ` set (live now grace (as_rows prev)) \<union> (set dropped - {[]}) - set listed"
proof -
  let ?full = "full_ledger (as_rows prev) dropped listed now grace"
  have "ledger_weight enc ?full \<le> CondemnedBudgetBytes"
    using full_ledger_weight [of enc "as_rows prev" dropped listed now grace] assms
    by (simp add: CondemnedPackRoom_weight)
  then have "carryCondemned enc (as_rows prev) dropped listed now grace = (?full, 0)"
    by (simp add: carryCondemned_full cap_fits)
  then show ?thesis
    using full_ledger_props(2) [OF refl, of "as_rows prev" dropped listed now grace]
    by (simp add: CarryCondemnedPacks_def as_rows_def image_image)
qed

section \<open>Witnesses\<close>

definition heavy_rows :: row_encoder where "heavy_rows c = Some (replicate 20000 0)"

theorem planned_room_is_enough_witness:
  "\<exists>kept. CarryCondemnedPacks heavy_rows [\<lparr>cn_Name = ''a'', cn_At = 5\<rparr>] [''c''] [''z''] 9000000000 100000000000 = (kept, 0) \<and>
    cn_Name ` set kept = {''a'', ''c''}"
  using planned_room_is_enough [of heavy_rows "[\<lparr>cn_Name = ''a'', cn_At = 5\<rparr>]" 9000000000 "[''c'']" "[''z'']" 100000000000]
  by (simp add: ledger_weight_def as_rows_def weight_def rowBytes_def heavy_rows_def ledgerHeaderBytes_def
      CondemnedBudgetBytes_def CondemnedRowBytes_def CondemnedPackRoom_weight live_def expired_def time_sub_def insert_commute)

end
