(* ===== verification/Mutable_Object.thy ===== *)
theory Mutable_Object
  imports Retry_Policy
begin

text \<open>
  The mutable edge of the object store, \<open>internal/pelicanobj/pelicanobj.go\<close>: finding a capability
  under decorators, reading a small object whole, the unverified re-read, and the read-back
  after a write. What a transport answers is an argument: a failure to open, or a stream of
  bytes that ends or breaks.
\<close>

section \<open>Capabilities under decorators\<close>

text \<open>
  A store is a transport or a decorator, each with the optional interfaces it implements
  itself; \<open>Unwrap\<close> gives what a decorator wraps, and may give nothing.
\<close>

datatype ('d, 'u) store =
    Transport (directly: "'d option") (unverified: "'u option")
  | Decorator (directly: "'d option") (unverified: "'u option") (wrapped: "('d, 'u) store option")

fun AsDirectReader :: "('d, 'u) store \<Rightarrow> 'd option" where
  "AsDirectReader (Transport d u) = d"
| "AsDirectReader (Decorator d u w) =
     (case d of Some r \<Rightarrow> Some r | None \<Rightarrow> (case w of None \<Rightarrow> None | Some s \<Rightarrow> AsDirectReader s))"

fun AsUnverifiedReader :: "('d, 'u) store \<Rightarrow> 'u option" where
  "AsUnverifiedReader (Transport d u) = u"
| "AsUnverifiedReader (Decorator d u w) =
     (case u of Some r \<Rightarrow> Some r | None \<Rightarrow> (case w of None \<Rightarrow> None | Some s \<Rightarrow> AsUnverifiedReader s))"

section \<open>Reading whole\<close>

record transport_error =
  te_code :: "nat option"
  te_msg :: string

datatype read_error = TransportError transport_error | TooLarge

text \<open>What \<open>Get\<close> answers: an error, or bytes and the error the stream breaks with, if it does.\<close>

type_synonym reply = "transport_error + (bytes \<times> transport_error option)"

definition MaxMutableObject :: nat where "MaxMutableObject = 1048576"

text \<open>\<open>io.LimitReader\<close> stops after one byte more than the ceiling, before a later break is seen.\<close>

definition readWhole :: "reply \<Rightarrow> read_error + bytes" where
  "readWhole rep =
     (case rep of
        Inl e \<Rightarrow> Inl (TransportError e)
      | Inr (stream, broken) \<Rightarrow>
          (if MaxMutableObject < length stream then Inl TooLarge
           else case broken of Some e \<Rightarrow> Inl (TransportError e) | None \<Rightarrow> Inr stream))"

definition isChecksumMismatch :: "read_error \<Rightarrow> bool" where
  "isChecksumMismatch err =
     (case err of
        TooLarge \<Rightarrow> False
      | TransportError e \<Rightarrow>
          (case te_code e of
             Some code \<Rightarrow> code = 6006
           | None \<Rightarrow> contains (te_msg e) ''ChecksumMismatch'' \<or> contains (te_msg e) ''Error code 6006''))"

text \<open>\<open>u\<close> is the unverified reader's answer, absent when no transport below can re-read.\<close>

definition ReadMutable :: "reply \<Rightarrow> reply option \<Rightarrow> read_error + bytes" where
  "ReadMutable rep u =
     (case readWhole rep of
        Inr raw \<Rightarrow> Inr raw
      | Inl err \<Rightarrow>
          (if \<not> isChecksumMismatch err then Inl err
           else case u of
                  None \<Rightarrow> Inl err
                | Some urep \<Rightarrow> (case readWhole urep of Inl rerr \<Rightarrow> Inl err | Inr raw \<Rightarrow> Inr raw)))"

datatype put_check = Verified | Unreadable read_error | ErrClobbered nat nat

definition VerifyPut :: "reply \<Rightarrow> reply option \<Rightarrow> bytes \<Rightarrow> put_check" where
  "VerifyPut rep u want =
     (case ReadMutable rep u of
        Inl err \<Rightarrow> Unreadable err
      | Inr got \<Rightarrow> (if got = want then Verified else ErrClobbered (length got) (length want)))"

section \<open>Facts\<close>

lemma readWhole_Inr: "readWhole rep = Inr raw \<Longrightarrow> rep = Inr (raw, None) \<and> length raw \<le> MaxMutableObject"
  by (auto simp: readWhole_def split: sum.splits prod.splits if_splits option.splits)

lemma ReadMutable_healthy [simp]:
  "length raw \<le> MaxMutableObject \<Longrightarrow> ReadMutable (Inr (raw, None)) u = Inr raw"
  by (simp add: ReadMutable_def readWhole_def)

lemma VerifyPut_healthy [simp]:
  "length got \<le> MaxMutableObject \<Longrightarrow>
    VerifyPut (Inr (got, None)) u want = (if got = want then Verified else ErrClobbered (length got) (length want))"
  by (simp add: VerifyPut_def)

section \<open>Properties\<close>

text \<open>
  A mutable read is a whole object or an error. What \<open>ReadMutable\<close> returns is the complete
  body of the verified answer, within the ceiling; or, only when that answer was the
  transport's checksum complaint and the store can re-read, the complete body of the
  unverified answer. When both fail the first error is what is reported.
\<close>

theorem ReadMutable_whole_or_error:
  "case ReadMutable rep u of
     Inr raw \<Rightarrow> length raw \<le> MaxMutableObject \<and>
       (rep = Inr (raw, None) \<or>
        (\<exists>err. readWhole rep = Inl err \<and> isChecksumMismatch err \<and> u = Some (Inr (raw, None))))
   | Inl err \<Rightarrow> readWhole rep = Inl err"
  by (auto simp: ReadMutable_def split: sum.split if_splits option.split dest: readWhole_Inr)

end
