(* ===== verification/Pinned_Refs.thy ===== *)
theory Pinned_Refs
  imports Superblock Identity Mutable_Object
begin

text \<open>
  The mutable edge of a volume, \<open>internal/refs/refs.go\<close>: what a reader trusts and records, how a
  branch head is fetched, flipped, tagged, listed and deleted. The reader's state directory is
  a map from paths to contents; the file system's failures are an argument (\<open>disk\<close>). What the
  object store answers a reader is an argument too, so a theorem about \<open>Fetch\<close> holds whatever
  an origin serves. CBOR, Ed25519 and BLAKE3 come with the \<open>scheme\<close> of \<open>Superblock\<close>.
\<close>

section \<open>Local state\<close>

datatype path = PinPath | LastPath string | Tmp path

type_synonym files = "path \<Rightarrow> bytes option"

text \<open>
  A disk says which reads fail, which writes fail and what they leave of the file, and which
  renames fail.
\<close>

record disk =
  read_fails :: "path \<Rightarrow> bool"
  torn :: "path \<Rightarrow> bytes option option"
  rename_fails :: "path \<Rightarrow> bool"

datatype ref_error = InvalidBranch | ReadRef read_error | Undecodable | ErrRollback uint64 uint64
  | PinUnreadable | CorruptPin | ErrSignatureAppeared uint64 | ErrSignatureDropped uint64 | ErrUnsigned uint64
  | ErrUntrusted "sb_error option" | FirstUse sb_error | StateIO | AcceptKeySize nat
  | ErrStaleFlip | FlipFailed | ErrFlipClobbered | FlipUnread | BadName name_error
  | ErrTagExists | ErrNoSuchTag | ErrNoSuchBranch | StoreFailed | ListFailed
and name_error = EmptyName | PathSeparator | NamesDirectory | TmpSuffix | TooLong nat | ControlCharacter

datatype file_error = NotExist | IOError

definition read_file :: "disk \<Rightarrow> files \<Rightarrow> path \<Rightarrow> file_error + bytes" where
  "read_file d fs p =
     (if read_fails d p then Inl IOError else case fs p of None \<Rightarrow> Inl NotExist | Some b \<Rightarrow> Inr b)"

definition writeAtomic :: "disk \<Rightarrow> path \<Rightarrow> bytes \<Rightarrow> files \<Rightarrow> bool \<times> files" where
  "writeAtomic d p data fs =
     (case torn d (Tmp p) of
        Some left \<Rightarrow> (False, fs(Tmp p := left))
      | None \<Rightarrow>
          (if rename_fails d p then (False, fs(Tmp p \<mapsto> data))
           else (True, fs(Tmp p := None, p \<mapsto> data))))"

text \<open>A nil key is no bytes where the code reads it as a slice.\<close>

definition the_default :: "'a \<Rightarrow> 'a option \<Rightarrow> 'a" where
  "the_default x o1 = (case o1 of None \<Rightarrow> x | Some y \<Rightarrow> y)"

section \<open>Pins\<close>

record policy =
  Trusted :: "bytes option"
  AllowUnsigned :: bool

record pin =
  pin_key :: "bytes option"
  pin_unsigned :: bool

definition no_pin :: pin where "no_pin = \<lparr>pin_key = None, pin_unsigned = False\<rparr>"

definition present :: "pin \<Rightarrow> bool" where
  "present p \<longleftrightarrow> pin_key p \<noteq> None \<or> pin_unsigned p"

definition unsignedPin :: string where "unsignedPin = ''unsigned''"

text \<open>\<open>strings.TrimSpace\<close>: the runes of Unicode's White_Space, in UTF-8.\<close>

definition space_runes :: "bytes list" where
  "space_runes = map (\<lambda>b. [b]) [9, 10, 11, 12, 13, 32] @
     [[0xC2, 0x85], [0xC2, 0xA0], [0xE1, 0x9A, 0x80]] @
     map (\<lambda>b. [0xE2, 0x80, b]) ([0x80, 0x81, 0x82, 0x83, 0x84, 0x85, 0x86, 0x87, 0x88, 0x89, 0x8A, 0xA8, 0xA9, 0xAF]) @
     [[0xE2, 0x81, 0x9F], [0xE3, 0x80, 0x80]]"

fun match_prefix :: "bytes list \<Rightarrow> bytes \<Rightarrow> nat" where
  "match_prefix [] s = 0"
| "match_prefix (r # rs) s = (if r \<noteq> [] \<and> take (length r) s = r then length r else match_prefix rs s)"

lemma match_prefix_le: "match_prefix rs s \<le> length s"
  by (induction rs) (auto, metis length_take min.cobounded1)

function trim_runes :: "bytes list \<Rightarrow> bytes \<Rightarrow> bytes" where
  "trim_runes rs s = (if match_prefix rs s = 0 then s else trim_runes rs (drop (match_prefix rs s) s))"
  by pat_completeness auto
termination
  by (relation "measure (length \<circ> snd)") (auto simp: gr0_conv_Suc, metis diff_less length_drop match_prefix_le le_zero_eq neq0_conv zero_less_Suc)

declare trim_runes.simps [simp del]

definition TrimSpace :: "bytes \<Rightarrow> bytes" where
  "TrimSpace s = rev (trim_runes (map rev space_runes) (rev (trim_runes space_runes s)))"

definition parseKeyBytes :: "bytes \<Rightarrow> ref_error + bytes" where
  "parseKeyBytes b =
     (case hex_decode (bytes_str (TrimSpace b)) of
        None \<Rightarrow> Inl CorruptPin
      | Some k \<Rightarrow> (if length k \<noteq> 32 then Inl CorruptPin else Inr k))"

definition readPin :: "disk \<Rightarrow> files \<Rightarrow> ref_error + pin" where
  "readPin d fs =
     (case read_file d fs PinPath of
        Inl NotExist \<Rightarrow> Inr no_pin
      | Inl IOError \<Rightarrow> Inl PinUnreadable
      | Inr b \<Rightarrow>
          (if TrimSpace b = str_bytes unsignedPin then Inr \<lparr>pin_key = None, pin_unsigned = True\<rparr>
           else case parseKeyBytes b of
                  Inl e \<Rightarrow> Inl e
                | Inr k \<Rightarrow> Inr \<lparr>pin_key = Some k, pin_unsigned = False\<rparr>))"

definition pinFor :: "policy \<Rightarrow> disk \<Rightarrow> files \<Rightarrow> ref_error + pin" where
  "pinFor pol d fs = (if Trusted pol \<noteq> None then Inr no_pin else readPin d fs)"

text \<open>\<open>persist\<close>: the pin first, then the generation accepted on the branch.\<close>

definition pin_body :: "bytes option \<Rightarrow> bytes" where
  "pin_body pub = str_bytes ((case pub of None \<Rightarrow> unsignedPin | Some k \<Rightarrow> hex_encode k) @ [CHR 0x0A])"

definition persist :: "disk \<Rightarrow> string \<Rightarrow> bytes option \<Rightarrow> bytes \<Rightarrow> files \<Rightarrow> ref_error option \<times> files" where
  "persist d branch pub raw fs =
     (case writeAtomic d PinPath (pin_body pub) fs of
        (False, fs') \<Rightarrow> (Some StateIO, fs')
      | (True, fs') \<Rightarrow>
          (case writeAtomic d (LastPath branch) raw fs' of
             (False, fs'') \<Rightarrow> (Some StateIO, fs'')
           | (True, fs'') \<Rightarrow> (None, fs'')))"

section \<open>Reading\<close>

definition checkMonotonic :: "scheme \<Rightarrow> disk \<Rightarrow> files \<Rightarrow> string \<Rightarrow> superblock \<Rightarrow> ref_error option" where
  "checkMonotonic sc d fs branch sb =
     (case read_file d fs (LastPath branch) of
        Inl _ \<Rightarrow> None
      | Inr prevRaw \<Rightarrow>
          (case unmarshal sc prevRaw of
             None \<Rightarrow> None
           | Some prev \<Rightarrow>
               (if Generation sb < Generation prev then Some (ErrRollback (Generation sb) (Generation prev)) else None)))"

definition checkSigningKind :: "policy \<Rightarrow> superblock \<Rightarrow> pin \<Rightarrow> bool \<Rightarrow> ref_error option" where
  "checkSigningKind pol sb pinned firstContact =
     (if \<not> IsUnsigned sb then (if pin_unsigned pinned then Some (ErrSignatureAppeared (Generation sb)) else None)
      else if pin_key pinned \<noteq> None then Some (ErrSignatureDropped (Generation sb))
      else if pin_unsigned pinned then None
      else if Trusted pol \<noteq> None then Some (ErrUnsigned (Generation sb))
      else if \<not> firstContact then Some (ErrUnsigned (Generation sb))
      else if \<not> AllowUnsigned pol then Some (ErrUnsigned (Generation sb))
      else None)"

record fetched =
  f_Superblock :: superblock
  f_Raw :: bytes
  f_ETag :: string

text \<open>\<open>read\<close>: the ETag of a stat, empty when the stat fails, and the body.\<close>

record answer =
  a_stat :: "string option"
  a_get :: reply
  a_unverified :: "reply option"

definition read_ref :: "answer \<Rightarrow> ref_error + bytes \<times> string" where
  "read_ref a =
     (case ReadMutable (a_get a) (a_unverified a) of
        Inl e \<Rightarrow> Inl (ReadRef e)
      | Inr raw \<Rightarrow> Inr (raw, case a_stat a of None \<Rightarrow> [] | Some etag \<Rightarrow> etag))"

text \<open>The end of every accepting path that records: \<open>persist\<close>, then the head.\<close>

definition record_head :: "disk \<Rightarrow> string \<Rightarrow> bytes option \<Rightarrow> fetched \<Rightarrow> files \<Rightarrow> (ref_error + fetched) \<times> files" where
  "record_head d branch pub f fs =
     (case persist d branch pub (f_Raw f) fs of (Some e, fs') \<Rightarrow> (Inl e, fs') | (None, fs') \<Rightarrow> (Inr f, fs'))"

definition has_separator :: "string \<Rightarrow> bool" where
  "has_separator s \<longleftrightarrow> CHR ''/'' \<in> set s \<or> CHR 0x5C \<in> set s"

text \<open>The decision of \<open>Fetch\<close> on a decoded head, after the monotonicity check.\<close>

definition decide_head :: "scheme \<Rightarrow> policy \<Rightarrow> disk \<Rightarrow> string \<Rightarrow> pin \<Rightarrow> fetched \<Rightarrow> files \<Rightarrow> (ref_error + fetched) \<times> files" where
  "decide_head sc pol d branch pinned f fs =
     (let sb = f_Superblock f in
      if IsUnsigned sb then record_head d branch None f fs
      else case Trusted pol of
        Some t \<Rightarrow> (case Verify sc t sb of Some e \<Rightarrow> (Inl (ErrUntrusted (Some e)), fs) | None \<Rightarrow> (Inr f, fs))
      | None \<Rightarrow>
          (if \<not> present pinned then
             (case Verify sc (SigningPub sb) sb of
                Some e \<Rightarrow> (Inl (FirstUse e), fs)
              | None \<Rightarrow> record_head d branch (Some (SigningPub sb)) f fs)
           else let key = the_default [] (pin_key pinned) in
             if Verify sc key sb = None then record_head d branch (Some key) f fs
             else case read_file d fs (LastPath branch) of
               Inl _ \<Rightarrow> (Inl (ErrUntrusted None), fs)
             | Inr prevRaw \<Rightarrow>
                 (case VerifyChain sc prevRaw (Some sb) key of
                    Some e \<Rightarrow> (Inl (ErrUntrusted (Some e)), fs)
                  | None \<Rightarrow> record_head d branch (Some (SigningPub sb)) f fs)))"

definition Fetch :: "scheme \<Rightarrow> policy \<Rightarrow> disk \<Rightarrow> string \<Rightarrow> answer \<Rightarrow> files \<Rightarrow> (ref_error + fetched) \<times> files" where
  "Fetch sc pol d branch a fs =
     (if has_separator branch then (Inl InvalidBranch, fs)
      else case read_ref a of
        Inl e \<Rightarrow> (Inl e, fs)
      | Inr (raw, etag) \<Rightarrow>
          (case unmarshal sc raw of
             None \<Rightarrow> (Inl Undecodable, fs)
           | Some sb \<Rightarrow>
               (case checkMonotonic sc d fs branch sb of
                  Some e \<Rightarrow> (Inl e, fs)
                | None \<Rightarrow>
                    (case pinFor pol d fs of
                       Inl e \<Rightarrow> (Inl e, fs)
                     | Inr pinned \<Rightarrow>
                         (case checkSigningKind pol sb pinned True of
                            Some e \<Rightarrow> (Inl e, fs)
                          | None \<Rightarrow> decide_head sc pol d branch pinned
                              \<lparr>f_Superblock = sb, f_Raw = raw, f_ETag = etag\<rparr> fs)))))"

text \<open>\<open>Verify\<close> of a store, for a document from neither a ref nor a tag; the tail of \<open>FetchTag\<close> is the same.\<close>

definition store_Verify :: "scheme \<Rightarrow> policy \<Rightarrow> disk \<Rightarrow> files \<Rightarrow> bytes \<Rightarrow> ref_error + superblock" where
  "store_Verify sc pol d fs raw =
     (case unmarshal sc raw of
        None \<Rightarrow> Inl Undecodable
      | Some sb \<Rightarrow>
          (case pinFor pol d fs of
             Inl e \<Rightarrow> Inl e
           | Inr pinned \<Rightarrow>
               (case checkSigningKind pol sb pinned False of
                  Some e \<Rightarrow> Inl e
                | None \<Rightarrow>
                    (if IsUnsigned sb then Inr sb
                     else if Trusted pol = None \<and> \<not> present pinned then Inl (ErrUntrusted None)
                     else let key = (case Trusted pol of Some t \<Rightarrow> t | None \<Rightarrow> the_default [] (pin_key pinned))
                          in case Verify sc key sb of
                               Some e \<Rightarrow> Inl (ErrUntrusted (Some e))
                             | None \<Rightarrow> Inr sb))))"

definition FetchTag :: "scheme \<Rightarrow> policy \<Rightarrow> disk \<Rightarrow> files \<Rightarrow> answer \<Rightarrow> ref_error + superblock \<times> bytes" where
  "FetchTag sc pol d fs a =
     (case read_ref a of
        Inl e \<Rightarrow> Inl e
      | Inr (raw, etag) \<Rightarrow> (case store_Verify sc pol d fs raw of Inl e \<Rightarrow> Inl e | Inr sb \<Rightarrow> Inr (sb, raw)))"

definition AcceptUnsigned :: "disk \<Rightarrow> files \<Rightarrow> ref_error option \<times> files" where
  "AcceptUnsigned d fs =
     (case writeAtomic d PinPath (pin_body None) fs of (ok, fs') \<Rightarrow> (if ok then None else Some StateIO, fs'))"

definition AcceptSigned :: "disk \<Rightarrow> bytes \<Rightarrow> files \<Rightarrow> ref_error option \<times> files" where
  "AcceptSigned d pub fs =
     (if length pub \<noteq> 32 then (Some (AcceptKeySize (length pub)), fs)
      else case writeAtomic d PinPath (pin_body (Some pub)) fs of (ok, fs') \<Rightarrow> (if ok then None else Some StateIO, fs'))"

section \<open>Writing\<close>

text \<open>
  The object store a writer acts on, its objects by key with the ETag a stat shows. Each
  call may fail: a failed put may have landed or not; a put that lands gets a new ETag.
\<close>

record object =
  ob_data :: bytes
  ob_etag :: string

type_synonym objects = "string \<Rightarrow> object option"

datatype put_outcome = PutDone string | PutLost | PutLanded string

definition RefDirKey :: string where "RefDirKey = ''refs''"
definition TagDirKey :: string where "TagDirKey = ''tags''"

definition refKey :: "string \<Rightarrow> string" where "refKey branch = RefDirKey @ ''/'' @ branch"
definition tagKey :: "string \<Rightarrow> string" where "tagKey name = TagDirKey @ ''/'' @ name"

definition StatKey :: "bool \<Rightarrow> objects \<Rightarrow> string \<Rightarrow> string option" where
  "StatKey fails w key = (if fails then None else map_option ob_etag (w key))"

definition Put :: "put_outcome \<Rightarrow> string \<Rightarrow> bytes \<Rightarrow> objects \<Rightarrow> bool \<times> objects" where
  "Put outcome key raw w =
     (case outcome of
        PutDone etag \<Rightarrow> (True, w(key \<mapsto> \<lparr>ob_data = raw, ob_etag = etag\<rparr>))
      | PutLost \<Rightarrow> (False, w)
      | PutLanded etag \<Rightarrow> (False, w(key \<mapsto> \<lparr>ob_data = raw, ob_etag = etag\<rparr>)))"

definition Get :: "transport_error option \<Rightarrow> objects \<Rightarrow> string \<Rightarrow> reply" where
  "Get fails w key =
     (case fails of
        Some e \<Rightarrow> Inl e
      | None \<Rightarrow> (case w key of None \<Rightarrow> Inl \<lparr>te_code = None, te_msg = ''404''\<rparr> | Some ob \<Rightarrow> Inr (ob_data ob, None)))"

text \<open>
  \<open>Flip\<close> is three steps against the store, and another writer may act between any two of
  them: the check, the put, and the read-back.
\<close>

definition flip_check :: "bool \<Rightarrow> string \<Rightarrow> string \<Rightarrow> objects \<Rightarrow> ref_error option" where
  "flip_check stat_fails branch expectETag w =
     (case StatKey stat_fails w (refKey branch) of
        Some etag \<Rightarrow>
          (if expectETag = [] then Some ErrStaleFlip
           else if etag \<noteq> [] \<and> etag \<noteq> expectETag then Some ErrStaleFlip
           else None)
      | None \<Rightarrow> (if expectETag \<noteq> [] then Some ErrStaleFlip else None))"

definition flip_verify :: "transport_error option \<Rightarrow> string \<Rightarrow> bytes \<Rightarrow> objects \<Rightarrow> ref_error option" where
  "flip_verify get_fails branch raw w =
     (case VerifyPut (Get get_fails w (refKey branch)) None raw of
        Verified \<Rightarrow> None
      | ErrClobbered got want \<Rightarrow> Some ErrFlipClobbered
      | Unreadable e \<Rightarrow> Some FlipUnread)"

text \<open>The steps in order, with what other writers do to the store in between.\<close>

definition Flip :: "bool \<Rightarrow> put_outcome \<Rightarrow> transport_error option \<Rightarrow> (objects \<Rightarrow> objects) \<Rightarrow> (objects \<Rightarrow> objects) \<Rightarrow>
    string \<Rightarrow> bytes \<Rightarrow> string \<Rightarrow> objects \<Rightarrow> ref_error option \<times> objects" where
  "Flip stat_fails outcome get_fails others1 others2 branch raw expectETag w =
     (case flip_check stat_fails branch expectETag w of
        Some e \<Rightarrow> (Some e, w)
      | None \<Rightarrow>
          (case Put outcome (refKey branch) raw (others1 w) of
             (False, w') \<Rightarrow> (Some FlipFailed, w')
           | (True, w') \<Rightarrow> (let w'' = others2 w' in (flip_verify get_fails branch raw w'', w''))))"

definition ValidateName :: "string \<Rightarrow> name_error option" where
  "ValidateName name =
     (if name = [] then Some EmptyName
      else if has_separator name then Some PathSeparator
      else if name = ''.'' \<or> name = ''..'' then Some NamesDirectory
      else if suffix ''.tmp'' name then Some TmpSuffix
      else if 255 < length name then Some (TooLong (length name))
      else if list_ex (\<lambda>c. (of_char c :: nat) < 0x20 \<or> (of_char c :: nat) = 0x7F) name then Some ControlCharacter
      else None)"

definition Tag :: "bool \<Rightarrow> put_outcome \<Rightarrow> string \<Rightarrow> bytes \<Rightarrow> objects \<Rightarrow> ref_error option \<times> objects" where
  "Tag stat_fails outcome name raw w =
     (case ValidateName name of
        Some e \<Rightarrow> (Some (BadName e), w)
      | None \<Rightarrow>
          (if StatKey stat_fails w (tagKey name) \<noteq> None then (Some ErrTagExists, w)
           else case Put outcome (tagKey name) raw w of
                  (False, w') \<Rightarrow> (Some StoreFailed, w')
                | (True, w') \<Rightarrow> (None, w')))"

text \<open>A delete either removes the object or fails, with the object there or gone.\<close>

datatype delete_outcome = DeleteDone | DeleteLost | DeleteLanded

definition Delete :: "delete_outcome \<Rightarrow> string \<Rightarrow> objects \<Rightarrow> bool \<times> objects" where
  "Delete outcome key w =
     (case outcome of
        DeleteDone \<Rightarrow> (True, w(key := None))
      | DeleteLost \<Rightarrow> (False, w)
      | DeleteLanded \<Rightarrow> (False, w(key := None)))"

definition DeleteTag :: "bool \<Rightarrow> delete_outcome \<Rightarrow> string \<Rightarrow> objects \<Rightarrow> ref_error option \<times> objects" where
  "DeleteTag stat_fails outcome name w =
     (case ValidateName name of
        Some e \<Rightarrow> (Some (BadName e), w)
      | None \<Rightarrow>
          (if StatKey stat_fails w (tagKey name) = None then (Some ErrNoSuchTag, w)
           else case Delete outcome (tagKey name) w of
                  (False, w') \<Rightarrow> (Some StoreFailed, w')
                | (True, w') \<Rightarrow> (None, w')))"

text \<open>\<open>DeleteBranch\<close> forgets the branch locally too, once it is gone; \<open>rm\<close> says whether the removal works.\<close>

definition DeleteBranch :: "bool \<Rightarrow> delete_outcome \<Rightarrow> bool \<Rightarrow> string \<Rightarrow> objects \<times> files \<Rightarrow> ref_error option \<times> objects \<times> files" where
  "DeleteBranch stat_fails outcome rm name wl =
     (case ValidateName name of
        Some e \<Rightarrow> (Some (BadName e), wl)
      | None \<Rightarrow>
          (if StatKey stat_fails (fst wl) (refKey name) = None then (Some ErrNoSuchBranch, wl)
           else case Delete outcome (refKey name) (fst wl) of
                  (False, w') \<Rightarrow> (Some StoreFailed, w', snd wl)
                | (True, w') \<Rightarrow> (None, w', if rm then (snd wl)(LastPath name := None) else snd wl)))"

record dir_entry =
  de_Name :: string
  de_IsDir :: bool

definition isAbsent :: "string \<Rightarrow> bool" where
  "isAbsent msg \<longleftrightarrow> contains msg ''404'' \<or> contains msg ''not exist'' \<or> contains msg ''no such file''"

definition ListBranches :: "string + dir_entry list \<Rightarrow> ref_error + string list" where
  "ListBranches listing =
     (case listing of
        Inl msg \<Rightarrow> (if isAbsent msg then Inr [] else Inl ListFailed)
      | Inr entries \<Rightarrow>
          Inr (sort (map de_Name (filter (\<lambda>e. \<not> (de_IsDir e \<or> suffix ''.tmp'' (de_Name e))) entries))))"

section \<open>What the pin file says\<close>

lemma trim_runes_stop: "match_prefix rs s = 0 \<Longrightarrow> trim_runes rs s = s"
  by (simp add: trim_runes.simps)

lemma trim_runes_step: "match_prefix rs s = Suc n \<Longrightarrow> trim_runes rs s = trim_runes rs (drop (Suc n) s)"
  by (subst trim_runes.simps) simp

lemma match_prefix_other: "\<forall>r \<in> set rs. hd r \<noteq> b \<Longrightarrow> match_prefix rs (b # s) = 0"
  by (induction rs) (auto simp: neq_Nil_conv)

definition graphic :: "byte \<Rightarrow> bool" where
  "graphic b \<longleftrightarrow> 33 \<le> unat b \<and> unat b < 127"

lemma space_not_graphic: "\<forall>r \<in> set space_runes. \<not> graphic (hd r) \<and> \<not> graphic (hd (rev r))"
  by (simp add: space_runes_def graphic_def)

lemma TrimSpace_line:
  assumes "body \<noteq> []" "graphic (hd body)" "graphic (last body)"
  shows "TrimSpace (body @ [10]) = body"
proof -
  obtain b bs where body: "body = b # bs" using assms(1) by (cases body) auto
  have "match_prefix space_runes (body @ [10]) = 0"
    unfolding body append_Cons using space_not_graphic assms(2) body by (intro match_prefix_other) auto
  then have left: "trim_runes space_runes (body @ [10]) = body @ [10]" by (rule trim_runes_stop)
  obtain c cs where rbody: "rev body = c # cs" and c: "c = last body"
    using assms(1) by (metis hd_rev list.exhaust_sel rev_is_Nil_conv)
  have "match_prefix (map rev space_runes) (10 # rev body) = Suc 0"
    by (simp add: space_runes_def)
  then have "trim_runes (map rev space_runes) (10 # rev body) = trim_runes (map rev space_runes) (rev body)"
    by (simp add: trim_runes_step)
  also have "match_prefix (map rev space_runes) (rev body) = 0"
    unfolding rbody using space_not_graphic assms(3) c by (intro match_prefix_other) auto
  then have "trim_runes (map rev space_runes) (rev body) = rev body" by (rule trim_runes_stop)
  finally show ?thesis by (simp add: TrimSpace_def left)
qed

lemma hex_digits_graphic: "c \<in> set (hex_encode b) \<Longrightarrow> graphic (byte_of_char c)"
proof -
  have "list_all (\<lambda>n. graphic (byte_of_char (hex_digit n))) [0..<16]"
    by (simp add: upt_rec hex_digit_def graphic_def byte_of_char_def)
  then have d: "n < 16 \<Longrightarrow> graphic (byte_of_char (hex_digit n))" for n by (simp add: list_all_iff)
  have "unat x div 16 < 16" for x :: byte by (rule less_mult_imp_div_less) (use unat_byte_less [of x] in simp)
  then show "c \<in> set (hex_encode b) \<Longrightarrow> graphic (byte_of_char c)"
    by (induction b) (auto simp: d)
qed

lemma str_bytes_append: "str_bytes (a @ b) = str_bytes a @ str_bytes b"
  by (simp add: str_bytes_def)

lemma TrimSpace_pin:
  "TrimSpace (pin_body None) = str_bytes unsignedPin"
  "k \<noteq> [] \<Longrightarrow> TrimSpace (pin_body (Some k)) = str_bytes (hex_encode k)"
proof -
  have nl: "str_bytes [CHR 0x0A] = [10]" by (simp add: str_bytes_def byte_of_char_def)
  show "TrimSpace (pin_body None) = str_bytes unsignedPin"
    unfolding pin_body_def option.case str_bytes_append nl
    by (rule TrimSpace_line) (simp_all add: unsignedPin_def str_bytes_def byte_of_char_def graphic_def)
  assume k: "k \<noteq> []"
  then have ne: "hex_encode k \<noteq> []" by (cases k) auto
  have "graphic (byte_of_char (hd (hex_encode k)))" "graphic (byte_of_char (last (hex_encode k)))"
    using hex_digits_graphic hd_in_set [OF ne] last_in_set [OF ne] by blast+
  then show "TrimSpace (pin_body (Some k)) = str_bytes (hex_encode k)"
    unfolding pin_body_def option.case str_bytes_append nl
    using ne by (intro TrimSpace_line) (simp_all add: str_bytes_def hd_map last_map)
qed

text \<open>What a fault-free read of the pin file finds.\<close>

definition pin_in :: "files \<Rightarrow> ref_error + pin" where
  "pin_in fs =
     readPin \<lparr>read_fails = \<lambda>_. False, torn = \<lambda>_. None, rename_fails = \<lambda>_. False\<rparr> fs"

definition key_pin :: "bytes \<Rightarrow> pin" where "key_pin k = \<lparr>pin_key = Some k, pin_unsigned = False\<rparr>"
definition unsigned_pin :: pin where "unsigned_pin = \<lparr>pin_key = None, pin_unsigned = True\<rparr>"

definition pin_of_body :: "bytes option \<Rightarrow> pin" where
  "pin_of_body pub = (case pub of None \<Rightarrow> unsigned_pin | Some k \<Rightarrow> key_pin k)"

lemma pin_in_cong: "fs PinPath = fs' PinPath \<Longrightarrow> pin_in fs = pin_in fs'"
  by (simp add: pin_in_def readPin_def read_file_def)

lemma readPin_pin_in: "readPin d fs = Inr p \<Longrightarrow> pin_in fs = Inr p"
  by (auto simp: pin_in_def readPin_def read_file_def split: if_splits option.splits)

lemma pin_in_body:
  assumes "fs PinPath = Some (pin_body pub)" "\<forall>k. pub = Some k \<longrightarrow> length k = 32"
  shows "pin_in fs = Inr (pin_of_body pub)"
proof (cases pub)
  case None
  then show ?thesis
    using assms(1) by (simp add: pin_in_def readPin_def read_file_def TrimSpace_pin pin_of_body_def unsigned_pin_def)
next
  case (Some k')
  then have l: "length k' = 32" using assms by simp
  then have "length (hex_encode k') \<noteq> length unsignedPin" by (simp add: unsignedPin_def)
  then have "hex_encode k' \<noteq> unsignedPin"
    by (rule contrapos_nn) (rule arg_cong)
  moreover have "k' \<noteq> []" using l by auto
  ultimately show ?thesis
    using Some assms(1) l
    by (simp add: pin_in_def readPin_def read_file_def TrimSpace_pin parseKeyBytes_def pin_of_body_def key_pin_def)
qed

lemma pin_in_kind: "pin_in fs = Inr p \<Longrightarrow> p = no_pin \<or> p = unsigned_pin \<or> (\<exists>k. p = key_pin k \<and> length k = 32)"
  by (auto simp: pin_in_def readPin_def read_file_def no_pin_def unsigned_pin_def key_pin_def parseKeyBytes_def
      split: option.splits if_splits)

section \<open>What a fetch does\<close>

lemma writeAtomic_frame:
  assumes "writeAtomic d p data fs = (ok, fs')"
  shows "ok \<Longrightarrow> fs' p = Some data" "\<not> ok \<Longrightarrow> p \<noteq> Tmp p \<Longrightarrow> fs' p = fs p" "q \<noteq> p \<Longrightarrow> q \<noteq> Tmp p \<Longrightarrow> fs' q = fs q"
  using assms by (auto simp: writeAtomic_def split: option.splits if_splits)

lemma persist_frame:
  assumes "persist d b pub raw fs = (r, fs')"
  shows "r = None \<Longrightarrow> fs' PinPath = Some (pin_body pub) \<and> fs' (LastPath b) = Some raw"
    "fs' PinPath = fs PinPath \<or> fs' PinPath = Some (pin_body pub)"
    "fs' (LastPath c) = fs (LastPath c) \<or> c = b \<and> fs' (LastPath c) = Some raw"
  using assms writeAtomic_frame
  by (auto simp: persist_def writeAtomic_def split: prod.splits bool.splits option.splits if_splits)

lemma record_head_frame:
  assumes "record_head d b pub f fs = (res, fs')"
  shows "res = Inr g \<Longrightarrow> g = f \<and> fs' PinPath = Some (pin_body pub) \<and> fs' (LastPath b) = Some (f_Raw f)"
    "fs' PinPath = fs PinPath \<or> fs' PinPath = Some (pin_body pub)"
    "fs' (LastPath c) = fs (LastPath c) \<or> c = b \<and> fs' (LastPath c) = Some (f_Raw f)"
proof -
  obtain r fs1 where p: "persist d b pub (f_Raw f) fs = (r, fs1)" by force
  then have fs1: "fs' = fs1" and res: "res = (case r of None \<Rightarrow> Inr f | Some e \<Rightarrow> Inl e)"
    using assms by (auto simp: record_head_def split: option.splits)
  note fr = persist_frame [OF p]
  show "res = Inr g \<Longrightarrow> g = f \<and> fs' PinPath = Some (pin_body pub) \<and> fs' (LastPath b) = Some (f_Raw f)"
    using fr(1) res fs1 by (auto split: option.splits)
  show "fs' PinPath = fs PinPath \<or> fs' PinPath = Some (pin_body pub)" using fr(2) fs1 by simp
  show "fs' (LastPath c) = fs (LastPath c) \<or> c = b \<and> fs' (LastPath c) = Some (f_Raw f)" using fr(3) fs1 by simp
qed

text \<open>
  Why a reader may record \<open>pub\<close> as a volume's identity on seeing the head \<open>sb\<close>: it agreed to an
  unsigned volume; or it has no pin and the head is signed by the key it embeds; or the head
  is signed by the pinned key; or by the key that the last accepted head, signed by the
  pinned key, announced.
\<close>

definition announced_by :: "scheme \<Rightarrow> bytes \<Rightarrow> superblock \<Rightarrow> bytes \<Rightarrow> bool" where
  "announced_by sc key prev k \<longleftrightarrow> Verify sc key prev = None \<and> NextPub prev = Some k"

definition admits :: "scheme \<Rightarrow> policy \<Rightarrow> files \<Rightarrow> string \<Rightarrow> pin \<Rightarrow> superblock \<Rightarrow> bytes option \<Rightarrow> bool" where
  "admits sc pol fs b pinned sb pub \<longleftrightarrow>
     (case pub of
        None \<Rightarrow> IsUnsigned sb \<and> (pinned = unsigned_pin \<or> pinned = no_pin \<and> AllowUnsigned pol)
      | Some k \<Rightarrow> \<not> IsUnsigned sb \<and> Verify sc k sb = None \<and>
          (pinned = no_pin \<and> k = SigningPub sb \<or> pinned = key_pin k \<or>
           (\<exists>key prevRaw prev. pinned = key_pin key \<and> fs (LastPath b) = Some prevRaw \<and>
             unmarshal sc prevRaw = Some prev \<and> announced_by sc key prev k \<and>
             Generation sb = Generation prev + 1 \<and> PrevHash sb = sum256 sc prevRaw \<and> SigningPub sb = k)))"

lemma Verify_key_length: "Verify sc k sb = None \<Longrightarrow> length k = 32"
  by (simp add: Verify_ok)

lemma checkSigningKind_ok:
  assumes "checkSigningKind pol sb p True = None" "p = no_pin \<or> p = unsigned_pin \<or> (\<exists>k. p = key_pin k \<and> length k = 32)"
  shows "IsUnsigned sb \<Longrightarrow> p = unsigned_pin \<or> p = no_pin \<and> AllowUnsigned pol \<and> Trusted pol = None"
    "\<not> IsUnsigned sb \<Longrightarrow> p = no_pin \<or> (\<exists>k. p = key_pin k)"
  using assms by (auto simp: checkSigningKind_def no_pin_def unsigned_pin_def key_pin_def split: if_splits)

lemma decide_head_cases:
  assumes "decide_head sc pol d b p f fs = (res, fs')" "checkSigningKind pol (f_Superblock f) p True = None"
    "if Trusted pol = None then pin_in fs = Inr p else p = no_pin"
  shows "(\<exists>e. res = Inl e \<and> fs' = fs) \<or>
    (\<exists>t. Trusted pol = Some t \<and> Verify sc t (f_Superblock f) = None \<and> res = Inr f \<and> fs' = fs) \<or>
    (\<exists>pub. Trusted pol = None \<and> admits sc pol fs b p (f_Superblock f) pub \<and> record_head d b pub f fs = (res, fs'))"
proof -
  let ?sb = "f_Superblock f"
  have kind: "p = no_pin \<or> p = unsigned_pin \<or> (\<exists>k. p = key_pin k \<and> length k = 32)"
    using assms(3) pin_in_kind by (auto split: if_splits)
  note sk = checkSigningKind_ok [OF assms(2) kind] and dh = assms(1) [unfolded decide_head_def Let_def]
  show ?thesis
  proof (cases "IsUnsigned ?sb")
    case True
    moreover have "Trusted pol = None"
      using sk(1) [OF True] assms(3) by (auto simp: no_pin_def unsigned_pin_def split: if_splits)
    ultimately show ?thesis
      using sk(1) assms(1) by (auto simp: decide_head_def admits_def)
  next
    case signed: False
    show ?thesis
    proof (cases "Trusted pol")
      case (Some t)
      then show ?thesis using assms(1) signed by (auto simp: decide_head_def split: option.splits)
    next
      case None
      from sk(2) [OF signed] show ?thesis
      proof
        assume p: "p = no_pin"
        then have np: "\<not> present p" by (simp add: present_def no_pin_def)
        show ?thesis
        proof (cases "Verify sc (SigningPub ?sb) ?sb")
          case (Some e)
          then show ?thesis using dh signed None np by auto
        next
          case v: None
          have "admits sc pol fs b p ?sb (Some (SigningPub ?sb))" using v signed p by (simp add: admits_def)
          moreover have "record_head d b (Some (SigningPub ?sb)) f fs = (res, fs')" using v dh signed None np by simp
          ultimately show ?thesis using None by blast
        qed
      next
        assume "\<exists>k. p = key_pin k"
        then obtain k where p: "p = key_pin k" ..
        show ?thesis
        proof (cases "Verify sc k ?sb = None")
          case True
          then have "admits sc pol fs b p ?sb (Some k)" using signed p by (simp add: admits_def)
          moreover have "record_head d b (Some k) f fs = (res, fs')"
            using True dh signed None p by (simp add: present_def key_pin_def the_default_def)
          ultimately show ?thesis using None by blast
        next
          case False
          show ?thesis
          proof (cases "read_file d fs (LastPath b)")
            case (Inl e)
            then show ?thesis
              using dh signed None p False by (auto simp: present_def key_pin_def the_default_def)
          next
            case (Inr prevRaw)
            have last: "fs (LastPath b) = Some prevRaw"
              using Inr by (auto simp: read_file_def split: if_splits option.splits)
            show ?thesis
            proof (cases "VerifyChain sc prevRaw (Some ?sb) k")
              case (Some e)
              then show ?thesis
                using dh signed None p False Inr by (auto simp: present_def key_pin_def the_default_def)
            next
              case chain: None
              obtain prev where prev: "unmarshal sc prevRaw = Some prev" "Verify sc k prev = None"
                "Generation ?sb = Generation prev + 1" "PrevHash ?sb = sum256 sc prevRaw"
                "NextPub prev = Some (SigningPub ?sb)" "Verify sc (SigningPub ?sb) ?sb = None"
                using chain False unfolding VerifyChain_ok by auto
              have "admits sc pol fs b p ?sb (Some (SigningPub ?sb))"
                using prev last signed p by (auto simp: admits_def announced_by_def)
              moreover have "record_head d b (Some (SigningPub ?sb)) f fs = (res, fs')"
                using dh signed None p False Inr chain by (simp add: present_def key_pin_def the_default_def)
              ultimately show ?thesis using None by blast
            qed
          qed
        qed
      qed
    qed
  qed
qed

lemma Fetch_outcome:
  assumes "Fetch sc pol d b a fs = (res, fs')"
  shows "(\<exists>e. res = Inl e \<and> fs' = fs) \<or>
    (\<exists>f. unmarshal sc (f_Raw f) = Some (f_Superblock f) \<and> checkMonotonic sc d fs b (f_Superblock f) = None \<and>
      read_ref a = Inr (f_Raw f, f_ETag f) \<and>
      ((\<exists>t. Trusted pol = Some t \<and> Verify sc t (f_Superblock f) = None \<and> res = Inr f \<and> fs' = fs) \<or>
       (\<exists>p pub. Trusted pol = None \<and> pin_in fs = Inr p \<and> admits sc pol fs b p (f_Superblock f) pub \<and>
         record_head d b pub f fs = (res, fs'))))"
proof (cases "\<exists>e. res = Inl e \<and> fs' = fs")
  case False
  then obtain raw etag where r: "read_ref a = Inr (raw, etag)"
    using assms by (auto simp: Fetch_def split: if_splits sum.splits)
  with False obtain sb where sb: "unmarshal sc raw = Some sb"
    using assms by (cases "unmarshal sc raw") (auto simp: Fetch_def split: if_splits)
  with r False have m: "checkMonotonic sc d fs b sb = None"
    using assms by (cases "checkMonotonic sc d fs b sb") (auto simp: Fetch_def split: if_splits)
  from sb m r False obtain p where p: "pinFor pol d fs = Inr p"
    using assms by (cases "pinFor pol d fs") (auto simp: Fetch_def split: if_splits)
  from sb m r p False have k: "checkSigningKind pol sb p True = None"
    using assms by (cases "checkSigningKind pol sb p True") (auto simp: Fetch_def split: if_splits)
  let ?f = "\<lparr>f_Superblock = sb, f_Raw = raw, f_ETag = etag\<rparr>"
  have dh: "decide_head sc pol d b p ?f fs = (res, fs')"
    using assms r sb m p k False by (auto simp: Fetch_def split: if_splits)
  have pin: "if Trusted pol = None then pin_in fs = Inr p else p = no_pin"
    using p readPin_pin_in by (auto simp: pinFor_def split: if_splits)
  from decide_head_cases [OF dh _ pin] k sb m r False pin show ?thesis
    by (intro disjI2 exI [of _ ?f]) (auto split: if_splits)
qed simp

text \<open>What another writer's put does to the store.\<close>

definition landed :: "string \<Rightarrow> string \<Rightarrow> bytes \<Rightarrow> objects \<Rightarrow> objects" where
  "landed branch etag raw w = snd (Put (PutDone etag) (refKey branch) raw w)"

section \<open>A reader over time\<close>

text \<open>
  What changes a reader's state besides the two commands that re-pin it: fetches, under any
  policy, of any answer, on any disk that satisfies \<open>ok\<close>, and deletions of branches among
  \<open>gone\<close>. Tags, scavenged documents and flips leave it alone.
\<close>

inductive reader_step :: "scheme \<Rightarrow> (disk \<Rightarrow> bool) \<Rightarrow> string set \<Rightarrow> files \<Rightarrow> files \<Rightarrow> bool"
  for sc :: scheme and ok :: "disk \<Rightarrow> bool" and gone :: "string set" where
  fetch: "ok d \<Longrightarrow> Fetch sc pol d b a fs = (res, fs') \<Longrightarrow> reader_step sc ok gone fs fs'"
| forget: "name \<in> gone \<Longrightarrow> DeleteBranch sf out rm name (w, fs) = (e, w', fs') \<Longrightarrow> reader_step sc ok gone fs fs'"

inductive_cases reader_stepE: "reader_step sc ok gone fs fs'"

text \<open>Keys reachable from \<open>k\<close> through announcements signed by each key in turn.\<close>

inductive custody :: "scheme \<Rightarrow> bytes \<Rightarrow> bytes \<Rightarrow> bool" for sc :: scheme where
  same: "custody sc k k"
| announced: "custody sc k k' \<Longrightarrow> announced_by sc k' prev k'' \<Longrightarrow> custody sc k k''"

lemma custody_trans: "custody sc j k \<Longrightarrow> custody sc i j \<Longrightarrow> custody sc i k"
  by (induction rule: custody.induct) (auto intro: custody.announced)

definition recorded :: "scheme \<Rightarrow> files \<Rightarrow> string \<Rightarrow> uint64 option" where
  "recorded sc fs b = (case fs (LastPath b) of None \<Rightarrow> None | Some raw \<Rightarrow> map_option Generation (unmarshal sc raw))"

lemma DeleteBranch_frame:
  assumes "DeleteBranch sf out rm name (w, fs) = (e, w', fs')"
  shows "fs' PinPath = fs PinPath" "b \<noteq> name \<Longrightarrow> fs' (LastPath b) = fs (LastPath b)"
  using assms by (auto simp: DeleteBranch_def split: option.splits if_splits prod.splits bool.splits)

lemma admits_key: "admits sc pol fs b (key_pin k) sb pub \<Longrightarrow> \<exists>k'. pub = Some k' \<and> length k' = 32 \<and> custody sc k k'"
  by (auto simp: admits_def no_pin_def unsigned_pin_def key_pin_def split: option.splits
      dest: Verify_key_length intro: custody.intros)

lemma admits_unsigned: "admits sc pol fs b unsigned_pin sb pub \<Longrightarrow> pub = None"
  by (auto simp: admits_def no_pin_def unsigned_pin_def key_pin_def split: option.splits)

lemma admits_length: "admits sc pol fs b p sb pub \<Longrightarrow> \<forall>k. pub = Some k \<longrightarrow> length k = 32"
  by (auto simp: admits_def dest: Verify_key_length)

lemma reader_step_pin:
  assumes "reader_step sc ok gone fs fs'"
  shows "pin_in fs' = pin_in fs \<or>
    (\<exists>pol b p sb pub. pin_in fs = Inr p \<and> admits sc pol fs b p sb pub \<and> pin_in fs' = Inr (pin_of_body pub))"
  using assms
proof (cases rule: reader_step.cases)
  case (fetch d pol b a res)
  from Fetch_outcome [OF fetch(2)] show ?thesis
  proof (elim disjE exE conjE)
    fix f p pub
    assume a: "pin_in fs = Inr p" "admits sc pol fs b p (f_Superblock f) pub" "record_head d b pub f fs = (res, fs')"
    from record_head_frame(2) [OF a(3)] show ?thesis
      using a pin_in_cong [of fs' fs] pin_in_body [of fs' pub] admits_length [OF a(2)] by blast
  qed auto
next
  case (forget name sf out rm w e w')
  then show ?thesis using DeleteBranch_frame(1) pin_in_cong by blast
qed

lemma reader_step_key:
  assumes "reader_step sc ok gone fs fs'" "pin_in fs = Inr (key_pin k)"
  shows "\<exists>k'. pin_in fs' = Inr (key_pin k') \<and> custody sc k k'"
  using reader_step_pin [OF assms(1)] assms(2)
  by (auto dest!: admits_key simp: pin_of_body_def intro: custody.same)

lemma reader_step_unsigned:
  assumes "reader_step sc ok gone fs fs'" "pin_in fs = Inr unsigned_pin"
  shows "pin_in fs' = Inr unsigned_pin"
  using reader_step_pin [OF assms(1)] assms(2)
  by (auto dest!: admits_unsigned simp: pin_of_body_def)

lemma reader_step_recorded:
  assumes "reader_step sc ok gone fs fs'" "\<forall>d. ok d \<longrightarrow> \<not> read_fails d (LastPath b)" "b \<notin> gone"
    "recorded sc fs b = Some g"
  shows "\<exists>g'. recorded sc fs' b = Some g' \<and> g \<le> g'"
  using assms(1)
proof (cases rule: reader_step.cases)
  case (fetch d pol c a res)
  from Fetch_outcome [OF fetch(2)] show ?thesis
  proof (elim disjE exE conjE)
    fix f p pub
    assume f: "unmarshal sc (f_Raw f) = Some (f_Superblock f)" "checkMonotonic sc d fs c (f_Superblock f) = None"
      and r: "record_head d c pub f fs = (res, fs')"
    show ?thesis
    proof (cases "fs' (LastPath b) = fs (LastPath b)")
      case True
      then show ?thesis using assms(4) by (simp add: recorded_def)
    next
      case False
      then have c: "b = c" "fs' (LastPath b) = Some (f_Raw f)" using record_head_frame(3) [OF r] by auto
      have "\<not> read_fails d (LastPath c)" using assms(2) fetch(1) c by simp
      then have "\<not> Generation (f_Superblock f) < g"
        using f(2) assms(4) c by (auto simp: checkMonotonic_def read_file_def recorded_def split: option.splits if_splits)
      then show ?thesis using c f(1) by (simp add: recorded_def)
    qed
  qed (use assms(4) in auto)
next
  case (forget name sf out rm w e w')
  then have "fs' (LastPath b) = fs (LastPath b)" using DeleteBranch_frame(2) assms(3) by metis
  then show ?thesis using assms(4) by (simp add: recorded_def)
qed

section \<open>Properties\<close>

text \<open>
  C9: A volume's identity never changes silently. Whatever origins serve a reader, whatever
  policies it fetches under and whatever its disk loses, a reader pinned to a key stays pinned
  to a key, one reached from it by announcements each signed by the key before; and a reader
  that recorded a volume as unsigned keeps it so.
\<close>

theorem pin_moves_only_by_custody:
  assumes "(reader_step sc ok gone)\<^sup>*\<^sup>* fs fs'"
  shows "(pin_in fs = Inr (key_pin k) \<longrightarrow> (\<exists>k'. pin_in fs' = Inr (key_pin k') \<and> custody sc k k')) \<and>
    (pin_in fs = Inr unsigned_pin \<longrightarrow> pin_in fs' = Inr unsigned_pin)"
  using assms
proof (induction rule: rtranclp_induct)
  case base
  then show ?case by (auto intro: custody.same)
next
  case (step fs1 fs2)
  have "\<exists>k2. pin_in fs2 = Inr (key_pin k2) \<and> custody sc k k2"
    if "pin_in fs1 = Inr (key_pin k1)" "custody sc k k1" for k1
    using reader_step_key [OF step(2) that(1)] custody_trans that(2) by blast
  then show ?case using step reader_step_unsigned by blast
qed

text \<open>
  C10: No rollback. On disks that can read the record of a branch, and while the branch is not
  deleted by this client, the generation recorded for it never goes down, whatever is served.
\<close>

theorem recorded_generation_never_falls:
  assumes "(reader_step sc ok gone)\<^sup>*\<^sup>* fs fs'" "\<forall>d. ok d \<longrightarrow> \<not> read_fails d (LastPath b)" "b \<notin> gone"
    "recorded sc fs b = Some g"
  shows "\<exists>g'. recorded sc fs' b = Some g' \<and> g \<le> g'"
  using assms(1)
proof (induction rule: rtranclp_induct)
  case base
  then show ?case using assms(4) by auto
next
  case (step fs1 fs2)
  then obtain g1 where "recorded sc fs1 b = Some g1" "g \<le> g1" by blast
  then show ?case using reader_step_recorded [OF step(2) assms(2,3)] order_trans by blast
qed

lemma read_ref_served:
  assumes "read_ref a = Inr (raw, etag)"
  shows "(a_get a = Inr (raw, None) \<or>
      (\<exists>err. readWhole (a_get a) = Inl err \<and> isChecksumMismatch err \<and> a_unverified a = Some (Inr (raw, None)))) \<and>
    length raw \<le> MaxMutableObject \<and> etag = (case a_stat a of None \<Rightarrow> [] | Some t \<Rightarrow> t)"
  using assms
  by (auto simp: read_ref_def ReadMutable_def dest: readWhole_Inr split: sum.splits option.splits if_splits)

text \<open>
  C11: What a fetch accepts is authentic. A head \<open>Fetch\<close> returns is the decoding of the bytes
  the origin served, whole and within the size limit, either in its answer or, when that failed
  its checksum, in the unverified re-read; its ETag is the one the stat showed. Under an
  explicit key it verifies under that key and nothing is recorded; otherwise it is admitted by
  the reader's pin (\<open>admits\<close>), and the pin and the branch's record now say who was believed and
  what was accepted.
\<close>

theorem accepted_head_is_authentic:
  assumes "Fetch sc pol d b a fs = (Inr f, fs')"
  shows "(a_get a = Inr (f_Raw f, None) \<or>
      (\<exists>err. readWhole (a_get a) = Inl err \<and> isChecksumMismatch err \<and> a_unverified a = Some (Inr (f_Raw f, None)))) \<and>
    length (f_Raw f) \<le> MaxMutableObject \<and> f_ETag f = (case a_stat a of None \<Rightarrow> [] | Some etag \<Rightarrow> etag) \<and>
    unmarshal sc (f_Raw f) = Some (f_Superblock f) \<and>
    (case Trusted pol of
       Some t \<Rightarrow> Verify sc t (f_Superblock f) = None \<and> fs' = fs
     | None \<Rightarrow> \<exists>p pub. pin_in fs = Inr p \<and> admits sc pol fs b p (f_Superblock f) pub \<and>
         pin_in fs' = Inr (pin_of_body pub) \<and> fs' (LastPath b) = Some (f_Raw f))"
proof -
  obtain f' where a: "unmarshal sc (f_Raw f') = Some (f_Superblock f')" "read_ref a = Inr (f_Raw f', f_ETag f')"
    and c: "(\<exists>t. Trusted pol = Some t \<and> Verify sc t (f_Superblock f') = None \<and> f = f' \<and> fs' = fs) \<or>
      (\<exists>p pub. Trusted pol = None \<and> pin_in fs = Inr p \<and> admits sc pol fs b p (f_Superblock f') pub \<and>
         record_head d b pub f' fs = (Inr f, fs'))"
    using Fetch_outcome [OF assms] by auto
  from c show ?thesis
  proof (elim disjE exE conjE)
    fix p pub
    assume r: "Trusted pol = None" "pin_in fs = Inr p" "admits sc pol fs b p (f_Superblock f') pub"
      "record_head d b pub f' fs = (Inr f, fs')"
    note fr = record_head_frame(1) [OF r(4) refl]
    have "pin_in fs' = Inr (pin_of_body pub)" using fr admits_length [OF r(3)] by (intro pin_in_body) auto
    then show ?thesis using a(1) r fr read_ref_served [OF a(2)] by auto
  qed (use a read_ref_served [OF a(2)] in auto)
qed

text \<open>
  An explicit key remembers nothing. Under \<open>--volume-pubkey\<close> a fetch records no generation,
  so a reader with no record accepts two signed heads in either order, the second older than
  the first: the rollback check has nothing to compare with.
\<close>

theorem explicit_key_accepts_older_head:
  assumes "Trusted pol = Some t" "fs (LastPath b) = None" "\<not> has_separator b"
    "\<forall>sb \<in> {newer, older}. \<not> IsUnsigned sb \<and> Verify sc t sb = None"
    "unmarshal sc raw1 = Some newer" "unmarshal sc raw2 = Some older"
    "length raw1 \<le> MaxMutableObject" "length raw2 \<le> MaxMutableObject"
  shows "(\<exists>f. Fetch sc pol d b \<lparr>a_stat = st, a_get = Inr (raw1, None), a_unverified = None\<rparr> fs = (Inr f, fs) \<and>
      f_Superblock f = newer) \<and>
    (\<exists>f. Fetch sc pol d b \<lparr>a_stat = st, a_get = Inr (raw2, None), a_unverified = None\<rparr> fs = (Inr f, fs) \<and>
      f_Superblock f = older)"
proof -
  have m: "checkMonotonic sc d fs b sb = None" for sb
    using assms(2) by (simp add: checkMonotonic_def read_file_def)
  have k: "checkSigningKind pol sb no_pin True = None" if "\<not> IsUnsigned sb" for sb
    using that by (simp add: checkSigningKind_def no_pin_def)
  show ?thesis
    using assms m k by (simp add: Fetch_def read_ref_def pinFor_def decide_head_def)
qed

text \<open>
  A flip that succeeds was visible. Whatever other writers do between its steps, when
  \<open>Flip\<close> reports success its bytes are the branch's object; and unless the stat failed, the
  object it found was absent exactly when none was expected, and otherwise had the expected
  ETag or none.
\<close>

theorem flip_success_was_visible:
  assumes "Flip stat_fails outcome get_fails others1 others2 branch raw expect w = (None, w')"
  shows "(\<exists>ob. w' (refKey branch) = Some ob \<and> ob_data ob = raw) \<and>
    (stat_fails \<or> ((w (refKey branch) = None) = (expect = [])) \<and>
      (case w (refKey branch) of None \<Rightarrow> True | Some ob \<Rightarrow> ob_etag ob = [] \<or> ob_etag ob = expect))"
proof -
  have check: "flip_check stat_fails branch expect w = None"
    using assms by (auto simp: Flip_def split: option.splits)
  have verify: "flip_verify get_fails branch raw w' = None"
    using assms check by (auto simp: Flip_def Let_def split: prod.splits bool.splits)
  then have v: "VerifyPut (Get get_fails w' (refKey branch)) None raw = Verified"
    by (auto simp: flip_verify_def split: put_check.splits)
  then have "ReadMutable (Get get_fails w' (refKey branch)) None = Inr raw"
    by (auto simp: VerifyPut_def split: sum.splits if_splits)
  then have "Get get_fails w' (refKey branch) = Inr (raw, None)"
    by (auto simp: ReadMutable_def split: sum.splits if_splits option.splits dest: readWhole_Inr)
  then have "\<exists>ob. w' (refKey branch) = Some ob \<and> ob_data ob = raw"
    by (auto simp: Get_def split: option.splits)
  moreover have "stat_fails \<or> ((w (refKey branch) = None) = (expect = [])) \<and>
      (case w (refKey branch) of None \<Rightarrow> True | Some ob \<Rightarrow> ob_etag ob = [] \<or> ob_etag ob = expect)"
    using check by (auto simp: flip_check_def StatKey_def split: option.splits if_splits)
  ultimately show ?thesis ..
qed

text \<open>
  A lost race is told. When two writers flip the same head and both put before either reads
  back, the store ends with the later one's generation, that writer succeeds, and the other
  is told its generation was overwritten.
\<close>

theorem lost_race_is_told:
  assumes "w (refKey branch) = Some ob" "ob_etag ob = expect" "expect \<noteq> []"
    "rawA \<noteq> rawB" "length rawB \<le> MaxMutableObject"
  shows "Flip False (PutDone eA) None id (landed branch eB rawB) branch rawA expect w = (Some ErrFlipClobbered, landed branch eB rawB w) \<and>
    Flip False (PutDone eB) None (landed branch eA rawA) id branch rawB expect w = (None, landed branch eB rawB w)"
  using assms
  by (simp add: landed_def Flip_def flip_check_def StatKey_def Put_def flip_verify_def Get_def)

text \<open>
  A failed stat opens the guards. A stat that fails for any reason reads as absence, so a
  tag is overwritten although tags are immutable, and a first-generation flip overwrites a
  branch that exists.
\<close>

theorem stat_failure_overwrites:
  assumes "ValidateName name = None" "length raw \<le> MaxMutableObject"
  shows "Tag True (PutDone e) name raw w = (None, w(tagKey name \<mapsto> \<lparr>ob_data = raw, ob_etag = e\<rparr>)) \<and>
    Flip True (PutDone e) None id id name raw [] w = (None, w(refKey name \<mapsto> \<lparr>ob_data = raw, ob_etag = e\<rparr>))"
  using assms by (simp add: Tag_def Flip_def flip_check_def StatKey_def Put_def flip_verify_def Get_def)

section \<open>Witnesses\<close>

text \<open>
  A scheme over documents that differ in their generation and keys only: the bytes are the
  key, the announced key and the generation, and a signature is the key and the message.
\<close>

definition key_of :: "byte \<Rightarrow> bytes" where "key_of x = replicate 32 x"

definition doc :: "byte \<Rightarrow> byte \<Rightarrow> byte \<Rightarrow> superblock" where
  "doc k next g = ex_superblock\<lparr>Generation := ucast g, SigningPub := key_of k, NextPub := Some (key_of next),
     PrevHash := [], Signature := key_of k\<rparr>"

fun doc_of :: "bytes \<Rightarrow> superblock option" where
  "doc_of [k, next, g] = Some (doc k next g)"
| "doc_of _ = None"

definition doc_scheme :: scheme where
  "doc_scheme = \<lparr>marshal = \<lambda>sb. Some [], unmarshal = doc_of, ed_public = take 32, ed_sign = \<lambda>priv msg. take 32 priv,
     ed_verify = \<lambda>pub msg sig. sig = pub, sum256 = \<lambda>b. []\<rparr>"

definition sound_disk :: disk where
  "sound_disk = \<lparr>read_fails = \<lambda>_. False, torn = \<lambda>_. None, rename_fails = \<lambda>_. False\<rparr>"

definition serve :: "bytes \<Rightarrow> answer" where
  "serve raw = \<lparr>a_stat = None, a_get = Inr (raw, None), a_unverified = None\<rparr>"

lemma key_of_nonzero: "x \<noteq> 0 \<Longrightarrow> key_of x \<noteq> zero32"
  by (simp add: key_of_def zero32_def)

lemma doc_fields [simp]: "Generation (doc k n g) = ucast g" "SigningPub (doc k n g) = key_of k"
  "NextPub (doc k n g) = Some (key_of n)" "Signature (doc k n g) = key_of k" "PrevHash (doc k n g) = []"
  by (simp_all add: doc_def)

lemma doc_verifies: "Verify doc_scheme key (doc k n g) = (if length key \<noteq> 32 then Some (PublicKeySize (length key))
    else if key_of k = key then None else Some ErrBadSignature)"
  by (simp add: Verify_def signingMessage_def doc_scheme_def)

lemma doc_signed: "k \<noteq> 0 \<Longrightarrow> \<not> IsUnsigned (doc k n g)"
  by (simp add: IsUnsigned_def key_of_nonzero)

lemma sound_disk [simp]:
  "read_file sound_disk fs p = (case fs p of None \<Rightarrow> Inl NotExist | Some b \<Rightarrow> Inr b)"
  "writeAtomic sound_disk p data fs = (True, fs(Tmp p := None, p \<mapsto> data))"
  by (simp_all add: read_file_def writeAtomic_def sound_disk_def)

lemma serve_read: "length raw \<le> MaxMutableObject \<Longrightarrow> read_ref (serve raw) = Inr (raw, [])"
  by (simp add: serve_def read_ref_def)

lemmas small_doc = serve_read [of "[k, n, g]" for k n g, simplified MaxMutableObject_def, simplified]

lemma doc_of_scheme: "unmarshal doc_scheme [k, n, g] = Some (doc k n g)"
  by (simp add: doc_scheme_def)

lemmas fetch_simps = Fetch_def small_doc doc_of_scheme checkMonotonic_def pinFor_def checkSigningKind_def
  decide_head_def Let_def present_def doc_verifies record_head_def persist_def the_default_def

definition tofu :: policy where "tofu = \<lparr>Trusted = None, AllowUnsigned = False\<rparr>"

lemma tofu_simps [simp]: "Trusted tofu = None" "AllowUnsigned tofu = False"
  by (simp_all add: tofu_def)

lemma length_key_of [simp]: "length (key_of k) = 32"
  by (simp add: key_of_def)

lemma key_of_inject [simp]: "key_of a = key_of b \<longleftrightarrow> a = b"
  by (simp add: key_of_def)

lemma first_use:
  assumes "k \<noteq> 0" "\<not> has_separator b"
  shows "\<exists>f fs'. Fetch doc_scheme tofu sound_disk b (serve [k, n, g]) (\<lambda>_. None) = (Inr f, fs') \<and>
    f_Superblock f = doc k n g"
  using assms by (simp add: fetch_simps doc_signed readPin_def no_pin_def)

theorem accepted_head_is_authentic_witness:
  "\<exists>f fs'. Fetch doc_scheme tofu sound_disk ''main'' (serve [7, 8, 3]) (\<lambda>_. None) = (Inr f, fs') \<and>
     f_Raw f = [7, 8, 3] \<and>
     unmarshal doc_scheme (f_Raw f) = Some (f_Superblock f) \<and> fs' (LastPath ''main'') = Some (f_Raw f)"
proof -
  obtain f fs' where f: "Fetch doc_scheme tofu sound_disk ''main'' (serve [7, 8, 3]) (\<lambda>_. None) = (Inr f, fs')"
    using first_use [of 7 "''main''" 8 3] by (auto simp: has_separator_def)
  from accepted_head_is_authentic [OF f] f show ?thesis by (auto simp: serve_def)
qed

text \<open>A reader pinned to the key 7, whose branch record announces 8, accepts the head signed by 8.\<close>

definition pinned_files :: files where
  "pinned_files = (\<lambda>_. None)(PinPath \<mapsto> pin_body (Some (key_of 7)), LastPath ''main'' \<mapsto> [7, 8, 3])"

lemma pinned_pin: "pin_in pinned_files = Inr (key_pin (key_of 7))"
  using pin_in_body [of pinned_files "Some (key_of 7)"]
  by (simp add: pinned_files_def pin_of_body_def)

lemma rotation: "\<exists>fs'. (reader_step doc_scheme (\<lambda>d. \<not> read_fails d (LastPath ''main'')) {})\<^sup>*\<^sup>* pinned_files fs' \<and>
    pin_in fs' = Inr (key_pin (key_of 8)) \<and> fs' (LastPath ''main'') = Some [8, 8, 4]"
proof -
  have pin: "readPin sound_disk pinned_files = Inr (key_pin (key_of 7))"
    using pinned_pin by (simp add: pin_in_def sound_disk_def)
  have chain: "VerifyChain doc_scheme [7, 8, 3] (Some (doc 8 8 4)) (key_of 7) = None"
    unfolding VerifyChain_ok by (simp add: doc_of_scheme doc_verifies) (simp add: doc_scheme_def)
  have last: "pinned_files (LastPath ''main'') = Some [7, 8, 3]" by (simp add: pinned_files_def)
  obtain f fs' where f: "Fetch doc_scheme tofu sound_disk ''main'' (serve [8, 8, 4]) pinned_files = (Inr f, fs')"
    and fs': "fs' PinPath = Some (pin_body (Some (key_of 8)))" "fs' (LastPath ''main'') = Some [8, 8, 4]"
    by (simp add: fetch_simps doc_signed pin last chain key_pin_def has_separator_def)
  have "reader_step doc_scheme (\<lambda>d. \<not> read_fails d (LastPath ''main'')) {} pinned_files fs'"
    by (rule reader_step.fetch [OF _ f]) (simp add: sound_disk_def)
  moreover have "pin_in fs' = Inr (key_pin (key_of 8))"
    using pin_in_body [of fs' "Some (key_of 8)"] fs'(1) by (simp add: pin_of_body_def)
  ultimately show ?thesis using fs'(2) by blast
qed

theorem pin_moves_only_by_custody_witness:
  "custody doc_scheme (key_of 7) (key_of 8)"
proof -
  obtain fs' where s: "(reader_step doc_scheme (\<lambda>d. \<not> read_fails d (LastPath ''main'')) {})\<^sup>*\<^sup>* pinned_files fs'"
    "pin_in fs' = Inr (key_pin (key_of 8))"
    using rotation by blast
  from pin_moves_only_by_custody [OF s(1), of "key_of 7"] pinned_pin s(2) show ?thesis
    by (auto simp: key_pin_def)
qed

theorem recorded_generation_never_falls_witness:
  "\<exists>fs' g. (reader_step doc_scheme (\<lambda>d. \<not> read_fails d (LastPath ''main'')) {})\<^sup>*\<^sup>* pinned_files fs' \<and>
     recorded doc_scheme fs' ''main'' = Some g \<and> 3 \<le> g"
proof -
  obtain fs' where s: "(reader_step doc_scheme (\<lambda>d. \<not> read_fails d (LastPath ''main'')) {})\<^sup>*\<^sup>* pinned_files fs'"
    using rotation by blast
  have "recorded doc_scheme pinned_files ''main'' = Some 3"
    by (simp add: recorded_def pinned_files_def doc_of_scheme)
  with recorded_generation_never_falls [OF s(1), of "''main''" 3] s show ?thesis by auto
qed

theorem explicit_key_accepts_older_head_witness:
  "\<exists>f. Fetch doc_scheme \<lparr>Trusted = Some (key_of 7), AllowUnsigned = False\<rparr> sound_disk ''main'' (serve [7, 7, 3]) (\<lambda>_. None) =
      (Inr f, \<lambda>_. None) \<and> f_Superblock f = doc 7 7 3"
proof -
  have "\<forall>sb \<in> {doc 7 7 9, doc 7 7 3}. \<not> IsUnsigned sb \<and> Verify doc_scheme (key_of 7) sb = None"
    by (simp add: doc_signed doc_verifies)
  then show ?thesis
    using explicit_key_accepts_older_head [of "\<lparr>Trusted = Some (key_of 7), AllowUnsigned = False\<rparr>" "key_of 7"
        "\<lambda>_. None" "''main''" "doc 7 7 9" "doc 7 7 3" doc_scheme "[7, 7, 9]" "[7, 7, 3]" sound_disk None]
    by (simp add: has_separator_def doc_scheme_def MaxMutableObject_def serve_def)
qed

theorem flip_success_was_visible_witness:
  "\<exists>w'. Flip False (PutDone ''e'') None id id ''main'' [1] [] (\<lambda>_. None) = (None, w') \<and>
     (\<exists>ob. w' (refKey ''main'') = Some ob \<and> ob_data ob = [1])"
proof -
  obtain w' where f: "Flip False (PutDone ''e'') None id id ''main'' [1] [] (\<lambda>_. None) = (None, w')"
    by (simp add: Flip_def flip_check_def StatKey_def Put_def flip_verify_def Get_def MaxMutableObject_def)
  from flip_success_was_visible [OF f] f show ?thesis by blast
qed

theorem lost_race_is_told_witness:
  "\<exists>w'. Flip False (PutDone ''a'') None id (landed ''main'' ''b'' [2]) ''main'' [1] ''e''
     ((\<lambda>_. None)(refKey ''main'' \<mapsto> \<lparr>ob_data = [0], ob_etag = ''e''\<rparr>)) = (Some ErrFlipClobbered, w')"
  using lost_race_is_told [of "(\<lambda>_. None)(refKey ''main'' \<mapsto> \<lparr>ob_data = [0], ob_etag = ''e''\<rparr>)" "''main''"
      "\<lparr>ob_data = [0], ob_etag = ''e''\<rparr>" "''e''" "[1]" "[2]" "''a''" "''b''"]
  by (simp add: MaxMutableObject_def)

theorem stat_failure_overwrites_witness:
  "Tag True (PutDone ''e'') ''v1'' [1] ((\<lambda>_. None)(tagKey ''v1'' \<mapsto> \<lparr>ob_data = [0], ob_etag = ''d''\<rparr>)) =
     (None, (\<lambda>_. None)(tagKey ''v1'' \<mapsto> \<lparr>ob_data = [1], ob_etag = ''e''\<rparr>))"
  using stat_failure_overwrites [of "''v1''" "[1]" "''e''"]
  by (simp add: ValidateName_def has_separator_def suffix_def MaxMutableObject_def)

end
