(* ===== verification/Write_Lease.thy ===== *)
theory Write_Lease
  imports Pinned_Refs
begin

text \<open>
  The advisory write lease on a branch, \<open>internal/lease/lease.go\<close>: acquiring, renewing, fencing a
  publish, resolving an absence, releasing. The world is a state of any type with the clock,
  the object store and the caller's head comparison as operations on it, so whatever else
  happens between two of a session's requests is part of what those operations do. JSON is a
  parameter; a record's time to live is the duration its float of seconds converts to.
  Operations of one session run one at a time, each as the code runs it under its locks;
  log lines and messages are omitted, the conflict callback is recorded.
\<close>

section \<open>Records, clocks and the world\<close>

text \<open>An instant has a monotonic and a wall reading, in nanoseconds.\<close>

record instant =
  mono :: int
  wall :: int

record info =
  in_Session :: string
  in_Hostname :: string
  in_PID :: int
  in_Branch :: string
  in_Acquired :: int
  in_Renewed :: int
  in_TTL :: int

record key_info =
  ki_Mtime :: int
  ki_ETag :: string

datatype fault = Missing | Fault

record 'w ops =
  clock :: "'w \<Rightarrow> instant \<times> 'w"
  stat_key :: "string \<Rightarrow> 'w \<Rightarrow> (fault + key_info) \<times> 'w"
  read_key :: "string \<Rightarrow> 'w \<Rightarrow> (fault + bytes) \<times> 'w"
  put_key :: "string \<Rightarrow> bytes \<Rightarrow> 'w \<Rightarrow> bool \<times> 'w"
  delete_key :: "string \<Rightarrow> 'w \<Rightarrow> bool \<times> 'w"
  marshal_info :: "info \<Rightarrow> bytes"
  unmarshal_info :: "bytes \<Rightarrow> info option"

definition VolumeKey :: string where "VolumeKey = ''meta/lease.json''"
definition branchKeyPrefix :: string where "branchKeyPrefix = ''lease-''"
definition branchKeySuffix :: string where "branchKeySuffix = ''.json''"

definition BranchKey :: "string \<Rightarrow> name_error + string" where
  "BranchKey branch =
     (case ValidateName branch of
        Some e \<Rightarrow> Inl e
      | None \<Rightarrow> Inr (''meta/'' @ branchKeyPrefix @ branch @ branchKeySuffix))"

definition IsLeaseObject :: "string \<Rightarrow> bool" where
  "IsLeaseObject name \<longleftrightarrow> name = ''lease.json'' \<or> prefix branchKeyPrefix name \<and> suffix branchKeySuffix name"

definition milli :: int where "milli = 1000000"
definition DefaultTTL :: int where "DefaultTTL = 120 * 1000 * milli"

section \<open>The lease\<close>

record lease_opts =
  o_Session :: string
  o_Branch :: string
  o_TTL :: int
  o_RenewInterval :: int
  o_Steal :: bool
  o_IgnoreVolumeLease :: bool

text \<open>\<open>reports\<close> are the calls of the conflict callback, with the holder each was given.\<close>

record lease =
  l_key :: string
  l_opts :: lease_opts
  l_info :: info
  conflicted :: bool
  l_holder :: "info option"
  renewedAt :: "instant option"
  interrupted :: bool
  said_conflict :: bool
  said_interrupt :: bool
  revalidatedAt :: "instant option"
  reports :: "info option list"

datatype lease_error = ErrHeld | ErrLost | ErrUnconfirmed | LeaseName name_error | LeaseRead | LeaseWrite
  | LeaseVerify | LeaseCanceled | LeaseRelease

text \<open>The larger of what the two clocks say; nothing has passed since the zero time.\<close>

definition gapSince :: "instant \<Rightarrow> instant option \<Rightarrow> int" where
  "gapSince now t = (case t of None \<Rightarrow> 0 | Some t \<Rightarrow> max (mono now - mono t) (wall now - wall t))"

definition isLive :: "int \<Rightarrow> info option \<Rightarrow> key_info \<Rightarrow> int \<Rightarrow> bool \<times> int" where
  "isLive wall_now holder ki fallbackTTL =
     (let freshest = (case holder of Some h \<Rightarrow> max (in_Renewed h) (ki_Mtime ki) | None \<Rightarrow> ki_Mtime ki);
          ttl = (case holder of Some h \<Rightarrow> if 0 < in_TTL h then in_TTL h else fallbackTTL | None \<Rightarrow> fallbackTTL);
          remaining = freshest + ttl - wall_now
      in (0 < remaining, remaining))"

text \<open>\<open>read\<close>: the record if it parses, the metadata if the stat worked, and the failure if any.\<close>

definition lease_read :: "'w ops \<Rightarrow> string \<Rightarrow> 'w \<Rightarrow> (info option \<times> key_info option \<times> fault option) \<times> 'w" where
  "lease_read ops key w =
     (case stat_key ops key w of
        (Inl e, w1) \<Rightarrow> ((None, None, Some e), w1)
      | (Inr ki, w1) \<Rightarrow>
          (case read_key ops key w1 of
             (Inl e, w2) \<Rightarrow> ((None, Some ki, Some e), w2)
           | (Inr data, w2) \<Rightarrow> ((unmarshal_info ops data, Some ki, None), w2)))"

datatype owner = OwnerUs info | OwnerOther "info option"

definition whose :: "'w ops \<Rightarrow> lease \<Rightarrow> 'w \<Rightarrow> (fault + owner) \<times> 'w" where
  "whose ops l w =
     (case lease_read ops (l_key l) w of
        ((rec1, ki, Some e), w1) \<Rightarrow> (Inl e, w1)
      | ((rec1, ki, None), w1) \<Rightarrow>
          (Inr (case rec1 of
                  Some r \<Rightarrow> if in_Session r = o_Session (l_opts l) then OwnerUs r else OwnerOther (Some r)
                | None \<Rightarrow> OwnerOther None), w1))"

definition lease_write :: "'w ops \<Rightarrow> lease \<Rightarrow> 'w \<Rightarrow> bool \<times> lease \<times> 'w" where
  "lease_write ops l w =
     (let (t, w1) = clock ops w;
          l1 = l\<lparr>l_info := (l_info l)\<lparr>in_Renewed := wall t\<rparr>\<rparr>
      in case put_key ops (l_key l) (marshal_info ops (l_info l1)) w1 of
           (False, w2) \<Rightarrow> (False, l1, w2)
         | (True, w2) \<Rightarrow> (let (t', w3) = clock ops w2 in (True, l1\<lparr>renewedAt := Some t'\<rparr>, w3)))"

definition markLost :: "info option \<Rightarrow> lease \<Rightarrow> lease" where
  "markLost holder l =
     l\<lparr>conflicted := True, l_holder := (case holder of Some h \<Rightarrow> Some h | None \<Rightarrow> l_holder l),
       said_conflict := True, reports := (if said_conflict l then reports l else reports l @ [holder])\<rparr>"

definition markInterrupted :: "lease \<Rightarrow> lease" where
  "markInterrupted l = l\<lparr>interrupted := True, said_interrupt := True\<rparr>"

text \<open>One tick of the renewal loop; the answer is whether the loop ends.\<close>

definition renewOnce :: "'w ops \<Rightarrow> lease \<Rightarrow> 'w \<Rightarrow> bool \<times> lease \<times> 'w" where
  "renewOnce ops l w =
     (case whose ops l w of
        (Inr (OwnerOther holder), w1) \<Rightarrow> (True, markLost holder l, w1)
      | (Inr (OwnerUs r), w1) \<Rightarrow> (case lease_write ops l w1 of (ok, l', w2) \<Rightarrow> (False, l', w2))
      | (Inl Missing, w1) \<Rightarrow> (case lease_write ops (markInterrupted l) w1 of (ok, l', w2) \<Rightarrow> (False, l', w2))
      | (Inl Fault, w1) \<Rightarrow> (False, l, w1))"

section \<open>Fencing\<close>

text \<open>
  The caller's comparison of the branch head with the generation it builds on: absent, or an
  action that fails or says whether the head is unchanged.
\<close>

type_synonym 'w guard = "('w \<Rightarrow> bool option \<times> 'w) option"

definition clearInterrupted :: "'w guard \<Rightarrow> lease \<Rightarrow> 'w \<Rightarrow> lease_error option \<times> lease \<times> 'w" where
  "clearInterrupted head l w =
     (case head of
        None \<Rightarrow> (Some ErrUnconfirmed, l, w)
      | Some h \<Rightarrow>
          (case h w of
             (None, w1) \<Rightarrow> (Some ErrUnconfirmed, l, w1)
           | (Some unchanged, w1) \<Rightarrow>
               (if unchanged then (None, l\<lparr>interrupted := False\<rparr>, w1)
                else (Some ErrLost, markLost None l, w1))))"

definition resolveVanished :: "'w ops \<Rightarrow> 'w guard \<Rightarrow> lease \<Rightarrow> 'w \<Rightarrow> lease_error option \<times> lease \<times> 'w" where
  "resolveVanished ops head l w =
     (case clearInterrupted head (markInterrupted l) w of
        (Some e, l1, w1) \<Rightarrow> (Some e, l1, w1)
      | (None, l1, w1) \<Rightarrow>
          (case lease_write ops l1 w1 of
             (False, l2, w2) \<Rightarrow> (Some ErrUnconfirmed, l2, w2)
           | (True, l2, w2) \<Rightarrow>
               (case whose ops l2 w2 of
                  (Inl e, w3) \<Rightarrow> (Some ErrUnconfirmed, l2, w3)
                | (Inr (OwnerOther after), w3) \<Rightarrow> (Some ErrLost, markLost after l2, w3)
                | (Inr (OwnerUs r), w3) \<Rightarrow>
                    (let (t, w4) = clock ops w3
                     in (None, l2\<lparr>interrupted := False, revalidatedAt := Some t\<rparr>, w4)))))"

definition revalidate :: "'w ops \<Rightarrow> 'w guard \<Rightarrow> lease \<Rightarrow> 'w \<Rightarrow> lease_error option \<times> lease \<times> 'w" where
  "revalidate ops head l w =
     (case whose ops l w of
        (Inl Missing, w1) \<Rightarrow> resolveVanished ops head l w1
      | (Inl Fault, w1) \<Rightarrow> (Some ErrUnconfirmed, l, w1)
      | (Inr (OwnerOther holder), w1) \<Rightarrow> (Some ErrLost, markLost holder l, w1)
      | (Inr (OwnerUs r), w1) \<Rightarrow>
          (case (if interrupted l then clearInterrupted head l w1 else (None, l, w1)) of
             (Some e, l2, w2) \<Rightarrow> (Some e, l2, w2)
           | (None, l2, w2) \<Rightarrow>
               (case lease_write ops l2 w2 of
                  (False, l3, w3) \<Rightarrow> (Some ErrUnconfirmed, l3, w3)
                | (True, l3, w3) \<Rightarrow>
                    (let (t, w4) = clock ops w3 in (None, l3\<lparr>revalidatedAt := Some t\<rparr>, w4)))))"

definition Fence :: "'w ops \<Rightarrow> 'w guard \<Rightarrow> lease \<Rightarrow> 'w \<Rightarrow> lease_error option \<times> lease \<times> 'w" where
  "Fence ops head l w =
     (let (now, w1) = clock ops w; fresh = gapSince now (renewedAt l) \<le> o_TTL (l_opts l)
      in if conflicted l then (Some ErrLost, l, w1)
         else if interrupted l then revalidate ops head l w1
         else if fresh then (None, l, w1)
         else revalidate ops head l w1)"

text \<open>\<open>Release\<close>, once the renewal loop has stopped.\<close>

definition Release :: "'w ops \<Rightarrow> lease \<Rightarrow> 'w \<Rightarrow> lease_error option \<times> 'w" where
  "Release ops l w =
     (if conflicted l then (None, w)
      else case whose ops l w of
        (Inl Missing, w1) \<Rightarrow> (None, w1)
      | (Inl Fault, w1) \<Rightarrow> (Some LeaseRelease, w1)
      | (Inr (OwnerOther holder), w1) \<Rightarrow> (None, w1)
      | (Inr (OwnerUs r), w1) \<Rightarrow>
          (case delete_key ops (l_key l) w1 of (ok, w2) \<Rightarrow> (if ok then None else Some LeaseRelease, w2)))"

section \<open>Acquiring\<close>

definition checkVolumeLease :: "'w ops \<Rightarrow> lease_opts \<Rightarrow> 'w \<Rightarrow> lease_error option \<times> 'w" where
  "checkVolumeLease ops opts w =
     (if o_IgnoreVolumeLease opts then (None, w)
      else case lease_read ops VolumeKey w of
        ((holder, ki, err), w1) \<Rightarrow>
          (if err = Some Fault then (Some LeaseRead, w1)
           else case ki of
                  None \<Rightarrow> (None, w1)
                | Some k \<Rightarrow>
                    (let (now, w2) = clock ops w1
                     in if \<not> fst (isLive (wall now) holder k (o_TTL opts)) then (None, w2) else (Some ErrHeld, w2))))"

text \<open>The acquisition loop: the attempts left, and whether the caller gives up in a pause.\<close>

fun acquire_loop :: "'w ops \<Rightarrow> nat \<Rightarrow> lease_error option \<Rightarrow> bool \<Rightarrow> ('w \<Rightarrow> bool \<times> 'w) \<Rightarrow> lease \<Rightarrow> 'w \<Rightarrow> lease_error option \<times> lease \<times> 'w" where
  "acquire_loop ops 0 lost first pause l w = (lost, l, w)"
| "acquire_loop ops (Suc attempts) lost first pause l w =
     (case (if first then (False, w) else pause w) of
        (True, w1) \<Rightarrow> (Some LeaseCanceled, l, w1)
      | (False, w1) \<Rightarrow>
          (case lease_write ops l w1 of
             (False, l2, w2) \<Rightarrow> (Some LeaseWrite, l2, w2)
           | (True, l2, w2) \<Rightarrow>
               (case whose ops l2 w2 of
                  (Inl e, w3) \<Rightarrow> (Some LeaseVerify, l2, w3)
                | (Inr (OwnerUs r), w3) \<Rightarrow> (None, l2, w3)
                | (Inr (OwnerOther after), w3) \<Rightarrow> acquire_loop ops attempts (Some ErrHeld) False pause l2 w3)))"

definition Acquire :: "'w ops \<Rightarrow> ('w \<Rightarrow> bool \<times> 'w) \<Rightarrow> string \<Rightarrow> int \<Rightarrow> lease_opts \<Rightarrow> 'w \<Rightarrow> (lease_error + lease) \<times> 'w" where
  "Acquire ops pause host pid opts0 w =
     (let ttl = (if o_TTL opts0 \<le> 0 then DefaultTTL else o_TTL opts0);
          opts = opts0\<lparr>o_TTL := ttl,
            o_RenewInterval := (if o_RenewInterval opts0 \<le> 0 then max (ttl div 4) milli else o_RenewInterval opts0)\<rparr>
      in case BranchKey (o_Branch opts) of
           Inl e \<Rightarrow> (Inl (LeaseName e), w)
         | Inr key \<Rightarrow>
             (case checkVolumeLease ops opts w of
                (Some e, w1) \<Rightarrow> (Inl e, w1)
              | (None, w1) \<Rightarrow>
                  (case lease_read ops key w1 of
                     ((holder, ki, err), w2) \<Rightarrow>
                       (if err = Some Fault then (Inl LeaseRead, w2)
                        else let (now, w3) = clock ops w2
                             in if (case ki of None \<Rightarrow> False
                                      | Some k \<Rightarrow> \<not> o_Steal opts \<and> fst (isLive (wall now) holder k (o_TTL opts)))
                                then (Inl ErrHeld, w3)
                                else let (t, w4) = clock ops w3;
                                       l = \<lparr>l_key = key, l_opts = opts,
                                         l_info = \<lparr>in_Session = o_Session opts, in_Hostname = host, in_PID = pid,
                                           in_Branch = o_Branch opts, in_Acquired = wall t, in_Renewed = 0, in_TTL = o_TTL opts\<rparr>,
                                         conflicted = False, l_holder = None, renewedAt = None, interrupted = False,
                                         said_conflict = False, said_interrupt = False, revalidatedAt = None, reports = []\<rparr>
                                     in case acquire_loop ops (if o_Steal opts then 4 else 1) None True pause l w4 of
                                          (Some e, l', w5) \<Rightarrow> (Inl e, w5)
                                        | (None, l', w5) \<Rightarrow> (Inr l', w5)))))"

section \<open>What is reported\<close>

record lease_state =
  st_Key :: string
  st_Age :: int
  st_Stale :: bool
  st_Conflicted :: bool
  st_Interrupted :: bool
  st_WasInterrupted :: bool
  st_RevalidatedAt :: "instant option"
  st_Holder :: "info option"

definition State :: "instant \<Rightarrow> lease \<Rightarrow> lease_state" where
  "State now l =
     (let age = gapSince now (renewedAt l)
      in \<lparr>st_Key = l_key l, st_Age = age, st_Stale = o_TTL (l_opts l) < age, st_Conflicted = conflicted l,
          st_Interrupted = interrupted l, st_WasInterrupted = said_interrupt l, st_RevalidatedAt = revalidatedAt l,
          st_Holder = l_holder l\<rparr>)"

definition Name :: "lease_state \<Rightarrow> string" where
  "Name s = (if st_Conflicted s then ''lost'' else if st_Interrupted s then ''interrupted''
     else if st_Stale s then ''stale'' else ''held'')"

section \<open>The requests of a session\<close>

text \<open>The same world with every request and its answer written down.\<close>

datatype event = StatE string "fault + key_info" | ReadE string "fault + bytes" | PutE string bytes bool
  | DeleteE string bool | HeadE "bool option"

definition traced :: "'w ops \<Rightarrow> ('w \<times> event list) ops" where
  "traced ops =
     \<lparr>clock = \<lambda>(w, es). (case clock ops w of (t, w') \<Rightarrow> (t, (w', es))),
      stat_key = \<lambda>k (w, es). (case stat_key ops k w of (r, w') \<Rightarrow> (r, (w', es @ [StatE k r]))),
      read_key = \<lambda>k (w, es). (case read_key ops k w of (r, w') \<Rightarrow> (r, (w', es @ [ReadE k r]))),
      put_key = \<lambda>k d (w, es). (case put_key ops k d w of (r, w') \<Rightarrow> (r, (w', es @ [PutE k d r]))),
      delete_key = \<lambda>k (w, es). (case delete_key ops k w of (r, w') \<Rightarrow> (r, (w', es @ [DeleteE k r]))),
      marshal_info = marshal_info ops, unmarshal_info = unmarshal_info ops\<rparr>"

definition traced_guard :: "'w guard \<Rightarrow> ('w \<times> event list) guard" where
  "traced_guard head = map_option (\<lambda>h (w, es). case h w of (r, w') \<Rightarrow> (r, (w', es @ [HeadE r]))) head"

definition ours :: "'w ops \<Rightarrow> lease \<Rightarrow> event \<Rightarrow> bool" where
  "ours ops l e \<longleftrightarrow> (case e of
     ReadE k (Inr data) \<Rightarrow> k = l_key l \<and>
       (case unmarshal_info ops data of Some r \<Rightarrow> in_Session r = o_Session (l_opts l) | None \<Rightarrow> False)
   | _ \<Rightarrow> False)"

definition absent :: "lease \<Rightarrow> event \<Rightarrow> bool" where
  "absent l e \<longleftrightarrow> e = StatE (l_key l) (Inl Missing) \<or> e = ReadE (l_key l) (Inl Missing)"

fun landed_put :: "lease \<Rightarrow> event \<Rightarrow> bool" where
  "landed_put l (PutE k d ok) = (k = l_key l \<and> ok)"
| "landed_put l _ = False"

lemma whose_traced:
  assumes "whose (traced ops) l we = (res, we')"
  shows "\<exists>evs. snd we' = snd we @ evs \<and> (\<forall>e \<in> set evs. \<forall>k ok. e \<noteq> DeleteE k ok) \<and>
    (\<forall>r. res = Inr (OwnerUs r) \<longrightarrow> list_ex (ours ops l) evs \<and> \<not> list_ex (absent l) evs) \<and>
    (res = Inl Missing \<longrightarrow> list_ex (absent l) evs)"
proof -
  obtain w es where we: "we = (w, es)" by (cases we)
  obtain sr w1 where s: "stat_key ops (l_key l) w = (sr, w1)" by force
  show ?thesis
  proof (cases sr)
    case (Inl e)
    then have "res = Inl e" "we' = (w1, es @ [StatE (l_key l) (Inl e)])"
      using assms s by (simp_all add: we whose_def lease_read_def traced_def)
    then show ?thesis by (intro exI [of _ "[StatE (l_key l) (Inl e)]"]) (simp add: we absent_def)
  next
    case (Inr ki)
    obtain rr w2 where r: "read_key ops (l_key l) w1 = (rr, w2)" by force
    let ?evs = "[StatE (l_key l) (Inr ki), ReadE (l_key l) rr]"
    show ?thesis
    proof (cases rr)
      case (Inl e)
      then have "res = Inl e" "we' = (w2, es @ ?evs)"
        using assms s Inr r by (simp_all add: we whose_def lease_read_def traced_def)
      then show ?thesis using Inl by (intro exI [of _ ?evs]) (simp add: we absent_def)
    next
      case (Inr data)
      then have "we' = (w2, es @ ?evs)" "\<And>r. res = Inr (OwnerUs r) \<Longrightarrow>
          unmarshal_info ops data = Some r \<and> in_Session r = o_Session (l_opts l)" "res \<noteq> Inl Missing"
        using assms s \<open>sr = Inr ki\<close> r
        by (auto simp: we whose_def lease_read_def traced_def split: option.splits if_splits)
      then show ?thesis using Inr by (intro exI [of _ ?evs]) (auto simp: we absent_def ours_def)
    qed
  qed
qed

lemma lease_write_traced:
  assumes "lease_write (traced ops) l we = (ok, l', we')"
  shows "\<exists>ev. snd we' = snd we @ [ev] \<and> (ok \<longrightarrow> landed_put l ev) \<and> l_key l' = l_key l \<and> l_opts l' = l_opts l \<and>
    conflicted l' = conflicted l \<and> interrupted l' = interrupted l \<and> (\<forall>k ok. ev \<noteq> DeleteE k ok) \<and> \<not> absent l ev"
proof -
  obtain w es where we: "we = (w, es)" by (cases we)
  obtain t w1 where c: "clock ops w = (t, w1)" by force
  let ?l = "l\<lparr>l_info := (l_info l)\<lparr>in_Renewed := wall t\<rparr>\<rparr>" and ?d = "marshal_info ops ((l_info l)\<lparr>in_Renewed := wall t\<rparr>)"
  obtain pr w2 where p: "put_key ops (l_key l) ?d w1 = (pr, w2)" by force
  obtain t' w3 where c': "clock ops w2 = (t', w3)" by force
  have "ok = pr" "snd we' = es @ [PutE (l_key l) ?d pr]" "l' = (if pr then ?l\<lparr>renewedAt := Some t'\<rparr> else ?l)"
    using assms c p c' by (auto simp: we lease_write_def traced_def Let_def split: bool.splits)
  then show ?thesis
    by (intro exI [of _ "PutE (l_key l) ?d pr"]) (simp add: we absent_def)
qed

lemma clearInterrupted_traced:
  assumes "clearInterrupted (traced_guard head) l we = (None, l', we')"
  shows "snd we' = snd we @ [HeadE (Some True)] \<and> l' = l\<lparr>interrupted := False\<rparr>"
  using assms
  by (cases we) (auto simp: clearInterrupted_def traced_guard_def split: option.splits prod.splits if_splits)

lemma clock_traced: "clock (traced ops) we = (t, we') \<Longrightarrow> snd we' = snd we"
  by (cases we) (auto simp: traced_def split: prod.splits)

text \<open>What a round trip that lets a publish go ahead has done.\<close>

definition vouched :: "'w ops \<Rightarrow> lease \<Rightarrow> event list \<Rightarrow> bool" where
  "vouched ops l evs \<longleftrightarrow> list_ex (ours ops l) evs \<and> list_ex (landed_put l) evs \<and>
     (interrupted l \<or> list_ex (absent l) evs \<longrightarrow> HeadE (Some True) \<in> set evs)"

lemma head_event [simp]: "\<not> absent l (HeadE r)" "\<not> ours ops l (HeadE r)" "\<not> landed_put l (HeadE r)"
  by (simp_all add: absent_def ours_def)

lemma ours_cong: "l_key l' = l_key l \<Longrightarrow> l_opts l' = l_opts l \<Longrightarrow> ours ops l' = ours ops l"
  by (rule ext) (simp add: ours_def split: event.split sum.split option.split)

lemma landed_put_cong: "l_key l' = l_key l \<Longrightarrow> landed_put l' e = landed_put l e"
  by (cases e) simp_all

lemma resolveVanished_traced:
  assumes "resolveVanished (traced ops) (traced_guard head) l we = (None, l', we')"
  shows "\<exists>evs. snd we' = snd we @ evs \<and> list_ex (ours ops l) evs \<and> list_ex (landed_put l) evs \<and> HeadE (Some True) \<in> set evs"
proof -
  obtain e1 l1 we1 where c: "clearInterrupted (traced_guard head) (markInterrupted l) we = (e1, l1, we1)" by (metis prod_cases3)
  with assms have e1: "e1 = None" by (cases e1) (auto simp: resolveVanished_def)
  obtain ok l2 we2 where wr: "lease_write (traced ops) l1 we1 = (ok, l2, we2)" by (metis prod_cases3)
  with assms c e1 have ok: "ok" by (cases ok) (auto simp: resolveVanished_def)
  obtain res we3 where wh: "whose (traced ops) l2 we2 = (res, we3)" by (metis surj_pair)
  with assms c e1 wr ok obtain r where res: "res = Inr (OwnerUs r)"
    by (auto simp: resolveVanished_def split: sum.splits owner.splits)
  obtain t we4 where ck: "clock (traced ops) we3 = (t, we4)" by (metis surj_pair)
  with assms c e1 wr ok wh res have we': "we' = we4" by (auto simp: resolveVanished_def Let_def)
  note h = clearInterrupted_traced [OF c [unfolded e1]]
  from lease_write_traced [OF wr] ok obtain ev where ev: "snd we2 = snd we1 @ [ev]" "landed_put l1 ev"
    "l_key l2 = l_key l1" "l_opts l2 = l_opts l1" by blast
  from whose_traced [OF wh] res obtain evs where evs: "snd we3 = snd we2 @ evs" "list_ex (ours ops l2) evs" by blast
  have keys: "l_key l1 = l_key l" "l_opts l1 = l_opts l" using h by (simp_all add: markInterrupted_def)
  have "snd we' = snd we @ (HeadE (Some True) # ev # evs)"
    using we' clock_traced [OF ck] evs(1) ev(1) h by simp
  moreover have "list_ex (ours ops l) evs" "landed_put l ev"
    using evs(2) ev(2-4) keys ours_cong [of l2 l ops] landed_put_cong [of l1 l ev] by simp_all
  ultimately show ?thesis by (intro exI [of _ "HeadE (Some True) # ev # evs"]) auto
qed

lemma revalidate_traced:
  assumes "revalidate (traced ops) (traced_guard head) l we = (None, l', we')"
  shows "\<exists>evs. snd we' = snd we @ evs \<and> vouched ops l evs"
proof -
  obtain res we1 where wh: "whose (traced ops) l we = (res, we1)" by (metis surj_pair)
  from whose_traced [OF wh] obtain evs where evs: "snd we1 = snd we @ evs"
    "\<And>r. res = Inr (OwnerUs r) \<Longrightarrow> list_ex (ours ops l) evs \<and> \<not> list_ex (absent l) evs" by blast
  show ?thesis
  proof (cases res)
    case (Inl f)
    with assms wh have "resolveVanished (traced ops) (traced_guard head) l we1 = (None, l', we')"
      by (cases f) (auto simp: revalidate_def)
    from resolveVanished_traced [OF this] evs(1) show ?thesis
      by (elim exE) (rule_tac x = "evs @ evsa" in exI, auto simp: vouched_def)
  next
    case (Inr who)
    with assms wh obtain r where who: "who = OwnerUs r" by (cases who) (auto simp: revalidate_def)
    let ?cl = "if interrupted l then clearInterrupted (traced_guard head) l we1 else (None, l, we1)"
    obtain e2 l2 we2 where c: "?cl = (e2, l2, we2)" by (metis prod_cases3)
    with assms wh Inr who have e2: "e2 = None" by (cases e2) (auto simp: revalidate_def)
    obtain ok l3 we3 where wr: "lease_write (traced ops) l2 we2 = (ok, l3, we3)" by (metis prod_cases3)
    with assms wh Inr who c e2 have ok: ok by (cases ok) (auto simp: revalidate_def)
    obtain t we4 where ck: "clock (traced ops) we3 = (t, we4)" by (metis surj_pair)
    have we': "we' = we4"
      using assms wh Inr who c e2 wr ok ck by (simp add: revalidate_def Let_def del: if_split)
    from lease_write_traced [OF wr] ok obtain ev where ev: "snd we3 = snd we2 @ [ev]" "landed_put l2 ev" "\<not> absent l2 ev" by blast
    have cl: "l_key l2 = l_key l \<and> snd we2 = snd we1 @ (if interrupted l then [HeadE (Some True)] else [])"
    proof (cases "interrupted l")
      case True
      then have "clearInterrupted (traced_guard head) l we1 = (None, l2, we2)" using c e2 by simp
      from clearInterrupted_traced [OF this] True show ?thesis by simp
    qed (use c in simp)
    let ?evs = "evs @ (if interrupted l then [HeadE (Some True)] else []) @ [ev]"
    have "snd we' = snd we @ ?evs"
      using we' clock_traced [OF ck] ev(1) cl evs(1) by simp
    moreover have "landed_put l ev" "\<not> absent l ev"
      using ev cl landed_put_cong [of l2 l ev] by (auto simp: absent_def)
    ultimately show ?thesis
      using evs(2) Inr who by (intro exI [of _ ?evs]) (auto simp: vouched_def)
  qed
qed

section \<open>Steps\<close>

inductive lease_step :: "'w ops \<Rightarrow> lease \<Rightarrow> lease \<Rightarrow> bool" for ops :: "'w ops" where
  renew: "renewOnce ops l w = (stop, l', w') \<Longrightarrow> lease_step ops l l'"
| fence: "Fence ops head l w = (e, l', w') \<Longrightarrow> lease_step ops l l'"

definition once :: "lease \<Rightarrow> bool" where
  "once l \<longleftrightarrow> length (reports l) \<le> 1 \<and> (reports l = [] \<or> said_conflict l)"

text \<open>What every operation keeps: a loss is remembered, and reported at most once.\<close>

definition keeps :: "lease \<Rightarrow> lease \<Rightarrow> bool" where
  "keeps l l' \<longleftrightarrow> (conflicted l \<longrightarrow> conflicted l') \<and> (once l \<longrightarrow> once l')"

lemma keeps_refl [simp]: "keeps l l" by (simp add: keeps_def)
lemma keeps_trans: "keeps l l' \<Longrightarrow> keeps l' l'' \<Longrightarrow> keeps l l''" by (simp add: keeps_def)

lemma keeps_simps [simp]: "keeps l (markLost h l)" "keeps l (markInterrupted l)" "keeps l (l\<lparr>interrupted := b\<rparr>)"
  "keeps l (l\<lparr>revalidatedAt := t\<rparr>)" "keeps l (l\<lparr>interrupted := b, revalidatedAt := t\<rparr>)"
  by (auto simp: keeps_def once_def markLost_def markInterrupted_def)

lemma lease_write_keeps: "lease_write ops l w = (ok, l', w') \<Longrightarrow> keeps l l'"
  by (auto simp: lease_write_def keeps_def once_def Let_def split: prod.splits bool.splits)

lemma clearInterrupted_keeps: "clearInterrupted head l w = (e, l', w') \<Longrightarrow> keeps l l'"
  by (auto simp: clearInterrupted_def split: option.splits prod.splits if_splits)

lemma keeps_then: "keeps l l' \<Longrightarrow> keeps l (markLost h l')" "keeps l l' \<Longrightarrow> keeps l (l'\<lparr>revalidatedAt := t\<rparr>)"
  "keeps l l' \<Longrightarrow> keeps l (l'\<lparr>interrupted := b, revalidatedAt := t\<rparr>)"
  by (erule keeps_trans, simp)+

lemma resolveVanished_keeps:
  assumes "resolveVanished ops head l w = (e, l', w')"
  shows "keeps l l'"
proof -
  obtain e1 l1 w1 where c: "clearInterrupted head (markInterrupted l) w = (e1, l1, w1)" by (metis prod_cases3)
  have 1: "keeps l l1" by (rule keeps_trans [OF keeps_simps(2) clearInterrupted_keeps [OF c]])
  show ?thesis
  proof (cases e1)
    case (Some e')
    then show ?thesis using assms c 1 by (simp add: resolveVanished_def)
  next
    case None
    obtain ok l2 w2 where wr: "lease_write ops l1 w1 = (ok, l2, w2)" by (metis prod_cases3)
    have 2: "keeps l l2" by (rule keeps_trans [OF 1 lease_write_keeps [OF wr]])
    obtain res w3 where wh: "whose ops l2 w2 = (res, w3)" by (metis surj_pair)
    obtain t w4 where ck: "clock ops w3 = (t, w4)" by (metis surj_pair)
    note eq = assms [unfolded resolveVanished_def c None wr prod.case option.case wh ck Let_def]
    show ?thesis
    proof (cases "ok \<and> (\<exists>who. res = Inr who)")
      case True
      then obtain who where "ok" "res = Inr who" by blast
      with eq have "l' = (case who of OwnerOther h \<Rightarrow> markLost h l2 | OwnerUs r \<Rightarrow> l2\<lparr>interrupted := False, revalidatedAt := Some t\<rparr>)"
        by (cases who) simp_all
      then show ?thesis using keeps_then [OF 2] by (cases who) simp_all
    next
      case False
      with eq have "l' = l2" by (cases ok; cases res) simp_all
      then show ?thesis using 2 by simp
    qed
  qed
qed

lemma revalidate_keeps:
  assumes "revalidate ops head l w = (e, l', w')"
  shows "keeps l l'"
proof -
  obtain res w1 where wh: "whose ops l w = (res, w1)" by force
  show ?thesis
  proof (cases res)
    case (Inl f)
    with assms wh show ?thesis using resolveVanished_keeps by (cases f) (auto simp: revalidate_def)
  next
    case (Inr who)
    show ?thesis
    proof (cases who)
      case (OwnerOther h)
      with assms wh Inr show ?thesis by (auto simp: revalidate_def)
    next
      case (OwnerUs r)
      obtain e2 l2 w2 where c: "(if interrupted l then clearInterrupted head l w1 else (None, l, w1)) = (e2, l2, w2)"
        by (metis prod_cases3)
      have 1: "keeps l l2"
      proof (cases "interrupted l")
        case True
        with c have "clearInterrupted head l w1 = (e2, l2, w2)" by simp
        then show ?thesis by (rule clearInterrupted_keeps)
      qed (use c in simp)
      obtain ok l3 w3 where wr: "lease_write ops l2 w2 = (ok, l3, w3)" by (metis prod_cases3)
      have 2: "keeps l l3" by (rule keeps_trans [OF 1 lease_write_keeps [OF wr]])
      obtain t w4 where ck: "clock ops w3 = (t, w4)" by (metis surj_pair)
      note eq = assms [unfolded revalidate_def wh Inr OwnerUs prod.case sum.case owner.case c]
      show ?thesis
      proof (cases e2)
        case (Some e')
        then show ?thesis using eq 1 by simp
      next
        case None
        note eq = eq [unfolded None option.case wr prod.case ck Let_def]
        show ?thesis using eq 2 keeps_then(2) [OF 2] by (cases ok) auto
      qed
    qed
  qed
qed

lemma Fence_keeps: "Fence ops head l w = (e, l', w') \<Longrightarrow> keeps l l'"
  by (auto simp: Fence_def Let_def split: prod.splits if_splits dest: revalidate_keeps)

lemma renewOnce_keeps:
  assumes "renewOnce ops l w = (stop, l', w')"
  shows "keeps l l'"
proof -
  obtain res w1 where wh: "whose ops l w = (res, w1)" by force
  show ?thesis
  proof (cases "res = Inl Missing")
    case True
    obtain ok l1 w2 where wr: "lease_write ops (markInterrupted l) w1 = (ok, l1, w2)" by (metis prod_cases3)
    then have "l' = l1" using assms wh True by (simp add: renewOnce_def)
    then show ?thesis using keeps_trans [OF keeps_simps(2) lease_write_keeps [OF wr]] by simp
  next
    case False
    then show ?thesis
      using assms wh by (auto simp: renewOnce_def split: sum.splits owner.splits fault.splits prod.splits dest: lease_write_keeps)
  qed
qed

lemma lease_step_keeps: "lease_step ops l l' \<Longrightarrow> keeps l l'"
  by (auto elim!: lease_step.cases dest: renewOnce_keeps Fence_keeps)

section \<open>Properties\<close>

text \<open>
  C14: A publish goes ahead only on evidence. When \<open>Fence\<close> lets an operation publish, the lease
  is not lost, and either it is uninterrupted and its last landed renewal is at most a time to
  live ago by both clocks, with no request made; or requests were made which read this
  session's own record and landed a renewal, and, if the lease object was missing before or
  found missing now, found the branch head unchanged.
\<close>

theorem fence_passes_on_evidence:
  assumes "Fence (traced ops) (traced_guard head) l we = (None, l', we')"
  shows "\<not> conflicted l \<and> (\<exists>evs. snd we' = snd we @ evs \<and>
    (evs = [] \<and> l' = l \<and> \<not> interrupted l \<and> gapSince (fst (clock (traced ops) we)) (renewedAt l) \<le> o_TTL (l_opts l) \<or>
     vouched ops l evs))"
proof -
  obtain now we1 where ck: "clock (traced ops) we = (now, we1)" by (metis surj_pair)
  note eq = assms [unfolded Fence_def ck Let_def prod.case]
  have nc: "\<not> conflicted l" using eq by (auto split: if_splits)
  show ?thesis
  proof (cases "\<not> interrupted l \<and> gapSince now (renewedAt l) \<le> o_TTL (l_opts l)")
    case True
    then show ?thesis using eq nc clock_traced [OF ck] ck by auto
  next
    case False
    then have "revalidate (traced ops) (traced_guard head) l we1 = (None, l', we')"
      using eq nc by (auto split: if_splits)
    from revalidate_traced [OF this] show ?thesis using nc clock_traced [OF ck] by auto
  qed
qed

text \<open>
  A lost lease stays lost. Whatever the world answers, once a session has found its lease
  lost every later fence refuses without a request, and the loss is reported at most once.
\<close>

theorem lost_lease_stays_lost:
  assumes "(lease_step ops)\<^sup>*\<^sup>* l l'" "conflicted l" "once l"
  shows "fst (Fence ops head l' w) = Some ErrLost \<and> length (reports l') \<le> 1"
proof -
  have "keeps l l'" using assms(1)
    by (induction rule: rtranclp_induct) (auto intro: keeps_trans lease_step_keeps)
  then have "conflicted l'" "once l'" using assms(2,3) by (auto simp: keeps_def)
  then show ?thesis by (auto simp: Fence_def once_def Let_def split: prod.split)
qed

text \<open>
  C15: A release deletes only its own record. When \<open>Release\<close> asks for a deletion, it is of the
  lease's own object, once, the lease was not lost, and the request just before read this
  session's record there.
\<close>

theorem release_deletes_only_own_record:
  assumes "Release (traced ops) l (w, es) = (r, (w', es'))" "DeleteE k ok \<in> set es'" "DeleteE k ok \<notin> set es"
  shows "\<not> conflicted l \<and> k = l_key l \<and> (\<exists>s e. ours ops l e \<and> es' = es @ [s, e, DeleteE k ok])"
proof -
  obtain sr w1 where s: "stat_key ops (l_key l) w = (sr, w1)" by force
  obtain rr w2 where rd: "read_key ops (l_key l) w1 = (rr, w2)" by force
  obtain dk w3 where dl: "delete_key ops (l_key l) w2 = (dk, w3)" by force
  note eq = assms(1) [unfolded Release_def whose_def lease_read_def]
  have nc: "\<not> conflicted l" using eq assms(2,3) by auto
  have "\<exists>ki. sr = Inr ki"
    using eq nc assms(2,3) s by (cases sr) (auto simp: traced_def split: fault.splits)
  then obtain ki where ki: "sr = Inr ki" ..
  have "\<exists>data. rr = Inr data"
    using eq nc assms(2,3) s ki rd by (cases rr) (auto simp: traced_def split: fault.splits)
  then obtain data where data: "rr = Inr data" ..
  have rec: "\<exists>i. unmarshal_info ops data = Some i \<and> in_Session i = o_Session (l_opts l)"
    using eq nc assms(2,3) s ki rd data
    by (cases "unmarshal_info ops data") (auto simp: traced_def split: if_splits)
  then have "es' = es @ [StatE (l_key l) sr, ReadE (l_key l) rr, DeleteE (l_key l) dk]"
    using eq nc s ki rd data dl by (auto simp: traced_def)
  moreover have "ours ops l (ReadE (l_key l) rr)" using rec data by (auto simp: ours_def)
  ultimately show ?thesis using nc assms(2,3) by auto
qed

text \<open>
  C16: An unverified re-take passes the next fence. When the lease object has vanished, the head
  is unchanged, the re-take lands but cannot be read back, \<open>Fence\<close> answers that the lease is
  unconfirmed; yet the interruption is already cleared and the renewal stamped, so the
  retry, within the time to live, passes with no request at all.
\<close>

theorem unverified_retake_passes_next_fence:
  assumes "\<not> conflicted l" "interrupted l" "head = Some h"
    and "clock ops w = (t0, w1)" "whose ops l w1 = (Inl Missing, w2)" "h w2 = (Some True, w3)"
    and "lease_write ops (l\<lparr>interrupted := False, said_interrupt := True\<rparr>) w3 = (True, l2, w4)"
    and "whose ops l2 w4 = (Inl f, w5)" "clock ops w5 = (t1, w6)" "gapSince t1 (renewedAt l2) \<le> o_TTL (l_opts l)"
  shows "Fence ops head l w = (Some ErrUnconfirmed, l2, w5) \<and> Fence ops head l2 w5 = (None, l2, w6)"
proof -
  have mi: "(markInterrupted l)\<lparr>interrupted := False\<rparr> = l\<lparr>interrupted := False, said_interrupt := True\<rparr>"
    by (simp add: markInterrupted_def)
  have "resolveVanished ops head l w2 = (Some ErrUnconfirmed, l2, w5)"
    by (simp add: resolveVanished_def clearInterrupted_def assms(3,6,7,8) mi)
  then have "Fence ops head l w = (Some ErrUnconfirmed, l2, w5)"
    using assms(1,2,4,5) by (simp add: Fence_def revalidate_def)
  moreover have "\<not> conflicted l2" "\<not> interrupted l2" "l_opts l2 = l_opts l"
    using assms(1,7) by (auto simp: lease_write_def Let_def split: prod.splits bool.splits)
  ultimately show ?thesis using assms(9,10) by (simp add: Fence_def)
qed

text \<open>
  The fence outlives the lease by an instant. At exactly one time to live after the renewal
  a record states, another client's \<open>isLive\<close> calls the lease dead and may take it, while the
  holder's \<open>Fence\<close> still passes without a request.
\<close>

theorem fence_boundary_is_past_isLive:
  assumes "\<not> conflicted l" "\<not> interrupted l" "0 < o_TTL (l_opts l)" "in_TTL i = o_TTL (l_opts l)"
    and "renewedAt l = Some \<lparr>mono = m, wall = in_Renewed i\<rparr>" "ki_Mtime ki \<le> in_Renewed i"
    and "clock ops w = (\<lparr>mono = m + o_TTL (l_opts l), wall = in_Renewed i + o_TTL (l_opts l)\<rparr>, w')"
  shows "Fence ops head l w = (None, l, w') \<and>
    \<not> fst (isLive (in_Renewed i + o_TTL (l_opts l)) (Some i) ki fallback)"
  using assms by (simp add: Fence_def gapSince_def isLive_def Let_def max_def)

section \<open>Witnesses\<close>

definition ex_info :: info where
  "ex_info = \<lparr>in_Session = ''s'', in_Hostname = ''h'', in_PID = 1, in_Branch = ''main'', in_Acquired = 0, in_Renewed = 0, in_TTL = 60\<rparr>"

definition ex_lease :: lease where
  "ex_lease = \<lparr>l_key = ''k'',
     l_opts = \<lparr>o_Session = ''s'', o_Branch = ''main'', o_TTL = 60, o_RenewInterval = 15, o_Steal = False, o_IgnoreVolumeLease = False\<rparr>,
     l_info = ex_info, conflicted = False, l_holder = None, renewedAt = Some \<lparr>mono = 0, wall = 0\<rparr>, interrupted = False,
     said_conflict = False, said_interrupt = False, revalidatedAt = None, reports = []\<rparr>"

text \<open>A world that counts requests: \<open>present\<close> says at which of them the lease object can be read.\<close>

definition ex_ops :: "int \<Rightarrow> (nat \<Rightarrow> fault option) \<Rightarrow> nat ops" where
  "ex_ops t answer = \<lparr>clock = \<lambda>n. (\<lparr>mono = t, wall = t\<rparr>, n),
     stat_key = \<lambda>k n. (case answer n of Some f \<Rightarrow> Inl f | None \<Rightarrow> Inr \<lparr>ki_Mtime = 0, ki_ETag = []\<rparr>, n + 1),
     read_key = \<lambda>k n. (Inr [], n + 1), put_key = \<lambda>k d n. (True, n + 1), delete_key = \<lambda>k n. (True, n + 1),
     marshal_info = \<lambda>i. [], unmarshal_info = \<lambda>d. Some ex_info\<rparr>"

theorem fence_passes_on_evidence_witness:
  "\<exists>l' we' evs. Fence (traced (ex_ops 100 (\<lambda>_. None))) (traced_guard None) ex_lease (0, []) = (None, l', we') \<and>
     snd we' = evs \<and> vouched (ex_ops 100 (\<lambda>_. None)) ex_lease evs"
proof -
  have "fst (Fence (traced (ex_ops 100 (\<lambda>_. None))) (traced_guard None) ex_lease (0, [])) = None"
    by (simp add: Fence_def traced_def ex_ops_def ex_lease_def gapSince_def revalidate_def whose_def lease_read_def
        lease_write_def ex_info_def Let_def)
  then obtain l' we' where f: "Fence (traced (ex_ops 100 (\<lambda>_. None))) (traced_guard None) ex_lease (0, []) = (None, l', we')"
    by (metis prod.collapse)
  have "\<not> gapSince (fst (clock (traced (ex_ops 100 (\<lambda>_. None))) (0, []))) (renewedAt ex_lease) \<le> o_TTL (l_opts ex_lease)"
    by (simp add: traced_def ex_ops_def ex_lease_def gapSince_def)
  with fence_passes_on_evidence [OF f] have "vouched (ex_ops 100 (\<lambda>_. None)) ex_lease (snd we')" by auto
  with f show ?thesis by blast
qed

theorem lost_lease_stays_lost_witness:
  "fst (Fence (ex_ops 100 (\<lambda>_. None)) None (markLost None ex_lease) 0) = Some ErrLost"
proof -
  have "lease_step (ex_ops 100 (\<lambda>_. None)) (markLost None ex_lease) (markLost None ex_lease)"
    by (rule lease_step.fence [of _ None _ 0 "Some ErrLost" _ 0]) (simp add: Fence_def markLost_def ex_ops_def)
  then show ?thesis
    using lost_lease_stays_lost [OF r_into_rtranclp, of "ex_ops 100 (\<lambda>_. None)" "markLost None ex_lease" "markLost None ex_lease" None 0]
    by (simp add: markLost_def once_def ex_lease_def)
qed

theorem release_deletes_only_own_record_witness:
  "\<exists>es'. snd (snd (Release (traced (ex_ops 0 (\<lambda>_. None))) ex_lease (0, []))) = es' \<and> DeleteE ''k'' True \<in> set es' \<and>
     (\<exists>s e. ours (ex_ops 0 (\<lambda>_. None)) ex_lease e \<and> es' = [s, e, DeleteE ''k'' True])"
proof -
  obtain r w' es' where r: "Release (traced (ex_ops 0 (\<lambda>_. None))) ex_lease (0, []) = (r, (w', es'))" by (metis prod_cases3)
  have "DeleteE ''k'' True \<in> set (snd (snd (Release (traced (ex_ops 0 (\<lambda>_. None))) ex_lease (0, []))))"
    by (simp add: Release_def whose_def lease_read_def traced_def ex_ops_def ex_lease_def ex_info_def)
  then have d: "DeleteE ''k'' True \<in> set es'" using r by simp
  from release_deletes_only_own_record [OF r d] obtain s e where
    "ours (ex_ops 0 (\<lambda>_. None)) ex_lease e" "es' = [s, e, DeleteE ''k'' True]" by auto
  with r d show ?thesis by auto
qed

definition retake_answers :: "nat \<Rightarrow> fault option" where
  "retake_answers n = (if n = 0 then Some Missing else Some Fault)"

theorem unverified_retake_passes_next_fence_witness:
  "\<exists>l2. Fence (ex_ops 0 retake_answers) (Some (\<lambda>n. (Some True, n))) (ex_lease\<lparr>interrupted := True\<rparr>) 0 = (Some ErrUnconfirmed, l2, 3) \<and>
     Fence (ex_ops 0 retake_answers) (Some (\<lambda>n. (Some True, n))) l2 3 = (None, l2, 3)"
proof -
  let ?ops = "ex_ops 0 retake_answers" and ?l = "ex_lease\<lparr>interrupted := True\<rparr>"
  obtain l2 where l2: "lease_write ?ops (?l\<lparr>interrupted := False, said_interrupt := True\<rparr>) 1 = (True, l2, 2)"
    "renewedAt l2 = Some \<lparr>mono = 0, wall = 0\<rparr>"
    by (simp add: lease_write_def ex_ops_def Let_def)
  have ck: "clock ?ops 3 = (\<lparr>mono = 0, wall = 0\<rparr>, 3)" by (simp add: ex_ops_def)
  have "Fence ?ops (Some (\<lambda>n. (Some True, n))) ?l 0 = (Some ErrUnconfirmed, l2, 3) \<and>
      Fence ?ops (Some (\<lambda>n. (Some True, n))) l2 3 = (None, l2, 3)"
    by (rule unverified_retake_passes_next_fence [OF _ _ refl _ _ _ l2(1) _ ck, where f = Fault])
      (simp_all add: ex_ops_def ex_lease_def whose_def lease_read_def retake_answers_def gapSince_def l2(2))
  then show ?thesis by blast
qed

theorem fence_boundary_is_past_isLive_witness:
  "Fence (ex_ops 60 (\<lambda>_. None)) None ex_lease 0 = (None, ex_lease, 0) \<and>
     \<not> fst (isLive 60 (Some ex_info) \<lparr>ki_Mtime = 0, ki_ETag = []\<rparr> 60)"
  using fence_boundary_is_past_isLive [of ex_lease ex_info 0 "\<lparr>ki_Mtime = 0, ki_ETag = []\<rparr>" "ex_ops 60 (\<lambda>_. None)" 0 0 None 60]
  by (simp add: ex_lease_def ex_info_def ex_ops_def)

end
