(* ===== verification/Three_Way_Merge.thy ===== *)
theory Three_Way_Merge
  imports Superblock "HOL-Library.AList"
begin

text \<open>
  Deciding a merge, \<open>internal/merge/decide.go\<close> and \<open>merge.go\<close>: what becomes of one name that three
  generations may hold, the walk that plans a whole merge, the checks on its inputs and the
  inode numbers both sides allocated. A generation is read through the operations of
  \<open>internal/genfs\<close>, which are fields of a record here; each may fail with a message. A name
  and its presence in a tree are an optional node, a Go map from names is an association
  list with one row per name.
\<close>

section \<open>Nodes, contents and open generations\<close>

record node =
  n_Inode :: uint64
  n_Type :: byte
  n_Mode :: uint32
  n_UID :: uint32
  n_GID :: uint32
  n_MtimeNS :: int64
  n_CtimeNS :: int64
  n_Nlink :: uint32
  n_Length :: int64
  n_Rdev :: uint32
  n_Flags :: uint32

definition TypeDir :: byte where "TypeDir = 2"
definition TypeSymlink :: byte where "TypeSymlink = 3"

definition is_dir :: "node \<Rightarrow> bool" where
  "is_dir e \<longleftrightarrow> n_Type e = TypeDir"

text \<open>A nil identity is the empty one: both compare equal under \<open>bytes.Equal\<close>.\<close>

record chunk_ref =
  cr_Identity :: bytes
  cr_LLen :: int64
  cr_CLen :: int64
  cr_Alg :: int64
  cr_KeyID :: int64
  cr_LogicalOffset :: int64

record content =
  ct_Length :: int64
  ct_Inline :: "bytes option"
  ct_Refs :: "chunk_ref list"
  ct_External :: bool

record gen_fs =
  ReaddirRetain :: "uint64 \<Rightarrow> string + (string \<times> node) list"
  Readlink :: "uint64 \<Rightarrow> string + string"
  ContentOf :: "uint64 \<Rightarrow> string + content"
  GetAttr :: "uint64 \<Rightarrow> string + node"
  ListXattr :: "uint64 \<Rightarrow> string + string list"
  GetXattr :: "uint64 \<Rightarrow> string \<Rightarrow> string + bytes"

record trees =
  t_base :: gen_fs
  t_ours :: gen_fs
  t_theirs :: gen_fs

section \<open>Comparing\<close>

definition sameRef :: "chunk_ref \<Rightarrow> chunk_ref \<Rightarrow> bool" where
  "sameRef a b \<longleftrightarrow> cr_Identity a = cr_Identity b \<and> cr_LLen a = cr_LLen b \<and> cr_LogicalOffset a = cr_LogicalOffset b"

definition sameRecords :: "content \<Rightarrow> content \<Rightarrow> bool" where
  "sameRecords a b =
     (if ct_Length a \<noteq> ct_Length b then False
      else if (ct_Inline a = None) \<noteq> (ct_Inline b = None) then False
      else if ct_Inline a \<noteq> None then ct_Inline a = ct_Inline b
      else if length (ct_Refs a) \<noteq> length (ct_Refs b) then False
      else list_all2 sameRef (ct_Refs a) (ct_Refs b))"

definition sameContent :: "gen_fs \<Rightarrow> node \<Rightarrow> gen_fs \<Rightarrow> node \<Rightarrow> string + bool" where
  "sameContent a ae b be =
     (if n_Type ae \<noteq> n_Type be \<or> n_Length ae \<noteq> n_Length be then Inr False
      else if n_Mode ae \<noteq> n_Mode be \<or> n_UID ae \<noteq> n_UID be \<or> n_GID ae \<noteq> n_GID be then Inr False
      else if n_Type ae = TypeDir then Inr True
      else if n_Type ae = TypeSymlink then
        (case Readlink a (n_Inode ae) of
           Inl e \<Rightarrow> Inl e
         | Inr at \<Rightarrow> (case Readlink b (n_Inode be) of Inl e \<Rightarrow> Inl e | Inr bt \<Rightarrow> Inr (at = bt)))
      else
        (case ContentOf a (n_Inode ae) of
           Inl e \<Rightarrow> Inl e
         | Inr ac \<Rightarrow> (case ContentOf b (n_Inode be) of Inl e \<Rightarrow> Inl e | Inr bc \<Rightarrow> Inr (sameRecords ac bc))))"

definition sameEntry :: "gen_fs \<Rightarrow> node \<Rightarrow> gen_fs \<Rightarrow> node \<Rightarrow> bool" where
  "sameEntry a ae b be \<longleftrightarrow> sameContent a ae b be = Inr True"

section \<open>One name\<close>

datatype merge_outcome = TakeOurs | TakeTheirs | Same | Drop | Conflicted | Descend

datatype merge_policy = Refuse | KeepBoth

datatype conflict_kind = BothModified | ModifyDelete | AddAdd | TypeChange

datatype detail = NoDetail | TypesAre byte byte | BothCreated | BothChanged | BaseMayBeWrong
  | OursModified | TheirsModified

definition decide :: "trees \<Rightarrow> node option \<Rightarrow> node option \<Rightarrow> node option \<Rightarrow>
    merge_outcome \<times> conflict_kind option \<times> detail" where
  "decide t b ours theirs =
     (case ours of
        Some oe \<Rightarrow>
          (case theirs of
             Some te \<Rightarrow>
               (if n_Type oe \<noteq> n_Type te then (Conflicted, Some TypeChange, TypesAre (n_Type oe) (n_Type te))
                else if n_Type oe = TypeDir then (Descend, None, NoDetail)
                else if sameContent (t_ours t) oe (t_theirs t) te = Inr True then (Same, None, NoDetail)
                else case b of
                  None \<Rightarrow> (Conflicted, Some AddAdd, BothCreated)
                | Some be \<Rightarrow>
                    (let ourChanged = \<not> sameEntry (t_base t) be (t_ours t) oe;
                         theirChanged = \<not> sameEntry (t_base t) be (t_theirs t) te in
                     if ourChanged \<and> theirChanged then (Conflicted, Some BothModified, BothChanged)
                     else if theirChanged then (TakeTheirs, None, NoDetail)
                     else if ourChanged then (TakeOurs, None, NoDetail)
                     else (Conflicted, Some BothModified, BaseMayBeWrong)))
           | None \<Rightarrow>
               (if n_Type oe = TypeDir then (Descend, None, NoDetail)
                else case b of
                  None \<Rightarrow> (TakeOurs, None, NoDetail)
                | Some be \<Rightarrow>
                    (if \<not> sameEntry (t_base t) be (t_ours t) oe then (Conflicted, Some ModifyDelete, OursModified)
                     else (Drop, None, NoDetail))))
      | None \<Rightarrow>
          (case theirs of
             Some te \<Rightarrow>
               (if n_Type te = TypeDir then (Descend, None, NoDetail)
                else case b of
                  None \<Rightarrow> (TakeTheirs, None, NoDetail)
                | Some be \<Rightarrow>
                    (if \<not> sameEntry (t_base t) be (t_theirs t) te then (Conflicted, Some ModifyDelete, TheirsModified)
                     else (Drop, None, NoDetail)))
           | None \<Rightarrow> (Drop, None, NoDetail)))"

text \<open>The last occurrence of a character, \<open>strings.LastIndex\<close>.\<close>

definition LastIndex :: "string \<Rightarrow> char \<Rightarrow> nat option" where
  "LastIndex s c = (if c \<in> set s then Some (length s - 1 - length (takeWhile (\<lambda>x. x \<noteq> c) (rev s))) else None)"

definition ConflictName :: "string \<Rightarrow> string \<Rightarrow> string" where
  "ConflictName name branch =
     (case LastIndex name CHR ''.'' of
        Some i \<Rightarrow>
          (if i > 0 then take i name @ '' (from '' @ branch @ '')'' @ drop i name
           else name @ '' (from '' @ branch @ '')'')
      | None \<Rightarrow> name @ '' (from '' @ branch @ '')'')"

section \<open>Directories\<close>

definition put_all :: "(string \<times> node) list \<Rightarrow> (string \<times> node) list \<Rightarrow> (string \<times> node) list" where
  "put_all es m = fold (\<lambda>(name, e). AList.update name e) es m"

definition tree_entries :: "gen_fs option \<Rightarrow> uint64 \<Rightarrow> string + (string \<times> node) list" where
  "tree_entries fs ino =
     (case fs of
        None \<Rightarrow> Inr []
      | Some f \<Rightarrow>
          (if ino = 0 then Inr []
           else case ReaddirRetain f ino of Inl e \<Rightarrow> Inl e | Inr ents \<Rightarrow> Inr (put_all ents [])))"

definition union_names :: "(string \<times> node) list list \<Rightarrow> string list" where
  "union_names maps = sort (remdups (concat (map (map fst) maps)))"

definition inoOf :: "node option \<Rightarrow> uint64" where
  "inoOf e = (case e of None \<Rightarrow> 0 | Some n \<Rightarrow> n_Inode n)"

text \<open>\<open>path.Join\<close> of two elements: their lexically cleaned concatenation.\<close>

fun split_slash :: "string \<Rightarrow> string \<Rightarrow> string list" where
  "split_slash acc [] = [rev acc]"
| "split_slash acc (c # cs) = (if c = CHR ''/'' then rev acc # split_slash [] cs else split_slash (c # acc) cs)"

fun clean_parts :: "bool \<Rightarrow> string list \<Rightarrow> string list \<Rightarrow> string list" where
  "clean_parts rooted st [] = rev st"
| "clean_parts rooted st (p # ps) =
     (if p = [] \<or> p = ''.'' then clean_parts rooted st ps
      else if p = ''..'' then
        (case st of
           [] \<Rightarrow> clean_parts rooted (if rooted then [] else [p]) ps
         | q # qs \<Rightarrow> clean_parts rooted (if q = ''..'' then p # st else qs) ps)
      else clean_parts rooted (p # st) ps)"

fun join_slash :: "string list \<Rightarrow> string" where
  "join_slash [] = []"
| "join_slash [p] = p"
| "join_slash (p # q # ps) = p @ ''/'' @ join_slash (q # ps)"

definition path_Clean :: "string \<Rightarrow> string" where
  "path_Clean s =
     (let rooted = (take 1 s = ''/''); body = join_slash (clean_parts rooted [] (split_slash [] s)) in
      if rooted then ''/'' @ body else if body = [] then ''.'' else body)"

definition path_Join :: "string \<Rightarrow> string \<Rightarrow> string" where
  "path_Join a b =
     (if a = [] \<and> b = [] then [] else if a = [] then path_Clean b else path_Clean (a @ ''/'' @ b))"

definition pathJoin :: "string \<Rightarrow> string \<Rightarrow> string" where
  "pathJoin full name = (case LastIndex full CHR ''/'' of Some i \<Rightarrow> take (i + 1) full @ name | None \<Rightarrow> name)"

section \<open>The plan and its walk\<close>

record conflict =
  cf_Path :: string
  cf_Kind :: conflict_kind
  cf_Detail :: detail

record collision =
  co_Inode :: uint64
  co_OursPath :: string
  co_TheirsPath :: string

record kept =
  kp_Path :: string
  kp_As :: string
  kp_Kind :: conflict_kind

datatype refusal = OtherVolume | OtherKey | BaseAfter uint64 uint64 uint64
  | OtherFork uint64 uint64 | OtherBase uint64 bytes bytes

record plan =
  Refusal :: "refusal option"
  FastForward :: bool
  Direction :: string
  Unchanged :: nat
  TookOurs :: nat
  TookTheirs :: nat
  Conflicts :: "conflict list"
  Kept :: "kept list"
  Collisions :: "collision list"
  FirstFreeInode :: uint64
  pl_policy :: merge_policy

definition empty_plan :: plan where
  "empty_plan = \<lparr>Refusal = None, FastForward = False, Direction = [], Unchanged = 0, TookOurs = 0, TookTheirs = 0,
     Conflicts = [], Kept = [], Collisions = [], FirstFreeInode = 0, pl_policy = Refuse\<rparr>"

definition Mergeable :: "plan \<Rightarrow> bool" where
  "Mergeable p \<longleftrightarrow> Refusal p = None \<and> length (Conflicts p) = 0 \<and> length (Collisions p) = 0"

record walker =
  wk_plan :: plan
  ourInodes :: "(uint64 \<times> string) list"
  theirInodes :: "(uint64 \<times> string) list"

definition keepBoth :: "string \<Rightarrow> string \<Rightarrow> string \<Rightarrow> node option \<Rightarrow> node option \<Rightarrow> string option" where
  "keepBoth theirBranch path name ours theirs =
     (case (ours, theirs) of
        (Some oe, Some te) \<Rightarrow>
          (if n_Type te = TypeDir \<or> n_Type oe = TypeDir then None
           else Some (pathJoin path (ConflictName name theirBranch)))
      | _ \<Rightarrow> None)"

text \<open>The inode numbers above the cut, remembered with the path they were seen at.\<close>

definition note_inodes :: "uint64 \<Rightarrow> string \<Rightarrow> node option \<Rightarrow> node option \<Rightarrow> walker \<Rightarrow> walker" where
  "note_inodes lim child ours theirs w =
     (let w1 = (case ours of
          Some oe \<Rightarrow> (if n_Inode oe \<ge> lim then w\<lparr>ourInodes := AList.update (n_Inode oe) child (ourInodes w)\<rparr> else w)
        | None \<Rightarrow> w) in
      case theirs of
        Some te \<Rightarrow> (if n_Inode te \<ge> lim then w1\<lparr>theirInodes := AList.update (n_Inode te) child (theirInodes w1)\<rparr> else w1)
      | None \<Rightarrow> w1)"

definition on_plan :: "(plan \<Rightarrow> plan) \<Rightarrow> walker \<Rightarrow> walker" where
  "on_plan f w = w\<lparr>wk_plan := f (wk_plan w)\<rparr>"

record walk_opts =
  wo_policy :: merge_policy
  wo_branch :: string
  wo_cut :: uint64

datatype merge_error = ReadError string | OutOfFuel | OpenError string

text \<open>The switch on the outcome for one name, with the descent as an argument.\<close>

definition take_outcome :: "walk_opts \<Rightarrow> (string \<Rightarrow> uint64 \<times> uint64 \<times> uint64 \<Rightarrow> walker \<Rightarrow> merge_error + walker) \<Rightarrow>
    trees \<Rightarrow> string \<Rightarrow> string \<Rightarrow> node option \<Rightarrow> node option \<Rightarrow> node option \<Rightarrow> walker \<Rightarrow> merge_error + walker" where
  "take_outcome opt descend t child name b ours theirs w =
     (case decide t b ours theirs of (out, kind, why) \<Rightarrow>
        (case out of
           Descend \<Rightarrow> descend child (inoOf b, inoOf ours, inoOf theirs) w
         | Conflicted \<Rightarrow>
             (case (if wo_policy opt = KeepBoth then keepBoth (wo_branch opt) child name ours theirs else None) of
                Some as \<Rightarrow> Inr (on_plan (\<lambda>p. p\<lparr>Kept := Kept p @ [\<lparr>kp_Path = child, kp_As = as, kp_Kind = the kind\<rparr>]\<rparr>) w)
              | None \<Rightarrow> Inr (on_plan (\<lambda>p. p\<lparr>Conflicts := Conflicts p @ [\<lparr>cf_Path = child, cf_Kind = the kind, cf_Detail = why\<rparr>]\<rparr>) w))
         | Same \<Rightarrow> Inr (on_plan (\<lambda>p. p\<lparr>Unchanged := Unchanged p + 1\<rparr>) w)
         | TakeOurs \<Rightarrow> Inr (on_plan (\<lambda>p. p\<lparr>TookOurs := TookOurs p + 1\<rparr>) w)
         | TakeTheirs \<Rightarrow> Inr (on_plan (\<lambda>p. p\<lparr>TookTheirs := TookTheirs p + 1\<rparr>) w)
         | Drop \<Rightarrow>
             (if ours \<noteq> None then Inr (on_plan (\<lambda>p. p\<lparr>TookTheirs := TookTheirs p + 1\<rparr>) w)
              else Inr (on_plan (\<lambda>p. p\<lparr>TookOurs := TookOurs p + 1\<rparr>) w))))"

fun walk_names :: "walk_opts \<Rightarrow> (string \<Rightarrow> uint64 \<times> uint64 \<times> uint64 \<Rightarrow> walker \<Rightarrow> merge_error + walker) \<Rightarrow> trees \<Rightarrow> string \<Rightarrow>
    (string \<times> node) list \<Rightarrow> (string \<times> node) list \<Rightarrow> (string \<times> node) list \<Rightarrow> string list \<Rightarrow> walker \<Rightarrow> merge_error + walker" where
  "walk_names opt descend t p be oe te [] w = Inr w"
| "walk_names opt descend t p be oe te (name # names) w =
     (let child = path_Join p name; b = map_of be name; ours = map_of oe name; theirs = map_of te name in
      case take_outcome opt descend t child name b ours theirs (note_inodes (wo_cut opt) child ours theirs w) of
        Inl e \<Rightarrow> Inl e
      | Inr w' \<Rightarrow> walk_names opt descend t p be oe te names w')"

text \<open>The recursion descends the trees; its first argument bounds the depth it may reach.\<close>

primrec walk_dir :: "nat \<Rightarrow> walk_opts \<Rightarrow> trees \<Rightarrow> string \<Rightarrow> uint64 \<times> uint64 \<times> uint64 \<Rightarrow> walker \<Rightarrow> merge_error + walker" where
  "walk_dir 0 opt t p tri w = Inl OutOfFuel"
| "walk_dir (Suc n) opt t p tri w =
     (case tri of (baseIno, ourIno, theirIno) \<Rightarrow>
        (case tree_entries (Some (t_base t)) baseIno of
           Inl e \<Rightarrow> Inl (ReadError e)
         | Inr be \<Rightarrow>
             (case tree_entries (Some (t_ours t)) ourIno of
                Inl e \<Rightarrow> Inl (ReadError e)
              | Inr oe \<Rightarrow>
                  (case tree_entries (Some (t_theirs t)) theirIno of
                     Inl e \<Rightarrow> Inl (ReadError e)
                   | Inr te \<Rightarrow> walk_names opt (\<lambda>c tr v. walk_dir n opt t c tr v) t p be oe te (union_names [be, oe, te]) w))))"

definition findCollisions :: "uint64 \<Rightarrow> walker \<Rightarrow> collision list" where
  "findCollisions lim w =
     (if lim = 0 then []
      else concat (map (\<lambda>(ino, ourPath).
        (case map_of (theirInodes w) ino of
           Some theirPath \<Rightarrow> [\<lparr>co_Inode = ino, co_OursPath = ourPath, co_TheirsPath = theirPath\<rparr>]
         | None \<Rightarrow> [])) (ourInodes w)))"

section \<open>Inputs\<close>

record merge_opts =
  mo_Base :: superblock
  mo_Ours :: superblock
  mo_Theirs :: superblock
  mo_BaseRaw :: bytes
  mo_OnConflict :: merge_policy
  mo_TheirBranch :: string

definition checkInputs :: "merge_opts \<Rightarrow> refusal option" where
  "checkInputs opt =
     (if VolumeID (mo_Ours opt) \<noteq> VolumeID (mo_Theirs opt) \<or> VolumeID (mo_Ours opt) \<noteq> VolumeID (mo_Base opt) then Some OtherVolume
      else if CatalogKeyID (mo_Ours opt) \<noteq> CatalogKeyID (mo_Theirs opt) \<or> CatalogKeyID (mo_Ours opt) \<noteq> CatalogKeyID (mo_Base opt)
      then Some OtherKey
      else if Generation (mo_Base opt) > Generation (mo_Ours opt) \<or> Generation (mo_Base opt) > Generation (mo_Theirs opt)
      then Some (BaseAfter (Generation (mo_Base opt)) (Generation (mo_Ours opt)) (Generation (mo_Theirs opt)))
      else None)"

definition lineageOf :: "superblock \<Rightarrow> uint32" where
  "lineageOf sb = (case Fork sb of Some f \<Rightarrow> fk_Lineage f | None \<Rightarrow> 0)"

definition cut_of_fork :: "(bytes \<Rightarrow> bytes) \<Rightarrow> merge_opts \<Rightarrow> fork \<Rightarrow> refusal + uint64" where
  "cut_of_fork hash opt f =
     (if mo_BaseRaw opt \<noteq> [] \<and> hash (mo_BaseRaw opt) \<noteq> fk_Base f
      then Inl (OtherBase (Generation (mo_Base opt)) (take 6 (hash (mo_BaseRaw opt))) (take 6 (fk_Base f)))
      else Inr (fk_BaseNextInode f))"

definition inodeCut :: "(bytes \<Rightarrow> bytes) \<Rightarrow> merge_opts \<Rightarrow> refusal + uint64" where
  "inodeCut hash opt =
     (case (Fork (mo_Ours opt), Fork (mo_Theirs opt)) of
        (None, None) \<Rightarrow> Inr (NextInode (mo_Base opt))
      | (Some f, Some g) \<Rightarrow>
          (if fk_Base f \<noteq> fk_Base g then Inl (OtherFork (fk_BaseGeneration f) (fk_BaseGeneration g))
           else cut_of_fork hash opt f)
      | (Some f, None) \<Rightarrow> cut_of_fork hash opt f
      | (None, Some g) \<Rightarrow> cut_of_fork hash opt g)"

definition fast_forward :: "string \<Rightarrow> plan" where
  "fast_forward dir = empty_plan\<lparr>FastForward := True, Direction := dir\<rparr>"

definition walk_options :: "merge_opts \<Rightarrow> uint64 \<Rightarrow> walk_opts" where
  "walk_options opt lim = \<lparr>wo_policy = mo_OnConflict opt,
     wo_branch = (if mo_TheirBranch opt = [] then ''theirs'' else mo_TheirBranch opt), wo_cut = lim\<rparr>"

definition walk_start :: "merge_opts \<Rightarrow> walker" where
  "walk_start opt = \<lparr>wk_plan = empty_plan\<lparr>FirstFreeInode := max (NextInode (mo_Ours opt)) (NextInode (mo_Theirs opt)),
     pl_policy := mo_OnConflict opt\<rparr>, ourInodes = [], theirInodes = []\<rparr>"

definition finish_plan :: "uint64 \<Rightarrow> walker \<Rightarrow> plan" where
  "finish_plan lim w =
     (let p = wk_plan w in
      p\<lparr>Conflicts := sort_key cf_Path (Conflicts p), Collisions := sort_key co_Inode (Collisions p @ findCollisions lim w)\<rparr>)"

text \<open>\<open>opened\<close> is what opening the three generations answers.\<close>

definition Compute :: "nat \<Rightarrow> (bytes \<Rightarrow> bytes) \<Rightarrow> string + trees \<Rightarrow> merge_opts \<Rightarrow> merge_error + plan" where
  "Compute fuel hash opened opt =
     (case checkInputs opt of
        Some r \<Rightarrow> Inr (empty_plan\<lparr>Refusal := Some r\<rparr>)
      | None \<Rightarrow>
          (case inodeCut hash opt of
             Inl r \<Rightarrow> Inr (empty_plan\<lparr>Refusal := Some r\<rparr>)
           | Inr cut0 \<Rightarrow>
               (let lim = (if lineageOf (mo_Ours opt) \<noteq> lineageOf (mo_Theirs opt) then 0 else cut0) in
                if RootCatalog (mo_Ours opt) = RootCatalog (mo_Theirs opt) then Inr (fast_forward ''already equal'')
                else if RootCatalog (mo_Ours opt) = RootCatalog (mo_Base opt) then Inr (fast_forward ''theirs'')
                else if RootCatalog (mo_Theirs opt) = RootCatalog (mo_Base opt) then Inr (fast_forward ''ours'')
                else case opened of
                  Inl e \<Rightarrow> Inl (OpenError e)
                | Inr t \<Rightarrow>
                    (case walk_dir fuel (walk_options opt lim) t ''/'' (1, 1, 1) (walk_start opt) of
                       Inl e \<Rightarrow> Inl e
                     | Inr w \<Rightarrow> Inr (finish_plan lim w)))))"

section \<open>The rule decided on one name\<close>

text \<open>
  What a name stands for: the attributes the merge compares and the content, read from its
  tree. \<open>three_way\<close> is the textbook rule on such values, \<open>None\<close> meaning a conflict and
  \<open>Some None\<close> that the name is gone.
\<close>

datatype payload = DirBody | LinkTo string | Inlined int64 bytes | Chunked int64 "(bytes \<times> int64 \<times> int64) list"

datatype view = View byte int64 uint32 uint32 uint32 payload

definition payload_of :: "content \<Rightarrow> payload" where
  "payload_of c =
     (case ct_Inline c of
        Some d \<Rightarrow> Inlined (ct_Length c) d
      | None \<Rightarrow> Chunked (ct_Length c) (map (\<lambda>r. (cr_Identity r, cr_LLen r, cr_LogicalOffset r)) (ct_Refs c)))"

definition view_of :: "gen_fs \<Rightarrow> node \<Rightarrow> string + view" where
  "view_of f e =
     (case (if n_Type e = TypeDir then Inr DirBody
            else if n_Type e = TypeSymlink then map_sum id LinkTo (Readlink f (n_Inode e))
            else map_sum id payload_of (ContentOf f (n_Inode e))) of
        Inl m \<Rightarrow> Inl m
      | Inr p \<Rightarrow> Inr (View (n_Type e) (n_Length e) (n_Mode e) (n_UID e) (n_GID e) p))"

definition reads_as :: "gen_fs \<Rightarrow> node option \<Rightarrow> view option \<Rightarrow> bool" where
  "reads_as f e v \<longleftrightarrow> (case e of None \<Rightarrow> v = None | Some n \<Rightarrow> (case view_of f n of Inl _ \<Rightarrow> False | Inr x \<Rightarrow> v = Some x))"

definition three_way :: "'v option \<Rightarrow> 'v option \<Rightarrow> 'v option \<Rightarrow> 'v option option" where
  "three_way b ours theirs =
     (if ours = theirs then Some ours else if ours = b then Some theirs else if theirs = b then Some ours else None)"

definition resolved :: "view option \<Rightarrow> view option \<Rightarrow> merge_outcome \<Rightarrow> view option option" where
  "resolved ours theirs out =
     (case out of TakeOurs \<Rightarrow> Some ours | Same \<Rightarrow> Some ours | TakeTheirs \<Rightarrow> Some theirs | Drop \<Rightarrow> Some None | _ \<Rightarrow> None)"

lemma sameRef_iff:
  "list_all2 sameRef xs ys \<longleftrightarrow>
     map (\<lambda>r. (cr_Identity r, cr_LLen r, cr_LogicalOffset r)) xs = map (\<lambda>r. (cr_Identity r, cr_LLen r, cr_LogicalOffset r)) ys"
  by (induction xs ys rule: list_induct2') (auto simp: sameRef_def)

lemma sameRecords_iff: "sameRecords a b \<longleftrightarrow> payload_of a = payload_of b"
proof (cases "ct_Inline a"; cases "ct_Inline b")
  assume "ct_Inline a = None" "ct_Inline b = None"
  then show ?thesis
    by (auto simp add: sameRecords_def payload_of_def sameRef_iff dest: map_eq_imp_length_eq)
qed (auto simp add: sameRecords_def payload_of_def)

lemma sameContent_views:
  assumes "view_of f e = Inr v" "view_of g d = Inr u"
  shows "sameContent f e g d = Inr (v = u)"
  using assms
  by (auto simp: view_of_def sameContent_def sameRecords_iff TypeDir_def TypeSymlink_def split: sum.splits if_splits)

lemma sameEntry_views:
  assumes "reads_as f (Some e) v" "reads_as g (Some d) u"
  shows "sameEntry f e g d \<longleftrightarrow> v = u"
  using assms by (auto simp: reads_as_def sameEntry_def sameContent_views split: sum.splits)

lemma reads_as_None [simp]: "reads_as f None v \<longleftrightarrow> v = None"
  by (simp add: reads_as_def)

lemma reads_as_Some:
  assumes "reads_as f (Some e) v"
  obtains x where "v = Some x" "view_of f e = Inr x"
  using assms by (auto simp: reads_as_def split: sum.splits)

lemma view_type:
  assumes "view_of f e = Inr (View ty len md u g p)"
  shows "ty = n_Type e"
  using assms by (auto simp: view_of_def split: sum.splits if_splits)

text \<open>
  C17: for a name that is no directory on either side and whose contents can be read,
  \<open>decide\<close> implements the three-way rule on what the name stands for: it takes the side that
  changed, drops what one side deleted and the other left alone, and calls every other
  divergence a conflict; beyond the rule it also refuses to choose between entries of two
  types, even when only one side changed.
\<close>

theorem decide_is_three_way:
  assumes base: "reads_as (t_base t) b vb"
    and ours: "reads_as (t_ours t) oe vo"
    and theirs: "reads_as (t_theirs t) te vt"
    and files: "\<not> (\<exists>n. (oe = Some n \<or> te = Some n) \<and> is_dir n)"
  shows "resolved vo vt (fst (decide t b oe te)) =
    (if (\<exists>x y. oe = Some x \<and> te = Some y \<and> n_Type x \<noteq> n_Type y) then None else three_way vb vo vt)"
proof (cases oe)
  case None
  then show ?thesis
    using assms
    by (cases te; cases b)
       (auto simp: decide_def resolved_def three_way_def is_dir_def sameEntry_views elim!: reads_as_Some)
next
  case (Some x)
  note x = Some
  show ?thesis
  proof (cases te)
    case None
    then show ?thesis
      using assms x
      by (cases b) (auto simp: decide_def resolved_def three_way_def is_dir_def sameEntry_views elim!: reads_as_Some)
  next
    case (Some y)
    have same: "sameContent (t_ours t) x (t_theirs t) y = Inr True \<longleftrightarrow> vo = vt"
      using ours theirs x Some sameEntry_views [of "t_ours t" x vo "t_theirs t" y vt] by (simp add: sameEntry_def)
    show ?thesis
      using assms x Some same
      by (cases b) (auto simp: decide_def resolved_def three_way_def is_dir_def sameEntry_views Let_def elim!: reads_as_Some)
  qed
qed

section \<open>Neither side is favoured\<close>

definition swapped :: "trees \<Rightarrow> trees" where
  "swapped t = t\<lparr>t_ours := t_theirs t, t_theirs := t_ours t\<rparr>"

fun mirror_outcome :: "merge_outcome \<Rightarrow> merge_outcome" where
  "mirror_outcome TakeOurs = TakeTheirs"
| "mirror_outcome TakeTheirs = TakeOurs"
| "mirror_outcome out = out"

fun mirror_detail :: "detail \<Rightarrow> detail" where
  "mirror_detail (TypesAre a b) = TypesAre b a"
| "mirror_detail OursModified = TheirsModified"
| "mirror_detail TheirsModified = OursModified"
| "mirror_detail d = d"

lemma sameRecords_sym: "sameRecords a b \<longleftrightarrow> sameRecords b a"
  unfolding sameRecords_iff by (rule eq_commute)

lemma sameContent_sym: "sameContent f e g d = Inr True \<longleftrightarrow> sameContent g d f e = Inr True"
  by (auto simp: sameContent_def sameRecords_sym [of "_ :: content"] split: sum.splits if_splits)

text \<open>
  \<open>decide\<close> treats the two sides alike. With ours and theirs exchanged it answers the
  mirrored outcome for the same kind of reason, whatever the trees hold and whichever
  reads fail, so merging dev into main and main into dev agree on what conflicts.
\<close>

theorem decide_mirrors:
  "decide (swapped t) b theirs ours =
     (case decide t b ours theirs of (out, kind, why) \<Rightarrow> (mirror_outcome out, kind, mirror_detail why))"
  by (cases ours; cases theirs; cases b)
     (auto simp: decide_def swapped_def sameEntry_def Let_def sameContent_sym [of "t_theirs t"])

text \<open>A side is taken, or a name dropped, only against an unchanged other side.\<close>

lemma decide_Drop_cases:
  assumes "fst (decide t b oe te) = Drop"
  shows "oe = None \<and> te = None \<or>
    (\<exists>be x. b = Some be \<and> oe = Some x \<and> te = None \<and> sameEntry (t_base t) be (t_ours t) x) \<or>
    (\<exists>be y. b = Some be \<and> te = Some y \<and> oe = None \<and> sameEntry (t_base t) be (t_theirs t) y)"
  using assms by (cases oe; cases te; cases b) (auto simp: decide_def Let_def split: if_splits)

lemma decide_Descend_iff:
  "fst (decide t b oe te) = Descend \<longleftrightarrow>
     (case (oe, te) of
        (Some x, Some y) \<Rightarrow> is_dir x \<and> is_dir y
      | (Some x, None) \<Rightarrow> is_dir x
      | (None, Some y) \<Rightarrow> is_dir y
      | (None, None) \<Rightarrow> False)"
  by (cases oe; cases te; cases b) (auto simp: decide_def is_dir_def Let_def)

lemma decide_kind:
  assumes "decide t b oe te = (Conflicted, kind, why)"
  shows "kind \<noteq> None"
  using assms by (cases oe; cases te; cases b) (auto simp: decide_def Let_def split: if_splits)

lemma decide_present:
  "fst (decide t b oe te) = TakeTheirs \<Longrightarrow> te \<noteq> None"
  "fst (decide t b oe te) = TakeOurs \<Longrightarrow> oe \<noteq> None"
  "fst (decide t b oe te) = Same \<Longrightarrow> oe \<noteq> None \<and> te \<noteq> None"
  by (cases oe; cases te; cases b; auto simp: decide_def Let_def split: if_splits)+

section \<open>What a clean walk has seen\<close>

definition clean :: "walker \<Rightarrow> bool" where
  "clean w \<longleftrightarrow> Conflicts (wk_plan w) = []"

lemma note_inodes_plan [simp]: "wk_plan (note_inodes lim child oe te w) = wk_plan w"
  by (simp add: note_inodes_def Let_def split: option.splits)

lemma clean_note_inodes [simp]: "clean (note_inodes lim child oe te w) \<longleftrightarrow> clean w"
  by (simp add: clean_def)

definition keeps_conflicts :: "(string \<Rightarrow> uint64 \<times> uint64 \<times> uint64 \<Rightarrow> walker \<Rightarrow> merge_error + walker) \<Rightarrow> bool" where
  "keeps_conflicts descend \<longleftrightarrow> (\<forall>c tr v v'. descend c tr v = Inr v' \<longrightarrow> clean v' \<longrightarrow> clean v)"

lemma keeps_conflictsD: "keeps_conflicts d \<Longrightarrow> d c tr v = Inr v' \<Longrightarrow> clean v' \<Longrightarrow> clean v"
  unfolding keeps_conflicts_def by blast

lemma take_outcome_clean:
  assumes "keeps_conflicts d" "take_outcome opt d t child name b oe te w = Inr w'" "clean w'"
  shows "clean w"
  using assms
  by (cases "decide t b oe te"; cases "fst (decide t b oe te)")
     (auto simp: take_outcome_def clean_def on_plan_def keeps_conflicts_def split: option.splits if_splits)

lemma walk_names_clean:
  assumes "keeps_conflicts d" "walk_names opt d t p be oe te ns w = Inr w'" "clean w'"
  shows "clean w"
  using assms
proof (induction ns arbitrary: w)
  case (Cons name ns)
  then obtain w1 where w1: "take_outcome opt d t (path_Join p name) name (map_of be name) (map_of oe name) (map_of te name)
      (note_inodes (wo_cut opt) (path_Join p name) (map_of oe name) (map_of te name) w) = Inr w1"
    "walk_names opt d t p be oe te ns w1 = Inr w'"
    by (auto simp: Let_def split: sum.splits)
  show ?case
    using take_outcome_clean [OF Cons.prems(1) w1(1)] Cons.IH [OF Cons.prems(1) w1(2) Cons.prems(3)] by simp
qed simp

lemma walk_dir_keeps_conflicts: "keeps_conflicts (\<lambda>c tr v. walk_dir n opt t c tr v)"
proof (induction n)
  case (Suc n)
  show ?case
    unfolding keeps_conflicts_def
    by (auto split: sum.splits dest: walk_names_clean [OF Suc.IH])
qed (simp add: keeps_conflicts_def)

definition keeps_policy :: "(string \<Rightarrow> uint64 \<times> uint64 \<times> uint64 \<Rightarrow> walker \<Rightarrow> merge_error + walker) \<Rightarrow> bool" where
  "keeps_policy d \<longleftrightarrow> (\<forall>c tr v v'. d c tr v = Inr v' \<longrightarrow> pl_policy (wk_plan v') = pl_policy (wk_plan v))"

lemma take_outcome_policy:
  assumes "keeps_policy d" "take_outcome opt d t child name b oe te w = Inr w'"
  shows "pl_policy (wk_plan w') = pl_policy (wk_plan w)"
  using assms
  by (cases "decide t b oe te"; cases "fst (decide t b oe te)")
     (auto simp: take_outcome_def on_plan_def keeps_policy_def split: option.splits if_splits)

lemma walk_names_policy:
  assumes "keeps_policy d" "walk_names opt d t p be oe te ns w = Inr w'"
  shows "pl_policy (wk_plan w') = pl_policy (wk_plan w)"
  using assms(2)
  by (induction ns arbitrary: w)
     (auto simp: Let_def split: sum.splits dest!: take_outcome_policy [OF assms(1)])

lemma walk_dir_keeps_policy: "keeps_policy (\<lambda>c tr v. walk_dir n opt t c tr v)"
proof (induction n)
  case (Suc n)
  show ?case
    unfolding keeps_policy_def
    by (auto split: sum.splits dest: walk_names_policy [OF Suc.IH])
qed (simp add: keeps_policy_def)

lemma walk_keeps_policy: "walk_dir n opt t p tri w = Inr w' \<Longrightarrow> pl_policy (wk_plan w') = pl_policy (wk_plan w)"
  using walk_dir_keeps_policy [of n opt t] unfolding keeps_policy_def by blast

text \<open>A name the walk passes without a conflict; \<open>ok\<close> holds of the directories it descends into.\<close>

definition settled :: "walk_opts \<Rightarrow> (uint64 \<times> uint64 \<times> uint64 \<Rightarrow> bool) \<Rightarrow> trees \<Rightarrow>
    node option \<Rightarrow> node option \<Rightarrow> node option \<Rightarrow> bool" where
  "settled opt ok t b oe te \<longleftrightarrow>
     (case fst (decide t b oe te) of
        Descend \<Rightarrow> ok (inoOf b, inoOf oe, inoOf te)
      | Conflicted \<Rightarrow> wo_policy opt = KeepBoth \<and> (\<exists>x y. oe = Some x \<and> te = Some y \<and> \<not> is_dir x \<and> \<not> is_dir y)
      | _ \<Rightarrow> True)"

lemma settled_mono:
  assumes "settled opt P t b oe te" "\<And>tr. P tr \<Longrightarrow> Q tr"
  shows "settled opt Q t b oe te"
  using assms by (simp add: settled_def split: merge_outcome.splits)

lemma keepBoth_Some:
  "keepBoth br path name oe te = Some as \<Longrightarrow> \<exists>x y. oe = Some x \<and> te = Some y \<and> \<not> is_dir x \<and> \<not> is_dir y"
  by (auto simp: keepBoth_def is_dir_def split: option.splits if_splits)

lemma take_outcome_settled:
  assumes "take_outcome opt d t child name b oe te w = Inr w'" "clean w'"
  shows "settled opt (\<lambda>tr. \<exists>c v v'. d c tr v = Inr v' \<and> clean v') t b oe te"
  using assms
  by (cases "decide t b oe te"; cases "fst (decide t b oe te)")
     (auto simp: take_outcome_def settled_def clean_def on_plan_def split: option.splits if_splits dest!: keepBoth_Some)

lemma walk_names_settled:
  assumes "keeps_conflicts d" "walk_names opt d t p be oe te ns w = Inr w'" "clean w'" "name \<in> set ns"
  shows "settled opt (\<lambda>tr. \<exists>c v v'. d c tr v = Inr v' \<and> clean v') t (map_of be name) (map_of oe name) (map_of te name)"
  using assms
proof (induction ns arbitrary: w)
  case (Cons nm ns)
  then obtain w1 where w1: "take_outcome opt d t (path_Join p nm) nm (map_of be nm) (map_of oe nm) (map_of te nm)
      (note_inodes (wo_cut opt) (path_Join p nm) (map_of oe nm) (map_of te nm) w) = Inr w1"
    "walk_names opt d t p be oe te ns w1 = Inr w'"
    by (auto simp: Let_def split: sum.splits)
  have "clean w1"
    by (rule walk_names_clean [OF Cons.prems(1) w1(2) Cons.prems(3)])
  then show ?case
    using take_outcome_settled [OF w1(1)] Cons.IH [OF Cons.prems(1) w1(2) Cons.prems(3)] Cons.prems(4) by auto
qed simp

text \<open>Three counterparts a walk has read to the end without a conflict.\<close>

definition walked :: "walk_opts \<Rightarrow> trees \<Rightarrow> uint64 \<times> uint64 \<times> uint64 \<Rightarrow> bool" where
  "walked opt t tri \<longleftrightarrow> (\<exists>n p w w'. walk_dir n opt t p tri w = Inr w' \<and> clean w')"

lemma walked_dir:
  assumes "walked opt t (bi, oi, ti)"
  obtains be oe te where "tree_entries (Some (t_base t)) bi = Inr be" "tree_entries (Some (t_ours t)) oi = Inr oe"
    "tree_entries (Some (t_theirs t)) ti = Inr te"
    "\<And>name. name \<in> set (union_names [be, oe, te]) \<Longrightarrow>
       settled opt (walked opt t) t (map_of be name) (map_of oe name) (map_of te name)"
proof -
  obtain n p w w' where w: "walk_dir n opt t p (bi, oi, ti) w = Inr w'" "clean w'"
    using assms by (auto simp: walked_def)
  obtain k where "n = Suc k"
    using w(1) by (cases n) auto
  then obtain be oe te where r: "tree_entries (Some (t_base t)) bi = Inr be" "tree_entries (Some (t_ours t)) oi = Inr oe"
      "tree_entries (Some (t_theirs t)) ti = Inr te"
    and names: "walk_names opt (\<lambda>c tr v. walk_dir k opt t c tr v) t p be oe te (union_names [be, oe, te]) w = Inr w'"
    using w(1) by (auto split: sum.splits)
  have "settled opt (walked opt t) t (map_of be name) (map_of oe name) (map_of te name)"
    if "name \<in> set (union_names [be, oe, te])" for name
    by (rule settled_mono [OF walk_names_settled [OF walk_dir_keeps_conflicts names w(2) that]])
       (auto simp: walked_def)
  then show ?thesis
    using that [OF r] by blast
qed

text \<open>Behind every answer of \<open>Compute\<close> that is a plan to carry out there is a walk of the roots.\<close>

lemma Compute_walk:
  assumes "Compute fuel hash (Inr t) mo = Inr p" "Refusal p = None" "\<not> FastForward p"
  shows "\<exists>lim w. walk_dir fuel (walk_options mo lim) t ''/'' (1, 1, 1) (walk_start mo) = Inr w \<and> p = finish_plan lim w"
  using assms
  by (auto simp: Compute_def Let_def fast_forward_def split: option.splits sum.splits if_splits)

lemma finish_plan_simps:
  "pl_policy (finish_plan lim w) = pl_policy (wk_plan w)"
  "Conflicts (finish_plan lim w) = [] \<longleftrightarrow> clean w"
  by (simp_all add: finish_plan_def Let_def clean_def) (metis length_0_conv length_sort)

lemma mergeable_plan_walked:
  assumes "Compute fuel hash (Inr t) mo = Inr p" "Mergeable p" "\<not> FastForward p"
  shows "\<exists>wo. wo_policy wo = pl_policy p \<and> walked wo t (1, 1, 1)"
proof -
  have "Refusal p = None"
    using assms(2) by (simp add: Mergeable_def)
  then obtain lim w where w: "walk_dir fuel (walk_options mo lim) t ''/'' (1, 1, 1) (walk_start mo) = Inr w"
    and p: "p = finish_plan lim w"
    using Compute_walk [OF assms(1) _ assms(3)] by blast
  have "clean w" "pl_policy p = wo_policy (walk_options mo lim)"
    using assms(2) walk_keeps_policy [OF w]
    by (simp_all add: p Mergeable_def finish_plan_simps walk_options_def walk_start_def)
  then show ?thesis
    using w unfolding walked_def by metis
qed

section \<open>The walk comes back\<close>

lemma put_all_mem: "(name, e) \<in> set (put_all es m) \<Longrightarrow> (name, e) \<in> set es \<or> (name, e) \<in> set m"
proof (induction es arbitrary: m)
  case (Cons p es)
  obtain k v where "p = (k, v)"
    by (cases p)
  moreover have "set (AList.update k v m) \<subseteq> insert (k, v) (set m)"
    by (induction m) auto
  ultimately show ?case
    using Cons by (auto simp: put_all_def)
qed (simp add: put_all_def)

lemma tree_entries_mem:
  assumes "tree_entries (Some f) ino = Inr m" "map_of m name = Some e"
  obtains es where "ino \<noteq> 0" "ReaddirRetain f ino = Inr es" "(name, e) \<in> set es"
  using assms by (auto simp: tree_entries_def split: if_splits sum.splits dest!: map_of_SomeD put_all_mem)

text \<open>A tree whose directories have ranks that fall on the way down has no cycle.\<close>

definition ranked :: "(uint64 \<Rightarrow> nat) \<Rightarrow> gen_fs \<Rightarrow> bool" where
  "ranked r f \<longleftrightarrow> (\<forall>ino es name e. ReaddirRetain f ino = Inr es \<longrightarrow> (name, e) \<in> set es \<longrightarrow> is_dir e \<longrightarrow> r (n_Inode e) < r ino)"

definition depth :: "(uint64 \<Rightarrow> nat) \<Rightarrow> uint64 \<Rightarrow> nat" where
  "depth r ino = (if ino = 0 then 0 else r ino)"

lemma child_rank:
  assumes "ranked r f" "tree_entries (Some f) ino = Inr m" "map_of m name = Some e" "is_dir e"
  shows "depth r (n_Inode e) < depth r ino"
  using assms by (auto simp: ranked_def depth_def elim!: tree_entries_mem) (metis gr_zeroI less_nat_zero_code)

lemma descent_depth:
  assumes ranks: "ranked ro (t_ours t)" "ranked rt (t_theirs t)"
    and oe: "tree_entries (Some (t_ours t)) oi = Inr om" and te: "tree_entries (Some (t_theirs t)) ti = Inr tm"
    and out: "fst (decide t b (map_of om name) (map_of tm name)) = Descend"
  shows "max (depth ro (inoOf (map_of om name))) (depth rt (inoOf (map_of tm name))) < max (depth ro oi) (depth rt ti)"
proof -
  have "depth ro (inoOf (map_of om name)) < depth ro oi \<or> map_of om name = None"
    "depth rt (inoOf (map_of tm name)) < depth rt ti \<or> map_of tm name = None"
    "map_of om name \<noteq> None \<or> map_of tm name \<noteq> None"
    using out child_rank [OF ranks(1) oe] child_rank [OF ranks(2) te]
    by (auto simp: decide_Descend_iff inoOf_def split: option.splits)
  then show ?thesis
    by (auto simp: inoOf_def depth_def less_max_iff_disj max_def split: if_splits)
qed

lemma take_outcome_fuel:
  assumes "take_outcome opt d t child name b oe te w = Inl OutOfFuel"
  shows "fst (decide t b oe te) = Descend \<and> d child (inoOf b, inoOf oe, inoOf te) w = Inl OutOfFuel"
  using assms
  by (cases "decide t b oe te"; cases "fst (decide t b oe te)")
     (auto simp: take_outcome_def split: option.splits if_splits)

lemma walk_names_fuel:
  assumes "walk_names opt d t p be oe te ns w = Inl OutOfFuel"
  shows "\<exists>name v. fst (decide t (map_of be name) (map_of oe name) (map_of te name)) = Descend \<and>
    d (path_Join p name) (inoOf (map_of be name), inoOf (map_of oe name), inoOf (map_of te name)) v = Inl OutOfFuel"
  using assms
proof (induction ns arbitrary: w)
  case (Cons name ns)
  define v where "v = note_inodes (wo_cut opt) (path_Join p name) (map_of oe name) (map_of te name) w"
  define r where "r = take_outcome opt d t (path_Join p name) name (map_of be name) (map_of oe name) (map_of te name) v"
  show ?case
  proof (cases r)
    case (Inl e)
    then have "r = Inl OutOfFuel"
      using Cons.prems by (simp add: r_def v_def Let_def)
    then show ?thesis
      using take_outcome_fuel [OF r_def [symmetric, THEN trans]] by blast
  next
    case (Inr w1)
    then show ?thesis
      using Cons by (simp add: r_def v_def Let_def)
  qed
qed simp

lemma walk_dir_fuel:
  assumes "ranked ro (t_ours t)" "ranked rt (t_theirs t)" "max (depth ro oi) (depth rt ti) < n"
  shows "walk_dir n opt t p (bi, oi, ti) w \<noteq> Inl OutOfFuel"
  using assms(3)
proof (induction n arbitrary: p bi oi ti w)
  case (Suc n)
  show ?case
  proof
    assume "walk_dir (Suc n) opt t p (bi, oi, ti) w = Inl OutOfFuel"
    then obtain be om tm where e: "tree_entries (Some (t_ours t)) oi = Inr om" "tree_entries (Some (t_theirs t)) ti = Inr tm"
      and n: "walk_names opt (\<lambda>c tr v. walk_dir n opt t c tr v) t p be om tm (union_names [be, om, tm]) w = Inl OutOfFuel"
      by (auto split: sum.splits)
    obtain name v where out: "fst (decide t (map_of be name) (map_of om name) (map_of tm name)) = Descend"
      and v: "walk_dir n opt t (path_Join p name) (inoOf (map_of be name), inoOf (map_of om name), inoOf (map_of tm name)) v =
        Inl OutOfFuel"
      using walk_names_fuel [OF n] by blast
    from out have "max (depth ro (inoOf (map_of om name))) (depth rt (inoOf (map_of tm name))) < n"
      using descent_depth [OF assms(1,2) e] Suc.prems by fastforce
    then show False
      using Suc.IH v by blast
  qed
qed simp

text \<open>
  C18: planning a merge ends. On two trees without a directory cycle, a walk allowed to go
  deeper than the roots' ranks never runs out, so \<open>Compute\<close> answers a plan, a refusal or a
  read that failed.
\<close>

theorem Compute_terminates:
  assumes "ranked ro (t_ours t)" "ranked rt (t_theirs t)" "max (ro 1) (rt 1) < fuel"
  shows "Compute fuel hash (Inr t) opt \<noteq> Inl OutOfFuel"
proof -
  have "walk_dir fuel wo t p (1, 1, 1) w \<noteq> Inl OutOfFuel" for wo p w
    by (rule walk_dir_fuel [OF assms(1,2)]) (use assms(3) in \<open>simp add: depth_def\<close>)
  then show ?thesis
    by (auto simp: Compute_def Let_def split: option.splits sum.splits)
qed

section \<open>A small volume\<close>

text \<open>A root directory with files; the content of an inode is one inline byte.\<close>

definition file_node :: "uint64 \<Rightarrow> node" where
  "file_node ino = \<lparr>n_Inode = ino, n_Type = 1, n_Mode = 0x1A4, n_UID = 0, n_GID = 0, n_MtimeNS = 0, n_CtimeNS = 0,
     n_Nlink = 1, n_Length = 1, n_Rdev = 0, n_Flags = 0\<rparr>"

definition root_with :: "(string \<times> node) list \<Rightarrow> (uint64 \<times> byte) list \<Rightarrow> gen_fs" where
  "root_with es bodies = \<lparr>ReaddirRetain = \<lambda>ino. if ino = 1 then Inr es else Inl ''no directory'',
     Readlink = \<lambda>_. Inl ''no link'',
     ContentOf = \<lambda>ino. (case map_of bodies ino of
         None \<Rightarrow> Inl ''no file'' | Some b \<Rightarrow> Inr \<lparr>ct_Length = 1, ct_Inline = Some [b], ct_Refs = [], ct_External = False\<rparr>),
     GetAttr = \<lambda>_. Inl ''unused'', ListXattr = \<lambda>_. Inr [], GetXattr = \<lambda>_ _. Inl ''unused''\<rparr>"

text \<open>Theirs edited the file; ours has not.\<close>

definition edited_trees :: trees where
  "edited_trees = \<lparr>t_base = root_with [(''a'', file_node 5)] [(5, 0)], t_ours = root_with [(''a'', file_node 5)] [(5, 0)],
     t_theirs = root_with [(''a'', file_node 5)] [(5, 1)]\<rparr>"

theorem decide_is_three_way_witness:
  "\<exists>v u. v \<noteq> u \<and> resolved (Some v) (Some u)
     (fst (decide edited_trees (Some (file_node 5)) (Some (file_node 5)) (Some (file_node 5)))) = Some (Some u)"
proof -
  let ?v = "\<lambda>b. View 1 1 0x1A4 0 0 (Inlined 1 [b])"
  have r: "reads_as (t_base edited_trees) (Some (file_node 5)) (Some (?v 0))"
    "reads_as (t_ours edited_trees) (Some (file_node 5)) (Some (?v 0))"
    "reads_as (t_theirs edited_trees) (Some (file_node 5)) (Some (?v 1))"
    by (simp_all add: reads_as_def view_of_def edited_trees_def file_node_def root_with_def payload_of_def TypeDir_def TypeSymlink_def)
  have "\<not> (\<exists>n. (Some (file_node 5) = Some n \<or> Some (file_node 5) = Some n) \<and> is_dir n)"
    by (simp add: is_dir_def file_node_def TypeDir_def)
  from decide_is_three_way [OF r this] show ?thesis
    by (intro exI [of _ "?v 0"] exI [of _ "?v 1"]) (simp add: three_way_def)
qed

theorem Compute_terminates_witness:
  "Compute 2 id (Inr edited_trees) \<lparr>mo_Base = ex_superblock, mo_Ours = ex_superblock\<lparr>RootCatalog := [1]\<rparr>,
     mo_Theirs = ex_superblock\<lparr>RootCatalog := [2]\<rparr>, mo_BaseRaw = [], mo_OnConflict = Refuse, mo_TheirBranch = ''dev''\<rparr> \<noteq> Inl OutOfFuel"
proof -
  have "ranked (\<lambda>ino. if ino = 1 then 1 else 0) (t_ours edited_trees)"
    "ranked (\<lambda>ino. if ino = 1 then 1 else 0) (t_theirs edited_trees)"
    by (auto simp: ranked_def edited_trees_def root_with_def is_dir_def file_node_def TypeDir_def split: if_splits)
  then show ?thesis
    by (rule Compute_terminates) simp
qed

end
