(* ===== verification/Merged_Tree.thy ===== *)
theory Merged_Tree
  imports Three_Way_Merge Pinned_Refs Pack_Manifest Multi_Pack
begin

text \<open>
  Carrying a merge out, \<open>internal/merge/apply.go\<close> and \<open>fastforward.go\<close>: the merged tree as a source that
  publishing reads one directory at a time, which side an inode's data comes from, the
  fresh inodes of kept copies, and the fast-forward that publishes the incoming tree under
  the branch's own identity. Publishing itself is an argument.
\<close>

section \<open>The source\<close>

record triple =
  tr_base :: uint64
  tr_ours :: uint64
  tr_theirs :: uint64

record src_node =
  s_Inode :: uint64
  s_Type :: byte
  s_Mode :: uint32
  s_UID :: uint32
  s_GID :: uint32
  s_MtimeNS :: int64
  s_CtimeNS :: int64
  s_Nlink :: uint32
  s_Length :: int64
  s_Rdev :: uint32

type_synonym src_entry = "string \<times> src_node"

record merge_source =
  ms_t :: trees
  ms_ours :: superblock
  ms_theirs :: superblock
  theirPacks :: "sealed_pack list"
  ms_policy :: merge_policy
  theirBranch :: string
  dirs :: "uint64 \<Rightarrow> triple option"
  fromTheirs :: "uint64 set"
  copies :: "uint64 \<Rightarrow> uint64 option"
  nextInode :: uint64
  tookIdentities :: "bytes list"

datatype apply_error = DirRead string | DirUnrecorded uint64 | ConflictDuringApply string detail
  | CannotKeep string detail

definition Root :: "merge_source \<Rightarrow> uint64" where "Root m = 1"

definition ms_NextInode :: "merge_source \<Rightarrow> uint64" where "ms_NextInode m = NextInode (ms_ours m)"

definition InodeMark :: "merge_source \<Rightarrow> uint64" where "InodeMark m = nextInode m"

definition srcNode :: "node \<Rightarrow> src_node" where
  "srcNode n = \<lparr>s_Inode = n_Inode n, s_Type = n_Type n, s_Mode = n_Mode n, s_UID = n_UID n, s_GID = n_GID n,
     s_MtimeNS = n_MtimeNS n, s_CtimeNS = n_CtimeNS n, s_Nlink = n_Nlink n, s_Length = n_Length n, s_Rdev = n_Rdev n\<rparr>"

definition srcEntry :: "string \<Rightarrow> node \<Rightarrow> src_entry" where
  "srcEntry name e = (name, srcNode e)"

definition ms_keepBoth :: "string \<Rightarrow> node option \<Rightarrow> node option \<Rightarrow> merge_source \<Rightarrow> (merge_source \<times> src_entry) option" where
  "ms_keepBoth name oe te m =
     (case (oe, te) of
        (Some x, Some y) \<Rightarrow>
          (if n_Type x = TypeDir \<or> n_Type y = TypeDir then None
           else let ino = nextInode m in
             Some (m\<lparr>nextInode := ino + 1, copies := (copies m)(ino \<mapsto> n_Inode y)\<rparr>,
               (ConflictName name (theirBranch m), srcNode (y\<lparr>n_Inode := ino, n_Nlink := 1\<rparr>))))
      | _ \<Rightarrow> None)"

definition mergedDir :: "string \<Rightarrow> node option \<Rightarrow> node option \<Rightarrow> node option \<Rightarrow> merge_source \<Rightarrow>
    merge_source \<times> src_entry \<times> triple" where
  "mergedDir name b oe te m =
     (let tri = \<lparr>tr_base = inoOf b, tr_ours = inoOf oe, tr_theirs = inoOf te\<rparr> in
      case oe of
        Some x \<Rightarrow> (m, srcEntry name x, tri)
      | None \<Rightarrow> (m\<lparr>fromTheirs := insert (inoOf te) (fromTheirs m)\<rparr>, srcEntry name (the te), tri))"

text \<open>One name of \<open>Readdir\<close>: the state it leaves, and an error or the entries it adds.\<close>

definition merged_name :: "string \<Rightarrow> node option \<Rightarrow> node option \<Rightarrow> node option \<Rightarrow> merge_source \<Rightarrow>
    merge_source \<times> (apply_error + src_entry list)" where
  "merged_name name b oe te m =
     (case decide (ms_t m) b oe te of (out, kind, why) \<Rightarrow>
        (case out of
           Drop \<Rightarrow> (m, Inr [])
         | Descend \<Rightarrow>
             (case mergedDir name b oe te m of
                (m', child, tri) \<Rightarrow> (m'\<lparr>dirs := (dirs m')(s_Inode (snd child) \<mapsto> tri)\<rparr>, Inr [child]))
         | Conflicted \<Rightarrow>
             (if ms_policy m \<noteq> KeepBoth then (m, Inl (ConflictDuringApply name why))
              else case ms_keepBoth name oe te m of
                None \<Rightarrow> (m, Inl (CannotKeep name why))
              | Some (m', copy) \<Rightarrow> (m', Inr [srcEntry name (the oe), copy]))
         | TakeTheirs \<Rightarrow> (m\<lparr>fromTheirs := insert (inoOf te) (fromTheirs m)\<rparr>, Inr [srcEntry name (the te)])
         | _ \<Rightarrow> (m, Inr [srcEntry name (the oe)])))"

fun merged_names :: "(string \<times> node) list \<Rightarrow> (string \<times> node) list \<Rightarrow> (string \<times> node) list \<Rightarrow> string list \<Rightarrow>
    merge_source \<Rightarrow> merge_source \<times> (apply_error + src_entry list)" where
  "merged_names be oe te [] m = (m, Inr [])"
| "merged_names be oe te (name # ns) m =
     (case merged_name name (map_of be name) (map_of oe name) (map_of te name) m of
        (m', Inl e) \<Rightarrow> (m', Inl e)
      | (m', Inr es) \<Rightarrow>
          (case merged_names be oe te ns m' of
             (m'', Inl e) \<Rightarrow> (m'', Inl e)
           | (m'', Inr fs) \<Rightarrow> (m'', Inr (es @ fs))))"

definition ms_Readdir :: "uint64 \<Rightarrow> merge_source \<Rightarrow> merge_source \<times> (apply_error + src_entry list)" where
  "ms_Readdir ino m =
     (case dirs m ino of
        None \<Rightarrow> (m, Inl (DirUnrecorded ino))
      | Some tr \<Rightarrow>
          (case tree_entries (Some (t_base (ms_t m))) (tr_base tr) of
             Inl e \<Rightarrow> (m, Inl (DirRead e))
           | Inr be \<Rightarrow>
               (case tree_entries (Some (t_ours (ms_t m))) (tr_ours tr) of
                  Inl e \<Rightarrow> (m, Inl (DirRead e))
                | Inr oe \<Rightarrow>
                    (case tree_entries (Some (t_theirs (ms_t m))) (tr_theirs tr) of
                       Inl e \<Rightarrow> (m, Inl (DirRead e))
                     | Inr te \<Rightarrow> merged_names be oe te (union_names [be, oe, te]) m))))"

section \<open>Where an inode's data comes from\<close>

datatype side = OurSide | TheirSide

definition treeFor :: "merge_source \<Rightarrow> uint64 \<Rightarrow> side" where
  "treeFor m ino =
     (if copies m ino \<noteq> None then TheirSide
      else if ino \<in> fromTheirs m then TheirSide
      else case dirs m ino of
        Some tr \<Rightarrow> (if tr_ours tr = 0 then TheirSide else OurSide)
      | None \<Rightarrow> OurSide)"

definition tree_of :: "merge_source \<Rightarrow> side \<Rightarrow> gen_fs" where
  "tree_of m s = (case s of OurSide \<Rightarrow> t_ours (ms_t m) | TheirSide \<Rightarrow> t_theirs (ms_t m))"

definition dataInode :: "merge_source \<Rightarrow> uint64 \<Rightarrow> uint64" where
  "dataInode m ino = (case copies m ino of Some f \<Rightarrow> f | None \<Rightarrow> ino)"

definition ms_Stat :: "merge_source \<Rightarrow> uint64 \<Rightarrow> string + src_node" where
  "ms_Stat m ino = map_sum id srcNode (GetAttr (tree_of m (treeFor m ino)) (dataInode m ino))"

definition ms_Readlink :: "merge_source \<Rightarrow> uint64 \<Rightarrow> string + string" where
  "ms_Readlink m ino = Readlink (tree_of m (treeFor m ino)) (dataInode m ino)"

fun get_xattrs :: "gen_fs \<Rightarrow> uint64 \<Rightarrow> string list \<Rightarrow> string + (string \<times> bytes) list" where
  "get_xattrs f ino [] = Inr []"
| "get_xattrs f ino (name # ns) =
     (case GetXattr f ino name of
        Inl e \<Rightarrow> Inl e
      | Inr v \<Rightarrow> (case get_xattrs f ino ns of Inl e \<Rightarrow> Inl e | Inr out \<Rightarrow> Inr ((name, v) # out)))"

definition ms_Xattrs :: "merge_source \<Rightarrow> uint64 \<Rightarrow> string + (string \<times> bytes) list" where
  "ms_Xattrs m ino =
     (let f = tree_of m (treeFor m ino); data = dataInode m ino in
      case ListXattr f data of Inl e \<Rightarrow> Inl e | Inr ns \<Rightarrow> get_xattrs f data ns)"

definition ms_ProvidedContent :: "uint64 \<Rightarrow> merge_source \<Rightarrow> merge_source \<times> (string + content)" where
  "ms_ProvidedContent ino m =
     (let s = treeFor m ino in
      case ContentOf (tree_of m s) (dataInode m ino) of
        Inl e \<Rightarrow> (m, Inl e)
      | Inr c \<Rightarrow>
          (if s = TheirSide
           then (m\<lparr>tookIdentities := fold List.insert (filter (\<lambda>i. length i = 32) (map cr_Identity (ct_Refs c)))
                  (tookIdentities m)\<rparr>, Inr c)
           else (m, Inr c)))"

definition ProvidedPacks :: "merge_source \<Rightarrow> sealed_pack list" where
  "ProvidedPacks m = theirPacks m"

text \<open>\<open>index\<close> answers nothing when no segment could be read; the rows passed to the callback, in order.\<close>

definition ProvidedEntries :: "Multi_Pack.index list option \<Rightarrow> merge_source \<Rightarrow> (string \<times> string) list" where
  "ProvidedEntries ix m =
     (case ix of
        None \<Rightarrow> []
      | Some set' \<Rightarrow> concat (map (\<lambda>id'. (case mset_Lookup set' id' of
            None \<Rightarrow> []
          | Some packs \<Rightarrow> map (\<lambda>p. (hex_encode id', p)) packs)) (tookIdentities m)))"

section \<open>Carrying a plan out\<close>

record apply_opts =
  ao_Inner :: bool
  ao_Base :: superblock
  ao_Ours :: superblock
  ao_Theirs :: superblock
  ao_TheirBranch :: string
  ao_Plan :: "plan option"
  ao_Refs :: bool
  ao_Branch :: string
  ao_SigningKey :: bytes

datatype carry_error = NoPlan | NotMergeable nat nat | NoTheirBranch | IsFastForward | NotFastForward | NoRefs
  | NoSigningKey | NoInner | HeadRead ref_error | StaleHead | OpenFailed string | PacksFailed pm_error
  | PublishFailed string | SignFailed sb_error | EncodeFailed | FlipRefused ref_error

definition new_source :: "apply_opts \<Rightarrow> plan \<Rightarrow> trees \<Rightarrow> sealed_pack list \<Rightarrow> merge_source" where
  "new_source opt p t packs =
     \<lparr>ms_t = t, ms_ours = ao_Ours opt, ms_theirs = ao_Theirs opt, theirPacks = packs, ms_policy = pl_policy p,
      theirBranch = (if ao_TheirBranch opt = [] then ''theirs'' else ao_TheirBranch opt),
      dirs = [1 \<mapsto> \<lparr>tr_base = 1, tr_ours = 1, tr_theirs = 1\<rparr>], fromTheirs = {}, copies = Map.empty,
      nextInode = NextInode (ao_Ours opt), tookIdentities = []\<rparr>"

text \<open>The checks \<open>Apply\<close> makes of its options, in their order.\<close>

definition apply_refusal :: "apply_opts \<Rightarrow> carry_error option" where
  "apply_refusal opt =
     (case ao_Plan opt of
        None \<Rightarrow> Some NoPlan
      | Some p \<Rightarrow>
          (if \<not> Mergeable p then Some (NotMergeable (length (Conflicts p)) (length (Collisions p)))
           else if pl_policy p = KeepBoth \<and> ao_TheirBranch opt = [] then Some NoTheirBranch
           else if FastForward p then Some IsFastForward
           else if \<not> ao_Refs opt \<or> ao_Branch opt = [] then Some NoRefs
           else if length (ao_SigningKey opt) = 0 \<and> \<not> IsUnsigned (ao_Ours opt) then Some NoSigningKey
           else if \<not> ao_Inner opt then Some NoInner
           else None))"

text \<open>\<open>fetch\<close> reads the head, \<open>packs\<close> resolves the incoming pack set, \<open>publish\<close> publishes a source over a head.\<close>

definition Apply :: "(files \<Rightarrow> (ref_error + fetched) \<times> files) \<Rightarrow> string + trees \<Rightarrow> (superblock \<Rightarrow> pm_error + sealed_pack list) \<Rightarrow>
    (merge_source \<Rightarrow> fetched \<Rightarrow> string + 'r) \<Rightarrow> apply_opts \<Rightarrow> files \<Rightarrow> (carry_error + 'r) \<times> files" where
  "Apply fetch opened packs publish opt fs =
     (case apply_refusal opt of
        Some e \<Rightarrow> (Inl e, fs)
      | None \<Rightarrow>
          (case fetch fs of
             (Inl e, fs') \<Rightarrow> (Inl (HeadRead e), fs')
           | (Inr head, fs') \<Rightarrow>
               (if RootCatalog (f_Superblock head) \<noteq> RootCatalog (ao_Ours opt) then (Inl StaleHead, fs')
                else case opened of
                  Inl e \<Rightarrow> (Inl (OpenFailed e), fs')
                | Inr t \<Rightarrow>
                    (case packs (ao_Theirs opt) of
                       Inl e \<Rightarrow> (Inl (PacksFailed e), fs')
                     | Inr ps \<Rightarrow>
                         (case publish (new_source opt (the (ao_Plan opt)) t ps) head of
                            Inl e \<Rightarrow> (Inl (PublishFailed e), fs')
                          | Inr r \<Rightarrow> (Inr r, fs'))))))"

definition packsOf :: "(string \<Rightarrow> bytes option) \<Rightarrow> (bytes \<Rightarrow> bytes) \<Rightarrow> superblock \<Rightarrow> pm_error + sealed_pack list" where
  "packsOf get hash sb =
     Packs get hash (map (\<lambda>r. \<lparr>sp_Name = pr_Name r, sp_TrailerHash = pr_TrailerHash r, sp_Size = pr_Size r\<rparr>) (PackList sb))
       (map (\<lambda>r. \<lparr>mr_Name = mf_Name r, mr_Hash = mf_Hash r\<rparr>) (Manifests sb))"

section \<open>The fast-forward\<close>

definition incoming_under_ours :: "scheme \<Rightarrow> int64 \<Rightarrow> apply_opts \<Rightarrow> fetched \<Rightarrow> superblock" where
  "incoming_under_ours sc now opt head =
     (ao_Theirs opt)\<lparr>Branch := ao_Branch opt,
       Generation := max (Generation (ao_Ours opt)) (Generation (ao_Theirs opt)) + 1,
       CreatedUnixNano := now,
       PrevHash := sum256 sc (f_Raw head),
       NextInode := NextInode (ao_Ours opt),
       Fork := Fork (ao_Ours opt),
       Maint := Maint (ao_Ours opt),
       Signature := zero64\<rparr>"

definition ff_Publish :: "scheme \<Rightarrow> (files \<Rightarrow> (ref_error + fetched) \<times> files) \<Rightarrow>
    (string \<Rightarrow> bytes \<Rightarrow> string \<Rightarrow> objects \<Rightarrow> ref_error option \<times> objects) \<Rightarrow> int64 \<Rightarrow> apply_opts \<Rightarrow> files \<times> objects \<Rightarrow>
    (carry_error + superblock option) \<times> files \<times> objects" where
  "ff_Publish sc fetch flip now opt st =
     (case st of (fs, w) \<Rightarrow>
        (if (case ao_Plan opt of None \<Rightarrow> True | Some p \<Rightarrow> \<not> FastForward p) then (Inl NotFastForward, fs, w)
         else if \<not> ao_Refs opt \<or> ao_Branch opt = [] then (Inl NoRefs, fs, w)
         else if length (ao_SigningKey opt) = 0 \<and> \<not> IsUnsigned (ao_Ours opt) then (Inl NoSigningKey, fs, w)
         else if Direction (the (ao_Plan opt)) = ''ours'' \<or> Direction (the (ao_Plan opt)) = ''already equal''
         then (Inr None, fs, w)
         else case fetch fs of
           (Inl e, fs') \<Rightarrow> (Inl (HeadRead e), fs', w)
         | (Inr head, fs') \<Rightarrow>
             (if Generation (f_Superblock head) \<noteq> Generation (ao_Ours opt) \<or>
                 RootCatalog (f_Superblock head) \<noteq> RootCatalog (ao_Ours opt)
              then (Inl StaleHead, fs', w)
              else case SignAs sc (Some (ao_Ours opt)) (ao_SigningKey opt) (incoming_under_ours sc now opt head) of
                (Some e, sb) \<Rightarrow> (Inl (SignFailed e), fs', w)
              | (None, sb) \<Rightarrow>
                  (case marshal sc sb of
                     None \<Rightarrow> (Inl EncodeFailed, fs', w)
                   | Some raw \<Rightarrow>
                       (case flip (ao_Branch opt) raw (f_ETag head) w of
                          (Some e, w') \<Rightarrow> (Inl (FlipRefused e), fs', w')
                        | (None, w') \<Rightarrow> (Inr (Some sb), fs', w'))))))"

section \<open>A plan without conflicts is carried out\<close>

text \<open>What publishing may do to a source: read a directory or a file's records, in any order.\<close>

inductive used_from :: "merge_source \<Rightarrow> merge_source \<Rightarrow> bool" for m0 :: merge_source where
  fresh: "used_from m0 m0"
| readdir: "used_from m0 m \<Longrightarrow> ms_Readdir ino m = (m', r) \<Longrightarrow> used_from m0 m'"
| content: "used_from m0 m \<Longrightarrow> ms_ProvidedContent ino m = (m', r) \<Longrightarrow> used_from m0 m'"

definition same_merge :: "merge_source \<Rightarrow> merge_source \<Rightarrow> bool" where
  "same_merge m m' \<longleftrightarrow> ms_t m' = ms_t m \<and> ms_policy m' = ms_policy m \<and> ms_ours m' = ms_ours m \<and> theirBranch m' = theirBranch m"

lemma same_merge_refl [simp]: "same_merge m m"
  by (simp add: same_merge_def)

lemma same_merge_trans: "same_merge a b \<Longrightarrow> same_merge b c \<Longrightarrow> same_merge a c"
  by (simp add: same_merge_def)

definition all_walked :: "walk_opts \<Rightarrow> merge_source \<Rightarrow> bool" where
  "all_walked wo m \<longleftrightarrow> wo_policy wo = ms_policy m \<and>
     (\<forall>ino tr. dirs m ino = Some tr \<longrightarrow> walked wo (ms_t m) (tr_base tr, tr_ours tr, tr_theirs tr))"

lemma mergedDir_eq:
  assumes "mergedDir name b oe te m = (m', child, tri)"
  shows "tri = \<lparr>tr_base = inoOf b, tr_ours = inoOf oe, tr_theirs = inoOf te\<rparr>" "dirs m' = dirs m" "same_merge m m'"
    "copies m' = copies m" "nextInode m' = nextInode m"
  using assms by (auto simp: mergedDir_def same_merge_def Let_def split: option.splits)

lemma ms_keepBoth_eq:
  assumes "ms_keepBoth name oe te m = Some (m', c)"
  shows "dirs m' = dirs m" "same_merge m m'" "fromTheirs m' = fromTheirs m" "nextInode m' = nextInode m + 1"
    "copies m' = (copies m)(nextInode m \<mapsto> inoOf te)" "fst c = ConflictName name (theirBranch m)" "s_Inode (snd c) = nextInode m"
  using assms by (auto simp: ms_keepBoth_def same_merge_def Let_def inoOf_def srcNode_def split: option.splits if_splits)

lemma merged_name_same: "merged_name name b oe te m = (m', r) \<Longrightarrow> same_merge m m'"
  by (cases "decide (ms_t m) b oe te"; cases "fst (decide (ms_t m) b oe te)")
     (auto simp: merged_name_def same_merge_def split: if_splits option.splits prod.splits
       dest!: ms_keepBoth_eq(2) mergedDir_eq(3))

lemma merged_names_same:
  assumes "merged_names be oe te ns m = (m', r)"
  shows "same_merge m m'"
  using assms
proof (induction ns arbitrary: m r)
  case (Cons nm ns)
  obtain m1 r1 where s: "merged_name nm (map_of be nm) (map_of oe nm) (map_of te nm) m = (m1, r1)"
    by (cases "merged_name nm (map_of be nm) (map_of oe nm) (map_of te nm) m")
  show ?case
  proof (cases r1)
    case (Inr es)
    then have "\<exists>r2. merged_names be oe te ns m1 = (m', r2)"
      using Cons.prems s by (auto split: prod.splits sum.splits)
    then show ?thesis
      using Cons.IH same_merge_trans [OF merged_name_same [OF s]] by blast
  qed (use Cons.prems s merged_name_same [OF s] in auto)
qed simp

lemma merged_name_walked:
  assumes inv: "all_walked wo m" and ok: "settled wo (walked wo (ms_t m)) (ms_t m) b oe te"
    and r: "merged_name name b oe te m = (m', r)"
  shows "all_walked wo m' \<and> (\<exists>es. r = Inr es)"
proof -
  obtain out kind why where d: "decide (ms_t m) b oe te = (out, kind, why)"
    by (cases "decide (ms_t m) b oe te")
  show ?thesis
  proof (cases out)
    case Descend
    obtain m1 child tri where c: "mergedDir name b oe te m = (m1, child, tri)"
      by (cases "mergedDir name b oe te m")
    have "m' = m1\<lparr>dirs := (dirs m1)(s_Inode (snd child) \<mapsto> tri)\<rparr>" "r = Inr [child]"
      using r d Descend c by (auto simp: merged_name_def)
    then show ?thesis
      using inv ok d Descend mergedDir_eq [OF c] by (auto simp: all_walked_def settled_def same_merge_def)
  next
    case Conflicted
    then obtain x y where xy: "oe = Some x" "te = Some y" "\<not> is_dir x" "\<not> is_dir y" and pol: "wo_policy wo = KeepBoth"
      using ok d by (auto simp: settled_def)
    obtain m1 c where k: "ms_keepBoth name oe te m = Some (m1, c)"
      using xy by (simp add: ms_keepBoth_def is_dir_def Let_def)
    have "ms_policy m = KeepBoth"
      using inv pol by (simp add: all_walked_def)
    then have "m' = m1" "\<exists>es. r = Inr es"
      using r d Conflicted k by (auto simp: merged_name_def)
    then show ?thesis
      using inv ms_keepBoth_eq [OF k] by (auto simp: all_walked_def same_merge_def)
  qed (use r d inv in \<open>auto simp: merged_name_def all_walked_def\<close>)
qed

lemma merged_names_walked:
  assumes "all_walked wo m" "\<forall>name \<in> set ns. settled wo (walked wo (ms_t m)) (ms_t m) (map_of be name) (map_of oe name) (map_of te name)"
    "merged_names be oe te ns m = (m', r)"
  shows "all_walked wo m' \<and> (\<exists>es. r = Inr es)"
  using assms
proof (induction ns arbitrary: m r)
  case (Cons name ns)
  obtain m1 r1 where s: "merged_name name (map_of be name) (map_of oe name) (map_of te name) m = (m1, r1)"
    by (cases "merged_name name (map_of be name) (map_of oe name) (map_of te name) m")
  then obtain es where "all_walked wo m1" "r1 = Inr es" "ms_t m1 = ms_t m"
    using merged_name_walked [OF Cons.prems(1) _ s] merged_name_same [OF s] Cons.prems(2) by (auto simp: same_merge_def)
  then show ?case
    using Cons s by (fastforce split: prod.splits sum.splits)
qed simp

lemma ms_Readdir_walked:
  assumes "all_walked wo m" "ms_Readdir ino m = (m', r)"
  shows "all_walked wo m' \<and> (\<forall>e. r = Inl e \<longrightarrow> e = DirUnrecorded ino \<and> dirs m ino = None)"
proof (cases "dirs m ino")
  case (Some tr)
  have "walked wo (ms_t m) (tr_base tr, tr_ours tr, tr_theirs tr)"
    using assms(1) Some by (simp add: all_walked_def)
  then obtain be oe te where e: "tree_entries (Some (t_base (ms_t m))) (tr_base tr) = Inr be"
      "tree_entries (Some (t_ours (ms_t m))) (tr_ours tr) = Inr oe"
      "tree_entries (Some (t_theirs (ms_t m))) (tr_theirs tr) = Inr te"
    and s: "\<And>name. name \<in> set (union_names [be, oe, te]) \<Longrightarrow>
      settled wo (walked wo (ms_t m)) (ms_t m) (map_of be name) (map_of oe name) (map_of te name)"
    by (rule walked_dir) blast
  have "merged_names be oe te (union_names [be, oe, te]) m = (m', r)"
    using assms(2) Some e by (simp add: ms_Readdir_def)
  then show ?thesis
    using merged_names_walked [OF assms(1)] s by blast
qed (use assms in \<open>auto simp: ms_Readdir_def\<close>)

lemma ms_ProvidedContent_frame:
  assumes "ms_ProvidedContent ino m = (m', r)"
  shows "same_merge m m'" "dirs m' = dirs m" "fromTheirs m' = fromTheirs m" "copies m' = copies m" "nextInode m' = nextInode m"
  using assms by (auto simp: ms_ProvidedContent_def same_merge_def Let_def split: sum.splits if_splits)

lemma used_from_walked:
  assumes "used_from m0 m" "all_walked wo m0"
  shows "all_walked wo m"
  using assms
proof (induction rule: used_from.induct)
  case (readdir m ino m' r)
  then show ?case
    using ms_Readdir_walked by blast
next
  case (content m ino m' r)
  then show ?case
    using ms_ProvidedContent_frame [OF content.hyps(2)] by (simp add: all_walked_def same_merge_def)
qed

text \<open>
  C19: planning and carrying out agree. When \<open>Compute\<close> answers a mergeable plan that is not a
  fast-forward, then however publishing reads the source \<open>Apply\<close> builds from it, no directory
  conflicts, no conflict proves impossible to keep and no read fails that had not failed
  before; the one error left is asking for a directory before its parent was read.
\<close>

theorem plan_is_carried_out:
  assumes "Compute fuel hash (Inr t) mo = Inr p" "Mergeable p" "\<not> FastForward p"
    and "used_from (new_source opt p t packs) m"
    and "ms_Readdir ino m = (m', Inl e)"
  shows "e = DirUnrecorded ino \<and> dirs m ino = None"
proof -
  obtain wo where "wo_policy wo = pl_policy p" "walked wo t (1, 1, 1)"
    using mergeable_plan_walked [OF assms(1-3)] by blast
  then have "all_walked wo (new_source opt p t packs)"
    by (simp add: all_walked_def new_source_def)
  then show ?thesis
    using ms_Readdir_walked [OF used_from_walked [OF assms(4)] assms(5)] by blast
qed

section \<open>What a merged directory lists\<close>

definition merged_node :: "trees \<Rightarrow> node option \<Rightarrow> node option \<Rightarrow> node option \<Rightarrow> src_node option" where
  "merged_node t b oe te =
     (case fst (decide t b oe te) of
        Drop \<Rightarrow> None
      | Conflicted \<Rightarrow> None
      | TakeTheirs \<Rightarrow> Some (srcNode (the te))
      | Descend \<Rightarrow> Some (srcNode (case oe of Some x \<Rightarrow> x | None \<Rightarrow> the te))
      | _ \<Rightarrow> Some (srcNode (the oe)))"

lemma merged_name_lists:
  assumes "merged_name name b oe te m = (m', Inr es)"
  shows "\<exists>more. es = (case merged_node (ms_t m) b oe te of None \<Rightarrow> [] | Some n \<Rightarrow> [(name, n)]) @ more \<and>
    (more \<noteq> [] \<longleftrightarrow> fst (decide (ms_t m) b oe te) = Conflicted) \<and>
    (more \<noteq> [] \<longrightarrow> ms_policy m = KeepBoth \<and> map fst more = [name, ConflictName name (theirBranch m)])"
  using assms
  by (cases "decide (ms_t m) b oe te"; cases "fst (decide (ms_t m) b oe te)"; cases oe)
     (auto simp: merged_name_def merged_node_def mergedDir_def srcEntry_def Let_def ms_keepBoth_def
       split: if_splits option.splits)

lemma merged_name_heads:
  assumes "merged_name name b oe te m = (m', Inr es)" "fst (decide (ms_t m) b oe te) \<noteq> Drop"
  shows "(\<exists>rest. map fst es = name # rest) \<and>
    (fst (decide (ms_t m) b oe te) = Conflicted \<longrightarrow> ConflictName name (theirBranch m) \<in> set (map fst es))"
  using assms
  by (cases "decide (ms_t m) b oe te"; cases "fst (decide (ms_t m) b oe te)"; cases oe)
     (auto simp: merged_name_def mergedDir_def srcEntry_def Let_def ms_keepBoth_def split: if_splits option.splits)

lemma merged_names_lists:
  assumes "merged_names be oe te ns m = (m', Inr es)" "ms_policy m = Refuse" "distinct ns"
  shows "fst ` set es \<subseteq> set ns \<and> distinct (map fst es) \<and> (\<forall>name \<in> set ns.
    map_of es name = merged_node (ms_t m) (map_of be name) (map_of oe name) (map_of te name))"
  using assms
proof (induction ns arbitrary: m es)
  case (Cons nm ns)
  obtain m1 e1 e2 where s: "merged_name nm (map_of be nm) (map_of oe nm) (map_of te nm) m = (m1, Inr e1)"
    "merged_names be oe te ns m1 = (m', Inr e2)" "es = e1 @ e2"
    using Cons.prems(1) by (auto split: prod.splits sum.splits)
  have same: "ms_t m1 = ms_t m" "ms_policy m1 = ms_policy m"
    using merged_name_same [OF s(1)] by (simp_all add: same_merge_def)
  have e1: "e1 = (case merged_node (ms_t m) (map_of be nm) (map_of oe nm) (map_of te nm) of None \<Rightarrow> [] | Some n \<Rightarrow> [(nm, n)])"
    using merged_name_lists [OF s(1)] Cons.prems(2) by auto
  have ih: "fst ` set e2 \<subseteq> set ns" "distinct (map fst e2)" "\<forall>name \<in> set ns.
      map_of e2 name = merged_node (ms_t m) (map_of be name) (map_of oe name) (map_of te name)"
    using Cons.IH [OF s(2)] Cons.prems same by auto
  have "nm \<notin> fst ` set e2"
    using ih(1) Cons.prems(3) by auto
  then have "map_of e2 nm = None"
    by (simp add: map_of_eq_None_iff)
  then show ?case
    using ih e1 s(3) Cons.prems(3) \<open>nm \<notin> fst ` set e2\<close> by (auto split: option.splits simp: map_add_def)
qed simp

lemma ms_Readdir_entries:
  assumes "ms_Readdir ino m = (m', Inr es)"
  obtains tr be oe te where "dirs m ino = Some tr" "tree_entries (Some (t_base (ms_t m))) (tr_base tr) = Inr be"
    "tree_entries (Some (t_ours (ms_t m))) (tr_ours tr) = Inr oe"
    "tree_entries (Some (t_theirs (ms_t m))) (tr_theirs tr) = Inr te"
    "merged_names be oe te (union_names [be, oe, te]) m = (m', Inr es)"
  using assms by (auto simp: ms_Readdir_def split: option.splits sum.splits)

lemma union_names_simps [simp]:
  "distinct (union_names maps)" "name \<in> set (union_names [be, oe, te]) \<longleftrightarrow>
     map_of be name \<noteq> None \<or> map_of oe name \<noteq> None \<or> map_of te name \<noteq> None"
  by (auto simp: union_names_def map_of_eq_None_iff)

lemma decide_absent [simp]: "decide t None None None = (Drop, None, NoDetail)"
  by (simp add: decide_def)

lemma inoOf_Some [simp]: "inoOf (Some e) = n_Inode e"
  by (simp add: inoOf_def)

lemma decided_name:
  assumes "fst (decide t (map_of be name) (map_of oe name) (map_of te name)) \<noteq> Drop"
  shows "name \<in> set (union_names [be, oe, te])"
  using assms unfolding union_names_simps(2) by (metis decide_absent fst_conv)

text \<open>The counterparts of a directory being read, each name's node in the three trees.\<close>

definition counterparts :: "merge_source \<Rightarrow> uint64 \<Rightarrow> (string \<times> node) list \<Rightarrow> (string \<times> node) list \<Rightarrow> (string \<times> node) list \<Rightarrow> bool" where
  "counterparts m ino be oe te \<longleftrightarrow>
     (\<exists>tr. dirs m ino = Some tr \<and> tree_entries (Some (t_base (ms_t m))) (tr_base tr) = Inr be \<and>
        tree_entries (Some (t_ours (ms_t m))) (tr_ours tr) = Inr oe \<and>
        tree_entries (Some (t_theirs (ms_t m))) (tr_theirs tr) = Inr te)"

lemma counterparts_names:
  "counterparts m ino be oe te \<Longrightarrow> ms_Readdir ino m = (m', Inr es) \<Longrightarrow>
     merged_names be oe te (union_names [be, oe, te]) m = (m', Inr es)"
  by (auto simp: counterparts_def ms_Readdir_def)

text \<open>
  a merged directory lists each name at most once, and with what was decided for it: the
  side taken, ours where both agree, nothing where it was dropped, and for a directory that
  both sides have, our node, whatever the other side made of its own.
\<close>

theorem merged_listing:
  assumes "ms_Readdir ino m = (m', Inr es)" "counterparts m ino be oe te" "ms_policy m = Refuse"
  shows "distinct (map fst es) \<and>
    map_of es name = merged_node (ms_t m) (map_of be name) (map_of oe name) (map_of te name)"
proof -
  note l = merged_names_lists [OF counterparts_names [OF assms(2,1)] assms(3)]
  show ?thesis
  proof (cases "name \<in> set (union_names [be, oe, te])")
    case False
    then have "name \<notin> fst ` set es" "map_of be name = None" "map_of oe name = None" "map_of te name = None"
      using l by auto
    then show ?thesis
      using l by (simp add: map_of_eq_None_iff [symmetric] merged_node_def)
  qed (use l in simp)
qed

text \<open>What each name adds, one list per name in the order they are read.\<close>

lemma merged_names_parts:
  assumes "merged_names be oe te ns m = (m', Inr es)" "distinct ns"
  shows "\<exists>f. es = concat (map f ns) \<and> (\<forall>nm \<in> set ns. \<exists>m1 m2. same_merge m m1 \<and>
    merged_name nm (map_of be nm) (map_of oe nm) (map_of te nm) m1 = (m2, Inr (f nm)))"
  using assms
proof (induction ns arbitrary: m es)
  case (Cons nm ns)
  obtain m1 e1 e2 where s: "merged_name nm (map_of be nm) (map_of oe nm) (map_of te nm) m = (m1, Inr e1)"
    "merged_names be oe te ns m1 = (m', Inr e2)" "es = e1 @ e2"
    using Cons.prems(1) by (auto split: prod.splits sum.splits)
  obtain f where f: "e2 = concat (map f ns)" "\<forall>k \<in> set ns. \<exists>m2 m3. same_merge m1 m2 \<and>
      merged_name k (map_of be k) (map_of oe k) (map_of te k) m2 = (m3, Inr (f k))"
    using Cons.IH [OF s(2)] Cons.prems(2) by auto
  have eq: "map (f(nm := e1)) ns = map f ns"
    using Cons.prems(2) by auto
  have "es = concat (map (f(nm := e1)) (nm # ns))"
    by (simp only: s(3) f(1) eq list.map concat.simps fun_upd_same)
  moreover have "\<exists>m2 m3. same_merge m m2 \<and>
      merged_name k (map_of be k) (map_of oe k) (map_of te k) m2 = (m3, Inr ((f(nm := e1)) k))" if "k \<in> set (nm # ns)" for k
  proof (cases "k = nm")
    case False
    then show ?thesis
      using f(2) that same_merge_trans [OF merged_name_same [OF s(1)]] by fastforce
  qed (use s(1) same_merge_refl [of m] in fastforce)
  ultimately show ?case
    by blast
qed simp

lemma ConflictName_longer: "length name < length (ConflictName name branch)"
  by (auto simp: ConflictName_def split: option.splits)

text \<open>
  a kept copy may take a name that is already taken. When a conflict on one name is kept
  and the directory has an entry of its own at the copy's name, the directory is listed with
  that name twice; nothing in the plan or the listing notices. Merging the same branch twice
  with \<open>KeepBoth\<close> is enough.
\<close>

theorem kept_copy_may_reuse_a_name:
  assumes "ms_Readdir ino m = (m', Inr es)" "counterparts m ino be oe te"
    and conflict: "fst (decide (ms_t m) (map_of be name) (map_of oe name) (map_of te name)) = Conflicted"
    and other: "other = ConflictName name (theirBranch m)"
      "fst (decide (ms_t m) (map_of be other) (map_of oe other) (map_of te other)) \<noteq> Drop"
  shows "\<not> distinct (map fst es)"
proof
  assume dist: "distinct (map fst es)"
  let ?ns = "union_names [be, oe, te]"
  obtain f where f: "es = concat (map f ?ns)" "\<forall>nm \<in> set ?ns. \<exists>m1 m2. same_merge m m1 \<and>
      merged_name nm (map_of be nm) (map_of oe nm) (map_of te nm) m1 = (m2, Inr (f nm))"
    using merged_names_parts [OF counterparts_names [OF assms(2,1)]] by auto
  have mem: "name \<in> set ?ns" "other \<in> set ?ns"
  proof -
    show "name \<in> set ?ns"
      using decided_name [of "ms_t m" be name oe te] conflict by simp
    show "other \<in> set ?ns"
      using decided_name [of "ms_t m" be other oe te] other(2) by simp
  qed
  have ne: "name \<noteq> other"
    using ConflictName_longer [of name "theirBranch m"] other(1) by auto
  have parts: "(\<exists>rest. map fst (f nm) = nm # rest) \<and> (fst (decide (ms_t m) (map_of be nm) (map_of oe nm) (map_of te nm)) = Conflicted \<longrightarrow>
      ConflictName nm (theirBranch m) \<in> set (map fst (f nm)))"
    if "nm \<in> set ?ns" "fst (decide (ms_t m) (map_of be nm) (map_of oe nm) (map_of te nm)) \<noteq> Drop" for nm
  proof -
    from f(2) [rule_format, OF that(1)] obtain m1 m2 where m1: "same_merge m m1"
      "merged_name nm (map_of be nm) (map_of oe nm) (map_of te nm) m1 = (m2, Inr (f nm))"
      by (elim exE conjE)
    then have "ms_t m1 = ms_t m" "theirBranch m1 = theirBranch m"
      by (simp_all add: same_merge_def)
    then show ?thesis
      using merged_name_heads [OF m1(2)] that(2) by simp
  qed
  have pn: "\<exists>rest. map fst (f name) = name # rest" "other \<in> set (map fst (f name))" "\<exists>rest. map fst (f other) = other # rest"
  proof -
    have "fst (decide (ms_t m) (map_of be name) (map_of oe name) (map_of te name)) \<noteq> Drop"
      by (simp add: conflict)
    then show "\<exists>rest. map fst (f name) = name # rest" "other \<in> set (map fst (f name))"
      using parts [OF mem(1)] conflict unfolding other(1) by blast+
    show "\<exists>rest. map fst (f other) = other # rest"
      using parts [OF mem(2) other(2)] by blast
  qed
  then have "map fst (f name) \<noteq> map fst (f other)" "other \<in> set (map fst (f name)) \<inter> set (map fst (f other))"
    using ne by auto
  moreover have "map fst (f name) \<in> set (map (map fst \<circ> f) ?ns)" "map fst (f other) \<in> set (map (map fst \<circ> f) ?ns)"
    using mem by force+
  moreover have "distinct (concat (map (map fst \<circ> f) ?ns))"
    using dist f(1) by (simp add: map_concat)
  ultimately show False
    unfolding distinct_concat_iff by blast
qed

section \<open>Which side's bytes an entry has\<close>

lemma merged_name_marks:
  assumes "merged_name name b oe te m = (m', r)" "ms_policy m = Refuse"
  shows "fromTheirs m \<subseteq> fromTheirs m' \<and> copies m' = copies m \<and>
    (fst (decide (ms_t m) b oe te) = TakeTheirs \<longrightarrow> inoOf te \<in> fromTheirs m')"
  using assms
  by (cases "decide (ms_t m) b oe te"; cases "fst (decide (ms_t m) b oe te)"; cases oe)
     (auto simp: merged_name_def mergedDir_def Let_def split: if_splits)

lemma merged_names_marks:
  assumes "merged_names be oe te ns m = (m', Inr es)" "ms_policy m = Refuse"
  shows "fromTheirs m \<subseteq> fromTheirs m' \<and> copies m' = copies m \<and> (\<forall>nm \<in> set ns.
    fst (decide (ms_t m) (map_of be nm) (map_of oe nm) (map_of te nm)) = TakeTheirs \<longrightarrow> inoOf (map_of te nm) \<in> fromTheirs m')"
  using assms
proof (induction ns arbitrary: m es)
  case (Cons nm ns)
  obtain m1 e1 e2 where s: "merged_name nm (map_of be nm) (map_of oe nm) (map_of te nm) m = (m1, Inr e1)"
    "merged_names be oe te ns m1 = (m', Inr e2)" "es = e1 @ e2"
    using Cons.prems(1) by (auto split: prod.splits sum.splits)
  have same: "ms_t m1 = ms_t m" "ms_policy m1 = ms_policy m"
    using merged_name_same [OF s(1)] by (simp_all add: same_merge_def)
  show ?case
    using merged_name_marks [OF s(1) Cons.prems(2)] Cons.IH [OF s(2)] Cons.prems(2) same by auto
qed simp

lemma ProvidedContent_side:
  "snd (ms_ProvidedContent ino m) = ContentOf (tree_of m (treeFor m ino)) (dataInode m ino)"
  by (simp add: ms_ProvidedContent_def Let_def split: sum.splits)

text \<open>
  what a merged file holds is what was decided for its name. The content publishing is
  given for a name taken from theirs is the one theirs has. For a name kept from ours it is
  the one ours has, as long as the merge has marked the inode neither as taken from theirs nor
  as a directory of theirs.
\<close>

theorem content_follows_the_decision:
  assumes "ms_Readdir ino m = (m', Inr es)" "counterparts m ino be oe te" "ms_policy m = Refuse" "copies m = Map.empty"
  shows "(fst (decide (ms_t m) (map_of be name) (map_of oe name) (map_of te name)) = TakeTheirs \<longrightarrow>
      snd (ms_ProvidedContent (inoOf (map_of te name)) m') = ContentOf (t_theirs (ms_t m)) (inoOf (map_of te name))) \<and>
    (\<forall>x. map_of oe name = Some x \<longrightarrow> n_Inode x \<notin> fromTheirs m' \<longrightarrow> dirs m' (n_Inode x) = None \<longrightarrow>
      snd (ms_ProvidedContent (n_Inode x) m') = ContentOf (t_ours (ms_t m)) (n_Inode x))"
proof -
  note names = counterparts_names [OF assms(2,1)]
  note marks = merged_names_marks [OF names assms(3)]
  have t: "ms_t m' = ms_t m"
    using merged_names_same [OF names] by (simp add: same_merge_def)
  have "inoOf (map_of te name) \<in> fromTheirs m'"
    if "fst (decide (ms_t m) (map_of be name) (map_of oe name) (map_of te name)) = TakeTheirs"
    using marks that decided_name [of "ms_t m" be name oe te] by simp
  then show ?thesis
    using marks assms(4) by (simp add: ProvidedContent_side treeFor_def tree_of_def dataInode_def t)
qed

text \<open>
  a hard link the incoming side adds discards our edit. Where the merge keeps our version
  of one name and takes from theirs another name of the same inode, in the same directory,
  the listing shows our entry, and the content publishing is given for it is theirs: no
  conflict and no collision is reported.
\<close>

theorem added_link_discards_our_edit:
  assumes "ms_Readdir ino m = (m', Inr es)" "counterparts m ino be oe te" "ms_policy m = Refuse" "copies m = Map.empty"
    and ours: "fst (decide (ms_t m) (map_of be name) (map_of oe name) (map_of te name)) = TakeOurs" "map_of oe name = Some x"
    and link: "fst (decide (ms_t m) (map_of be other) (map_of oe other) (map_of te other)) = TakeTheirs"
      "map_of te other = Some y" "n_Inode y = n_Inode x"
  shows "map_of es name = Some (srcNode x) \<and>
    snd (ms_ProvidedContent (s_Inode (srcNode x)) m') = ContentOf (t_theirs (ms_t m)) (n_Inode x)"
proof -
  note names = counterparts_names [OF assms(2,1)]
  note marks = merged_names_marks [OF names assms(3)]
  have "n_Inode x \<in> fromTheirs m'"
  proof -
    have "other \<in> set (union_names [be, oe, te])"
      using decided_name [of "ms_t m" be other oe te] link(1) by simp
    then have "inoOf (map_of te other) \<in> fromTheirs m'"
      using marks link(1) by blast
    then show ?thesis
      by (simp add: link)
  qed
  moreover have "map_of es name = Some (srcNode x)"
    using merged_names_lists [OF names assms(3)] ours decided_name [of "ms_t m" be name oe te]
    by (simp add: merged_node_def)
  ultimately show ?thesis
    using marks assms(4) merged_names_same [OF names]
    by (simp add: ProvidedContent_side treeFor_def tree_of_def dataInode_def srcNode_def same_merge_def)
qed

text \<open>
  what the incoming side did to a directory itself is dropped. Where both sides have a
  directory that only theirs changed, in mode, owner or group, the rule \<open>decide\<close> follows for
  files would take theirs; the merged tree has ours, and no conflict is reported.
\<close>

theorem directory_change_is_lost:
  assumes "is_dir x" "is_dir y" "reads_as (t_base t) (Some x) v" "reads_as (t_ours t) (Some x) v" "reads_as (t_theirs t) (Some y) u"
    and "v \<noteq> u"
  shows "three_way v v u = Some u \<and> merged_node t (Some x) (Some x) (Some y) = Some (srcNode x) \<and>
    decide t (Some x) (Some x) (Some y) = (Descend, None, NoDetail)"
  using assms by (simp add: three_way_def merged_node_def decide_def is_dir_def)

section \<open>What a fast-forward publishes\<close>

lemma SignAs_fields:
  assumes "SignAs sc (Some prev) key sb = (None, sb')"
  shows "\<exists>pub np sig. sb' = sb\<lparr>SigningPub := pub, NextPub := np, Signature := sig\<rparr> \<and>
    (if IsUnsigned prev then IsUnsigned sb' \<and> np = None else np = NextPub sb \<and> pub = ed_public sc key)"
proof (cases "IsUnsigned prev")
  case True
  then have "sb' = Unsign sb"
    using assms by (simp add: SignAs_def split: if_splits)
  then show ?thesis
    using True by (intro exI [of _ zero32] exI [of _ None] exI [of _ zero64]) (simp add: Unsign_def IsUnsigned_def)
next
  case False
  then obtain msg where "sb' = sb\<lparr>SigningPub := ed_public sc key, Signature := ed_sign sc key msg\<rparr>"
    using assms by (auto simp: SignAs_def Sign_def Let_def split: if_splits option.splits)
  then show ?thesis
    using False by (intro exI [of _ "ed_public sc key"] exI [of _ "NextPub sb"] exI [of _ "ed_sign sc key msg"]) simp
qed

text \<open>A fast-forward that publishes has read the head the plan was made for, and put its document there.\<close>

lemma ff_Publish_published:
  assumes "ff_Publish sc fetch flip now opt (fs, w) = (Inr (Some sb), fs', w')"
  obtains head raw where "fetch fs = (Inr head, fs')"
    "Generation (f_Superblock head) = Generation (ao_Ours opt)" "RootCatalog (f_Superblock head) = RootCatalog (ao_Ours opt)"
    "SignAs sc (Some (ao_Ours opt)) (ao_SigningKey opt) (incoming_under_ours sc now opt head) = (None, sb)"
    "marshal sc sb = Some raw" "flip (ao_Branch opt) raw (f_ETag head) w = (None, w')"
  using assms by (auto simp: ff_Publish_def split: if_splits prod.splits sum.splits option.splits)

definition same_tree :: "superblock \<Rightarrow> superblock \<Rightarrow> bool" where
  "same_tree a b \<longleftrightarrow> VolumeID a = VolumeID b \<and> RootCatalog a = RootCatalog b \<and> Catalogs a = Catalogs b \<and> Shards a = Shards b \<and>
     PackList a = PackList b \<and> Manifests a = Manifests b \<and> PackIndexes a = PackIndexes b \<and> Grafts a = Grafts b"

text \<open>
  a fast-forward that publishes puts the incoming tree under the branch's own identity.
  The head it replaces is the one the plan was made for; the document names the incoming
  root, catalogs and packs, and our branch name, fork, maintenance record and inode mark; it
  succeeds the head it read by hash, its generation is above both sides unless the counter is
  at its end, and it is unsigned exactly when our branch is. That document, encoded, is what
  the ref is flipped to against the ETag read.
\<close>

theorem fast_forward_publishes_theirs_as_ours:
  assumes "ff_Publish sc fetch flip now opt (fs, w) = (Inr (Some sb), fs', w')"
    and "Generation (ao_Ours opt) < - 1" "Generation (ao_Theirs opt) < - 1"
  shows "\<exists>head raw. fetch fs = (Inr head, fs') \<and> RootCatalog (f_Superblock head) = RootCatalog (ao_Ours opt) \<and>
    Generation (f_Superblock head) = Generation (ao_Ours opt) \<and>
    same_tree sb (ao_Theirs opt) \<and> Branch sb = ao_Branch opt \<and> NextInode sb = NextInode (ao_Ours opt) \<and>
    Fork sb = Fork (ao_Ours opt) \<and> Maint sb = Maint (ao_Ours opt) \<and> PrevHash sb = sum256 sc (f_Raw head) \<and>
    Generation sb > Generation (ao_Ours opt) \<and> Generation sb > Generation (ao_Theirs opt) \<and>
    (IsUnsigned (ao_Ours opt) \<longrightarrow> IsUnsigned sb) \<and>
    marshal sc sb = Some raw \<and> flip (ao_Branch opt) raw (f_ETag head) w = (None, w')"
proof -
  obtain head raw where h: "fetch fs = (Inr head, fs')"
    "Generation (f_Superblock head) = Generation (ao_Ours opt)" "RootCatalog (f_Superblock head) = RootCatalog (ao_Ours opt)"
    "SignAs sc (Some (ao_Ours opt)) (ao_SigningKey opt) (incoming_under_ours sc now opt head) = (None, sb)"
    "marshal sc sb = Some raw" "flip (ao_Branch opt) raw (f_ETag head) w = (None, w')"
    by (rule ff_Publish_published [OF assms(1)])
  have up: "max a b + 1 > a \<and> max a b + 1 > b" if "a < - 1" "b < - 1" for a b :: uint64
  proof -
    have "max a b \<noteq> - 1"
      using that by (metis less_irrefl max_def)
    then have "1 + max a b \<noteq> 0"
      using max_word_wrap [of "max a b"] by (metis add.commute)
    then have "max a b < max a b + 1"
      by (simp add: word_less_nat_alt unatSuc add.commute)
    then show ?thesis
      by (meson max.cobounded1 max.cobounded2 order_le_less_trans)
  qed
  show ?thesis
    using SignAs_fields [OF h(4)] h(1-3,5,6) up [OF assms(2,3)]
    by (intro exI [of _ head] exI [of _ raw]) (auto simp: incoming_under_ours_def same_tree_def split: if_splits)
qed

text \<open>
  a fast-forward forgets what our branch was still holding. The document it publishes has
  the incoming side's packs and condemned ledger, so a pack our head listed and theirs does
  not, one a repack of our branch wrote, is afterwards neither listed nor condemned; and a
  successor key our head had announced is replaced by whatever theirs announces.
\<close>

theorem fast_forward_drops_our_ledger:
  assumes "ff_Publish sc fetch flip now opt (fs, w) = (Inr (Some sb), fs', w')"
    and "pk \<in> set (PackList (ao_Ours opt))" "pr_Name pk \<notin> pr_Name ` set (PackList (ao_Theirs opt))"
      "pr_Name pk \<notin> cn_Name ` set (Condemned (ao_Theirs opt))"
  shows "pr_Name pk \<notin> pr_Name ` set (PackList sb) \<and> pr_Name pk \<notin> cn_Name ` set (Condemned sb) \<and>
    NextPub sb = (if IsUnsigned (ao_Ours opt) then None else NextPub (ao_Theirs opt))"
proof -
  obtain head raw where h: "SignAs sc (Some (ao_Ours opt)) (ao_SigningKey opt) (incoming_under_ours sc now opt head) = (None, sb)"
    by (rule ff_Publish_published [OF assms(1)])
  show ?thesis
    using SignAs_fields [OF h] assms(2-4) by (auto simp: incoming_under_ours_def split: if_splits)
qed

text \<open>A head that moved is refused, and nothing is written.\<close>

lemma ff_Publish_moved_head:
  assumes "fetch fs = (Inr head, fs')" "ff_Publish sc fetch flip now opt (fs, w) = (r, fs'', w')"
    "Generation (f_Superblock head) \<noteq> Generation (ao_Ours opt) \<or> RootCatalog (f_Superblock head) \<noteq> RootCatalog (ao_Ours opt)"
  shows "w' = w \<and> \<not> (\<exists>sb. r = Inr (Some sb))"
  using assms by (auto simp: ff_Publish_def split: if_splits)

section \<open>Witnesses\<close>

text \<open>Both sides have moved from the base, on a volume whose trees are as given.\<close>

definition forked :: superblock where
  "forked = ex_superblock\<lparr>NextInode := 10\<rparr>"

definition diverged :: "merge_policy \<Rightarrow> merge_opts" where
  "diverged pol = \<lparr>mo_Base = forked, mo_Ours = forked\<lparr>RootCatalog := [1]\<rparr>,
     mo_Theirs = forked\<lparr>RootCatalog := [2]\<rparr>, mo_BaseRaw = [], mo_OnConflict = pol, mo_TheirBranch = ''dev''\<rparr>"

definition carrying :: "apply_opts" where
  "carrying = \<lparr>ao_Inner = True, ao_Base = forked, ao_Ours = forked\<lparr>RootCatalog := [1]\<rparr>,
     ao_Theirs = forked\<lparr>RootCatalog := [2], PackList := [\<lparr>pr_Name = ''q'', pr_TrailerHash = [], pr_Size = 1\<rparr>]\<rparr>,
     ao_TheirBranch = ''dev'', ao_Plan = None, ao_Refs = True, ao_Branch = ''main'', ao_SigningKey = []\<rparr>"

definition source_of :: "merge_policy \<Rightarrow> trees \<Rightarrow> merge_source" where
  "source_of pol t = new_source carrying (empty_plan\<lparr>pl_policy := pol\<rparr>) t []"

text \<open>Ours edited the file, theirs gave it a second name.\<close>

definition linked_trees :: trees where
  "linked_trees = \<lparr>t_base = root_with [(''a'', file_node 5)] [(5, 0)], t_ours = root_with [(''a'', file_node 5)] [(5, 1)],
     t_theirs = root_with [(''a'', file_node 5), (''c'', file_node 5)] [(5, 0)]\<rparr>"

text \<open>Both edited the file, and the copy an earlier merge kept is still there.\<close>

definition twice_trees :: trees where
  "twice_trees = \<lparr>t_base = root_with [(''a'', file_node 5)] [(5, 0)],
     t_ours = root_with [(''a'', file_node 5), (''a (from dev)'', file_node 7)] [(5, 1), (7, 3)],
     t_theirs = root_with [(''a'', file_node 5)] [(5, 2)]\<rparr>"

lemmas tree_simps = root_with_def tree_entries_def put_all_def decide_def sameContent_def sameEntry_def
  sameRecords_def TypeDir_def TypeSymlink_def

lemma file_node_simps [simp]: "n_Inode (file_node i) = i" "n_Type (file_node i) = 1"
  by (simp_all add: file_node_def)

lemma source_of_simps [simp]:
  "ms_t (source_of pol t) = t" "ms_policy (source_of pol t) = pol" "copies (source_of pol t) = Map.empty"
  "dirs (source_of pol t) = [1 \<mapsto> \<lparr>tr_base = 1, tr_ours = 1, tr_theirs = 1\<rparr>]"
  "theirBranch (source_of pol t) = ''dev''"
  by (simp_all add: source_of_def new_source_def carrying_def)

lemma linked_names: "union_names [[(''a'', x)], [(''a'', y)], [(''a'', z), (''c'', z')]] = [''a'', ''c'']"
  by (simp add: union_names_def)

lemma linked_root:
  "counterparts (source_of Refuse linked_trees) 1 [(''a'', file_node 5)] [(''a'', file_node 5)]
     [(''a'', file_node 5), (''c'', file_node 5)]"
  by (simp add: counterparts_def linked_trees_def root_with_def tree_entries_def put_all_def)

lemma linked_decide:
  "decide linked_trees (Some (file_node 5)) (Some (file_node 5)) (Some (file_node 5)) = (TakeOurs, None, NoDetail)"
  "decide linked_trees None None (Some (file_node 5)) = (TakeTheirs, None, NoDetail)"
  by (simp_all add: linked_trees_def tree_simps)

lemma linked_read: "\<exists>m' es. ms_Readdir 1 (source_of Refuse linked_trees) = (m', Inr es)"
proof -
  have "case ms_Readdir 1 (source_of Refuse linked_trees) of (_, r) \<Rightarrow> (case r of Inl _ \<Rightarrow> False | Inr _ \<Rightarrow> True)"
    by code_simp
  then show ?thesis
    by (auto split: prod.splits sum.splits)
qed

lemma linked_plan: "case Compute 1 id (Inr linked_trees) (diverged Refuse) of Inr p \<Rightarrow> Mergeable p \<and> \<not> FastForward p | Inl _ \<Rightarrow> False"
  by code_simp

theorem plan_is_carried_out_witness:
  "\<exists>p. Compute 1 id (Inr linked_trees) (diverged Refuse) = Inr p \<and>
     (\<forall>m' e. ms_Readdir 7 (new_source carrying p linked_trees []) = (m', Inl e) \<longrightarrow> e = DirUnrecorded 7)"
proof -
  obtain p where p: "Compute 1 id (Inr linked_trees) (diverged Refuse) = Inr p" "Mergeable p" "\<not> FastForward p"
    using linked_plan by (auto split: sum.splits)
  show ?thesis
    using p(1) plan_is_carried_out [OF p used_from.fresh] by blast
qed

theorem merged_listing_witness:
  "\<exists>m' es. ms_Readdir 1 (source_of Refuse linked_trees) = (m', Inr es) \<and> map_of es ''c'' = Some (srcNode (file_node 5))"
proof -
  obtain m' es where r: "ms_Readdir 1 (source_of Refuse linked_trees) = (m', Inr es)"
    using linked_read by blast
  show ?thesis
    using merged_listing [OF r linked_root, of "''c''"] r by (auto simp: merged_node_def linked_decide)
qed

theorem content_follows_the_decision_witness:
  "\<exists>m' es. ms_Readdir 1 (source_of Refuse linked_trees) = (m', Inr es) \<and>
     snd (ms_ProvidedContent 5 m') = ContentOf (t_theirs linked_trees) 5"
proof -
  obtain m' es where r: "ms_Readdir 1 (source_of Refuse linked_trees) = (m', Inr es)"
    using linked_read by blast
  show ?thesis
    using content_follows_the_decision [OF r linked_root, of "''c''"] r by (auto simp: linked_decide)
qed

theorem added_link_discards_our_edit_witness:
  "ContentOf (t_ours linked_trees) 5 \<noteq> ContentOf (t_theirs linked_trees) 5 \<and>
   (\<exists>m' es. ms_Readdir 1 (source_of Refuse linked_trees) = (m', Inr es) \<and> map_of es ''a'' = Some (srcNode (file_node 5)) \<and>
     snd (ms_ProvidedContent 5 m') = ContentOf (t_theirs linked_trees) 5)"
proof -
  obtain m' es where r: "ms_Readdir 1 (source_of Refuse linked_trees) = (m', Inr es)"
    using linked_read by blast
  have "map_of es ''a'' = Some (srcNode (file_node 5)) \<and>
      snd (ms_ProvidedContent (s_Inode (srcNode (file_node 5))) m') = ContentOf (t_theirs linked_trees) 5"
    using added_link_discards_our_edit [OF r linked_root, of "''a''" "file_node 5" "''c''" "file_node 5"]
    by (simp add: linked_decide)
  then show ?thesis
    using r by (auto simp: srcNode_def linked_trees_def root_with_def)
qed

lemma twice_names: "union_names [[(''a'', x)], [(''a'', y), (''a (from dev)'', y')], [(''a'', z)]] = [''a'', ''a (from dev)'']"
  by (simp add: union_names_def)

lemma twice_root:
  "counterparts (source_of KeepBoth twice_trees) 1 [(''a'', file_node 5)] [(''a'', file_node 5), (''a (from dev)'', file_node 7)]
     [(''a'', file_node 5)]"
  by (simp add: counterparts_def twice_trees_def root_with_def tree_entries_def put_all_def)

lemma twice_decide:
  "decide twice_trees (Some (file_node 5)) (Some (file_node 5)) (Some (file_node 5)) = (Conflicted, Some BothModified, BothChanged)"
  "decide twice_trees None (Some (file_node 7)) None = (TakeOurs, None, NoDetail)"
  by (simp_all add: twice_trees_def tree_simps)

lemma twice_read: "\<exists>m' es. ms_Readdir 1 (source_of KeepBoth twice_trees) = (m', Inr es)"
proof -
  have "case ms_Readdir 1 (source_of KeepBoth twice_trees) of (_, r) \<Rightarrow> (case r of Inl _ \<Rightarrow> False | Inr _ \<Rightarrow> True)"
    by code_simp
  then show ?thesis
    by (auto split: prod.splits sum.splits)
qed

text \<open>The plan for the same trees is mergeable.\<close>

lemma twice_plan: "case Compute 1 id (Inr twice_trees) (diverged KeepBoth) of Inr p \<Rightarrow> Mergeable p \<and> \<not> FastForward p | Inl _ \<Rightarrow> False"
  by code_simp

theorem kept_copy_may_reuse_a_name_witness:
  "\<exists>m' es. ms_Readdir 1 (source_of KeepBoth twice_trees) = (m', Inr es) \<and> \<not> distinct (map fst es)"
proof -
  obtain m' es where r: "ms_Readdir 1 (source_of KeepBoth twice_trees) = (m', Inr es)"
    using twice_read by blast
  have "ConflictName ''a'' ''dev'' = ''a (from dev)''"
    by (simp add: ConflictName_def LastIndex_def)
  then have "\<not> distinct (map fst es)"
    by (intro kept_copy_may_reuse_a_name [OF r twice_root, of "''a''" "''a (from dev)''"]) (simp_all add: twice_decide)
  then show ?thesis
    using r by blast
qed

definition dir_node :: "uint64 \<Rightarrow> uint32 \<Rightarrow> node" where
  "dir_node ino mode = (file_node ino)\<lparr>n_Type := 2, n_Mode := mode\<rparr>"

theorem directory_change_is_lost_witness:
  "\<exists>u. three_way (Some (View 2 1 0x1ED 0 0 DirBody)) (Some (View 2 1 0x1ED 0 0 DirBody)) u = Some u \<and>
     merged_node linked_trees (Some (dir_node 3 0x1ED)) (Some (dir_node 3 0x1ED)) (Some (dir_node 3 0x1C0)) =
       Some (srcNode (dir_node 3 0x1ED))"
proof -
  have "reads_as f (Some (dir_node 3 md)) (Some (View 2 1 md 0 0 DirBody))" for f md
    by (simp add: reads_as_def view_of_def dir_node_def file_node_def TypeDir_def)
  moreover have "is_dir (dir_node 3 md)" for md
    by (simp add: is_dir_def dir_node_def TypeDir_def)
  ultimately show ?thesis
    using directory_change_is_lost [of "dir_node 3 0x1ED" "dir_node 3 0x1C0" linked_trees "Some (View 2 1 0x1ED 0 0 DirBody)"
      "Some (View 2 1 0x1C0 0 0 DirBody)"] by auto
qed

text \<open>Our branch, unsigned and unmoved but for a repack that replaced a pack of the base, and its incoming side.\<close>

definition fast_forwarding :: apply_opts where
  "fast_forwarding = carrying\<lparr>ao_Plan := Some (fast_forward ''theirs''),
     ao_Ours := forked\<lparr>PackList := [\<lparr>pr_Name = ''p'', pr_TrailerHash = [], pr_Size = 1\<rparr>]\<rparr>\<rparr>"

definition read_head :: "files \<Rightarrow> (ref_error + fetched) \<times> files" where
  "read_head fs = (Inr \<lparr>f_Superblock = ao_Ours fast_forwarding, f_Raw = [9], f_ETag = []\<rparr>, fs)"

lemma fast_forward_runs:
  "\<exists>sb fs' w'. ff_Publish toy_scheme read_head (Flip False (PutDone ''e'') None id id) 0 fast_forwarding
     (\<lambda>_. None, \<lambda>_. None) = (Inr (Some sb), fs', w')"
proof -
  have u: "IsUnsigned (ao_Ours fast_forwarding)" "ao_SigningKey fast_forwarding = []" "ao_Branch fast_forwarding = ''main''"
    "ao_Plan fast_forwarding = Some (fast_forward ''theirs'')" "ao_Refs fast_forwarding"
    by (simp_all add: fast_forwarding_def carrying_def forked_def ex_superblock_def IsUnsigned_def)
  have plan: "FastForward (fast_forward d)" "Direction (fast_forward d) = d" for d
    by (simp_all add: fast_forward_def)
  have flip: "\<exists>w'. Flip False (PutDone ''e'') None id id ''main'' [b] [] (\<lambda>_. None) = (None, w')" for b
    by (simp add: Flip_def flip_check_def StatKey_def Put_def flip_verify_def Get_def MaxMutableObject_def)
  have "\<exists>b. marshal toy_scheme sb = Some [b]" for sb
    by (simp add: toy_scheme_def)
  then obtain b where "marshal toy_scheme (Unsign (incoming_under_ours toy_scheme 0 fast_forwarding
      \<lparr>f_Superblock = ao_Ours fast_forwarding, f_Raw = [9], f_ETag = []\<rparr>)) = Some [b]"
    by blast
  then show ?thesis
    using flip [of b] by (auto simp: ff_Publish_def u plan read_head_def SignAs_def)
qed

theorem fast_forward_publishes_theirs_as_ours_witness:
  "\<exists>sb fs' w'. ff_Publish toy_scheme read_head (Flip False (PutDone ''e'') None id id) 0 fast_forwarding
     (\<lambda>_. None, \<lambda>_. None) = (Inr (Some sb), fs', w') \<and> Branch sb = ''main'' \<and> IsUnsigned sb \<and> RootCatalog sb = [2]"
proof -
  obtain sb fs' w' where f: "ff_Publish toy_scheme read_head (Flip False (PutDone ''e'') None id id) 0 fast_forwarding
     (\<lambda>_. None, \<lambda>_. None) = (Inr (Some sb), fs', w')"
    using fast_forward_runs by blast
  have "(0 :: uint64) < - 1"
    by code_simp
  then have "Generation (ao_Ours fast_forwarding) < - 1" "Generation (ao_Theirs fast_forwarding) < - 1"
    "IsUnsigned (ao_Ours fast_forwarding)" "ao_Branch fast_forwarding = ''main''" "RootCatalog (ao_Theirs fast_forwarding) = [2]"
    by (simp_all add: fast_forwarding_def carrying_def forked_def ex_superblock_def IsUnsigned_def)
  then show ?thesis
    using fast_forward_publishes_theirs_as_ours [OF f] f by (auto simp: same_tree_def)
qed

theorem fast_forward_drops_our_ledger_witness:
  "\<exists>sb fs' w'. ff_Publish toy_scheme read_head (Flip False (PutDone ''e'') None id id) 0 fast_forwarding
     (\<lambda>_. None, \<lambda>_. None) = (Inr (Some sb), fs', w') \<and> ''p'' \<notin> pr_Name ` set (PackList sb) \<and> ''p'' \<notin> cn_Name ` set (Condemned sb)"
proof -
  obtain sb fs' w' where f: "ff_Publish toy_scheme read_head (Flip False (PutDone ''e'') None id id) 0 fast_forwarding
     (\<lambda>_. None, \<lambda>_. None) = (Inr (Some sb), fs', w')"
    using fast_forward_runs by blast
  show ?thesis
    using fast_forward_drops_our_ledger [OF f, of "\<lparr>pr_Name = ''p'', pr_TrailerHash = [], pr_Size = 1\<rparr>"] f
    by (auto simp: fast_forwarding_def carrying_def forked_def ex_superblock_def)
qed

end
