(* ===== verification/Retention_Window.thy ===== *)
theory Retention_Window
  imports Pack_Writer Pinned_Refs "HOL-Library.AList" "HOL-Library.Signed_Division"
begin

text \<open>
  The retain window, \<open>internal/retention/lastk.go\<close>: which superblock backups stand for a branch's last
  generations, found by reading pack trailers newest first. What the origin answers while a
  sweep looks is a record of functions; an error is the text the code classifies by. Log
  lines are omitted.
\<close>

section \<open>What a sweep sees\<close>

datatype gc_error = NotOurs | Told string

record object_entry =
  oe_Name :: string
  oe_IsDir :: bool
  oe_Size :: int64
  oe_Mtime :: "int option"

text \<open>
  Listings, heads and tags as \<open>refs\<close> verifies them, the pack names a superblock's manifest segments
  resolve to, pack trailers and sizes, ranges of objects, modification times and BLAKE3.
\<close>

record gc_env =
  ge_list :: "string \<Rightarrow> string + object_entry list"
  ge_fetch :: "string \<Rightarrow> string + superblock"
  ge_tag :: "string \<Rightarrow> string + superblock"
  ge_segments :: "superblock \<Rightarrow> string + string list"
  ge_trailer :: "string \<Rightarrow> int64 \<Rightarrow> string + pack_entry list"
  ge_size :: "string \<Rightarrow> string + int64"
  ge_range :: "string \<Rightarrow> int64 \<Rightarrow> int64 \<Rightarrow> string + bytes"
  ge_verify :: "bytes \<Rightarrow> string + superblock"
  ge_mtime :: "string \<Rightarrow> int option"
  ge_hash :: "bytes \<Rightarrow> bytes"

definition PackDir :: string where "PackDir = ''packs''"

definition isAbsent :: "gc_error \<Rightarrow> bool" where
  "isAbsent e =
     (case e of
        NotOurs \<Rightarrow> True
      | Told m \<Rightarrow> contains m ''404'' \<or> contains m ''not exist'' \<or> contains m ''no such file'')"

definition isNotAPack :: "gc_error \<Rightarrow> bool" where
  "isNotAPack e =
     (case e of
        NotOurs \<Rightarrow> False
      | Told m \<Rightarrow> contains m ''bad pack magic'' \<or> contains m ''pack too small'' \<or> contains m ''bad index length'' \<or>
          contains m ''unsupported pack version'')"

definition listDir :: "gc_env \<Rightarrow> string \<Rightarrow> string + object_entry list" where
  "listDir env dir =
     (case ge_list env dir of
        Inl m \<Rightarrow> (if contains m ''404'' \<or> contains m ''not exist'' then Inr [] else Inl m)
      | Inr es \<Rightarrow> Inr es)"

definition has_suffix :: "string \<Rightarrow> string \<Rightarrow> bool" where
  "has_suffix s suf \<longleftrightarrow> length suf \<le> length s \<and> drop (length s - length suf) s = suf"

definition listNames :: "gc_env \<Rightarrow> string \<Rightarrow> string + string list" where
  "listNames env dir =
     (case listDir env dir of
        Inl m \<Rightarrow> Inl m
      | Inr es \<Rightarrow> Inr (map oe_Name (filter (\<lambda>e. \<not> oe_IsDir e \<and> \<not> has_suffix (oe_Name e) ''.tmp'') es)))"

section \<open>The window\<close>

record gc_options =
  go_Grace :: int
  go_RetainK :: uint32
  go_Delete :: bool
  go_Now :: int

definition DefaultRetainK :: uint32 where "DefaultRetainK = 8"
definition scanBudget :: nat where "scanBudget = 1024"

record last_k =
  lk_Branch :: string
  lk_K :: uint32
  lk_Generations :: int
  lk_Unresolved :: "uint64 list"
  lk_TrailersRead :: nat
  lk_Attributed :: nat
  lk_Legacy :: nat
  lk_LegacyCandidates :: nat

definition empty_last_k :: last_k where
  "empty_last_k = \<lparr>lk_Branch = [], lk_K = 0, lk_Generations = 0, lk_Unresolved = [], lk_TrailersRead = 0,
     lk_Attributed = 0, lk_Legacy = 0, lk_LegacyCandidates = 0\<rparr>"

definition clone :: "last_k \<Rightarrow> string \<Rightarrow> last_k" where
  "clone r branch = r\<lparr>lk_Branch := branch\<rparr>"

record backup_set =
  bs_mine :: "superblock list"
  bs_others :: "superblock list"

definition readBackup :: "gc_env \<Rightarrow> string \<Rightarrow> pack_entry \<Rightarrow> gc_error + superblock \<times> bytes" where
  "readBackup env pack e =
     (case ge_range env (PackDir @ ''/'' @ pack) (Off e) (Length e) of
        Inl m \<Rightarrow> Inl (Told m)
      | Inr raw \<Rightarrow> (case ge_verify env raw of Inl m \<Rightarrow> Inl NotOurs | Inr sb \<Rightarrow> Inr (sb, raw)))"

text \<open>\<open>packstore.FetchTrailer\<close>, with the text of its errors: they name the pack.\<close>

definition FetchTrailer_gc :: "gc_env \<Rightarrow> string \<Rightarrow> int64 \<Rightarrow> string + pack_entry list" where
  "FetchTrailer_gc env name size' =
     (case (if size' \<le>s 0 then ge_size env (PackDir @ ''/'' @ name) else Inr size') of
        Inl m \<Rightarrow> Inl (''stat pack '' @ name @ '': '' @ m)
      | Inr sz \<Rightarrow>
          (case ge_trailer env name sz of
             Inl m \<Rightarrow> Inl (''pack '' @ name @ '': '' @ m)
           | Inr tr \<Rightarrow> Inr tr))"

record scan =
  sc_found :: "(uint64 \<times> backup_set) list"
  sc_attributed :: nat
  sc_seen :: "bytes list"
  sc_unread :: nat
  sc_read :: nat

definition add_backup :: "string \<Rightarrow> superblock \<Rightarrow> scan \<Rightarrow> scan" where
  "add_backup branch sb s =
     (let set' = (case map_of (sc_found s) (Generation sb) of None \<Rightarrow> \<lparr>bs_mine = [], bs_others = []\<rparr> | Some x \<Rightarrow> x) in
      if Branch sb = branch
      then s\<lparr>sc_attributed := sc_attributed s + (if length (bs_mine set') = 0 then 1 else 0),
             sc_found := AList.update (Generation sb) (set'\<lparr>bs_mine := bs_mine set' @ [sb]\<rparr>) (sc_found s)\<rparr>
      else s\<lparr>sc_found := AList.update (Generation sb) (set'\<lparr>bs_others := bs_others set' @ [sb]\<rparr>) (sc_found s)\<rparr>)"

definition scan_entry :: "gc_env \<Rightarrow> string \<Rightarrow> superblock \<Rightarrow> uint64 list \<Rightarrow> string \<Rightarrow> pack_entry \<Rightarrow> scan \<Rightarrow> scan" where
  "scan_entry env branch head want pack e s =
     (if Type e \<noteq> ''sb'' then s
      else case readBackup env pack e of
        Inl err \<Rightarrow> (if isAbsent err then s else s\<lparr>sc_unread := sc_unread s + 1\<rparr>)
      | Inr (sb, raw) \<Rightarrow>
          (if VolumeID sb \<noteq> VolumeID head \<or> Generation sb \<notin> set want then s
           else if ge_hash env raw \<in> set (sc_seen s) then s
           else add_backup branch sb (s\<lparr>sc_seen := ge_hash env raw # sc_seen s\<rparr>)))"

definition scan_pack :: "gc_env \<Rightarrow> string \<Rightarrow> superblock \<Rightarrow> uint64 list \<Rightarrow> object_entry \<Rightarrow> scan \<Rightarrow> scan" where
  "scan_pack env branch head want p s =
     (let s1 = s\<lparr>sc_read := sc_read s + 1\<rparr> in
      case FetchTrailer_gc env (oe_Name p) (oe_Size p) of
        Inl m \<Rightarrow> (if isAbsent (Told m) \<or> isNotAPack (Told m) then s1 else s1\<lparr>sc_unread := sc_unread s1 + 1\<rparr>)
      | Inr tr \<Rightarrow> fold (scan_entry env branch head want (oe_Name p)) tr s1)"

datatype window_error = ListFailed string | BudgetSpent | Unreadable "uint64 list" nat

text \<open>The loop over the packs, the two early stops and the budget first.\<close>

fun scan_packs :: "gc_env \<Rightarrow> string \<Rightarrow> superblock \<Rightarrow> uint64 list \<Rightarrow> nat \<Rightarrow> object_entry list \<Rightarrow> scan \<Rightarrow> window_error + scan" where
  "scan_packs env branch head want branches [] s = Inr s"
| "scan_packs env branch head want branches (p # ps) s =
     (if sc_attributed s = length want then Inr s
      else if branches \<le> 1 \<and> length (sc_found s) = length want then Inr s
      else if sc_read s \<ge> scanBudget then Inl BudgetSpent
      else scan_packs env branch head want branches ps (scan_pack env branch head want p s))"

text \<open>Newest name first, names that state no time last, in listed order among equals.\<close>

definition newest_first :: "object_entry list \<Rightarrow> object_entry list" where
  "newest_first packs =
     sort_key (\<lambda>p. - the (PackNameTime (oe_Name p))) (filter (\<lambda>p. PackNameTime (oe_Name p) \<noteq> None) packs) @
     filter (\<lambda>p. PackNameTime (oe_Name p) = None) packs"

definition is_pack :: "object_entry \<Rightarrow> bool" where
  "is_pack e \<longleftrightarrow> \<not> oe_IsDir e \<and> take 2 (oe_Name e) = ''p-''"

definition missing :: "uint64 list \<Rightarrow> (uint64 \<times> backup_set) list \<Rightarrow> uint64 list" where
  "missing want found = filter (\<lambda>g. map_of found g = None) want"

definition scavengeBackups :: "gc_env \<Rightarrow> string \<Rightarrow> superblock \<Rightarrow> uint64 list \<Rightarrow> nat \<Rightarrow> nat \<Rightarrow>
    window_error + (uint64 \<times> backup_set) list \<times> nat" where
  "scavengeBackups env branch head want read branches =
     (case listDir env PackDir of
        Inl m \<Rightarrow> Inl (ListFailed m)
      | Inr es \<Rightarrow>
          (case scan_packs env branch head want branches (newest_first (filter is_pack es))
              \<lparr>sc_found = [], sc_attributed = 0, sc_seen = [], sc_unread = 0, sc_read = read\<rparr> of
             Inl e \<Rightarrow> Inl e
           | Inr s \<Rightarrow>
               (if length (sc_found s) < length want \<and> sc_unread s > 0
                then Inl (Unreadable (missing want (sc_found s)) (sc_unread s))
                else Inr (sc_found s, sc_read s))))"

definition window_k :: "gc_options \<Rightarrow> superblock \<Rightarrow> uint32" where
  "window_k opt head =
     (let k = (if RetainK (Params head) = 0 then DefaultRetainK else RetainK (Params head)) in
      if go_RetainK opt \<noteq> 0 then go_RetainK opt else k)"

text \<open>The backups wanted, from the head's generation down.\<close>

definition wanted :: "uint64 \<Rightarrow> uint32 \<Rightarrow> uint64 list" where
  "wanted gen k =
     (let oldest = (if gen + 2 > ucast k then gen - ucast k + 2 else 1) in
      map (\<lambda>i. gen - word_of_nat i) [0..<unat (gen - oldest) + 1])"

definition step_root :: "(uint64 \<times> backup_set) list \<Rightarrow> uint64 \<Rightarrow> superblock list \<times> last_k \<Rightarrow> superblock list \<times> last_k" where
  "step_root found g st =
     (case st of (roots, rep) \<Rightarrow>
        (case map_of found g of
           None \<Rightarrow> (roots, rep\<lparr>lk_Unresolved := lk_Unresolved rep @ [g - 1]\<rparr>)
         | Some set' \<Rightarrow>
             (if length (bs_mine set') > 0
              then (roots @ bs_mine set', rep\<lparr>lk_Attributed := lk_Attributed rep + 1, lk_Generations := lk_Generations rep + 1\<rparr>)
              else if length (bs_others set') > 0
              then (roots @ bs_others set', rep\<lparr>lk_Legacy := lk_Legacy rep + 1,
                     lk_LegacyCandidates := lk_LegacyCandidates rep + length (bs_others set'),
                     lk_Generations := lk_Generations rep + 1\<rparr>)
              else (roots, rep\<lparr>lk_Unresolved := lk_Unresolved rep @ [g - 1]\<rparr>))))"

definition windowRoots :: "gc_env \<Rightarrow> gc_options \<Rightarrow> string \<Rightarrow> superblock \<Rightarrow> nat \<Rightarrow> window_error + superblock list \<times> last_k" where
  "windowRoots env opt branch head branches =
     (let k = window_k opt head; rep = empty_last_k\<lparr>lk_K := k, lk_Generations := 1\<rparr> in
      if k \<le> 1 \<or> Generation head = 0 then Inr ([], rep)
      else let want = wanted (Generation head) k in
        case scavengeBackups env branch head want 0 branches of
          Inl e \<Rightarrow> Inl e
        | Inr (found, read) \<Rightarrow> Inr (fold (step_root found) want ([], rep\<lparr>lk_TrailersRead := read\<rparr>)))"

definition windowFloor :: "superblock list \<Rightarrow> int" where
  "windowFloor roots = fold (\<lambda>sb fl. if fl = 0 \<or> sint (CreatedUnixNano sb) < fl then sint (CreatedUnixNano sb) else fl) roots 0"

text \<open>The windows established so far, by branch.\<close>

type_synonym window_cache = "(string \<times> superblock list \<times> last_k) list"

definition cache_get :: "gc_env \<Rightarrow> gc_options \<Rightarrow> string \<Rightarrow> superblock \<Rightarrow> nat \<Rightarrow> window_cache \<Rightarrow>
    window_error + (superblock list \<times> last_k) \<times> window_cache" where
  "cache_get env opt branch head branches c =
     (case map_of c branch of
        Some w \<Rightarrow> Inr (w, c)
      | None \<Rightarrow>
          (case windowRoots env opt branch head branches of
             Inl e \<Rightarrow> Inl e
           | Inr w \<Rightarrow> Inr (w, (branch, w) # c)))"

section \<open>What the scan knows\<close>

definition verified_in :: "gc_env \<Rightarrow> superblock \<Rightarrow> superblock \<Rightarrow> bool" where
  "verified_in env head sb \<longleftrightarrow> VolumeID sb = VolumeID head \<and> (\<exists>raw. ge_verify env raw = Inr sb)"

text \<open>Documents found under a generation's number are verified, of this volume, and split by the branch they name.\<close>

definition set_ok :: "gc_env \<Rightarrow> string \<Rightarrow> superblock \<Rightarrow> uint64 \<Rightarrow> backup_set \<Rightarrow> bool" where
  "set_ok env branch head g x \<longleftrightarrow> bs_mine x @ bs_others x \<noteq> [] \<and>
     (\<forall>sb \<in> set (bs_mine x @ bs_others x). Generation sb = g \<and> verified_in env head sb) \<and>
     (\<forall>sb \<in> set (bs_mine x). Branch sb = branch) \<and> (\<forall>sb \<in> set (bs_others x). Branch sb \<noteq> branch)"

definition own :: "scan \<Rightarrow> uint64 set" where
  "own s = {g. \<exists>x. map_of (sc_found s) g = Some x \<and> bs_mine x \<noteq> []}"

text \<open>The verified documents the trailers of the listed packs lead to, finitely many.\<close>

definition backups_read :: "gc_env \<Rightarrow> bytes set" where
  "backups_read env = {raw. \<exists>es p tr e sb. listDir env PackDir = Inr es \<and> p \<in> set es \<and> is_pack p \<and>
     FetchTrailer_gc env (oe_Name p) (oe_Size p) = Inr tr \<and> e \<in> set tr \<and> Type e = ''sb'' \<and>
     readBackup env (oe_Name p) e = Inr (sb, raw)}"

lemma finite_backups_read: "finite (backups_read env)"
proof (cases "listDir env PackDir")
  case (Inr es)
  have "backups_read env \<subseteq> (\<Union>p \<in> set es. \<Union>e \<in> set (projr (FetchTrailer_gc env (oe_Name p) (oe_Size p))).
      {snd (projr (readBackup env (oe_Name p) e))})"
    by (force simp: backups_read_def Inr)
  then show ?thesis by (rule finite_subset) simp
qed (simp add: backups_read_def)

definition seen_ok :: "gc_env \<Rightarrow> (uint64 \<times> backup_set) list \<Rightarrow> bytes \<Rightarrow> bool" where
  "seen_ok env found h \<longleftrightarrow>
     (\<exists>raw sb. h = ge_hash env raw \<and> raw \<in> backups_read env \<and> ge_verify env raw = Inr sb \<and>
        Generation sb \<in> dom (map_of found))"

definition scan_ok :: "gc_env \<Rightarrow> string \<Rightarrow> superblock \<Rightarrow> uint64 list \<Rightarrow> scan \<Rightarrow> bool" where
  "scan_ok env branch head want s \<longleftrightarrow> distinct (map fst (sc_found s)) \<and> fst ` set (sc_found s) \<subseteq> set want \<and>
     (\<forall>g x. map_of (sc_found s) g = Some x \<longrightarrow> set_ok env branch head g x) \<and> sc_attributed s = card (own s) \<and>
     (\<forall>h \<in> set (sc_seen s). seen_ok env (sc_found s) h)"

lemma scan_ok_counts [simp]:
  "scan_ok env branch head want (s\<lparr>sc_unread := n\<rparr>) \<longleftrightarrow> scan_ok env branch head want s"
  "scan_ok env branch head want (s\<lparr>sc_read := n\<rparr>) \<longleftrightarrow> scan_ok env branch head want s"
  by (simp_all add: scan_ok_def own_def)

lemma own_subset: "own s \<subseteq> fst ` set (sc_found s)"
  by (auto simp: own_def dest!: map_of_SomeD intro: rev_image_eqI)

lemma finite_own: "finite (own s)"
  by (rule finite_subset [OF own_subset]) simp

lemma length_found:
  assumes "scan_ok env branch head want s"
  shows "length (sc_found s) = card (fst ` set (sc_found s))"
  using assms distinct_card [of "map fst (sc_found s)"] by (simp add: scan_ok_def)

lemma scan_ok_add:
  assumes ok: "scan_ok env branch head want s" and sb: "Generation sb \<in> set want" "VolumeID sb = VolumeID head"
    and raw: "ge_verify env raw = Inr sb" "raw \<in> backups_read env"
  shows "scan_ok env branch head want (add_backup branch sb (s\<lparr>sc_seen := ge_hash env raw # sc_seen s\<rparr>)) \<and>
    map_of (sc_found (add_backup branch sb (s\<lparr>sc_seen := ge_hash env raw # sc_seen s\<rparr>))) (Generation sb) \<noteq> None"
proof -
  define x where "x = (case map_of (sc_found s) (Generation sb) of None \<Rightarrow> \<lparr>bs_mine = [], bs_others = []\<rparr> | Some y \<Rightarrow> y)"
  define s' where "s' = add_backup branch sb (s\<lparr>sc_seen := ge_hash env raw # sc_seen s\<rparr>)"
  define y where "y = (if Branch sb = branch then x\<lparr>bs_mine := bs_mine x @ [sb]\<rparr> else x\<lparr>bs_others := bs_others x @ [sb]\<rparr>)"
  have s': "sc_found s' = AList.update (Generation sb) y (sc_found s)" "sc_seen s' = ge_hash env raw # sc_seen s"
    "sc_attributed s' = sc_attributed s + (if Branch sb = branch \<and> bs_mine x = [] then 1 else 0)"
    by (simp_all add: s'_def add_backup_def y_def x_def Let_def)
  have "set_ok env branch head (Generation sb) x \<or> x = \<lparr>bs_mine = [], bs_others = []\<rparr>"
    using ok by (auto simp: x_def scan_ok_def split: option.splits)
  then have y: "set_ok env branch head (Generation sb) y"
    using sb raw(1) by (auto simp: y_def set_ok_def verified_in_def)
  have "own s' = (if Branch sb = branch then insert (Generation sb) (own s) else own s)"
    by (auto simp: own_def s' update_conv' y_def x_def split: option.splits if_splits)
  moreover have "Generation sb \<in> own s \<longleftrightarrow> bs_mine x \<noteq> []"
    by (auto simp: own_def x_def split: option.splits)
  ultimately have att: "sc_attributed s' = card (own s')"
    using ok finite_own [of s] by (auto simp: s' scan_ok_def card_insert_if)
  have "fst ` set (sc_found s') = insert (Generation sb) (fst ` set (sc_found s))"
    by (simp add: s' dom_update)
  moreover have "distinct (map fst (sc_found s'))"
    using ok by (simp add: s' distinct_update scan_ok_def)
  moreover have "\<forall>h \<in> set (sc_seen s'). seen_ok env (sc_found s') h"
  proof
    fix h
    assume "h \<in> set (sc_seen s')"
    moreover have "dom (map_of (sc_found s')) = insert (Generation sb) (dom (map_of (sc_found s)))"
      by (simp add: s' update_conv')
    ultimately show "seen_ok env (sc_found s') h"
      using ok raw unfolding scan_ok_def seen_ok_def by (metis (no_types, lifting) s'(2) insertCI set_ConsD)
  qed
  ultimately have "scan_ok env branch head want s'"
    using ok sb(1) y att unfolding scan_ok_def by (auto simp: s' update_conv')
  then show ?thesis
    unfolding s'_def [symmetric] by (simp add: s' update_conv')
qed

text \<open>What one entry, and one pack, rules out about a generation no document was found for.\<close>

definition entry_rules_out :: "gc_env \<Rightarrow> superblock \<Rightarrow> string \<Rightarrow> uint64 \<Rightarrow> pack_entry \<Rightarrow> bool" where
  "entry_rules_out env head pack g e \<longleftrightarrow>
     (Type e = ''sb'' \<longrightarrow>
        (case readBackup env pack e of
           Inl err \<Rightarrow> isAbsent err
         | Inr (sb, raw) \<Rightarrow> VolumeID sb \<noteq> VolumeID head \<or> Generation sb \<noteq> g))"

definition pack_rules_out :: "gc_env \<Rightarrow> superblock \<Rightarrow> uint64 \<Rightarrow> object_entry \<Rightarrow> bool" where
  "pack_rules_out env head g p \<longleftrightarrow>
     (case FetchTrailer_gc env (oe_Name p) (oe_Size p) of
        Inl m \<Rightarrow> isAbsent (Told m) \<or> isNotAPack (Told m)
      | Inr tr \<Rightarrow> \<forall>e \<in> set tr. entry_rules_out env head (oe_Name p) g e)"

text \<open>How the scan moves: it stays sound, loses nothing, and what it could not read is counted.\<close>

definition scan_step :: "gc_env \<Rightarrow> string \<Rightarrow> superblock \<Rightarrow> uint64 list \<Rightarrow> scan \<Rightarrow> scan \<Rightarrow> (uint64 \<Rightarrow> bool) \<Rightarrow> bool" where
  "scan_step env branch head want s s' out \<longleftrightarrow> scan_ok env branch head want s' \<and> sc_unread s \<le> sc_unread s' \<and>
     dom (map_of (sc_found s)) \<subseteq> dom (map_of (sc_found s')) \<and>
     (sc_unread s' = 0 \<longrightarrow> (\<forall>g \<in> set want. map_of (sc_found s') g = None \<longrightarrow> out g))"

lemma scan_step_trans:
  assumes "scan_step env branch head want s s1 p" "scan_step env branch head want s1 s2 q"
  shows "scan_step env branch head want s s2 (\<lambda>g. p g \<and> q g)"
proof -
  have "p g \<and> q g" if "sc_unread s2 = 0" "g \<in> set want" "map_of (sc_found s2) g = None" for g
  proof -
    have "sc_unread s1 = 0" "map_of (sc_found s1) g = None"
      using assms(2) that by (auto simp: scan_step_def)
    then show ?thesis
      using assms that by (simp add: scan_step_def)
  qed
  moreover have "scan_ok env branch head want s2" "sc_unread s \<le> sc_unread s2"
    "dom (map_of (sc_found s)) \<subseteq> dom (map_of (sc_found s2))"
    using assms unfolding scan_step_def by auto
  ultimately show ?thesis
    unfolding scan_step_def by blast
qed

lemma add_backup_step:
  assumes "scan_ok env branch head want s" "Generation sb \<in> set want" "VolumeID sb = VolumeID head" "ge_verify env raw = Inr sb"
    "raw \<in> backups_read env"
  shows "scan_step env branch head want s (add_backup branch sb (s\<lparr>sc_seen := ge_hash env raw # sc_seen s\<rparr>))
    (\<lambda>g. g \<noteq> Generation sb)"
  using scan_ok_add [OF assms]
  by (auto simp: scan_step_def add_backup_def Let_def update_conv' split: if_splits option.splits)

lemma readBackup_verified:
  assumes "readBackup env pack e = Inr (sb, raw)"
  shows "ge_verify env raw = Inr sb"
  using assms by (auto simp: readBackup_def split: sum.splits)

lemma scan_entry_step:
  assumes ok: "scan_ok env branch head want s" and hash: "inj_on (ge_hash env) (backups_read env)"
    and rd: "\<And>sb raw. Type e = ''sb'' \<Longrightarrow> readBackup env pack e = Inr (sb, raw) \<Longrightarrow> raw \<in> backups_read env"
  shows "scan_step env branch head want s (scan_entry env branch head want pack e s) (\<lambda>g. entry_rules_out env head pack g e)"
proof (cases "Type e = ''sb''")
  case True
  show ?thesis
  proof (cases "readBackup env pack e")
    case (Inl err)
    then show ?thesis
      using True ok by (simp add: scan_step_def scan_entry_def entry_rules_out_def)
  next
    case (Inr r)
    obtain sb raw where r: "r = (sb, raw)"
      by (cases r)
    note v = readBackup_verified [OF Inr [unfolded r]] and here = rd [OF True Inr [unfolded r]]
    consider (other) "VolumeID sb \<noteq> VolumeID head \<or> Generation sb \<notin> set want"
      | (dup) "VolumeID sb = VolumeID head" "Generation sb \<in> set want" "ge_hash env raw \<in> set (sc_seen s)"
      | (new) "VolumeID sb = VolumeID head" "Generation sb \<in> set want" "ge_hash env raw \<notin> set (sc_seen s)"
      by blast
    then show ?thesis
    proof cases
      case other
      then show ?thesis
        using True Inr r ok by (auto simp: scan_step_def scan_entry_def entry_rules_out_def)
    next
      case dup
      then obtain raw' sb' where "ge_hash env raw = ge_hash env raw'" "ge_verify env raw' = Inr sb'"
        "raw' \<in> backups_read env" "Generation sb' \<in> dom (map_of (sc_found s))"
        using ok unfolding scan_ok_def seen_ok_def by blast
      moreover from this have "raw' = raw"
        using inj_onD [OF hash _ here, of raw'] by simp
      ultimately have "map_of (sc_found s) (Generation sb) \<noteq> None"
        using v by (simp add: domIff)
      then show ?thesis
        using True Inr r ok dup by (auto simp: scan_step_def scan_entry_def entry_rules_out_def)
    next
      case new
      then have "scan_entry env branch head want pack e s = add_backup branch sb (s\<lparr>sc_seen := ge_hash env raw # sc_seen s\<rparr>)"
        using True Inr r by (simp add: scan_entry_def)
      then show ?thesis
        using add_backup_step [OF ok new(2,1) v here] True Inr r by (auto simp: scan_step_def entry_rules_out_def)
    qed
  qed
qed (use ok in \<open>simp add: scan_step_def scan_entry_def entry_rules_out_def\<close>)

lemma scan_entries_step:
  assumes "scan_ok env branch head want s" "inj_on (ge_hash env) (backups_read env)"
    and "\<forall>e \<in> set tr. \<forall>sb raw. Type e = ''sb'' \<longrightarrow> readBackup env pack e = Inr (sb, raw) \<longrightarrow> raw \<in> backups_read env"
  shows "scan_step env branch head want s (fold (scan_entry env branch head want pack) tr s)
    (\<lambda>g. \<forall>e \<in> set tr. entry_rules_out env head pack g e)"
  using assms(1,3)
proof (induction tr arbitrary: s)
  case (Cons e tr)
  have "scan_step env branch head want s (scan_entry env branch head want pack e s) (\<lambda>g. entry_rules_out env head pack g e)"
    using Cons.prems(2) by (intro scan_entry_step [OF Cons.prems(1) assms(2)]) simp
  note one = this
  then have "scan_ok env branch head want (scan_entry env branch head want pack e s)"
    by (simp add: scan_step_def)
  from scan_step_trans [OF one Cons.IH [OF this]] Cons.prems(2) show ?case
    by simp
qed (simp add: scan_step_def)

lemma scan_pack_step:
  assumes ok: "scan_ok env branch head want s" and hash: "inj_on (ge_hash env) (backups_read env)"
    and p: "listDir env PackDir = Inr es" "p \<in> set es" "is_pack p"
  shows "scan_step env branch head want s (scan_pack env branch head want p s) (\<lambda>g. pack_rules_out env head g p)"
proof -
  have ok1: "scan_ok env branch head want (s\<lparr>sc_read := sc_read s + 1\<rparr>)"
    "scan_ok env branch head want (s\<lparr>sc_read := sc_read s + 1, sc_unread := sc_unread s + 1\<rparr>)"
    using ok scan_ok_counts by simp_all
  show ?thesis
  proof (cases "FetchTrailer_gc env (oe_Name p) (oe_Size p)")
    case (Inl m)
    then show ?thesis
      using ok1 by (simp add: scan_step_def scan_pack_def pack_rules_out_def Let_def)
  next
    case (Inr tr)
    have "\<forall>e \<in> set tr. \<forall>sb raw. Type e = ''sb'' \<longrightarrow> readBackup env (oe_Name p) e = Inr (sb, raw) \<longrightarrow> raw \<in> backups_read env"
      using p Inr unfolding backups_read_def by blast
    then show ?thesis
      using Inr scan_entries_step [OF ok1(1) hash, of tr "oe_Name p"]
      by (simp add: scan_step_def scan_pack_def pack_rules_out_def Let_def)
  qed
qed

lemma found_all:
  assumes "scan_ok env branch head want s" "length (sc_found s) \<ge> length want" "distinct want" "g \<in> set want"
  shows "map_of (sc_found s) g \<noteq> None"
proof -
  have "card (fst ` set (sc_found s)) \<ge> card (set want)" "fst ` set (sc_found s) \<subseteq> set want"
    using assms length_found [OF assms(1)] distinct_card [OF assms(3)] by (simp_all add: scan_ok_def)
  then have "fst ` set (sc_found s) = set want"
    by (simp add: card_seteq)
  then show ?thesis
    using assms(4) by (simp add: map_of_eq_None_iff)
qed

lemma attributed_le: "scan_ok env branch head want s \<Longrightarrow> sc_attributed s \<le> length (sc_found s)"
  using length_found [of env branch head want s] card_mono [OF _ own_subset [of s]]
  by (metis List.finite_set finite_imageI scan_ok_def)

lemma scan_packs_step:
  assumes "scan_packs env branch head want branches ps s = Inr s'" "scan_ok env branch head want s"
    and "inj_on (ge_hash env) (backups_read env)" "distinct want" "listDir env PackDir = Inr es"
    and "set ps \<subseteq> {p \<in> set es. is_pack p}"
  shows "scan_step env branch head want s s' (\<lambda>g. \<forall>p \<in> set ps. pack_rules_out env head g p)"
  using assms(1,2,6)
proof (induction ps arbitrary: s)
  case (Cons p ps)
  show ?case
  proof (cases "length (sc_found s) \<ge> length want")
    case True
    have all: "\<forall>g \<in> set want. map_of (sc_found s) g \<noteq> None"
      using found_all [OF Cons.prems(2) True assms(4)] by blast
    have "s' = s \<or> scan_packs env branch head want branches ps (scan_pack env branch head want p s) = Inr s'"
      using Cons.prems(1) by (auto split: if_splits)
    then show ?thesis
    proof
      assume "s' = s"
      then show ?thesis
        using all Cons.prems(2) by (auto simp: scan_step_def)
    next
      assume r: "scan_packs env branch head want branches ps (scan_pack env branch head want p s) = Inr s'"
      have one: "scan_step env branch head want s (scan_pack env branch head want p s) (\<lambda>g. pack_rules_out env head g p)"
        using Cons.prems(3) by (intro scan_pack_step [OF Cons.prems(2) assms(3,5)]) auto
      then show ?thesis
        using scan_step_trans [OF one Cons.IH [OF r]] Cons.prems(3) by (simp add: scan_step_def)
    qed
  next
    case False
    then have r: "scan_packs env branch head want branches ps (scan_pack env branch head want p s) = Inr s'"
      using Cons.prems attributed_le [OF Cons.prems(2)] by (auto split: if_splits)
    have one: "scan_step env branch head want s (scan_pack env branch head want p s) (\<lambda>g. pack_rules_out env head g p)"
      using Cons.prems(3) by (intro scan_pack_step [OF Cons.prems(2) assms(3,5)]) auto
    then show ?thesis
      using scan_step_trans [OF one Cons.IH [OF r]] Cons.prems(3) by (simp add: scan_step_def)
  qed
qed (simp add: scan_step_def)

section \<open>What a window stands for\<close>

lemma distinct_wanted: "distinct (wanted gen k)"
proof -
  have inj: "inj_on (\<lambda>i. gen - word_of_nat i) {..<2 ^ 64}"
  proof (rule inj_onI)
    fix i j :: nat
    assume "i \<in> {..<2 ^ 64}" "j \<in> {..<2 ^ 64}" "gen - word_of_nat i = gen - word_of_nat j"
    then show "i = j"
      by (simp add: word_of_nat_eq_iff take_bit_nat_eq_self)
  qed
  have sub: "set [0..<unat (gen - oldest) + 1] \<subseteq> {..<2 ^ 64}" for oldest :: uint64
    using unsigned_less [of "gen - oldest", where ?'a = nat] by auto
  have "distinct (map (\<lambda>i. gen - word_of_nat i) [0..<unat (gen - oldest) + 1])" for oldest :: uint64
    unfolding distinct_map using inj_on_subset [OF inj sub] by (intro conjI distinct_upt)
  then show ?thesis
    unfolding wanted_def Let_def by blast
qed

definition picked :: "(uint64 \<times> backup_set) list \<Rightarrow> uint64 \<Rightarrow> superblock list" where
  "picked found g = (case map_of found g of None \<Rightarrow> [] | Some x \<Rightarrow> if bs_mine x \<noteq> [] then bs_mine x else bs_others x)"

lemma fold_step_root:
  "fst (fold (step_root found) want (roots, rep)) = roots @ concat (map (picked found) want) \<and>
   lk_Unresolved (snd (fold (step_root found) want (roots, rep))) =
     lk_Unresolved rep @ map (\<lambda>g. g - 1) (filter (\<lambda>g. picked found g = []) want)"
proof (induction want arbitrary: roots rep)
  case (Cons g want)
  have "\<exists>rep1. step_root found g (roots, rep) = (roots @ picked found g, rep1) \<and>
      lk_Unresolved rep1 = lk_Unresolved rep @ (if picked found g = [] then [g - 1] else [])"
    by (auto simp: step_root_def picked_def split: option.splits)
  then show ?case
    using Cons.IH by auto
qed simp

lemma scavenge_sound:
  assumes "scavengeBackups env branch head want rd branches = Inr (found, rd')"
    and "inj_on (ge_hash env) (backups_read env)" "distinct want"
  shows "\<exists>es. listDir env PackDir = Inr es \<and> (\<forall>g x. map_of found g = Some x \<longrightarrow> g \<in> set want \<and> set_ok env branch head g x) \<and>
    (\<forall>g \<in> set want. map_of found g = None \<longrightarrow> (\<forall>p \<in> set es. is_pack p \<longrightarrow> pack_rules_out env head g p))"
proof -
  obtain es s where es: "listDir env PackDir = Inr es"
    and s: "scan_packs env branch head want branches (newest_first (filter is_pack es))
        \<lparr>sc_found = [], sc_attributed = 0, sc_seen = [], sc_unread = 0, sc_read = rd\<rparr> = Inr s"
    and fin: "\<not> (length (sc_found s) < length want \<and> sc_unread s > 0)" "found = sc_found s"
    using assms(1) by (auto simp: scavengeBackups_def split: sum.splits if_splits)
  have "scan_ok env branch head want \<lparr>sc_found = [], sc_attributed = 0, sc_seen = [], sc_unread = 0, sc_read = rd\<rparr>"
    by (simp add: scan_ok_def own_def)
  moreover have packs: "set (newest_first (filter is_pack es)) = {p \<in> set es. is_pack p}"
    by (auto simp: newest_first_def)
  ultimately have ok: "scan_ok env branch head want s"
    and out: "sc_unread s = 0 \<Longrightarrow> g \<in> set want \<Longrightarrow> map_of (sc_found s) g = None \<Longrightarrow>
      p \<in> set (newest_first (filter is_pack es)) \<Longrightarrow> pack_rules_out env head g p" for g p
    using scan_packs_step [OF s _ assms(2,3) es] by (auto simp: scan_step_def)
  have "pack_rules_out env head g p" if "g \<in> set want" "map_of found g = None" "p \<in> set es" "is_pack p" for g p
  proof -
    have "length (sc_found s) < length want"
      using found_all [OF ok _ assms(3) that(1)] that(2) fin(2) by (meson not_le)
    then show ?thesis
      using out that fin packs by auto
  qed
  moreover have "g \<in> set want" if "map_of found g = Some x" for g x
    using ok that map_of_SomeD [OF that] fin(2) by (force simp: scan_ok_def)
  moreover have "set_ok env branch head g x" if "map_of found g = Some x" for g x
    using ok that fin(2) unfolding scan_ok_def by blast
  ultimately show ?thesis
    using es by blast
qed

text \<open>
  C23: a retain window never shrinks in silence. When a branch's window is established, every
  generation number in it either has a root, a verified document of this volume that states
  it, taken from this branch's own when there are any, or is reported unresolved; and then
  every pack the origin lists was looked at and none holds a document for it, each being
  read, absent, or no pack at all. The scan tells documents apart by their BLAKE3 hash; the
  property holds where no two of the finitely many verified documents in the listed packs have
  the same hash.
\<close>

theorem window_is_complete_or_reported:
  assumes "windowRoots env opt branch head branches = Inr (roots, rep)"
    and "inj_on (ge_hash env) (backups_read env)"
    and "1 < window_k opt head" "Generation head \<noteq> 0"
  shows "\<exists>es. listDir env PackDir = Inr es \<and>
    (\<forall>g \<in> set (wanted (Generation head) (window_k opt head)).
       (\<exists>sb \<in> set roots. Generation sb = g) \<or>
       g - 1 \<in> set (lk_Unresolved rep) \<and> (\<forall>p \<in> set es. is_pack p \<longrightarrow> pack_rules_out env head g p)) \<and>
    (\<forall>sb \<in> set roots. verified_in env head sb \<and> Generation sb \<in> set (wanted (Generation head) (window_k opt head)) \<and>
       ((\<exists>o' \<in> set roots. Generation o' = Generation sb \<and> Branch o' = branch) \<longrightarrow> Branch sb = branch))"
proof -
  let ?want = "wanted (Generation head) (window_k opt head)"
  have k: "\<not> window_k opt head \<le> 1"
    using assms(3) by simp
  obtain found rd rep0 where f: "scavengeBackups env branch head ?want 0 branches = Inr (found, rd)"
    and r: "(roots, rep) = fold (step_root found) ?want ([], rep0)" and rep0: "lk_Unresolved rep0 = []"
  proof (cases "scavengeBackups env branch head ?want 0 branches")
    case (Inr x)
    then show ?thesis
      using assms that [of "fst x" "snd x"
        "empty_last_k\<lparr>lk_K := window_k opt head, lk_Generations := 1, lk_TrailersRead := snd x\<rparr>"]
      by (cases x) (simp add: windowRoots_def Let_def empty_last_k_def k)
  qed (use assms in \<open>simp add: windowRoots_def Let_def k\<close>)
  obtain es where es: "listDir env PackDir = Inr es"
    and ok: "\<And>g x. map_of found g = Some x \<Longrightarrow> g \<in> set ?want \<and> set_ok env branch head g x"
    and out: "\<And>g p. g \<in> set ?want \<Longrightarrow> map_of found g = None \<Longrightarrow> p \<in> set es \<Longrightarrow> is_pack p \<Longrightarrow> pack_rules_out env head g p"
    using scavenge_sound [OF f assms(2) distinct_wanted] by auto
  have roots: "set roots = (\<Union>g \<in> set ?want. set (picked found g))"
    and unres: "set (lk_Unresolved rep) = (\<lambda>g. g - 1) ` {g \<in> set ?want. picked found g = []}"
    using fold_step_root [of found ?want "[]" rep0] rep0 by (auto simp flip: r)
  have pick: "Generation sb = g \<and> verified_in env head sb \<and> (\<forall>o' \<in> set (picked found g). Branch o' = branch \<longrightarrow> Branch sb = branch)"
    if sb: "sb \<in> set (picked found g)" for sb g
  proof -
    obtain x where x: "map_of found g = Some x" "picked found g = (if bs_mine x \<noteq> [] then bs_mine x else bs_others x)"
      using sb by (cases "map_of found g") (simp_all add: picked_def)
    then show ?thesis
      using sb ok [OF x(1)] by (auto simp: set_ok_def split: if_splits)
  qed
  have none: "map_of found g = None" if "picked found g = []" for g
    using that ok by (fastforce simp: picked_def set_ok_def split: option.splits if_splits)
  have "(\<exists>sb \<in> set roots. Generation sb = g) \<or>
      g - 1 \<in> set (lk_Unresolved rep) \<and> (\<forall>p \<in> set es. is_pack p \<longrightarrow> pack_rules_out env head g p)" if g: "g \<in> set ?want" for g
  proof (cases "picked found g")
    case Nil
    then show ?thesis
      using g none [OF Nil] out unres by blast
  next
    case (Cons sb rest)
    then show ?thesis
      using g pick [of sb g] roots by fastforce
  qed
  moreover have "verified_in env head sb \<and> Generation sb \<in> set ?want \<and>
      ((\<exists>o' \<in> set roots. Generation o' = Generation sb \<and> Branch o' = branch) \<longrightarrow> Branch sb = branch)" if sb: "sb \<in> set roots" for sb
    using sb roots pick by (metis (no_types, lifting) UN_E)
  ultimately show ?thesis
    using es by blast
qed

lemma FetchTrailer_told:
  assumes "FetchTrailer_gc env name sz = Inl m"
  shows "\<exists>pre post. m = pre @ name @ post"
proof (cases "if sz \<le>s 0 then ge_size env (PackDir @ ''/'' @ name) else Inr sz")
  case (Inl m')
  then have "m = ''stat pack '' @ name @ '': '' @ m'"
    using assms by (simp add: FetchTrailer_gc_def)
  then show ?thesis
    by (intro exI)
next
  case (Inr sz')
  then obtain m' where "m = ''pack '' @ name @ '': '' @ m'"
    using assms by (auto simp: FetchTrailer_gc_def split: sum.splits)
  then show ?thesis
    by (intro exI)
qed

text \<open>
  C24: a pack whose own name contains the digits 404 is read as absent whatever went wrong.
  When its trailer cannot be read, for any reason the origin gives, the scan for the retain
  window counts nothing as unread: the test looks for \<open>404\<close> anywhere in a message that states
  the pack's name. So a time-out there does not make the sweep fail closed, and the
  generations only that pack's backups speak for drop out of the window.
\<close>

theorem unread_pack_is_taken_as_absent:
  assumes "contains (oe_Name p) ''404''" "FetchTrailer_gc env (oe_Name p) (oe_Size p) = Inl m"
  shows "scan_pack env branch head want p s = s\<lparr>sc_read := sc_read s + 1\<rparr>"
proof -
  obtain pre post where m: "m = pre @ oe_Name p @ post"
    using FetchTrailer_told [OF assms(2)] by blast
  have "sublist ''404'' m"
    using assms(1) sublist_order.order_trans [OF _ sublist_appendI] unfolding contains_def m by blast
  then have "isAbsent (Told m)"
    unfolding isAbsent_def contains_def by simp
  then show ?thesis
    using assms(2) by (simp add: scan_pack_def Let_def)
qed

section \<open>Witnesses\<close>

text \<open>One branch, a window of two, three packs: the head names the first, the backup in it the second.\<close>

definition ex_pack :: "char \<Rightarrow> string" where
  "ex_pack c = ''p-000000000000000'' @ [c] @ ''-00''"

definition ex_head :: superblock where
  "ex_head = ex_superblock\<lparr>Generation := 2, Branch := ''main'',
     PackList := [\<lparr>pr_Name = ex_pack CHR ''1'', pr_TrailerHash = [], pr_Size = 9\<rparr>]\<rparr>"

definition ex_entry :: "string \<Rightarrow> object_entry" where
  "ex_entry n = \<lparr>oe_Name = n, oe_IsDir = False, oe_Size = 9, oe_Mtime = None\<rparr>"

definition ex_gc_env :: gc_env where
  "ex_gc_env = \<lparr>ge_list = (\<lambda>d. if d = RefDirKey then Inr [ex_entry ''main''] else if d = PackDir
       then Inr (map (\<lambda>c. ex_entry (ex_pack c)) ''123'') else Inl ''404''),
     ge_fetch = (\<lambda>_. Inr ex_head), ge_tag = (\<lambda>_. Inl ''404''), ge_segments = (\<lambda>_. Inl ''timeout''),
     ge_trailer = (\<lambda>n _. if n = ex_pack CHR ''1'' then Inr [\<lparr>Key = [], Off = 0, Length = 1, Type = ''sb''\<rparr>] else Inr []),
     ge_size = (\<lambda>_. Inl ''404''), ge_range = (\<lambda>_ _ _. Inr [7]),
     ge_verify = (\<lambda>_. Inr (ex_head\<lparr>PackList := [\<lparr>pr_Name = ex_pack CHR ''2'', pr_TrailerHash = [], pr_Size = 9\<rparr>]\<rparr>)),
     ge_mtime = (\<lambda>_. None), ge_hash = (\<lambda>b. take 32 (b @ replicate 32 0))\<rparr>"

definition ex_gc_options :: gc_options where
  "ex_gc_options = \<lparr>go_Grace = 0, go_RetainK = 2, go_Delete = True, go_Now = 10 ^ 18\<rparr>"

theorem window_is_complete_or_reported_witness:
  "\<exists>roots rep es. windowRoots ex_gc_env ex_gc_options ''main'' ex_head 1 = Inr (roots, rep) \<and>
     listDir ex_gc_env PackDir = Inr es \<and> (\<exists>sb \<in> set roots. Generation sb = 2)"
proof -
  have "(case windowRoots ex_gc_env ex_gc_options ''main'' ex_head 1 of Inr (roots, rep) \<Rightarrow> lk_Unresolved rep = [] | _ \<Rightarrow> False)"
    by code_simp
  then obtain roots rep where w: "windowRoots ex_gc_env ex_gc_options ''main'' ex_head 1 = Inr (roots, rep)" "lk_Unresolved rep = []"
    by (auto split: sum.splits)
  have "1 < window_k ex_gc_options ex_head" "Generation ex_head \<noteq> 0" "2 \<in> set (wanted (Generation ex_head) (window_k ex_gc_options ex_head))"
    by code_simp+
  moreover have "inj_on (ge_hash ex_gc_env) (backups_read ex_gc_env)"
  proof -
    have "backups_read ex_gc_env \<subseteq> {[7]}"
      by (auto simp: backups_read_def ex_gc_env_def readBackup_def)
    then show ?thesis by (rule inj_on_subset [rotated]) simp
  qed
  ultimately show ?thesis
    using window_is_complete_or_reported [OF w(1)] w by (auto simp: ex_gc_env_def)
qed

definition ex_slow_env :: "string \<Rightarrow> gc_env" where
  "ex_slow_env name = ex_gc_env\<lparr>ge_list := (\<lambda>_. Inr [ex_entry name]), ge_trailer := (\<lambda>_ _. Inl ''timeout'')\<rparr>"

text \<open>
  The same time-out on the one pack there is: the window is reported short under one name
  and fails closed under the other.
\<close>

theorem unread_pack_is_taken_as_absent_witness:
  "(\<exists>rep. windowRoots (ex_slow_env ''p-0000000000000404-00'') ex_gc_options ''main'' ex_head 1 = Inr ([], rep) \<and> lk_Unresolved rep = [1]) \<and>
   windowRoots (ex_slow_env ''p-0000000000000405-00'') ex_gc_options ''main'' ex_head 1 = Inl (Unreadable [2] 1) \<and>
   scan_pack (ex_slow_env ''p-0000000000000404-00'') ''main'' ex_head [2] (ex_entry ''p-0000000000000404-00'')
     \<lparr>sc_found = [], sc_attributed = 0, sc_seen = [], sc_unread = 0, sc_read = 0\<rparr> =
     \<lparr>sc_found = [], sc_attributed = 0, sc_seen = [], sc_unread = 0, sc_read = 1\<rparr>"
proof (intro conjI)
  have "(case windowRoots (ex_slow_env ''p-0000000000000404-00'') ex_gc_options ''main'' ex_head 1 of
      Inr (roots, rep) \<Rightarrow> roots = [] \<and> lk_Unresolved rep = [1] | _ \<Rightarrow> False)"
    by code_simp
  then show "\<exists>rep. windowRoots (ex_slow_env ''p-0000000000000404-00'') ex_gc_options ''main'' ex_head 1 = Inr ([], rep) \<and>
      lk_Unresolved rep = [1]"
    by (auto split: sum.splits)
  show "windowRoots (ex_slow_env ''p-0000000000000405-00'') ex_gc_options ''main'' ex_head 1 = Inl (Unreadable [2] 1)"
    by code_simp
  have "contains (oe_Name (ex_entry ''p-0000000000000404-00'')) ''404''"
    unfolding contains_def sublist_code by code_simp
  moreover have "FetchTrailer_gc (ex_slow_env ''p-0000000000000404-00'') (oe_Name (ex_entry ''p-0000000000000404-00''))
      (oe_Size (ex_entry ''p-0000000000000404-00'')) = Inl ''pack p-0000000000000404-00: timeout''"
    by code_simp
  ultimately show "scan_pack (ex_slow_env ''p-0000000000000404-00'') ''main'' ex_head [2] (ex_entry ''p-0000000000000404-00'')
     \<lparr>sc_found = [], sc_attributed = 0, sc_seen = [], sc_unread = 0, sc_read = 0\<rparr> =
     \<lparr>sc_found = [], sc_attributed = 0, sc_seen = [], sc_unread = 0, sc_read = 1\<rparr>"
    by (simp add: unread_pack_is_taken_as_absent)
qed

end
