(* ===== verification/Retention_Sweep.thy ===== *)
theory Retention_Sweep
  imports Retention_Window
begin

text \<open>
  The garbage collector, \<open>internal/retention/retention.go\<close>: what every head, retain window and tag
  keeps, what is old enough to go, the second look before anything is deleted, and the
  deletes. The origin is asked twice, so there are two records of its answers; a time is a
  number of nanoseconds.
\<close>

section \<open>What one generation keeps\<close>

record live_set =
  lv_packs :: "string set"
  lv_indexes :: "string set"
  lv_manifests :: "string set"

definition no_live :: live_set where
  "no_live = \<lparr>lv_packs = {}, lv_indexes = {}, lv_manifests = {}\<rparr>"

definition live_union :: "live_set \<Rightarrow> live_set \<Rightarrow> live_set" where
  "live_union a b = \<lparr>lv_packs = lv_packs a \<union> lv_packs b, lv_indexes = lv_indexes a \<union> lv_indexes b,
     lv_manifests = lv_manifests a \<union> lv_manifests b\<rparr>"

fun decimal :: "nat \<Rightarrow> string" where
  "decimal n = (if n < 10 then [char_of (48 + n)] else decimal (n div 10) @ [char_of (48 + n mod 10)])"

declare decimal.simps [simp del]

definition ManifestDir :: string where "ManifestDir = ''manifests''"
definition IndexDir :: string where "IndexDir = ''mpi''"

text \<open>\<open>manifest.Packs\<close>, with the text its error has.\<close>

definition resolve_packs :: "gc_env \<Rightarrow> superblock \<Rightarrow> string + string list" where
  "resolve_packs env sb =
     (if Manifests sb = [] then Inr (map pr_Name (PackList sb))
      else case ge_segments env sb of
        Inl m \<Rightarrow> Inl (''manifest: generation '' @ decimal (unat (Generation sb)) @ '' lists '' @ decimal (length (Manifests sb)) @
          '' manifest segment(s) and one could not be read, so its pack set is unknown (this generation keeps its pack list in '' @
          ManifestDir @ ''/, not in the superblock): '' @ m)
      | Inr packs \<Rightarrow> Inr packs)"

text \<open>\<open>Time.Sub\<close> saturates at the ends of a duration; integer division truncates.\<close>

definition sub_time :: "int \<Rightarrow> int \<Rightarrow> int" where
  "sub_time a b = max (- (2 ^ 63)) (min (2 ^ 63 - 1) (a - b))"

definition in_window :: "int \<Rightarrow> int \<Rightarrow> int \<Rightarrow> int \<Rightarrow> bool" where
  "in_window now grace since at \<longleftrightarrow> sub_time now (at * 1000000000) < grace \<or> since \<noteq> 0 \<and> at \<ge> since sdiv 1000000000"

definition grace_of :: "superblock \<Rightarrow> int" where
  "grace_of sb = sint (Grace (Params sb))"

definition held_rows :: "int \<Rightarrow> int \<Rightarrow> int \<Rightarrow> condemned_row list \<Rightarrow> string set" where
  "held_rows now grace since ledger = set (map cn_Name (filter (\<lambda>c. in_window now grace since (cn_At c)) ledger))"

definition holds :: "gc_env \<Rightarrow> int \<Rightarrow> int \<Rightarrow> superblock \<Rightarrow> gc_error + live_set" where
  "holds env now since sb =
     (case resolve_packs env sb of
        Inl m \<Rightarrow> Inl (Told m)
      | Inr packs \<Rightarrow>
          (let g = grace_of sb in
           Inr \<lparr>lv_packs = set packs \<union> held_rows now g since (Condemned sb),
                lv_indexes = set (map ix_Name (PackIndexes sb)) \<union> held_rows now g since (CondemnedIndexes sb),
                lv_manifests = set (map mf_Name (Manifests sb)) \<union> held_rows now g since (CondemnedManifests sb)\<rparr>))"

text \<open>The live set and the widest grace window stated so far.\<close>

type_synonym roots_state = "live_set \<times> int"

definition absorb :: "gc_env \<Rightarrow> int \<Rightarrow> int \<Rightarrow> superblock \<Rightarrow> roots_state \<Rightarrow> gc_error + roots_state" where
  "absorb env now since sb st =
     (case holds env now since sb of
        Inl e \<Rightarrow> Inl e
      | Inr l \<Rightarrow> Inr (live_union (fst st) l, if grace_of sb > snd st then grace_of sb else snd st))"

section \<open>What the whole volume keeps\<close>

datatype sweep_error = RefsUnlisted string | BranchUnread string string | WindowFailed window_error
  | BranchUnresolved string gc_error | RootUnresolved string uint64 gc_error | TagsUnlisted string
  | TagUnread string string | TagUnresolved string gc_error | NoRefsFound | PacksUnlisted string
  | DirUnlisted string string | SecondLook sweep_error | DeleteFailed string string

fun absorb_window :: "gc_env \<Rightarrow> int \<Rightarrow> int \<Rightarrow> string \<Rightarrow> superblock list \<Rightarrow> last_k \<times> roots_state \<Rightarrow> sweep_error + last_k \<times> roots_state" where
  "absorb_window env now since b [] (lk, st) = Inr (lk, st)"
| "absorb_window env now since b (sb # sbs) (lk, st) =
     (case absorb env now since sb st of
        Inr st' \<Rightarrow> absorb_window env now since b sbs (lk, st')
      | Inl e \<Rightarrow>
          (if isAbsent e
           then absorb_window env now since b sbs (lk\<lparr>lk_Generations := lk_Generations lk - 1,
                  lk_Unresolved := lk_Unresolved lk @ [Generation sb - 1]\<rparr>, st)
           else Inl (RootUnresolved b (Generation sb - 1) e)))"

record retained =
  rt_state :: roots_state
  rt_branches :: nat
  rt_tags :: nat
  rt_windows :: "last_k list"
  rt_cache :: window_cache

fun absorb_branches :: "gc_env \<Rightarrow> gc_options \<Rightarrow> nat \<Rightarrow> string list \<Rightarrow> retained \<Rightarrow> sweep_error + retained" where
  "absorb_branches env opt n [] r = Inr r"
| "absorb_branches env opt n (b # bs) r =
     (case ge_fetch env b of
        Inl m \<Rightarrow> Inl (BranchUnread b m)
      | Inr sb \<Rightarrow>
          (case cache_get env opt b sb n (rt_cache r) of
             Inl e \<Rightarrow> Inl (WindowFailed e)
           | Inr ((roots, rep), cache) \<Rightarrow>
               (let since = windowFloor roots in
                case absorb env (go_Now opt) since sb (rt_state r) of
                  Inl e \<Rightarrow> Inl (BranchUnresolved b e)
                | Inr st \<Rightarrow>
                    (case absorb_window env (go_Now opt) since b roots (clone rep b, st) of
                       Inl e \<Rightarrow> Inl e
                     | Inr (lk, st') \<Rightarrow>
                         absorb_branches env opt n bs
                           (r\<lparr>rt_state := st', rt_branches := rt_branches r + 1, rt_cache := cache,
                              rt_windows := rt_windows r @ [lk\<lparr>lk_Unresolved := rev (sort (lk_Unresolved lk))\<rparr>]\<rparr>)))))"

fun absorb_tags :: "gc_env \<Rightarrow> gc_options \<Rightarrow> string list \<Rightarrow> retained \<Rightarrow> sweep_error + retained" where
  "absorb_tags env opt [] r = Inr r"
| "absorb_tags env opt (t # ts) r =
     (case ge_tag env t of
        Inl m \<Rightarrow> Inl (TagUnread t m)
      | Inr sb \<Rightarrow>
          (case absorb env (go_Now opt) 0 sb (rt_state r) of
             Inl e \<Rightarrow> Inl (TagUnresolved t e)
           | Inr st \<Rightarrow> absorb_tags env opt ts (r\<lparr>rt_state := st, rt_tags := rt_tags r + 1\<rparr>)))"

definition DefaultGrace :: int where "DefaultGrace = sint DefaultTGrace"

definition retainedSet :: "gc_env \<Rightarrow> gc_options \<Rightarrow> window_cache \<Rightarrow> sweep_error + retained" where
  "retainedSet env opt cache =
     (case listNames env RefDirKey of
        Inl m \<Rightarrow> Inl (RefsUnlisted m)
      | Inr branches \<Rightarrow>
          (case absorb_branches env opt (length branches) branches
              \<lparr>rt_state = (no_live, 0), rt_branches = 0, rt_tags = 0, rt_windows = [], rt_cache = cache\<rparr> of
             Inl e \<Rightarrow> Inl e
           | Inr r \<Rightarrow>
               (case listNames env TagDirKey of
                  Inl m \<Rightarrow> Inl (TagsUnlisted m)
                | Inr tags \<Rightarrow>
                    (case absorb_tags env opt tags r of
                       Inl e \<Rightarrow> Inl e
                     | Inr r' \<Rightarrow>
                         (if rt_branches r' + rt_tags r' = 0 then Inl NoRefsFound
                          else Inr (r'\<lparr>rt_state := (fst (rt_state r'),
                                 if snd (rt_state r') > 0 then snd (rt_state r') else DefaultGrace)\<rparr>))))))"

section \<open>Candidates\<close>

record space_report =
  sp_Retained :: nat
  sp_Scanned :: nat
  sp_SkippedYoung :: nat
  sp_Candidates :: nat
  sp_CandidateBytes :: int64
  sp_Deleted :: nat
  sp_CandidateNames :: "string list"

definition no_space :: space_report where
  "no_space = \<lparr>sp_Retained = 0, sp_Scanned = 0, sp_SkippedYoung = 0, sp_Candidates = 0, sp_CandidateBytes = 0,
     sp_Deleted = 0, sp_CandidateNames = []\<rparr>"

type_synonym candidate = "string \<times> int64"

definition pack_old :: "int \<Rightarrow> object_entry \<Rightarrow> bool" where
  "pack_old cutoff p = (case PackNameTime (oe_Name p) of None \<Rightarrow> False | Some created \<Rightarrow> \<not> created > cutoff)"

definition sift :: "(object_entry \<Rightarrow> bool) \<Rightarrow> (object_entry \<Rightarrow> bool) \<Rightarrow> string set \<Rightarrow> object_entry list \<Rightarrow> space_report \<Rightarrow>
    candidate list \<times> space_report" where
  "sift considered old lv es sp =
     (let seen = filter considered es; unnamed = filter (\<lambda>e. oe_Name e \<notin> lv) seen in
      (map (\<lambda>e. (oe_Name e, oe_Size e)) (filter old unnamed),
       sp\<lparr>sp_Scanned := sp_Scanned sp + length seen,
          sp_SkippedYoung := sp_SkippedYoung sp + length (filter (\<lambda>e. \<not> old e) unnamed)\<rparr>))"

definition scanPacks :: "gc_env \<Rightarrow> string set \<Rightarrow> int \<Rightarrow> space_report \<Rightarrow> sweep_error + candidate list \<times> space_report" where
  "scanPacks env lv cutoff sp =
     (case listDir env PackDir of
        Inl m \<Rightarrow> Inl (PacksUnlisted m)
      | Inr es \<Rightarrow> Inr (sift is_pack (pack_old cutoff) lv es sp))"

definition isHashName :: "string \<Rightarrow> bool" where
  "isHashName name \<longleftrightarrow> \<not> length name < 32 \<and> list_all (\<lambda>c. \<not> ((c < CHR ''0'' \<or> c > CHR ''9'') \<and> (c < CHR ''a'' \<or> c > CHR ''f''))) name"

definition objectTime :: "gc_env \<Rightarrow> string \<Rightarrow> int option \<Rightarrow> int option" where
  "objectTime env key listed = (case ge_mtime env key of Some t \<Rightarrow> Some t | None \<Rightarrow> listed)"

definition hash_old :: "gc_env \<Rightarrow> string \<Rightarrow> int \<Rightarrow> object_entry \<Rightarrow> bool" where
  "hash_old env dir cutoff e =
     (case objectTime env (dir @ ''/'' @ oe_Name e) (oe_Mtime e) of None \<Rightarrow> False | Some written \<Rightarrow> \<not> written > cutoff)"

definition scanHashNamed :: "gc_env \<Rightarrow> string \<Rightarrow> string set \<Rightarrow> int \<Rightarrow> space_report \<Rightarrow> sweep_error + candidate list \<times> space_report" where
  "scanHashNamed env dir lv cutoff sp =
     (case listDir env dir of
        Inl m \<Rightarrow> Inl (DirUnlisted dir m)
      | Inr es \<Rightarrow> Inr (sift (\<lambda>e. \<not> oe_IsDir e \<and> isHashName (oe_Name e)) (hash_old env dir cutoff) lv es sp))"

definition dropRetained :: "candidate list \<Rightarrow> string set \<Rightarrow> candidate list" where
  "dropRetained cands lv = filter (\<lambda>c. fst c \<notin> lv) cands"

section \<open>The sweep\<close>

text \<open>The deletes asked for are returned, in order; \<open>del\<close> says which of them fail.\<close>

fun delete_all :: "(string \<times> string \<Rightarrow> bool) \<Rightarrow> bool \<Rightarrow> string \<Rightarrow> candidate list \<Rightarrow> space_report \<Rightarrow>
    sweep_error option \<times> space_report \<times> (string \<times> string) list" where
  "delete_all del on dir [] sp = (None, sp, [])"
| "delete_all del on dir (c # cs) sp =
     (let sp1 = (if length (sp_CandidateNames sp) < 20 then sp\<lparr>sp_CandidateNames := sp_CandidateNames sp @ [fst c]\<rparr> else sp) in
      if on then
        (if del (dir, fst c) then (Some (DeleteFailed dir (fst c)), sp1, [(dir, fst c)])
         else case delete_all del on dir cs (sp1\<lparr>sp_Deleted := sp_Deleted sp1 + 1\<rparr>) of
           (e, sp2, asked) \<Rightarrow> (e, sp2, (dir, fst c) # asked))
      else delete_all del on dir cs sp1)"

definition finish :: "(string \<times> string \<Rightarrow> bool) \<Rightarrow> gc_options \<Rightarrow> string \<Rightarrow> candidate list \<Rightarrow> space_report \<Rightarrow>
    sweep_error option \<times> space_report \<times> (string \<times> string) list" where
  "finish del opt dir cands sp =
     delete_all del (go_Delete opt) dir cands (sp\<lparr>sp_Candidates := length cands,
       sp_CandidateBytes := sp_CandidateBytes sp + sum_list (map snd cands)\<rparr>)"

record gc_report =
  gr_Branches :: nat
  gr_Tags :: nat
  gr_Grace :: int
  gr_Windows :: "last_k list"
  gr_Packs :: space_report
  gr_Indexes :: space_report
  gr_Manifests :: space_report

definition finish_all :: "(string \<times> string \<Rightarrow> bool) \<Rightarrow> gc_options \<Rightarrow> candidate list \<Rightarrow> candidate list \<Rightarrow> candidate list \<Rightarrow>
    gc_report \<Rightarrow> sweep_error option \<times> gc_report \<times> (string \<times> string) list" where
  "finish_all del opt packs ixs mans rep =
     (case finish del opt PackDir packs (gr_Packs rep) of
        (e1, s1, d1) \<Rightarrow>
          (let r1 = rep\<lparr>gr_Packs := s1\<rparr> in
           if e1 \<noteq> None then (e1, r1, d1)
           else case finish del opt IndexDir ixs (gr_Indexes rep) of
             (e2, s2, d2) \<Rightarrow>
               (let r2 = r1\<lparr>gr_Indexes := s2\<rparr> in
                if e2 \<noteq> None then (e2, r2, d1 @ d2)
                else case finish del opt ManifestDir mans (gr_Manifests rep) of
                  (e3, s3, d3) \<Rightarrow> (e3, r2\<lparr>gr_Manifests := s3\<rparr>, d1 @ d2 @ d3))))"

text \<open>The window is the widest stated, or the one asked for when that is wider.\<close>

definition sweep_grace :: "gc_options \<Rightarrow> retained \<Rightarrow> int" where
  "sweep_grace opt r = (if go_Grace opt > snd (rt_state r) then go_Grace opt else snd (rt_state r))"

definition cutoff_of :: "gc_options \<Rightarrow> retained \<Rightarrow> int" where
  "cutoff_of opt r = go_Now opt - sweep_grace opt r"

definition first_report :: "gc_options \<Rightarrow> retained \<Rightarrow> gc_report" where
  "first_report opt r = \<lparr>gr_Branches = rt_branches r, gr_Tags = rt_tags r, gr_Grace = sweep_grace opt r, gr_Windows = rt_windows r,
     gr_Packs = no_space\<lparr>sp_Retained := card (lv_packs (fst (rt_state r)))\<rparr>,
     gr_Indexes = no_space\<lparr>sp_Retained := card (lv_indexes (fst (rt_state r)))\<rparr>,
     gr_Manifests = no_space\<lparr>sp_Retained := card (lv_manifests (fst (rt_state r)))\<rparr>\<rparr>"

text \<open>
  \<open>env\<close> answers the first look and the listings, \<open>env2\<close> the second look. A first look that
  fails gives no report.
\<close>

definition GC :: "gc_env \<Rightarrow> gc_env \<Rightarrow> (string \<times> string \<Rightarrow> bool) \<Rightarrow> gc_options \<Rightarrow>
    sweep_error option \<times> gc_report option \<times> (string \<times> string) list" where
  "GC env env2 del opt =
     (case retainedSet env opt [] of
        Inl e \<Rightarrow> (Some e, None, [])
      | Inr r \<Rightarrow>
          (let lv = fst (rt_state r); cutoff = cutoff_of opt r; rep = first_report opt r in
           case scanPacks env (lv_packs lv) cutoff (gr_Packs rep) of
             Inl e \<Rightarrow> (Some e, Some rep, [])
           | Inr (packs, sp1) \<Rightarrow>
               (case scanHashNamed env IndexDir (lv_indexes lv) cutoff (gr_Indexes rep) of
                  Inl e \<Rightarrow> (Some e, Some (rep\<lparr>gr_Packs := sp1\<rparr>), [])
                | Inr (ixs, sp2) \<Rightarrow>
                    (case scanHashNamed env ManifestDir (lv_manifests lv) cutoff (gr_Manifests rep) of
                       Inl e \<Rightarrow> (Some e, Some (rep\<lparr>gr_Packs := sp1, gr_Indexes := sp2\<rparr>), [])
                     | Inr (mans, sp3) \<Rightarrow>
                         (let rep3 = rep\<lparr>gr_Packs := sp1, gr_Indexes := sp2, gr_Manifests := sp3\<rparr> in
                          if 0 < length packs + length ixs + length mans then
                            (case retainedSet env2 opt (rt_cache r) of
                               Inl e \<Rightarrow> (Some (SecondLook e), Some rep3, [])
                             | Inr fresh \<Rightarrow>
                                 (let l2 = fst (rt_state fresh) in
                                  case finish_all del opt (dropRetained packs (lv_packs l2)) (dropRetained ixs (lv_indexes l2))
                                    (dropRetained mans (lv_manifests l2)) rep3 of
                                    (e, rep4, asked) \<Rightarrow> (e, Some rep4, asked)))
                          else case finish_all del opt packs ixs mans rep3 of (e, rep4, asked) \<Rightarrow> (e, Some rep4, asked))))))"

section \<open>What was absorbed stays\<close>

definition live_le :: "live_set \<Rightarrow> live_set \<Rightarrow> bool" where
  "live_le a b \<longleftrightarrow> lv_packs a \<subseteq> lv_packs b \<and> lv_indexes a \<subseteq> lv_indexes b \<and> lv_manifests a \<subseteq> lv_manifests b"

definition state_le :: "roots_state \<Rightarrow> roots_state \<Rightarrow> bool" where
  "state_le a b \<longleftrightarrow> live_le (fst a) (fst b) \<and> snd a \<le> snd b"

definition root_in :: "gc_env \<Rightarrow> int \<Rightarrow> int \<Rightarrow> superblock \<Rightarrow> roots_state \<Rightarrow> bool" where
  "root_in env now since sb st \<longleftrightarrow> (\<exists>l. holds env now since sb = Inr l \<and> live_le l (fst st) \<and> grace_of sb \<le> snd st)"

text \<open>A root of a window may be absent instead.\<close>

definition window_in :: "gc_env \<Rightarrow> int \<Rightarrow> int \<Rightarrow> superblock \<Rightarrow> roots_state \<Rightarrow> bool" where
  "window_in env now since sb st \<longleftrightarrow> (case holds env now since sb of Inl e \<Rightarrow> isAbsent e | Inr l \<Rightarrow> root_in env now since sb st)"

lemma state_le_refl [simp]: "state_le st st"
  by (simp add: state_le_def live_le_def)

lemma state_le_trans: "state_le a b \<Longrightarrow> state_le b c \<Longrightarrow> state_le a c"
  by (auto simp: state_le_def live_le_def)

lemma root_in_mono: "root_in env now since sb st \<Longrightarrow> state_le st st' \<Longrightarrow> root_in env now since sb st'"
  unfolding root_in_def state_le_def live_le_def by (meson order_trans)

lemma window_in_mono: "window_in env now since sb st \<Longrightarrow> state_le st st' \<Longrightarrow> window_in env now since sb st'"
  by (auto simp: window_in_def intro: root_in_mono split: sum.splits)

lemma absorb_root:
  assumes "absorb env now since sb st = Inr st'"
  shows "root_in env now since sb st' \<and> state_le st st'"
  using assms by (auto simp: absorb_def root_in_def state_le_def live_le_def live_union_def split: sum.splits if_splits)

lemma absorb_window_roots:
  assumes "absorb_window env now since b sbs (lk, st) = Inr (lk', st')"
  shows "state_le st st' \<and> (\<forall>v \<in> set sbs. window_in env now since v st')"
  using assms
proof (induction sbs arbitrary: lk st)
  case (Cons sb sbs)
  show ?case
  proof (cases "absorb env now since sb st")
    case (Inl e)
    then have "holds env now since sb = Inl e" "isAbsent e"
      using Cons.prems by (auto simp: absorb_def split: sum.splits if_splits)
    moreover from Inl this Cons have "state_le st st' \<and> (\<forall>v \<in> set sbs. window_in env now since v st')"
      by simp
    ultimately show ?thesis
      by (simp add: window_in_def)
  next
    case (Inr st1)
    note one = absorb_root [OF Inr]
    have rest: "state_le st1 st'" "\<forall>v \<in> set sbs. window_in env now since v st'"
      using Cons.IH [of lk st1] Cons.prems Inr by simp_all
    have "root_in env now since sb st'"
      using one rest(1) root_in_mono by blast
    then have "window_in env now since sb st'"
      by (auto simp: window_in_def root_in_def)
    then show ?thesis
      using one rest state_le_trans by fastforce
  qed
qed simp

text \<open>
  What one look knows of a branch: its head and every root of its window are in the state.
  The window is one an earlier look established, or this one.
\<close>

definition branch_in :: "gc_env \<Rightarrow> gc_options \<Rightarrow> nat \<Rightarrow> window_cache \<Rightarrow> window_cache \<Rightarrow> roots_state \<Rightarrow> string \<Rightarrow> bool" where
  "branch_in env opt n old new st b \<longleftrightarrow>
     (\<exists>sb roots rep. ge_fetch env b = Inr sb \<and> map_of new b = Some (roots, rep) \<and>
        (map_of old b = Some (roots, rep) \<or> map_of old b = None \<and> windowRoots env opt b sb n = Inr (roots, rep)) \<and>
        root_in env (go_Now opt) (windowFloor roots) sb st \<and>
        (\<forall>v \<in> set roots. window_in env (go_Now opt) (windowFloor roots) v st))"

definition established :: "gc_env \<Rightarrow> gc_options \<Rightarrow> nat \<Rightarrow> string \<Rightarrow> superblock list \<times> last_k \<Rightarrow> bool" where
  "established env opt n b w \<longleftrightarrow> (\<exists>sb. ge_fetch env b = Inr sb \<and> windowRoots env opt b sb n = Inr w)"

definition cache_grows :: "gc_env \<Rightarrow> gc_options \<Rightarrow> nat \<Rightarrow> window_cache \<Rightarrow> window_cache \<Rightarrow> bool" where
  "cache_grows env opt n old new \<longleftrightarrow> map_of old \<subseteq>\<^sub>m map_of new \<and>
     (\<forall>b w. map_of new b = Some w \<longrightarrow> map_of old b = Some w \<or>
        map_of old b = None \<and> established env opt n b w)"

lemma cache_get_grows:
  assumes "cache_get env opt b sb n c = Inr (w, c')" "ge_fetch env b = Inr sb"
  shows "cache_grows env opt n c c' \<and> map_of c' b = Some w \<and>
    (map_of c b = Some w \<or> map_of c b = None \<and> windowRoots env opt b sb n = Inr w)"
proof (cases "map_of c b")
  case None
  then have w: "windowRoots env opt b sb n = Inr w" and c': "c' = (b, w) # c"
    using assms(1) by (auto simp: cache_get_def split: sum.splits)
  have "established env opt n b w"
    using assms(2) w unfolding established_def by blast
  then show ?thesis
    using None w c' by (auto simp: cache_grows_def map_le_def)
next
  case (Some x)
  then show ?thesis
    using assms(1) by (simp add: cache_get_def cache_grows_def)
qed

lemma grows_none: "cache_grows env opt n a b \<Longrightarrow> map_of b k = None \<Longrightarrow> map_of a k = None"
  by (rule ccontr) (auto simp: cache_grows_def dest: map_le_implies_dom_le)

lemma grows_origin:
  "cache_grows env opt n a b \<Longrightarrow> map_of b k = Some w \<Longrightarrow> map_of a k = Some w \<or> map_of a k = None \<and> established env opt n k w"
  unfolding cache_grows_def by blast

lemma cache_grows_trans:
  assumes "cache_grows env opt n a b" "cache_grows env opt n b c"
  shows "cache_grows env opt n a c"
proof -
  have "map_of a \<subseteq>\<^sub>m map_of c"
    using assms map_le_trans unfolding cache_grows_def by blast
  moreover have "map_of a k = Some w \<or> map_of a k = None \<and> established env opt n k w" if "map_of c k = Some w" for k w
    using grows_origin [OF assms(2) that] grows_origin [OF assms(1), of k w] grows_none [OF assms(1), of k] by blast
  ultimately show ?thesis
    unfolding cache_grows_def by blast
qed

text \<open>The part of a look's result that the proofs need.\<close>

definition steps_to :: "gc_env \<Rightarrow> gc_options \<Rightarrow> nat \<Rightarrow> retained \<Rightarrow> retained \<Rightarrow> bool" where
  "steps_to env opt n r r' \<longleftrightarrow> state_le (rt_state r) (rt_state r') \<and> cache_grows env opt n (rt_cache r) (rt_cache r')"

lemma branch_in_mono:
  assumes "branch_in env opt n c1 c2 st b" "cache_grows env opt n c2 c3" "state_le st st'"
  shows "branch_in env opt n c1 c3 st' b"
proof -
  obtain sb roots rep where b: "ge_fetch env b = Inr sb" "map_of c2 b = Some (roots, rep)"
    "map_of c1 b = Some (roots, rep) \<or> map_of c1 b = None \<and> windowRoots env opt b sb n = Inr (roots, rep)"
    "root_in env (go_Now opt) (windowFloor roots) sb st" "\<forall>v \<in> set roots. window_in env (go_Now opt) (windowFloor roots) v st"
    using assms(1) unfolding branch_in_def by blast
  moreover have "map_of c3 b = Some (roots, rep)"
    using assms(2) b(2) unfolding cache_grows_def map_le_def by (metis domI)
  ultimately show ?thesis
    using assms(3) root_in_mono window_in_mono unfolding branch_in_def by blast
qed

lemma branch_in_earlier:
  assumes "branch_in env opt n c2 c3 st b" "cache_grows env opt n c1 c2"
  shows "branch_in env opt n c1 c3 st b"
proof -
  obtain sb roots rep where b: "ge_fetch env b = Inr sb" "map_of c3 b = Some (roots, rep)"
    "map_of c2 b = Some (roots, rep) \<or> map_of c2 b = None \<and> windowRoots env opt b sb n = Inr (roots, rep)"
    "root_in env (go_Now opt) (windowFloor roots) sb st" "\<forall>v \<in> set roots. window_in env (go_Now opt) (windowFloor roots) v st"
    using assms(1) unfolding branch_in_def by blast
  have "map_of c1 b = Some (roots, rep) \<or> map_of c1 b = None \<and> windowRoots env opt b sb n = Inr (roots, rep)"
    using b(1,3) grows_origin [OF assms(2), of b "(roots, rep)"] grows_none [OF assms(2), of b] by (auto simp: established_def)
  then show ?thesis
    using b unfolding branch_in_def by blast
qed

lemma absorb_branches_roots:
  assumes "absorb_branches env opt n bs r = Inr r'"
  shows "steps_to env opt n r r' \<and> rt_branches r' = rt_branches r + length bs \<and> rt_tags r' = rt_tags r \<and>
    (\<forall>b \<in> set bs. branch_in env opt n (rt_cache r) (rt_cache r') (rt_state r') b)"
  using assms
proof (induction bs arbitrary: r)
  case Nil
  then show ?case
    by (simp add: steps_to_def cache_grows_def)
next
  case (Cons b bs)
  obtain sb where sb: "ge_fetch env b = Inr sb"
    using Cons.prems by (auto split: sum.splits)
  obtain roots rep cache where c: "cache_get env opt b sb n (rt_cache r) = Inr ((roots, rep), cache)"
    using Cons.prems sb by (auto split: sum.splits prod.splits)
  obtain st where st: "absorb env (go_Now opt) (windowFloor roots) sb (rt_state r) = Inr st"
    using Cons.prems sb c by (auto simp: Let_def split: sum.splits)
  obtain lk st' where w: "absorb_window env (go_Now opt) (windowFloor roots) b roots (clone rep b, st) = Inr (lk, st')"
    using Cons.prems sb c st by (auto simp: Let_def split: sum.splits prod.splits)
  let ?r1 = "r\<lparr>rt_state := st', rt_branches := rt_branches r + 1, rt_cache := cache,
    rt_windows := rt_windows r @ [lk\<lparr>lk_Unresolved := rev (sort (lk_Unresolved lk))\<rparr>]\<rparr>"
  have rest: "absorb_branches env opt n bs ?r1 = Inr r'"
    using Cons.prems sb c st w by (simp add: Let_def)
  note IH = Cons.IH [OF rest]
  note g = cache_get_grows [OF c sb] and a = absorb_root [OF st] and ws = absorb_window_roots [OF w]
  have one: "branch_in env opt n (rt_cache r) cache st' b"
    using sb g a ws root_in_mono unfolding branch_in_def by blast
  have grown: "cache_grows env opt n (rt_cache r) cache" "cache_grows env opt n cache (rt_cache r')" "state_le st' (rt_state r')"
    "state_le (rt_state r) st'"
    using g IH conjunct2 [OF a] conjunct1 [OF ws] state_le_trans [of "rt_state r" st st'] by (simp_all add: steps_to_def)
  have "steps_to env opt n r r'"
    using grown cache_grows_trans state_le_trans unfolding steps_to_def by blast
  moreover have "branch_in env opt n (rt_cache r) (rt_cache r') (rt_state r') x" if "x \<in> set bs" for x
    using IH that branch_in_earlier [OF _ grown(1)] by simp
  ultimately show ?case
    using IH branch_in_mono [OF one grown(2,3)] by simp
qed

lemma absorb_tags_roots:
  assumes "absorb_tags env opt ts r = Inr r'"
  shows "state_le (rt_state r) (rt_state r') \<and> rt_cache r' = rt_cache r \<and> rt_branches r' = rt_branches r \<and>
    rt_tags r' = rt_tags r + length ts \<and>
    (\<forall>t \<in> set ts. \<exists>sb. ge_tag env t = Inr sb \<and> root_in env (go_Now opt) 0 sb (rt_state r'))"
  using assms
proof (induction ts arbitrary: r)
  case (Cons t ts)
  obtain sb where sb: "ge_tag env t = Inr sb"
    using Cons.prems by (auto split: sum.splits)
  obtain st where st: "absorb env (go_Now opt) 0 sb (rt_state r) = Inr st"
    using Cons.prems sb by (auto split: sum.splits)
  have rest: "absorb_tags env opt ts (r\<lparr>rt_state := st, rt_tags := rt_tags r + 1\<rparr>) = Inr r'"
    using Cons.prems sb st by simp
  note IH = Cons.IH [OF rest] and a = absorb_root [OF st]
  then show ?case
    using sb root_in_mono [of env "go_Now opt" 0 sb st "rt_state r'"] state_le_trans [of "rt_state r" st "rt_state r'"] by auto
qed simp

lemma DefaultGrace_pos: "0 < DefaultGrace"
  by code_simp

text \<open>One whole look: every head, every window and every tag is in the state.\<close>

definition whole_in :: "gc_env \<Rightarrow> gc_options \<Rightarrow> window_cache \<Rightarrow> retained \<Rightarrow> string list \<Rightarrow> string list \<Rightarrow> bool" where
  "whole_in env opt old r bs ts \<longleftrightarrow> listNames env RefDirKey = Inr bs \<and> listNames env TagDirKey = Inr ts \<and> bs @ ts \<noteq> [] \<and>
     (\<forall>b \<in> set bs. branch_in env opt (length bs) old (rt_cache r) (rt_state r) b) \<and>
     (\<forall>t \<in> set ts. \<exists>sb. ge_tag env t = Inr sb \<and> root_in env (go_Now opt) 0 sb (rt_state r))"

lemma retainedSet_whole:
  assumes "retainedSet env opt c = Inr r"
  shows "\<exists>bs ts. whole_in env opt c r bs ts"
proof -
  let ?start = "\<lparr>rt_state = (no_live, 0), rt_branches = 0, rt_tags = 0, rt_windows = [], rt_cache = c\<rparr>"
  obtain bs where bs: "listNames env RefDirKey = Inr bs"
    using assms by (auto simp: retainedSet_def split: sum.splits)
  obtain r1 where r1: "absorb_branches env opt (length bs) bs ?start = Inr r1"
    using assms bs by (auto simp: retainedSet_def split: sum.splits)
  obtain ts where ts: "listNames env TagDirKey = Inr ts"
    using assms bs r1 by (auto simp: retainedSet_def split: sum.splits)
  obtain r2 where r2: "absorb_tags env opt ts r1 = Inr r2"
    using assms bs r1 ts by (auto simp: retainedSet_def split: sum.splits)
  have some: "rt_branches r2 + rt_tags r2 \<noteq> 0"
    and r: "r = r2\<lparr>rt_state := (fst (rt_state r2), if snd (rt_state r2) > 0 then snd (rt_state r2) else DefaultGrace)\<rparr>"
    using assms bs r1 ts r2 by (simp_all add: retainedSet_def split: if_splits)
  note B = absorb_branches_roots [OF r1] and T = absorb_tags_roots [OF r2]
  have cache: "rt_cache r = rt_cache r1"
    using T r by simp
  have le: "state_le (rt_state r2) (rt_state r)"
    using DefaultGrace_pos by (simp add: r state_le_def live_le_def)
  have "state_le (rt_state r1) (rt_state r)"
    using T le state_le_trans by blast
  moreover have "cache_grows env opt (length bs) (rt_cache r1) (rt_cache r)"
    by (simp add: cache cache_grows_def)
  moreover have "branch_in env opt (length bs) c (rt_cache r1) (rt_state r1) b" if "b \<in> set bs" for b
    using B that by simp
  ultimately have "branch_in env opt (length bs) c (rt_cache r) (rt_state r) b" if "b \<in> set bs" for b
    using that branch_in_mono by blast
  moreover have "\<exists>sb. ge_tag env t = Inr sb \<and> root_in env (go_Now opt) 0 sb (rt_state r)" if "t \<in> set ts" for t
    using T that le root_in_mono by blast
  moreover have "bs @ ts \<noteq> []"
    using B T some by auto
  ultimately show ?thesis
    using bs ts unfolding whole_in_def by blast
qed

section \<open>What is deleted\<close>

definition live_in :: "string \<Rightarrow> live_set \<Rightarrow> string set" where
  "live_in dir l = (if dir = PackDir then lv_packs l else if dir = IndexDir then lv_indexes l
     else if dir = ManifestDir then lv_manifests l else {})"

text \<open>An object of a key space that is ours to age, and the time it is aged by.\<close>

definition aged_at :: "gc_env \<Rightarrow> string \<Rightarrow> object_entry \<Rightarrow> int option" where
  "aged_at env dir e =
     (if dir = PackDir \<and> is_pack e then PackNameTime (oe_Name e)
      else if (dir = IndexDir \<or> dir = ManifestDir) \<and> \<not> oe_IsDir e \<and> isHashName (oe_Name e)
      then objectTime env (dir @ ''/'' @ oe_Name e) (oe_Mtime e)
      else None)"

definition condemnable :: "gc_env \<Rightarrow> string \<Rightarrow> live_set \<Rightarrow> int \<Rightarrow> object_entry \<Rightarrow> bool" where
  "condemnable env dir l cutoff e \<longleftrightarrow> oe_Name e \<notin> live_in dir l \<and> (\<exists>t. aged_at env dir e = Some t \<and> t \<le> cutoff)"

definition candidates_of :: "gc_env \<Rightarrow> string \<Rightarrow> live_set \<Rightarrow> int \<Rightarrow> object_entry list \<Rightarrow> candidate list" where
  "candidates_of env dir l cutoff es = map (\<lambda>e. (oe_Name e, oe_Size e)) (filter (condemnable env dir l cutoff) es)"

lemmas dir_defs = PackDir_def IndexDir_def ManifestDir_def

lemma scanPacks_candidates:
  assumes "scanPacks env (lv_packs l) cutoff sp = Inr (cs, sp')"
  shows "\<exists>es. listDir env PackDir = Inr es \<and> cs = candidates_of env PackDir l cutoff es"
proof -
  have "filter (pack_old cutoff) (filter (\<lambda>e. oe_Name e \<notin> lv_packs l) (filter is_pack es)) =
      filter (condemnable env PackDir l cutoff) es" for es
    by (induction es) (auto simp: condemnable_def live_in_def aged_at_def pack_old_def dir_defs split: option.splits)
  then show ?thesis
    using assms by (auto simp: scanPacks_def sift_def Let_def candidates_of_def split: sum.splits)
qed

lemma scanHashNamed_candidates:
  assumes "scanHashNamed env dir (live_in dir l) cutoff sp = Inr (cs, sp')" "dir = IndexDir \<or> dir = ManifestDir"
  shows "\<exists>es. listDir env dir = Inr es \<and> cs = candidates_of env dir l cutoff es"
proof -
  have "filter (hash_old env dir cutoff) (filter (\<lambda>e. oe_Name e \<notin> live_in dir l)
        (filter (\<lambda>e. \<not> oe_IsDir e \<and> isHashName (oe_Name e)) es)) =
      filter (condemnable env dir l cutoff) es" for es
    using assms(2) by (induction es) (auto simp: condemnable_def aged_at_def hash_old_def dir_defs split: option.splits)
  then show ?thesis
    using assms(1) by (auto simp: scanHashNamed_def sift_def Let_def candidates_of_def split: sum.splits)
qed

lemma dropRetained_candidates:
  "dropRetained (candidates_of env dir l cutoff es) (live_in dir l2) =
     candidates_of env dir l cutoff (filter (\<lambda>e. oe_Name e \<notin> live_in dir l2) es)"
  by (simp add: dropRetained_def candidates_of_def filter_map o_def conj_commute)

lemma delete_all_asked:
  assumes "delete_all del on dir cs sp = (e, sp', asked)"
  shows "set asked \<subseteq> (\<lambda>c. (dir, fst c)) ` set cs \<and> (asked \<noteq> [] \<longrightarrow> on) \<and>
    (on \<and> e = None \<longrightarrow> asked = map (\<lambda>c. (dir, fst c)) cs) \<and> (e \<noteq> None \<longrightarrow> (\<exists>x. del x))"
  using assms
proof (induction cs arbitrary: sp e sp' asked)
  case (Cons c cs)
  then show ?case
    by (fastforce simp: Let_def split: if_splits prod.splits)
qed simp

lemmas finish_sub = delete_all_asked [THEN conjunct1]
lemmas finish_on = delete_all_asked [THEN conjunct2, THEN conjunct1]
lemmas finish_all_of = delete_all_asked [THEN conjunct2, THEN conjunct2, THEN conjunct1]
lemmas finish_err = delete_all_asked [THEN conjunct2, THEN conjunct2, THEN conjunct2]

lemma finish_all_asked:
  assumes "finish_all del opt ps is ms rep = (e, rep', asked)"
  shows "set asked \<subseteq> (\<lambda>c. (PackDir, fst c)) ` set ps \<union> (\<lambda>c. (IndexDir, fst c)) ` set is \<union> (\<lambda>c. (ManifestDir, fst c)) ` set ms \<and>
    (asked \<noteq> [] \<longrightarrow> go_Delete opt) \<and>
    (go_Delete opt \<and> e = None \<longrightarrow>
       asked = map (\<lambda>c. (PackDir, fst c)) ps @ map (\<lambda>c. (IndexDir, fst c)) is @ map (\<lambda>c. (ManifestDir, fst c)) ms) \<and>
    (e \<noteq> None \<longrightarrow> (\<exists>x. del x))"
proof -
  obtain e1 s1 d1 where f1: "finish del opt PackDir ps (gr_Packs rep) = (e1, s1, d1)"
    by (cases "finish del opt PackDir ps (gr_Packs rep)")
  obtain e2 s2 d2 where f2: "finish del opt IndexDir is (gr_Indexes rep) = (e2, s2, d2)"
    by (cases "finish del opt IndexDir is (gr_Indexes rep)")
  obtain e3 s3 d3 where f3: "finish del opt ManifestDir ms (gr_Manifests rep) = (e3, s3, d3)"
    by (cases "finish del opt ManifestDir ms (gr_Manifests rep)")
  note f = f1 [unfolded finish_def] f2 [unfolded finish_def] f3 [unfolded finish_def]
  have r: "finish_all del opt ps is ms rep = (if e1 \<noteq> None then (e1, rep\<lparr>gr_Packs := s1\<rparr>, d1)
      else if e2 \<noteq> None then (e2, rep\<lparr>gr_Packs := s1, gr_Indexes := s2\<rparr>, d1 @ d2)
      else (e3, rep\<lparr>gr_Packs := s1, gr_Indexes := s2, gr_Manifests := s3\<rparr>, d1 @ d2 @ d3))"
    by (simp add: finish_all_def Let_def f1 f2 f3)
  have r: "e = (if e1 \<noteq> None then e1 else if e2 \<noteq> None then e2 else e3)"
    "asked = d1 @ (if e1 \<noteq> None then [] else d2 @ (if e2 \<noteq> None then [] else d3))"
    using assms r by (auto split: if_splits)
  have "set asked \<subseteq> set d1 \<union> set d2 \<union> set d3"
    unfolding r(2) by auto
  then have "set asked \<subseteq> (\<lambda>c. (PackDir, fst c)) ` set ps \<union> (\<lambda>c. (IndexDir, fst c)) ` set is \<union> (\<lambda>c. (ManifestDir, fst c)) ` set ms"
    by (rule order_trans [OF _ Un_mono [OF Un_mono [OF finish_sub [OF f(1)] finish_sub [OF f(2)]] finish_sub [OF f(3)]]])
  moreover have "asked \<noteq> [] \<longrightarrow> go_Delete opt"
    using f [THEN finish_on] unfolding r(2) by (auto split: if_splits)
  moreover have "go_Delete opt \<and> e = None \<longrightarrow>
       asked = map (\<lambda>c. (PackDir, fst c)) ps @ map (\<lambda>c. (IndexDir, fst c)) is @ map (\<lambda>c. (ManifestDir, fst c)) ms"
    using f [THEN finish_all_of] unfolding r by (auto split: if_splits)
  moreover have "e \<noteq> None \<longrightarrow> (\<exists>x. del x)"
    using f [THEN finish_err] unfolding r(1) by (auto split: if_splits)
  ultimately show ?thesis
    by blast
qed

text \<open>What goes to the deletes from one directory: condemned by the first look, not named by the second.\<close>

definition doomed :: "gc_env \<Rightarrow> gc_options \<Rightarrow> retained \<Rightarrow> retained \<Rightarrow> string \<Rightarrow> object_entry list \<Rightarrow> candidate list" where
  "doomed env opt r fresh dir es =
     candidates_of env dir (fst (rt_state r)) (cutoff_of opt r) (filter (\<lambda>e. oe_Name e \<notin> live_in dir (fst (rt_state fresh))) es)"

lemma scan_lists:
  assumes "listDir env PackDir = Inr es1" "listDir env IndexDir = Inr es2" "listDir env ManifestDir = Inr es3"
  shows "\<exists>sp'. scanPacks env (lv_packs l) cutoff sp = Inr (candidates_of env PackDir l cutoff es1, sp')"
    and "\<exists>sp'. scanHashNamed env IndexDir (lv_indexes l) cutoff sp = Inr (candidates_of env IndexDir l cutoff es2, sp')"
    and "\<exists>sp'. scanHashNamed env ManifestDir (lv_manifests l) cutoff sp = Inr (candidates_of env ManifestDir l cutoff es3, sp')"
proof -
  have dirs: "live_in IndexDir l = lv_indexes l" "live_in ManifestDir l = lv_manifests l"
    by (simp_all add: live_in_def dir_defs)
  obtain cs sp' where "scanPacks env (lv_packs l) cutoff sp = Inr (cs, sp')"
    using assms(1) by (simp add: scanPacks_def sift_def Let_def)
  then show "\<exists>sp'. scanPacks env (lv_packs l) cutoff sp = Inr (candidates_of env PackDir l cutoff es1, sp')"
    using scanPacks_candidates assms(1) by fastforce
  obtain cs sp' where "scanHashNamed env IndexDir (lv_indexes l) cutoff sp = Inr (cs, sp')"
    using assms(2) by (simp add: scanHashNamed_def sift_def Let_def)
  then show "\<exists>sp'. scanHashNamed env IndexDir (lv_indexes l) cutoff sp = Inr (candidates_of env IndexDir l cutoff es2, sp')"
    using scanHashNamed_candidates [of env IndexDir l] assms(2) dirs by fastforce
  obtain cs sp' where "scanHashNamed env ManifestDir (lv_manifests l) cutoff sp = Inr (cs, sp')"
    using assms(3) by (simp add: scanHashNamed_def sift_def Let_def)
  then show "\<exists>sp'. scanHashNamed env ManifestDir (lv_manifests l) cutoff sp = Inr (candidates_of env ManifestDir l cutoff es3, sp')"
    using scanHashNamed_candidates [of env ManifestDir l] assms(3) dirs by fastforce
qed

lemma GC_run:
  assumes "retainedSet env opt [] = Inr r" "retainedSet env2 opt (rt_cache r) = Inr fresh"
    and "listDir env PackDir = Inr es1" "listDir env IndexDir = Inr es2" "listDir env ManifestDir = Inr es3"
  shows "\<exists>e rep3 rep4 asked. GC env env2 del opt = (e, Some rep4, asked) \<and>
    finish_all del opt (doomed env opt r fresh PackDir es1) (doomed env opt r fresh IndexDir es2)
      (doomed env opt r fresh ManifestDir es3) rep3 = (e, rep4, asked)"
proof -
  note s = scan_lists [OF assms(3-5), of "fst (rt_state r)" "cutoff_of opt r"]
  have dirs: "live_in PackDir l = lv_packs l" "live_in IndexDir l = lv_indexes l" "live_in ManifestDir l = lv_manifests l" for l
    by (simp_all add: live_in_def dir_defs)
  note drops = dropRetained_candidates [where ?dir = PackDir, unfolded dirs] dropRetained_candidates [where ?dir = IndexDir, unfolded dirs]
    dropRetained_candidates [where ?dir = ManifestDir, unfolded dirs]
  let ?rep = "first_report opt r"
  obtain sp1 where s1: "scanPacks env (lv_packs (fst (rt_state r))) (cutoff_of opt r) (gr_Packs ?rep) =
      Inr (candidates_of env PackDir (fst (rt_state r)) (cutoff_of opt r) es1, sp1)"
    using s(1) by blast
  obtain sp2 where s2: "scanHashNamed env IndexDir (lv_indexes (fst (rt_state r))) (cutoff_of opt r) (gr_Indexes ?rep) =
      Inr (candidates_of env IndexDir (fst (rt_state r)) (cutoff_of opt r) es2, sp2)"
    using s(2) by blast
  obtain sp3 where s3: "scanHashNamed env ManifestDir (lv_manifests (fst (rt_state r))) (cutoff_of opt r) (gr_Manifests ?rep) =
      Inr (candidates_of env ManifestDir (fst (rt_state r)) (cutoff_of opt r) es3, sp3)"
    using s(3) by blast
  let ?rep3 = "?rep\<lparr>gr_Packs := sp1, gr_Indexes := sp2, gr_Manifests := sp3\<rparr>"
  let ?fin = "finish_all del opt (doomed env opt r fresh PackDir es1) (doomed env opt r fresh IndexDir es2)
      (doomed env opt r fresh ManifestDir es3) ?rep3"
  have none: "doomed env opt r fresh dir es = []" if "candidates_of env dir (fst (rt_state r)) (cutoff_of opt r) es = []" for dir es
    using that by (auto simp: doomed_def candidates_of_def filter_empty_conv)
  have "GC env env2 del opt = (case ?fin of (e, rep4, asked) \<Rightarrow> (e, Some rep4, asked))"
    using assms(1,2) s1 s2 s3 none by (simp add: GC_def Let_def drops) (simp add: doomed_def dirs)
  then show ?thesis
    by (cases ?fin) auto
qed

lemma GC_asked:
  assumes "GC env env2 del opt = (e, rep, asked)" "asked \<noteq> []"
  shows "\<exists>r fresh es1 es2 es3. retainedSet env opt [] = Inr r \<and> retainedSet env2 opt (rt_cache r) = Inr fresh \<and>
    listDir env PackDir = Inr es1 \<and> listDir env IndexDir = Inr es2 \<and> listDir env ManifestDir = Inr es3"
proof -
  obtain r where r: "retainedSet env opt [] = Inr r"
    using assms by (auto simp: GC_def split: sum.splits)
  obtain packs sp1 where s1: "scanPacks env (lv_packs (fst (rt_state r))) (cutoff_of opt r) (gr_Packs (first_report opt r)) = Inr (packs, sp1)"
    using assms r by (auto simp: GC_def Let_def split: sum.splits prod.splits)
  obtain ixs sp2 where s2: "scanHashNamed env IndexDir (lv_indexes (fst (rt_state r))) (cutoff_of opt r)
      (gr_Indexes (first_report opt r)) = Inr (ixs, sp2)"
    using assms r s1 by (auto simp: GC_def Let_def split: sum.splits prod.splits)
  obtain mans sp3 where s3: "scanHashNamed env ManifestDir (lv_manifests (fst (rt_state r))) (cutoff_of opt r)
      (gr_Manifests (first_report opt r)) = Inr (mans, sp3)"
    using assms r s1 s2 by (auto simp: GC_def Let_def split: sum.splits prod.splits)
  have "packs \<noteq> [] \<or> ixs \<noteq> [] \<or> mans \<noteq> []"
  proof (rule ccontr)
    assume "\<not> ?thesis"
    then have "asked = []"
      using assms(1) r s1 s2 s3 by (auto simp: GC_def Let_def finish_all_def finish_def)
    then show False
      using assms(2) by simp
  qed
  then obtain fresh where "retainedSet env2 opt (rt_cache r) = Inr fresh"
    using assms r s1 s2 s3 by (cases "retainedSet env2 opt (rt_cache r)") (auto simp: GC_def Let_def)
  moreover obtain es1 where "listDir env PackDir = Inr es1"
    using scanPacks_candidates [OF s1] by blast
  moreover obtain es2 where "listDir env IndexDir = Inr es2"
    using s2 by (auto simp: scanHashNamed_def split: sum.splits)
  moreover obtain es3 where "listDir env ManifestDir = Inr es3"
    using s3 by (auto simp: scanHashNamed_def split: sum.splits)
  ultimately show ?thesis
    using r by blast
qed

lemma doomed_mem:
  "c \<in> set (doomed env opt r fresh dir es) \<longleftrightarrow>
     (\<exists>x \<in> set es. c = (oe_Name x, oe_Size x) \<and> condemnable env dir (fst (rt_state r)) (cutoff_of opt r) x \<and>
        oe_Name x \<notin> live_in dir (fst (rt_state fresh)))"
  by (auto simp: doomed_def candidates_of_def)

text \<open>What is known of one asked delete.\<close>

lemma GC_deleted:
  assumes "GC env env2 del opt = (e, rep, asked)" "(dir, name) \<in> set asked"
  shows "\<exists>r fresh es x. go_Delete opt \<and> retainedSet env opt [] = Inr r \<and> retainedSet env2 opt (rt_cache r) = Inr fresh \<and>
    listDir env dir = Inr es \<and> x \<in> set es \<and> oe_Name x = name \<and>
    condemnable env dir (fst (rt_state r)) (cutoff_of opt r) x \<and> name \<notin> live_in dir (fst (rt_state fresh))"
proof -
  have ne: "asked \<noteq> []"
    using assms(2) by auto
  obtain r fresh es1 es2 es3 where l: "retainedSet env opt [] = Inr r" "retainedSet env2 opt (rt_cache r) = Inr fresh"
    "listDir env PackDir = Inr es1" "listDir env IndexDir = Inr es2" "listDir env ManifestDir = Inr es3"
    using GC_asked [OF assms(1) ne] by blast
  obtain rep3 rep4 where f: "finish_all del opt (doomed env opt r fresh PackDir es1) (doomed env opt r fresh IndexDir es2)
      (doomed env opt r fresh ManifestDir es3) rep3 = (e, rep4, asked)"
    using GC_run [OF l, of del] assms(1) by auto
  note a = finish_all_asked [OF f]
  have "\<exists>es. listDir env dir = Inr es \<and> (\<exists>c \<in> set (doomed env opt r fresh dir es). fst c = name)"
    using subsetD [OF conjunct1 [OF a] assms(2)] l(3-5) by auto
  then obtain es x where "listDir env dir = Inr es" "x \<in> set es" "oe_Name x = name"
    "condemnable env dir (fst (rt_state r)) (cutoff_of opt r) x" "name \<notin> live_in dir (fst (rt_state fresh))"
    by (auto simp: doomed_mem)
  moreover have "go_Delete opt"
    using a ne by blast
  ultimately show ?thesis
    using l(1,2) by blast
qed

text \<open>
  What a look promises of a name, in terms of the documents alone: every branch head, every
  document of every branch's window and every tag was read, and none of them names it.
\<close>

definition unnamed_by :: "gc_env \<Rightarrow> int \<Rightarrow> int \<Rightarrow> string \<Rightarrow> string \<Rightarrow> superblock \<Rightarrow> bool" where
  "unnamed_by env now since dir name sb \<longleftrightarrow> (\<exists>l. holds env now since sb = Inr l \<and> name \<notin> live_in dir l)"

definition branch_unnamed :: "gc_env \<Rightarrow> gc_options \<Rightarrow> window_cache \<Rightarrow> window_cache \<Rightarrow> nat \<Rightarrow> string \<Rightarrow> string \<Rightarrow> string \<Rightarrow> bool" where
  "branch_unnamed env opt old new n dir name b \<longleftrightarrow>
     (\<exists>sb roots rep. ge_fetch env b = Inr sb \<and> map_of new b = Some (roots, rep) \<and>
        (map_of old b = Some (roots, rep) \<or> map_of old b = None \<and> windowRoots env opt b sb n = Inr (roots, rep)) \<and>
        unnamed_by env (go_Now opt) (windowFloor roots) dir name sb \<and>
        (\<forall>v \<in> set roots. unnamed_by env (go_Now opt) (windowFloor roots) dir name v \<or>
           (\<exists>e. holds env (go_Now opt) (windowFloor roots) v = Inl e \<and> isAbsent e)))"

definition volume_unnamed :: "gc_env \<Rightarrow> gc_options \<Rightarrow> window_cache \<Rightarrow> window_cache \<Rightarrow> string \<Rightarrow> string \<Rightarrow> bool" where
  "volume_unnamed env opt old new dir name \<longleftrightarrow>
     (\<exists>bs ts. listNames env RefDirKey = Inr bs \<and> listNames env TagDirKey = Inr ts \<and> bs @ ts \<noteq> [] \<and>
        (\<forall>b \<in> set bs. branch_unnamed env opt old new (length bs) dir name b) \<and>
        (\<forall>t \<in> set ts. \<exists>sb. ge_tag env t = Inr sb \<and> unnamed_by env (go_Now opt) 0 dir name sb))"

lemma live_in_mono: "live_le a b \<Longrightarrow> live_in dir a \<subseteq> live_in dir b"
  by (simp add: live_in_def live_le_def)

lemma root_unnamed: "root_in env now since sb st \<Longrightarrow> name \<notin> live_in dir (fst st) \<Longrightarrow> unnamed_by env now since dir name sb"
  unfolding root_in_def unnamed_by_def using live_in_mono by blast

lemma branch_in_unnamed:
  assumes "branch_in env opt n old new st b" "name \<notin> live_in dir (fst st)"
  shows "branch_unnamed env opt old new n dir name b"
proof -
  obtain sb roots rep where b: "ge_fetch env b = Inr sb" "map_of new b = Some (roots, rep)"
    "map_of old b = Some (roots, rep) \<or> map_of old b = None \<and> windowRoots env opt b sb n = Inr (roots, rep)"
    "root_in env (go_Now opt) (windowFloor roots) sb st" "\<forall>v \<in> set roots. window_in env (go_Now opt) (windowFloor roots) v st"
    using assms(1) unfolding branch_in_def by blast
  have "unnamed_by env (go_Now opt) (windowFloor roots) dir name v \<or>
      (\<exists>e. holds env (go_Now opt) (windowFloor roots) v = Inl e \<and> isAbsent e)" if "v \<in> set roots" for v
    using bspec [OF b(5) that] root_unnamed [OF _ assms(2)] unfolding window_in_def by (auto split: sum.splits)
  then show ?thesis
    using b root_unnamed [OF b(4) assms(2)] unfolding branch_unnamed_def by blast
qed

lemma retainedSet_unnamed:
  assumes "retainedSet env opt c = Inr r" "name \<notin> live_in dir (fst (rt_state r))"
  shows "volume_unnamed env opt c (rt_cache r) dir name"
proof -
  obtain bs ts where w: "whole_in env opt c r bs ts"
    using retainedSet_whole [OF assms(1)] by blast
  have "branch_unnamed env opt c (rt_cache r) (length bs) dir name b" if "b \<in> set bs" for b
    using w that branch_in_unnamed [OF _ assms(2)] unfolding whole_in_def by blast
  moreover have "\<exists>sb. ge_tag env t = Inr sb \<and> unnamed_by env (go_Now opt) 0 dir name sb" if "t \<in> set ts" for t
    using w that root_unnamed [OF _ assms(2)] unfolding whole_in_def by blast
  ultimately show ?thesis
    using w unfolding whole_in_def volume_unnamed_def by blast
qed

text \<open>Nothing else gets into the live set.\<close>

lemma absorb_unnamed:
  assumes "absorb env now since sb st = Inr st'" "name \<notin> live_in dir (fst st)" "unnamed_by env now since dir name sb"
  shows "name \<notin> live_in dir (fst st')"
  using assms by (auto simp: absorb_def unnamed_by_def live_in_def live_union_def split: sum.splits)

lemma absorb_window_unnamed:
  assumes "absorb_window env now since b sbs (lk, st) = Inr (lk', st')" "name \<notin> live_in dir (fst st)"
    and "\<forall>v \<in> set sbs. unnamed_by env now since dir name v \<or> (\<exists>e. holds env now since v = Inl e \<and> isAbsent e)"
  shows "name \<notin> live_in dir (fst st')"
  using assms
proof (induction sbs arbitrary: lk st)
  case (Cons sb sbs)
  show ?case
  proof (cases "absorb env now since sb st")
    case (Inl e)
    then show ?thesis
      using Cons.prems Cons.IH [of _ st] by (simp split: if_splits)
  next
    case (Inr st1)
    then have "unnamed_by env now since dir name sb"
      using Cons.prems(3) by (auto simp: absorb_def split: sum.splits)
    then show ?thesis
      using Inr Cons.prems Cons.IH [of lk st1] absorb_unnamed [OF Inr] by simp
  qed
qed simp

lemma absorb_branches_unnamed:
  assumes "absorb_branches env opt n bs r = Inr r'" "name \<notin> live_in dir (fst (rt_state r))"
    and "\<forall>b \<in> set bs. \<exists>old. branch_unnamed env opt old (rt_cache r') n dir name b"
  shows "name \<notin> live_in dir (fst (rt_state r'))"
  using assms
proof (induction bs arbitrary: r)
  case (Cons b bs)
  obtain sb where sb: "ge_fetch env b = Inr sb"
    using Cons.prems by (auto split: sum.splits)
  obtain roots rep cache where c: "cache_get env opt b sb n (rt_cache r) = Inr ((roots, rep), cache)"
    using Cons.prems sb by (auto split: sum.splits prod.splits)
  obtain st where st: "absorb env (go_Now opt) (windowFloor roots) sb (rt_state r) = Inr st"
    using Cons.prems sb c by (auto simp: Let_def split: sum.splits)
  obtain lk st' where w: "absorb_window env (go_Now opt) (windowFloor roots) b roots (clone rep b, st) = Inr (lk, st')"
    using Cons.prems sb c st by (auto simp: Let_def split: sum.splits prod.splits)
  let ?r1 = "r\<lparr>rt_state := st', rt_branches := rt_branches r + 1, rt_cache := cache,
    rt_windows := rt_windows r @ [lk\<lparr>lk_Unresolved := rev (sort (lk_Unresolved lk))\<rparr>]\<rparr>"
  have rest: "absorb_branches env opt n bs ?r1 = Inr r'"
    using Cons.prems sb c st w by (simp add: Let_def)
  have "map_of cache b = Some (roots, rep)"
    using cache_get_grows [OF c sb] by simp
  moreover have "map_of cache \<subseteq>\<^sub>m map_of (rt_cache r')"
    using absorb_branches_roots [OF rest] by (simp add: steps_to_def cache_grows_def)
  ultimately have "map_of (rt_cache r') b = Some (roots, rep)"
    unfolding map_le_def by (metis domI)
  then have u: "unnamed_by env (go_Now opt) (windowFloor roots) dir name sb"
    "\<forall>v \<in> set roots. unnamed_by env (go_Now opt) (windowFloor roots) dir name v \<or>
       (\<exists>e. holds env (go_Now opt) (windowFloor roots) v = Inl e \<and> isAbsent e)"
    using Cons.prems(3) sb by (auto simp: branch_unnamed_def)
  have "name \<notin> live_in dir (fst st')"
    using absorb_window_unnamed [OF w absorb_unnamed [OF st Cons.prems(2) u(1)] u(2)] .
  then show ?case
    using Cons.IH [OF rest] Cons.prems(3) by simp
qed simp

lemma absorb_tags_unnamed:
  assumes "absorb_tags env opt ts r = Inr r'" "name \<notin> live_in dir (fst (rt_state r))"
    and "\<forall>t \<in> set ts. \<exists>sb. ge_tag env t = Inr sb \<and> unnamed_by env (go_Now opt) 0 dir name sb"
  shows "name \<notin> live_in dir (fst (rt_state r'))"
  using assms
proof (induction ts arbitrary: r)
  case (Cons t ts)
  obtain sb where sb: "ge_tag env t = Inr sb" "unnamed_by env (go_Now opt) 0 dir name sb"
    using Cons.prems(3) by auto
  obtain st where st: "absorb env (go_Now opt) 0 sb (rt_state r) = Inr st"
    using Cons.prems(1) sb by (auto split: sum.splits)
  show ?case
    using Cons.IH [of "r\<lparr>rt_state := st, rt_tags := rt_tags r + 1\<rparr>"] Cons.prems sb st absorb_unnamed [OF st Cons.prems(2) sb(2)]
    by simp
qed simp

lemma retainedSet_unnamed_iff:
  assumes "retainedSet env opt c = Inr r"
  shows "name \<notin> live_in dir (fst (rt_state r)) \<longleftrightarrow> volume_unnamed env opt c (rt_cache r) dir name"
proof
  assume v: "volume_unnamed env opt c (rt_cache r) dir name"
  let ?start = "\<lparr>rt_state = (no_live, 0), rt_branches = 0, rt_tags = 0, rt_windows = [], rt_cache = c\<rparr>"
  obtain bs r1 ts r2 where r1: "listNames env RefDirKey = Inr bs" "absorb_branches env opt (length bs) bs ?start = Inr r1"
    and r2: "listNames env TagDirKey = Inr ts" "absorb_tags env opt ts r1 = Inr r2"
    and r: "fst (rt_state r) = fst (rt_state r2)" "rt_cache r = rt_cache r2"
    using assms by (auto simp: retainedSet_def split: sum.splits if_splits)
  have cache: "rt_cache r1 = rt_cache r"
    using absorb_tags_roots [OF r2(2)] r(2) by simp
  have "name \<notin> live_in dir (fst (rt_state r1))"
  proof (rule absorb_branches_unnamed [OF r1(2)])
    show "name \<notin> live_in dir (fst (rt_state ?start))"
      by (simp add: live_in_def no_live_def)
    show "\<forall>b \<in> set bs. \<exists>old. branch_unnamed env opt old (rt_cache r1) (length bs) dir name b"
      using v r1(1) unfolding volume_unnamed_def cache by auto
  qed
  then show "name \<notin> live_in dir (fst (rt_state r))"
    using absorb_tags_unnamed [OF r2(2)] v r2(1) r(1) unfolding volume_unnamed_def by auto
qed (rule retainedSet_unnamed [OF assms])

text \<open>
  C20: a sweep deletes nothing that anything reachable names. Every object it asks to delete
  was asked for with the delete option on, after two looks at the volume: in each, every
  listed branch head, every document of every branch's retain window and every tag was
  fetched, verified and resolved, and none names the object, not in its pack list, indexes or
  manifests nor among its ledger rows still within their window. Only a window document
  whose objects are reported absent is passed over. The second look reuses the windows the
  first established.
\<close>

theorem gc_keeps_what_is_named:
  assumes "GC env env2 del opt = (e, rep, asked)" "(dir, name) \<in> set asked"
  shows "go_Delete opt \<and> (\<exists>c c2. volume_unnamed env opt [] c dir name \<and> volume_unnamed env2 opt c c2 dir name)"
proof -
  obtain r fresh es x where "go_Delete opt" "retainedSet env opt [] = Inr r" "retainedSet env2 opt (rt_cache r) = Inr fresh"
    "oe_Name x = name" "condemnable env dir (fst (rt_state r)) (cutoff_of opt r) x" "name \<notin> live_in dir (fst (rt_state fresh))"
    using GC_deleted [OF assms] by blast
  then show ?thesis
    using retainedSet_unnamed unfolding condemnable_def by blast
qed

text \<open>
  C21: a sweep deletes nothing young. Every object it asks to delete is a listed one whose own
  time, the stamp in a pack's name or when an index or manifest was written, lies at least the
  requested grace before now, and at least the grace that any branch head or tag states.
\<close>

theorem gc_spares_the_young:
  assumes "GC env env2 del opt = (e, rep, asked)" "(dir, name) \<in> set asked"
  shows "\<exists>es x t. listDir env dir = Inr es \<and> x \<in> set es \<and> oe_Name x = name \<and> aged_at env dir x = Some t \<and>
    t + go_Grace opt \<le> go_Now opt \<and>
    (\<forall>bs b sb. listNames env RefDirKey = Inr bs \<and> b \<in> set bs \<and> ge_fetch env b = Inr sb \<longrightarrow> t + grace_of sb \<le> go_Now opt) \<and>
    (\<forall>ts n sb. listNames env TagDirKey = Inr ts \<and> n \<in> set ts \<and> ge_tag env n = Inr sb \<longrightarrow> t + grace_of sb \<le> go_Now opt)"
proof -
  obtain r es x where r: "retainedSet env opt [] = Inr r" and x: "listDir env dir = Inr es" "x \<in> set es" "oe_Name x = name"
    "condemnable env dir (fst (rt_state r)) (cutoff_of opt r) x"
    using GC_deleted [OF assms] by blast
  obtain t where t: "aged_at env dir x = Some t" "t \<le> cutoff_of opt r"
    using x(4) unfolding condemnable_def by blast
  have bound: "t + go_Grace opt \<le> go_Now opt" "t + snd (rt_state r) \<le> go_Now opt"
    using t(2) by (auto simp: cutoff_of_def sweep_grace_def split: if_splits)
  obtain bs ts where w: "whole_in env opt [] r bs ts"
    using retainedSet_whole [OF r] by blast
  have "t + grace_of sb \<le> go_Now opt" if "b \<in> set bs" "ge_fetch env b = Inr sb" for b sb
    using w that bound(2) unfolding whole_in_def branch_in_def root_in_def by fastforce
  moreover have "t + grace_of sb \<le> go_Now opt" if "n \<in> set ts" "ge_tag env n = Inr sb" for n sb
    using w that bound(2) unfolding whole_in_def root_in_def by fastforce
  moreover have "listNames env RefDirKey = Inr bs" "listNames env TagDirKey = Inr ts"
    using w unfolding whole_in_def by blast+
  ultimately show ?thesis
    using x(1-3) t(1) bound(1) by (intro exI [of _ es] exI [of _ x] exI [of _ t]) auto
qed

text \<open>
  C22: a sweep reclaims garbage. When both looks succeed, the directories list and no delete
  fails, a sweep with the delete option on ends without an error, and what it has asked to
  delete is exactly the listed objects of the three spaces that are old enough and that no
  branch head, window document or tag names in either look.
\<close>

theorem gc_reclaims_garbage:
  assumes "retainedSet env opt [] = Inr r" "retainedSet env2 opt (rt_cache r) = Inr fresh"
    and "listDir env PackDir = Inr es1" "listDir env IndexDir = Inr es2" "listDir env ManifestDir = Inr es3"
    and "go_Delete opt" "\<forall>x. \<not> del x"
  shows "\<exists>rep asked. GC env env2 del opt = (None, Some rep, asked) \<and>
    (\<forall>dir name. (dir, name) \<in> set asked \<longleftrightarrow>
       (\<exists>es x t. (dir, es) \<in> {(PackDir, es1), (IndexDir, es2), (ManifestDir, es3)} \<and> x \<in> set es \<and> oe_Name x = name \<and>
          aged_at env dir x = Some t \<and> t \<le> go_Now opt - sweep_grace opt r \<and>
          volume_unnamed env opt [] (rt_cache r) dir name \<and> volume_unnamed env2 opt (rt_cache r) (rt_cache fresh) dir name))"
proof -
  obtain e rep3 rep4 asked where g: "GC env env2 del opt = (e, Some rep4, asked)"
    and f: "finish_all del opt (doomed env opt r fresh PackDir es1) (doomed env opt r fresh IndexDir es2)
      (doomed env opt r fresh ManifestDir es3) rep3 = (e, rep4, asked)"
    using GC_run [OF assms(1-5), of del] by blast
  note a = finish_all_asked [OF f]
  have e: "e = None"
    using a assms(7) by blast
  then have asked: "set asked = (\<lambda>c. (PackDir, fst c)) ` set (doomed env opt r fresh PackDir es1) \<union>
      (\<lambda>c. (IndexDir, fst c)) ` set (doomed env opt r fresh IndexDir es2) \<union>
      (\<lambda>c. (ManifestDir, fst c)) ` set (doomed env opt r fresh ManifestDir es3)"
    using a assms(6) by (auto simp: image_Un)
  have mem: "(dir, name) \<in> (\<lambda>c. (d, fst c)) ` set (doomed env opt r fresh d es) \<longleftrightarrow>
      dir = d \<and> (\<exists>sz. (name, sz) \<in> set (doomed env opt r fresh d es))" for dir name d es
    by force
  have one: "(dir, name) \<in> (\<lambda>c. (d, fst c)) ` set (doomed env opt r fresh d es) \<longleftrightarrow> dir = d \<and>
      (\<exists>x t. x \<in> set es \<and> oe_Name x = name \<and> aged_at env dir x = Some t \<and> t \<le> go_Now opt - sweep_grace opt r \<and>
          volume_unnamed env opt [] (rt_cache r) dir name \<and> volume_unnamed env2 opt (rt_cache r) (rt_cache fresh) dir name)"
    for dir name d es
    unfolding mem retainedSet_unnamed_iff [OF assms(1), symmetric] retainedSet_unnamed_iff [OF assms(2), symmetric]
    by (auto simp: doomed_mem condemnable_def cutoff_of_def)
  have "(dir, name) \<in> set asked \<longleftrightarrow>
       (\<exists>es x t. (dir, es) \<in> {(PackDir, es1), (IndexDir, es2), (ManifestDir, es3)} \<and> x \<in> set es \<and> oe_Name x = name \<and>
          aged_at env dir x = Some t \<and> t \<le> go_Now opt - sweep_grace opt r \<and>
          volume_unnamed env opt [] (rt_cache r) dir name \<and> volume_unnamed env2 opt (rt_cache r) (rt_cache fresh) dir name)"
    for dir name
    unfolding asked Un_iff one by blast
  then show ?thesis
    using g e by blast
qed

lemma resolve_packs_told:
  assumes "Manifests sb \<noteq> []" "ge_segments env sb = Inl m"
  shows "\<exists>pre post. resolve_packs env sb = Inl (pre @ decimal (unat (Generation sb)) @ post)"
  unfolding resolve_packs_def assms(2) if_not_P [OF assms(1)] sum.case by (intro exI) (rule refl)

text \<open>
  a window document whose own number contains the digits 404 is read as absent whatever
  went wrong. When the pack list of such a generation is in manifests and they cannot be read,
  for any reason the origin gives, a time-out or a refusal as well as a missing object, the
  sweep does not fail closed: the test looks for \<open>404\<close> anywhere in a message that states
  the generation's number. It goes on without the document, and what it alone names is not
  kept.
\<close>

theorem window_document_lost_by_its_number:
  assumes "contains (decimal (unat (Generation sb))) ''404''" "Manifests sb \<noteq> []" "ge_segments env sb = Inl m"
  shows "absorb_window env now since b (sb # sbs) (lk, st) =
    absorb_window env now since b sbs (lk\<lparr>lk_Generations := lk_Generations lk - 1,
      lk_Unresolved := lk_Unresolved lk @ [Generation sb - 1]\<rparr>, st)"
proof -
  have "sublist ''404'' (pre @ decimal (unat (Generation sb)) @ post)" for pre post
    using assms(1) sublist_order.order_trans [OF _ sublist_appendI] unfolding contains_def by blast
  then have "isAbsent (Told (pre @ decimal (unat (Generation sb)) @ post))" for pre post
    unfolding isAbsent_def contains_def by simp
  moreover obtain pre post where "resolve_packs env sb = Inl (pre @ decimal (unat (Generation sb)) @ post)"
    using resolve_packs_told [OF assms(2,3)] by blast
  ultimately have "isAbsent e" if "absorb env now since sb st = Inl e" for e
    using that by (auto simp: absorb_def holds_def)
  moreover have "\<exists>e. absorb env now since sb st = Inl e"
    using assms(2,3) by (simp add: absorb_def holds_def resolve_packs_def)
  ultimately show ?thesis
    by auto
qed

section \<open>Witnesses\<close>

lemma ex_sweep:
  "\<exists>rep. GC ex_gc_env ex_gc_env (\<lambda>_. False) ex_gc_options = (None, rep, [(PackDir, ex_pack CHR ''3'')])"
proof -
  have "(case GC ex_gc_env ex_gc_env (\<lambda>_. False) ex_gc_options of
      (e, r, a) \<Rightarrow> e = None \<and> a = [(PackDir, ex_pack CHR ''3'')])"
    by code_simp
  then show ?thesis
    by auto
qed

theorem gc_keeps_what_is_named_witness:
  "\<exists>c c2. volume_unnamed ex_gc_env ex_gc_options [] c PackDir (ex_pack CHR ''3'') \<and>
     volume_unnamed ex_gc_env ex_gc_options c c2 PackDir (ex_pack CHR ''3'')"
proof -
  obtain rep where "GC ex_gc_env ex_gc_env (\<lambda>_. False) ex_gc_options = (None, rep, [(PackDir, ex_pack CHR ''3'')])"
    using ex_sweep by blast
  from gc_keeps_what_is_named [OF this] show ?thesis
    by simp
qed

theorem gc_spares_the_young_witness:
  "\<exists>es x t. listDir ex_gc_env PackDir = Inr es \<and> x \<in> set es \<and> aged_at ex_gc_env PackDir x = Some t \<and>
     t + grace_of ex_head \<le> 10 ^ 18"
proof -
  obtain rep where "GC ex_gc_env ex_gc_env (\<lambda>_. False) ex_gc_options = (None, rep, [(PackDir, ex_pack CHR ''3'')])"
    using ex_sweep by blast
  moreover have "listNames ex_gc_env RefDirKey = Inr [''main'']" "ge_fetch ex_gc_env ''main'' = Inr ex_head"
    by code_simp+
  ultimately show ?thesis
    using gc_spares_the_young [of ex_gc_env ex_gc_env "\<lambda>_. False" ex_gc_options None rep _ PackDir "ex_pack CHR ''3''"]
    by (fastforce simp: ex_gc_options_def)
qed

theorem gc_reclaims_garbage_witness:
  "\<exists>rep asked. GC ex_gc_env ex_gc_env (\<lambda>_. False) ex_gc_options = (None, Some rep, asked)"
proof -
  have "(case retainedSet ex_gc_env ex_gc_options [] of
      Inr r \<Rightarrow> (case retainedSet ex_gc_env ex_gc_options (rt_cache r) of Inr _ \<Rightarrow> True | _ \<Rightarrow> False) | _ \<Rightarrow> False)"
    by code_simp
  then obtain r fresh where r: "retainedSet ex_gc_env ex_gc_options [] = Inr r"
    "retainedSet ex_gc_env ex_gc_options (rt_cache r) = Inr fresh"
    by (auto split: sum.splits)
  have d: "listDir ex_gc_env PackDir = Inr (map (\<lambda>c. ex_entry (ex_pack c)) ''123'')" "listDir ex_gc_env IndexDir = Inr []"
    "listDir ex_gc_env ManifestDir = Inr []"
    by code_simp+
  show ?thesis
    using gc_reclaims_garbage [OF r d, of "\<lambda>_. False"] by (auto simp: ex_gc_options_def)
qed

definition ex_lost :: superblock where
  "ex_lost = ex_superblock\<lparr>Generation := 404, Manifests := [\<lparr>mf_Name = [], mf_Hash = [], mf_Size = 0, mf_Packs = 0\<rparr>]\<rparr>"

theorem window_document_lost_by_its_number_witness:
  "absorb_window ex_gc_env 0 0 ''main'' [ex_lost] (empty_last_k, (no_live, 0)) =
     Inr (empty_last_k\<lparr>lk_Generations := - 1, lk_Unresolved := [403]\<rparr>, (no_live, 0))"
proof -
  have "contains (decimal (unat (Generation ex_lost))) ''404''"
    unfolding contains_def sublist_code by code_simp
  then show ?thesis
    using window_document_lost_by_its_number [of ex_lost ex_gc_env "''timeout''" 0 0 "''main''" "[]" empty_last_k "(no_live, 0)"]
    by (simp add: ex_lost_def ex_gc_env_def empty_last_k_def)
qed

end
