(* ===== verification/Key_Files.thy ===== *)
theory Key_Files
  imports Pinned_Refs
begin

text \<open>
  The signing keys of a state directory, \<open>internal/rotate/keystate.go\<close> with \<open>Mint\<close> and \<open>Retire\<close> of
  \<open>mode.go\<close>: the live key, the pending successor and the archive of retired keys. The directory
  is a map from names to files with their contents and whether they may be written; what
  fails is an argument. A crash is a failure of the call it hits, so what is proved for
  every failure holds at every crash. The process is taken not to run as root.
\<close>

section \<open>The directory\<close>

datatype key_path = LiveKey | PendingKey | RetiredKey string | KeyTmp key_path

record key_file =
  kf_data :: bytes
  kf_writable :: bool

type_synonym key_files = "key_path \<Rightarrow> key_file option"

text \<open>
  Which reads fail; what a failing write leaves, nothing changed or a file with other
  contents; which renames and removals fail.
\<close>

record key_disk =
  kd_read_fails :: "key_path \<Rightarrow> bool"
  kd_torn :: "key_path \<Rightarrow> bytes option option"
  kd_rename_fails :: "key_path \<Rightarrow> bool"
  kd_remove_fails :: "key_path \<Rightarrow> bool"

datatype key_error = ErrNoKey | KeyIO | CorruptKey | NoPendingKey | ArchiveFailed | KeyExists

definition PrivateKeyLen :: nat where "PrivateKeyLen = 64"

definition parse_key :: "bytes \<Rightarrow> bytes option" where
  "parse_key b =
     (case hex_decode (bytes_str (TrimSpace b)) of
        None \<Rightarrow> None
      | Some k \<Rightarrow> (if length k \<noteq> PrivateKeyLen then None else Some k))"

definition readKey :: "key_disk \<Rightarrow> key_files \<Rightarrow> key_path \<Rightarrow> key_error + bytes" where
  "readKey d ks p =
     (if kd_read_fails d p then Inl KeyIO
      else case ks p of
        None \<Rightarrow> Inl ErrNoKey
      | Some f \<Rightarrow> (case parse_key (kf_data f) of None \<Rightarrow> Inl CorruptKey | Some k \<Rightarrow> Inr k))"

definition Live :: "key_disk \<Rightarrow> key_files \<Rightarrow> key_error + bytes" where
  "Live d ks = readKey d ks LiveKey"

definition Pending :: "key_disk \<Rightarrow> key_files \<Rightarrow> key_error + bytes option" where
  "Pending d ks =
     (case readKey d ks PendingKey of
        Inl e \<Rightarrow> (if e = ErrNoKey then Inr None else Inl e)
      | Inr k \<Rightarrow> Inr (Some k))"

text \<open>The contents of a key file.\<close>

definition key_line :: "bytes \<Rightarrow> bytes" where
  "key_line k = str_bytes (hex_encode k @ [CHR 0x0A])"

definition PublicOf :: "scheme \<Rightarrow> bytes \<Rightarrow> string" where
  "PublicOf sc priv = hex_encode (ed_public sc priv)"

definition matches :: "scheme \<Rightarrow> bytes \<Rightarrow> bytes \<Rightarrow> bool" where
  "matches sc priv pub \<longleftrightarrow> PublicOf sc priv = hex_encode pub"

definition retiredPath :: "scheme \<Rightarrow> bytes \<Rightarrow> key_path" where
  "retiredPath sc priv = RetiredKey (hex_encode (take 4 (ed_public sc priv)))"

section \<open>Writing keys\<close>

text \<open>
  The mint: the key generated, absent when generating fails; \<open>raced\<close> is what another process
  does between the look and the exclusive create.
\<close>

definition MintPending :: "key_disk \<Rightarrow> bytes option \<Rightarrow> (key_files \<Rightarrow> key_files) \<Rightarrow> key_files \<Rightarrow> (key_error + bytes option) \<times> key_files" where
  "MintPending d gen raced ks =
     (case Pending d ks of
        Inl e \<Rightarrow> (Inl e, ks)
      | Inr (Some k) \<Rightarrow> (Inr (Some k), ks)
      | Inr None \<Rightarrow>
          (case gen of
             None \<Rightarrow> (Inl KeyIO, ks)
           | Some priv \<Rightarrow>
               (let ks1 = raced ks in
                if ks1 PendingKey \<noteq> None then (Pending d ks1, ks1)
                else case kd_torn d PendingKey of
                  Some left \<Rightarrow> (Inl KeyIO, ks1(PendingKey := map_option (\<lambda>b. \<lparr>kf_data = b, kf_writable = True\<rparr>) left))
                | None \<Rightarrow> (Inr (Some priv), ks1(PendingKey \<mapsto> \<lparr>kf_data = key_line priv, kf_writable = True\<rparr>)))))"

text \<open>
  \<open>writeFileMode\<close>: a file that is there keeps its mode, and one that may not be written is not
  opened. The temporary file stays when its removal fails.
\<close>

definition writeFileMode :: "key_disk \<Rightarrow> key_path \<Rightarrow> bytes \<Rightarrow> bool \<Rightarrow> key_files \<Rightarrow> bool \<times> key_files" where
  "writeFileMode d p data writable ks =
     (let tmp = KeyTmp p; mode = (case ks tmp of None \<Rightarrow> writable | Some f \<Rightarrow> kf_writable f) in
      if (case ks tmp of None \<Rightarrow> False | Some f \<Rightarrow> \<not> kf_writable f) then (False, ks)
      else case kd_torn d tmp of
        Some None \<Rightarrow> (False, ks)
      | Some (Some b) \<Rightarrow> (False, ks(tmp \<mapsto> \<lparr>kf_data = b, kf_writable = mode\<rparr>))
      | None \<Rightarrow>
          (let f = \<lparr>kf_data = data, kf_writable = mode\<rparr> in
           if kd_rename_fails d p then (False, if kd_remove_fails d tmp then ks(tmp \<mapsto> f) else ks(tmp := None))
           else (True, ks(tmp := None, p \<mapsto> f))))"

definition promote_rename :: "key_disk \<Rightarrow> key_files \<Rightarrow> key_error option \<times> key_files" where
  "promote_rename d ks =
     (if kd_rename_fails d LiveKey then (Some KeyIO, ks) else (None, ks(LiveKey := ks PendingKey, PendingKey := None)))"

definition Promote :: "scheme \<Rightarrow> key_disk \<Rightarrow> key_files \<Rightarrow> key_error option \<times> key_files" where
  "Promote sc d ks =
     (case Pending d ks of
        Inl e \<Rightarrow> (Some e, ks)
      | Inr None \<Rightarrow> (Some NoPendingKey, ks)
      | Inr (Some p) \<Rightarrow>
          (case Live d ks of
             Inl e \<Rightarrow> (if e = ErrNoKey then promote_rename d ks else (Some e, ks))
           | Inr live \<Rightarrow>
               (case writeFileMode d (retiredPath sc live) (key_line live) False ks of
                  (False, ks1) \<Rightarrow> (Some ArchiveFailed, ks1)
                | (True, ks1) \<Rightarrow> promote_rename d ks1)))"

definition DiscardPending :: "key_disk \<Rightarrow> key_files \<Rightarrow> key_error option \<times> key_files" where
  "DiscardPending d ks =
     (if kd_remove_fails d PendingKey then (Some KeyIO, ks) else (None, ks(PendingKey := None)))"

text \<open>Whether the live key settles the matter: \<open>None\<close> goes on to the pending one.\<close>

definition live_settles :: "scheme \<Rightarrow> key_disk \<Rightarrow> superblock \<Rightarrow> key_files \<Rightarrow> (key_error + bool) option" where
  "live_settles sc d head ks =
     (case Live d ks of
        Inr live \<Rightarrow> (if matches sc live (SigningPub head) then Some (Inr False) else None)
      | Inl e \<Rightarrow> (if e = ErrNoKey then None else Some (Inl e)))"

definition Reconcile :: "scheme \<Rightarrow> key_disk \<Rightarrow> superblock option \<Rightarrow> key_files \<Rightarrow> (key_error + bool) \<times> key_files" where
  "Reconcile sc d head ks =
     (case head of
        None \<Rightarrow> (Inr False, ks)
      | Some sb \<Rightarrow>
          (case live_settles sc d sb ks of
             Some r \<Rightarrow> (r, ks)
           | None \<Rightarrow>
               (case Pending d ks of
                  Inl e \<Rightarrow> (Inl e, ks)
                | Inr None \<Rightarrow> (Inr False, ks)
                | Inr (Some p) \<Rightarrow>
                    (if \<not> matches sc p (SigningPub sb) then (Inr False, ks)
                     else case Promote sc d ks of
                       (Some e, ks1) \<Rightarrow> (Inl e, ks1)
                     | (None, ks1) \<Rightarrow> (Inr True, ks1)))))"

section \<open>A volume with a mode\<close>

definition Mint :: "key_disk \<Rightarrow> bytes option \<Rightarrow> key_files \<Rightarrow> (key_error + bytes) \<times> key_files" where
  "Mint d gen ks =
     (case Live d ks of
        Inr k \<Rightarrow> (Inl KeyExists, ks)
      | Inl e \<Rightarrow>
          (if e \<noteq> ErrNoKey then (Inl e, ks)
           else case gen of
             None \<Rightarrow> (Inl KeyIO, ks)
           | Some priv \<Rightarrow>
               (case writeFileMode d LiveKey (key_line priv) True ks of
                  (False, ks1) \<Rightarrow> (Inl KeyIO, ks1)
                | (True, ks1) \<Rightarrow> (Inr priv, ks1))))"

definition Retire :: "scheme \<Rightarrow> key_disk \<Rightarrow> key_files \<Rightarrow> key_error option \<times> key_files" where
  "Retire sc d ks =
     (case Live d ks of
        Inl e \<Rightarrow> (if e = ErrNoKey then (None, ks) else (Some e, ks))
      | Inr live \<Rightarrow>
          (case writeFileMode d (retiredPath sc live) (key_line live) False ks of
             (False, ks1) \<Rightarrow> (Some ArchiveFailed, ks1)
           | (True, ks1) \<Rightarrow>
               (if kd_remove_fails d LiveKey then (Some KeyIO, ks1) else (None, ks1(LiveKey := None)))))"

section \<open>Which keys are held\<close>

definition key_at :: "key_files \<Rightarrow> key_path \<Rightarrow> bytes option" where
  "key_at ks p = (case ks p of None \<Rightarrow> None | Some f \<Rightarrow> parse_key (kf_data f))"

text \<open>A key is held when a file other than a temporary one has it.\<close>

definition held :: "scheme \<Rightarrow> key_files \<Rightarrow> bytes \<Rightarrow> bool" where
  "held sc ks pub \<longleftrightarrow> (\<exists>p k. (\<forall>q. p \<noteq> KeyTmp q) \<and> key_at ks p = Some k \<and> ed_public sc k = pub)"

text \<open>
  The archive names a key by four bytes of its public half; the keys of one directory are
  taken to differ in them.
\<close>

definition archive_ok :: "scheme \<Rightarrow> key_files \<Rightarrow> bool" where
  "archive_ok sc ks \<longleftrightarrow>
     (\<forall>k k'. key_at ks LiveKey = Some k \<and> key_at ks (retiredPath sc k) = Some k' \<longrightarrow> ed_public sc k' = ed_public sc k)"

lemma parse_key_line [simp]: "length k = PrivateKeyLen \<Longrightarrow> parse_key (key_line k) = Some k"
proof -
  assume k: "length k = PrivateKeyLen"
  then have "k \<noteq> []"
    by (auto simp: PrivateKeyLen_def)
  then have "TrimSpace (key_line k) = str_bytes (hex_encode k)"
    using TrimSpace_pin(2) [of k] by (simp add: pin_body_def key_line_def)
  then show ?thesis
    using k by (simp add: parse_key_def)
qed

lemma parse_key_length: "parse_key b = Some k \<Longrightarrow> length k = PrivateKeyLen"
  by (auto simp: parse_key_def split: option.splits if_splits)

lemma readKey_key_at: "readKey d ks p = Inr k \<Longrightarrow> key_at ks p = Some k"
  by (auto simp: readKey_def key_at_def split: if_splits option.splits)

lemma Pending_key_at: "Pending d ks = Inr (Some k) \<Longrightarrow> key_at ks PendingKey = Some k"
  by (auto simp: Pending_def split: sum.splits if_splits dest: readKey_key_at)

lemma Live_key_at: "Live d ks = Inr k \<Longrightarrow> key_at ks LiveKey = Some k"
  by (simp add: Live_def readKey_key_at)

lemma key_at_length: "key_at ks p = Some k \<Longrightarrow> length k = PrivateKeyLen"
  by (auto simp: key_at_def split: option.splits dest: parse_key_length)

lemma matches_iff [simp]: "matches sc priv pub \<longleftrightarrow> ed_public sc priv = pub"
  by (simp add: matches_def PublicOf_def)

lemma key_at_upd: "key_at (ks(p := f)) q = (if q = p then (case f of None \<Rightarrow> None | Some g \<Rightarrow> parse_key (kf_data g)) else key_at ks q)"
  by (simp add: key_at_def)

lemma writeFileMode_frame:
  assumes "writeFileMode d p data w ks = (ok, ks')"
  shows "q \<noteq> p \<Longrightarrow> q \<noteq> KeyTmp p \<Longrightarrow> ks' q = ks q" "ok \<Longrightarrow> \<exists>m. ks' p = Some \<lparr>kf_data = data, kf_writable = m\<rparr>"
    "\<not> ok \<Longrightarrow> p \<noteq> KeyTmp p \<Longrightarrow> ks' p = ks p"
  using assms by (auto simp: writeFileMode_def Let_def split: if_splits option.splits)

lemma heldI: "key_at ks p = Some k \<Longrightarrow> \<forall>q. p \<noteq> KeyTmp q \<Longrightarrow> ed_public sc k = pub \<Longrightarrow> held sc ks pub"
  unfolding held_def by blast

text \<open>A directory with the same keys in the same places, but for what the temporary files hold.\<close>

lemma held_cong:
  assumes "held sc ks pub" "\<And>p k. \<forall>q. p \<noteq> KeyTmp q \<Longrightarrow> key_at ks p = Some k \<Longrightarrow> held sc ks' (ed_public sc k)"
  shows "held sc ks' pub"
  using assms unfolding held_def by blast

lemma archive_held:
  assumes "writeFileMode d (retiredPath sc live) (key_line live) False ks = (ok, ks')"
    and "key_at ks LiveKey = Some live" "archive_ok sc ks" "held sc ks pub"
  shows "held sc ks' pub" "ok \<Longrightarrow> key_at ks' (retiredPath sc live) = Some live"
    "ks' LiveKey = ks LiveKey" "ks' PendingKey = ks PendingKey"
proof -
  note fr = writeFileMode_frame [OF assms(1)]
  have len: "length live = PrivateKeyLen"
    using key_at_length [OF assms(2)] .
  show at: "key_at ks' (retiredPath sc live) = Some live" if ok
    using fr(2) [OF that] len by (auto simp: key_at_def)
  show same: "ks' LiveKey = ks LiveKey" "ks' PendingKey = ks PendingKey"
    using fr(1) by (simp_all add: retiredPath_def)
  show "held sc ks' pub"
    using assms(4)
  proof (rule held_cong)
    fix p k
    assume p: "\<forall>q. p \<noteq> KeyTmp q" "key_at ks p = Some k"
    show "held sc ks' (ed_public sc k)"
    proof (cases "p = retiredPath sc live")
      case False
      then have "key_at ks' p = Some k"
        using fr(1) p by (simp add: key_at_def)
      then show ?thesis
        using heldI p(1) by blast
    next
      case True
      then have "ed_public sc k = ed_public sc live"
        using assms(2,3) p(2) unfolding archive_ok_def by blast
      moreover have "key_at ks' LiveKey = Some live"
        using same(1) assms(2) by (simp add: key_at_def)
      ultimately show ?thesis
        using heldI [of ks' LiveKey live sc] by simp
    qed
  qed
qed

lemma promote_rename_held:
  assumes "promote_rename d ks = (e, ks')" "held sc ks pub"
    and "\<And>k. key_at ks LiveKey = Some k \<Longrightarrow> \<exists>r. key_at ks (RetiredKey r) = Some k"
  shows "held sc ks' pub"
  using assms(2)
proof (rule held_cong)
  fix p k
  assume p: "\<forall>q. p \<noteq> KeyTmp q" "key_at ks p = Some k"
  show "held sc ks' (ed_public sc k)"
  proof (cases "kd_rename_fails d LiveKey")
    case True
    then show ?thesis
      using assms(1) p heldI by (auto simp: promote_rename_def)
  next
    case False
    then have ks': "ks' = ks(LiveKey := ks PendingKey, PendingKey := None)"
      using assms(1) by (simp add: promote_rename_def)
    consider "p = LiveKey" | "p = PendingKey" | "p \<noteq> LiveKey" "p \<noteq> PendingKey"
      by blast
    then show ?thesis
    proof cases
      case 1
      then obtain r where "key_at ks (RetiredKey r) = Some k"
        using assms(3) p(2) by blast
      then have "key_at ks' (RetiredKey r) = Some k"
        by (simp add: ks' key_at_def)
      then show ?thesis
        using heldI by blast
    next
      case 2
      then have "key_at ks' LiveKey = Some k"
        using p(2) by (simp add: ks' key_at_def)
      then show ?thesis
        using heldI by blast
    next
      case 3
      then have "key_at ks' p = Some k"
        using p(2) by (simp add: ks' key_at_def)
      then show ?thesis
        using p(1) heldI by blast
    qed
  qed
qed

lemma Live_none: "Live d ks = Inl ErrNoKey \<Longrightarrow> ks LiveKey = None"
  by (auto simp: Live_def readKey_def split: if_splits option.splits)

lemma Promote_held:
  assumes "Promote sc d ks = (e, ks')" "archive_ok sc ks" "held sc ks pub"
  shows "held sc ks' pub"
proof (cases "Live d ks")
  case (Inl err)
  show ?thesis
  proof (cases "err = ErrNoKey")
    case True
    then have "key_at ks LiveKey = None"
      using Inl Live_none [of d ks] by (simp add: key_at_def)
    then show ?thesis
      using assms promote_rename_held [of d ks _ _ sc pub] Inl True by (auto simp: Promote_def split: sum.splits option.splits)
  next
    case False
    then show ?thesis
      using assms Inl by (auto simp: Promote_def split: sum.splits option.splits)
  qed
next
  case (Inr live)
  note at = Live_key_at [OF Inr]
  obtain ok ks1 where w: "writeFileMode d (retiredPath sc live) (key_line live) False ks = (ok, ks1)"
    by (cases "writeFileMode d (retiredPath sc live) (key_line live) False ks")
  note a = archive_held [OF w at assms(2,3)]
  show ?thesis
  proof (cases "ok \<and> (\<exists>p. Pending d ks = Inr (Some p))")
    case False
    then show ?thesis
      using assms(1,3) Inr w a(1) by (auto simp: Promote_def split: sum.splits option.splits bool.splits)
  next
    case True
    then have "promote_rename d ks1 = (e, ks')"
      using assms(1) Inr w by (auto simp: Promote_def)
    moreover have "key_at ks1 LiveKey = key_at ks LiveKey"
      using a(3) by (simp add: key_at_def)
    ultimately show ?thesis
      using promote_rename_held [OF _ a(1)] a(2) at True by (auto simp: retiredPath_def)
  qed
qed

lemma Promote_done:
  assumes "Promote sc d ks = (None, ks')"
  shows "\<exists>p. Pending d ks = Inr (Some p) \<and> key_at ks' LiveKey = Some p \<and> ks' PendingKey = None \<and>
    (\<forall>live. Live d ks = Inr live \<longrightarrow> key_at ks' (retiredPath sc live) = Some live)"
proof -
  obtain p where p: "Pending d ks = Inr (Some p)"
    using assms by (auto simp: Promote_def split: sum.splits option.splits)
  note pk = Pending_key_at [OF p]
  show ?thesis
  proof (cases "Live d ks")
    case (Inl err)
    then have "promote_rename d ks = (None, ks')"
      using assms p by (auto simp: Promote_def split: if_splits)
    then show ?thesis
      using p pk Inl by (auto simp: promote_rename_def key_at_def split: if_splits)
  next
    case (Inr live)
    obtain ok ks1 where w: "writeFileMode d (retiredPath sc live) (key_line live) False ks = (ok, ks1)"
      by (cases "writeFileMode d (retiredPath sc live) (key_line live) False ks")
    then have "promote_rename d ks1 = (None, ks')" ok
      using assms p Inr by (auto simp: Promote_def split: bool.splits)
    moreover have "ks1 PendingKey = ks PendingKey"
      using writeFileMode_frame(1) [OF w] by (simp add: retiredPath_def)
    moreover have "key_at ks1 (retiredPath sc live) = Some live"
      using writeFileMode_frame(2) [OF w] \<open>ok\<close> key_at_length [OF Live_key_at [OF Inr]] by (auto simp: key_at_def)
    ultimately show ?thesis
      using p pk Inr by (auto simp: promote_rename_def key_at_def retiredPath_def split: if_splits)
  qed
qed

lemma Promote_failed:
  assumes "Promote sc d ks = (Some e, ks')"
  shows "ks' LiveKey = ks LiveKey" "ks' PendingKey = ks PendingKey"
proof -
  have w: "ks1 LiveKey = ks LiveKey \<and> ks1 PendingKey = ks PendingKey"
    if "writeFileMode d (retiredPath sc live) (key_line live) False ks = (ok, ks1)" for live ok ks1
    using writeFileMode_frame(1) [OF that] by (simp add: retiredPath_def)
  show "ks' LiveKey = ks LiveKey" "ks' PendingKey = ks PendingKey"
    using assms w by (auto simp: Promote_def promote_rename_def split: sum.splits option.splits prod.splits bool.splits if_splits)
qed

end
