(* ===== verification/Key_Rotation.thy ===== *)
theory Key_Rotation
  imports Key_Files
begin

text \<open>
  Key rotation and the change between signed and unsigned, \<open>internal/rotate/rotate.go\<close> and
  \<open>mode.go\<close>: two generations per branch, an announcement and its use, then the promotion of the
  local key. The run acts on three stores at once: the key files, the reader's own state and
  the object store. What fails in each call is an argument; the branches are under their
  write leases, so no other writer acts.
\<close>

section \<open>The world of a run\<close>

record rot_world =
  rw_keys :: key_files
  rw_state :: files
  rw_store :: objects

record fetch_io =
  fi_disk :: disk
  fi_stat_fails :: bool
  fi_get_fails :: "transport_error option"
  fi_reread :: "transport_error option option"

record flip_io =
  fl_stat_fails :: bool
  fl_put :: put_outcome
  fl_get_fails :: "transport_error option"

text \<open>The calls a run can make for one branch.\<close>

record branch_io =
  io_fetch :: fetch_io
  io_announce :: flip_io
  io_refetch :: fetch_io
  io_execute :: flip_io

record rot_env =
  re_scheme :: scheme
  re_weigh :: "part \<Rightarrow> bytes option"
  re_policy :: policy
  re_start :: key_disk
  re_mint :: "bytes option"
  re_raced :: "key_files \<Rightarrow> key_files"
  re_io :: "string \<Rightarrow> branch_io"
  re_end :: key_disk
  re_pin_disk :: disk

definition fetch_head :: "rot_env \<Rightarrow> fetch_io \<Rightarrow> string \<Rightarrow> rot_world \<Rightarrow> (ref_error + fetched) \<times> rot_world" where
  "fetch_head env io branch w =
     (let get = (\<lambda>fails. Get fails (rw_store w) (refKey branch));
          a = \<lparr>a_stat = StatKey (fi_stat_fails io) (rw_store w) (refKey branch), a_get = get (fi_get_fails io),
            a_unverified = map_option get (fi_reread io)\<rparr> in
      case Fetch (re_scheme env) (re_policy env) (fi_disk io) branch a (rw_state w) of
        (r, fs) \<Rightarrow> (r, w\<lparr>rw_state := fs\<rparr>))"

definition flip_head :: "flip_io \<Rightarrow> string \<Rightarrow> bytes \<Rightarrow> string \<Rightarrow> rot_world \<Rightarrow> ref_error option \<times> rot_world" where
  "flip_head io branch raw etag w =
     (case Flip (fl_stat_fails io) (fl_put io) (fl_get_fails io) id id branch raw etag (rw_store w) of
        (e, st) \<Rightarrow> (e, w\<lparr>rw_store := st\<rparr>))"

section \<open>One generation\<close>

datatype step_error = SignFailed sb_error | EncodeFailed | Refused sb_error | FlipRefused ref_error

definition Successor :: "scheme \<Rightarrow> (part \<Rightarrow> bytes option) \<Rightarrow> superblock \<Rightarrow> bytes \<Rightarrow> string \<Rightarrow> int64 \<Rightarrow> bytes option \<Rightarrow>
    bytes option \<Rightarrow> step_error + superblock \<times> bytes" where
  "Successor sc weigh prev prevRaw branch now signer nextPub =
     (let sb = prev\<lparr>Generation := Generation prev + 1, PrevHash := sum256 sc prevRaw, CreatedUnixNano := now,
            Branch := branch, NextPub := nextPub, Signature := zero64\<rparr> in
      case (case signer of None \<Rightarrow> (None, Unsign sb) | Some k \<Rightarrow> Sign sc k sb) of
        (Some e, sb1) \<Rightarrow> Inl (SignFailed e)
      | (None, sb1) \<Rightarrow>
          (case marshal sc sb1 of
             None \<Rightarrow> Inl EncodeFailed
           | Some raw \<Rightarrow>
               (case Validate sb1 of
                  Some e \<Rightarrow> Inl (Refused e)
                | None \<Rightarrow>
                    (case CheckSize weigh (int (length raw)) sb1 of
                       Some e \<Rightarrow> Inl (Refused e)
                     | None \<Rightarrow> Inr (sb1, raw)))))"

definition publishStep :: "rot_env \<Rightarrow> int64 \<Rightarrow> flip_io \<Rightarrow> fetched \<Rightarrow> string \<Rightarrow> bytes option \<Rightarrow> bytes option \<Rightarrow> rot_world \<Rightarrow>
    (step_error + superblock) \<times> rot_world" where
  "publishStep env now io f branch signer nextPub w =
     (case Successor (re_scheme env) (re_weigh env) (f_Superblock f) (f_Raw f) branch now signer nextPub of
        Inl e \<Rightarrow> (Inl e, w)
      | Inr (sb, raw) \<Rightarrow>
          (case flip_head io branch raw (f_ETag f) w of
             (Some e, w1) \<Rightarrow> (Inl (FlipRefused e), w1)
           | (None, w1) \<Rightarrow> (Inr sb, w1)))"

section \<open>A rotation\<close>

datatype phase = PhaseFresh | PhaseAnnounced | PhaseExecuted

record rot_opts =
  ro_Branches :: "string list"
  ro_Now :: int64
  ro_DryRun :: bool
  ro_AnnounceOnly :: bool

record branch_plan =
  bp_Branch :: string
  bp_Found :: phase
  bp_Head :: uint64
  bp_Announce :: uint64
  bp_Execute :: uint64

record rot_result =
  rr_Plans :: "branch_plan list"
  rr_OldPub :: string
  rr_NewPub :: string
  rr_Promoted :: bool
  rr_RetiredPath :: "key_path option"

datatype rot_error = NoBranches | LocalKeys key_error | HeadUnread string ref_error | ErrKeyMismatch string uint64
  | ErrForeignAnnouncement string uint64 | Announcing string step_error | RereadFailed string ref_error
  | Executing string step_error | AlreadyExecuted string uint64 | Retracting string step_error
  | ErrAlreadyInMode | PinNotUpdated ref_error | ModeStep string step_error

definition phaseOf :: "scheme \<Rightarrow> superblock \<Rightarrow> bytes \<Rightarrow> bytes option \<Rightarrow> string \<Rightarrow> rot_error + phase" where
  "phaseOf sc head live pending branch =
     (if (case pending of None \<Rightarrow> False | Some p \<Rightarrow> matches sc p (SigningPub head)) then Inr PhaseExecuted
      else if \<not> matches sc live (SigningPub head) then Inl (ErrKeyMismatch branch (Generation head))
      else case NextPub head of
        None \<Rightarrow> Inr PhaseFresh
      | Some np \<Rightarrow>
          (if (case pending of None \<Rightarrow> True | Some p \<Rightarrow> \<not> matches sc p np)
           then Inl (ErrForeignAnnouncement branch (Generation head))
           else Inr PhaseAnnounced))"

text \<open>The second half of a branch, from its announcement on.\<close>

definition execute_branch :: "rot_env \<Rightarrow> rot_opts \<Rightarrow> bytes option \<Rightarrow> string \<Rightarrow> fetched \<Rightarrow> branch_plan \<Rightarrow> rot_world \<Rightarrow>
    (rot_error + branch_plan) \<times> rot_world" where
  "execute_branch env opt pending branch f plan w =
     (case pending of
        None \<Rightarrow> (Inr (plan\<lparr>bp_Execute := Generation (f_Superblock f) + 1\<rparr>), w)
      | Some p \<Rightarrow>
          (if ro_DryRun opt then (Inr (plan\<lparr>bp_Execute := Generation (f_Superblock f) + 1\<rparr>), w)
           else case publishStep env (ro_Now opt) (io_execute (re_io env branch)) f branch (Some p) None w of
             (Inl e, w1) \<Rightarrow> (Inl (Executing branch e), w1)
           | (Inr sb, w1) \<Rightarrow> (Inr (plan\<lparr>bp_Execute := Generation sb\<rparr>), w1)))"

text \<open>The first half: announce, read the announcement back, and go on unless told to stop.\<close>

definition announce_branch :: "rot_env \<Rightarrow> rot_opts \<Rightarrow> bytes \<Rightarrow> bytes \<Rightarrow> string \<Rightarrow> fetched \<Rightarrow> branch_plan \<Rightarrow> rot_world \<Rightarrow>
    (rot_error + branch_plan) \<times> rot_world" where
  "announce_branch env opt live p branch f plan w =
     (case publishStep env (ro_Now opt) (io_announce (re_io env branch)) f branch (Some live)
         (Some (ed_public (re_scheme env) p)) w of
        (Inl e, w1) \<Rightarrow> (Inl (Announcing branch e), w1)
      | (Inr sb, w1) \<Rightarrow>
          (case fetch_head env (io_refetch (re_io env branch)) branch w1 of
             (Inl e, w2) \<Rightarrow> (Inl (RereadFailed branch e), w2)
           | (Inr f2, w2) \<Rightarrow>
               (let plan2 = plan\<lparr>bp_Announce := Generation sb\<rparr> in
                if ro_AnnounceOnly opt then (Inr plan2, w2)
                else execute_branch env opt (Some p) branch f2 plan2 w2)))"

definition rotateBranch :: "rot_env \<Rightarrow> rot_opts \<Rightarrow> bytes \<Rightarrow> bytes option \<Rightarrow> string \<Rightarrow> rot_world \<Rightarrow>
    (rot_error + branch_plan) \<times> rot_world" where
  "rotateBranch env opt live pending branch w =
     (case fetch_head env (io_fetch (re_io env branch)) branch w of
        (Inl e, w1) \<Rightarrow> (Inl (HeadUnread branch e), w1)
      | (Inr f, w1) \<Rightarrow>
          (let gen = Generation (f_Superblock f) in
           case phaseOf (re_scheme env) (f_Superblock f) live pending branch of
             Inl e \<Rightarrow> (Inl e, w1)
           | Inr ph \<Rightarrow>
               (let plan = \<lparr>bp_Branch = branch, bp_Found = ph, bp_Head = gen, bp_Announce = 0, bp_Execute = 0\<rparr> in
                case ph of
                  PhaseExecuted \<Rightarrow> (Inr plan, w1)
                | PhaseAnnounced \<Rightarrow> execute_branch env opt pending branch f plan w1
                | PhaseFresh \<Rightarrow>
                    (case pending of
                       None \<Rightarrow> (Inr (plan\<lparr>bp_Announce := gen + 1, bp_Execute := gen + 2\<rparr>), w1)
                     | Some p \<Rightarrow> announce_branch env opt live p branch f plan w1))))"

fun rotate_all :: "rot_env \<Rightarrow> rot_opts \<Rightarrow> bytes \<Rightarrow> bytes option \<Rightarrow> string list \<Rightarrow> rot_world \<Rightarrow>
    (rot_error + branch_plan list) \<times> rot_world" where
  "rotate_all env opt live pending [] w = (Inr [], w)"
| "rotate_all env opt live pending (b # bs) w =
     (case rotateBranch env opt live pending b w of
        (Inl e, w1) \<Rightarrow> (Inl e, w1)
      | (Inr plan, w1) \<Rightarrow>
          (case rotate_all env opt live pending bs w1 of
             (Inl e, w2) \<Rightarrow> (Inl e, w2)
           | (Inr plans, w2) \<Rightarrow> (Inr (plan # plans), w2)))"

definition pending_for :: "rot_env \<Rightarrow> rot_opts \<Rightarrow> key_files \<Rightarrow> (key_error + bytes option) \<times> key_files" where
  "pending_for env opt ks =
     (if ro_DryRun opt then (Pending (re_start env) ks, ks)
      else MintPending (re_start env) (re_mint env) (re_raced env) ks)"

definition Execute :: "rot_env \<Rightarrow> rot_opts \<Rightarrow> rot_world \<Rightarrow> (rot_error + rot_result) \<times> rot_world" where
  "Execute env opt w =
     (if ro_Branches opt = [] then (Inl NoBranches, w)
      else case Live (re_start env) (rw_keys w) of
        Inl e \<Rightarrow> (Inl (LocalKeys e), w)
      | Inr live \<Rightarrow>
          (case pending_for env opt (rw_keys w) of
             (Inl e, ks) \<Rightarrow> (Inl (LocalKeys e), w\<lparr>rw_keys := ks\<rparr>)
           | (Inr pending, ks) \<Rightarrow>
               (case rotate_all env opt live pending (ro_Branches opt) (w\<lparr>rw_keys := ks\<rparr>) of
                  (Inl e, w1) \<Rightarrow> (Inl e, w1)
                | (Inr plans, w1) \<Rightarrow>
                    (let sc = re_scheme env;
                         res = \<lparr>rr_Plans = plans, rr_OldPub = PublicOf sc live,
                           rr_NewPub = (case pending of None \<Rightarrow> [] | Some p \<Rightarrow> PublicOf sc p),
                           rr_Promoted = False, rr_RetiredPath = None\<rparr> in
                     if ro_DryRun opt \<or> ro_AnnounceOnly opt then (Inr res, w1)
                     else case Promote sc (re_end env) (rw_keys w1) of
                       (Some e, ks1) \<Rightarrow> (Inl (LocalKeys e), w1\<lparr>rw_keys := ks1\<rparr>)
                     | (None, ks1) \<Rightarrow>
                         (Inr (res\<lparr>rr_Promoted := True, rr_RetiredPath := Some (retiredPath sc live)\<rparr>), w1\<lparr>rw_keys := ks1\<rparr>)))))"

section \<open>Aborting\<close>

definition abort_branch :: "rot_env \<Rightarrow> rot_opts \<Rightarrow> bytes \<Rightarrow> bytes option \<Rightarrow> string \<Rightarrow> rot_world \<Rightarrow>
    (rot_error + branch_plan) \<times> rot_world" where
  "abort_branch env opt live pending branch w =
     (case fetch_head env (io_fetch (re_io env branch)) branch w of
        (Inl e, w1) \<Rightarrow> (Inl (HeadUnread branch e), w1)
      | (Inr f, w1) \<Rightarrow>
          (let gen = Generation (f_Superblock f) in
           case phaseOf (re_scheme env) (f_Superblock f) live pending branch of
             Inl e \<Rightarrow> (Inl e, w1)
           | Inr ph \<Rightarrow>
               (let plan = \<lparr>bp_Branch = branch, bp_Found = ph, bp_Head = gen, bp_Announce = 0, bp_Execute = 0\<rparr> in
                case ph of
                  PhaseExecuted \<Rightarrow> (Inl (AlreadyExecuted branch gen), w1)
                | PhaseFresh \<Rightarrow> (Inr plan, w1)
                | PhaseAnnounced \<Rightarrow>
                    (if ro_DryRun opt then (Inr (plan\<lparr>bp_Announce := gen + 1\<rparr>), w1)
                     else case publishStep env (ro_Now opt) (io_announce (re_io env branch)) f branch (Some live) None w1 of
                       (Inl e, w2) \<Rightarrow> (Inl (Retracting branch e), w2)
                     | (Inr sb, w2) \<Rightarrow> (Inr (plan\<lparr>bp_Announce := Generation sb\<rparr>), w2)))))"

fun abort_all :: "rot_env \<Rightarrow> rot_opts \<Rightarrow> bytes \<Rightarrow> bytes option \<Rightarrow> string list \<Rightarrow> rot_world \<Rightarrow>
    (rot_error + branch_plan list) \<times> rot_world" where
  "abort_all env opt live pending [] w = (Inr [], w)"
| "abort_all env opt live pending (b # bs) w =
     (case abort_branch env opt live pending b w of
        (Inl e, w1) \<Rightarrow> (Inl e, w1)
      | (Inr plan, w1) \<Rightarrow>
          (case abort_all env opt live pending bs w1 of
             (Inl e, w2) \<Rightarrow> (Inl e, w2)
           | (Inr plans, w2) \<Rightarrow> (Inr (plan # plans), w2)))"

text \<open>\<open>Abort\<close> gives its result even beside the error of discarding the key.\<close>

definition Abort :: "rot_env \<Rightarrow> rot_opts \<Rightarrow> rot_world \<Rightarrow> rot_error option \<times> rot_result option \<times> rot_world" where
  "Abort env opt w =
     (case Live (re_start env) (rw_keys w) of
        Inl e \<Rightarrow> (Some (LocalKeys e), None, w)
      | Inr live \<Rightarrow>
          (case Pending (re_start env) (rw_keys w) of
             Inl e \<Rightarrow> (Some (LocalKeys e), None, w)
           | Inr pending \<Rightarrow>
               (case abort_all env opt live pending (ro_Branches opt) w of
                  (Inl e, w1) \<Rightarrow> (Some e, None, w1)
                | (Inr plans, w1) \<Rightarrow>
                    (let sc = re_scheme env;
                         res = \<lparr>rr_Plans = plans, rr_OldPub = PublicOf sc live,
                           rr_NewPub = (case pending of None \<Rightarrow> [] | Some p \<Rightarrow> PublicOf sc p),
                           rr_Promoted = False, rr_RetiredPath = None\<rparr> in
                     if ro_DryRun opt then (None, Some res, w1)
                     else case DiscardPending (re_end env) (rw_keys w1) of
                       (e, ks1) \<Rightarrow> (map_option LocalKeys e, Some res, w1\<lparr>rw_keys := ks1\<rparr>)))))"

section \<open>Signed and unsigned\<close>

record mode_result =
  mr_Branches :: "branch_plan list"
  mr_AlreadyThere :: "string list"
  mr_NewPub :: string
  mr_RetiredPath :: "key_path option"

definition no_mode :: mode_result where
  "no_mode = \<lparr>mr_Branches = [], mr_AlreadyThere = [], mr_NewPub = [], mr_RetiredPath = None\<rparr>"

text \<open>A branch that moves: its plan and whether it was flipped.\<close>

definition mode_plan :: "string \<Rightarrow> uint64 \<Rightarrow> uint64 \<Rightarrow> branch_plan" where
  "mode_plan branch gen to = \<lparr>bp_Branch = branch, bp_Found = PhaseFresh, bp_Head = gen, bp_Announce = 0, bp_Execute = to\<rparr>"

fun unsign_all :: "rot_env \<Rightarrow> rot_opts \<Rightarrow> bytes option \<Rightarrow> string list \<Rightarrow> mode_result \<times> bool \<Rightarrow> rot_world \<Rightarrow>
    (rot_error + mode_result \<times> bool) \<times> rot_world" where
  "unsign_all env opt live [] st w = (Inr st, w)"
| "unsign_all env opt live (b # bs) (res, flipped) w =
     (case fetch_head env (io_fetch (re_io env b)) b w of
        (Inl e, w1) \<Rightarrow> (Inl (HeadUnread b e), w1)
      | (Inr f, w1) \<Rightarrow>
          (let sb = f_Superblock f in
           if IsUnsigned sb then
             unsign_all env opt live bs (res\<lparr>mr_AlreadyThere := mr_AlreadyThere res @ [b]\<rparr>, flipped) w1
           else if (case live of None \<Rightarrow> False | Some k \<Rightarrow> \<not> matches (re_scheme env) k (SigningPub sb))
           then (Inl (ErrKeyMismatch b (Generation sb)), w1)
           else if ro_DryRun opt then
             unsign_all env opt live bs
               (res\<lparr>mr_Branches := mr_Branches res @ [mode_plan b (Generation sb) (Generation sb + 1)]\<rparr>, flipped) w1
           else case publishStep env (ro_Now opt) (io_execute (re_io env b)) f b None None w1 of
             (Inl e, w2) \<Rightarrow> (Inl (ModeStep b e), w2)
           | (Inr sb2, w2) \<Rightarrow>
               unsign_all env opt live bs
                 (res\<lparr>mr_Branches := mr_Branches res @ [mode_plan b (Generation sb) (Generation sb2)]\<rparr>, True) w2))"

text \<open>What a mode change that flipped nothing gives: its result, and an error when there was nothing to move.\<close>

definition nothing_flipped :: "rot_opts \<Rightarrow> mode_result \<Rightarrow> rot_error option" where
  "nothing_flipped opt res = (if \<not> ro_DryRun opt \<and> mr_Branches res = [] then Some ErrAlreadyInMode else None)"

definition ToUnsigned :: "rot_env \<Rightarrow> rot_opts \<Rightarrow> rot_world \<Rightarrow> rot_error option \<times> mode_result option \<times> rot_world" where
  "ToUnsigned env opt w =
     (if ro_Branches opt = [] then (Some NoBranches, None, w)
      else case (case Live (re_start env) (rw_keys w) of
                   Inl e \<Rightarrow> (if e = ErrNoKey then Inr None else Inl e) | Inr k \<Rightarrow> Inr (Some k)) of
        Inl e \<Rightarrow> (Some (LocalKeys e), None, w)
      | Inr live \<Rightarrow>
          (case unsign_all env opt live (ro_Branches opt) (no_mode, False) w of
             (Inl e, w1) \<Rightarrow> (Some e, None, w1)
           | (Inr (res, flipped), w1) \<Rightarrow>
               (if ro_DryRun opt \<or> \<not> flipped then (nothing_flipped opt res, Some res, w1)
                else case AcceptUnsigned (re_pin_disk env) (rw_state w1) of
                  (Some e, fs) \<Rightarrow> (Some (PinNotUpdated e), None, w1\<lparr>rw_state := fs\<rparr>)
                | (None, fs) \<Rightarrow>
                    (let w2 = w1\<lparr>rw_state := fs\<rparr> in
                     case live of
                       None \<Rightarrow> (None, Some res, w2)
                     | Some k \<Rightarrow>
                         (case Retire (re_scheme env) (re_end env) (rw_keys w2) of
                            (Some e, ks) \<Rightarrow> (Some (LocalKeys e), None, w2\<lparr>rw_keys := ks\<rparr>)
                          | (None, ks) \<Rightarrow>
                              (None, Some (res\<lparr>mr_RetiredPath := Some (retiredPath (re_scheme env) k)\<rparr>), w2\<lparr>rw_keys := ks\<rparr>))))))"

fun sign_all :: "rot_env \<Rightarrow> rot_opts \<Rightarrow> string list \<Rightarrow> mode_result \<times> bool \<times> bytes option \<Rightarrow> rot_world \<Rightarrow>
    (rot_error + mode_result \<times> bool \<times> bytes option) \<times> rot_world" where
  "sign_all env opt [] st w = (Inr st, w)"
| "sign_all env opt (b # bs) (res, flipped, signer) w =
     (case fetch_head env (io_fetch (re_io env b)) b w of
        (Inl e, w1) \<Rightarrow> (Inl (HeadUnread b e), w1)
      | (Inr f, w1) \<Rightarrow>
          (let sb = f_Superblock f in
           if \<not> IsUnsigned sb then
             sign_all env opt bs (res\<lparr>mr_AlreadyThere := mr_AlreadyThere res @ [b]\<rparr>, flipped, signer) w1
           else if ro_DryRun opt then
             sign_all env opt bs
               (res\<lparr>mr_Branches := mr_Branches res @ [mode_plan b (Generation sb) (Generation sb + 1)]\<rparr>, flipped, signer) w1
           else case (case signer of
                        Some k \<Rightarrow> (Inr k, rw_keys w1)
                      | None \<Rightarrow> Mint (re_end env) (re_mint env) (rw_keys w1)) of
             (Inl e, ks) \<Rightarrow> (Inl (LocalKeys e), w1\<lparr>rw_keys := ks\<rparr>)
           | (Inr k, ks) \<Rightarrow>
               (case publishStep env (ro_Now opt) (io_execute (re_io env b)) f b (Some k) None (w1\<lparr>rw_keys := ks\<rparr>) of
                  (Inl e, w2) \<Rightarrow> (Inl (ModeStep b e), w2)
                | (Inr sb2, w2) \<Rightarrow>
                    sign_all env opt bs
                      (res\<lparr>mr_Branches := mr_Branches res @ [mode_plan b (Generation sb) (Generation sb2)]\<rparr>, True, Some k) w2)))"

definition ToSigned :: "rot_env \<Rightarrow> rot_opts \<Rightarrow> rot_world \<Rightarrow> rot_error option \<times> mode_result option \<times> rot_world" where
  "ToSigned env opt w =
     (if ro_Branches opt = [] then (Some NoBranches, None, w)
      else case (case Live (re_start env) (rw_keys w) of
                   Inl e \<Rightarrow> (if e = ErrNoKey then Inr None else Inl e) | Inr k \<Rightarrow> Inr (Some k)) of
        Inl e \<Rightarrow> (Some (LocalKeys e), None, w)
      | Inr start \<Rightarrow>
          (case sign_all env opt (ro_Branches opt) (no_mode, False, start) w of
             (Inl e, w1) \<Rightarrow> (Some e, None, w1)
           | (Inr (res, flipped, signer), w1) \<Rightarrow>
               (let res1 = (case signer of None \<Rightarrow> res | Some k \<Rightarrow> res\<lparr>mr_NewPub := PublicOf (re_scheme env) k\<rparr>) in
                if ro_DryRun opt \<or> \<not> flipped then (nothing_flipped opt res1, Some res1, w1)
                else case AcceptSigned (re_pin_disk env) (ed_public (re_scheme env) (the_default [] signer)) (rw_state w1) of
                  (Some e, fs) \<Rightarrow> (Some (PinNotUpdated e), None, w1\<lparr>rw_state := fs\<rparr>)
                | (None, fs) \<Rightarrow> (None, Some res1, w1\<lparr>rw_state := fs\<rparr>))))"

section \<open>Facts about one step\<close>

text \<open>What a decoder undoes, and the size of a public key.\<close>

definition round_trips :: "scheme \<Rightarrow> bool" where
  "round_trips sc \<longleftrightarrow> (\<forall>sb raw. marshal sc sb = Some raw \<longrightarrow> unmarshal sc raw = Some sb)"

lemma Successor_fields:
  assumes "Successor sc weigh prev prevRaw branch now signer nextPub = Inr (sb, raw)"
  shows "marshal sc sb = Some raw" "Validate sb = None" "int (length raw) \<le> MaxEncodedBytes"
    "Generation sb = Generation prev + 1" "PrevHash sb = sum256 sc prevRaw" "Branch sb = branch"
    "signer = Some k \<Longrightarrow> SigningPub sb = ed_public sc k \<and> NextPub sb = nextPub \<and> length k = 64"
    "signer = None \<Longrightarrow> IsUnsigned sb \<and> NextPub sb = None"
    "sb = prev\<lparr>Generation := Generation sb, PrevHash := PrevHash sb, CreatedUnixNano := now, Branch := Branch sb,
       NextPub := NextPub sb, SigningPub := SigningPub sb, Signature := Signature sb\<rparr>"
  using assms
  by (auto simp: Successor_def Let_def Sign_def Unsign_def IsUnsigned_def CheckSize_def split: option.splits prod.splits if_splits)

lemma Successor_eq:
  assumes "Successor sc weigh prev prevRaw branch now (Some k) nextPub = Inr (sb, raw)"
  shows "\<exists>sg. sb = prev\<lparr>Generation := Generation prev + 1, PrevHash := sum256 sc prevRaw, CreatedUnixNano := now,
    Branch := branch, NextPub := nextPub, SigningPub := ed_public sc k, Signature := sg\<rparr>"
  using assms by (auto simp: Successor_def Let_def Sign_def split: option.splits prod.splits if_splits)

lemma Successor_signed:
  assumes "Successor sc weigh prev prevRaw branch now (Some k) nextPub = Inr (sb, raw)" "signs_verify sc"
    "length (ed_public sc k) = 32"
  shows "Verify sc (ed_public sc k) sb = None"
proof -
  let ?sb = "prev\<lparr>Generation := Generation prev + 1, PrevHash := sum256 sc prevRaw, CreatedUnixNano := now,
            Branch := branch, NextPub := nextPub, Signature := zero64\<rparr>"
  have s: "Sign sc k ?sb = (None, sb)"
    using assms(1) by (auto simp: Successor_def Let_def split: option.splits prod.splits)
  then show ?thesis
    using assms(2,3) by (auto simp: Sign_def Verify_def signingMessage_def signs_verify_def Let_def split: if_splits option.splits)
qed

section \<open>What the calls do to the world\<close>

definition head_of :: "scheme \<Rightarrow> rot_world \<Rightarrow> string \<Rightarrow> superblock option" where
  "head_of sc w b = (case rw_store w (refKey b) of None \<Rightarrow> None | Some ob \<Rightarrow> unmarshal sc (ob_data ob))"

lemma refKey_inject [simp]: "refKey a = refKey b \<longleftrightarrow> a = b"
  by (simp add: refKey_def)

lemma decide_head_Inr:
  assumes "decide_head sc pol d b p f fs = (Inr g, fs')"
  shows "g = f"
  using assms record_head_frame(1) [of d b _ f fs "Inr g" fs' g]
  by (auto simp: decide_head_def Let_def split: if_splits option.splits sum.splits)

lemma Fetch_Inr:
  assumes "Fetch sc pol d b a fs = (Inr f, fs')"
  shows "read_ref a = Inr (f_Raw f, f_ETag f) \<and> unmarshal sc (f_Raw f) = Some (f_Superblock f)"
  using assms by (auto simp: Fetch_def split: if_splits sum.splits option.splits dest!: decide_head_Inr)

lemma Get_raw: "ReadMutable (Get f w key) u = Inr raw \<Longrightarrow> (\<forall>g. u = Some g \<longrightarrow> (\<exists>f'. g = Get f' w key)) \<Longrightarrow> \<exists>ob. w key = Some ob \<and> ob_data ob = raw"
  by (auto simp: ReadMutable_def Get_def readWhole_def split: sum.splits option.splits if_splits)

lemma fetch_head_frame:
  assumes "fetch_head env io b w = (r, w')"
  shows "rw_keys w' = rw_keys w" "rw_store w' = rw_store w" "r = Inr f \<Longrightarrow> head_of (re_scheme env) w b = Some (f_Superblock f)"
proof -
  show "rw_keys w' = rw_keys w" "rw_store w' = rw_store w"
    using assms by (auto simp: fetch_head_def Let_def split: prod.splits)
  assume r: "r = Inr f"
  let ?get = "\<lambda>fails. Get fails (rw_store w) (refKey b)"
  have "read_ref \<lparr>a_stat = StatKey (fi_stat_fails io) (rw_store w) (refKey b), a_get = ?get (fi_get_fails io),
      a_unverified = map_option ?get (fi_reread io)\<rparr> = Inr (f_Raw f, f_ETag f)"
    and u: "unmarshal (re_scheme env) (f_Raw f) = Some (f_Superblock f)"
    using assms r by (auto simp: fetch_head_def Let_def split: prod.splits dest!: Fetch_Inr)
  then have "ReadMutable (?get (fi_get_fails io)) (map_option ?get (fi_reread io)) = Inr (f_Raw f)"
    by (auto simp: read_ref_def split: sum.splits)
  then obtain ob where "rw_store w (refKey b) = Some ob" "ob_data ob = f_Raw f"
    using Get_raw by blast
  then show "head_of (re_scheme env) w b = Some (f_Superblock f)"
    using u by (simp add: head_of_def)
qed

lemma Put_key: "Put out key raw st = (ok, st') \<Longrightarrow> st' = st \<or> (\<exists>etag. st' = st(key \<mapsto> \<lparr>ob_data = raw, ob_etag = etag\<rparr>))"
  "Put out key raw st = (True, st') \<Longrightarrow> \<exists>etag. st' = st(key \<mapsto> \<lparr>ob_data = raw, ob_etag = etag\<rparr>)"
  by (auto simp: Put_def split: put_outcome.splits)

lemma flip_head_frame:
  assumes "flip_head io b raw etag w = (e, w')"
  shows "rw_keys w' = rw_keys w" "rw_state w' = rw_state w"
    "rw_store w' = rw_store w \<or> (\<exists>t. rw_store w' = (rw_store w)(refKey b \<mapsto> \<lparr>ob_data = raw, ob_etag = t\<rparr>))"
    "e = None \<Longrightarrow> \<exists>t. rw_store w' = (rw_store w)(refKey b \<mapsto> \<lparr>ob_data = raw, ob_etag = t\<rparr>)"
  using assms Put_key [of "fl_put io" "refKey b" raw "rw_store w"]
  by (auto simp: flip_head_def Flip_def Let_def split: prod.splits option.splits bool.splits)

text \<open>A step leaves the head as it is, or as the successor it built; on success the latter.\<close>

lemma publishStep_head:
  assumes "publishStep env now io f b signer np w = (r, w')" "round_trips (re_scheme env)"
  shows "rw_keys w' = rw_keys w" "rw_state w' = rw_state w" "c \<noteq> b \<Longrightarrow> head_of (re_scheme env) w' c = head_of (re_scheme env) w c"
    "head_of (re_scheme env) w' b = head_of (re_scheme env) w b \<and> (\<exists>e. r = Inl e) \<or>
     (\<exists>sb raw. Successor (re_scheme env) (re_weigh env) (f_Superblock f) (f_Raw f) b now signer np = Inr (sb, raw) \<and>
       head_of (re_scheme env) w' b = Some sb \<and> (\<forall>x. r = Inr x \<longrightarrow> x = sb))"
proof -
  let ?sc = "re_scheme env"
  have "rw_keys w' = rw_keys w \<and> rw_state w' = rw_state w \<and> (\<forall>c. c \<noteq> b \<longrightarrow> head_of ?sc w' c = head_of ?sc w c) \<and>
    (head_of ?sc w' b = head_of ?sc w b \<and> (\<exists>e. r = Inl e) \<or>
     (\<exists>sb raw. Successor ?sc (re_weigh env) (f_Superblock f) (f_Raw f) b now signer np = Inr (sb, raw) \<and>
       head_of ?sc w' b = Some sb \<and> (\<forall>x. r = Inr x \<longrightarrow> x = sb)))"
  proof (cases "Successor ?sc (re_weigh env) (f_Superblock f) (f_Raw f) b now signer np")
    case (Inl e)
    then show ?thesis
      using assms(1) by (auto simp: publishStep_def)
  next
    case (Inr x)
    obtain sb raw where x: "x = (sb, raw)"
      by (cases x)
    obtain e w1 where fl: "flip_head io b raw (f_ETag f) w = (e, w1)"
      by (cases "flip_head io b raw (f_ETag f) w")
    have u: "unmarshal ?sc raw = Some sb"
      using Successor_fields(1) [OF Inr [unfolded x]] assms(2) unfolding round_trips_def by blast
    have r: "w' = w1" "r = (case e of None \<Rightarrow> Inr sb | Some y \<Rightarrow> Inl (FlipRefused y))"
      using assms(1) Inr x fl by (auto simp: publishStep_def split: option.splits)
    note fr = flip_head_frame [OF fl]
    have other: "head_of ?sc w' c = head_of ?sc w c" if "c \<noteq> b" for c
      using fr(3) that r(1) by (auto simp: head_of_def)
    show ?thesis
    proof (cases "rw_store w1 = rw_store w \<and> e \<noteq> None")
      case True
      then show ?thesis
        using fr(1,2) r other by (auto simp: head_of_def)
    next
      case False
      then obtain t where "rw_store w1 = (rw_store w)(refKey b \<mapsto> \<lparr>ob_data = raw, ob_etag = t\<rparr>)"
        using fr(3,4) by (cases e) auto
      then have "head_of ?sc w' b = Some sb"
        using u r(1) by (simp add: head_of_def)
      then show ?thesis
        using fr(1,2) r Inr x other by (auto split: option.splits)
    qed
  qed
  then show "rw_keys w' = rw_keys w" "rw_state w' = rw_state w" "c \<noteq> b \<Longrightarrow> head_of ?sc w' c = head_of ?sc w c"
    "head_of ?sc w' b = head_of ?sc w b \<and> (\<exists>e. r = Inl e) \<or>
     (\<exists>sb raw. Successor ?sc (re_weigh env) (f_Superblock f) (f_Raw f) b now signer np = Inr (sb, raw) \<and>
       head_of ?sc w' b = Some sb \<and> (\<forall>x. r = Inr x \<longrightarrow> x = sb))"
    by blast+
qed

section \<open>A rotation keeps the keys\<close>

text \<open>Who signs the head of a branch, among some keys.\<close>

definition signed_by :: "scheme \<Rightarrow> bytes set \<Rightarrow> rot_world \<Rightarrow> string \<Rightarrow> bool" where
  "signed_by sc pubs w b \<longleftrightarrow> (\<forall>sb. head_of sc w b = Some sb \<longrightarrow> SigningPub sb \<in> pubs)"

text \<open>The keys a run for one branch may sign with.\<close>

definition run_keys :: "scheme \<Rightarrow> bytes \<Rightarrow> bytes option \<Rightarrow> bytes set" where
  "run_keys sc live pending = {ed_public sc live} \<union> (case pending of None \<Rightarrow> {} | Some p \<Rightarrow> {ed_public sc p})"

text \<open>What one branch's run does: other heads stay; its own stays or gets a signer of the run.\<close>

definition branch_effect :: "scheme \<Rightarrow> bytes set \<Rightarrow> string \<Rightarrow> rot_world \<Rightarrow> rot_world \<Rightarrow> bool" where
  "branch_effect sc pubs b w w' \<longleftrightarrow> rw_keys w' = rw_keys w \<and> (\<forall>c. c \<noteq> b \<longrightarrow> head_of sc w' c = head_of sc w c) \<and>
     (head_of sc w' b = head_of sc w b \<or> signed_by sc pubs w' b)"

lemma branch_effect_trans:
  "branch_effect sc pubs b w w1 \<Longrightarrow> branch_effect sc pubs b w1 w2 \<Longrightarrow> branch_effect sc pubs b w w2"
  by (auto simp: branch_effect_def signed_by_def)

lemma fetch_head_effect: "fetch_head env io b w = (r, w') \<Longrightarrow> branch_effect (re_scheme env) pubs b w w'"
  using fetch_head_frame(1,2) [of env io b w r w'] by (simp add: branch_effect_def head_of_def)

lemma publishStep_effect:
  assumes "publishStep env now io f b (Some k) np w = (r, w')" "round_trips (re_scheme env)" "ed_public (re_scheme env) k \<in> pubs"
  shows "branch_effect (re_scheme env) pubs b w w'"
    "r = Inr sb \<Longrightarrow> head_of (re_scheme env) w' b = Some sb \<and> SigningPub sb = ed_public (re_scheme env) k"
proof -
  note p = publishStep_head [OF assms(1,2)]
  have "head_of (re_scheme env) w' b = head_of (re_scheme env) w b \<or> signed_by (re_scheme env) pubs w' b"
    using p(4) assms(3) by (auto simp: signed_by_def dest: Successor_fields(7))
  then show "branch_effect (re_scheme env) pubs b w w'"
    using p(1,3) by (simp add: branch_effect_def)
  show "head_of (re_scheme env) w' b = Some sb \<and> SigningPub sb = ed_public (re_scheme env) k" if "r = Inr sb"
    using p(4) that by (auto dest: Successor_fields(7))
qed

lemma execute_branch_effect:
  assumes "execute_branch env opt pending b f plan w = (r, w')" "round_trips (re_scheme env)"
  shows "branch_effect (re_scheme env) (run_keys (re_scheme env) live pending) b w w'"
    "r = Inr pl \<Longrightarrow> \<not> ro_DryRun opt \<Longrightarrow> pending = Some p \<Longrightarrow> signed_by (re_scheme env) {ed_public (re_scheme env) p} w' b"
proof -
  have "branch_effect (re_scheme env) (run_keys (re_scheme env) live pending) b w w' \<and>
    (\<forall>pl p. r = Inr pl \<longrightarrow> \<not> ro_DryRun opt \<longrightarrow> pending = Some p \<longrightarrow> signed_by (re_scheme env) {ed_public (re_scheme env) p} w' b)"
  proof (cases "pending = None \<or> ro_DryRun opt")
    case True
    then show ?thesis
      using assms(1) by (auto simp: execute_branch_def branch_effect_def split: option.splits)
  next
    case False
    then obtain p where p: "pending = Some p"
      by auto
    obtain r1 w1 where s: "publishStep env (ro_Now opt) (io_execute (re_io env b)) f b (Some p) None w = (r1, w1)"
      by (cases "publishStep env (ro_Now opt) (io_execute (re_io env b)) f b (Some p) None w")
    have r: "w' = w1" "r = (case r1 of Inl e \<Rightarrow> Inl (Executing b e) | Inr sb \<Rightarrow> Inr (plan\<lparr>bp_Execute := Generation sb\<rparr>))"
      using assms(1) False p s by (auto simp: execute_branch_def split: sum.splits)
    note eff = publishStep_effect [OF s assms(2), of "run_keys (re_scheme env) live pending"]
    show ?thesis
      using eff p r by (auto simp: run_keys_def signed_by_def split: sum.splits)
  qed
  then show "branch_effect (re_scheme env) (run_keys (re_scheme env) live pending) b w w'"
    "r = Inr pl \<Longrightarrow> \<not> ro_DryRun opt \<Longrightarrow> pending = Some p \<Longrightarrow> signed_by (re_scheme env) {ed_public (re_scheme env) p} w' b"
    by blast+
qed

lemma phaseOf_executed: "phaseOf sc head live (Some p) b = Inr PhaseExecuted \<Longrightarrow> SigningPub head = ed_public sc p"
  by (auto simp: phaseOf_def split: if_splits option.splits)

text \<open>A half of a branch's run: its effect, and who signs the head when a whole run succeeds.\<close>

definition half_done :: "rot_env \<Rightarrow> rot_opts \<Rightarrow> bytes \<Rightarrow> bytes option \<Rightarrow> string \<Rightarrow> rot_world \<Rightarrow> (rot_error + branch_plan) \<times> rot_world \<Rightarrow> bool" where
  "half_done env opt live pending b w res \<longleftrightarrow>
     branch_effect (re_scheme env) (run_keys (re_scheme env) live pending) b w (snd res) \<and>
     (\<forall>pl p. fst res = Inr pl \<and> \<not> ro_DryRun opt \<and> \<not> ro_AnnounceOnly opt \<and> pending = Some p \<longrightarrow>
        signed_by (re_scheme env) {ed_public (re_scheme env) p} (snd res) b)"

lemma half_doneI:
  "branch_effect (re_scheme env) (run_keys (re_scheme env) live pending) b w w1 \<Longrightarrow> half_done env opt live pending b w1 res \<Longrightarrow>
    half_done env opt live pending b w res"
  using branch_effect_trans unfolding half_done_def by blast

lemma half_done_error:
  "branch_effect (re_scheme env) (run_keys (re_scheme env) live pending) b w w1 \<Longrightarrow> half_done env opt live pending b w (Inl e, w1)"
  "branch_effect (re_scheme env) (run_keys (re_scheme env) live pending) b w w1 \<Longrightarrow> pending = None \<or> ro_AnnounceOnly opt \<Longrightarrow>
    half_done env opt live pending b w (Inr pl, w1)"
  by (auto simp: half_done_def)

lemma execute_half:
  assumes "round_trips (re_scheme env)"
  shows "half_done env opt live pending b w (execute_branch env opt pending b f plan w)"
  using execute_branch_effect [OF _ assms] unfolding half_done_def by (metis prod.collapse)

lemma announce_half:
  assumes "round_trips (re_scheme env)"
  shows "half_done env opt live (Some p) b w (announce_branch env opt live p b f plan w)"
proof -
  let ?sc = "re_scheme env" and ?E = "branch_effect (re_scheme env) (run_keys (re_scheme env) live (Some p)) b"
  obtain r1 w1 where s: "publishStep env (ro_Now opt) (io_announce (re_io env b)) f b (Some live) (Some (ed_public ?sc p)) w = (r1, w1)"
    by (cases "publishStep env (ro_Now opt) (io_announce (re_io env b)) f b (Some live) (Some (ed_public ?sc p)) w")
  obtain r2 w2 where f2: "fetch_head env (io_refetch (re_io env b)) b w1 = (r2, w2)"
    by (cases "fetch_head env (io_refetch (re_io env b)) b w1")
  have e1: "?E w w1"
    using publishStep_effect(1) [OF s assms] by (simp add: run_keys_def)
  have e2: "?E w w2"
    using branch_effect_trans [OF e1 fetch_head_effect [OF f2]] .
  show ?thesis
  proof (cases r1)
    case (Inl e)
    then show ?thesis
      using s half_done_error(1) [OF e1] by (simp add: announce_branch_def)
  next
    case (Inr sb)
    then show ?thesis
      using s f2 half_done_error [OF e2] half_doneI [OF e2 execute_half [OF assms]]
      by (cases r2) (simp_all add: announce_branch_def Let_def)
  qed
qed

lemma rotateBranch_half:
  assumes "round_trips (re_scheme env)"
  shows "half_done env opt live pending b w (rotateBranch env opt live pending b w)"
proof -
  let ?sc = "re_scheme env"
  obtain r1 w1 where f1: "fetch_head env (io_fetch (re_io env b)) b w = (r1, w1)"
    by (cases "fetch_head env (io_fetch (re_io env b)) b w")
  note e1 = fetch_head_effect [OF f1, of "run_keys ?sc live pending"]
  show ?thesis
  proof (cases r1)
    case (Inl e)
    then show ?thesis
      using f1 half_done_error(1) [OF e1] by (simp add: rotateBranch_def)
  next
    case (Inr f)
    have hd1: "head_of ?sc w1 b = Some (f_Superblock f)"
      using fetch_head_frame(2,3) [OF f1] Inr by (simp add: head_of_def)
    show ?thesis
    proof (cases "phaseOf ?sc (f_Superblock f) live pending b")
      case (Inl e)
      then show ?thesis
        using f1 Inr half_done_error(1) [OF e1] by (simp add: rotateBranch_def Let_def)
    next
      case ph: (Inr ph)
      have "signed_by ?sc {ed_public ?sc p} w1 b" if "pending = Some p" "ph = PhaseExecuted" for p
        using phaseOf_executed [of ?sc "f_Superblock f" live p b] ph that hd1 by (simp add: signed_by_def)
      then have "half_done env opt live pending b w (Inr pl, w1)" if "ph = PhaseExecuted" for pl
        using e1 that by (simp add: half_done_def)
      then show ?thesis
        using f1 Inr ph half_done_error(2) [OF e1] half_doneI [OF e1 execute_half [OF assms]]
          half_doneI [of env live "Some _" b w w1, OF _ announce_half [OF assms]] e1
        by (cases ph; cases pending) (simp_all add: rotateBranch_def Let_def)
    qed
  qed
qed

lemma rotateBranch_effect:
  assumes "rotateBranch env opt live pending b w = (r, w')" "round_trips (re_scheme env)"
  shows "branch_effect (re_scheme env) (run_keys (re_scheme env) live pending) b w w' \<and>
    (\<forall>pl p. r = Inr pl \<and> \<not> ro_DryRun opt \<and> \<not> ro_AnnounceOnly opt \<and> pending = Some p \<longrightarrow>
       signed_by (re_scheme env) {ed_public (re_scheme env) p} w' b)"
  using rotateBranch_half [OF assms(2), of opt live pending b w] assms(1) by (simp add: half_done_def)

text \<open>Over all branches: keys stay, and each head stays or gets a signer of the run.\<close>

definition run_effect :: "scheme \<Rightarrow> bytes set \<Rightarrow> rot_world \<Rightarrow> rot_world \<Rightarrow> bool" where
  "run_effect sc pubs w w' \<longleftrightarrow> rw_keys w' = rw_keys w \<and> (\<forall>c. head_of sc w' c = head_of sc w c \<or> signed_by sc pubs w' c)"

lemma branch_run_effect: "branch_effect sc pubs b w w' \<Longrightarrow> run_effect sc pubs w w'"
  unfolding branch_effect_def run_effect_def by metis

lemma run_effect_trans: "run_effect sc pubs w w1 \<Longrightarrow> run_effect sc pubs w1 w2 \<Longrightarrow> run_effect sc pubs w w2"
  unfolding run_effect_def signed_by_def by metis

lemma signed_by_keeps:
  assumes "rotateBranch env opt live (Some p) b w = (Inr pl, w')" "round_trips (re_scheme env)" "\<not> ro_DryRun opt" "\<not> ro_AnnounceOnly opt"
    and "signed_by (re_scheme env) {ed_public (re_scheme env) p} w c"
  shows "signed_by (re_scheme env) {ed_public (re_scheme env) p} w' c"
  using rotateBranch_effect [OF assms(1,2)] assms(3-5) by (cases "c = b") (auto simp: branch_effect_def signed_by_def)

lemma rotate_all_effect:
  assumes "rotate_all env opt live pending bs w = (r, w')" "round_trips (re_scheme env)"
  shows "run_effect (re_scheme env) (run_keys (re_scheme env) live pending) w w'"
  using assms(1)
proof (induction bs arbitrary: w r)
  case (Cons b bs)
  obtain r1 w1 where b: "rotateBranch env opt live pending b w = (r1, w1)"
    by (cases "rotateBranch env opt live pending b w")
  note e = branch_run_effect [OF conjunct1 [OF rotateBranch_effect [OF b assms(2)]]]
  show ?case
  proof (cases r1)
    case (Inl x)
    then show ?thesis
      using Cons.prems b e by simp
  next
    case (Inr pl)
    then obtain r2 where "rotate_all env opt live pending bs w1 = (r2, w')"
      using Cons.prems b by (auto split: prod.splits sum.splits)
    then show ?thesis
      using run_effect_trans [OF e Cons.IH] by blast
  qed
qed (simp add: run_effect_def)

lemma rotate_all_done:
  assumes "rotate_all env opt live (Some p) bs w = (Inr pls, w')" "round_trips (re_scheme env)" "\<not> ro_DryRun opt" "\<not> ro_AnnounceOnly opt"
  shows "(\<forall>c. signed_by (re_scheme env) {ed_public (re_scheme env) p} w c \<longrightarrow> signed_by (re_scheme env) {ed_public (re_scheme env) p} w' c) \<and>
    (\<forall>b \<in> set bs. signed_by (re_scheme env) {ed_public (re_scheme env) p} w' b)"
  using assms(1)
proof (induction bs arbitrary: w pls)
  case (Cons b bs)
  obtain pl w1 where b: "rotateBranch env opt live (Some p) b w = (Inr pl, w1)"
    using Cons.prems by (auto split: prod.splits sum.splits)
  obtain pls2 where rest: "rotate_all env opt live (Some p) bs w1 = (Inr pls2, w')"
    using Cons.prems b by (auto split: prod.splits sum.splits)
  have "signed_by (re_scheme env) {ed_public (re_scheme env) p} w1 b"
    using rotateBranch_effect [OF b assms(2)] assms(3,4) by blast
  then show ?case
    using Cons.IH [OF rest] signed_by_keeps [OF b assms(2-4)] by auto
qed simp

definition keyed :: "scheme \<Rightarrow> rot_world \<Rightarrow> bool" where
  "keyed sc w \<longleftrightarrow> (\<forall>b sb. head_of sc w b = Some sb \<and> \<not> IsUnsigned sb \<longrightarrow> held sc (rw_keys w) (SigningPub sb))"

text \<open>A branch the next seal can be signed for: its key is live, or pending and so one promotion away.\<close>

definition sealable :: "scheme \<Rightarrow> key_files \<Rightarrow> bytes \<Rightarrow> bool" where
  "sealable sc ks pub \<longleftrightarrow> map_option (ed_public sc) (key_at ks LiveKey) = Some pub \<or>
     map_option (ed_public sc) (key_at ks PendingKey) = Some pub"

definition ready :: "scheme \<Rightarrow> rot_world \<Rightarrow> string \<Rightarrow> bool" where
  "ready sc w b \<longleftrightarrow> (\<forall>sb. head_of sc w b = Some sb \<and> \<not> IsUnsigned sb \<longrightarrow> sealable sc (rw_keys w) (SigningPub sb))"

text \<open>What is relied on of minting: a racing process leaves the other files alone, and a key has its length.\<close>

definition fair_mint :: "rot_env \<Rightarrow> bool" where
  "fair_mint env \<longleftrightarrow> (\<forall>ks q. q \<noteq> PendingKey \<longrightarrow> re_raced env ks q = ks q) \<and>
     (\<forall>priv. re_mint env = Some priv \<longrightarrow> length priv = PrivateKeyLen)"

lemma pending_for_keys:
  assumes "pending_for env opt ks = (r, ks')" "fair_mint env"
  shows "q \<noteq> PendingKey \<Longrightarrow> ks' q = ks q" "ks PendingKey \<noteq> None \<Longrightarrow> ks' = ks" "held sc ks pub \<Longrightarrow> held sc ks' pub"
    "r = Inr (Some p) \<Longrightarrow> key_at ks' PendingKey = Some p"
proof -
  have mint: "(q \<noteq> PendingKey \<longrightarrow> ks' q = ks q) \<and> (ks PendingKey \<noteq> None \<longrightarrow> ks' = ks) \<and> (held sc ks pub \<longrightarrow> held sc ks' pub) \<and>
      (r = Inr (Some p) \<longrightarrow> key_at ks' PendingKey = Some p)"
    if m: "MintPending (re_start env) (re_mint env) (re_raced env) ks = (r, ks')" for q pub p
  proof (cases "\<exists>priv. Pending (re_start env) ks = Inr None \<and> re_mint env = Some priv")
    case True
    then obtain priv where "length priv = PrivateKeyLen" "re_mint env = Some priv" "Pending (re_start env) ks = Inr None"
      using assms(2) unfolding fair_mint_def by blast
    then have none: "ks PendingKey = None"
      by (auto simp: Pending_def readKey_def split: if_splits option.splits)
    have r: "re_raced env k q = k q" if "q \<noteq> PendingKey" for k q
      using assms(2) that unfolding fair_mint_def by blast
    have frame: "ks' q = ks q" if "q \<noteq> PendingKey" for q
      using m r [OF that] that by (auto simp: MintPending_def Let_def split: sum.splits option.splits if_splits)
    have "held sc ks' pub" if "held sc ks pub"
      using that
    proof (rule held_cong)
      fix p k
      assume "\<forall>q. p \<noteq> KeyTmp q" "key_at ks p = Some k"
      moreover from this have "key_at ks' p = Some k"
        using frame [of p] none by (cases "p = PendingKey") (auto simp: key_at_def)
      ultimately show "held sc ks' (ed_public sc k)"
        using heldI by blast
    qed
    moreover have "r = Inr (Some p) \<longrightarrow> key_at ks' PendingKey = Some p"
      using m \<open>length priv = PrivateKeyLen\<close> \<open>re_mint env = Some priv\<close> \<open>Pending (re_start env) ks = Inr None\<close>
      by (auto simp: MintPending_def Let_def key_at_upd split: if_splits option.splits dest: Pending_key_at)
    ultimately show ?thesis
      using frame none by blast
  next
    case False
    then show ?thesis
      using m by (auto simp: MintPending_def split: sum.splits option.splits dest: Pending_key_at)
  qed
  have dry: "ks' = ks \<and> (r = Inr (Some p) \<longrightarrow> key_at ks PendingKey = Some p)" if "ro_DryRun opt" for p
    using assms(1) that by (auto simp: pending_for_def dest: Pending_key_at)
  show "q \<noteq> PendingKey \<Longrightarrow> ks' q = ks q" "ks PendingKey \<noteq> None \<Longrightarrow> ks' = ks" "held sc ks pub \<Longrightarrow> held sc ks' pub"
    "r = Inr (Some p) \<Longrightarrow> key_at ks' PendingKey = Some p"
    using mint dry assms(1) by (auto simp: pending_for_def split: if_splits)
qed

text \<open>The ways a run ends: before the branches, among them, or at the promotion.\<close>

lemma Execute_cases:
  assumes "Execute env opt w = (r, w')"
  obtains (start) "w' = w" "\<exists>e. r = Inl e"
  | (mint) live e ks where "Live (re_start env) (rw_keys w) = Inr live" "pending_for env opt (rw_keys w) = (Inl e, ks)"
      "w' = w\<lparr>rw_keys := ks\<rparr>" "\<exists>e. r = Inl e"
  | (branches) live pending ks rs where "Live (re_start env) (rw_keys w) = Inr live" "pending_for env opt (rw_keys w) = (Inr pending, ks)"
      "rotate_all env opt live pending (ro_Branches opt) (w\<lparr>rw_keys := ks\<rparr>) = (rs, w')"
      "(\<exists>e. r = Inl e) \<or> ro_DryRun opt \<or> ro_AnnounceOnly opt"
  | (promote) live pending ks plans w1 e ks1 where "Live (re_start env) (rw_keys w) = Inr live"
      "pending_for env opt (rw_keys w) = (Inr pending, ks)"
      "rotate_all env opt live pending (ro_Branches opt) (w\<lparr>rw_keys := ks\<rparr>) = (Inr plans, w1)"
      "\<not> ro_DryRun opt" "\<not> ro_AnnounceOnly opt" "Promote (re_scheme env) (re_end env) (rw_keys w1) = (e, ks1)"
      "w' = w1\<lparr>rw_keys := ks1\<rparr>" "e \<noteq> None \<longleftrightarrow> (\<exists>x. r = Inl x)"
      "\<forall>res. r = Inr res \<longrightarrow> rr_Promoted res \<and> rr_NewPub res = (case pending of None \<Rightarrow> [] | Some p \<Rightarrow> PublicOf (re_scheme env) p)"
proof (cases "ro_Branches opt = [] \<or> (\<exists>e. Live (re_start env) (rw_keys w) = Inl e)")
  case True
  then show ?thesis
    using assms start by (auto simp: Execute_def split: if_splits)
next
  case False
  then obtain live where live: "ro_Branches opt \<noteq> []" "Live (re_start env) (rw_keys w) = Inr live"
    by (cases "Live (re_start env) (rw_keys w)") auto
  obtain pr ks where pf: "pending_for env opt (rw_keys w) = (pr, ks)"
    by (cases "pending_for env opt (rw_keys w)")
  show ?thesis
  proof (cases pr)
    case (Inl e)
    then show ?thesis
      using assms live pf mint by (auto simp: Execute_def)
  next
    case (Inr pending)
    obtain rs w1 where ra: "rotate_all env opt live pending (ro_Branches opt) (w\<lparr>rw_keys := ks\<rparr>) = (rs, w1)"
      by (cases "rotate_all env opt live pending (ro_Branches opt) (w\<lparr>rw_keys := ks\<rparr>)")
    show ?thesis
    proof (cases "(\<exists>e. rs = Inl e) \<or> ro_DryRun opt \<or> ro_AnnounceOnly opt")
      case True
      then have "w' = w1" "(\<exists>e. r = Inl e) \<or> ro_DryRun opt \<or> ro_AnnounceOnly opt"
        using assms live pf Inr ra by (auto simp: Execute_def Let_def split: sum.splits)
      then show ?thesis
        using branches live(2) pf Inr ra by blast
    next
      case False
      then obtain plans where rs: "rs = Inr plans"
        by (cases rs) auto
      obtain e ks1 where pm: "Promote (re_scheme env) (re_end env) (rw_keys w1) = (e, ks1)"
        by (cases "Promote (re_scheme env) (re_end env) (rw_keys w1)")
      show ?thesis
        by (rule promote [OF live(2) pf [unfolded Inr] ra [unfolded rs] _ _ pm])
          (use assms live pf Inr ra rs False pm in \<open>auto simp: Execute_def Let_def split: option.splits\<close>)
    qed
  qed
qed

lemma keyed_run:
  assumes "run_effect sc pubs w w'" "keyed sc w" "\<forall>pub \<in> pubs. held sc (rw_keys w) pub"
  shows "keyed sc w'"
  unfolding keyed_def
proof (intro allI impI, elim conjE)
  fix b sb
  assume sb: "head_of sc w' b = Some sb" "\<not> IsUnsigned sb"
  have "rw_keys w' = rw_keys w" "head_of sc w' b = head_of sc w b \<or> signed_by sc pubs w' b"
    using assms(1) unfolding run_effect_def by blast+
  then show "held sc (rw_keys w') (SigningPub sb)"
    using sb assms(2,3) by (auto simp: keyed_def signed_by_def)
qed

lemma keyed_keys: "keyed sc w \<Longrightarrow> \<forall>pub. held sc (rw_keys w) pub \<longrightarrow> held sc ks pub \<Longrightarrow> keyed sc (w\<lparr>rw_keys := ks\<rparr>)"
  by (auto simp: keyed_def head_of_def)

lemma run_keys_held:
  assumes "Live (re_start env) (rw_keys w) = Inr live" "pending_for env opt (rw_keys w) = (Inr pending, ks)" "fair_mint env"
  shows "key_at ks LiveKey = Some live" "pending = Some p \<Longrightarrow> key_at ks PendingKey = Some p"
    "\<forall>pub \<in> run_keys sc live pending. held sc ks pub"
proof -
  note p = pending_for_keys [OF assms(2,3)]
  show live: "key_at ks LiveKey = Some live"
    using Live_key_at [OF assms(1)] p(1) by (simp add: key_at_def)
  show pend: "pending = Some p \<Longrightarrow> key_at ks PendingKey = Some p" for p
    using p(4) by simp
  show "\<forall>pub \<in> run_keys sc live pending. held sc ks pub"
    using heldI [OF live] heldI [OF pend] by (auto simp: run_keys_def split: option.splits)
qed

text \<open>
  C25: a rotation never loses a key, wherever it is interrupted. Suppose that for the head of
  every signed branch some file of the state directory holds the private key. Whatever fails
  in a run, at any call, that is still so afterwards, and every key that was held is held: no
  branch ends with a head signed by a key nothing has. What is relied on is that the document
  codec round-trips, that keys differ in the four bytes the archive names them by, and that a
  racing mint touches nothing but the pending file.
\<close>

theorem rotation_never_loses_a_key:
  assumes "Execute env opt w = (r, w')" "round_trips (re_scheme env)" "fair_mint env"
    and "archive_ok (re_scheme env) (rw_keys w)" "keyed (re_scheme env) w"
  shows "keyed (re_scheme env) w' \<and>
    (\<forall>pub. held (re_scheme env) (rw_keys w) pub \<longrightarrow> held (re_scheme env) (rw_keys w') pub)"
  using assms(1)
proof (cases rule: Execute_cases)
  case start
  then show ?thesis
    using assms(5) by simp
next
  case (mint live e ks)
  then show ?thesis
    using pending_for_keys(3) [OF mint(2) assms(3)] keyed_keys [OF assms(5)] by simp
next
  case (branches live pending ks rs)
  note k = pending_for_keys(3) [OF branches(2) assms(3)] and run = rotate_all_effect [OF branches(3) assms(2)]
  have "keyed (re_scheme env) w'"
    using keyed_run [OF run keyed_keys [OF assms(5)]] k run_keys_held(3) [OF branches(1,2) assms(3)] by simp
  then show ?thesis
    using k run by (simp add: run_effect_def)
next
  case (promote live pending ks plans w1 e ks1)
  note k = pending_for_keys [OF promote(2) assms(3)] and run = rotate_all_effect [OF promote(3) assms(2)]
  have w1: "keyed (re_scheme env) w1"
    using keyed_run [OF run keyed_keys [OF assms(5)]] k(3) run_keys_held(3) [OF promote(1,2) assms(3)] by simp
  have ks: "rw_keys w1 = ks"
    using run by (simp add: run_effect_def)
  have "key_at ks LiveKey = key_at (rw_keys w) LiveKey"
    "key_at ks (retiredPath (re_scheme env) x) = key_at (rw_keys w) (retiredPath (re_scheme env) x)" for x
    using k(1) [of LiveKey] k(1) [of "retiredPath (re_scheme env) x"] by (simp_all add: key_at_def retiredPath_def)
  then have "archive_ok (re_scheme env) ks"
    using assms(4) by (simp add: archive_ok_def)
  then have p: "held (re_scheme env) ks1 pub" if "held (re_scheme env) ks pub" for pub
    using Promote_held [OF promote(6)] that ks by simp
  then show ?thesis
    using keyed_keys [OF w1] ks k(3) promote(7) by simp
qed

lemma ready_run:
  assumes "run_effect sc pubs w w'" "ready sc w b" "\<forall>pub \<in> pubs. sealable sc (rw_keys w) pub"
  shows "ready sc w' b"
proof -
  have "rw_keys w' = rw_keys w" "head_of sc w' b = head_of sc w b \<or> signed_by sc pubs w' b"
    using assms(1) unfolding run_effect_def by blast+
  then show ?thesis
    using assms(2,3) by (auto simp: ready_def signed_by_def)
qed

lemma ready_keys: "ready sc w b \<Longrightarrow> \<forall>pub. sealable sc (rw_keys w) pub \<longrightarrow> sealable sc ks pub \<Longrightarrow> ready sc (w\<lparr>rw_keys := ks\<rparr>) b"
  by (simp add: ready_def head_of_def)

lemma pending_for_sealable:
  assumes "pending_for env opt ks = (r, ks')" "fair_mint env" "sealable sc ks pub"
  shows "sealable sc ks' pub"
proof -
  have "key_at ks' LiveKey = key_at ks LiveKey"
    using pending_for_keys(1) [OF assms(1,2)] by (simp add: key_at_def)
  moreover have "key_at ks' PendingKey = key_at ks PendingKey" if "key_at ks PendingKey \<noteq> None"
    using pending_for_keys(2) [OF assms(1,2)] that by (auto simp: key_at_def split: option.splits)
  ultimately show ?thesis
    using assms(3) by (auto simp: sealable_def)
qed

lemma run_keys_sealable:
  assumes "Live (re_start env) (rw_keys w) = Inr live" "pending_for env opt (rw_keys w) = (Inr pending, ks)" "fair_mint env"
  shows "\<forall>pub \<in> run_keys sc live pending. sealable sc ks pub"
  using run_keys_held(1,2) [OF assms] by (auto simp: run_keys_def sealable_def split: option.splits)

lemma pending_for_some:
  assumes "pending_for env opt ks = (Inr pending, ks')" "\<not> ro_DryRun opt"
  shows "pending \<noteq> None"
proof -
  have "False" if "Pending d ks = Inr None" "ks PendingKey \<noteq> None" for d ks
    using that by (auto simp: Pending_def readKey_def split: if_splits option.splits)
  then show ?thesis
    using assms by (cases pending) (auto simp: pending_for_def MintPending_def Let_def split: sum.splits option.splits if_splits)
qed

text \<open>
  C26: a rotation interrupted anywhere leaves a volume whose next seal can be signed. If the
  key of a rotated branch's head is the live or the pending one before a run, it is one of
  the two after it, whatever failed.
\<close>

theorem interrupted_rotation_can_seal:
  assumes "Execute env opt w = (r, w')" "round_trips (re_scheme env)" "fair_mint env"
    and "b \<in> set (ro_Branches opt)" "ready (re_scheme env) w b"
  shows "ready (re_scheme env) w' b"
  using assms(1)
proof (cases rule: Execute_cases)
  case start
  then show ?thesis
    using assms(5) by simp
next
  case (mint live e ks)
  then show ?thesis
    using ready_keys [OF assms(5)] pending_for_sealable [OF mint(2) assms(3)] by blast
next
  case (branches live pending ks rs)
  have "ready (re_scheme env) (w\<lparr>rw_keys := ks\<rparr>) b"
    using ready_keys [OF assms(5)] pending_for_sealable [OF branches(2) assms(3)] by blast
  then show ?thesis
    using ready_run [OF rotate_all_effect [OF branches(3) assms(2)]] run_keys_sealable [OF branches(1,2) assms(3)] by simp
next
  case (promote live pending ks plans w1 e ks1)
  note run = rotate_all_effect [OF promote(3) assms(2)]
  have "ready (re_scheme env) (w\<lparr>rw_keys := ks\<rparr>) b"
    using ready_keys [OF assms(5)] pending_for_sealable [OF promote(2) assms(3)] by blast
  then have w1: "ready (re_scheme env) w1 b" "rw_keys w1 = ks"
    using ready_run [OF run] run_keys_sealable [OF promote(1,2) assms(3)] run by (simp_all add: run_effect_def)
  show ?thesis
  proof (cases e)
    case (Some x)
    then show ?thesis
      using Promote_failed [OF promote(6) [unfolded Some]] w1 promote(7)
      by (simp add: ready_def head_of_def key_at_def sealable_def)
  next
    case None
    obtain p where p: "pending = Some p"
      using pending_for_some [OF promote(2,4)] by auto
    then have "key_at ks PendingKey = Some p"
      using run_keys_held(2) [OF promote(1,2) assms(3)] by blast
    then have "key_at ks1 LiveKey = Some p"
      using Promote_done [OF promote(6) [unfolded None]] w1(2) Pending_key_at by fastforce
    moreover have "signed_by (re_scheme env) {ed_public (re_scheme env) p} w1 b"
      using rotate_all_done [OF promote(3) [unfolded p] assms(2) promote(4,5)] assms(4) by blast
    ultimately show ?thesis
      using promote(7) by (simp add: ready_def head_of_def sealable_def signed_by_def)
  qed
qed

text \<open>
  a rotation that reports success is complete. When a run that was to publish and to
  finish returns its result, every branch it was given has a head signed by one and the same
  successor key, which is the live key of the state directory; no key is pending, and the key
  that was live is in the archive.
\<close>

theorem reported_rotation_is_complete:
  assumes "Execute env opt w = (Inr res, w')" "round_trips (re_scheme env)" "fair_mint env"
    and "\<not> ro_DryRun opt" "\<not> ro_AnnounceOnly opt"
  shows "\<exists>live p. key_at (rw_keys w) LiveKey = Some live \<and> rr_Promoted res \<and> rr_NewPub res = PublicOf (re_scheme env) p \<and>
    key_at (rw_keys w') LiveKey = Some p \<and> rw_keys w' PendingKey = None \<and>
    key_at (rw_keys w') (retiredPath (re_scheme env) live) = Some live \<and>
    (\<forall>b \<in> set (ro_Branches opt). \<forall>sb. head_of (re_scheme env) w' b = Some sb \<longrightarrow> SigningPub sb = ed_public (re_scheme env) p)"
  using assms(1)
proof (cases rule: Execute_cases)
  case (promote live pending ks plans w1 e ks1)
  have e: "e = None"
    using promote(8) by auto
  obtain p where p: "pending = Some p"
    using pending_for_some [OF promote(2,4)] by auto
  have w1: "rw_keys w1 = ks"
    using rotate_all_effect [OF promote(3) assms(2)] by (simp add: run_effect_def)
  have at: "key_at ks PendingKey = Some p" "key_at ks LiveKey = Some live"
    using run_keys_held(1,2) [OF promote(1,2) assms(3)] p by blast+
  obtain q where q: "Pending (re_end env) ks = Inr (Some q)" "key_at ks1 LiveKey = Some q" "ks1 PendingKey = None"
    "\<forall>live. Live (re_end env) ks = Inr live \<longrightarrow> key_at ks1 (retiredPath (re_scheme env) live) = Some live"
    using Promote_done [OF promote(6) [unfolded e]] w1 by auto
  have "q = p"
    using at(1) Pending_key_at [OF q(1)] by simp
  have "Live (re_end env) ks = Inr live"
  proof (rule ccontr)
    assume n: "Live (re_end env) ks \<noteq> Inr live"
    then have "Live (re_end env) ks = Inl KeyIO"
      using at(2) by (cases "kd_read_fails (re_end env) LiveKey") (auto simp: Live_def readKey_def key_at_def split: option.splits)
    then show False
      using promote(6) q(1) w1 e by (simp add: Promote_def)
  qed
  then have "key_at ks1 (retiredPath (re_scheme env) live) = Some live"
    using q(4) by blast
  moreover have "\<forall>b \<in> set (ro_Branches opt). signed_by (re_scheme env) {ed_public (re_scheme env) p} w1 b"
    using rotate_all_done [OF promote(3) [unfolded p] assms(2,4,5)] by blast
  moreover have "rr_Promoted res \<and> rr_NewPub res = PublicOf (re_scheme env) p"
    using promote(9) p by simp
  ultimately show ?thesis
    using Live_key_at [OF promote(1)] q(2,3) \<open>q = p\<close> promote(7) by (auto simp: signed_by_def head_of_def)
qed (use assms(4,5) in auto)

section \<open>Readers and rotations\<close>

text \<open>
  C27: a rotation is a custody chain that changes nothing else. From a head signed by the live
  key, the announcement and the generation that uses it are both accepted by the chain rule:
  a reader who recorded the head accepts the announcement, one who recorded the announcement
  accepts its use, and the successor key is then one that custody leads to. A reader who
  missed the announcement is refused. The announcement is the head but for its generation,
  lineage hash, time, branch, announced key, key and signature, and the generation that uses it
  is in turn the announcement but for the same fields. It is assumed that a signature made with
  a private key verifies under its public key, and that the document encoder writes bytes that
  decode to the document.
\<close>

theorem readers_follow_the_rotation:
  assumes "signs_verify sc" "round_trips sc" "unmarshal sc prevRaw = Some prev" "Verify sc (ed_public sc live) prev = None"
    and "Successor sc weigh prev prevRaw b now live' (Some (ed_public sc p)) = Inr (sb1, raw1)" "live' = Some live"
    and "Successor sc weigh sb1 raw1 b now2 (Some p) None = Inr (sb2, raw2)"
  shows "VerifyChain sc prevRaw (Some sb1) (ed_public sc live) = None \<and> VerifyChain sc raw1 (Some sb2) (ed_public sc live) = None \<and>
    VerifyChain sc prevRaw (Some sb2) (ed_public sc live) \<noteq> None \<and> custody sc (ed_public sc live) (ed_public sc p) \<and>
    sb1 = prev\<lparr>Generation := Generation prev + 1, PrevHash := sum256 sc prevRaw, CreatedUnixNano := now, Branch := b,
      NextPub := Some (ed_public sc p), SigningPub := ed_public sc live, Signature := Signature sb1\<rparr> \<and>
    sb2 = prev\<lparr>Generation := Generation prev + 2, PrevHash := sum256 sc raw1, CreatedUnixNano := now2, Branch := b,
      NextPub := None, SigningPub := ed_public sc p, Signature := Signature sb2\<rparr>"
proof -
  note s1 = Successor_fields [OF assms(5) [unfolded assms(6)]] and s2 = Successor_fields [OF assms(7)]
  have keys: "length (ed_public sc live) = 32" "length (ed_public sc p) = 32"
    using s1(7) [OF refl] s2(7) [OF refl] assms(1) unfolding signs_verify_def by blast+
  have v1: "Verify sc (ed_public sc live) sb1 = None"
    using Successor_signed [OF assms(5) [unfolded assms(6)] assms(1) keys(1)] .
  have v2: "Verify sc (ed_public sc p) sb2 = None"
    using Successor_signed [OF assms(7,1) keys(2)] .
  have u1: "unmarshal sc raw1 = Some sb1"
    using s1(1) assms(2) unfolding round_trips_def by blast
  have np: "NextPub sb1 = Some (ed_public sc p)" "SigningPub sb2 = ed_public sc p" "NextPub sb2 = None"
    using s1(7) [OF refl] s2(7) [OF refl] by blast+
  have "VerifyChain sc prevRaw (Some sb1) (ed_public sc live) = None"
    unfolding VerifyChain_ok using assms(3,4) s1(4,5) v1 by blast
  moreover have "VerifyChain sc raw1 (Some sb2) (ed_public sc live) = None"
  proof -
    have "Verify sc (ed_public sc live) sb2 = None \<or> Verify sc (ed_public sc live) sb2 = Some ErrBadSignature"
      using v2 keys(1) by (auto simp: Verify_ok Verify_bad)
    then show ?thesis
      unfolding VerifyChain_ok using u1 v1 s2(4,5) np v2 by blast
  qed
  moreover have "VerifyChain sc prevRaw (Some sb2) (ed_public sc live) \<noteq> None"
  proof
    assume "VerifyChain sc prevRaw (Some sb2) (ed_public sc live) = None"
    then have "Generation sb2 = Generation prev + 1"
      unfolding VerifyChain_ok using assms(3) by auto
    then show False
      using s1(4) s2(4) by simp
  qed
  moreover have "custody sc (ed_public sc live) (ed_public sc p)"
    using custody.announced [OF custody.same] v1 np(1) unfolding announced_by_def by blast
  moreover have "sb1 = prev\<lparr>Generation := Generation prev + 1, PrevHash := sum256 sc prevRaw, CreatedUnixNano := now, Branch := b,
      NextPub := Some (ed_public sc p), SigningPub := ed_public sc live, Signature := Signature sb1\<rparr>"
    using Successor_eq [OF assms(5) [unfolded assms(6)]] by auto
  moreover have "sb2 = prev\<lparr>Generation := Generation prev + 2, PrevHash := sum256 sc raw1, CreatedUnixNano := now2, Branch := b,
      NextPub := None, SigningPub := ed_public sc p, Signature := Signature sb2\<rparr>"
    using Successor_eq [OF assms(5) [unfolded assms(6)]] Successor_eq [OF assms(7)] by auto
  ultimately show ?thesis
    by blast
qed

section \<open>Witnesses\<close>

text \<open>
  A scheme whose documents are a few bytes, with a codec that round-trips because it checks
  itself, and a volume whose branches are signed by key 7; key 8 is the one minted.
\<close>

fun rot_unmarshal :: "bytes \<Rightarrow> superblock option" where
  "rot_unmarshal (k # n # g # s # name) = Some (ex_superblock\<lparr>Generation := ucast g, PrevHash := [], Branch := bytes_str name,
     SigningPub := key_of k, NextPub := (if n = 0 then None else Some (key_of n)),
     Signature := (if s = 0 then zero64 else key_of s)\<rparr>)"
| "rot_unmarshal _ = None"

definition rot_marshal :: "superblock \<Rightarrow> bytes option" where
  "rot_marshal sb =
     (let raw = hd (SigningPub sb) # (case NextPub sb of None \<Rightarrow> 0 | Some x \<Rightarrow> hd x) # ucast (Generation sb) #
        (if Signature sb = zero64 then 0 else hd (Signature sb)) # str_bytes (Branch sb) in
      if rot_unmarshal raw = Some sb then Some raw else None)"

definition rot_scheme :: scheme where
  "rot_scheme = \<lparr>marshal = rot_marshal, unmarshal = rot_unmarshal, ed_public = take 32, ed_sign = \<lambda>priv msg. take 32 priv,
     ed_verify = \<lambda>pub msg sig. sig = pub, sum256 = \<lambda>b. []\<rparr>"

lemma rot_scheme_laws: "round_trips rot_scheme" "signs_verify rot_scheme"
  by (auto simp: round_trips_def signs_verify_def rot_scheme_def rot_marshal_def Let_def split: if_splits)

definition sound_keys :: key_disk where
  "sound_keys = \<lparr>kd_read_fails = \<lambda>_. False, kd_torn = \<lambda>_. None, kd_rename_fails = \<lambda>_. False, kd_remove_fails = \<lambda>_. False\<rparr>"

definition sound_fetch :: fetch_io where
  "sound_fetch = \<lparr>fi_disk = sound_disk, fi_stat_fails = False, fi_get_fails = None, fi_reread = None\<rparr>"

definition sound_flip :: "string \<Rightarrow> flip_io" where
  "sound_flip etag = \<lparr>fl_stat_fails = False, fl_put = PutDone etag, fl_get_fails = None\<rparr>"

definition ex_priv :: "byte \<Rightarrow> bytes" where "ex_priv k = replicate 64 k"

definition ex_rot_env :: rot_env where
  "ex_rot_env = \<lparr>re_scheme = rot_scheme, re_weigh = \<lambda>_. None, re_policy = tofu, re_start = sound_keys, re_mint = Some (ex_priv 8),
     re_raced = id, re_io = \<lambda>_. \<lparr>io_fetch = sound_fetch, io_announce = sound_flip ''2'', io_refetch = sound_fetch,
       io_execute = sound_flip ''3''\<rparr>, re_end = sound_keys, re_pin_disk = sound_disk\<rparr>"

definition rot_doc :: "byte \<Rightarrow> byte \<Rightarrow> byte \<Rightarrow> string \<Rightarrow> bytes" where
  "rot_doc k n g name = k # n # g # k # str_bytes name"

definition ex_world :: "(string \<times> bytes) list \<Rightarrow> byte list \<Rightarrow> rot_world" where
  "ex_world heads keys = \<lparr>
     rw_keys = (\<lambda>p. map_option (\<lambda>k. \<lparr>kf_data = key_line (ex_priv k), kf_writable = True\<rparr>) (map_of (zip [LiveKey, PendingKey] keys) p)),
     rw_state = (\<lambda>p. case p of PinPath \<Rightarrow> Some (pin_body (Some (key_of 7))) | LastPath b \<Rightarrow> map_of heads b | Tmp q \<Rightarrow> None),
     rw_store = (\<lambda>k. map_option (\<lambda>raw. \<lparr>ob_data = raw, ob_etag = ''1''\<rparr>) (map_of (map (\<lambda>(b, raw). (refKey b, raw)) heads) k))\<rparr>"

definition ex_rot_opts :: "string list \<Rightarrow> rot_opts" where
  "ex_rot_opts bs = \<lparr>ro_Branches = bs, ro_Now = 0, ro_DryRun = False, ro_AnnounceOnly = False\<rparr>"

definition ex_start :: rot_world where
  "ex_start = ex_world [(''main'', rot_doc 7 0 1 ''main''), (''dev'', rot_doc 7 0 4 ''dev'')] [7]"

definition rdoc :: "byte \<Rightarrow> byte \<Rightarrow> byte \<Rightarrow> byte \<Rightarrow> string \<Rightarrow> superblock" where
  "rdoc k n g s name = ex_superblock\<lparr>Generation := ucast g, PrevHash := [], Branch := name,
     SigningPub := key_of k, NextPub := (if n = 0 then None else Some (key_of n)),
     Signature := (if s = 0 then zero64 else key_of s)\<rparr>"

lemma rot_doc_decodes [simp]: "rot_unmarshal (rot_doc k n g name) = Some (rdoc k n g k name)"
  by (simp add: rot_doc_def rdoc_def)

lemma hd_key_of [simp]: "hd (key_of k) = k" "key_of k \<noteq> zero64" "zero64 \<noteq> key_of k"
proof -
  have "length (key_of k) \<noteq> length zero64"
    by (simp add: zero64_def)
  then show "key_of k \<noteq> zero64" "zero64 \<noteq> key_of k"
    by metis+
qed (simp add: key_of_def)

lemma length_zero64 [simp]: "length zero64 = 64"
  by (simp add: zero64_def)

lemma key_of_zero32 [simp]: "key_of k = zero32 \<longleftrightarrow> k = 0"
  by (auto simp: key_of_def zero32_def)

lemma ucast_ucast_byte [simp]: "ucast (ucast (g :: byte) :: uint64) = g"
  by (simp add: ucast_up_ucast_id is_up)

lemma rdoc_marshals [simp]: "rot_marshal (rdoc k n g s name) = Some (k # n # g # s # str_bytes name)"
  by (simp add: rot_marshal_def rdoc_def Let_def)

lemma ex_priv_facts [simp]: "length (ex_priv k) = 64" "take 32 (ex_priv k) = key_of k"
  by (simp_all add: ex_priv_def key_of_def)

lemma rot_scheme_sel [simp]: "marshal rot_scheme = rot_marshal" "unmarshal rot_scheme = rot_unmarshal" "ed_public rot_scheme = take 32"
  "ed_sign rot_scheme priv msg = take 32 priv" "ed_verify rot_scheme pub msg sig \<longleftrightarrow> sig = pub" "sum256 rot_scheme b = []"
  by (simp_all add: rot_scheme_def)

lemma rdoc_sel [simp]: "Generation (rdoc k n g s name) = ucast g" "SigningPub (rdoc k n g s name) = key_of k" "Branch (rdoc k n g s name) = name"
  "NextPub (rdoc k n g s name) = (if n = 0 then None else Some (key_of n))" "Signature (rdoc k n g s name) = (if s = 0 then zero64 else key_of s)"
  by (simp_all add: rdoc_def)

lemma rdoc_unsigned [simp]: "IsUnsigned (rdoc k n g s name) \<longleftrightarrow> k = 0 \<and> s = 0"
  by (simp add: IsUnsigned_def)

lemma rdoc_zero_sig: "(rdoc k n g s name)\<lparr>Signature := zero64\<rparr> = rdoc k n g 0 name"
  by (simp add: rdoc_def)

lemma rdoc_verifies [simp]: "Verify rot_scheme key (rdoc k n g s name) =
    (if length key \<noteq> 32 then Some (PublicKeySize (length key)) else if s \<noteq> 0 \<and> key = key_of s then None else Some ErrBadSignature)"
  by (auto simp: Verify_def signingMessage_def rdoc_zero_sig)

lemma rdoc_succeeds:
  assumes "ucast (g + 1) = (ucast g + 1 :: uint64)" "k' \<noteq> 0" "length b < 1000"
  shows "Successor rot_scheme weigh (rdoc k n g s name) raw b 0 (Some (ex_priv k')) (if n' = 0 then None else Some (key_of n')) =
    Inr (rdoc k' n' (g + 1) k' b, k' # n' # (g + 1) # k' # str_bytes b)"
proof -
  let ?sb = "rdoc k n g s name"
  have a: "?sb\<lparr>Generation := Generation ?sb + 1, PrevHash := sum256 rot_scheme raw, CreatedUnixNano := 0, Branch := b,
      NextPub := (if n' = 0 then None else Some (key_of n')), Signature := zero64\<rparr> = rdoc k n' (g + 1) 0 b"
    using assms(1) by (simp add: rdoc_def ex_superblock_def)
  have b: "(rdoc k n' (g + 1) 0 b)\<lparr>SigningPub := key_of k'\<rparr> = rdoc k' n' (g + 1) 0 b"
    "(rdoc k' n' (g + 1) 0 b)\<lparr>Signature := key_of k'\<rparr> = rdoc k' n' (g + 1) k' b"
    using assms(2) by (simp_all add: rdoc_def)
  have c: "Sign rot_scheme (ex_priv k') (rdoc k n' (g + 1) 0 b) = (None, rdoc k' n' (g + 1) k' b)"
    by (simp add: Sign_def Let_def b signingMessage_def rdoc_zero_sig)
  have v: "Validate (rdoc k' n' (g + 1) k' b) = None"
    using assms(2) by (simp add: Validate_def) (simp add: rdoc_def ex_superblock_def)
  have s: "CheckSize weigh (int (length (k' # n' # (g + 1) # k' # str_bytes b))) (rdoc k' n' (g + 1) k' b) = None"
    using assms(3) by (simp add: CheckSize_def MaxEncodedBytes_def)
  show ?thesis
    unfolding Successor_def Let_def a using c v s by simp
qed

lemma sound_key_read [simp]: "readKey sound_keys ks p = (case ks p of None \<Rightarrow> Inl ErrNoKey
    | Some f \<Rightarrow> (case parse_key (kf_data f) of None \<Rightarrow> Inl CorruptKey | Some k \<Rightarrow> Inr k))"
  "kd_torn sound_keys p = None" "\<not> kd_rename_fails sound_keys p" "\<not> kd_remove_fails sound_keys p"
  by (simp_all add: readKey_def sound_keys_def)

lemma ex_key_line [simp]: "parse_key (key_line (ex_priv k)) = Some (ex_priv k)"
  by (simp add: PrivateKeyLen_def)

lemma sound_pin: "fs PinPath = Some (pin_body (Some (key_of k))) \<Longrightarrow> readPin sound_disk fs = Inr (key_pin (key_of k))"
  using pin_in_body [of fs "Some (key_of k)"] by (simp add: pin_in_def sound_disk_def pin_of_body_def)

text \<open>A sound fetch of a head that the pinned key signed, not behind the recorded one.\<close>

lemma sound_fetch_head:
  assumes "rw_store w (refKey b) = Some ob" "ob_data ob = k # n # g # k # str_bytes b" "k \<noteq> 0" "length b < 1000"
    "rw_state w PinPath = Some (pin_body (Some (key_of k)))" "\<not> has_separator b"
    "\<forall>raw. rw_state w (LastPath b) = Some raw \<longrightarrow> (\<exists>k n g' s. raw = k # n # g' # s # str_bytes b \<and> (ucast g' :: uint64) \<le> ucast g)"
    "re_scheme env = rot_scheme" "re_policy env = tofu"
  shows "fetch_head env sound_fetch b w = (Inr \<lparr>f_Superblock = rdoc k n g k b, f_Raw = ob_data ob, f_ETag = ob_etag ob\<rparr>,
    w\<lparr>rw_state := (rw_state w)(Tmp PinPath := None, PinPath \<mapsto> pin_body (Some (key_of k)), Tmp (LastPath b) := None, LastPath b \<mapsto> ob_data ob)\<rparr>)"
proof -
  have u: "rot_unmarshal (ob_data ob) = Some (rdoc k n g k b)"
    using assms(2) by (simp add: rdoc_def)
  have get: "ReadMutable (Get None (rw_store w) (refKey b)) x = Inr (ob_data ob)" for x
    using assms(1,2,4) by (simp add: Get_def MaxMutableObject_def)
  have mono: "checkMonotonic rot_scheme sound_disk (rw_state w) b (rdoc k n g k b) = None"
  proof (cases "rw_state w (LastPath b)")
    case (Some raw)
    then obtain k' n' g' s' where "raw = k' # n' # g' # s' # str_bytes b" "(ucast g' :: uint64) \<le> ucast g"
      using assms(7) by blast
    then show ?thesis
      using Some by (simp add: checkMonotonic_def not_less)
  qed (simp add: checkMonotonic_def)
  note pin = sound_pin [of "rw_state w" k, OF assms(5)]
  show ?thesis
    using assms(3,6,8,9)
    by (simp add: fetch_head_def sound_fetch_def Fetch_def read_ref_def get u mono pinFor_def pin Let_def StatKey_def assms(1)
        checkSigningKind_def key_pin_def decide_head_def present_def the_default_def record_head_def persist_def)
qed


lemma sound_flip_head:
  assumes "rw_store w (refKey b) = Some ob" "ob_etag ob = etag" "etag \<noteq> []" "length raw < 1000"
  shows "flip_head (sound_flip t) b raw etag w =
    (None, w\<lparr>rw_store := (rw_store w)(refKey b \<mapsto> \<lparr>ob_data = raw, ob_etag = t\<rparr>)\<rparr>)"
  using assms by (simp add: flip_head_def sound_flip_def Flip_def flip_check_def StatKey_def Put_def Let_def flip_verify_def
      Get_def MaxMutableObject_def)

lemma ex_env_sel [simp]: "re_scheme ex_rot_env = rot_scheme" "re_policy ex_rot_env = tofu" "re_start ex_rot_env = sound_keys"
  "re_mint ex_rot_env = Some (ex_priv 8)" "re_raced ex_rot_env = id" "re_end ex_rot_env = sound_keys"
  "io_fetch (re_io ex_rot_env b) = sound_fetch" "io_announce (re_io ex_rot_env b) = sound_flip ''2''"
  "io_refetch (re_io ex_rot_env b) = sound_fetch" "io_execute (re_io ex_rot_env b) = sound_flip ''3''"
  by (simp_all add: ex_rot_env_def)

text \<open>A branch at a known head, under the pin of key 7, not behind what was recorded.\<close>

definition at_head :: "rot_world \<Rightarrow> string \<Rightarrow> byte \<Rightarrow> byte \<Rightarrow> byte \<Rightarrow> bool" where
  "at_head w b k n g \<longleftrightarrow> (\<exists>ob. rw_store w (refKey b) = Some ob \<and> ob_data ob = k # n # g # k # str_bytes b \<and> ob_etag ob \<noteq> []) \<and>
     rw_state w PinPath = Some (pin_body (Some (key_of 7))) \<and>
     (\<forall>raw. rw_state w (LastPath b) = Some raw \<longrightarrow> (\<exists>k n g' s. raw = k # n # g' # s # str_bytes b \<and> (ucast g' :: uint64) \<le> ucast g))"

lemma at_head_head: "at_head w b k n g \<Longrightarrow> head_of rot_scheme w b = Some (rdoc k n g k b)"
  by (auto simp: at_head_def head_of_def rdoc_def)

lemma fetch_at:
  assumes "at_head w b 7 n g" "length b < 1000" "\<not> has_separator b"
  shows "\<exists>f w'. fetch_head ex_rot_env sound_fetch b w = (Inr f, w') \<and> f_Superblock f = rdoc 7 n g 7 b \<and> at_head w' b 7 n g \<and>
    map_option ob_etag (rw_store w' (refKey b)) = Some (f_ETag f) \<and> rw_keys w' = rw_keys w"
proof -
  obtain ob where ob: "rw_store w (refKey b) = Some ob" "ob_data ob = 7 # n # g # 7 # str_bytes b" "ob_etag ob \<noteq> []"
    using assms(1) unfolding at_head_def by blast
  show ?thesis
    using sound_fetch_head [OF ob(1,2) _ assms(2) _ assms(3), of ex_rot_env] assms(1) ob by (auto simp: at_head_def)
qed

lemma step_at:
  assumes "at_head w b k n g" "f_Superblock f = rdoc k n g k b" "map_option ob_etag (rw_store w (refKey b)) = Some (f_ETag f)"
    and "ucast (g + 1) = (ucast g + 1 :: uint64)" "(ucast g :: uint64) \<le> ucast (g + 1)" "k' \<noteq> 0" "length b < 900" "t \<noteq> []"
    and "np = (if n' = 0 then None else Some (key_of n'))"
  shows "\<exists>w'. publishStep ex_rot_env 0 (sound_flip t) f b (Some (ex_priv k')) np w = (Inr (rdoc k' n' (g + 1) k' b), w') \<and>
    at_head w' b k' n' (g + 1) \<and> rw_keys w' = rw_keys w"
proof -
  obtain ob where ob: "rw_store w (refKey b) = Some ob" "ob_etag ob = f_ETag f" "f_ETag f \<noteq> []"
    using assms(1,3) unfolding at_head_def by auto
  note s = rdoc_succeeds [of g k' b "\<lambda>_. None" k n k b "f_Raw f" n', folded assms(9)]
  let ?raw = "k' # n' # (g + 1) # k' # str_bytes b"
  have fl: "flip_head (sound_flip t) b ?raw (f_ETag f) w =
      (None, w\<lparr>rw_store := (rw_store w)(refKey b \<mapsto> \<lparr>ob_data = ?raw, ob_etag = t\<rparr>)\<rparr>)"
    using sound_flip_head [OF ob, of ?raw t] assms(7) by simp
  have last: "\<exists>k n g' s. raw = k # n # g' # s # str_bytes b \<and> (ucast g' :: uint64) \<le> ucast (g + 1)"
    if "rw_state w (LastPath b) = Some raw" for raw
    using assms(1,5) that unfolding at_head_def by (meson order_trans)
  have weigh: "re_weigh ex_rot_env = (\<lambda>_. None)"
    by (simp add: ex_rot_env_def)
  have "publishStep ex_rot_env 0 (sound_flip t) f b (Some (ex_priv k')) np w =
      (Inr (rdoc k' n' (g + 1) k' b), w\<lparr>rw_store := (rw_store w)(refKey b \<mapsto> \<lparr>ob_data = ?raw, ob_etag = t\<rparr>)\<rparr>)"
    using s assms(2,4,6,7) fl by (simp add: publishStep_def weigh)
  moreover have "at_head (w\<lparr>rw_store := (rw_store w)(refKey b \<mapsto> \<lparr>ob_data = ?raw, ob_etag = t\<rparr>)\<rparr>) b k' n' (g + 1)"
    using last assms(1,8) by (simp add: at_head_def)
  ultimately show ?thesis
    by simp
qed

lemma ex_opts_sel [simp]: "ro_Branches (ex_rot_opts bs) = bs" "ro_Now (ex_rot_opts bs) = 0" "\<not> ro_DryRun (ex_rot_opts bs)"
  "\<not> ro_AnnounceOnly (ex_rot_opts bs)"
  by (simp_all add: ex_rot_opts_def)

definition ex_key :: "byte \<Rightarrow> key_file" where
  "ex_key k = \<lparr>kf_data = key_line (ex_priv k), kf_writable = True\<rparr>"

lemma ex_key_sel [simp]: "parse_key (kf_data (ex_key k)) = Some (ex_priv k)"
  by (simp add: ex_key_def)

lemma ex_world_sel [simp]: "rw_keys (ex_world heads keys) p = map_option ex_key (map_of (zip [LiveKey, PendingKey] keys) p)"
  by (simp add: ex_world_def ex_key_def [abs_def])

lemma ex_at_head: "at_head (ex_world [(''main'', rot_doc 7 n g ''main'')] keys) ''main'' 7 n g"
  by (simp add: at_head_def ex_world_def rot_doc_def)

lemma ex_announces:
  "\<exists>plan w'. rotateBranch ex_rot_env (ex_rot_opts bs) (ex_priv 7) (Some (ex_priv 8)) ''main''
      (w\<lparr>rw_keys := ks\<rparr>) = (Inr plan, w') \<and> at_head w' ''main'' 8 0 3 \<and> rw_keys w' = ks"
  if "at_head w ''main'' 7 0 1"
proof -
  have h: "at_head (w\<lparr>rw_keys := ks\<rparr>) ''main'' 7 0 1"
    using that by (simp add: at_head_def)
  have name: "length ''main'' < 900" "length ''main'' < 1000" "\<not> has_separator ''main''"
    by (simp_all add: has_separator_def)
  obtain f w1 where f: "fetch_head ex_rot_env sound_fetch ''main'' (w\<lparr>rw_keys := ks\<rparr>) = (Inr f, w1)" "f_Superblock f = rdoc 7 0 1 7 ''main''"
    "at_head w1 ''main'' 7 0 1" "map_option ob_etag (rw_store w1 (refKey ''main'')) = Some (f_ETag f)" "rw_keys w1 = ks"
    using fetch_at [OF h name(2,3)] by auto
  obtain w2 where s: "publishStep ex_rot_env 0 (sound_flip ''2'') f ''main'' (Some (ex_priv 7)) (Some (key_of 8)) w1 =
      (Inr (rdoc 7 8 2 7 ''main''), w2)" "at_head w2 ''main'' 7 8 2" "rw_keys w2 = ks"
    using step_at [OF f(3,2,4), of 7 "''2''" "Some (key_of 8)" 8] f(5) name by auto
  obtain f' w3 where f': "fetch_head ex_rot_env sound_fetch ''main'' w2 = (Inr f', w3)" "f_Superblock f' = rdoc 7 8 2 7 ''main''"
    "at_head w3 ''main'' 7 8 2" "map_option ob_etag (rw_store w3 (refKey ''main'')) = Some (f_ETag f')" "rw_keys w3 = ks"
    using fetch_at [OF s(2) name(2,3)] s(3) by auto
  obtain w4 where s': "publishStep ex_rot_env 0 (sound_flip ''3'') f' ''main'' (Some (ex_priv 8)) None w3 =
      (Inr (rdoc 8 0 3 8 ''main''), w4)" "at_head w4 ''main'' 8 0 3" "rw_keys w4 = ks"
    using step_at [OF f'(3,2,4), of 8 "''3''" None 0] f'(5) name by auto
  have "phaseOf rot_scheme (rdoc 7 0 1 7 ''main'') (ex_priv 7) (Some (ex_priv 8)) ''main'' = Inr PhaseFresh"
    by (simp add: phaseOf_def)
  then have "\<exists>plan. rotateBranch ex_rot_env (ex_rot_opts bs) (ex_priv 7) (Some (ex_priv 8)) ''main'' (w\<lparr>rw_keys := ks\<rparr>) = (Inr plan, w4)"
    using f s f' s' by (simp add: rotateBranch_def Let_def announce_branch_def execute_branch_def)
  then show ?thesis
    using s'(2,3) by blast
qed


definition ex_one :: rot_world where
  "ex_one = ex_world [(''main'', rot_doc 7 0 1 ''main'')] [7]"

lemma ex_rotation:
  "\<exists>res w'. Execute ex_rot_env (ex_rot_opts [''main'']) ex_one = (Inr res, w') \<and> at_head w' ''main'' 8 0 3 \<and>
     rw_keys w' LiveKey = Some (ex_key 8)"
proof -
  let ?ks = "(rw_keys ex_one)(PendingKey \<mapsto> ex_key 8)"
  have live: "Live sound_keys (rw_keys ex_one) = Inr (ex_priv 7)"
    by (simp add: Live_def ex_one_def)
  have mint: "pending_for ex_rot_env (ex_rot_opts [''main'']) (rw_keys ex_one) = (Inr (Some (ex_priv 8)), ?ks)"
    by (simp add: pending_for_def MintPending_def Pending_def Let_def ex_one_def ex_key_def)
  have "at_head ex_one ''main'' 7 0 1"
    unfolding ex_one_def by (rule ex_at_head)
  from ex_announces [OF this, of "[''main'']" ?ks] obtain plan w1 where b:
    "rotateBranch ex_rot_env (ex_rot_opts [''main'']) (ex_priv 7) (Some (ex_priv 8)) ''main'' (ex_one\<lparr>rw_keys := ?ks\<rparr>) = (Inr plan, w1)"
    "at_head w1 ''main'' 8 0 3" "rw_keys w1 = ?ks"
    by blast
  obtain ks1 where p: "Promote rot_scheme sound_keys (rw_keys w1) = (None, ks1)" "ks1 LiveKey = Some (ex_key 8)"
    using b(3) by (simp add: Promote_def Pending_def Live_def writeFileMode_def Let_def promote_rename_def retiredPath_def ex_one_def)
  have "at_head (w1\<lparr>rw_keys := ks1\<rparr>) ''main'' 8 0 3"
    using b(2) by (simp add: at_head_def)
  then show ?thesis
    using live mint b(1) p by (simp add: Execute_def Let_def)
qed

lemma ex_fair: "fair_mint ex_rot_env"
  by (simp add: fair_mint_def PrivateKeyLen_def)

theorem rotation_never_loses_a_key_witness:
  "\<exists>res w'. Execute ex_rot_env (ex_rot_opts [''main'']) ex_one = (Inr res, w') \<and> keyed rot_scheme w' \<and>
     held rot_scheme (rw_keys w') (key_of 7) \<and> head_of rot_scheme w' ''main'' = Some (rdoc 8 0 3 8 ''main'')"
proof -
  obtain res w' where r: "Execute ex_rot_env (ex_rot_opts [''main'']) ex_one = (Inr res, w')" "at_head w' ''main'' 8 0 3"
    using ex_rotation by blast
  have live: "key_at (rw_keys ex_one) LiveKey = Some (ex_priv 7)"
    by (simp add: key_at_def ex_one_def)
  have "SigningPub sb = key_of 7" if "head_of rot_scheme ex_one b = Some sb" for b sb
    using that by (auto simp: head_of_def ex_one_def ex_world_def split: if_splits)
  then have k: "keyed rot_scheme ex_one"
    using heldI [OF live, of rot_scheme "key_of 7"] by (auto simp: keyed_def)
  have a: "archive_ok rot_scheme (rw_keys ex_one)"
    by (simp add: archive_ok_def key_at_def retiredPath_def ex_one_def)
  show ?thesis
    using rotation_never_loses_a_key [OF r(1)] rot_scheme_laws(1) ex_fair a k heldI [OF live, of rot_scheme] r at_head_head [OF r(2)]
    by auto
qed

theorem interrupted_rotation_can_seal_witness:
  "\<exists>res w'. Execute ex_rot_env (ex_rot_opts [''main'']) ex_one = (Inr res, w') \<and> ready rot_scheme w' ''main'' \<and>
     head_of rot_scheme w' ''main'' = Some (rdoc 8 0 3 8 ''main'')"
proof -
  obtain res w' where r: "Execute ex_rot_env (ex_rot_opts [''main'']) ex_one = (Inr res, w')" "at_head w' ''main'' 8 0 3"
    using ex_rotation by blast
  have "head_of rot_scheme ex_one ''main'' = Some (rdoc 7 0 1 7 ''main'')"
    unfolding ex_one_def by (rule at_head_head [OF ex_at_head])
  then have "ready rot_scheme ex_one ''main''"
    by (simp add: ready_def sealable_def key_at_def ex_one_def)
  then show ?thesis
    using interrupted_rotation_can_seal [OF r(1), of "''main''"] rot_scheme_laws(1) ex_fair r at_head_head [OF r(2)] by simp
qed

theorem reported_rotation_is_complete_witness:
  "\<exists>res w'. Execute ex_rot_env (ex_rot_opts [''main'']) ex_one = (Inr res, w') \<and> rr_Promoted res \<and>
     key_at (rw_keys w') (retiredPath rot_scheme (ex_priv 7)) = Some (ex_priv 7)"
proof -
  obtain res w' where r: "Execute ex_rot_env (ex_rot_opts [''main'']) ex_one = (Inr res, w')"
    using ex_rotation by blast
  have live: "key_at (rw_keys ex_one) LiveKey = Some (ex_priv 7)"
    by (simp add: key_at_def ex_one_def)
  show ?thesis
    using reported_rotation_is_complete [OF r] rot_scheme_laws(1) ex_fair live r by auto
qed

theorem readers_follow_the_rotation_witness:
  "\<exists>sb1 raw1 sb2. VerifyChain rot_scheme (rot_doc 7 0 1 ''main'') (Some sb1) (key_of 7) = None \<and>
     VerifyChain rot_scheme raw1 (Some sb2) (key_of 7) = None \<and> custody rot_scheme (key_of 7) (key_of 8) \<and> Generation sb2 = 3"
proof -
  have s: "Successor rot_scheme (\<lambda>_. None) (rdoc 7 0 1 7 ''main'') (rot_doc 7 0 1 ''main'') ''main'' 0 (Some (ex_priv 7))
      (Some (ed_public rot_scheme (ex_priv 8))) = Inr (rdoc 7 8 2 7 ''main'', 7 # 8 # 2 # 7 # str_bytes ''main'')"
    "Successor rot_scheme (\<lambda>_. None) (rdoc 7 8 2 7 ''main'') (7 # 8 # 2 # 7 # str_bytes ''main'') ''main'' 0 (Some (ex_priv 8)) None =
      Inr (rdoc 8 0 3 8 ''main'', 8 # 0 # 3 # 8 # str_bytes ''main'')"
    using rdoc_succeeds [of 1 7 "''main''" "\<lambda>_. None" 7 0 7 "''main''" "rot_doc 7 0 1 ''main''" 8]
      rdoc_succeeds [of 2 8 "''main''" "\<lambda>_. None" 7 8 7 "''main''" "7 # 8 # 2 # 7 # str_bytes ''main''" 0] by simp_all
  have v: "Verify rot_scheme (ed_public rot_scheme (ex_priv 7)) (rdoc 7 0 1 7 ''main'') = None"
    by simp
  have "unmarshal rot_scheme (rot_doc 7 0 1 ''main'') = Some (rdoc 7 0 1 7 ''main'')" "Generation (rdoc 8 0 3 8 ''main'') = 3"
    "ed_public rot_scheme (ex_priv 7) = key_of 7" "ed_public rot_scheme (ex_priv 8) = key_of 8"
    by simp_all
  then show ?thesis
    using readers_follow_the_rotation [OF rot_scheme_laws(2,1) _ v s(1) refl s(2)] by metis
qed

end
