(* ===== verification/Rotation_Limits.thy ===== *)
theory Rotation_Limits
  imports Key_Rotation
begin

text \<open>
  Where the rotation of \<open>internal/rotate\<close> cannot go on or does what it was not asked for, on the
  model of \<open>Key_Rotation\<close>: runs interrupted between branches, dry runs and announcements run
  again, partial aborts, interrupted changes of mode and promotions. The witnesses of both
  theories are concrete runs at the end.
\<close>

section \<open>Where a rotation cannot go on\<close>

text \<open>What a fetch does to a pinned key: it stays, or the fetched head's own key takes its place.\<close>

lemma fetch_pin:
  assumes "fetch_head env io b w = (Inr f, w')" "Trusted (re_policy env) = None" "pin_in (rw_state w) = Inr (key_pin k)"
  shows "\<not> IsUnsigned (f_Superblock f)" "\<exists>k'. pin_in (rw_state w') = Inr (key_pin k') \<and> Verify (re_scheme env) k' (f_Superblock f) = None \<and>
    (k' = k \<or> k' = SigningPub (f_Superblock f) \<and> (\<exists>raw prev. rw_state w (LastPath b) = Some raw \<and>
      unmarshal (re_scheme env) raw = Some prev \<and> Verify (re_scheme env) k prev = None))"
    "c \<noteq> b \<Longrightarrow> rw_state w' (LastPath c) = rw_state w (LastPath c)"
proof -
  obtain a fs' where fa: "Fetch (re_scheme env) (re_policy env) (fi_disk io) b a (rw_state w) = (Inr f, fs')" "w' = w\<lparr>rw_state := fs'\<rparr>"
    using assms(1) by (auto simp: fetch_head_def Let_def split: prod.splits)
  obtain p pub g where g: "pin_in (rw_state w) = Inr p" "admits (re_scheme env) (re_policy env) (rw_state w) b p (f_Superblock g) pub"
    "record_head (fi_disk io) b pub g (rw_state w) = (Inr f, fs')"
    using Fetch_outcome [OF fa(1)] assms(2) by auto
  note r = record_head_frame [OF g(3)]
  have gf: "g = f" and pin: "fs' PinPath = Some (pin_body pub)"
    using r(1) [of f] by auto
  have ad: "admits (re_scheme env) (re_policy env) (rw_state w) b (key_pin k) (f_Superblock f) pub"
    using g(1,2) assms(3) gf by simp
  obtain k' where k': "pub = Some k'" "length k' = 32"
    using admits_key [OF ad] by blast
  have "pin_in fs' = Inr (key_pin k')"
    using pin_in_body [of fs' pub] pin k' by (simp add: pin_of_body_def)
  moreover have "\<not> IsUnsigned (f_Superblock f) \<and> Verify (re_scheme env) k' (f_Superblock f) = None \<and>
    (k' = k \<or> k' = SigningPub (f_Superblock f) \<and> (\<exists>raw prev. rw_state w (LastPath b) = Some raw \<and>
      unmarshal (re_scheme env) raw = Some prev \<and> Verify (re_scheme env) k prev = None))"
    using ad k'(1) unfolding admits_def announced_by_def by (auto simp: key_pin_def no_pin_def)
  ultimately show "\<not> IsUnsigned (f_Superblock f)"
    "\<exists>k'. pin_in (rw_state w') = Inr (key_pin k') \<and> Verify (re_scheme env) k' (f_Superblock f) = None \<and>
    (k' = k \<or> k' = SigningPub (f_Superblock f) \<and> (\<exists>raw prev. rw_state w (LastPath b) = Some raw \<and>
      unmarshal (re_scheme env) raw = Some prev \<and> Verify (re_scheme env) k prev = None))"
    using fa(2) by auto
  show "c \<noteq> b \<Longrightarrow> rw_state w' (LastPath c) = rw_state w (LastPath c)"
    using r(3) [of c] fa(2) by auto
qed

text \<open>A fetch leaves the client as it is, or records what it admits of the head of the branch.\<close>

lemma fetch_head_outcome:
  assumes "fetch_head env io b w = (r, w')" "Trusted (re_policy env) = None"
  shows "(\<exists>e. r = Inl e) \<and> w' = w \<or> (\<exists>f p pub fs'. head_of (re_scheme env) w b = Some (f_Superblock f) \<and> pin_in (rw_state w) = Inr p \<and>
    admits (re_scheme env) (re_policy env) (rw_state w) b p (f_Superblock f) pub \<and>
    record_head (fi_disk io) b pub f (rw_state w) = (r, fs') \<and> w' = w\<lparr>rw_state := fs'\<rparr>)"
proof -
  let ?get = "\<lambda>fails. Get fails (rw_store w) (refKey b)"
  let ?a = "\<lparr>a_stat = StatKey (fi_stat_fails io) (rw_store w) (refKey b), a_get = ?get (fi_get_fails io),
      a_unverified = map_option ?get (fi_reread io)\<rparr>"
  obtain fs' where F: "Fetch (re_scheme env) (re_policy env) (fi_disk io) b ?a (rw_state w) = (r, fs')" "w' = w\<lparr>rw_state := fs'\<rparr>"
    using assms(1) by (auto simp: fetch_head_def Let_def split: prod.splits)
  from Fetch_outcome [OF F(1)] show ?thesis
  proof
    assume "\<exists>e. r = Inl e \<and> fs' = rw_state w"
    then show ?thesis
      using F(2) by auto
  next
    assume "\<exists>f. unmarshal (re_scheme env) (f_Raw f) = Some (f_Superblock f) \<and>
      checkMonotonic (re_scheme env) (fi_disk io) (rw_state w) b (f_Superblock f) = None \<and> read_ref ?a = Inr (f_Raw f, f_ETag f) \<and>
      ((\<exists>t. Trusted (re_policy env) = Some t \<and> Verify (re_scheme env) t (f_Superblock f) = None \<and> r = Inr f \<and> fs' = rw_state w) \<or>
       (\<exists>p pub. Trusted (re_policy env) = None \<and> pin_in (rw_state w) = Inr p \<and>
         admits (re_scheme env) (re_policy env) (rw_state w) b p (f_Superblock f) pub \<and> record_head (fi_disk io) b pub f (rw_state w) = (r, fs')))"
    then obtain f p pub where f: "unmarshal (re_scheme env) (f_Raw f) = Some (f_Superblock f)" "read_ref ?a = Inr (f_Raw f, f_ETag f)"
      "pin_in (rw_state w) = Inr p" "admits (re_scheme env) (re_policy env) (rw_state w) b p (f_Superblock f) pub"
      "record_head (fi_disk io) b pub f (rw_state w) = (r, fs')"
      using assms(2) by auto
    have "ReadMutable (?get (fi_get_fails io)) (map_option ?get (fi_reread io)) = Inr (f_Raw f)"
      using f(2) by (auto simp: read_ref_def split: sum.splits)
    then obtain ob where "rw_store w (refKey b) = Some ob" "ob_data ob = f_Raw f"
      using Get_raw by blast
    then have "head_of (re_scheme env) w b = Some (f_Superblock f)"
      using f(1) by (simp add: head_of_def)
    then show ?thesis
      using f(3-5) F(2) by blast
  qed
qed

text \<open>
  A volume half rotated, as a client of it sees it: \<open>b\<close>'s head \<open>sb\<close> is signed by a key that is
  not the live one, \<open>c\<close>'s head and the client's record of it are not, and the volume is pinned to
  the live key or, already, to the successor.
\<close>

definition half_rotated :: "scheme \<Rightarrow> bytes \<Rightarrow> string \<Rightarrow> superblock \<Rightarrow> string \<Rightarrow> superblock \<Rightarrow> rot_world \<Rightarrow> bool" where
  "half_rotated sc live b sb c sd w \<longleftrightarrow>
     key_at (rw_keys w) LiveKey = Some live \<and> head_of sc w b = Some sb \<and> head_of sc w c = Some sd \<and>
     (\<forall>raw prev. rw_state w (LastPath c) = Some raw \<and> unmarshal sc raw = Some prev \<longrightarrow> Verify sc (SigningPub sb) prev \<noteq> None) \<and>
     (pin_in (rw_state w) = Inr (key_pin (ed_public sc live)) \<or> pin_in (rw_state w) = Inr (key_pin (SigningPub sb)))"

definition apart :: "scheme \<Rightarrow> bytes \<Rightarrow> superblock \<Rightarrow> superblock \<Rightarrow> bool" where
  "apart sc live sb sd \<longleftrightarrow> SigningPub sb \<noteq> ed_public sc live \<and> Verify sc (ed_public sc live) sb \<noteq> None \<and>
     Verify sc (SigningPub sb) sd \<noteq> None"

lemma fetch_executed:
  assumes "fetch_head env io b w = (r, w')" "Trusted (re_policy env) = None" "sc = re_scheme env" "half_rotated sc live b sb c sd w"
    and "apart sc live sb sd" "b \<noteq> c"
  shows "half_rotated sc live b sb c sd w'" "r = Inr f \<Longrightarrow> f_Superblock f = sb \<and> pin_in (rw_state w') = Inr (key_pin (SigningPub sb))"
proof -
  have "half_rotated sc live b sb c sd w' \<and> (\<forall>f. r = Inr f \<longrightarrow> f_Superblock f = sb \<and> pin_in (rw_state w') = Inr (key_pin (SigningPub sb)))"
    using fetch_head_outcome [OF assms(1,2)]
  proof
    assume "\<exists>f p pub fs'. head_of (re_scheme env) w b = Some (f_Superblock f) \<and> pin_in (rw_state w) = Inr p \<and>
      admits (re_scheme env) (re_policy env) (rw_state w) b p (f_Superblock f) pub \<and>
      record_head (fi_disk io) b pub f (rw_state w) = (r, fs') \<and> w' = w\<lparr>rw_state := fs'\<rparr>"
    then obtain f p pub fs' where f: "head_of sc w b = Some (f_Superblock f)" "pin_in (rw_state w) = Inr p"
      "admits sc (re_policy env) (rw_state w) b p (f_Superblock f) pub"
      "record_head (fi_disk io) b pub f (rw_state w) = (r, fs')" "w' = w\<lparr>rw_state := fs'\<rparr>"
      using assms(3) by blast
    have sb: "f_Superblock f = sb"
      using f(1) assms(4) by (simp add: half_rotated_def)
    obtain k where k: "p = key_pin k" "k = ed_public sc live \<or> k = SigningPub sb"
      using f(2) assms(4) by (auto simp: half_rotated_def)
    then have "pub = Some (SigningPub sb) \<and> length (SigningPub sb) = 32"
      using f(3) sb assms(5) by (auto simp: admits_def apart_def key_pin_def no_pin_def unsigned_pin_def split: option.splits dest: Verify_key_length)
    then have moved: "fs' PinPath = Some (pin_body pub) \<Longrightarrow> pin_in fs' = Inr (key_pin (SigningPub sb))"
      using pin_in_body [of fs' pub] by (simp add: pin_of_body_def)
    note fr = record_head_frame [OF f(4)]
    have "pin_in fs' = pin_in (rw_state w) \<or> pin_in fs' = Inr (key_pin (SigningPub sb))"
      using fr(2) pin_in_cong [of fs' "rw_state w"] moved by auto
    moreover have "fs' (LastPath c) = rw_state w (LastPath c)"
      using fr(3) [of c] assms(6) by auto
    ultimately have "half_rotated sc live b sb c sd w'"
      using assms(4) f(5) by (auto simp: half_rotated_def head_of_def)
    then show ?thesis
      using fr(1) moved sb f(5) by auto
  qed (use assms(4) in auto)
  then show "half_rotated sc live b sb c sd w'" "r = Inr f \<Longrightarrow> f_Superblock f = sb \<and> pin_in (rw_state w') = Inr (key_pin (SigningPub sb))"
    by blast+
qed

lemma fetch_waiting:
  assumes "fetch_head env io c w = (r, w')" "Trusted (re_policy env) = None" "sc = re_scheme env" "half_rotated sc live b sb c sd w"
    and "apart sc live sb sd" "pin_in (rw_state w) = Inr (key_pin (SigningPub sb))"
  shows "(\<exists>e. r = Inl e) \<and> w' = w"
  using fetch_head_outcome [OF assms(1,2)]
proof
  assume "\<exists>f p pub fs'. head_of (re_scheme env) w c = Some (f_Superblock f) \<and> pin_in (rw_state w) = Inr p \<and>
    admits (re_scheme env) (re_policy env) (rw_state w) c p (f_Superblock f) pub \<and>
    record_head (fi_disk io) c pub f (rw_state w) = (r, fs') \<and> w' = w\<lparr>rw_state := fs'\<rparr>"
  then obtain pub where "admits sc (re_policy env) (rw_state w) c (key_pin (SigningPub sb)) sd pub"
    using assms(3,4,6) by (auto simp: half_rotated_def)
  then show ?thesis
    using assms(4,5) by (auto simp: admits_def announced_by_def apart_def half_rotated_def key_pin_def no_pin_def unsigned_pin_def
        split: option.splits)
qed

lemma rotate_waiting:
  assumes "rotate_all env opt live' pending (c # bs) w = (r, w')" "Trusted (re_policy env) = None" "sc = re_scheme env"
    and "half_rotated sc live b sb c sd w" "apart sc live sb sd" "pin_in (rw_state w) = Inr (key_pin (SigningPub sb))"
  shows "(\<exists>e. r = Inl e) \<and> w' = w"
proof -
  obtain r1 w1 where f: "fetch_head env (io_fetch (re_io env c)) c w = (r1, w1)"
    by (cases "fetch_head env (io_fetch (re_io env c)) c w")
  then show ?thesis
    using fetch_waiting [OF f assms(2-6)] assms(1) by (auto simp: rotateBranch_def)
qed

lemma rotate_half_rotated:
  assumes "rotate_all env opt live pending (b # c # bs) w = (r, w')" "Trusted (re_policy env) = None" "sc = re_scheme env"
    and "half_rotated sc live b sb c sd w" "apart sc live sb sd" "b \<noteq> c"
  shows "(\<exists>e. r = Inl e) \<and> half_rotated sc live b sb c sd w'"
proof -
  obtain r1 w1 where f: "fetch_head env (io_fetch (re_io env b)) b w = (r1, w1)"
    by (cases "fetch_head env (io_fetch (re_io env b)) b w")
  note fx = fetch_executed [OF f assms(2-6)]
  obtain r2 w2 where rb: "rotateBranch env opt live pending b w = (r2, w2)"
    by (cases "rotateBranch env opt live pending b w")
  have b: "w2 = w1 \<and> ((\<exists>e. r2 = Inl e) \<or> pin_in (rw_state w1) = Inr (key_pin (SigningPub sb)))"
  proof (cases r1)
    case (Inl e)
    then show ?thesis
      using rb f by (auto simp: rotateBranch_def)
  next
    case (Inr g)
    have "phaseOf sc sb live pending b = Inr PhaseExecuted \<or> (\<exists>e. phaseOf sc sb live pending b = Inl e)"
      using assms(5) by (auto simp: phaseOf_def apart_def)
    then show ?thesis
      using rb f Inr fx(2) [OF Inr] assms(3) by (auto simp: rotateBranch_def Let_def)
  qed
  show ?thesis
  proof (cases r2)
    case (Inl e)
    then show ?thesis
      using assms(1) rb b fx(1) by auto
  next
    case (Inr plan)
    obtain r3 w3 where rest: "rotate_all env opt live pending (c # bs) w1 = (r3, w3)"
      by (cases "rotate_all env opt live pending (c # bs) w1")
    have "(\<exists>e. r3 = Inl e) \<and> w3 = w1"
      using rotate_waiting [OF rest assms(2,3) fx(1) assms(5)] b Inr by auto
    then show ?thesis
      using assms(1) rb b rest fx(1) Inr by (auto simp del: rotate_all.simps(2) simp: rotate_all.simps(2) [of _ _ _ _ b])
  qed
qed

text \<open>A run over both branches, or over the waiting one once the pin has moved, fails and leaves the volume half rotated.\<close>

definition meets :: "string \<Rightarrow> string \<Rightarrow> bytes \<Rightarrow> string list \<Rightarrow> rot_world \<Rightarrow> bool" where
  "meets b c k bs w \<longleftrightarrow> (\<exists>rest. bs = b # c # rest) \<or> (\<exists>rest. bs = c # rest) \<and> pin_in (rw_state w) = Inr (key_pin k)"

lemma Execute_half_rotated:
  assumes "Execute env opt w = (r, w')" "Trusted (re_policy env) = None" "sc = re_scheme env" "fair_mint env"
    and "half_rotated sc live b sb c sd w" "apart sc live sb sd" "b \<noteq> c" "meets b c (SigningPub sb) (ro_Branches opt) w"
  shows "(\<exists>e. r = Inl e) \<and> half_rotated sc live b sb c sd w'"
proof -
  have keys: "half_rotated sc live b sb c sd (w\<lparr>rw_keys := ks\<rparr>)" if "pending_for env opt (rw_keys w) = (pr, ks)" for pr ks
    using pending_for_keys(1) [OF that assms(4), of LiveKey] assms(5) unfolding half_rotated_def head_of_def key_at_def by auto
  have one: "(\<exists>e. rs = Inl e) \<and> half_rotated sc live b sb c sd w1"
    if "Live (re_start env) (rw_keys w) = Inr l" "pending_for env opt (rw_keys w) = (pr, ks)"
      "rotate_all env opt l pending (ro_Branches opt) (w\<lparr>rw_keys := ks\<rparr>) = (rs, w1)" for l pr ks pending rs w1
  proof -
    have "l = live"
      using Live_key_at [OF that(1)] assms(5) by (simp add: half_rotated_def)
    then show ?thesis
      using that(3) rotate_half_rotated [OF _ assms(2,3) keys [OF that(2)] assms(6,7)] rotate_waiting [OF _ assms(2,3) keys [OF that(2)] assms(6)]
        keys [OF that(2)] assms(8) unfolding meets_def by fastforce
  qed
  from assms(1) show ?thesis
  proof (cases rule: Execute_cases)
    case start
    then show ?thesis
      using assms(5) by simp
  next
    case (mint l e ks)
    then show ?thesis
      using keys by simp
  next
    case (branches l pending ks rs)
    then have "\<exists>e. rs = Inl e"
      using one by blast
    then have "\<exists>e. r = Inl e"
      using assms(1) branches by (auto simp: Execute_def split: if_splits)
    then show ?thesis
      using one branches by blast
  next
    case (promote l pending ks plans w1 e ks1)
    then show ?thesis
      using one [OF promote(1,2,3)] by auto
  qed
qed

text \<open>Runs one after another, each with its own environment, failures and options.\<close>

fun reruns :: "(rot_env \<times> rot_opts) list \<Rightarrow> rot_world \<Rightarrow> (rot_error + rot_result) list \<times> rot_world" where
  "reruns [] w = ([], w)"
| "reruns ((env, opt) # later) w =
     (case Execute env opt w of (r, w1) \<Rightarrow> (case reruns later w1 of (rs, w2) \<Rightarrow> (r # rs, w2)))"

text \<open>
  C28: a rotation interrupted between two branches cannot be resumed by the same client, if it
  is to take the executed branch first. When the head of \<open>b\<close> is already signed by the successor and
  that of \<open>c\<close>, and the client's record of it, is not, and the client, which trusts no key given
  to it, is pinned to the live key or already to the successor, then every run that takes \<open>b\<close> and
  next \<open>c\<close> fails, whatever else works or fails in it, and so does every such run after it, however
  often it is run again: the pin is moved by the fetch of \<open>b\<close>, and \<open>c\<close> is then refused. The heads
  of both stay as they are and the live key stays live; and once the pin has moved, a run that
  begins with \<open>c\<close> fails as well. A re-run is nevertheless what is to finish an interrupted
  rotation. (A run that begins with \<open>c\<close> before the pin has moved is not affected.) The runs share
  the scheme, and the key generator is one that writes the pending key only.
\<close>

theorem interrupted_rotation_blocks_the_rest:
  assumes "half_rotated sc live b sb c sd w" "apart sc live sb sd" "b \<noteq> c"
    and "\<forall>(env, opt) \<in> set again. re_scheme env = sc \<and> Trusted (re_policy env) = None \<and> fair_mint env \<and>
      (\<exists>rest. ro_Branches opt = b # c # rest)"
    and "reruns again w = (results, w')"
  shows "(\<forall>r \<in> set results. \<exists>e. r = Inl e) \<and> half_rotated sc live b sb c sd w' \<and>
    (\<forall>env opt rest. pin_in (rw_state w') = Inr (key_pin (SigningPub sb)) \<and> re_scheme env = sc \<and> Trusted (re_policy env) = None \<and>
      fair_mint env \<and> ro_Branches opt = c # rest \<longrightarrow> (\<exists>e. fst (Execute env opt w') = Inl e))"
proof -
  have step: "(\<exists>e. r = Inl e) \<and> half_rotated sc live b sb c sd v'"
    if "Execute env opt v = (r, v')" "half_rotated sc live b sb c sd v" "meets b c (SigningPub sb) (ro_Branches opt) v"
      "re_scheme env = sc" "Trusted (re_policy env) = None" "fair_mint env" for env opt v r v'
    using Execute_half_rotated [OF that(1,5) that(4) [symmetric] that(6,2) assms(2,3) that(3)] .
  have all: "(\<forall>r \<in> set results. \<exists>e. r = Inl e) \<and> half_rotated sc live b sb c sd w'"
    using assms(1,4,5)
  proof (induction again arbitrary: w results)
    case (Cons run later)
    obtain env opt where run: "run = (env, opt)"
      by (cases run)
    obtain r w1 where e: "Execute env opt w = (r, w1)"
      by (cases "Execute env opt w")
    obtain rs w2 where m: "reruns later w1 = (rs, w2)"
      by (cases "reruns later w1")
    have "(\<exists>e. r = Inl e) \<and> half_rotated sc live b sb c sd w1"
      using step [OF e Cons.prems(1)] Cons.prems(2) run by (auto simp: meets_def)
    moreover have "results = r # rs" "w2 = w'"
      using Cons.prems(3) run e m by simp_all
    ultimately show ?case
      using Cons.IH [of w1 rs] Cons.prems(2) m by simp
  qed simp
  have "\<exists>e. fst (Execute env opt w') = Inl e"
    if "pin_in (rw_state w') = Inr (key_pin (SigningPub sb))" "re_scheme env = sc" "Trusted (re_policy env) = None" "fair_mint env"
      "ro_Branches opt = c # rest" for env opt rest
    using step [of env opt w'] all that by (cases "Execute env opt w'") (auto simp: meets_def)
  then show ?thesis
    using all by blast
qed

text \<open>
  a dry run can publish. When a pending key is there, as after a run interrupted between
  the mint and the announcement, and a branch is fresh, a run that is only to report signs
  and publishes the announcement of the successor.
\<close>

theorem dry_run_publishes:
  assumes "ro_DryRun opt" "ro_Branches opt = b # bs" "Live (re_start env) (rw_keys w) = Inr live"
    and "Pending (re_start env) (rw_keys w) = Inr (Some p)" "fetch_head env (io_fetch (re_io env b)) b w = (Inr f, w1)"
    and "phaseOf (re_scheme env) (f_Superblock f) live (Some p) b = Inr PhaseFresh"
    and "publishStep env (ro_Now opt) (io_announce (re_io env b)) f b (Some live) (Some (ed_public (re_scheme env) p)) w1 = (Inr sb, w2)"
    and "round_trips (re_scheme env)" "bs = []"
  shows "head_of (re_scheme env) (snd (Execute env opt w)) b = Some sb \<and>
    Generation sb = Generation (f_Superblock f) + 1 \<and> NextPub sb = Some (ed_public (re_scheme env) p)"
proof -
  let ?sc = "re_scheme env"
  have s: "head_of ?sc w2 b = Some sb" "Generation sb = Generation (f_Superblock f) + 1" "NextPub sb = Some (ed_public ?sc p)"
    using publishStep_head(4) [OF assms(7,8)] by (auto dest: Successor_fields(4,7))
  obtain r3 w3 where f3: "fetch_head env (io_refetch (re_io env b)) b w2 = (r3, w3)"
    by (cases "fetch_head env (io_refetch (re_io env b)) b w2")
  have "snd (rotateBranch env opt live (Some p) b w) = w3"
    using assms(1,5-7) f3
    by (auto simp: rotateBranch_def announce_branch_def execute_branch_def Let_def split: sum.splits)
  then have "snd (Execute env opt w) = w3"
    using assms(1-4,9)
    by (auto simp: Execute_def pending_for_def Let_def split: prod.splits sum.splits)
  then show ?thesis
    using s fetch_head_frame(2) [OF f3] by (simp add: head_of_def)
qed

text \<open>
  announcing again executes. A run that is to announce only, over a branch whose
  successor is announced already, as after such a run that was interrupted, publishes the
  generation signed by the successor all the same, and leaves the successor pending.
\<close>

theorem announce_only_executes:
  assumes "ro_AnnounceOnly opt" "\<not> ro_DryRun opt" "ro_Branches opt = [b]" "Live (re_start env) (rw_keys w) = Inr live"
    and "Pending (re_start env) (rw_keys w) = Inr (Some p)" "fetch_head env (io_fetch (re_io env b)) b w = (Inr f, w1)"
    and "phaseOf (re_scheme env) (f_Superblock f) live (Some p) b = Inr PhaseAnnounced"
    and "publishStep env (ro_Now opt) (io_execute (re_io env b)) f b (Some p) None w1 = (Inr sb, w2)"
    and "round_trips (re_scheme env)"
  shows "head_of (re_scheme env) (snd (Execute env opt w)) b = Some sb \<and> SigningPub sb = ed_public (re_scheme env) p \<and>
    rw_keys (snd (Execute env opt w)) = rw_keys w"
proof -
  have m: "MintPending (re_start env) (re_mint env) (re_raced env) (rw_keys w) = (Inr (Some p), rw_keys w)"
    using assms(5) by (simp add: MintPending_def)
  have "snd (rotateBranch env opt live (Some p) b w) = w2 \<and> fst (rotateBranch env opt live (Some p) b w) \<in> range Inr"
    using assms(2,6-8) by (auto simp: rotateBranch_def execute_branch_def Let_def)
  then have "snd (Execute env opt w) = w2"
    using assms(1-4) m by (auto simp: Execute_def pending_for_def Let_def split: prod.splits sum.splits)
  moreover have "rw_keys w2 = rw_keys w"
    using publishStep_head(1) [OF assms(8,9)] fetch_head_frame(1) [OF assms(6)] by simp
  ultimately show ?thesis
    using publishStep_effect(2) [OF assms(8,9), of UNIV] by auto
qed

lemma publishStep_other:
  assumes "publishStep env now io f b signer np w = (r, w')" "round_trips (re_scheme env)" "c \<noteq> b"
  shows "head_of (re_scheme env) w' c = head_of (re_scheme env) w c" "rw_keys w' = rw_keys w" "rw_state w' = rw_state w"
  using publishStep_head(1-3) [OF assms(1,2)] assms(3) by blast+

lemma abort_branch_frame:
  assumes "abort_branch env opt live pending b w = (r, w')" "round_trips (re_scheme env)"
  shows "rw_keys w' = rw_keys w" "c \<noteq> b \<Longrightarrow> head_of (re_scheme env) w' c = head_of (re_scheme env) w c"
proof -
  obtain r1 w1 where f: "fetch_head env (io_fetch (re_io env b)) b w = (r1, w1)"
    by (cases "fetch_head env (io_fetch (re_io env b)) b w")
  obtain r2 w2 where s: "publishStep env (ro_Now opt) (io_announce (re_io env b)) (the_default undefined (case r1 of Inr f \<Rightarrow> Some f | Inl _ \<Rightarrow> None))
      b (Some live) None w1 = (r2, w2)"
    by (cases "publishStep env (ro_Now opt) (io_announce (re_io env b)) (the_default undefined (case r1 of Inr f \<Rightarrow> Some f | Inl _ \<Rightarrow> None))
      b (Some live) None w1")
  have "w' = w1 \<or> w' = w2"
    using assms(1) f s by (auto simp: abort_branch_def Let_def the_default_def split: sum.splits phase.splits if_splits)
  moreover have "rw_keys w1 = rw_keys w" "head_of (re_scheme env) w1 c = head_of (re_scheme env) w c"
    using fetch_head_frame(1,2) [OF f] by (simp_all add: head_of_def)
  ultimately show "rw_keys w' = rw_keys w" "c \<noteq> b \<Longrightarrow> head_of (re_scheme env) w' c = head_of (re_scheme env) w c"
    using publishStep_head(1) [OF s assms(2)] publishStep_other(1) [OF s assms(2), of c] by auto
qed

lemma abort_all_frame:
  assumes "abort_all env opt live pending bs w = (r, w')" "round_trips (re_scheme env)"
  shows "rw_keys w' = rw_keys w \<and> (\<forall>c. c \<notin> set bs \<longrightarrow> head_of (re_scheme env) w' c = head_of (re_scheme env) w c)"
  using assms(1)
proof (induction bs arbitrary: w r)
  case (Cons b bs)
  obtain r1 w1 where b: "abort_branch env opt live pending b w = (r1, w1)"
    by (cases "abort_branch env opt live pending b w")
  note fr = abort_branch_frame [OF b assms(2)]
  show ?case
  proof (cases r1)
    case (Inl e)
    then show ?thesis
      using Cons.prems b fr by auto
  next
    case (Inr pl)
    then obtain r2 where "abort_all env opt live pending bs w1 = (r2, w')"
      using Cons.prems b by (auto split: prod.splits sum.splits)
    then show ?thesis
      using Cons.IH fr by fastforce
  qed
qed simp

text \<open>
  aborting on some branches can lose a key in use. An abort looks at the branches it is
  given only, and then removes the pending key. When a branch it was not given has a head
  signed by that key already, a successful abort leaves that head as it is and no file of the
  state directory with its key.
\<close>

theorem partial_abort_loses_a_key:
  assumes "Abort env opt w = (None, Some res, w')" "\<not> ro_DryRun opt" "round_trips (re_scheme env)"
    and "c \<notin> set (ro_Branches opt)" "head_of (re_scheme env) w c = Some sb"
    and "key_at (rw_keys w) PendingKey = Some p" "SigningPub sb = ed_public (re_scheme env) p"
    and "\<forall>q k. q \<noteq> PendingKey \<and> (\<forall>t. q \<noteq> KeyTmp t) \<and> key_at (rw_keys w) q = Some k \<longrightarrow> ed_public (re_scheme env) k \<noteq> SigningPub sb"
  shows "head_of (re_scheme env) w' c = Some sb \<and> held (re_scheme env) (rw_keys w) (SigningPub sb) \<and>
    \<not> held (re_scheme env) (rw_keys w') (SigningPub sb)"
proof -
  obtain live where live: "Live (re_start env) (rw_keys w) = Inr live"
    using assms(1) by (auto simp: Abort_def split: sum.splits)
  obtain pending where pend: "Pending (re_start env) (rw_keys w) = Inr pending"
    using assms(1) live by (auto simp: Abort_def split: sum.splits)
  obtain plans w1 where a: "abort_all env opt live pending (ro_Branches opt) w = (Inr plans, w1)"
    using assms(1) live pend by (auto simp: Abort_def split: sum.splits prod.splits)
  note fr = abort_all_frame [OF a assms(3)]
  have w': "w' = w1\<lparr>rw_keys := (rw_keys w1)(PendingKey := None)\<rparr>"
    using assms(1,2) live pend a by (auto simp: Abort_def Let_def DiscardPending_def split: if_splits)
  have "\<not> held (re_scheme env) (rw_keys w') (SigningPub sb)"
    unfolding held_def
  proof (intro notI, elim exE conjE)
    fix q k
    assume q: "\<forall>t. q \<noteq> KeyTmp t" "key_at (rw_keys w') q = Some k" "ed_public (re_scheme env) k = SigningPub sb"
    then have "q \<noteq> PendingKey" "key_at (rw_keys w) q = Some k"
      using w' fr by (auto simp: key_at_def split: if_splits)
    then show False
      using assms(8) q by blast
  qed
  moreover have "held (re_scheme env) (rw_keys w) (SigningPub sb)"
    using heldI [OF assms(6)] assms(7) by simp
  moreover have "head_of (re_scheme env) w' c = Some sb"
    using w' fr assms(4,5) by (simp add: head_of_def)
  ultimately show ?thesis
    by blast
qed

lemma unsign_all_stops:
  assumes "Trusted (re_policy env) = None" "round_trips (re_scheme env)" "b \<in> set bs"
    and "pin_in (rw_state w) = Inr (key_pin k)" "head_of (re_scheme env) w b = Some sb" "IsUnsigned sb"
  shows "\<exists>e. fst (unsign_all env opt live bs st w) = Inl e"
  using assms(3-5)
proof (induction bs arbitrary: st w k)
  case (Cons c bs)
  obtain res flipped where st: "st = (res, flipped)"
    by (cases st)
  obtain r w1 where f: "fetch_head env (io_fetch (re_io env c)) c w = (r, w1)"
    by (cases "fetch_head env (io_fetch (re_io env c)) c w")
  show ?case
  proof (cases r)
    case (Inl e)
    then show ?thesis
      using f st by simp
  next
    case (Inr g)
    note pin = fetch_pin [OF f [unfolded Inr] assms(1) Cons.prems(2)]
    have "c \<noteq> b"
      using fetch_head_frame(3) [OF f] Inr pin(1) Cons.prems(3) assms(6) by auto
    obtain k' where k': "pin_in (rw_state w1) = Inr (key_pin k')"
      using pin(2) by blast
    have h1: "head_of (re_scheme env) w1 b = Some sb"
      using fetch_head_frame(2) [OF f] Cons.prems(3) by (simp add: head_of_def)
    obtain r2 w2 where s: "publishStep env (ro_Now opt) (io_execute (re_io env c)) g c None None w1 = (r2, w2)"
      by (cases "publishStep env (ro_Now opt) (io_execute (re_io env c)) g c None None w1")
    note o = publishStep_other [OF s assms(2), of b]
    have "b \<in> set bs"
      using Cons.prems(1) \<open>c \<noteq> b\<close> by auto
    note IH1 = Cons.IH [OF this k' h1] and IH2 = Cons.IH [OF this, of w2 k']
    show ?thesis
      using f Inr st s pin(1) IH1 IH2 o \<open>c \<noteq> b\<close> k' h1
      by (auto simp: Let_def split: sum.splits)
  qed
qed simp

text \<open>
  a change to unsigned that was interrupted cannot be resumed by the same client. While
  the pin still names a key, a run over a branch that is unsigned already fails at the fetch
  of it, whatever else works or fails; so the report of branches already there, and the
  re-pinning that the run ends with, are out of reach.
\<close>

theorem interrupted_downgrade_cannot_resume:
  assumes "Trusted (re_policy env) = None" "round_trips (re_scheme env)" "b \<in> set (ro_Branches opt)"
    and "pin_in (rw_state w) = Inr (key_pin k)" "head_of (re_scheme env) w b = Some sb" "IsUnsigned sb"
  shows "\<exists>e w'. ToUnsigned env opt w = (Some e, None, w')"
proof -
  have stop: "\<exists>e w1. unsign_all env opt live (ro_Branches opt) (no_mode, False) w = (Inl e, w1)" for live
    using unsign_all_stops [OF assms, of opt live "(no_mode, False)"] by (metis fst_eqD surj_pair)
  have ne: "ro_Branches opt \<noteq> []"
    using assms(3) by auto
  show ?thesis
  proof (cases "case Live (re_start env) (rw_keys w) of Inl e \<Rightarrow> (if e = ErrNoKey then Inr None else Inl e) | Inr k \<Rightarrow> Inr (Some k)")
    case (Inl e)
    then show ?thesis
      using ne by (simp add: ToUnsigned_def)
  next
    case (Inr live)
    then show ?thesis
      using ne stop [of live] by (auto simp: ToUnsigned_def)
  qed
qed

text \<open>
  promoting again does not finish a promotion that stopped at the archive. When the
  archive's temporary file was written and then neither renamed nor removed, as in a crash
  between the two, it is a file nobody may write, and every later promotion fails at it.
\<close>

theorem stopped_promotion_is_stuck:
  assumes "Pending d ks = Inr (Some p)" "Live d ks = Inr live" "ks (KeyTmp (retiredPath sc live)) = None"
    and "kd_torn d (KeyTmp (retiredPath sc live)) = None" "kd_rename_fails d (retiredPath sc live)"
    and "kd_remove_fails d (KeyTmp (retiredPath sc live))"
  shows "\<exists>ks'. Promote sc d ks = (Some ArchiveFailed, ks') \<and> key_at ks' LiveKey = Some live \<and> key_at ks' PendingKey = Some p \<and>
    (\<forall>d'. \<exists>e. Promote sc d' ks' = (Some e, ks'))"
proof -
  let ?tmp = "KeyTmp (retiredPath sc live)" and ?f = "\<lparr>kf_data = key_line live, kf_writable = False\<rparr>"
  have p: "Promote sc d ks = (Some ArchiveFailed, ks(?tmp \<mapsto> ?f))"
    using assms by (simp add: Promote_def writeFileMode_def Let_def)
  have at: "key_at (ks(?tmp \<mapsto> ?f)) LiveKey = Some live" "key_at (ks(?tmp \<mapsto> ?f)) PendingKey = Some p"
    using Live_key_at [OF assms(2)] Pending_key_at [OF assms(1)] by (simp_all add: key_at_def)
  have "\<exists>e. Promote sc d' (ks(?tmp \<mapsto> ?f)) = (Some e, ks(?tmp \<mapsto> ?f))" for d'
  proof (cases "Live d' (ks(?tmp \<mapsto> ?f))")
    case (Inl e)
    moreover have "e \<noteq> ErrNoKey"
      using Inl Live_none [of d' "ks(?tmp \<mapsto> ?f)"] at(1) by (auto simp: key_at_def)
    ultimately show ?thesis
      by (auto simp: Promote_def split: sum.splits option.splits)
  next
    case (Inr l)
    then have "l = live"
      using Live_key_at at(1) by fastforce
    then show ?thesis
      using Inr by (auto simp: Promote_def writeFileMode_def Let_def split: sum.splits option.splits)
  qed
  then show ?thesis
    using p at by blast
qed

text \<open>An abort refuses an announcement of a key the directory does not hold, as the run it is advised for does.\<close>

lemma abort_refuses_foreign_announcement:
  assumes "phaseOf sc head live pending b = Inl (ErrForeignAnnouncement b g)" "sc = re_scheme env"
    and "fetch_head env (io_fetch (re_io env b)) b w = (Inr f, w1)" "f_Superblock f = head"
  shows "abort_branch env opt live pending b w = (Inl (ErrForeignAnnouncement b g), w1)"
  using assms by (simp add: abort_branch_def Let_def)

section \<open>Witnesses\<close>

definition ex_half :: rot_world where
  "ex_half = ex_world [(''main'', rot_doc 8 0 3 ''main''), (''dev'', rot_doc 7 0 4 ''dev'')] [7, 8]"

lemma ex_pin: "pin_in (rw_state (ex_world heads keys)) = Inr (key_pin (key_of 7))"
  using pin_in_body [of "rw_state (ex_world heads keys)" "Some (key_of 7)"] by (simp add: ex_world_def pin_of_body_def)

lemma ex_live: "keys \<noteq> [] \<Longrightarrow> key_at (rw_keys (ex_world heads keys)) LiveKey = Some (ex_priv (hd keys))"
  by (cases keys) (simp_all add: key_at_def)

lemma ex_head: "map_of heads b = Some (rot_doc k n g b) \<Longrightarrow> head_of rot_scheme (ex_world heads keys) b = Some (rdoc k n g k b)"
proof -
  have "map_of (map (\<lambda>(b, raw). (refKey b, raw)) heads) (refKey b) = map_of heads b" for heads :: "(string \<times> bytes) list"
    by (induction heads) auto
  then show "map_of heads b = Some (rot_doc k n g b) \<Longrightarrow> head_of rot_scheme (ex_world heads keys) b = Some (rdoc k n g k b)"
    by (simp add: head_of_def ex_world_def)
qed

theorem interrupted_rotation_blocks_the_rest_witness:
  "\<exists>r1 r2 w'. reruns [(ex_rot_env, ex_rot_opts [''main'', ''dev'']), (ex_rot_env, ex_rot_opts [''main'', ''dev''])] ex_half =
     ([Inl r1, Inl r2], w') \<and> head_of rot_scheme w' ''dev'' = Some (rdoc 7 0 4 7 ''dev'')"
proof -
  let ?again = "[(ex_rot_env, ex_rot_opts [''main'', ''dev'']), (ex_rot_env, ex_rot_opts [''main'', ''dev''])]"
  have "head_of rot_scheme ex_half ''main'' = Some (rdoc 8 0 3 8 ''main'')" "head_of rot_scheme ex_half ''dev'' = Some (rdoc 7 0 4 7 ''dev'')"
    unfolding ex_half_def by (simp_all add: ex_head)
  moreover have "rw_state ex_half (LastPath ''dev'') = Some (rot_doc 7 0 4 ''dev'')"
    by (simp add: ex_half_def ex_world_def)
  ultimately have half: "half_rotated rot_scheme (ex_priv 7) ''main'' (rdoc 8 0 3 8 ''main'') ''dev'' (rdoc 7 0 4 7 ''dev'') ex_half"
    using ex_pin ex_live [of "[7, 8]"] by (simp add: ex_half_def half_rotated_def)
  have ap: "apart rot_scheme (ex_priv 7) (rdoc 8 0 3 8 ''main'') (rdoc 7 0 4 7 ''dev'')"
    by (simp add: apart_def)
  obtain r1 w1 r2 w2 where runs: "Execute ex_rot_env (ex_rot_opts [''main'', ''dev'']) ex_half = (r1, w1)"
    "Execute ex_rot_env (ex_rot_opts [''main'', ''dev'']) w1 = (r2, w2)"
    by fastforce
  then have all: "reruns ?again ex_half = ([r1, r2], w2)"
    by simp
  show ?thesis
    using interrupted_rotation_blocks_the_rest [OF half ap _ _ all] ex_fair all by (auto simp: ex_rot_opts_def half_rotated_def)
qed

definition ex_minted :: rot_world where
  "ex_minted = ex_world [(''main'', rot_doc 7 0 1 ''main'')] [7, 8]"

lemma ex_two_keys: "Live sound_keys (rw_keys (ex_world heads [7, 8])) = Inr (ex_priv 7)"
  "Pending sound_keys (rw_keys (ex_world heads [7, 8])) = Inr (Some (ex_priv 8))"
  by (simp_all add: Live_def Pending_def)

theorem dry_run_publishes_witness:
  "head_of rot_scheme ex_minted ''main'' = Some (rdoc 7 0 1 7 ''main'') \<and>
   head_of rot_scheme (snd (Execute ex_rot_env ((ex_rot_opts [''main''])\<lparr>ro_DryRun := True\<rparr>) ex_minted)) ''main'' =
     Some (rdoc 7 8 2 7 ''main'')"
proof -
  let ?opt = "(ex_rot_opts [''main''])\<lparr>ro_DryRun := True\<rparr>"
  have at: "at_head ex_minted ''main'' 7 0 1"
    unfolding ex_minted_def by (rule ex_at_head)
  obtain f w1 where f: "fetch_head ex_rot_env sound_fetch ''main'' ex_minted = (Inr f, w1)" "f_Superblock f = rdoc 7 0 1 7 ''main''"
    "at_head w1 ''main'' 7 0 1" "map_option ob_etag (rw_store w1 (refKey ''main'')) = Some (f_ETag f)"
    using fetch_at [OF at] by (auto simp: has_separator_def)
  obtain w2 where s: "publishStep ex_rot_env 0 (sound_flip ''2'') f ''main'' (Some (ex_priv 7)) (Some (key_of 8)) w1 =
      (Inr (rdoc 7 8 2 7 ''main''), w2)"
    using step_at [OF f(3,2,4), of 7 "''2''" "Some (key_of 8)" 8] by auto
  have "head_of rot_scheme (snd (Execute ex_rot_env ?opt ex_minted)) ''main'' = Some (rdoc 7 8 2 7 ''main'')"
    using dry_run_publishes [of ?opt "''main''" "[]" ex_rot_env ex_minted "ex_priv 7" "ex_priv 8" f w1 "rdoc 7 8 2 7 ''main''" w2]
      ex_two_keys f s rot_scheme_laws(1) by (simp add: ex_minted_def ex_rot_opts_def phaseOf_def)
  then show ?thesis
    using at_head_head [OF at] by blast
qed

definition ex_announced :: rot_world where
  "ex_announced = ex_world [(''main'', rot_doc 7 8 2 ''main'')] [7, 8]"

theorem announce_only_executes_witness:
  "head_of rot_scheme (snd (Execute ex_rot_env ((ex_rot_opts [''main''])\<lparr>ro_AnnounceOnly := True\<rparr>) ex_announced)) ''main'' =
     Some (rdoc 8 0 3 8 ''main'')"
proof -
  let ?opt = "(ex_rot_opts [''main''])\<lparr>ro_AnnounceOnly := True\<rparr>"
  have at: "at_head ex_announced ''main'' 7 8 2"
    unfolding ex_announced_def by (rule ex_at_head)
  obtain f w1 where f: "fetch_head ex_rot_env sound_fetch ''main'' ex_announced = (Inr f, w1)" "f_Superblock f = rdoc 7 8 2 7 ''main''"
    "at_head w1 ''main'' 7 8 2" "map_option ob_etag (rw_store w1 (refKey ''main'')) = Some (f_ETag f)"
    using fetch_at [OF at] by (auto simp: has_separator_def)
  obtain w2 where s: "publishStep ex_rot_env 0 (sound_flip ''3'') f ''main'' (Some (ex_priv 8)) None w1 =
      (Inr (rdoc 8 0 3 8 ''main''), w2)"
    using step_at [OF f(3,2,4), of 8 "''3''" None 0] by auto
  show ?thesis
    using announce_only_executes [of ?opt "''main''" ex_rot_env ex_announced "ex_priv 7" "ex_priv 8" f w1 "rdoc 8 0 3 8 ''main''" w2]
      ex_two_keys f s rot_scheme_laws(1) by (simp add: ex_announced_def ex_rot_opts_def phaseOf_def)
qed

definition ex_split :: rot_world where
  "ex_split = ex_world [(''main'', rot_doc 7 0 1 ''main''), (''dev'', rot_doc 8 0 3 ''dev'')] [7, 8]"

theorem partial_abort_loses_a_key_witness:
  "\<exists>res w'. Abort ex_rot_env (ex_rot_opts [''main'']) ex_split = (None, Some res, w') \<and>
     head_of rot_scheme w' ''dev'' = Some (rdoc 8 0 3 8 ''dev'') \<and> \<not> held rot_scheme (rw_keys w') (key_of 8)"
proof -
  have at: "at_head ex_split ''main'' 7 0 1"
    by (simp add: at_head_def ex_split_def ex_world_def rot_doc_def)
  obtain f w1 where f: "fetch_head ex_rot_env sound_fetch ''main'' ex_split = (Inr f, w1)" "f_Superblock f = rdoc 7 0 1 7 ''main''"
    using fetch_at [OF at] by (auto simp: has_separator_def)
  have "\<exists>plan. abort_branch ex_rot_env (ex_rot_opts [''main'']) (ex_priv 7) (Some (ex_priv 8)) ''main'' ex_split = (Inr plan, w1)"
    using f by (simp add: abort_branch_def phaseOf_def Let_def)
  then obtain res w' where a: "Abort ex_rot_env (ex_rot_opts [''main'']) ex_split = (None, Some res, w')"
    using ex_two_keys by (auto simp: Abort_def ex_split_def DiscardPending_def Let_def)
  have d: "head_of rot_scheme ex_split ''dev'' = Some (rdoc 8 0 3 8 ''dev'')"
    unfolding ex_split_def by (simp add: ex_head)
  have p: "key_at (rw_keys ex_split) PendingKey = Some (ex_priv 8)"
    by (simp add: key_at_def ex_split_def)
  have o1: "\<forall>q k. q \<noteq> PendingKey \<and> (\<forall>t. q \<noteq> KeyTmp t) \<and> key_at (rw_keys ex_split) q = Some k \<longrightarrow> ed_public rot_scheme k \<noteq> key_of 8"
    by (auto simp: key_at_def ex_split_def split: option.splits if_splits)
  show ?thesis
    using partial_abort_loses_a_key [OF a, of "''dev''" "rdoc 8 0 3 8 ''dev''" "ex_priv 8"] rot_scheme_laws(1) d p o1 a by simp
qed

definition ex_downgraded :: rot_world where
  "ex_downgraded = ex_world [(''main'', rot_doc 0 0 2 ''main'')] [7]"

theorem interrupted_downgrade_cannot_resume_witness:
  "\<exists>e w'. ToUnsigned ex_rot_env (ex_rot_opts [''main'']) ex_downgraded = (Some e, None, w')"
proof -
  have "head_of rot_scheme ex_downgraded ''main'' = Some (rdoc 0 0 2 0 ''main'')"
    unfolding ex_downgraded_def by (simp add: ex_head)
  then show ?thesis
    using interrupted_downgrade_cannot_resume [of ex_rot_env "''main''" "ex_rot_opts [''main'']" ex_downgraded "key_of 7" "rdoc 0 0 2 0 ''main''"]
      rot_scheme_laws(1) ex_pin by (simp add: ex_downgraded_def)
qed

definition stopping_keys :: key_disk where
  "stopping_keys = sound_keys\<lparr>kd_rename_fails := (\<lambda>p. p \<noteq> LiveKey), kd_remove_fails := (\<lambda>_. True)\<rparr>"

theorem stopped_promotion_is_stuck_witness:
  "\<exists>ks'. Promote rot_scheme stopping_keys (rw_keys ex_minted) = (Some ArchiveFailed, ks') \<and>
     (\<forall>d'. \<exists>e. Promote rot_scheme d' ks' = (Some e, ks'))"
proof -
  have "Live stopping_keys (rw_keys ex_minted) = Inr (ex_priv 7)" "Pending stopping_keys (rw_keys ex_minted) = Inr (Some (ex_priv 8))"
    by (simp_all add: Live_def Pending_def readKey_def ex_minted_def stopping_keys_def) (simp_all add: sound_keys_def)
  then show ?thesis
    using stopped_promotion_is_stuck [of stopping_keys "rw_keys ex_minted" "ex_priv 8" "ex_priv 7" rot_scheme]
    by (auto simp: ex_minted_def retiredPath_def stopping_keys_def)
qed

end
