(* ===== verification/Inode_Map.thy ===== *)
theory Inode_Map
  imports Superblock "HOL-Library.Multiset"
begin

text \<open>
  Renumbering one volume's inodes into lineages another volume owns,
  \<open>internal/inodemap/inodemap.go\<close>. The Go map of a renumbering is a list of rows with distinct
  sources; its order is the order in which \<open>Unmap\<close> and \<open>Holds\<close> happen to range over it, which
  no answer depends on. The random source of \<open>Draw\<close> is an argument: the answer to the
  \<open>n\<close>-th read of four bytes.
\<close>

section \<open>Renumberings\<close>

unbundle bit_operations_syntax

definition counterMask :: uint64 where
  "counterMask = push_bit InodeLineageShift 1 - 1"

datatype map_error =
    NoLineages
  | AboveCeiling uint32 uint32
  | Folded uint32 uint32 uint32
  | MappedTwice uint32
  | UndeclaredLineage uint64 uint32 "uint32 list"
  | NotProduced uint64 uint32 "uint32 list"
  | RandFailed string
  | TooFewFree nat int nat

record inode_map =
  mp_to :: "(uint32 \<times> uint32) list"
  mp_cut :: uint64

definition go_get :: "(uint32 \<times> uint32) list \<Rightarrow> uint32 \<Rightarrow> uint32" where
  "go_get rs k = (case map_of rs k of None \<Rightarrow> 0 | Some v \<Rightarrow> v)"

definition im_sources :: "inode_map \<Rightarrow> uint32 list" where
  "im_sources m = sort (map fst (mp_to m))"

text \<open>The loop of \<open>Check\<close>: \<open>seen\<close> maps a destination to the source it was seen under.\<close>

fun check_rows :: "inode_map \<Rightarrow> (uint32 \<times> uint32) list \<Rightarrow> uint32 list \<Rightarrow> map_error option" where
  "check_rows m seen [] = None"
| "check_rows m seen (from # fs) =
     (let to = go_get (mp_to m) from in
      if MaxLineage < to then Some (AboveCeiling from to)
      else case map_of seen to of
        Some other \<Rightarrow> Some (Folded other from to)
      | None \<Rightarrow> check_rows m ((to, from) # seen) fs)"

definition Check :: "inode_map \<Rightarrow> map_error option" where
  "Check m = (if mp_to m = [] then Some NoLineages else check_rows m [] (im_sources m))"

definition im_New :: "(uint32 \<times> uint32) list \<Rightarrow> map_error + inode_map" where
  "im_New pairs =
     (let m = \<lparr>mp_to = pairs, mp_cut = 0\<rparr>
      in case Check m of Some e \<Rightarrow> Inl e | None \<Rightarrow> Inr m)"

definition NewAbove :: "(uint32 \<times> uint32) list \<Rightarrow> uint64 \<Rightarrow> map_error + inode_map" where
  "NewAbove pairs cut0 =
     (case im_New pairs of Inl e \<Rightarrow> Inl e | Inr m \<Rightarrow> Inr (m\<lparr>mp_cut := cut0\<rparr>))"

definition relocate :: "uint32 \<Rightarrow> uint64 \<Rightarrow> uint64" where
  "relocate l ino = push_bit InodeLineageShift (ucast l) OR (ino AND counterMask)"

definition Remap :: "inode_map \<Rightarrow> uint64 \<Rightarrow> map_error + uint64" where
  "Remap m ino =
     (if mp_cut m \<noteq> 0 \<and> ino < mp_cut m then Inr ino
      else let from = LineageOf ino in
        case map_of (mp_to m) from of
          None \<Rightarrow> Inl (UndeclaredLineage ino from (im_sources m))
        | Some to \<Rightarrow> Inr (relocate to ino))"

definition Declares :: "inode_map \<Rightarrow> uint32 \<Rightarrow> bool" where
  "Declares m l \<longleftrightarrow> map_of (mp_to m) l \<noteq> None"

definition Destinations :: "inode_map \<Rightarrow> uint32 list" where
  "Destinations m = sort (map (go_get (mp_to m)) (im_sources m))"

definition im_Pairs :: "inode_map \<Rightarrow> lineage_pair list" where
  "im_Pairs m = map (\<lambda>f. \<lparr>lp_From = f, lp_To = go_get (mp_to m) f\<rparr>) (im_sources m)"

fun pair_rows :: "(uint32 \<times> uint32) list \<Rightarrow> lineage_pair list
    \<Rightarrow> map_error + (uint32 \<times> uint32) list" where
  "pair_rows ps [] = Inr ps"
| "pair_rows ps (r # rs) =
     (if map_of ps (lp_From r) \<noteq> None then Inl (MappedTwice (lp_From r))
      else pair_rows (ps @ [(lp_From r, lp_To r)]) rs)"

definition FromPairs :: "lineage_pair list \<Rightarrow> map_error + inode_map" where
  "FromPairs rs = (case pair_rows [] rs of Inl e \<Rightarrow> Inl e | Inr ps \<Rightarrow> im_New ps)"

definition MarkAbove :: "inode_map \<Rightarrow> uint64 \<Rightarrow> map_error + uint64" where
  "MarkAbove m sourceMark =
     (if sourceMark = 0 then Inr 0
      else if \<not> Declares m (LineageOf sourceMark) then Inr 0
      else Remap m sourceMark)"

definition Unmap :: "inode_map \<Rightarrow> uint64 \<Rightarrow> map_error + uint64" where
  "Unmap m ino =
     (if mp_cut m \<noteq> 0 \<and> ino < mp_cut m then Inr ino
      else let to = LineageOf ino in
        case List.find (\<lambda>(from, cand). cand = to) (mp_to m) of
          Some (from, cand) \<Rightarrow> Inr (relocate from ino)
        | None \<Rightarrow> Inl (NotProduced ino to (Destinations m)))"

definition Holds :: "inode_map \<Rightarrow> uint64 \<Rightarrow> bool" where
  "Holds m ino =
     (if mp_cut m \<noteq> 0 \<and> ino < mp_cut m then False
      else list_ex (\<lambda>(from, cand). cand = LineageOf ino) (mp_to m))"

section \<open>Drawing lineages\<close>

type_synonym random = "nat \<Rightarrow> string + bytes"

fun draw_loop :: "int \<Rightarrow> (uint32 \<Rightarrow> bool) \<Rightarrow> random \<Rightarrow> nat \<Rightarrow> nat \<Rightarrow> uint32 list
    \<Rightarrow> map_error + uint32 list" where
  "draw_loop n taken rnd 0 i out = Inr out"
| "draw_loop n taken rnd (Suc left) i out =
     (if int (length out) = n then Inr out
      else case rnd i of
        Inl e \<Rightarrow> Inl (RandFailed e)
      | Inr b \<Rightarrow>
          (let l = word_rcat b AND MaxLineage in
           if l = 0 \<or> l \<in> set out \<or> taken l then draw_loop n taken rnd left (Suc i) out
           else draw_loop n taken rnd left (Suc i) (out @ [l])))"

definition Draw :: "int \<Rightarrow> (uint32 \<Rightarrow> bool) option \<Rightarrow> random \<Rightarrow> map_error + uint32 list" where
  "Draw n taken rnd =
     (if n \<le> 0 then Inr []
      else let tk = (case taken of None \<Rightarrow> (\<lambda>_. False) | Some f \<Rightarrow> f);
               budget = nat (1000 * n) in
        case draw_loop n tk rnd budget 0 [] of
          Inl e \<Rightarrow> Inl e
        | Inr out \<Rightarrow>
            if int (length out) \<noteq> n then Inl (TooFewFree (length out) n budget) else Inr (sort out))"

definition TakenIn :: "uint32 list \<Rightarrow> uint32 \<Rightarrow> bool" where
  "TakenIn ls l \<longleftrightarrow> l \<in> set ls"

fun first_of_each :: "uint32 list \<Rightarrow> uint32 list \<Rightarrow> uint32 list" where
  "first_of_each seen [] = []"
| "first_of_each seen (s # ss) =
     (if s \<in> set seen then first_of_each seen ss else s # first_of_each (s # seen) ss)"

definition DrawFor :: "uint32 list \<Rightarrow> (uint32 \<Rightarrow> bool) option \<Rightarrow> random \<Rightarrow> map_error + inode_map" where
  "DrawFor srcs taken rnd =
     (let ordered = sort (first_of_each [] srcs) in
      case Draw (int (length ordered)) taken rnd of
        Inl e \<Rightarrow> Inl e
      | Inr drawn \<Rightarrow> im_New (zip ordered drawn))"

section \<open>The two halves of an inode\<close>

lemma counterMask_mask: "counterMask = mask 40"
  by (simp add: counterMask_def InodeLineageShift_def mask_eq_exp_minus_1)

lemma bit_relocate:
  "bit (relocate l ino) n \<longleftrightarrow> (if n < 40 then bit ino n else n < 64 \<and> bit l (n - 40))"
  by (auto simp: relocate_def counterMask_mask InodeLineageShift_def bit_simps dest: bit_imp_le_length)

lemma bit_LineageOf: "bit (LineageOf ino) n \<longleftrightarrow> n < 32 \<and> bit ino (40 + n)"
  by (simp add: LineageOf_def InodeLineageShift_def bit_simps)

lemma unat_LineageOf: "unat (LineageOf ino) = unat ino div 2 ^ 40"
proof -
  have s: "unat ino < 2 ^ 24 * 2 ^ 40" by (rule order.strict_trans2 [OF unsigned_less]) simp
  have d: "unat (drop_bit 40 ino) = unat ino div 2 ^ 40"
  proof -
    have "take_bit 64 (unat ino) = unat ino"
      using unsigned_less [of ino] by (intro take_bit_nat_eq_self) simp
    then show ?thesis by (simp only: unsigned_drop_bit_eq) (simp add: drop_bit_eq_div)
  qed
  have "unat ino div 2 ^ 40 < 2 ^ 24" using s by (rule less_mult_imp_div_less)
  then show ?thesis
    using d by (simp add: LineageOf_def InodeLineageShift_def unsigned_ucast_eq take_bit_nat_eq_self)
qed

lemma LineageOf_small: "unat (LineageOf ino) < 2 ^ 24"
  unfolding unat_LineageOf
  by (rule less_mult_imp_div_less) (rule order.strict_trans2 [OF unsigned_less], simp)

lemma small_bits:
  assumes "unat (l :: uint32) < 2 ^ 24" "bit l n"
  shows "n < 24"
proof -
  have "bit (take_bit 24 (unat l)) n"
    using assms by (simp add: take_bit_nat_eq_self bit_unsigned_iff)
  then show ?thesis by (simp add: bit_take_bit_iff)
qed

lemma LineageOf_relocate:
  assumes "unat l < 2 ^ 24"
  shows "LineageOf (relocate l ino) = l"
  by (rule bit_eqI) (auto simp: bit_LineageOf bit_relocate dest: small_bits [OF assms])

lemma relocate_same: "relocate (LineageOf ino) ino = ino"
  by (rule bit_eqI) (auto simp: bit_relocate bit_LineageOf)

lemma relocate_relocate: "relocate l (relocate l' ino) = relocate l ino"
  by (rule bit_eqI) (simp add: bit_relocate)

lemma relocate_counter: "relocate l ino AND counterMask = ino AND counterMask"
  by (rule bit_eqI) (auto simp: bit_relocate counterMask_mask bit_simps)

lemma unat_relocate:
  assumes "unat l < 2 ^ 24"
  shows "unat (relocate l ino) = unat l * 2 ^ 40 + unat ino mod 2 ^ 40"
proof -
  have p: "unat (push_bit 40 (ucast l) :: uint64) = unat l * 2 ^ 40"
    using assms by (rule unat_push_40)
  have m: "unat (ino AND mask 40) = unat ino mod 2 ^ 40"
    by (simp add: take_bit_eq_mask [symmetric] unsigned_take_bit_eq) (simp add: take_bit_eq_mod)
  have "push_bit 40 (ucast l) AND (ino AND mask 40) = (0 :: uint64)"
    by (rule bit_eqI) (auto simp: bit_simps)
  then have "relocate l ino = push_bit 40 (ucast l) + (ino AND mask 40)"
    by (simp add: relocate_def counterMask_mask InodeLineageShift_def disjunctive_add_eq_or)
  moreover have "unat l * 2 ^ 40 + unat ino mod 2 ^ 40 < 2 ^ 64"
  proof -
    have "unat l * 2 ^ 40 \<le> (2 ^ 24 - 1) * 2 ^ 40" using assms by (intro mult_le_mono1) simp
    moreover have "unat ino mod 2 ^ 40 < 2 ^ 40" by simp
    ultimately show ?thesis by simp
  qed
  ultimately show ?thesis using p m by (simp add: unat_plus_if' )
qed

section \<open>What \<open>Check\<close> refuses\<close>

lemma check_rows_ok:
  "check_rows m seen fs = None \<Longrightarrow>
    (\<forall>f \<in> set fs. go_get (mp_to m) f \<le> MaxLineage \<and> go_get (mp_to m) f \<notin> fst ` set seen) \<and>
    distinct (map (go_get (mp_to m)) fs)"
proof (induction m seen fs rule: check_rows.induct)
  case (2 m seen f fs)
  then show ?case
    by (auto simp: Let_def not_less map_of_eq_None_iff split: if_splits option.splits)
qed simp

lemma check_rows_refuses:
  "check_rows m seen fs = Some e \<Longrightarrow>
    (\<exists>f \<in> set fs. MaxLineage < go_get (mp_to m) f) \<or>
    (\<exists>f \<in> set fs. go_get (mp_to m) f \<in> fst ` set seen) \<or>
    \<not> distinct (map (go_get (mp_to m)) fs)"
proof (induction m seen fs rule: check_rows.induct)
  case (2 m seen f fs)
  then show ?case
    by (auto simp: Let_def not_less split: if_splits option.splits dest!: map_of_SomeD intro: rev_image_eqI)
qed simp

text \<open>A map that \<open>New\<close> lets exist: its rows are a map, its destinations fit and differ.\<close>

definition bijective :: "(uint32 \<times> uint32) list \<Rightarrow> bool" where
  "bijective rs \<longleftrightarrow> rs \<noteq> [] \<and> distinct (map fst rs) \<and> distinct (map snd rs) \<and>
    (\<forall>(f, t) \<in> set rs. t \<le> MaxLineage)"

lemma go_get_row: "distinct (map fst rs) \<Longrightarrow> (f, t) \<in> set rs \<Longrightarrow> go_get rs f = t"
  by (simp add: go_get_def)

lemma go_get_rows: "distinct (map fst rs) \<Longrightarrow> map (go_get rs) (map fst rs) = map snd rs"
  by (auto simp: go_get_row)

lemma distinct_over_sources:
  assumes "distinct (map fst rs)"
  shows "distinct (map (go_get rs) (sort (map fst rs))) \<longleftrightarrow> distinct (map snd rs)"
proof -
  have "mset (map (go_get rs) (sort (map fst rs))) = mset (map (go_get rs) (map fst rs))"
    by (simp only: mset_map mset_sort)
  then have "mset (map (go_get rs) (sort (map fst rs))) = mset (map snd rs)"
    by (simp only: go_get_rows [OF assms])
  then show ?thesis by (rule mset_eq_imp_distinct_iff)
qed

lemma im_New_iff:
  assumes "distinct (map fst rs)"
  shows "im_New rs = Inr m \<longleftrightarrow> m = \<lparr>mp_to = rs, mp_cut = 0\<rparr> \<and> bijective rs"
proof -
  have b: "bijective rs \<longleftrightarrow> Check \<lparr>mp_to = rs, mp_cut = 0\<rparr> = None"
  proof
    assume bij: "bijective rs"
    show "Check \<lparr>mp_to = rs, mp_cut = 0\<rparr> = None"
    proof (rule ccontr)
      assume "Check \<lparr>mp_to = rs, mp_cut = 0\<rparr> \<noteq> None"
      then obtain e where "check_rows \<lparr>mp_to = rs, mp_cut = 0\<rparr> [] (sort (map fst rs)) = Some e"
        using bij by (auto simp: Check_def im_sources_def bijective_def)
      from check_rows_refuses [OF this] bij show False
        by (auto simp: bijective_def distinct_over_sources [OF assms] go_get_row split_beta not_less)
    qed
  next
    assume "Check \<lparr>mp_to = rs, mp_cut = 0\<rparr> = None"
    then have "rs \<noteq> []" and c: "check_rows \<lparr>mp_to = rs, mp_cut = 0\<rparr> [] (sort (map fst rs)) = None"
      by (auto simp: Check_def im_sources_def split: if_splits)
    with check_rows_ok [OF c] assms show "bijective rs"
      by (auto simp: bijective_def distinct_over_sources [OF assms] go_get_row)
  qed
  then show ?thesis by (auto simp: im_New_def Let_def split: option.splits)
qed

section \<open>Renumbering and back\<close>

lemma MaxLineage_small: "l \<le> MaxLineage \<Longrightarrow> unat l < 2 ^ 23"
  by (simp add: MaxLineage_def word_le_nat_alt)

lemma NewAbove_facts:
  assumes "NewAbove rs c = Inr m" "distinct (map fst rs)"
  shows "mp_to m = rs" "mp_cut m = c" "distinct (map snd rs)" "(f, t) \<in> set rs \<Longrightarrow> t \<le> MaxLineage"
proof -
  obtain m0 where "im_New rs = Inr m0" and m: "m = m0\<lparr>mp_cut := c\<rparr>"
    using assms(1) by (auto simp: NewAbove_def split: sum.splits)
  then have m0: "m0 = \<lparr>mp_to = rs, mp_cut = 0\<rparr>" "bijective rs"
    using im_New_iff [OF assms(2)] by auto
  then show "mp_to m = rs" "mp_cut m = c" "distinct (map snd rs)" "(f, t) \<in> set rs \<Longrightarrow> t \<le> MaxLineage"
    using m by (auto simp: bijective_def)
qed

definition passes :: "inode_map \<Rightarrow> uint64 \<Rightarrow> bool" where
  "passes m ino \<longleftrightarrow> mp_cut m \<noteq> 0 \<and> ino < mp_cut m"

lemma Remap_passes: "passes m ino \<Longrightarrow> Remap m ino = Inr ino"
  by (simp add: passes_def Remap_def)

lemma Unmap_passes: "passes m ino \<Longrightarrow> Unmap m ino = Inr ino \<and> \<not> Holds m ino"
  by (simp add: passes_def Unmap_def Holds_def)

lemma Remap_row:
  assumes "\<not> passes m ino"
  shows "Remap m ino = Inr out \<longleftrightarrow>
    (\<exists>t. map_of (mp_to m) (LineageOf ino) = Some t \<and> out = relocate t ino)"
  using assms by (auto simp: passes_def Remap_def Let_def split: option.splits)

lemma find_by_destination:
  assumes "distinct (map snd rs)" "(f, t) \<in> set rs"
  shows "List.find (\<lambda>(from, cand). cand = t) rs = Some (f, t)"
  using assms by (induction rs) (auto simp: rev_image_eqI split: prod.splits)

lemma renumbered_inode:
  assumes "NewAbove rs c = Inr m" "distinct (map fst rs)" "\<not> passes m ino" "Remap m ino = Inr out"
  shows "(LineageOf ino, LineageOf out) \<in> set rs" "out = relocate (LineageOf out) ino"
    "LineageOf out \<le> MaxLineage"
proof -
  note N = NewAbove_facts [OF assms(1,2)]
  obtain t where t: "map_of (mp_to m) (LineageOf ino) = Some t" "out = relocate t ino"
    using assms(4) Remap_row [OF assms(3)] by auto
  have mem: "(LineageOf ino, t) \<in> set rs" using t(1) N(1) by (simp add: map_of_SomeD)
  then have le: "t \<le> MaxLineage" by (rule N(4))
  then have l: "LineageOf out = t"
    using t(2) MaxLineage_small [OF le] by (simp add: LineageOf_relocate)
  show "(LineageOf ino, LineageOf out) \<in> set rs" "out = relocate (LineageOf out) ino" "LineageOf out \<le> MaxLineage"
    using mem t(2) le unfolding l by simp_all
qed

lemma lineage_order: "a \<le> b \<Longrightarrow> LineageOf a \<le> LineageOf b"
  by (simp add: word_le_nat_alt unat_LineageOf div_le_mono)

lemma Unmap_Remap:
  assumes "NewAbove rs c = Inr m" "distinct (map fst rs)" "\<not> passes m ino" "Remap m ino = Inr out"
    "c = 0 \<or> (\<forall>(f, t) \<in> set rs. LineageOf c < t)"
  shows "Unmap m out = Inr ino \<and> Holds m out \<and> \<not> passes m out"
proof -
  note N = NewAbove_facts [OF assms(1,2)] and R = renumbered_inode [OF assms(1-4)]
  have p: "\<not> passes m out"
    using assms(5) R(1) lineage_order [of out c] by (force simp: passes_def N(2))
  have "List.find (\<lambda>(from, cand). cand = LineageOf out) rs = Some (LineageOf ino, LineageOf out)"
    by (rule find_by_destination [OF N(3) R(1)])
  then have "Unmap m out = Inr (relocate (LineageOf ino) out)"
    using p by (auto simp: Unmap_def Let_def N(1) passes_def)
  also have "relocate (LineageOf ino) out = ino"
    by (subst R(2)) (simp add: relocate_relocate relocate_same)
  finally show ?thesis using R(1) p by (auto simp: Holds_def N(1) passes_def list_ex_iff)
qed

lemma relocate_order:
  assumes "LineageOf a = LineageOf b" "t \<le> MaxLineage"
  shows "relocate t a \<le> relocate t b \<longleftrightarrow> a \<le> b"
proof -
  have m: "unat t < 2 ^ 24" using MaxLineage_small [OF assms(2)] by simp
  have "unat a div 2 ^ 40 = unat b div 2 ^ 40" using assms(1) by (simp only: unat_LineageOf [symmetric])
  then have "unat a mod 2 ^ 40 \<le> unat b mod 2 ^ 40 \<longleftrightarrow> unat a \<le> unat b"
    by (metis add_le_cancel_left div_mult_mod_eq)
  then show ?thesis by (simp only: word_le_nat_alt unat_relocate [OF m] add_le_cancel_left)
qed

lemma fits_int64:
  assumes "LineageOf ino \<le> MaxLineage"
  shows "0 \<le> sint ino"
proof -
  have "unat ino div 2 ^ 40 < 2 ^ 23"
    using MaxLineage_small [OF assms] by (simp only: unat_LineageOf)
  then have "unat ino < 2 ^ 63" by simp
  then show ?thesis by (rule sint_nonneg_of_uint)
qed

section \<open>Draws\<close>

lemma draw_loop_spec:
  assumes "draw_loop n taken rnd left i out0 = Inr out"
    "distinct out0" "\<forall>l \<in> set out0. l \<noteq> 0 \<and> l \<le> MaxLineage \<and> \<not> taken l" "int (length out0) \<le> n"
  shows "distinct out \<and> (\<forall>l \<in> set out. l \<noteq> 0 \<and> l \<le> MaxLineage \<and> \<not> taken l) \<and> int (length out) \<le> n"
  using assms
proof (induction n taken rnd left i out0 rule: draw_loop.induct)
  case (2 n taken rnd left i out0)
  show ?case
  proof (cases "int (length out0) = n")
    case True
    then show ?thesis using "2.prems" by simp
  next
    case False
    then obtain b where b: "rnd i = Inr b" using "2.prems"(1) by (auto split: sum.splits)
    define l where "l = word_rcat b AND MaxLineage"
    have le: "l \<le> MaxLineage" unfolding l_def by (rule word_and_le1)
    show ?thesis
    proof (cases "l = 0 \<or> l \<in> set out0 \<or> taken l")
      case True
      then have "draw_loop n taken rnd left (Suc i) out0 = Inr out"
        using "2.prems"(1) False b by (simp add: l_def [symmetric])
      from "2.IH"(1) [OF False b l_def True this "2.prems"(2-4)] show ?thesis .
    next
      case new: False
      then have "draw_loop n taken rnd left (Suc i) (out0 @ [l]) = Inr out"
        using "2.prems"(1) False b by (simp add: l_def [symmetric])
      from "2.IH"(2) [OF False b l_def new this] show ?thesis
        using "2.prems"(2-4) False new le by auto
    qed
  qed
qed simp

lemma Draw_spec:
  assumes "Draw n taken rnd = Inr out" "0 \<le> n"
  shows "int (length out) = n \<and> distinct out \<and> sorted out \<and>
    (\<forall>l \<in> set out. l \<noteq> 0 \<and> l \<le> MaxLineage \<and> (\<forall>f. taken = Some f \<longrightarrow> \<not> f l))"
proof (cases "n \<le> 0")
  case True
  then show ?thesis using assms by (simp add: Draw_def)
next
  case False
  define tk where "tk = (case taken of None \<Rightarrow> (\<lambda>_. False) | Some f \<Rightarrow> f)"
  obtain raw where raw: "draw_loop n tk rnd (nat (1000 * n)) 0 [] = Inr raw"
      "int (length raw) = n" "out = sort raw"
    using assms(1) False by (auto simp: Draw_def Let_def tk_def [symmetric] split: sum.splits if_splits)
  have "distinct raw \<and> (\<forall>l \<in> set raw. l \<noteq> 0 \<and> l \<le> MaxLineage \<and> \<not> tk l)"
    using draw_loop_spec [OF raw(1)] False by simp
  then show ?thesis using raw(2,3) by (auto simp: tk_def)
qed

lemma first_of_each_props:
  "set (first_of_each seen ss) = set ss - set seen" "distinct (first_of_each seen ss)"
  by (induction seen ss rule: first_of_each.induct) auto

lemma past_the_cut:
  assumes "NewAbove rs c = Inr m" "distinct (map fst rs)" "c = 0 \<or> (\<forall>(f, t) \<in> set rs. LineageOf c < t)"
    "passes m a" "\<not> passes m b" "Remap m b = Inr y"
  shows "a < y \<and> a < b"
proof -
  note N = NewAbove_facts [OF assms(1,2)]
  have a: "c \<noteq> 0" "a < c" and b: "c \<le> b" using assms(4,5) by (auto simp: passes_def N(2))
  have "LineageOf c < LineageOf y"
    using renumbered_inode(1) [OF assms(1,2,5,6)] assms(3) a(1) by auto
  moreover have "LineageOf a \<le> LineageOf c" using a(2) by (intro lineage_order) simp
  ultimately have "\<not> y \<le> a" using lineage_order [of y a] by auto
  then show ?thesis using a(2) b by auto
qed

lemma Remap_order:
  assumes "NewAbove rs c = Inr m" "distinct (map fst rs)" "c = 0 \<or> (\<forall>(f, t) \<in> set rs. LineageOf c < t)"
    "Remap m a = Inr x" "Remap m b = Inr y" "LineageOf a = LineageOf b"
  shows "x \<le> y \<longleftrightarrow> a \<le> b"
proof -
  note R = renumbered_inode [OF assms(1,2)] and P = past_the_cut [OF assms(1-3)]
  consider (both) "passes m a" "passes m b" | (left) "passes m a" "\<not> passes m b"
    | (right) "\<not> passes m a" "passes m b" | (none) "\<not> passes m a" "\<not> passes m b" by blast
  then show ?thesis
  proof cases
    case both
    then show ?thesis using assms(4,5) by (simp add: Remap_passes)
  next
    case left
    then show ?thesis using P [OF left assms(5)] assms(4) by (auto simp: Remap_passes)
  next
    case right
    then show ?thesis using P [OF right(2,1) assms(4)] assms(5) by (auto simp: Remap_passes)
  next
    case none
    have "LineageOf x = LineageOf y"
      using R(1) [OF none(1) assms(4)] R(1) [OF none(2) assms(5)] assms(2,6)
      by (metis eq_key_imp_eq_value)
    then show ?thesis
      using R(2,3) [OF none(1) assms(4)] R(2) [OF none(2) assms(5)] relocate_order [OF assms(6)] by metis
  qed
qed

lemma Draw_ordered:
  assumes "DrawFor srcs taken rnd = Inr m"
  shows "\<exists>ordered drawn. set ordered = set srcs \<and> distinct ordered \<and> sorted ordered \<and>
    length drawn = length ordered \<and> distinct drawn \<and>
    (\<forall>l \<in> set drawn. l \<noteq> 0 \<and> l \<le> MaxLineage \<and> (\<forall>f. taken = Some f \<longrightarrow> \<not> f l)) \<and>
    NewAbove (zip ordered drawn) 0 = Inr m"
proof -
  define ordered where "ordered = sort (first_of_each [] srcs)"
  obtain drawn where d: "Draw (int (length ordered)) taken rnd = Inr drawn" "im_New (zip ordered drawn) = Inr m"
    using assms by (auto simp: DrawFor_def Let_def ordered_def [symmetric] split: sum.splits)
  have "m\<lparr>mp_cut := 0\<rparr> = m"
    using d(2) by (auto simp: im_New_def Let_def split: option.splits)
  then have "NewAbove (zip ordered drawn) 0 = Inr m" by (simp add: NewAbove_def d(2))
  moreover have "set ordered = set srcs" "distinct ordered" "sorted ordered"
    by (simp_all add: ordered_def first_of_each_props)
  ultimately show ?thesis using Draw_spec [OF d(1)] by auto
qed

lemma pair_rows_fresh:
  "distinct (map fst ps @ map lp_From rs) \<Longrightarrow>
    pair_rows ps rs = Inr (ps @ map (\<lambda>r. (lp_From r, lp_To r)) rs)"
proof (induction ps rs rule: pair_rows.induct)
  case (2 ps r rs)
  then have "map_of ps (lp_From r) = None" by (auto simp: map_of_eq_None_iff)
  moreover have "pair_rows (ps @ [(lp_From r, lp_To r)]) rs =
      Inr ((ps @ [(lp_From r, lp_To r)]) @ map (\<lambda>r. (lp_From r, lp_To r)) rs)"
    using "2.IH" "2.prems" calculation by auto
  ultimately show ?case by simp
qed simp

definition sorted_rows :: "(uint32 \<times> uint32) list \<Rightarrow> (uint32 \<times> uint32) list" where
  "sorted_rows rs = map (\<lambda>f. (f, go_get rs f)) (sort (map fst rs))"

lemma sorted_rows_props:
  assumes "distinct (map fst rs)"
  shows "map fst (sorted_rows rs) = sort (map fst rs)" "map_of (sorted_rows rs) = map_of rs"
    "set (sorted_rows rs) = set rs" "bijective (sorted_rows rs) \<longleftrightarrow> bijective rs"
proof -
  show f: "map fst (sorted_rows rs) = sort (map fst rs)" by (simp add: sorted_rows_def comp_def)
  have "set (sorted_rows rs) = (\<lambda>r. (fst r, go_get rs (fst r))) ` set rs"
    by (auto simp: sorted_rows_def)
  also have "\<dots> = set rs" using go_get_row [OF assms] by (force simp: image_iff)
  finally show s: "set (sorted_rows rs) = set rs" .
  have d: "distinct (map fst (sorted_rows rs))" using assms by (simp add: f)
  show "map_of (sorted_rows rs) = map_of rs"
    using map_of_eqI [OF _] s d assms by (metis map_of_inject_set)
  have "map snd (sorted_rows rs) = map (go_get rs) (sort (map fst rs))"
    by (simp add: sorted_rows_def comp_def)
  then have "distinct (map snd (sorted_rows rs)) = distinct (map snd rs)"
    using distinct_over_sources [OF assms] by simp
  moreover have "sorted_rows rs = [] \<longleftrightarrow> rs = []"
    using f by (metis map_is_Nil_conv set_empty set_sort list.map_disc_iff)
  ultimately show "bijective (sorted_rows rs) \<longleftrightarrow> bijective rs"
    using assms d s by (auto simp: bijective_def)
qed

lemma FromPairs_Pairs:
  assumes "im_New rs = Inr m" "distinct (map fst rs)"
  shows "FromPairs (im_Pairs m) = Inr \<lparr>mp_to = sorted_rows rs, mp_cut = 0\<rparr>"
proof -
  have m: "m = \<lparr>mp_to = rs, mp_cut = 0\<rparr>" "bijective rs"
    using im_New_iff [OF assms(2)] assms(1) by auto
  have "pair_rows [] (im_Pairs m) = Inr (sorted_rows rs)"
    using assms(2) by (subst pair_rows_fresh) (simp_all add: im_Pairs_def m(1) im_sources_def sorted_rows_def comp_def)
  moreover have "im_New (sorted_rows rs) = Inr \<lparr>mp_to = sorted_rows rs, mp_cut = 0\<rparr>"
    using im_New_iff [of "sorted_rows rs"] sorted_rows_props [OF assms(2)] m(2) assms(2) by simp
  ultimately show ?thesis by (simp add: FromPairs_def)
qed

section \<open>Properties\<close>

text \<open>
  C29: A renumbering loses nothing. Under a map that \<open>New\<close> lets exist, and under one that
  renumbers only from a cut on when every lineage it writes lies past the cut's: two inodes
  land on one number only when they are one inode, so hard links stay exactly the hard links
  they were; a renumbered inode is held by the map, is undone by \<open>Unmap\<close> and fits SQLite's
  signed integer; the order inside a lineage is kept; and an inode of a lineage the map does
  not declare is refused, never passed on.
\<close>

theorem renumbering_loses_nothing:
  assumes "NewAbove rs c = Inr m" "distinct (map fst rs)"
    "c = 0 \<or> (\<forall>(f, t) \<in> set rs. LineageOf c < t)"
  shows "(\<forall>a b out. Remap m a = Inr out \<and> Remap m b = Inr out \<longrightarrow> a = b) \<and>
    (\<forall>a out. Remap m a = Inr out \<and> \<not> (c \<noteq> 0 \<and> a < c) \<longrightarrow>
      Unmap m out = Inr a \<and> Holds m out \<and> 0 \<le> sint out) \<and>
    (\<forall>a b x y. Remap m a = Inr x \<and> Remap m b = Inr y \<and> LineageOf a = LineageOf b \<longrightarrow>
      (x \<le> y \<longleftrightarrow> a \<le> b)) \<and>
    (\<forall>a. \<not> Declares m (LineageOf a) \<and> \<not> (c \<noteq> 0 \<and> a < c) \<longrightarrow>
      Remap m a = Inl (UndeclaredLineage a (LineageOf a) (sort (map fst rs))))"
  (is "?inj \<and> ?undo \<and> ?order \<and> ?refused")
proof -
  note N = NewAbove_facts [OF assms(1,2)] and undo = Unmap_Remap [OF assms(1,2) _ _ assms(3)]
  have pass: "passes m a \<longleftrightarrow> c \<noteq> 0 \<and> a < c" for a by (simp add: passes_def N(2))
  have stays: "Remap m a = Inr out \<Longrightarrow> passes m out \<longleftrightarrow> passes m a" for a out
    using undo by (cases "passes m a") (auto simp: Remap_passes)
  have ?inj
  proof (intro allI impI, elim conjE)
    fix a b out assume r: "Remap m a = Inr out" "Remap m b = Inr out"
    show "a = b"
    proof (cases "passes m out")
      case True
      then show ?thesis using r stays by (auto simp: Remap_passes)
    next
      case False
      then show ?thesis using undo [OF _ r(1)] undo [OF _ r(2)] stays r by auto
    qed
  qed
  moreover have ?undo
    using undo fits_int64 [OF renumbered_inode(3) [OF assms(1,2)]] by (auto simp: pass)
  moreover have ?order
    using Remap_order [OF assms] by blast
  moreover have ?refused
    by (auto simp: Declares_def Remap_def Let_def N im_sources_def)
  ultimately show ?thesis by blast
qed

text \<open>
  A drawn map is fresh and complete. When \<open>DrawFor\<close> answers, whatever the random source
  gave: the map declares exactly the lineages it was asked for, so every inode of them is
  renumbered; each lands in a lineage that is not 0, that no one had taken and that keeps
  inodes inside SQLite's integers; no two source lineages share one; and the rows recorded in
  the superblock rebuild a map that renumbers every inode alike.
\<close>

theorem drawn_map_is_fresh:
  assumes "DrawFor srcs (Some taken) rnd = Inr m"
  shows "set (im_sources m) = set srcs \<and> distinct (Destinations m) \<and>
    (\<forall>d \<in> set (Destinations m). d \<noteq> 0 \<and> d \<le> MaxLineage \<and> \<not> taken d) \<and>
    (\<forall>ino. LineageOf ino \<in> set srcs \<longrightarrow>
      (\<exists>out. Remap m ino = Inr out \<and> LineageOf out \<in> set (Destinations m))) \<and>
    (\<exists>m'. FromPairs (im_Pairs m) = Inr m' \<and> (\<forall>ino. Remap m' ino = Remap m ino))"
proof -
  obtain ordered drawn where od: "set ordered = set srcs" "distinct ordered" "length drawn = length ordered"
      "distinct drawn" "\<forall>l \<in> set drawn. l \<noteq> 0 \<and> l \<le> MaxLineage \<and> \<not> taken l"
      "NewAbove (zip ordered drawn) 0 = Inr m"
    using Draw_ordered [OF assms] by auto
  define rs where "rs = zip ordered drawn"
  have rs: "distinct (map fst rs)" "map fst rs = ordered" "map snd rs = drawn"
    using od(2,3) by (simp_all add: rs_def)
  have new: "NewAbove rs 0 = Inr m" using od(6) by (simp add: rs_def)
  note N = NewAbove_facts [OF new rs(1)]
  have m: "m = \<lparr>mp_to = rs, mp_cut = 0\<rparr>" using N(1,2) by simp
  have dests: "set (Destinations m) = set drawn"
  proof -
    have "set (Destinations m) = set (map (go_get rs) (map fst rs))"
      by (simp add: Destinations_def im_sources_def m image_image)
    then show ?thesis by (simp only: go_get_rows [OF rs(1)] rs(3))
  qed
  have "distinct (Destinations m)"
    using distinct_over_sources [OF rs(1)] od(4) rs(3) by (simp add: Destinations_def im_sources_def m)
  moreover have "\<exists>out. Remap m ino = Inr out \<and> LineageOf out \<in> set (Destinations m)"
    if l: "LineageOf ino \<in> set srcs" for ino
  proof -
    obtain t where "map_of rs (LineageOf ino) = Some t"
      using l od(1) rs(2) by (cases "map_of rs (LineageOf ino)") (auto simp: map_of_eq_None_iff)
    then have r: "Remap m ino = Inr (relocate t ino)" by (simp add: Remap_def m)
    have "\<not> passes m ino" by (simp add: passes_def m)
    from renumbered_inode(1) [OF new rs(1) this r] show ?thesis
      using r unfolding dests rs(3) [symmetric] by force
  qed
  moreover have "Remap \<lparr>mp_to = sorted_rows rs, mp_cut = 0\<rparr> ino = Remap m ino" for ino
    by (simp add: Remap_def Let_def m sorted_rows_props [OF rs(1)] im_sources_def sorted_sort_id split: option.split)
  moreover have "im_New rs = Inr m"
    using new m im_New_iff [OF rs(1)] by (auto simp: NewAbove_def split: sum.splits)
  from FromPairs_Pairs [OF this rs(1)]
  have "FromPairs (im_Pairs m) = Inr \<lparr>mp_to = sorted_rows rs, mp_cut = 0\<rparr>" .
  moreover have "set (im_sources m) = set srcs"
    using od(1) rs(2) by (simp add: im_sources_def m flip: set_map)
  moreover have "\<forall>d \<in> set (Destinations m). d \<noteq> 0 \<and> d \<le> MaxLineage \<and> \<not> taken d"
    using od(5) by (simp only: dests)
  ultimately show ?thesis by blast
qed

text \<open>
  From a cut on, the renumbering is one to one only by luck. \<open>NewAbove\<close> checks the pairs
  and not the cut: where a pair leads into a lineage below the cut's, every inode it moves
  lands on the number of an inode that stays, the map does not hold the result, and \<open>Unmap\<close>
  answers with the wrong inode.
\<close>

theorem renumbered_below_the_cut_is_lost:
  assumes "NewAbove rs c = Inr m" "distinct (map fst rs)" "(LineageOf ino, t) \<in> set rs"
    "c \<le> ino" "c \<noteq> 0" "t < LineageOf c"
  shows "\<exists>out. Remap m ino = Inr out \<and> Remap m out = Inr out \<and> out \<noteq> ino \<and>
    \<not> Holds m out \<and> Unmap m out = Inr out"
proof -
  note N = NewAbove_facts [OF assms(1,2)]
  have np: "\<not> passes m ino" using assms(4) by (auto simp: passes_def N(2))
  have r: "Remap m ino = Inr (relocate t ino)"
    using Remap_row [OF np] assms(2,3) N(1) by simp
  have l: "LineageOf (relocate t ino) = t"
    using MaxLineage_small [OF N(4) [OF assms(3)]] by (intro LineageOf_relocate) simp
  have "\<not> c \<le> relocate t ino" using lineage_order [of c "relocate t ino"] assms(6) l by auto
  then have "passes m (relocate t ino)" "relocate t ino \<noteq> ino"
    using assms(4,5) by (auto simp: passes_def N(2))
  then show ?thesis using r by (simp add: Remap_passes Unmap_passes)
qed

section \<open>Witnesses\<close>

definition sample_rows :: "(uint32 \<times> uint32) list" where
  "sample_rows = [(7, 90), (0, 41)]"

lemma sample_map: "NewAbove sample_rows 0 = Inr \<lparr>mp_to = sample_rows, mp_cut = 0\<rparr>"
  by code_simp

theorem renumbering_loses_nothing_witness:
  "Unmap \<lparr>mp_to = sample_rows, mp_cut = 0\<rparr> (push_bit 40 41 + 12) = Inr 12"
proof -
  have d: "distinct (map fst sample_rows)" by code_simp
  have r: "Remap \<lparr>mp_to = sample_rows, mp_cut = 0\<rparr> 12 = Inr (push_bit 40 41 + 12)" by code_simp
  show ?thesis using renumbering_loses_nothing [OF sample_map d] r by simp
qed

theorem drawn_map_is_fresh_witness:
  "case DrawFor [3, 0, 3] (Some (\<lambda>l. l = 5)) (\<lambda>i. Inr [0, 0, 0, of_nat i + 4]) of
    Inl _ \<Rightarrow> False | Inr m \<Rightarrow> set (im_sources m) = {0, 3} \<and> Destinations m = [4, 6]"
proof -
  have "DrawFor [3, 0, 3] (Some (\<lambda>l. l = 5)) (\<lambda>i. Inr [0, 0, 0, of_nat i + 4]) =
      Inr \<lparr>mp_to = [(0, 4), (3, 6)], mp_cut = 0\<rparr>" by code_simp
  moreover from drawn_map_is_fresh [OF this]
  have "set (im_sources \<lparr>mp_to = [(0, 4), (3, 6)], mp_cut = 0\<rparr>) = {0, 3}" by auto
  moreover have "Destinations \<lparr>mp_to = [(0, 4), (3, 6)], mp_cut = 0\<rparr> = [4, 6]" by code_simp
  ultimately show ?thesis by simp
qed

theorem renumbered_below_the_cut_is_lost_witness:
  "\<exists>out. Remap \<lparr>mp_to = [(9, 3)], mp_cut = push_bit 40 9\<rparr> (push_bit 40 9 + 2) = Inr out \<and>
    Unmap \<lparr>mp_to = [(9, 3)], mp_cut = push_bit 40 9\<rparr> out \<noteq> Inr (push_bit 40 9 + 2)"
proof -
  have n: "NewAbove [(9, 3)] (push_bit 40 9) = Inr \<lparr>mp_to = [(9, 3)], mp_cut = push_bit 40 9\<rparr>" by code_simp
  have "(LineageOf (push_bit 40 9 + 2), 3) \<in> set [(9, 3 :: uint32)]" "push_bit 40 9 \<le> (push_bit 40 9 + 2 :: uint64)"
    "(push_bit 40 9 :: uint64) \<noteq> 0" "3 < LineageOf (push_bit 40 9)" by code_simp+
  from renumbered_below_the_cut_is_lost [OF n _ this] show ?thesis by auto
qed

end
