(* ===== verification/Overlay_State.thy ===== *)
theory Overlay_State
  imports Three_Way_Merge
begin

text \<open>
  The write overlay, \<open>internal/overlay/overlay.go\<close>, \<open>read.go\<close>, \<open>bulk.go\<close>: one session's changes kept as
  rows over an immutable base generation, and the merged view read through them. The tables
  of the SQLite database are association lists with one row per key; a transaction is a
  program whose table changes are kept when it ends without an error and its commit succeeds
  (a \<open>Begin\<close> or a statement that fails is not modelled: it ends the program with the tables as
  they were, as a failed commit does). A \<open>next_inode\<close> that is missing or does not parse is None.
  The base generation (\<open>internal/genfs\<close>) and the content store are records of operations on
  arbitrary states; every one of them may fail.
\<close>

section \<open>Programs that may fail and change a state\<close>

datatype ofs_err =
    ErrNotExist
  | ErrStale
  | ErrExist
  | ErrNotEmpty
  | ErrNotDir
  | ErrIsDir
  | ErrGeneration
  | TooDeep uint64
  | Wrapped ofs_err
  | BadType uint64 byte
  | NegativeOffset int64
  | NoNextInode
  | NoOnodeRow uint64
  | SqlFailed string
  | ContentFailed string
  | BaseFailed string
  | Refused string

text \<open>\<open>errors.Is\<close>: the target itself or an error wrapped around it. The texts of wrappings are omitted.\<close>

fun is_err :: "ofs_err \<Rightarrow> ofs_err \<Rightarrow> bool" where
  "is_err target (Wrapped e) \<longleftrightarrow> target = Wrapped e \<or> is_err target e"
| "is_err target e \<longleftrightarrow> target = e"

type_synonym ('s, 'a) prog = "'s \<Rightarrow> (ofs_err + 'a) \<times> 's"

definition ret :: "'a \<Rightarrow> ('s, 'a) prog" where
  "ret x = (\<lambda>s. (Inr x, s))"

definition fail :: "ofs_err \<Rightarrow> ('s, 'a) prog" where
  "fail e = (\<lambda>s. (Inl e, s))"

definition andThen :: "('s, 'a) prog \<Rightarrow> ('a \<Rightarrow> ('s, 'b) prog) \<Rightarrow> ('s, 'b) prog" where
  "andThen m f = (\<lambda>s. case m s of (Inl e, s') \<Rightarrow> (Inl e, s') | (Inr x, s') \<Rightarrow> f x s')"

definition attempt :: "('s, 'a) prog \<Rightarrow> (ofs_err + 'a \<Rightarrow> ('s, 'b) prog) \<Rightarrow> ('s, 'b) prog" where
  "attempt m f = (\<lambda>s. case m s of (r, s') \<Rightarrow> f r s')"

definition asks :: "('s \<Rightarrow> 'a) \<Rightarrow> ('s, 'a) prog" where
  "asks f = (\<lambda>s. (Inr (f s), s))"

definition changes :: "('s \<Rightarrow> 's) \<Rightarrow> ('s, unit) prog" where
  "changes f = (\<lambda>s. (Inr (), f s))"

definition whenever :: "bool \<Rightarrow> ('s, unit) prog \<Rightarrow> ('s, unit) prog" where
  "whenever b m = (if b then m else ret ())"

section \<open>Tables\<close>

record prov_edge =
  pe_parent :: uint64
  pe_name :: string

record onode_row =
  or_node :: node
  or_base :: bool

record tables =
  tb_next :: "uint64 option"
  tb_root :: "bytes option"
  tb_gen :: "uint64 option"
  tb_onode :: "(uint64 \<times> onode_row) list"
  tb_oedge :: "((uint64 \<times> string) \<times> (uint64 \<times> byte)) list"
  tb_oxattr :: "((uint64 \<times> string) \<times> (bytes \<times> bool)) list"
  tb_osymlink :: "(uint64 \<times> string) list"
  tb_ocontent :: "(uint64 \<times> unit) list"
  tb_obase :: "(uint64 \<times> prov_edge) list"

definition put_row :: "'k \<Rightarrow> 'v \<Rightarrow> ('k \<times> 'v) list \<Rightarrow> ('k \<times> 'v) list" where
  "put_row k v t = AList.update k v t"

definition drop_rows :: "('k \<Rightarrow> bool) \<Rightarrow> ('k \<times> 'v) list \<Rightarrow> ('k \<times> 'v) list" where
  "drop_rows P t = filter (\<lambda>(k, v). \<not> P k) t"

record snapshot_state =
  ss_byInode :: "(uint64 \<times> prov_edge) list"
  ss_names :: "(uint64 \<times> string) list"

text \<open>
  One open overlay. \<open>of_rows\<close> is the row cache a seal arms: a copy of the tables. \<open>of_commits\<close>
  says how the coming commits end: \<open>None\<close> commits, \<open>Some e\<close> fails with \<open>e\<close>; past the list they commit.
\<close>

record ('b, 'c) ofs =
  of_base :: 'b
  of_content :: 'c
  of_tb :: tables
  of_rows :: "tables option"
  of_prov :: "(uint64 \<times> prov_edge) list"
  of_dirtySet :: "uint64 list option"
  of_seq :: uint64
  of_modSeq :: "(uint64 \<times> uint64) list"
  of_rebasedSeq :: uint64
  of_snapEdges :: "(uint64 \<times> snapshot_state) list"
  of_commits :: "string option list"

section \<open>The base generation and the content store\<close>

record 'b base_ops =
  bo_Lookup :: "uint64 \<Rightarrow> string \<Rightarrow> ('b, node) prog"
  bo_GetAttr :: "uint64 \<Rightarrow> ('b, node) prog"
  bo_Readdir :: "uint64 \<Rightarrow> ('b, (string \<times> node) list) prog"
  bo_ReaddirRetain :: "uint64 \<Rightarrow> ('b, (string \<times> node) list) prog"
  bo_Readlink :: "uint64 \<Rightarrow> ('b, string) prog"
  bo_GetXattr :: "uint64 \<Rightarrow> string \<Rightarrow> ('b, bytes) prog"
  bo_ListXattr :: "uint64 \<Rightarrow> ('b, string list) prog"
  bo_Read :: "uint64 \<Rightarrow> int64 \<Rightarrow> nat \<Rightarrow> ('b, bytes) prog"
  bo_Resident :: "uint64 \<Rightarrow> 'b \<Rightarrow> bool"
  bo_Edge :: "uint64 \<Rightarrow> ('b, prov_edge) prog"
  bo_RootCatalog :: "'b \<Rightarrow> bytes"

text \<open>
  \<open>co_Reads\<close> says whether \<open>Adopt\<close> reads the base file's body it is given, as the staging store does,
  or ignores the reader, as the memtable store does; the bytes are what it has read.
\<close>

record 'c content_ops =
  co_Create :: "uint64 \<Rightarrow> ('c, unit) prog"
  co_Reads :: bool
  co_Adopt :: "uint64 \<Rightarrow> int64 \<Rightarrow> bytes \<Rightarrow> ('c, unit) prog"
  co_ReadAt :: "uint64 \<Rightarrow> int64 \<Rightarrow> nat \<Rightarrow> ('c, bytes) prog"
  co_WriteAt :: "uint64 \<Rightarrow> int64 \<Rightarrow> bytes \<Rightarrow> ('c, unit) prog"
  co_Truncate :: "uint64 \<Rightarrow> int64 \<Rightarrow> ('c, unit) prog"
  co_Drop :: "uint64 \<Rightarrow> 'c \<Rightarrow> 'c"
  co_Size :: "uint64 \<Rightarrow> 'c \<Rightarrow> int64 option"

definition on_base :: "('b, 'a) prog \<Rightarrow> (('b, 'c) ofs, 'a) prog" where
  "on_base f = (\<lambda>s. case f (of_base s) of (r, b') \<Rightarrow> (r, s\<lparr>of_base := b'\<rparr>))"

definition on_content :: "('c, 'a) prog \<Rightarrow> (('b, 'c) ofs, 'a) prog" where
  "on_content f = (\<lambda>s. case f (of_content s) of (r, c') \<Rightarrow> (r, s\<lparr>of_content := c'\<rparr>))"

section \<open>Transactions and rows\<close>

definition withTx :: "(('b, 'c) ofs, 'a) prog \<Rightarrow> (('b, 'c) ofs, 'a) prog" where
  "withTx fn = (\<lambda>s.
     case fn (s\<lparr>of_rows := None\<rparr>) of
       (Inl e, s') \<Rightarrow> (Inl e, s'\<lparr>of_tb := of_tb s\<rparr>)
     | (Inr x, s') \<Rightarrow>
         (case of_commits s' of
            Some e # es \<Rightarrow> (Inl (SqlFailed e), s'\<lparr>of_tb := of_tb s, of_commits := es\<rparr>)
          | None # es \<Rightarrow> (Inr x, s'\<lparr>of_commits := es\<rparr>)
          | [] \<Rightarrow> (Inr x, s')))"

definition exec :: "(tables \<Rightarrow> tables) \<Rightarrow> (('b, 'c) ofs, unit) prog" where
  "exec f = changes (\<lambda>s. s\<lparr>of_tb := f (of_tb s)\<rparr>)"

text \<open>Reads are answered from the armed row cache, from the tables without one.\<close>

definition cur :: "('b, 'c) ofs \<Rightarrow> tables" where
  "cur s = (case of_rows s of Some t \<Rightarrow> t | None \<Rightarrow> of_tb s)"

definition onodeLocked :: "uint64 \<Rightarrow> ('b, 'c) ofs \<Rightarrow> onode_row option" where
  "onodeLocked ino s = map_of (tb_onode (cur s)) ino"

definition oedgeLocked :: "uint64 \<Rightarrow> string \<Rightarrow> ('b, 'c) ofs \<Rightarrow> (uint64 \<times> byte) option" where
  "oedgeLocked parent nm s = map_of (tb_oedge (cur s)) (parent, nm)"

definition names_in :: "uint64 \<Rightarrow> tables \<Rightarrow> (string \<times> (uint64 \<times> byte)) list" where
  "names_in ino t = map (\<lambda>((p, nm), e). (nm, e)) (filter (\<lambda>((p, nm), e). p = ino) (tb_oedge t))"

definition oedgesOfLocked :: "uint64 \<Rightarrow> ('b, 'c) ofs \<Rightarrow> (string \<times> (uint64 \<times> byte)) list" where
  "oedgesOfLocked parent s = names_in parent (cur s)"

definition oxattrLocked :: "uint64 \<Rightarrow> string \<Rightarrow> ('b, 'c) ofs \<Rightarrow> (bytes \<times> bool) option" where
  "oxattrLocked ino nm s = map_of (tb_oxattr (cur s)) (ino, nm)"

definition oxattrsOfLocked :: "uint64 \<Rightarrow> ('b, 'c) ofs \<Rightarrow> (string \<times> bool) list" where
  "oxattrsOfLocked ino s =
     map (\<lambda>((i, nm), (v, t)). (nm, t)) (filter (\<lambda>((i, nm), x). i = ino) (tb_oxattr (cur s)))"

definition osymlinkLocked :: "uint64 \<Rightarrow> ('b, 'c) ofs \<Rightarrow> string option" where
  "osymlinkLocked ino s = map_of (tb_osymlink (cur s)) ino"

definition stagedLocked :: "uint64 \<Rightarrow> ('b, 'c) ofs \<Rightarrow> bool" where
  "stagedLocked ino s \<longleftrightarrow> map_of (tb_ocontent (cur s)) ino \<noteq> None"

definition obaseLocked :: "uint64 \<Rightarrow> ('b, 'c) ofs \<Rightarrow> prov_edge option" where
  "obaseLocked ino s = map_of (tb_obase (cur s)) ino"

definition PrepareSeal :: "(('b, 'c) ofs, unit) prog" where
  "PrepareSeal = changes (\<lambda>s. s\<lparr>of_rows := Some (cur s)\<rparr>)"

definition ReleaseSeal :: "(('b, 'c) ofs, unit) prog" where
  "ReleaseSeal = changes (\<lambda>s. s\<lparr>of_rows := None\<rparr>)"

definition putONode :: "onode_row \<Rightarrow> (('b, 'c) ofs, unit) prog" where
  "putONode r = exec (\<lambda>t. t\<lparr>tb_onode := put_row (n_Inode (or_node r)) r (tb_onode t)\<rparr>)"

definition putOEdge :: "uint64 \<Rightarrow> string \<Rightarrow> uint64 \<Rightarrow> byte \<Rightarrow> (('b, 'c) ofs, unit) prog" where
  "putOEdge parent nm ino ty = exec (\<lambda>t. t\<lparr>tb_oedge := put_row (parent, nm) (ino, ty) (tb_oedge t)\<rparr>)"

definition putWhiteout :: "uint64 \<Rightarrow> string \<Rightarrow> (('b, 'c) ofs, unit) prog" where
  "putWhiteout parent nm = putOEdge parent nm 0 0"

definition deleteOEdge :: "uint64 \<Rightarrow> string \<Rightarrow> (('b, 'c) ofs, unit) prog" where
  "deleteOEdge parent nm = exec (\<lambda>t. t\<lparr>tb_oedge := drop_rows (\<lambda>k. k = (parent, nm)) (tb_oedge t)\<rparr>)"

definition baseBackedLocked :: "uint64 \<Rightarrow> ('b, 'c) ofs \<Rightarrow> bool" where
  "baseBackedLocked ino s = (case onodeLocked ino s of None \<Rightarrow> True | Some r \<Rightarrow> or_base r)"

definition allocInodeLocked :: "(('b, 'c) ofs, uint64) prog" where
  "allocInodeLocked =
     andThen (asks (\<lambda>s. tb_next (of_tb s))) (\<lambda>v.
       case v of
         None \<Rightarrow> fail NoNextInode
       | Some ino \<Rightarrow> andThen (exec (\<lambda>t. t\<lparr>tb_next := Some (ino + 1)\<rparr>)) (\<lambda>_. ret ino))"

section \<open>Reaching the base\<close>

definition RootInode :: uint64 where "RootInode = 1"
definition maxBaseChainDepth :: nat where "maxBaseChainDepth = 4096"

definition put_prov :: "uint64 \<Rightarrow> prov_edge \<Rightarrow> (('b, 'c) ofs, unit) prog" where
  "put_prov ino e = changes (\<lambda>s. s\<lparr>of_prov := AList.update ino e (of_prov s)\<rparr>)"

definition baseLookupLocked :: "'b base_ops \<Rightarrow> uint64 \<Rightarrow> string \<Rightarrow> (('b, 'c) ofs, node) prog" where
  "baseLookupLocked B parent nm =
     andThen (on_base (bo_Lookup B parent nm)) (\<lambda>n.
     andThen (put_prov (n_Inode n) \<lparr>pe_parent = parent, pe_name = nm\<rparr>) (\<lambda>_. ret n))"

function ensureBaseDepth :: "'b base_ops \<Rightarrow> uint64 \<Rightarrow> nat \<Rightarrow> (('b, 'c) ofs, unit) prog" where
  "ensureBaseDepth B ino d =
     (if ino = RootInode then ret ()
      else if maxBaseChainDepth < d then fail (TooDeep ino)
      else andThen (asks (\<lambda>s. (bo_Resident B ino (of_base s), map_of (of_prov s) ino))) (\<lambda>(res, known).
        if res then ret ()
        else
          let persisted =
            andThen (asks (obaseLocked ino)) (\<lambda>row.
              case row of
                None \<Rightarrow> ret ()
              | Some chain \<Rightarrow>
                  andThen (ensureBaseDepth B (pe_parent chain) (d + 1)) (\<lambda>_.
                  attempt (baseLookupLocked B (pe_parent chain) (pe_name chain)) (\<lambda>r.
                    case r of
                      Inl e \<Rightarrow> fail (Wrapped e)
                    | Inr n \<Rightarrow> ret ())))
          in case known of
               None \<Rightarrow> persisted
             | Some pe \<Rightarrow>
                 andThen (ensureBaseDepth B (pe_parent pe) (d + 1)) (\<lambda>_.
                 attempt (baseLookupLocked B (pe_parent pe) (pe_name pe)) (\<lambda>r.
                   case r of
                     Inl e \<Rightarrow> persisted
                   | Inr n \<Rightarrow> if n_Inode n = ino then ret () else persisted))))"
  by pat_completeness auto
termination
  by (relation "measure (\<lambda>(B, ino, d). Suc maxBaseChainDepth - d)") auto

declare ensureBaseDepth.simps [simp del]

definition ensureBaseLocked :: "'b base_ops \<Rightarrow> uint64 \<Rightarrow> (('b, 'c) ofs, unit) prog" where
  "ensureBaseLocked B ino = ensureBaseDepth B ino 0"

section \<open>Reading the merged view\<close>

record resolved =
  rs_ino :: uint64
  rs_typ :: byte
  rs_overlay :: bool
  rs_node :: "node option"

definition resolveLocked :: "'b base_ops \<Rightarrow> uint64 \<Rightarrow> string \<Rightarrow> (('b, 'c) ofs, resolved) prog" where
  "resolveLocked B parent nm =
     andThen (asks (\<lambda>s. (oedgeLocked parent nm s, baseBackedLocked parent s))) (\<lambda>(e, backed).
       case e of
         Some (i, ty) \<Rightarrow>
           if i = 0 then fail ErrNotExist
           else ret \<lparr>rs_ino = i, rs_typ = ty, rs_overlay = True, rs_node = None\<rparr>
       | None \<Rightarrow>
           if \<not> backed then fail ErrNotExist
           else andThen (ensureBaseLocked B parent) (\<lambda>_.
             andThen (baseLookupLocked B parent nm) (\<lambda>n.
             ret \<lparr>rs_ino = n_Inode n, rs_typ = n_Type n, rs_overlay = False, rs_node = Some n\<rparr>)))"

definition attrsLocked :: "'b base_ops \<Rightarrow> uint64 \<Rightarrow> node option \<Rightarrow> (('b, 'c) ofs, node) prog" where
  "attrsLocked B ino hint =
     andThen (asks (onodeLocked ino)) (\<lambda>row.
       case row of
         Some r \<Rightarrow> ret (or_node r)
       | None \<Rightarrow>
           (case hint of
              Some n \<Rightarrow> ret n
            | None \<Rightarrow> andThen (ensureBaseLocked B ino) (\<lambda>_. on_base (bo_GetAttr B ino))))"

definition ov_Lookup :: "'b base_ops \<Rightarrow> uint64 \<Rightarrow> string \<Rightarrow> (('b, 'c) ofs, node) prog" where
  "ov_Lookup B parent nm =
     andThen (resolveLocked B parent nm) (\<lambda>r. attrsLocked B (rs_ino r) (rs_node r))"

definition ov_GetAttr :: "'b base_ops \<Rightarrow> uint64 \<Rightarrow> (('b, 'c) ofs, node) prog" where
  "ov_GetAttr B ino = attrsLocked B ino None"

text \<open>
  The base half of a listing: an entry is hidden by any overlay row of its name, and takes
  the attributes of its own row when it has one.
\<close>

fun base_half :: "uint64 \<Rightarrow> bool \<Rightarrow> (string \<times> (uint64 \<times> byte)) list \<Rightarrow> (string \<times> node) list
    \<Rightarrow> (string \<times> node) list \<Rightarrow> (('b, 'c) ofs, (string \<times> node) list) prog" where
  "base_half ino retain over acc [] = ret acc"
| "base_half ino retain over acc ((nm, n) # es) =
     andThen (whenever retain (put_prov (n_Inode n) \<lparr>pe_parent = ino, pe_name = nm\<rparr>)) (\<lambda>_.
       if map_of over nm \<noteq> None then base_half ino retain over acc es
       else andThen (asks (onodeLocked (n_Inode n))) (\<lambda>row.
         base_half ino retain over
           (acc @ [(nm, case row of Some r \<Rightarrow> or_node r | None \<Rightarrow> n)]) es))"

fun overlay_half :: "'b base_ops \<Rightarrow> (string \<times> node) list \<Rightarrow> (string \<times> (uint64 \<times> byte)) list
    \<Rightarrow> (('b, 'c) ofs, (string \<times> node) list) prog" where
  "overlay_half B acc [] = ret acc"
| "overlay_half B acc ((nm, (i, ty)) # es) =
     (if i = 0 then overlay_half B acc es
      else attempt (attrsLocked B i None) (\<lambda>r.
        case r of
          Inl e \<Rightarrow> fail (Wrapped e)
        | Inr n \<Rightarrow> overlay_half B (acc @ [(nm, n)]) es))"

definition readdirLocked :: "'b base_ops \<Rightarrow> uint64 \<Rightarrow> bool \<Rightarrow> (('b, 'c) ofs, (string \<times> node) list) prog" where
  "readdirLocked B ino retain =
     andThen (asks (\<lambda>s. (oedgesOfLocked ino s, baseBackedLocked ino s))) (\<lambda>(over, backed).
     andThen
       (if \<not> backed then ret []
        else andThen (ensureBaseLocked B ino) (\<lambda>_.
          andThen (on_base (if retain then bo_ReaddirRetain B ino else bo_Readdir B ino))
            (base_half ino retain over []))) (\<lambda>lower.
     andThen (overlay_half B lower over) (\<lambda>all. ret (sort_key fst all))))"

definition ov_Readdir :: "'b base_ops \<Rightarrow> uint64 \<Rightarrow> (('b, 'c) ofs, (string \<times> node) list) prog" where
  "ov_Readdir B ino = readdirLocked B ino False"

definition ov_ReaddirRetain :: "'b base_ops \<Rightarrow> uint64 \<Rightarrow> (('b, 'c) ofs, (string \<times> node) list) prog" where
  "ov_ReaddirRetain B ino = readdirLocked B ino True"

definition ov_Readlink :: "'b base_ops \<Rightarrow> uint64 \<Rightarrow> (('b, 'c) ofs, string) prog" where
  "ov_Readlink B ino =
     andThen (asks (\<lambda>s. (osymlinkLocked ino s, baseBackedLocked ino s))) (\<lambda>(row, backed).
       case row of
         Some t \<Rightarrow> ret t
       | None \<Rightarrow>
           if \<not> backed then fail ErrNotExist
           else andThen (ensureBaseLocked B ino) (\<lambda>_. on_base (bo_Readlink B ino)))"

definition ov_GetXattr :: "'b base_ops \<Rightarrow> uint64 \<Rightarrow> string \<Rightarrow> (('b, 'c) ofs, bytes) prog" where
  "ov_GetXattr B ino nm =
     andThen (asks (\<lambda>s. (oxattrLocked ino nm s, baseBackedLocked ino s))) (\<lambda>(row, backed).
       case row of
         Some (v, tomb) \<Rightarrow> if tomb then fail ErrNotExist else ret v
       | None \<Rightarrow>
           if \<not> backed then fail ErrNotExist
           else andThen (ensureBaseLocked B ino) (\<lambda>_. on_base (bo_GetXattr B ino nm)))"

definition shown_names :: "string list \<Rightarrow> (string \<times> bool) list \<Rightarrow> string list" where
  "shown_names lower xs =
     (let shown = fold (\<lambda>(nm, tomb) m. AList.update nm (\<not> tomb) m) xs
                    (fold (\<lambda>nm m. AList.update nm True m) lower [])
      in sort (map fst (filter snd shown)))"

definition ov_ListXattr :: "'b base_ops \<Rightarrow> uint64 \<Rightarrow> (('b, 'c) ofs, string list) prog" where
  "ov_ListXattr B ino =
     andThen (asks (baseBackedLocked ino)) (\<lambda>backed.
     andThen
       (if \<not> backed then ret []
        else andThen (ensureBaseLocked B ino) (\<lambda>_. on_base (bo_ListXattr B ino))) (\<lambda>lower.
     andThen (asks (oxattrsOfLocked ino)) (\<lambda>xs. ret (shown_names lower xs))))"

definition ov_Read :: "'b base_ops \<Rightarrow> 'c content_ops \<Rightarrow> uint64 \<Rightarrow> int64 \<Rightarrow> nat
    \<Rightarrow> (('b, 'c) ofs, bytes) prog" where
  "ov_Read B C ino off len =
     (if off <s 0 then fail (NegativeOffset off)
      else andThen (asks (\<lambda>s. (stagedLocked ino s, onodeLocked ino s))) (\<lambda>(staged, row).
        if \<not> staged then andThen (ensureBaseLocked B ino) (\<lambda>_. on_base (bo_Read B ino off len))
        else case row of
          None \<Rightarrow> fail (NoOnodeRow ino)
        | Some r \<Rightarrow>
            let whole = n_Length (or_node r); n = word_of_nat len in
            if whole \<le>s off \<or> len = 0 then ret []
            else on_content (co_ReadAt C ino off
              (nat (sint (if whole <s off + n then whole - off else n))))))"

end
