(* ===== verification/Overlay_Write.thy ===== *)
theory Overlay_Write
  imports Overlay_State
begin

text \<open>
  The operations that change the overlay, \<open>internal/overlay/write.go\<close> with the bookkeeping of
  \<open>accessors.go\<close> and \<open>pendingBaseNameLocked\<close> of \<open>snapshot.go\<close>. The time an operation stamps is
  an argument; every operation runs under the overlay's lock, so it is one step.
\<close>

section \<open>Bookkeeping\<close>

definition bumpSeqLocked :: "uint64 list \<Rightarrow> (('b, 'c) ofs, unit) prog" where
  "bumpSeqLocked inos = changes (\<lambda>s.
     let q = of_seq s + 1
     in s\<lparr>of_seq := q,
          of_modSeq := fold (\<lambda>i m. if i = 0 then m else AList.update i q m) inos (of_modSeq s)\<rparr>)"

definition markDirtyLocked :: "uint64 list \<Rightarrow> (('b, 'c) ofs, unit) prog" where
  "markDirtyLocked inos =
     andThen (bumpSeqLocked inos) (\<lambda>_. changes (\<lambda>s.
       s\<lparr>of_dirtySet :=
          (case of_dirtySet s of
             None \<Rightarrow> None
           | Some d \<Rightarrow> Some (fold (\<lambda>i d. if i = 0 then d else List.insert i d) inos d))\<rparr>))"

definition modSeqOfLocked :: "uint64 \<Rightarrow> ('b, 'c) ofs \<Rightarrow> uint64" where
  "modSeqOfLocked ino s = (case map_of (of_modSeq s) ino of Some v \<Rightarrow> v | None \<Rightarrow> - 1)"

text \<open>The inodes the tables name: what \<open>IsDirty\<close> is seeded with, and what a rebase starts from.\<close>

definition loaded_dirty :: "tables \<Rightarrow> uint64 list" where
  "loaded_dirty t =
     map fst (tb_onode t) @ map fst (tb_ocontent t) @ map (fst \<circ> fst) (tb_oxattr t) @
     filter (\<lambda>i. i \<noteq> 0) (map (fst \<circ> snd) (tb_oedge t)) @ map (fst \<circ> fst) (tb_oedge t)"

definition loadDirtyLocked :: "(('b, 'c) ofs, unit) prog" where
  "loadDirtyLocked = changes (\<lambda>s.
     case of_dirtySet s of
       Some d \<Rightarrow> s
     | None \<Rightarrow> s\<lparr>of_dirtySet := Some (remdups (loaded_dirty (of_tb s)))\<rparr>)"

definition IsDirty :: "uint64 \<Rightarrow> (('b, 'c) ofs, bool) prog" where
  "IsDirty ino =
     andThen loadDirtyLocked (\<lambda>_. asks (\<lambda>s.
       case of_dirtySet s of Some d \<Rightarrow> ino \<in> set d | None \<Rightarrow> False))"

definition row_dirty :: "tables \<Rightarrow> uint64 list" where
  "row_dirty t = loaded_dirty t @ map fst (tb_osymlink t)"

definition DirtyInodes :: "(('b, 'c) ofs, uint64 list) prog" where
  "DirtyInodes = asks (\<lambda>s. remdups (row_dirty (cur s) @ (case of_dirtySet s of None \<Rightarrow> [] | Some d \<Rightarrow> d)))"

definition pendingBaseNameLocked :: "uint64 \<Rightarrow> string \<Rightarrow> ('b, 'c) ofs \<Rightarrow> bool" where
  "pendingBaseNameLocked parent nm s \<longleftrightarrow>
     list_ex (\<lambda>(q, st). (parent, nm) \<in> set (ss_names st)) (of_snapEdges s)"

section \<open>Creating\<close>

definition TypeFile :: byte where "TypeFile = 1"
definition TypeFIFO :: byte where "TypeFIFO = 4"
definition TypeSocket :: byte where "TypeSocket = 7"
definition TypeCharDev :: byte where "TypeCharDev = 6"
definition TypeBlockDev :: byte where "TypeBlockDev = 5"

definition checkParentDirLocked :: "'b base_ops \<Rightarrow> uint64 \<Rightarrow> (('b, 'c) ofs, unit) prog" where
  "checkParentDirLocked B parent =
     andThen (attrsLocked B parent None) (\<lambda>n. if n_Type n \<noteq> TypeDir then fail ErrNotDir else ret ())"

definition checkAbsentLocked :: "'b base_ops \<Rightarrow> uint64 \<Rightarrow> string \<Rightarrow> (('b, 'c) ofs, unit) prog" where
  "checkAbsentLocked B parent nm =
     attempt (resolveLocked B parent nm) (\<lambda>r.
       case r of
         Inr _ \<Rightarrow> fail ErrExist
       | Inl e \<Rightarrow> if \<not> is_err ErrNotExist e then fail e else ret ())"

definition createNodeLocked :: "'b base_ops \<Rightarrow> uint64 \<Rightarrow> string \<Rightarrow> node
    \<Rightarrow> (uint64 \<Rightarrow> (('b, 'c) ofs, unit) prog) \<Rightarrow> (('b, 'c) ofs, node) prog" where
  "createNodeLocked B parent nm tmpl extra =
     andThen (checkParentDirLocked B parent) (\<lambda>_.
     andThen (checkAbsentLocked B parent nm) (\<lambda>_.
     andThen
       (withTx (andThen allocInodeLocked (\<lambda>ino.
          andThen (putONode \<lparr>or_node = tmpl\<lparr>n_Inode := ino\<rparr>, or_base = False\<rparr>) (\<lambda>_.
          andThen (putOEdge parent nm ino (n_Type tmpl)) (\<lambda>_.
          andThen (extra ino) (\<lambda>_. ret (tmpl\<lparr>n_Inode := ino\<rparr>))))))) (\<lambda>out.
     andThen (markDirtyLocked [parent, n_Inode out]) (\<lambda>_. ret out))))"

definition new_node :: "byte \<Rightarrow> uint32 \<Rightarrow> uint32 \<Rightarrow> uint32 \<Rightarrow> int64 \<Rightarrow> uint32 \<Rightarrow> node" where
  "new_node ty mode uid gid now links =
     \<lparr>n_Inode = 0, n_Type = ty, n_Mode = mode, n_UID = uid, n_GID = gid, n_MtimeNS = now,
      n_CtimeNS = now, n_Nlink = links, n_Length = 0, n_Rdev = 0, n_Flags = 0\<rparr>"

definition ov_Create :: "'b base_ops \<Rightarrow> 'c content_ops \<Rightarrow> int64 \<Rightarrow> uint64 \<Rightarrow> string
    \<Rightarrow> uint32 \<Rightarrow> uint32 \<Rightarrow> uint32 \<Rightarrow> (('b, 'c) ofs, node) prog" where
  "ov_Create B C now parent nm mode uid gid =
     createNodeLocked B parent nm (new_node TypeFile mode uid gid now 1) (\<lambda>ino.
       andThen (exec (\<lambda>t. t\<lparr>tb_ocontent := put_row ino () (tb_ocontent t)\<rparr>)) (\<lambda>_.
       on_content (co_Create C ino)))"

definition ov_Mkdir :: "'b base_ops \<Rightarrow> int64 \<Rightarrow> uint64 \<Rightarrow> string \<Rightarrow> uint32 \<Rightarrow> uint32 \<Rightarrow> uint32
    \<Rightarrow> (('b, 'c) ofs, node) prog" where
  "ov_Mkdir B now parent nm mode uid gid =
     createNodeLocked B parent nm (new_node TypeDir mode uid gid now 2) (\<lambda>_. ret ())"

definition ov_Symlink :: "'b base_ops \<Rightarrow> int64 \<Rightarrow> uint64 \<Rightarrow> string \<Rightarrow> string \<Rightarrow> uint32 \<Rightarrow> uint32
    \<Rightarrow> (('b, 'c) ofs, node) prog" where
  "ov_Symlink B now parent nm target uid gid =
     createNodeLocked B parent nm
       ((new_node TypeSymlink 511 uid gid now 1)\<lparr>n_Length := word_of_nat (length target)\<rparr>)
       (\<lambda>ino. exec (\<lambda>t. t\<lparr>tb_osymlink := put_row ino target (tb_osymlink t)\<rparr>))"

definition ov_Mknod :: "'b base_ops \<Rightarrow> int64 \<Rightarrow> uint64 \<Rightarrow> string \<Rightarrow> byte \<Rightarrow> uint32 \<Rightarrow> uint32 \<Rightarrow> uint32
    \<Rightarrow> uint32 \<Rightarrow> (('b, 'c) ofs, node) prog" where
  "ov_Mknod B now parent nm ty mode uid gid rdev =
     (if ty \<notin> {TypeFIFO, TypeBlockDev, TypeCharDev, TypeSocket} then fail (BadType 0 ty)
      else createNodeLocked B parent nm ((new_node ty mode uid gid now 1)\<lparr>n_Rdev := rdev\<rparr>) (\<lambda>_. ret ()))"

section \<open>Removing\<close>

definition baseHasEdgeLocked :: "'b base_ops \<Rightarrow> uint64 \<Rightarrow> string \<Rightarrow> (('b, 'c) ofs, bool) prog" where
  "baseHasEdgeLocked B parent nm =
     andThen (asks (\<lambda>s. (pendingBaseNameLocked parent nm s, baseBackedLocked parent s))) (\<lambda>(pending, backed).
       if pending then ret True
       else if \<not> backed then ret False
       else andThen (ensureBaseLocked B parent) (\<lambda>_.
         attempt (baseLookupLocked B parent nm) (\<lambda>r.
           case r of
             Inr _ \<Rightarrow> ret True
           | Inl e \<Rightarrow> if is_err ErrNotExist e then ret False else fail e)))"

definition removeEdgeLocked :: "'b base_ops \<Rightarrow> uint64 \<Rightarrow> string \<Rightarrow> bool \<Rightarrow> (('b, 'c) ofs, unit) prog" where
  "removeEdgeLocked B parent nm overlayEdge =
     (if \<not> overlayEdge then putWhiteout parent nm
      else andThen (deleteOEdge parent nm) (\<lambda>_.
        andThen (baseHasEdgeLocked B parent nm) (\<lambda>shadow.
          if \<not> shadow then ret () else putWhiteout parent nm)))"

text \<open>The answer is the inode whose staged body is to be dropped, 0 for none.\<close>

definition purgeNodeLocked :: "uint64 \<Rightarrow> (('b, 'c) ofs, uint64) prog" where
  "purgeNodeLocked ino =
     andThen (asks (\<lambda>s. map_of (tb_ocontent (of_tb s)) ino \<noteq> None)) (\<lambda>staged.
     andThen (exec (\<lambda>t. t\<lparr>tb_onode := drop_rows (\<lambda>i. i = ino) (tb_onode t),
        tb_oxattr := drop_rows (\<lambda>(i, nm). i = ino) (tb_oxattr t),
        tb_osymlink := drop_rows (\<lambda>i. i = ino) (tb_osymlink t),
        tb_ocontent := drop_rows (\<lambda>i. i = ino) (tb_ocontent t)\<rparr>)) (\<lambda>_.
     ret (if staged then ino else 0)))"

definition drop_from_row :: "int64 \<Rightarrow> uint64 \<Rightarrow> onode_row \<Rightarrow> (('b, 'c) ofs, uint64) prog" where
  "drop_from_row now ino r =
     (if 1 < n_Nlink (or_node r) then
        andThen (putONode (r\<lparr>or_node := (or_node r)\<lparr>n_Nlink := n_Nlink (or_node r) - 1, n_CtimeNS := now\<rparr>\<rparr>))
          (\<lambda>_. ret 0)
      else purgeNodeLocked ino)"

definition dropNodeRefLocked :: "'b base_ops \<Rightarrow> int64 \<Rightarrow> uint64 \<Rightarrow> node option
    \<Rightarrow> (('b, 'c) ofs, uint64) prog" where
  "dropNodeRefLocked B now ino hint =
     andThen (asks (\<lambda>s. map_of (tb_onode (of_tb s)) ino)) (\<lambda>row.
       case row of
         Some r \<Rightarrow> drop_from_row now ino r
       | None \<Rightarrow>
           andThen
             (case hint of
                Some n \<Rightarrow> ret n
              | None \<Rightarrow> andThen (ensureBaseLocked B ino) (\<lambda>_. on_base (bo_GetAttr B ino))) (\<lambda>n.
           if n_Nlink n \<le> 1 then ret 0
           else drop_from_row now ino \<lparr>or_node = n, or_base = True\<rparr>))"

definition drop_staged :: "'c content_ops \<Rightarrow> uint64 \<Rightarrow> (('b, 'c) ofs, unit) prog" where
  "drop_staged C ino =
     whenever (ino \<noteq> 0) (changes (\<lambda>s. s\<lparr>of_content := co_Drop C ino (of_content s)\<rparr>))"

definition ov_Unlink :: "'b base_ops \<Rightarrow> 'c content_ops \<Rightarrow> int64 \<Rightarrow> uint64 \<Rightarrow> string
    \<Rightarrow> (('b, 'c) ofs, unit) prog" where
  "ov_Unlink B C now parent nm =
     andThen (markDirtyLocked [parent]) (\<lambda>_.
     andThen (resolveLocked B parent nm) (\<lambda>r.
       if rs_typ r = TypeDir then fail ErrIsDir
       else andThen (bumpSeqLocked [rs_ino r]) (\<lambda>_.
       andThen
         (withTx (andThen (removeEdgeLocked B parent nm (rs_overlay r)) (\<lambda>_.
            dropNodeRefLocked B now (rs_ino r) (rs_node r)))) (drop_staged C))))"

definition emptyDirLocked :: "'b base_ops \<Rightarrow> uint64 \<Rightarrow> (('b, 'c) ofs, unit) prog" where
  "emptyDirLocked B ino =
     andThen (asks (\<lambda>s. (names_in ino (of_tb s), baseBackedLocked ino s))) (\<lambda>(over, backed).
       if list_ex (\<lambda>(nm, (i, ty)). i \<noteq> 0) over then fail ErrNotEmpty
       else if \<not> backed then ret ()
       else andThen (ensureBaseLocked B ino) (\<lambda>_.
         andThen (on_base (bo_Readdir B ino)) (\<lambda>bes.
           if list_ex (\<lambda>(nm, n). map_of over nm = None) bes then fail ErrNotEmpty else ret ())))"

definition removeDirLocked :: "uint64 \<Rightarrow> (('b, 'c) ofs, unit) prog" where
  "removeDirLocked ino =
     andThen (exec (\<lambda>t. t\<lparr>tb_oedge := drop_rows (\<lambda>(p, nm). p = ino) (tb_oedge t)\<rparr>)) (\<lambda>_.
     andThen (purgeNodeLocked ino) (\<lambda>_. ret ()))"

definition ov_Rmdir :: "'b base_ops \<Rightarrow> uint64 \<Rightarrow> string \<Rightarrow> (('b, 'c) ofs, unit) prog" where
  "ov_Rmdir B parent nm =
     andThen (markDirtyLocked [parent]) (\<lambda>_.
     andThen (resolveLocked B parent nm) (\<lambda>r.
       if rs_typ r \<noteq> TypeDir then fail ErrNotDir
       else andThen (emptyDirLocked B (rs_ino r)) (\<lambda>_.
       andThen (bumpSeqLocked [rs_ino r]) (\<lambda>_.
       withTx (andThen (removeDirLocked (rs_ino r)) (\<lambda>_.
         removeEdgeLocked B parent nm (rs_overlay r)))))))"

section \<open>Renaming and linking\<close>

function persistChainLocked :: "'b base_ops \<Rightarrow> uint64 \<Rightarrow> ('b, 'c) ofs
    \<Rightarrow> (ofs_err + unit) \<times> ('b, 'c) ofs" where
  "persistChainLocked B ino s =
     (if ino = RootInode then (Inr (), s)
      else if map_of (tb_obase (of_tb s)) ino \<noteq> None then (Inr (), s)
      else case
        (case map_of (of_prov s) ino of
           Some pe \<Rightarrow> (Inr pe, s)
         | None \<Rightarrow>
             (case on_base (bo_Edge B ino) s of
                (Inl e, s') \<Rightarrow> (Inl (Wrapped e), s')
              | (Inr pe, s') \<Rightarrow> (Inr pe, s'))) of
        (Inl e, s') \<Rightarrow> (Inl e, s')
      | (Inr pe, s') \<Rightarrow>
          persistChainLocked B (pe_parent pe)
            (snd (exec (\<lambda>t. t\<lparr>tb_obase := put_row ino pe (tb_obase t)\<rparr>) s')))"
  by pat_completeness auto

lemma map_of_put_row: "map_of (put_row k v t) = (map_of t)(k \<mapsto> v)"
  by (simp add: put_row_def update_conv')

lemma on_base_tb: "on_base f s = (r, s') \<Longrightarrow> of_tb s' = of_tb s"
  by (auto simp: on_base_def split: prod.splits)

termination persistChainLocked
proof (relation "measure (\<lambda>(B, ino, s). card (- dom (map_of (tb_obase (of_tb s)))))", simp, goal_cases)
  case (1 B ino s r s' pe)
  have t: "of_tb s' = of_tb s"
    using 1(3) on_base_tb [of "bo_Edge B ino" s] by (fastforce split: option.splits prod.splits sum.splits)
  have "- insert ino (dom (map_of (tb_obase (of_tb s)))) \<subset> - dom (map_of (tb_obase (of_tb s)))"
    using 1(2) by auto
  then show ?case
    by (simp add: exec_def changes_def map_of_put_row t psubset_card_mono)
qed

declare persistChainLocked.simps [simp del]

definition move_over :: "'b base_ops \<Rightarrow> int64 \<Rightarrow> uint64 \<Rightarrow> string \<Rightarrow> resolved option
    \<Rightarrow> (('b, 'c) ofs, uint64) prog" where
  "move_over B now dstParent dstName dst =
     (case dst of
        None \<Rightarrow> ret 0
      | Some d \<Rightarrow>
          andThen (whenever (rs_overlay d) (deleteOEdge dstParent dstName)) (\<lambda>_.
            if rs_typ d = TypeDir then andThen (removeDirLocked (rs_ino d)) (\<lambda>_. ret 0)
            else dropNodeRefLocked B now (rs_ino d) (rs_node d)))"

definition may_replace :: "'b base_ops \<Rightarrow> resolved \<Rightarrow> resolved \<Rightarrow> (('b, 'c) ofs, unit) prog" where
  "may_replace B src dst =
     andThen (bumpSeqLocked [rs_ino dst]) (\<lambda>_.
       if rs_typ src = TypeDir \<and> rs_typ dst \<noteq> TypeDir then fail ErrNotDir
       else if rs_typ src \<noteq> TypeDir \<and> rs_typ dst = TypeDir then fail ErrIsDir
       else if rs_typ dst = TypeDir then emptyDirLocked B (rs_ino dst)
       else ret ())"

definition rename_tx :: "'b base_ops \<Rightarrow> int64 \<Rightarrow> uint64 \<Rightarrow> string \<Rightarrow> resolved \<Rightarrow> uint64 \<Rightarrow> string
    \<Rightarrow> resolved option \<Rightarrow> (('b, 'c) ofs, uint64) prog" where
  "rename_tx B now srcParent srcName src dstParent dstName dst =
     andThen (move_over B now dstParent dstName dst) (\<lambda>staged.
     andThen
       (if rs_overlay src then removeEdgeLocked B srcParent srcName True
        else andThen (persistChainLocked B (rs_ino src)) (\<lambda>_. putWhiteout srcParent srcName)) (\<lambda>_.
     andThen (putOEdge dstParent dstName (rs_ino src) (rs_typ src)) (\<lambda>_. ret staged)))"

definition ov_Rename :: "'b base_ops \<Rightarrow> 'c content_ops \<Rightarrow> int64 \<Rightarrow> uint64 \<Rightarrow> string \<Rightarrow> uint64 \<Rightarrow> string
    \<Rightarrow> (('b, 'c) ofs, unit) prog" where
  "ov_Rename B C now srcParent srcName dstParent dstName =
     andThen (markDirtyLocked [srcParent, dstParent]) (\<lambda>_.
     andThen (resolveLocked B srcParent srcName) (\<lambda>src.
       if srcParent = dstParent \<and> srcName = dstName then ret ()
       else andThen (markDirtyLocked [rs_ino src]) (\<lambda>_.
         attempt (resolveLocked B dstParent dstName) (\<lambda>found.
           case found of
             Inl e \<Rightarrow>
               if \<not> is_err ErrNotExist e then fail e
               else andThen (withTx (rename_tx B now srcParent srcName src dstParent dstName None))
                      (drop_staged C)
           | Inr dst \<Rightarrow>
               if rs_ino dst = rs_ino src then ret ()
               else andThen (may_replace B src dst) (\<lambda>_.
                 andThen (withTx (rename_tx B now srcParent srcName src dstParent dstName (Some dst)))
                   (drop_staged C))))))"

definition materializeAttrsLocked :: "'b base_ops \<Rightarrow> uint64 \<Rightarrow> (('b, 'c) ofs, onode_row) prog" where
  "materializeAttrsLocked B ino =
     andThen (asks (\<lambda>s. map_of (tb_onode (of_tb s)) ino)) (\<lambda>row.
       case row of
         Some r \<Rightarrow> ret r
       | None \<Rightarrow>
           andThen (ensureBaseLocked B ino) (\<lambda>_.
           andThen (on_base (bo_GetAttr B ino)) (\<lambda>n.
           andThen (putONode \<lparr>or_node = n, or_base = True\<rparr>) (\<lambda>_.
           ret \<lparr>or_node = n, or_base = True\<rparr>))))"

definition ov_Link :: "'b base_ops \<Rightarrow> int64 \<Rightarrow> uint64 \<Rightarrow> uint64 \<Rightarrow> string \<Rightarrow> (('b, 'c) ofs, node) prog" where
  "ov_Link B now ino parent nm =
     andThen (markDirtyLocked [ino, parent]) (\<lambda>_.
     andThen (attrsLocked B ino None) (\<lambda>n.
       if n_Type n = TypeDir then fail ErrIsDir
       else andThen (checkParentDirLocked B parent) (\<lambda>_.
       andThen (checkAbsentLocked B parent nm) (\<lambda>_.
       withTx (andThen (materializeAttrsLocked B ino) (\<lambda>row.
         andThen (if or_base row then persistChainLocked B ino else ret ()) (\<lambda>_.
         let out = (or_node row)\<lparr>n_Nlink := n_Nlink (or_node row) + 1, n_CtimeNS := now\<rparr> in
         andThen (putONode (row\<lparr>or_node := out\<rparr>)) (\<lambda>_.
         andThen (putOEdge parent nm ino (n_Type (or_node row))) (\<lambda>_. ret out)))))))))"

section \<open>Contents and attributes\<close>

text \<open>The prefix of a base file a content store adopts, read until it is whole.\<close>

fun base_prefix :: "'b base_ops \<Rightarrow> uint64 \<Rightarrow> nat \<Rightarrow> int64 \<Rightarrow> nat \<Rightarrow> bytes \<Rightarrow> (('b, 'c) ofs, bytes) prog" where
  "base_prefix B ino 0 off left acc = ret acc"
| "base_prefix B ino (Suc tries) off left acc =
     (if left = 0 then ret acc
      else andThen (on_base (bo_Read B ino off left)) (\<lambda>got.
        if got = [] then fail (ContentFailed ''unexpected EOF'')
        else base_prefix B ino tries (off + word_of_nat (length got)) (left - length got) (acc @ got)))"

definition materializeContentLocked :: "'b base_ops \<Rightarrow> 'c content_ops \<Rightarrow> onode_row \<Rightarrow> int64
    \<Rightarrow> (('b, 'c) ofs, unit) prog" where
  "materializeContentLocked B C r copyLen =
     (let ino = n_Inode (or_node r) in
      andThen (asks (\<lambda>s. map_of (tb_ocontent (of_tb s)) ino \<noteq> None)) (\<lambda>staged.
        if staged then ret ()
        else if n_Type (or_node r) \<noteq> TypeFile then fail (BadType ino (n_Type (or_node r)))
        else
          let n = (if n_Length (or_node r) <s copyLen then n_Length (or_node r) else copyLen) in
          andThen
            (if 0 <s n then andThen (ensureBaseLocked B ino) (\<lambda>_.
               if co_Reads C then base_prefix B ino (nat (sint n)) 0 (nat (sint n)) [] else ret [])
             else ret []) (\<lambda>body.
          andThen (on_content (co_Adopt C ino n body)) (\<lambda>_.
          exec (\<lambda>t. t\<lparr>tb_ocontent := put_row ino () (tb_ocontent t)\<rparr>)))))"

definition ov_Write :: "'b base_ops \<Rightarrow> 'c content_ops \<Rightarrow> int64 \<Rightarrow> uint64 \<Rightarrow> int64 \<Rightarrow> bytes
    \<Rightarrow> (('b, 'c) ofs, nat) prog" where
  "ov_Write B C now ino off data =
     (if off <s 0 then fail (NegativeOffset off)
      else andThen (markDirtyLocked [ino]) (\<lambda>_.
      andThen
        (withTx (andThen (materializeAttrsLocked B ino) (\<lambda>row.
           if n_Type (or_node row) \<noteq> TypeFile then fail (BadType ino (n_Type (or_node row)))
           else andThen (materializeContentLocked B C row (n_Length (or_node row))) (\<lambda>_.
           andThen (on_content (co_WriteAt C ino off data)) (\<lambda>_.
           let fin = off + word_of_nat (length data);
               whole = (if n_Length (or_node row) <s fin then fin else n_Length (or_node row)) in
           putONode (row\<lparr>or_node := (or_node row)\<lparr>n_Length := whole, n_MtimeNS := now, n_CtimeNS := now\<rparr>\<rparr>)))))) (\<lambda>_.
      ret (length data))))"

record set_attr_in =
  sa_Mode :: "uint32 option"
  sa_UID :: "uint32 option"
  sa_GID :: "uint32 option"
  sa_MtimeNS :: "int64 option"
  sa_Size :: "int64 option"

definition or_else :: "'a option \<Rightarrow> 'a \<Rightarrow> 'a" where
  "or_else x d = (case x of Some v \<Rightarrow> v | None \<Rightarrow> d)"

definition resize :: "'b base_ops \<Rightarrow> 'c content_ops \<Rightarrow> int64 \<Rightarrow> uint64 \<Rightarrow> int64 option \<Rightarrow> onode_row
    \<Rightarrow> (('b, 'c) ofs, node) prog" where
  "resize B C now ino sz r =
     (case sz of
        None \<Rightarrow> ret (or_node r)
      | Some n \<Rightarrow>
          if n_Type (or_node r) \<noteq> TypeFile then fail (BadType ino (n_Type (or_node r)))
          else if n <s 0 then fail (NegativeOffset n)
          else andThen (materializeContentLocked B C r n) (\<lambda>_.
            andThen (on_content (co_Truncate C ino n)) (\<lambda>_.
            ret ((or_node r)\<lparr>n_Length := n, n_MtimeNS := now\<rparr>))))"

definition ov_SetAttr :: "'b base_ops \<Rightarrow> 'c content_ops \<Rightarrow> int64 \<Rightarrow> uint64 \<Rightarrow> set_attr_in
    \<Rightarrow> (('b, 'c) ofs, node) prog" where
  "ov_SetAttr B C now ino inp =
     andThen (markDirtyLocked [ino]) (\<lambda>_.
     withTx (andThen (materializeAttrsLocked B ino) (\<lambda>row.
       andThen (resize B C now ino (sa_Size inp) row) (\<lambda>sized.
       let out = sized\<lparr>n_Mode := or_else (sa_Mode inp) (n_Mode sized),
             n_UID := or_else (sa_UID inp) (n_UID sized),
             n_GID := or_else (sa_GID inp) (n_GID sized),
             n_MtimeNS := or_else (sa_MtimeNS inp) (n_MtimeNS sized),
             n_CtimeNS := now\<rparr> in
       andThen (putONode (row\<lparr>or_node := out\<rparr>)) (\<lambda>_. ret out)))))"

definition ov_SetXattr :: "'b base_ops \<Rightarrow> uint64 \<Rightarrow> string \<Rightarrow> bytes \<Rightarrow> (('b, 'c) ofs, unit) prog" where
  "ov_SetXattr B ino nm val =
     andThen (markDirtyLocked [ino]) (\<lambda>_.
     andThen (attrsLocked B ino None) (\<lambda>_.
     withTx (exec (\<lambda>t. t\<lparr>tb_oxattr := put_row (ino, nm) (val, False) (tb_oxattr t)\<rparr>))))"

definition baseHasXattr :: "'b base_ops \<Rightarrow> uint64 \<Rightarrow> string \<Rightarrow> bool \<Rightarrow> (('b, 'c) ofs, bool) prog" where
  "baseHasXattr B ino nm backed =
     (if \<not> backed then ret False
      else andThen (ensureBaseLocked B ino) (\<lambda>_.
        attempt (on_base (bo_GetXattr B ino nm)) (\<lambda>r.
          case r of
            Inr _ \<Rightarrow> ret True
          | Inl e \<Rightarrow> if \<not> is_err ErrNotExist e then fail e else ret False)))"

definition xattr_removed :: "uint64 \<Rightarrow> string \<Rightarrow> bool \<Rightarrow> tables \<Rightarrow> tables" where
  "xattr_removed ino nm baseHas t =
     (if baseHas then t\<lparr>tb_oxattr := put_row (ino, nm) ([], True) (tb_oxattr t)\<rparr>
      else t\<lparr>tb_oxattr := drop_rows (\<lambda>k. k = (ino, nm)) (tb_oxattr t)\<rparr>)"

definition ov_RemoveXattr :: "'b base_ops \<Rightarrow> uint64 \<Rightarrow> string \<Rightarrow> (('b, 'c) ofs, unit) prog" where
  "ov_RemoveXattr B ino nm =
     andThen (markDirtyLocked [ino]) (\<lambda>_.
     andThen (asks (\<lambda>s. (map_of (tb_oxattr (of_tb s)) (ino, nm), baseBackedLocked ino s))) (\<lambda>(row, backed).
       case row of
         Some (v, True) \<Rightarrow> fail ErrNotExist
       | _ \<Rightarrow>
         andThen (baseHasXattr B ino nm backed) (\<lambda>baseHas.
           if row = None \<and> \<not> baseHas then fail ErrNotExist
           else withTx (exec (xattr_removed ino nm baseHas)))))"

end
