(* ===== verification/Overlay_View.thy ===== *)
theory Overlay_View
  imports Overlay_Write
begin

text \<open>
  What the overlay of \<open>internal/overlay\<close> shows: the tree its rows make of the base generation.
  The base is any store whose answers agree with one immutable tree; reading never moves the
  view, and what \<open>Lookup\<close>, \<open>GetAttr\<close> and \<open>Readdir\<close> answer is the view.
\<close>

section \<open>Trees and views\<close>

record base_tree =
  bt_edge :: "uint64 \<Rightarrow> string \<Rightarrow> uint64 option"
  bt_node :: "uint64 \<Rightarrow> node option"

definition backed :: "tables \<Rightarrow> uint64 \<Rightarrow> bool" where
  "backed t p = (case map_of (tb_onode t) p of None \<Rightarrow> True | Some r \<Rightarrow> or_base r)"

definition m_edge :: "tables \<Rightarrow> base_tree \<Rightarrow> uint64 \<Rightarrow> string \<Rightarrow> uint64 option" where
  "m_edge t T p nm =
     (case map_of (tb_oedge t) (p, nm) of
        Some (i, ty) \<Rightarrow> if i = 0 then None else Some i
      | None \<Rightarrow> if backed t p then bt_edge T p nm else None)"

definition m_node :: "tables \<Rightarrow> base_tree \<Rightarrow> uint64 \<Rightarrow> node option" where
  "m_node t T i = (case map_of (tb_onode t) i of Some r \<Rightarrow> Some (or_node r) | None \<Rightarrow> bt_node T i)"

text \<open>What the overlay relies on of the generation below it, which \<open>tree\<close> says.\<close>

definition steady :: "('b \<Rightarrow> base_tree) \<Rightarrow> ('b, 'a) prog \<Rightarrow> bool" where
  "steady tree f \<longleftrightarrow> (\<forall>b. tree (snd (f b)) = tree b)"

definition listing_of :: "base_tree \<Rightarrow> uint64 \<Rightarrow> (string \<times> node) list \<Rightarrow> bool" where
  "listing_of T p es \<longleftrightarrow> distinct (map fst es) \<and>
     (\<forall>nm n. (nm, n) \<in> set es \<longrightarrow> bt_edge T p nm = Some (n_Inode n) \<and> bt_node T (n_Inode n) = Some n) \<and>
     (\<forall>nm i. bt_edge T p nm = Some i \<longrightarrow> nm \<in> fst ` set es)"

definition genfs_serves :: "'b base_ops \<Rightarrow> ('b \<Rightarrow> base_tree) \<Rightarrow> bool" where
  "genfs_serves B tree \<longleftrightarrow>
     (\<forall>p nm. steady tree (bo_Lookup B p nm)) \<and> (\<forall>i. steady tree (bo_GetAttr B i)) \<and>
     (\<forall>i. steady tree (bo_Readdir B i)) \<and> (\<forall>i. steady tree (bo_ReaddirRetain B i)) \<and>
     (\<forall>i. steady tree (bo_Readlink B i)) \<and> (\<forall>i nm. steady tree (bo_GetXattr B i nm)) \<and>
     (\<forall>i. steady tree (bo_ListXattr B i)) \<and> (\<forall>i off n. steady tree (bo_Read B i off n)) \<and>
     (\<forall>i. steady tree (bo_Edge B i)) \<and>
     (\<forall>b p nm n. fst (bo_Lookup B p nm b) = Inr n \<longrightarrow>
        bt_edge (tree b) p nm = Some (n_Inode n) \<and> bt_node (tree b) (n_Inode n) = Some n) \<and>
     (\<forall>b p nm e. fst (bo_Lookup B p nm b) = Inl e \<and> is_err ErrNotExist e \<longrightarrow> bt_edge (tree b) p nm = None) \<and>
     (\<forall>b i n. fst (bo_GetAttr B i b) = Inr n \<longrightarrow> bt_node (tree b) i = Some n \<and> n_Inode n = i) \<and>
     (\<forall>b i es. fst (bo_Readdir B i b) = Inr es \<longrightarrow> listing_of (tree b) i es) \<and>
     (\<forall>b i es. fst (bo_ReaddirRetain B i b) = Inr es \<longrightarrow> listing_of (tree b) i es) \<and>
     (\<forall>b i pe. fst (bo_Edge B i b) = Inr pe \<longrightarrow> bt_edge (tree b) (pe_parent pe) (pe_name pe) = Some i)"

section \<open>Programs that only read\<close>

text \<open>Every descent step the overlay remembers is an edge of the base being served.\<close>

definition chains_ok :: "('b \<Rightarrow> base_tree) \<Rightarrow> ('b, 'c) ofs \<Rightarrow> bool" where
  "chains_ok tree s \<longleftrightarrow>
     (\<forall>i pe. map_of (of_prov s) i = Some pe \<or> map_of (tb_obase (of_tb s)) i = Some pe \<longrightarrow>
        bt_edge (tree (of_base s)) (pe_parent pe) (pe_name pe) = Some i)"

definition sound :: "('b \<Rightarrow> base_tree) \<Rightarrow> ('b, 'c) ofs \<Rightarrow> bool" where
  "sound tree s \<longleftrightarrow> (of_rows s = None \<or> of_rows s = Some (of_tb s)) \<and> chains_ok tree s"

definition same_view :: "('b \<Rightarrow> base_tree) \<Rightarrow> ('b, 'c) ofs \<Rightarrow> ('b, 'c) ofs \<Rightarrow> bool" where
  "same_view tree s s' \<longleftrightarrow> of_tb s' = of_tb s \<and> tree (of_base s') = tree (of_base s) \<and>
     of_rows s' = of_rows s \<and> of_content s' = of_content s \<and> of_snapEdges s' = of_snapEdges s \<and>
     of_dirtySet s' = of_dirtySet s \<and> of_modSeq s' = of_modSeq s \<and> of_seq s' = of_seq s \<and>
     of_commits s' = of_commits s \<and> of_rebasedSeq s' = of_rebasedSeq s"

definition reading :: "('b \<Rightarrow> base_tree) \<Rightarrow> (('b, 'c) ofs, 'a) prog \<Rightarrow> bool" where
  "reading tree m \<longleftrightarrow> (\<forall>s. sound tree s \<longrightarrow> sound tree (snd (m s)) \<and> same_view tree s (snd (m s)))"

named_theorems reading_intros

lemma same_view_refl: "same_view tree s s"
  by (simp add: same_view_def)

lemma same_view_trans: "same_view tree s s' \<Longrightarrow> same_view tree s' s'' \<Longrightarrow> same_view tree s s''"
  by (simp add: same_view_def)

lemma reading_ret [reading_intros]: "reading tree (ret x)"
  by (simp add: reading_def ret_def same_view_refl)

lemma reading_fail [reading_intros]: "reading tree (fail e)"
  by (simp add: reading_def fail_def same_view_refl)

lemma reading_asks [reading_intros]: "reading tree (asks f)"
  by (simp add: reading_def asks_def same_view_refl)

lemma reading_andThen [reading_intros]:
  "reading tree m \<Longrightarrow> (\<And>x. reading tree (f x)) \<Longrightarrow> reading tree (andThen m f)"
  unfolding reading_def andThen_def
  by (auto split: prod.split sum.split) (metis same_view_trans snd_conv)+

lemma reading_attempt [reading_intros]:
  "reading tree m \<Longrightarrow> (\<And>x. reading tree (f x)) \<Longrightarrow> reading tree (attempt m f)"
  unfolding reading_def attempt_def
  by (auto split: prod.split) (metis same_view_trans snd_conv)+

lemma reading_whenever [reading_intros]: "reading tree m \<Longrightarrow> reading tree (whenever b m)"
  by (simp add: whenever_def reading_ret)

lemma steadyD: "steady tree f \<Longrightarrow> f b = (r, b') \<Longrightarrow> tree b' = tree b"
  unfolding steady_def by (metis snd_conv)

lemma reading_on_base [reading_intros]:
  assumes "steady tree f"
  shows "reading tree (on_base f)"
  unfolding reading_def
proof (intro allI impI)
  fix s
  assume s: "sound tree s"
  obtain r b' where f: "f (of_base s) = (r, b')" by fastforce
  have "tree b' = tree (of_base s)" using assms f by (rule steadyD)
  then show "sound tree (snd (on_base f s)) \<and> same_view tree s (snd (on_base f s))"
    using s f by (simp add: on_base_def sound_def chains_ok_def same_view_def)
qed

lemma andThen_Inr: "andThen m f s = (Inr y, s'') \<longleftrightarrow> (\<exists>x s'. m s = (Inr x, s') \<and> f x s' = (Inr y, s''))"
  by (auto simp: andThen_def split: prod.split sum.split)

lemma andThen_Inl: "andThen m f s = (Inl e, s'') \<longleftrightarrow>
    m s = (Inl e, s'') \<or> (\<exists>x s'. m s = (Inr x, s') \<and> f x s' = (Inl e, s''))"
  by (auto simp: andThen_def split: prod.split sum.split)

lemma attempt_eq: "attempt m f s = q \<longleftrightarrow> (\<exists>r s'. m s = (r, s') \<and> f r s' = q)"
  by (auto simp: attempt_def split: prod.split)

lemma case_sum_run: "case_sum f g r s = q \<longleftrightarrow> (\<exists>e. r = Inl e \<and> f e s = q) \<or> (\<exists>x. r = Inr x \<and> g x s = q)"
  by (cases r) auto

lemma case_option_run: "case_option m f r s = q \<longleftrightarrow> r = None \<and> m s = q \<or> (\<exists>x. r = Some x \<and> f x s = q)"
  by (cases r) auto

lemma if_run: "(if c then m else m') s = q \<longleftrightarrow> c \<and> m s = q \<or> \<not> c \<and> m' s = q"
  by simp

lemmas run_simps = andThen_Inr andThen_Inl attempt_eq case_sum_run case_option_run if_run

lemma ret_run [simp]: "ret x s = (r, s') \<longleftrightarrow> r = Inr x \<and> s' = s"
  by (auto simp: ret_def)

lemma fail_run [simp]: "fail e s = (r, s') \<longleftrightarrow> r = Inl e \<and> s' = s"
  by (auto simp: fail_def)

lemma asks_run [simp]: "asks g s = (r, s') \<longleftrightarrow> r = Inr (g s) \<and> s' = s"
  by (auto simp: asks_def)

lemma changes_run [simp]: "changes h s = (r, s') \<longleftrightarrow> r = Inr () \<and> s' = h s"
  by (auto simp: changes_def)

lemma reading_run:
  assumes "reading tree m" "sound tree s" "m s = (r, s')"
  shows "sound tree s' \<and> same_view tree s s'"
  using assms(1)[unfolded reading_def] assms(2,3) by (metis snd_conv)

lemma genfs_steady:
  assumes "genfs_serves B tree"
  shows "steady tree (bo_Lookup B p nm)" "steady tree (bo_GetAttr B i)" "steady tree (bo_Readdir B i)"
    "steady tree (bo_ReaddirRetain B i)" "steady tree (bo_Readlink B i)" "steady tree (bo_GetXattr B i nm)"
    "steady tree (bo_ListXattr B i)" "steady tree (bo_Read B i off n)" "steady tree (bo_Edge B i)"
  using assms by (simp_all add: genfs_serves_def)

lemma genfs_Lookup:
  assumes "genfs_serves B tree"
  shows "bo_Lookup B p nm b = (Inr n, b') \<Longrightarrow>
      bt_edge (tree b) p nm = Some (n_Inode n) \<and> bt_node (tree b) (n_Inode n) = Some n"
    "bo_Lookup B p nm b = (Inl e, b') \<Longrightarrow> is_err ErrNotExist e \<Longrightarrow> bt_edge (tree b) p nm = None"
  using assms by (auto simp: genfs_serves_def) (metis fst_conv)+

lemma genfs_GetAttr:
  "genfs_serves B tree \<Longrightarrow> bo_GetAttr B i b = (Inr n, b') \<Longrightarrow> bt_node (tree b) i = Some n \<and> n_Inode n = i"
  by (auto simp: genfs_serves_def) (metis fst_conv)+

lemma genfs_Readdir:
  assumes "genfs_serves B tree"
  shows "bo_Readdir B i b = (Inr es, b') \<Longrightarrow> listing_of (tree b) i es"
    "bo_ReaddirRetain B i b = (Inr es, b') \<Longrightarrow> listing_of (tree b) i es"
  using assms by (auto simp: genfs_serves_def)

lemma genfs_Edge:
  "genfs_serves B tree \<Longrightarrow> bo_Edge B i b = (Inr pe, b') \<Longrightarrow>
    bt_edge (tree b) (pe_parent pe) (pe_name pe) = Some i"
  by (auto simp: genfs_serves_def)

lemma cur_tb: "sound tree s \<Longrightarrow> cur s = of_tb s"
  by (auto simp: sound_def cur_def)

section \<open>Descents\<close>

lemma baseLookup_reading:
  assumes B: "genfs_serves B tree"
  shows "reading tree (baseLookupLocked B p nm)"
proof -
  have "sound tree s' \<and> same_view tree s s'" if s: "sound tree s" and r: "baseLookupLocked B p nm s = (r, s')" for s r s'
  proof -
    obtain q b' where q: "bo_Lookup B p nm (of_base s) = (q, b')" by fastforce
    have t: "tree b' = tree (of_base s)"
      using genfs_steady(1) [OF B, of p nm] q by (rule steadyD)
    show ?thesis
    proof (cases q)
      case (Inl e)
      then show ?thesis using r q s t
        by (auto simp: baseLookupLocked_def andThen_def on_base_def sound_def chains_ok_def same_view_def)
    next
      case (Inr n)
      have "bt_edge (tree (of_base s)) p nm = Some (n_Inode n)"
        using genfs_Lookup(1) [OF B] q Inr by blast
      then show ?thesis using r q s t Inr
        by (auto simp: baseLookupLocked_def andThen_def on_base_def sound_def chains_ok_def same_view_def
            put_prov_def changes_def ret_def update_conv' split: if_splits)
    qed
  qed
  then show ?thesis unfolding reading_def by (metis prod.collapse)
qed

lemma ensureBaseDepth_reading:
  fixes tree :: "'b \<Rightarrow> base_tree"
  assumes "genfs_serves B tree"
  shows "reading tree (ensureBaseDepth B ino d :: (('b, 'c) ofs, unit) prog)"
proof (induction "Suc maxBaseChainDepth - d" arbitrary: ino d rule: less_induct)
  case less
  have deeper: "reading tree (ensureBaseDepth B i (Suc d) :: (('b, 'c) ofs, unit) prog)" if "\<not> maxBaseChainDepth < d" for i
    using less [of "Suc d" i] that by (simp add: Suc_diff_le)
  show ?case
    by (subst ensureBaseDepth.simps)
      (auto simp: Let_def intro!: reading_intros deeper baseLookup_reading assms split: option.splits sum.splits prod.splits)
qed

lemma ensureBase_reading [reading_intros]:
  "genfs_serves B tree \<Longrightarrow> reading tree (ensureBaseLocked B ino)"
  by (simp add: ensureBaseLocked_def ensureBaseDepth_reading)

text \<open>A descent that fails never does so with a name's absence: every step it replays exists.\<close>

lemma baseLookup_known:
  assumes "genfs_serves B tree" "bt_edge (tree (of_base s)) p nm = Some i"
    "baseLookupLocked B p nm s = (Inl e, s')"
  shows "\<not> is_err ErrNotExist e"
proof -
  have "fst (bo_Lookup B p nm (of_base s)) = Inl e"
    using assms(3) by (auto simp: baseLookupLocked_def andThen_Inl on_base_def put_prov_def split: prod.splits)
  then obtain b' where "bo_Lookup B p nm (of_base s) = (Inl e, b')" by (metis prod.collapse)
  then show ?thesis using genfs_Lookup(2) [OF assms(1)] assms(2) by fastforce
qed

lemma known_step:
  assumes "sound tree s" "map_of (of_prov s) i = Some pe \<or> obaseLocked i s = Some pe"
  shows "bt_edge (tree (of_base s)) (pe_parent pe) (pe_name pe) = Some i"
  using assms by (auto simp: sound_def chains_ok_def obaseLocked_def cur_def)

lemma ensureBaseDepth_never_absent:
  fixes s :: "('b, 'c) ofs"
  assumes B: "genfs_serves B tree"
  shows "sound tree s \<Longrightarrow> ensureBaseDepth B ino d s = (Inl e, s') \<Longrightarrow> \<not> is_err ErrNotExist e"
proof (induction "Suc maxBaseChainDepth - d" arbitrary: ino d s e s' rule: less_induct)
  case less
  have deeper: "\<not> is_err ErrNotExist x"
    if "\<not> maxBaseChainDepth < d" "sound tree t" "ensureBaseDepth B i (Suc d) t = (Inl x, t')"
    for i x and t t' :: "('b, 'c) ofs"
    using less.hyps [of "Suc d" t i x t'] that by (simp add: Suc_diff_le)
  have moved: "sound tree t' \<and> same_view tree t t'"
    if "sound tree t" "ensureBaseDepth B i k t = (q, t')" for i k q and t t' :: "('b, 'c) ofs"
    using reading_run [OF ensureBaseDepth_reading [OF B] that] .
  define persisted :: "(('b, 'c) ofs, unit) prog" where "persisted =
    andThen (asks (obaseLocked ino)) (\<lambda>row.
      case row of
        None \<Rightarrow> ret ()
      | Some chain \<Rightarrow>
          andThen (ensureBaseDepth B (pe_parent chain) (Suc d)) (\<lambda>_.
          attempt (baseLookupLocked B (pe_parent chain) (pe_name chain)) (\<lambda>r.
            case r of Inl e \<Rightarrow> fail (Wrapped e) | Inr n \<Rightarrow> ret ())))"
  have chain: "\<not> is_err ErrNotExist x"
    if d: "\<not> maxBaseChainDepth < d" and t: "sound tree t" and p: "persisted t = (Inl x, t')"
    for x and t t' :: "('b, 'c) ofs"
  proof -
    obtain c where c: "obaseLocked ino t = Some c"
      using p by (auto simp: persisted_def andThen_Inl split: option.splits)
    then consider "ensureBaseDepth B (pe_parent c) (Suc d) t = (Inl x, t')"
      | u x0 where "ensureBaseDepth B (pe_parent c) (Suc d) t = (Inr (), u)"
          "baseLookupLocked B (pe_parent c) (pe_name c) u = (Inl x0, t')" "x = Wrapped x0"
      using p by (auto simp: persisted_def run_simps)
    then show ?thesis
    proof cases
      case 1
      then show ?thesis using deeper [OF d t] by blast
    next
      case 2
      have "bt_edge (tree (of_base u)) (pe_parent c) (pe_name c) = Some ino"
        using known_step [OF t] c moved [OF t 2(1)] by (simp add: same_view_def)
      then show ?thesis using baseLookup_known [OF B _ 2(2)] 2(3) by simp
    qed
  qed
  have unfold: "ensureBaseDepth B ino d = (if ino = RootInode then ret ()
      else if maxBaseChainDepth < d then fail (TooDeep ino)
      else andThen (asks (\<lambda>s. (bo_Resident B ino (of_base s), map_of (of_prov s) ino))) (\<lambda>(res, known).
        if res then ret ()
        else case known of
               None \<Rightarrow> persisted
             | Some pe \<Rightarrow>
                 andThen (ensureBaseDepth B (pe_parent pe) (Suc d)) (\<lambda>_.
                 attempt (baseLookupLocked B (pe_parent pe) (pe_name pe)) (\<lambda>r.
                   case r of
                     Inl e \<Rightarrow> persisted
                   | Inr n \<Rightarrow> if n_Inode n = ino then ret () else persisted))))"
    unfolding persisted_def Suc_eq_plus1 by (subst ensureBaseDepth.simps) (simp only: Let_def)
  show ?case
  proof (cases "ino = RootInode \<or> maxBaseChainDepth < d")
    case True
    then show ?thesis using less.prems(2) by (auto simp: unfold split: if_splits)
  next
    case False
    then have d: "\<not> maxBaseChainDepth < d" by simp
    note chain = chain [OF d] and deeper = deeper [OF d]
    show ?thesis
    proof (cases "map_of (of_prov s) ino")
      case None
      then show ?thesis using less.prems False chain
        by (auto simp: unfold andThen_Inl split: if_splits)
    next
      case (Some pe)
      then consider "ensureBaseDepth B (pe_parent pe) (Suc d) s = (Inl e, s')"
        | u w where "ensureBaseDepth B (pe_parent pe) (Suc d) s = (Inr (), u)"
            "snd (baseLookupLocked B (pe_parent pe) (pe_name pe) u) = w" "persisted w = (Inl e, s')"
        using less.prems(2) False
        by (auto simp: unfold run_simps)
      then show ?thesis
      proof cases
        case 1
        then show ?thesis using deeper less.prems(1) by blast
      next
        case 2
        have "sound tree u" using moved [OF less.prems(1) 2(1)] by simp
        then have "sound tree w"
          using baseLookup_reading [OF B] 2(2) by (auto simp: reading_def)
        then show ?thesis using chain 2(3) by blast
      qed
    qed
  qed
qed

lemma ensureBase_never_absent:
  assumes "genfs_serves B tree" "sound tree s" "ensureBaseLocked B ino s = (Inl e, s')"
  shows "\<not> is_err ErrNotExist e"
  using ensureBaseDepth_never_absent assms by (metis ensureBaseLocked_def)

section \<open>What the reads answer\<close>

abbreviation edges :: "('b \<Rightarrow> base_tree) \<Rightarrow> ('b, 'c) ofs \<Rightarrow> uint64 \<Rightarrow> string \<Rightarrow> uint64 option" where
  "edges tree s \<equiv> m_edge (of_tb s) (tree (of_base s))"

abbreviation nodes :: "('b \<Rightarrow> base_tree) \<Rightarrow> ('b, 'c) ofs \<Rightarrow> uint64 \<Rightarrow> node option" where
  "nodes tree s \<equiv> m_node (of_tb s) (tree (of_base s))"

lemma baseBacked_eq: "sound tree s \<Longrightarrow> baseBackedLocked p s = backed (of_tb s) p"
  by (simp add: baseBackedLocked_def onodeLocked_def backed_def cur_tb)

lemma resolve_reading [reading_intros]:
  "genfs_serves B tree \<Longrightarrow> reading tree (resolveLocked B p nm)"
  unfolding resolveLocked_def
  by (auto intro!: reading_intros baseLookup_reading split: option.splits prod.splits)

lemma attrs_reading [reading_intros]: "genfs_serves B tree \<Longrightarrow> reading tree (attrsLocked B i h)"
  unfolding attrsLocked_def by (auto intro!: reading_intros genfs_steady split: option.splits)

lemma baseLookup_found:
  assumes "genfs_serves B tree" "baseLookupLocked B p nm s = (Inr n, s')"
  shows "bt_edge (tree (of_base s)) p nm = Some (n_Inode n) \<and> bt_node (tree (of_base s)) (n_Inode n) = Some n"
proof -
  obtain b' where "bo_Lookup B p nm (of_base s) = (Inr n, b')"
    using assms(2) by (auto simp: baseLookupLocked_def run_simps on_base_def put_prov_def split: prod.splits)
  then show ?thesis by (rule genfs_Lookup(1) [OF assms(1)])
qed

lemma baseLookup_absent:
  assumes "genfs_serves B tree" "baseLookupLocked B p nm s = (Inl e, s')" "is_err ErrNotExist e"
  shows "bt_edge (tree (of_base s)) p nm = None"
  using baseLookup_known [OF assms(1) _ assms(2)] assms(3) by (cases "bt_edge (tree (of_base s)) p nm") auto

lemma resolve_found:
  assumes B: "genfs_serves B tree" and s: "sound tree s" and r: "resolveLocked B p nm s = (Inr x, s')"
  shows "edges tree s p nm = Some (rs_ino x)"
    and "rs_overlay x \<Longrightarrow> map_of (tb_oedge (of_tb s)) (p, nm) = Some (rs_ino x, rs_typ x) \<and> rs_node x = None \<and> rs_ino x \<noteq> 0"
    and "\<not> rs_overlay x \<Longrightarrow> map_of (tb_oedge (of_tb s)) (p, nm) = None \<and> backed (of_tb s) p \<and>
      bt_edge (tree (of_base s)) p nm = Some (rs_ino x) \<and>
      (\<exists>n. rs_node x = Some n \<and> bt_node (tree (of_base s)) (rs_ino x) = Some n \<and> n_Type n = rs_typ x)"
proof -
  have "(rs_overlay x \<and> map_of (tb_oedge (of_tb s)) (p, nm) = Some (rs_ino x, rs_typ x) \<and> rs_node x = None \<and> rs_ino x \<noteq> 0) \<or>
    (\<not> rs_overlay x \<and> map_of (tb_oedge (of_tb s)) (p, nm) = None \<and> backed (of_tb s) p \<and>
      bt_edge (tree (of_base s)) p nm = Some (rs_ino x) \<and>
      (\<exists>n. rs_node x = Some n \<and> bt_node (tree (of_base s)) (rs_ino x) = Some n \<and> n_Type n = rs_typ x))"
  proof (cases "map_of (tb_oedge (of_tb s)) (p, nm)")
    case None
    then obtain u n where u: "ensureBaseLocked B p s = (Inr (), u)" "baseLookupLocked B p nm u = (Inr n, s')"
      "x = \<lparr>rs_ino = n_Inode n, rs_typ = n_Type n, rs_overlay = False, rs_node = Some n\<rparr>" "backed (of_tb s) p"
      using r s by (auto simp: resolveLocked_def run_simps oedgeLocked_def cur_tb baseBacked_eq)
    have "tree (of_base u) = tree (of_base s)"
      using reading_run [OF ensureBase_reading [OF B] s u(1)] by (simp add: same_view_def)
    then show ?thesis using None u baseLookup_found [OF B u(2)] by auto
  next
    case (Some e)
    then show ?thesis
      using r s by (cases e) (auto simp: resolveLocked_def run_simps oedgeLocked_def cur_tb)
  qed
  then show "edges tree s p nm = Some (rs_ino x)"
    and "rs_overlay x \<Longrightarrow> map_of (tb_oedge (of_tb s)) (p, nm) = Some (rs_ino x, rs_typ x) \<and> rs_node x = None \<and> rs_ino x \<noteq> 0"
    and "\<not> rs_overlay x \<Longrightarrow> map_of (tb_oedge (of_tb s)) (p, nm) = None \<and> backed (of_tb s) p \<and>
      bt_edge (tree (of_base s)) p nm = Some (rs_ino x) \<and>
      (\<exists>n. rs_node x = Some n \<and> bt_node (tree (of_base s)) (rs_ino x) = Some n \<and> n_Type n = rs_typ x)"
    by (auto simp: m_edge_def)
qed

lemma resolve_absent:
  assumes B: "genfs_serves B tree" and s: "sound tree s" and r: "resolveLocked B p nm s = (Inl e, s')"
    and e: "is_err ErrNotExist e"
  shows "edges tree s p nm = None"
proof (cases "map_of (tb_oedge (of_tb s)) (p, nm)")
  case None
  then consider "\<not> backed (of_tb s) p" | "ensureBaseLocked B p s = (Inl e, s')"
    | u where "ensureBaseLocked B p s = (Inr (), u)" "baseLookupLocked B p nm u = (Inl e, s')"
    using r s by (auto simp: resolveLocked_def run_simps oedgeLocked_def cur_tb baseBacked_eq)
  then show ?thesis
  proof cases
    case 1
    then show ?thesis using None by (simp add: m_edge_def)
  next
    case 2
    then show ?thesis using ensureBase_never_absent [OF B s] e by blast
  next
    case 3
    have "tree (of_base u) = tree (of_base s)"
      using reading_run [OF ensureBase_reading [OF B] s 3(1)] by (simp add: same_view_def)
    then show ?thesis using None baseLookup_absent [OF B 3(2) e] by (simp add: m_edge_def)
  qed
next
  case (Some q)
  then show ?thesis
    using r s by (cases q) (auto simp: resolveLocked_def run_simps oedgeLocked_def cur_tb m_edge_def)
qed

lemma attrs_answer:
  assumes B: "genfs_serves B tree" and s: "sound tree s" and r: "attrsLocked B i h s = (Inr n, s')"
    and h: "\<And>x. h = Some x \<Longrightarrow> bt_node (tree (of_base s)) i = Some x"
  shows "nodes tree s i = Some n"
proof (cases "map_of (tb_onode (of_tb s)) i")
  case None
  show ?thesis
  proof (cases h)
    case None
    then obtain u where u: "ensureBaseLocked B i s = (Inr (), u)" "on_base (bo_GetAttr B i) u = (Inr n, s')"
      using r s \<open>map_of (tb_onode (of_tb s)) i = None\<close>
      by (auto simp: attrsLocked_def run_simps onodeLocked_def cur_tb)
    have t: "tree (of_base u) = tree (of_base s)"
      using reading_run [OF ensureBase_reading [OF B] s u(1)] by (simp add: same_view_def)
    obtain b' where "bo_GetAttr B i (of_base u) = (Inr n, b')"
      using u(2) by (auto simp: on_base_def split: prod.splits)
    then show ?thesis using genfs_GetAttr [OF B] t \<open>map_of (tb_onode (of_tb s)) i = None\<close>
      by (fastforce simp: m_node_def)
  next
    case (Some x)
    then show ?thesis using r s h \<open>map_of (tb_onode (of_tb s)) i = None\<close>
      by (auto simp: attrsLocked_def run_simps onodeLocked_def cur_tb m_node_def)
  qed
next
  case (Some q)
  then show ?thesis using r s by (auto simp: attrsLocked_def run_simps onodeLocked_def cur_tb m_node_def)
qed

lemma Lookup_reading [reading_intros]: "genfs_serves B tree \<Longrightarrow> reading tree (ov_Lookup B p nm)"
  unfolding ov_Lookup_def by (intro reading_intros)

lemma Lookup_shows_view:
  assumes B: "genfs_serves B tree" and s: "sound tree s" and r: "ov_Lookup B p nm s = (Inr n, s')"
  shows "\<exists>i. edges tree s p nm = Some i \<and> nodes tree s i = Some n"
proof -
  obtain x u where u: "resolveLocked B p nm s = (Inr x, u)" "attrsLocked B (rs_ino x) (rs_node x) u = (Inr n, s')"
    using r by (auto simp: ov_Lookup_def andThen_Inr)
  have v: "sound tree u" "same_view tree s u"
    using reading_run [OF resolve_reading [OF B] s u(1)] by auto
  have "nodes tree u (rs_ino x) = Some n"
  proof (rule attrs_answer [OF B v(1) u(2)])
    show "bt_node (tree (of_base u)) (rs_ino x) = Some h" if "rs_node x = Some h" for h
      using that resolve_found(2,3) [OF B s u(1)] v(2) by (cases "rs_overlay x") (auto simp: same_view_def)
  qed
  then show ?thesis using resolve_found(1) [OF B s u(1)] v(2) by (auto simp: same_view_def)
qed

text \<open>
  The node a name shows, if any. A base that says an inode does not exist only when its tree has
  no such inode (\<open>ErrNotExist\<close> of \<open>genfs\<close>), and one that has everything resident and fails in no
  other way than by saying so.
\<close>

definition shown :: "('b \<Rightarrow> base_tree) \<Rightarrow> ('b, 'c) ofs \<Rightarrow> uint64 \<Rightarrow> string \<Rightarrow> node option" where
  "shown tree s p nm = (case edges tree s p nm of None \<Rightarrow> None | Some i \<Rightarrow> nodes tree s i)"

definition genfs_denies :: "'b base_ops \<Rightarrow> ('b \<Rightarrow> base_tree) \<Rightarrow> bool" where
  "genfs_denies B tree \<longleftrightarrow>
     (\<forall>b i e. fst (bo_GetAttr B i b) = Inl e \<and> is_err ErrNotExist e \<longrightarrow> bt_node (tree b) i = None)"

definition genfs_answers :: "'b base_ops \<Rightarrow> bool" where
  "genfs_answers B \<longleftrightarrow> (\<forall>b i. bo_Resident B i b) \<and>
     (\<forall>b p nm e. fst (bo_Lookup B p nm b) = Inl e \<longrightarrow> is_err ErrNotExist e) \<and>
     (\<forall>b i e. fst (bo_GetAttr B i b) = Inl e \<longrightarrow> is_err ErrNotExist e)"

lemma attrs_absent:
  assumes B: "genfs_serves B tree" "genfs_denies B tree" and s: "sound tree s"
    and r: "attrsLocked B i h s = (Inl e, s')" and e: "is_err ErrNotExist e"
  shows "nodes tree s i = None"
proof -
  obtain u where none: "map_of (tb_onode (of_tb s)) i = None"
    and "ensureBaseLocked B i s = (Inl e, s') \<or> ensureBaseLocked B i s = (Inr (), u) \<and> on_base (bo_GetAttr B i) u = (Inl e, s')"
    using r s by (auto simp: attrsLocked_def run_simps onodeLocked_def cur_tb)
  then have u: "ensureBaseLocked B i s = (Inr (), u)" "on_base (bo_GetAttr B i) u = (Inl e, s')"
    using ensureBase_never_absent [OF B(1) s] e by blast+
  have "tree (of_base u) = tree (of_base s)"
    using reading_run [OF ensureBase_reading [OF B(1)] s u(1)] by (simp add: same_view_def)
  moreover have "fst (bo_GetAttr B i (of_base u)) = Inl e"
    using u(2) by (auto simp: on_base_def split: prod.splits)
  then have "bt_node (tree (of_base u)) i = None"
    using B(2) e unfolding genfs_denies_def by blast
  ultimately show ?thesis
    using none by (simp add: m_node_def)
qed

lemma Lookup_absent:
  assumes B: "genfs_serves B tree" "genfs_denies B tree" and s: "sound tree s"
    and r: "ov_Lookup B p nm s = (Inl e, s')" and e: "is_err ErrNotExist e"
  shows "shown tree s p nm = None"
proof -
  consider "resolveLocked B p nm s = (Inl e, s')"
    | x u where "resolveLocked B p nm s = (Inr x, u)" "attrsLocked B (rs_ino x) (rs_node x) u = (Inl e, s')"
    using r by (auto simp: ov_Lookup_def andThen_Inl)
  then show ?thesis
  proof cases
    case 1
    then show ?thesis using resolve_absent [OF B(1) s _ e] by (simp add: shown_def)
  next
    case 2
    have u: "sound tree u" "same_view tree s u"
      using reading_run [OF resolve_reading [OF B(1)] s 2(1)] by auto
    then have "nodes tree s (rs_ino x) = None"
      using attrs_absent [OF B u(1) 2(2) e] by (simp add: same_view_def)
    then show ?thesis using resolve_found(1) [OF B(1) s 2(1)] by (simp add: shown_def)
  qed
qed

lemma ensureBase_resident: "genfs_answers B \<Longrightarrow> ensureBaseLocked B i s = (Inr (), s)"
  unfolding ensureBaseLocked_def
  by (subst ensureBaseDepth.simps) (simp add: genfs_answers_def andThen_def asks_def ret_def maxBaseChainDepth_def)

lemma attrs_error: "genfs_answers B \<Longrightarrow> attrsLocked B i h s = (Inl e, s') \<Longrightarrow> is_err ErrNotExist e"
  by (auto simp: attrsLocked_def run_simps ensureBase_resident on_base_def split: prod.splits)
    (auto simp: genfs_answers_def, metis fst_conv)

lemma Lookup_error:
  assumes "genfs_answers B" "ov_Lookup B p nm s = (Inl e, s')"
  shows "is_err ErrNotExist e"
proof -
  consider i h u where "attrsLocked B i h u = (Inl e, s')" | "e = ErrNotExist"
    | "fst (bo_Lookup B p nm (of_base s)) = Inl e"
    using assms(2) ensureBase_resident [OF assms(1), of p s]
    by (auto simp: ov_Lookup_def resolveLocked_def run_simps baseLookupLocked_def on_base_def put_prov_def split: prod.splits)
  then show ?thesis
    using attrs_error [OF assms(1)] assms(1) by cases (auto simp: genfs_answers_def)
qed

section \<open>Listings\<close>

definition merged_attrs :: "tables \<Rightarrow> node \<Rightarrow> node" where
  "merged_attrs t n = (case map_of (tb_onode t) (n_Inode n) of Some r \<Rightarrow> or_node r | None \<Rightarrow> n)"

lemma prov_run:
  assumes "sound tree s" "bt_edge (tree (of_base s)) p nm = Some i"
    "whenever b (put_prov i \<lparr>pe_parent = p, pe_name = nm\<rparr>) s = (r, s')"
  shows "r = Inr () \<and> sound tree s' \<and> same_view tree s s'"
  using assms
  by (cases b) (auto simp: whenever_def put_prov_def sound_def chains_ok_def same_view_def update_conv' split: if_splits)

lemma base_half_run:
  assumes "sound tree s"
    and "\<And>nm n. (nm, n) \<in> set es \<Longrightarrow> bt_edge (tree (of_base s)) ino nm = Some (n_Inode n)"
  shows "\<exists>s'. base_half ino retain over acc es s =
      (Inr (acc @ map (\<lambda>(nm, n). (nm, merged_attrs (of_tb s) n)) (filter (\<lambda>(nm, n). map_of over nm = None) es)), s') \<and>
      sound tree s' \<and> same_view tree s s'"
  using assms
proof (induction es arbitrary: acc s)
  case Nil
  then show ?case by (simp add: ret_def same_view_refl)
next
  case (Cons e es)
  obtain nm n where e: "e = (nm, n)" by fastforce
  obtain r u where u: "whenever retain (put_prov (n_Inode n) \<lparr>pe_parent = ino, pe_name = nm\<rparr>) s = (r, u)"
    by fastforce
  have k: "r = Inr ()" "sound tree u" "same_view tree s u"
    using prov_run [OF Cons.prems(1) _ u] Cons.prems(2) [of nm n] e by auto
  have step: "\<exists>s'. base_half ino retain over acc' es u =
      (Inr (acc' @ map (\<lambda>(nm, n). (nm, merged_attrs (of_tb s) n)) (filter (\<lambda>(nm, n). map_of over nm = None) es)), s') \<and>
      sound tree s' \<and> same_view tree s s'" for acc'
  proof -
    have "\<exists>s'. base_half ino retain over acc' es u =
      (Inr (acc' @ map (\<lambda>(nm, n). (nm, merged_attrs (of_tb u) n)) (filter (\<lambda>(nm, n). map_of over nm = None) es)), s') \<and>
      sound tree s' \<and> same_view tree u s'"
      using Cons.IH [OF k(2)] Cons.prems(2) k(3) e by (auto simp: same_view_def)
    then show ?thesis using same_view_trans [OF k(3)] k(3) by (auto simp: same_view_def)
  qed
  have "(case onodeLocked (n_Inode n) u of Some r \<Rightarrow> or_node r | None \<Rightarrow> n) = merged_attrs (of_tb s) n"
    using k by (simp add: onodeLocked_def cur_tb merged_attrs_def same_view_def)
  then show ?case
    using step [of acc] step [of "acc @ [(nm, merged_attrs (of_tb s) n)]"] u k(1) e
    by (auto simp: andThen_def asks_def)
qed

lemma overlay_half_run:
  assumes B: "genfs_serves B tree"
  shows "sound tree s \<Longrightarrow> overlay_half B acc over s = (Inr out, s') \<Longrightarrow>
    (\<exists>got. out = acc @ got \<and> map fst got = map fst (filter (\<lambda>(nm, (i, ty)). i \<noteq> 0) over) \<and>
      (\<forall>(nm, n) \<in> set got. \<exists>i ty. (nm, (i, ty)) \<in> set over \<and> i \<noteq> 0 \<and> nodes tree s i = Some n)) \<and>
    sound tree s' \<and> same_view tree s s'"
proof (induction over arbitrary: acc s)
  case Nil
  then show ?case by (auto simp: same_view_refl)
next
  case (Cons e over)
  obtain nm i ty where e: "e = (nm, (i, ty))" by (metis prod.collapse)
  show ?case
  proof (cases "i = 0")
    case True
    then show ?thesis using Cons.IH [OF Cons.prems(1), of acc] Cons.prems(2) e by fastforce
  next
    case False
    then obtain n u where u: "attrsLocked B i None s = (Inr n, u)" "overlay_half B (acc @ [(nm, n)]) over u = (Inr out, s')"
      using Cons.prems(2) e by (auto simp: run_simps)
    have k: "sound tree u" "same_view tree s u"
      using reading_run [OF attrs_reading [OF B] Cons.prems(1) u(1)] by auto
    have n: "nodes tree s i = Some n"
      using attrs_answer [OF B Cons.prems(1) u(1)] by simp
    obtain got where got: "out = (acc @ [(nm, n)]) @ got"
      "map fst got = map fst (filter (\<lambda>(nm, (i, ty)). i \<noteq> 0) over)"
      "\<forall>(nm, n) \<in> set got. \<exists>i ty. (nm, (i, ty)) \<in> set over \<and> i \<noteq> 0 \<and> nodes tree u i = Some n"
      "sound tree s'" "same_view tree u s'"
      using Cons.IH [OF k(1) u(2)] by blast
    have "nodes tree u = nodes tree s" using k(2) by (simp add: same_view_def)
    then have "\<forall>(nm', n') \<in> set ((nm, n) # got). \<exists>i ty. (nm', (i, ty)) \<in> set (e # over) \<and> i \<noteq> 0 \<and> nodes tree s i = Some n'"
      using got(3) n e False by fastforce
    then show ?thesis
      using got e False same_view_trans [OF k(2) got(5)] by (intro conjI exI [of _ "(nm, n) # got"]) auto
  qed
qed

lemma set_names_in: "(nm, e) \<in> set (names_in p t) \<longleftrightarrow> ((p, nm), e) \<in> set (tb_oedge t)"
  by (force simp: names_in_def)

lemma distinct_names_in:
  assumes "distinct (map fst (tb_oedge t))"
  shows "distinct (map fst (names_in p t))"
proof -
  have "distinct (map fst (filter (\<lambda>((q, nm), e). q = p) (tb_oedge t)))"
    using assms by (rule distinct_map_filter)
  moreover have "map fst (names_in p t) = map snd (map fst (filter (\<lambda>((q, nm), e). q = p) (tb_oedge t)))"
    by (simp add: names_in_def split_def)
  moreover have "inj_on snd (set (map fst (filter (\<lambda>((q, nm), e). q = p) (tb_oedge t))))"
    by (auto simp: inj_on_def)
  ultimately show ?thesis by (simp only: distinct_map [of snd])
qed

lemma names_in_lookup:
  assumes "distinct (map fst (tb_oedge t))"
  shows "map_of (names_in p t) nm = map_of (tb_oedge t) (p, nm)"
  using assms distinct_names_in [OF assms, of p] set_names_in [of nm _ p t]
  by (metis map_of_eq_Some_iff not_Some_eq)

lemma merged_attrs_nodes:
  "bt_node T (n_Inode n) = Some n \<Longrightarrow> m_node t T (n_Inode n) = Some (merged_attrs t n)"
  by (simp add: m_node_def merged_attrs_def split: option.split)

lemma lower_half:
  assumes B: "genfs_serves B tree" and s: "sound tree s"
    and run: "(if \<not> backed (of_tb s) p then ret []
        else andThen (ensureBaseLocked B p) (\<lambda>_.
          andThen (on_base (if retain then bo_ReaddirRetain B p else bo_Readdir B p))
            (base_half p retain over []))) s = (Inr lower, u)"
  shows "sound tree u \<and> same_view tree s u \<and> distinct (map fst lower) \<and>
    (\<forall>nm. nm \<in> fst ` set lower \<longleftrightarrow>
       map_of over nm = None \<and> backed (of_tb s) p \<and> bt_edge (tree (of_base s)) p nm \<noteq> None) \<and>
    (\<forall>(nm, n) \<in> set lower. \<exists>i. bt_edge (tree (of_base s)) p nm = Some i \<and> nodes tree s i = Some n)"
proof (cases "backed (of_tb s) p")
  case False
  then show ?thesis using run s by (auto simp: same_view_refl)
next
  case True
  then obtain v w es where v: "ensureBaseLocked B p s = (Inr (), v)"
    and w: "on_base (if retain then bo_ReaddirRetain B p else bo_Readdir B p) v = (Inr es, w)"
    and l: "base_half p retain over [] es w = (Inr lower, u)"
    using run by (auto simp: andThen_Inr)
  have kv: "sound tree v" "same_view tree s v"
    using reading_run [OF ensureBase_reading [OF B] s v] by auto
  have kw: "sound tree w" "same_view tree s w"
    using reading_run [OF reading_on_base kv(1) w] genfs_steady(3,4) [OF B, of p] same_view_trans [OF kv(2)] by auto
  have "listing_of (tree (of_base v)) p es"
    using w by (auto simp: on_base_def split: prod.splits if_splits dest: genfs_Readdir [OF B])
  then have es: "listing_of (tree (of_base s)) p es" using kv(2) by (simp add: same_view_def)
  have eq: "lower = map (\<lambda>(nm, n). (nm, merged_attrs (of_tb s) n)) (filter (\<lambda>(nm, n). map_of over nm = None) es)"
    and ku: "sound tree u" "same_view tree w u"
    using base_half_run [OF kw(1), of es p retain over "[]"] es l kw(2)
    by (auto simp: listing_of_def same_view_def)
  have fsts: "map fst lower = map fst (filter (\<lambda>(nm, n). map_of over nm = None) es)"
    by (simp add: eq split_def)
  have "distinct (map fst lower)" using es by (simp add: fsts listing_of_def distinct_map_filter)
  moreover have "nm \<in> fst ` set lower \<longleftrightarrow> map_of over nm = None \<and> bt_edge (tree (of_base s)) p nm \<noteq> None" for nm
  proof -
    have "nm \<in> fst ` set lower \<longleftrightarrow> map_of over nm = None \<and> nm \<in> fst ` set es"
      using arg_cong [OF fsts, of set] by (force simp: image_iff)
    then show ?thesis using es by (force simp: listing_of_def)
  qed
  moreover have "\<forall>(nm, n) \<in> set lower. \<exists>i. bt_edge (tree (of_base s)) p nm = Some i \<and> nodes tree s i = Some n"
    using es by (auto simp: eq listing_of_def intro: merged_attrs_nodes)
  ultimately show ?thesis using ku same_view_trans [OF kw(2) ku(2)] True by simp
qed

lemma readdir_run:
  assumes B: "genfs_serves B tree" and s: "sound tree s" and d: "distinct (map fst (tb_oedge (of_tb s)))"
    and r: "readdirLocked B p retain s = (Inr es, s')"
  shows "sound tree s' \<and> same_view tree s s' \<and> distinct (map fst es) \<and> sorted (map fst es) \<and>
    (\<forall>nm. nm \<in> fst ` set es \<longleftrightarrow> edges tree s p nm \<noteq> None) \<and>
    (\<forall>(nm, n) \<in> set es. \<exists>i. edges tree s p nm = Some i \<and> nodes tree s i = Some n)"
proof -
  let ?over = "names_in p (of_tb s)"
  obtain lower u all where l: "(if \<not> backed (of_tb s) p then ret []
        else andThen (ensureBaseLocked B p) (\<lambda>_.
          andThen (on_base (if retain then bo_ReaddirRetain B p else bo_Readdir B p))
            (base_half p retain ?over []))) s = (Inr lower, u)"
    and h: "overlay_half B lower ?over u = (Inr all, s')" and es: "es = sort_key fst all"
    using r by (auto simp: readdirLocked_def andThen_Inr oedgesOfLocked_def cur_tb [OF s] baseBacked_eq [OF s])
  note low = lower_half [OF B s l]
  have ku: "sound tree u" "same_view tree s u" using low by auto
  then have vu: "nodes tree u = nodes tree s" by (simp add: same_view_def)
  obtain got where got: "all = lower @ got" "map fst got = map fst (filter (\<lambda>(nm, (i, ty)). i \<noteq> 0) ?over)"
    "\<forall>(nm, n) \<in> set got. \<exists>i ty. (nm, (i, ty)) \<in> set ?over \<and> i \<noteq> 0 \<and> nodes tree s i = Some n"
    "sound tree s'" "same_view tree u s'"
    using overlay_half_run [OF B ku(1) h] unfolding vu by blast
  have over: "map_of ?over nm = map_of (tb_oedge (of_tb s)) (p, nm)" for nm
    by (rule names_in_lookup [OF d])
  have names: "nm \<in> fst ` set got \<longleftrightarrow> (\<exists>i ty. map_of ?over nm = Some (i, ty) \<and> i \<noteq> 0)" for nm
    using arg_cong [OF got(2), of set] distinct_names_in [OF d, of p] by (force simp: image_iff)
  have "distinct (map fst all)"
  proof -
    have dg: "distinct (map fst got)" using distinct_names_in [OF d, of p] by (simp add: got(2) distinct_map_filter)
    have off: "nm \<notin> fst ` set got" if "nm \<in> fst ` set lower" for nm
      using low names [of nm] that by simp
    have "fst ` set lower \<inter> fst ` set got = {}" unfolding disjoint_iff by (intro allI impI off)
    then show ?thesis using low dg by (simp add: got(1))
  qed
  moreover have "nm \<in> fst ` set all \<longleftrightarrow> edges tree s p nm \<noteq> None" for nm
    using low names [of nm] over [of nm] by (auto simp: got(1) image_Un m_edge_def split: option.splits if_splits)
  moreover have attrs: "\<exists>i. edges tree s p nm = Some i \<and> nodes tree s i = Some n" if "(nm, n) \<in> set all" for nm n
  proof (cases "(nm, n) \<in> set lower")
    case True
    then have "map_of ?over nm = None" "backed (of_tb s) p" using low by (force simp: image_iff)+
    then show ?thesis using True low over [of nm] by (fastforce simp: m_edge_def)
  next
    case False
    then have "(nm, n) \<in> set got" using that got(1) by simp
    from bspec [OF got(3) this] obtain i ty where g: "(nm, (i, ty)) \<in> set ?over" "i \<noteq> 0" "nodes tree s i = Some n"
      by auto
    then have "map_of (tb_oedge (of_tb s)) (p, nm) = Some (i, ty)"
      using over [of nm] map_of_is_SomeI [OF distinct_names_in [OF d] g(1)] by simp
    then show ?thesis using g by (simp add: m_edge_def)
  qed
  moreover have "\<forall>(nm, n) \<in> set all. \<exists>i. edges tree s p nm = Some i \<and> nodes tree s i = Some n"
    using attrs by auto
  moreover have "distinct (map fst es)"
    using calculation(1) by (simp add: es distinct_map)
  ultimately show ?thesis
    using got(4) same_view_trans [OF ku(2) got(5)] by (simp add: es)
qed

end
