(* ===== verification/Overlay_Rows.thy ===== *)
theory Overlay_Rows
  imports Overlay_View
begin

text \<open>
  The rows of the overlay as an algebra: which rows are well typed over a base generation, and
  what each change of rows that \<open>internal/overlay/write.go\<close> makes does to the merged tree.
\<close>

section \<open>Well-typed rows\<close>

definition tree_ok :: "base_tree \<Rightarrow> bool" where
  "tree_ok T \<longleftrightarrow>
     (\<forall>p nm i. bt_edge T p nm = Some i \<longrightarrow>
        i \<noteq> 0 \<and> (\<exists>n. bt_node T p = Some n \<and> n_Type n = TypeDir) \<and> bt_node T i \<noteq> None) \<and>
     (\<forall>i n. bt_node T i = Some n \<longrightarrow> n_Inode n = i)"

definition nodes_typed :: "tables \<Rightarrow> base_tree \<Rightarrow> bool" where
  "nodes_typed t T \<longleftrightarrow>
     (\<forall>i r. map_of (tb_onode t) i = Some r \<longrightarrow> n_Inode (or_node r) = i \<and>
        (if or_base r then \<exists>n. bt_node T i = Some n \<and> n_Type n = n_Type (or_node r) else bt_node T i = None))"

definition edges_typed :: "tables \<Rightarrow> base_tree \<Rightarrow> bool" where
  "edges_typed t T \<longleftrightarrow>
     (\<forall>p nm i ty n. map_of (tb_oedge t) (p, nm) = Some (i, ty) \<and> i \<noteq> 0 \<and> m_node t T i = Some n \<longrightarrow> n_Type n = ty)"

definition parents_typed :: "tables \<Rightarrow> base_tree \<Rightarrow> bool" where
  "parents_typed t T \<longleftrightarrow>
     (\<forall>p nm i. m_edge t T p nm = Some i \<longrightarrow> (\<exists>n. m_node t T p = Some n \<and> n_Type n = TypeDir))"

definition next_unused :: "tables \<Rightarrow> base_tree \<Rightarrow> bool" where
  "next_unused t T \<longleftrightarrow>
     (\<forall>k. tb_next t = Some k \<longrightarrow> k \<noteq> 0 \<and> (\<forall>i. k \<le> i \<longrightarrow> m_node t T i = None) \<and>
        (\<forall>p nm i ty. map_of (tb_oedge t) (p, nm) = Some (i, ty) \<longrightarrow> p < k \<and> i < k))"

definition well_typed :: "tables \<Rightarrow> base_tree \<Rightarrow> bool" where
  "well_typed t T \<longleftrightarrow> distinct (map fst (tb_oedge t)) \<and> nodes_typed t T \<and> edges_typed t T \<and>
     parents_typed t T \<and> next_unused t T \<and> m_node t T 0 = None"

definition tidy :: "('b \<Rightarrow> base_tree) \<Rightarrow> ('b, 'c) ofs \<Rightarrow> bool" where
  "tidy tree s \<longleftrightarrow> sound tree s \<and> tree_ok (tree (of_base s)) \<and> well_typed (of_tb s) (tree (of_base s))"

definition upd2 :: "('p \<Rightarrow> 'n \<Rightarrow> 'x) \<Rightarrow> 'p \<Rightarrow> 'n \<Rightarrow> 'x \<Rightarrow> 'p \<Rightarrow> 'n \<Rightarrow> 'x" where
  "upd2 f p nm x = f(p := (f p)(nm := x))"

lemma upd2_app: "upd2 f p nm x q nm' = (if q = p \<and> nm' = nm then x else f q nm')"
  by (simp add: upd2_def)

lemma map_of_drop_rows: "map_of (drop_rows P t) k = (if P k then None else map_of t k)"
proof -
  have "(\<lambda>(k, v). \<not> P k) = (\<lambda>(k, v). k \<in> {k. \<not> P k})" by auto
  then show ?thesis unfolding drop_rows_def by (induction t) auto
qed

lemma distinct_put_row: "distinct (map fst t) \<Longrightarrow> distinct (map fst (put_row k v t))"
  by (simp add: put_row_def distinct_update)

lemma distinct_drop_rows: "distinct (map fst t) \<Longrightarrow> distinct (map fst (drop_rows P t))"
  by (simp add: drop_rows_def distinct_map_filter)

section \<open>Changes of rows\<close>

definition with_node :: "onode_row \<Rightarrow> tables \<Rightarrow> tables" where
  "with_node r t = t\<lparr>tb_onode := put_row (n_Inode (or_node r)) r (tb_onode t)\<rparr>"

definition with_edge :: "uint64 \<Rightarrow> string \<Rightarrow> uint64 \<Rightarrow> byte \<Rightarrow> tables \<Rightarrow> tables" where
  "with_edge p nm i ty t = t\<lparr>tb_oedge := put_row (p, nm) (i, ty) (tb_oedge t)\<rparr>"

definition without_edge :: "uint64 \<Rightarrow> string \<Rightarrow> tables \<Rightarrow> tables" where
  "without_edge p nm t = t\<lparr>tb_oedge := drop_rows (\<lambda>k. k = (p, nm)) (tb_oedge t)\<rparr>"

definition purged :: "uint64 \<Rightarrow> tables \<Rightarrow> tables" where
  "purged ino t = t\<lparr>tb_onode := drop_rows (\<lambda>i. i = ino) (tb_onode t),
        tb_oxattr := drop_rows (\<lambda>(i, nm). i = ino) (tb_oxattr t),
        tb_osymlink := drop_rows (\<lambda>i. i = ino) (tb_osymlink t),
        tb_ocontent := drop_rows (\<lambda>i. i = ino) (tb_ocontent t)\<rparr>"

definition emptied :: "uint64 \<Rightarrow> tables \<Rightarrow> tables" where
  "emptied ino t = t\<lparr>tb_oedge := drop_rows (\<lambda>(p, nm). p = ino) (tb_oedge t)\<rparr>"

lemmas row_changes = with_node_def with_edge_def without_edge_def purged_def emptied_def
lemmas typed_defs = well_typed_def nodes_typed_def edges_typed_def parents_typed_def next_unused_def

lemma no_base_edges:
  assumes "tree_ok T" "bt_node T i = None"
  shows "bt_edge T i nm = None"
proof (cases "bt_edge T i nm")
  case (Some j)
  then show ?thesis using assms by (fastforce simp: tree_ok_def)
qed

subsection \<open>Removing an edge\<close>

lemma m_edge_whiteout:
  "m_edge (with_edge p nm 0 ty t) T = upd2 (m_edge t T) p nm None"
  by (intro ext) (simp add: m_edge_def with_edge_def map_of_put_row backed_def upd2_app)

lemma m_edge_without:
  "(backed t p \<longrightarrow> bt_edge T p nm = None) \<Longrightarrow> m_edge (without_edge p nm t) T = upd2 (m_edge t T) p nm None"
  by (intro ext) (auto simp: m_edge_def without_edge_def map_of_drop_rows backed_def upd2_app split: option.splits)

lemma m_edge_with_edge:
  "i \<noteq> 0 \<Longrightarrow> m_edge (with_edge p nm i ty t) T = upd2 (m_edge t T) p nm (Some i)"
  by (intro ext) (simp add: m_edge_def with_edge_def map_of_put_row backed_def upd2_app)

lemma m_node_edges [simp]:
  "m_node (with_edge p nm i ty t) T = m_node t T"
  "m_node (without_edge p nm t) T = m_node t T"
  "m_node (emptied d t) T = m_node t T"
  by (auto simp: m_node_def row_changes fun_eq_iff)

lemma typed_parts:
  assumes "well_typed t T"
  shows "distinct (map fst (tb_oedge t))" "nodes_typed t T" "edges_typed t T" "parents_typed t T" "next_unused t T"
    "m_node t T 0 = None"
  using assms by (simp_all add: well_typed_def)

lemma node_below_next:
  assumes "next_unused t T" "m_node t T i = Some n" "tb_next t = Some k"
  shows "i < k"
  using assms unfolding next_unused_def by (metis not_le option.distinct(1))

text \<open>Changes of edges: rows of old, whiteouts, or one well-typed row.\<close>

lemma typed_edges:
  assumes w: "well_typed t T" and u: "t' = t\<lparr>tb_oedge := E\<rparr>" and d: "distinct (map fst E)"
    and old: "\<And>p nm i ty. map_of E (p, nm) = Some (i, ty) \<Longrightarrow>
      map_of (tb_oedge t) (p, nm) = Some (i, ty) \<or>
      ((\<forall>k. tb_next t = Some k \<longrightarrow> p < k \<and> i < k) \<and> (\<forall>n. i \<noteq> 0 \<and> m_node t T i = Some n \<longrightarrow> n_Type n = ty))"
    and par: "\<And>p nm i. m_edge t' T p nm = Some i \<Longrightarrow>
      m_edge t T p nm \<noteq> None \<or> (\<exists>n. m_node t T p = Some n \<and> n_Type n = TypeDir)"
  shows "well_typed t' T"
proof -
  have m: "m_node t' T = m_node t T" by (simp add: u m_node_def fun_eq_iff)
  note w = typed_parts [OF w]
  have "nodes_typed t' T" using w(2) by (simp add: u nodes_typed_def)
  moreover have "edges_typed t' T"
    unfolding edges_typed_def m
  proof (intro allI impI)
    fix p nm i ty n
    assume a: "map_of (tb_oedge t') (p, nm) = Some (i, ty) \<and> i \<noteq> 0 \<and> m_node t T i = Some n"
    then have "map_of E (p, nm) = Some (i, ty)" by (simp add: u)
    from old [OF this] show "n_Type n = ty" using a w(3) unfolding edges_typed_def by blast
  qed
  moreover have "parents_typed t' T"
    unfolding parents_typed_def m using par w(4) unfolding parents_typed_def by blast
  moreover have "next_unused t' T"
    unfolding next_unused_def m using old w(5) unfolding next_unused_def by (simp add: u) blast
  ultimately show ?thesis using d w(6) m by (simp add: well_typed_def u)
qed

lemma typed_whiteout:
  assumes "well_typed t T" "\<And>k. tb_next t = Some k \<Longrightarrow> p < k"
  shows "well_typed (with_edge p nm 0 ty t) T"
proof (rule typed_edges [OF assms(1) with_edge_def])
  show "distinct (map fst (put_row (p, nm) (0, ty) (tb_oedge t)))"
    using typed_parts(1) [OF assms(1)] by (rule distinct_put_row)
  have k: "k \<noteq> 0" if "tb_next t = Some k" for k
    using typed_parts(5) [OF assms(1)] that by (simp add: next_unused_def)
  show "map_of (tb_oedge t) (q, nm') = Some (i, ty') \<or>
      ((\<forall>k. tb_next t = Some k \<longrightarrow> q < k \<and> i < k) \<and> (\<forall>n. i \<noteq> 0 \<and> m_node t T i = Some n \<longrightarrow> n_Type n = ty'))"
    if "map_of (put_row (p, nm) (0, ty) (tb_oedge t)) (q, nm') = Some (i, ty')" for q nm' i ty'
    using that assms(2) k by (auto simp: map_of_put_row word_gt_0 split: if_splits)
  show "m_edge t T q nm' \<noteq> None \<or> (\<exists>n. m_node t T q = Some n \<and> n_Type n = TypeDir)"
    if "m_edge (with_edge p nm 0 ty t) T q nm' = Some i" for q nm' i
    using that by (auto simp: m_edge_whiteout upd2_app split: if_splits)
qed

lemma typed_with_edge:
  assumes "well_typed t T" "i \<noteq> 0" "\<And>k. tb_next t = Some k \<Longrightarrow> p < k \<and> i < k"
    and "\<And>n. m_node t T i = Some n \<Longrightarrow> n_Type n = ty" "m_node t T p = Some d" "n_Type d = TypeDir"
  shows "well_typed (with_edge p nm i ty t) T"
proof (rule typed_edges [OF assms(1) with_edge_def])
  show "distinct (map fst (put_row (p, nm) (i, ty) (tb_oedge t)))"
    using typed_parts(1) [OF assms(1)] by (rule distinct_put_row)
  show "map_of (tb_oedge t) (q, nm') = Some (j, ty') \<or>
      ((\<forall>k. tb_next t = Some k \<longrightarrow> q < k \<and> j < k) \<and> (\<forall>n. j \<noteq> 0 \<and> m_node t T j = Some n \<longrightarrow> n_Type n = ty'))"
    if "map_of (put_row (p, nm) (i, ty) (tb_oedge t)) (q, nm') = Some (j, ty')" for q nm' j ty'
    using that assms(3,4) by (auto simp: map_of_put_row split: if_splits)
  show "m_edge t T q nm' \<noteq> None \<or> (\<exists>n. m_node t T q = Some n \<and> n_Type n = TypeDir)"
    if "m_edge (with_edge p nm i ty t) T q nm' = Some j" for q nm' j
    using that assms(2,5,6) by (auto simp: m_edge_with_edge upd2_app split: if_splits)
qed

lemma typed_without_edge:
  assumes "well_typed t T" "backed t p \<longrightarrow> bt_edge T p nm = None"
  shows "well_typed (without_edge p nm t) T"
proof (rule typed_edges [OF assms(1) without_edge_def])
  show "distinct (map fst (drop_rows (\<lambda>k. k = (p, nm)) (tb_oedge t)))"
    using typed_parts(1) [OF assms(1)] by (rule distinct_drop_rows)
  show "map_of (tb_oedge t) (q, nm') = Some (i, ty) \<or>
      ((\<forall>k. tb_next t = Some k \<longrightarrow> q < k \<and> i < k) \<and> (\<forall>n. i \<noteq> 0 \<and> m_node t T i = Some n \<longrightarrow> n_Type n = ty))"
    if "map_of (drop_rows (\<lambda>k. k = (p, nm)) (tb_oedge t)) (q, nm') = Some (i, ty)" for q nm' i ty
    using that by (simp add: map_of_drop_rows split: if_splits)
  show "m_edge t T q nm' \<noteq> None \<or> (\<exists>n. m_node t T q = Some n \<and> n_Type n = TypeDir)"
    if "m_edge (without_edge p nm t) T q nm' = Some i" for q nm' i
    using that by (auto simp: m_edge_without [OF assms(2)] upd2_app split: if_splits)
qed

subsection \<open>Changing inodes\<close>

lemma m_node_with_node:
  "m_node (with_node r t) T = (m_node t T)(n_Inode (or_node r) := Some (or_node r))"
  by (intro ext) (simp add: m_node_def with_node_def map_of_put_row)

lemma not_backed:
  assumes "nodes_typed t T" "\<not> backed t i"
  shows "bt_node T i = None"
  using assms unfolding nodes_typed_def backed_def
  by (cases "map_of (tb_onode t) i") (auto split: if_splits)

lemma m_edge_with_node:
  assumes "tree_ok T" "nodes_typed t T" "or_base r \<longleftrightarrow> bt_node T (n_Inode (or_node r)) \<noteq> None"
  shows "m_edge (with_node r t) T = m_edge t T"
proof (intro ext)
  fix p nm
  show "m_edge (with_node r t) T p nm = m_edge t T p nm"
  proof (cases "p = n_Inode (or_node r) \<and> map_of (tb_oedge t) (p, nm) = None")
    case True
    then have l: "m_edge (with_node r t) T p nm = (if or_base r then bt_edge T p nm else None)"
      by (auto simp: m_edge_def backed_def with_node_def map_of_put_row)
    have "m_edge t T p nm = (if backed t p then bt_edge T p nm else None)"
      using True by (auto simp: m_edge_def)
    then show ?thesis
      using l True assms(3) no_base_edges [OF assms(1), of p nm] not_backed [OF assms(2), of p] by auto
  qed (auto simp: m_edge_def backed_def with_node_def map_of_put_row split: option.split)
qed

lemma typed_with_node:
  assumes w: "well_typed t T" and T: "tree_ok T" and i: "n_Inode (or_node r) = i" "i \<noteq> 0"
    and base: "if or_base r then \<exists>n. bt_node T i = Some n \<and> n_Type n = n_Type (or_node r) else bt_node T i = None"
    and old: "\<And>n. m_node t T i = Some n \<Longrightarrow> n_Type n = n_Type (or_node r)"
    and new: "\<And>p nm ty. m_node t T i = None \<Longrightarrow> map_of (tb_oedge t) (p, nm) = Some (i, ty) \<Longrightarrow> ty = n_Type (or_node r)"
    and k: "\<And>k. tb_next t = Some k \<Longrightarrow> i < k"
  shows "well_typed (with_node r t) T"
proof -
  note parts = typed_parts [OF w]
  have e: "m_edge (with_node r t) T = m_edge t T"
    using base by (intro m_edge_with_node [OF T parts(2)]) (auto simp: i split: if_splits)
  note m = m_node_with_node [of r t T, unfolded i(1)]
  have rows: "tb_oedge (with_node r t) = tb_oedge t" "tb_next (with_node r t) = tb_next t"
    by (simp_all add: with_node_def)
  have "nodes_typed (with_node r t) T"
    using parts(2) base i by (simp add: nodes_typed_def with_node_def map_of_put_row)
  moreover have "edges_typed (with_node r t) T"
    unfolding edges_typed_def m rows
  proof (intro allI impI)
    fix p nm j ty n
    assume a: "map_of (tb_oedge t) (p, nm) = Some (j, ty) \<and> j \<noteq> 0 \<and> ((m_node t T)(i \<mapsto> or_node r)) j = Some n"
    show "n_Type n = ty"
    proof (cases "j = i")
      case True
      then show ?thesis using a old new parts(3) unfolding edges_typed_def
        by (cases "m_node t T i") fastforce+
    next
      case False
      then show ?thesis using a parts(3) unfolding edges_typed_def by fastforce
    qed
  qed
  moreover have "parents_typed (with_node r t) T"
    unfolding parents_typed_def m e using parts(4) old unfolding parents_typed_def by fastforce
  moreover have "next_unused (with_node r t) T"
    unfolding next_unused_def m rows using parts(5) k unfolding next_unused_def by auto
  ultimately show ?thesis using parts(1,6) i(2) m by (simp add: well_typed_def rows)
qed

lemma backed_node:
  assumes "nodes_typed t T" "m_node t T i = Some n" "bt_node T i = Some m"
  shows "n_Type m = n_Type n" "backed t i"
  using assms by (auto simp: nodes_typed_def m_node_def backed_def split: option.splits if_splits) fastforce+

text \<open>A row rewritten for an inode that has one, or seeded from the base.\<close>

lemma typed_rewrite:
  assumes w: "well_typed t T" and T: "tree_ok T" and m: "m_node t T i = Some n"
    and r: "n_Inode (or_node r) = i" "n_Type (or_node r) = n_Type n" "or_base r \<longleftrightarrow> bt_node T i \<noteq> None"
  shows "well_typed (with_node r t) T" "m_edge (with_node r t) T = m_edge t T"
proof -
  note parts = typed_parts [OF w]
  have i0: "i \<noteq> 0" using parts(6) m by (metis option.distinct(1))
  show "well_typed (with_node r t) T"
    by (rule typed_with_node [OF w T r(1)])
      (use i0 r m backed_node [OF parts(2) m] node_below_next [OF parts(5) m] in auto)
  show "m_edge (with_node r t) T = m_edge t T"
    using r by (intro m_edge_with_node [OF T parts(2)]) auto
qed

lemma typed_alloc:
  assumes "well_typed t T" "tb_next t = Some k" "k + 1 \<noteq> 0"
  shows "well_typed (t\<lparr>tb_next := Some (k + 1)\<rparr>) T"
    "m_edge (t\<lparr>tb_next := Some (k + 1)\<rparr>) T = m_edge t T" "m_node (t\<lparr>tb_next := Some (k + 1)\<rparr>) T = m_node t T"
proof -
  show e: "m_edge (t\<lparr>tb_next := Some (k + 1)\<rparr>) T = m_edge t T"
    and m: "m_node (t\<lparr>tb_next := Some (k + 1)\<rparr>) T = m_node t T"
    by (auto simp: fun_eq_iff m_edge_def m_node_def backed_def)
  have lt: "k < k + 1" using assms(3) unatSuc [of k] by (simp add: word_less_nat_alt add.commute)
  note parts = typed_parts [OF assms(1)]
  have "next_unused (t\<lparr>tb_next := Some (k + 1)\<rparr>) T"
    unfolding next_unused_def m using parts(5) [unfolded next_unused_def] assms(2,3) lt
    by simp (meson less_trans le_less_trans less_imp_le)
  then show "well_typed (t\<lparr>tb_next := Some (k + 1)\<rparr>) T"
    using parts unfolding well_typed_def nodes_typed_def edges_typed_def parents_typed_def e m by simp
qed

subsection \<open>Dropping an inode's rows\<close>

lemma m_node_purged: "m_node (purged i t) T = (m_node t T)(i := bt_node T i)"
  by (intro ext) (simp add: m_node_def purged_def map_of_drop_rows)

lemma m_edge_purged:
  assumes "tree_ok T" "nodes_typed t T"
  shows "m_edge (purged i t) T = m_edge t T"
proof (intro ext)
  fix p nm
  have "backed (purged i t) p = (p = i \<or> backed t p)"
    by (simp add: backed_def purged_def map_of_drop_rows)
  moreover have "bt_edge T p nm = None" if "\<not> backed t p"
    using no_base_edges [OF assms(1) not_backed [OF assms(2) that]] .
  ultimately show "m_edge (purged i t) T p nm = m_edge t T p nm"
    by (auto simp: m_edge_def purged_def split: option.split)
qed

lemma typed_purged:
  assumes w: "well_typed t T" and T: "tree_ok T"
    and leaf: "\<And>nm. bt_node T i = None \<Longrightarrow> m_edge t T i nm = None"
  shows "well_typed (purged i t) T"
proof -
  note parts = typed_parts [OF w]
  note e = m_edge_purged [OF T parts(2), of i]
  have rows: "tb_oedge (purged i t) = tb_oedge t" "tb_next (purged i t) = tb_next t"
    by (simp_all add: purged_def)
  have same: "\<exists>n'. m_node t T i = Some n' \<and> n_Type n' = n_Type n" if "bt_node T i = Some n" for n
    using that parts(2) by (auto simp: nodes_typed_def m_node_def split: option.split) (metis option.inject option.distinct(1))+
  have "nodes_typed (purged i t) T"
    using parts(2) by (simp add: nodes_typed_def purged_def map_of_drop_rows)
  moreover have "edges_typed (purged i t) T"
    unfolding edges_typed_def m_node_purged rows
  proof (intro allI impI)
    fix p nm j ty n
    assume a: "map_of (tb_oedge t) (p, nm) = Some (j, ty) \<and> j \<noteq> 0 \<and> ((m_node t T)(i := bt_node T i)) j = Some n"
    then obtain n' where "m_node t T j = Some n'" "n_Type n' = n_Type n"
      using same by (cases "j = i") auto
    then show "n_Type n = ty" using a parts(3) unfolding edges_typed_def by metis
  qed
  moreover have "parents_typed (purged i t) T"
    unfolding parents_typed_def m_node_purged e
  proof (intro allI impI)
    fix p nm j
    assume a: "m_edge t T p nm = Some j"
    then obtain n where n: "m_node t T p = Some n" "n_Type n = TypeDir"
      using parts(4) unfolding parents_typed_def by blast
    show "\<exists>n. ((m_node t T)(i := bt_node T i)) p = Some n \<and> n_Type n = TypeDir"
    proof (cases "p = i")
      case True
      then obtain b where "bt_node T i = Some b" using leaf a by (cases "bt_node T i") auto
      then show ?thesis using same n True by fastforce
    next
      case False
      then show ?thesis using n by simp
    qed
  qed
  moreover have "next_unused (purged i t) T"
    unfolding next_unused_def m_node_purged rows
    using parts(5) same unfolding next_unused_def
    by (auto split: if_splits) (metis not_None_eq)+
  moreover have "m_node (purged i t) T 0 = None"
    using parts(6) same unfolding m_node_purged by (auto split: if_splits) (metis not_None_eq)+
  ultimately show ?thesis using parts(1) by (simp add: well_typed_def rows)
qed

lemma m_edge_emptied:
  assumes "tree_ok T" "nodes_typed t T"
  shows "m_edge (emptied d t) T = (m_edge t T)(d := bt_edge T d)"
proof (intro ext)
  fix p nm
  have "bt_edge T p nm = None" if "\<not> backed t p"
    using no_base_edges [OF assms(1) not_backed [OF assms(2) that]] .
  moreover have "backed (emptied d t) p = backed t p" by (simp add: backed_def emptied_def)
  ultimately show "m_edge (emptied d t) T p nm = ((m_edge t T)(d := bt_edge T d)) p nm"
    by (auto simp: m_edge_def emptied_def map_of_drop_rows)
qed

lemma base_dir_typed:
  assumes "tree_ok T" "nodes_typed t T" "bt_edge T d nm = Some i"
  shows "\<exists>n. m_node t T d = Some n \<and> n_Type n = TypeDir"
proof -
  obtain b where "bt_node T d = Some b" "n_Type b = TypeDir"
    using assms(1,3) unfolding tree_ok_def by blast
  then show ?thesis
    using assms(2) by (auto simp: nodes_typed_def m_node_def split: option.split) (metis option.inject option.distinct(1))+
qed

lemma typed_emptied:
  assumes "well_typed t T" "tree_ok T"
  shows "well_typed (emptied d t) T"
proof (rule typed_edges [OF assms(1) emptied_def])
  note parts = typed_parts [OF assms(1)]
  show "distinct (map fst (drop_rows (\<lambda>(p, nm). p = d) (tb_oedge t)))"
    using parts(1) by (rule distinct_drop_rows)
  show "map_of (tb_oedge t) (q, nm') = Some (i, ty) \<or>
      ((\<forall>k. tb_next t = Some k \<longrightarrow> q < k \<and> i < k) \<and> (\<forall>n. i \<noteq> 0 \<and> m_node t T i = Some n \<longrightarrow> n_Type n = ty))"
    if "map_of (drop_rows (\<lambda>(p, nm). p = d) (tb_oedge t)) (q, nm') = Some (i, ty)" for q nm' i ty
    using that by (simp add: map_of_drop_rows split: if_splits)
  show "m_edge t T q nm' \<noteq> None \<or> (\<exists>n. m_node t T q = Some n \<and> n_Type n = TypeDir)"
    if "m_edge (emptied d t) T q nm' = Some i" for q nm' i
    using that base_dir_typed [OF assms(2) parts(2), of d nm' i]
    by (auto simp: m_edge_emptied [OF assms(2) parts(2)] split: if_splits)
qed

text \<open>A directory removed: its rows and its inode's rows go, the base's half shows through.\<close>

lemma removed_dir:
  assumes w: "well_typed t T" and T: "tree_ok T"
  shows "well_typed (purged d (emptied d t)) T"
    "m_edge (purged d (emptied d t)) T = (m_edge t T)(d := bt_edge T d)"
    "m_node (purged d (emptied d t)) T = (m_node t T)(d := bt_node T d)"
proof -
  have e: "well_typed (emptied d t) T" using w T by (rule typed_emptied)
  note m = m_edge_emptied [OF T typed_parts(2) [OF w], of d]
  show "well_typed (purged d (emptied d t)) T"
    by (rule typed_purged [OF e T]) (simp add: m no_base_edges [OF T])
  show "m_edge (purged d (emptied d t)) T = (m_edge t T)(d := bt_edge T d)"
    using m_edge_purged [OF T typed_parts(2) [OF e]] m by simp
  show "m_node (purged d (emptied d t)) T = (m_node t T)(d := bt_node T d)"
    by (simp add: m_node_purged)
qed

end
