(* ===== verification/Overlay_Tree.thy ===== *)
theory Overlay_Tree
  imports Overlay_Rows
begin

text \<open>
  The overlay of \<open>internal/overlay\<close> refines a tree: every operation of \<open>write.go\<close> that succeeds
  makes on the merged view exactly the change its name promises, every one that fails leaves
  all tables as they were, and all of them keep the rows well typed.
\<close>

section \<open>Programs that keep the tables, programs of one transaction\<close>

definition calm :: "('b \<Rightarrow> base_tree) \<Rightarrow> (('b, 'c) ofs, 'a) prog \<Rightarrow> bool" where
  "calm tree m \<longleftrightarrow> (\<forall>s. sound tree s \<longrightarrow> sound tree (snd (m s)) \<and>
     of_tb (snd (m s)) = of_tb s \<and> tree (of_base (snd (m s))) = tree (of_base s))"

definition writing :: "('b \<Rightarrow> base_tree) \<Rightarrow> (('b, 'c) ofs, 'a) prog \<Rightarrow> bool" where
  "writing tree m \<longleftrightarrow> (\<forall>s. sound tree s \<and> of_rows s = None \<longrightarrow> sound tree (snd (m s)) \<and>
     of_rows (snd (m s)) = None \<and> tree (of_base (snd (m s))) = tree (of_base s))"

definition whole :: "('b \<Rightarrow> base_tree) \<Rightarrow> (('b, 'c) ofs, 'a) prog \<Rightarrow> bool" where
  "whole tree m \<longleftrightarrow> (\<forall>s. sound tree s \<longrightarrow> sound tree (snd (m s)) \<and>
     tree (of_base (snd (m s))) = tree (of_base s) \<and> (isl (fst (m s)) \<longrightarrow> of_tb (snd (m s)) = of_tb s))"

definition unfailing :: "('s, 'a) prog \<Rightarrow> bool" where
  "unfailing m \<longleftrightarrow> (\<forall>s. \<not> isl (fst (m s)))"

named_theorems calm_intros
named_theorems writing_intros
named_theorems whole_intros

lemma calm_reading: "reading tree m \<Longrightarrow> calm tree m"
  by (auto simp: calm_def reading_def same_view_def)

lemma calm_run:
  assumes "calm tree m" "sound tree s" "m s = (r, s')"
  shows "sound tree s' \<and> of_tb s' = of_tb s \<and> tree (of_base s') = tree (of_base s)"
  using assms(1) [unfolded calm_def] assms(2,3) by (metis snd_conv)

lemma calm_ret [calm_intros]: "calm tree (ret x)" and calm_fail [calm_intros]: "calm tree (fail e)"
  by (simp_all add: calm_def ret_def fail_def)

lemma calm_asks [calm_intros]: "calm tree (asks f)"
  by (simp add: calm_def asks_def)

lemma calm_andThen [calm_intros]:
  "calm tree m \<Longrightarrow> (\<And>x. calm tree (f x)) \<Longrightarrow> calm tree (andThen m f)"
  unfolding calm_def andThen_def by (auto split: prod.split sum.split)

lemma calm_changes:
  "(\<And>s. of_tb (f s) = of_tb s \<and> of_base (f s) = of_base s \<and> of_rows (f s) = of_rows s \<and> of_prov (f s) = of_prov s)
    \<Longrightarrow> calm tree (changes f)"
  by (simp add: calm_def changes_def sound_def chains_ok_def)

lemma calm_whenever [calm_intros]: "calm tree m \<Longrightarrow> calm tree (whenever b m)"
  by (simp add: whenever_def calm_ret)

lemma bump_calm [calm_intros]: "calm tree (bumpSeqLocked is)"
  unfolding bumpSeqLocked_def by (rule calm_changes) (simp add: Let_def)

lemma mark_calm [calm_intros]: "calm tree (markDirtyLocked is)"
  unfolding markDirtyLocked_def by (intro calm_intros calm_changes) simp

lemma drop_staged_calm [calm_intros]: "calm tree (drop_staged C i)"
  unfolding drop_staged_def by (intro calm_intros calm_changes) simp

lemma writing_reading: "reading tree m \<Longrightarrow> writing tree m"
  by (auto simp: writing_def reading_def same_view_def)

lemma writing_run:
  assumes "writing tree m" "sound tree s" "of_rows s = None" "m s = (r, s')"
  shows "sound tree s' \<and> of_rows s' = None \<and> tree (of_base s') = tree (of_base s)"
  using assms(1) [unfolded writing_def] assms(2-4) by (metis snd_conv)

lemma writing_ret [writing_intros]: "writing tree (ret x)" and writing_fail [writing_intros]: "writing tree (fail e)"
  by (simp_all add: writing_def ret_def fail_def)

lemma writing_asks [writing_intros]: "writing tree (asks f)"
  by (simp add: writing_def asks_def)

lemma writing_andThen [writing_intros]:
  "writing tree m \<Longrightarrow> (\<And>x. writing tree (f x)) \<Longrightarrow> writing tree (andThen m f)"
  unfolding writing_def andThen_def by (auto split: prod.split sum.split)

lemma writing_attempt [writing_intros]:
  "writing tree m \<Longrightarrow> (\<And>x. writing tree (f x)) \<Longrightarrow> writing tree (attempt m f)"
  unfolding writing_def attempt_def by (auto split: prod.split)

lemma writing_whenever [writing_intros]: "writing tree m \<Longrightarrow> writing tree (whenever b m)"
  by (simp add: whenever_def writing_ret)

lemma writing_exec:
  "(\<And>t. tb_obase (f t) = tb_obase t) \<Longrightarrow> writing tree (exec f)"
  by (simp add: writing_def exec_def changes_def sound_def chains_ok_def)

lemma writing_content [writing_intros]: "writing tree (on_content f)"
  by (simp add: writing_def on_content_def sound_def chains_ok_def split: prod.split)

lemma rows_writing [writing_intros]:
  "writing tree (putONode r)" "writing tree (putOEdge p nm i ty)" "writing tree (putWhiteout p nm)"
  "writing tree (deleteOEdge p nm)"
  by (simp_all add: putONode_def putOEdge_def putWhiteout_def deleteOEdge_def writing_exec)

lemma putRow_run [simp]:
  "putONode r s = (Inr (), s\<lparr>of_tb := with_node r (of_tb s)\<rparr>)"
  "putOEdge p nm i ty s = (Inr (), s\<lparr>of_tb := with_edge p nm i ty (of_tb s)\<rparr>)"
  "putWhiteout p nm s = (Inr (), s\<lparr>of_tb := with_edge p nm 0 0 (of_tb s)\<rparr>)"
  "deleteOEdge p nm s = (Inr (), s\<lparr>of_tb := without_edge p nm (of_tb s)\<rparr>)"
  by (simp_all add: putONode_def putOEdge_def putWhiteout_def deleteOEdge_def exec_def changes_def row_changes)

lemma withTx_whole [whole_intros]:
  fixes fn :: "(('b, 'c) ofs, 'a) prog"
  assumes "writing tree fn"
  shows "whole tree (withTx fn)"
  unfolding whole_def
proof (intro allI impI)
  fix s :: "('b, 'c) ofs"
  assume s: "sound tree s"
  obtain r u where u: "fn (s\<lparr>of_rows := None\<rparr>) = (r, u)" by fastforce
  have "sound tree (s\<lparr>of_rows := None\<rparr>)" using s by (simp add: sound_def chains_ok_def)
  from writing_run [OF assms this _ u]
  have k: "sound tree u \<and> of_rows u = None \<and> tree (of_base u) = tree (of_base s)" by simp
  then have undone: "sound tree (u\<lparr>of_tb := of_tb s\<rparr>)"
    using s by (auto simp: sound_def chains_ok_def)
  have more: "sound tree (v\<lparr>of_commits := es\<rparr>) = sound tree v" for v :: "('b, 'c) ofs" and es
    by (simp add: sound_def chains_ok_def)
  then show "sound tree (snd (withTx fn s)) \<and> tree (of_base (snd (withTx fn s))) = tree (of_base s) \<and>
      (isl (fst (withTx fn s)) \<longrightarrow> of_tb (snd (withTx fn s)) = of_tb s)"
    using k u undone by (auto simp: withTx_def more split: sum.split list.split option.split)
qed

lemma whole_run:
  assumes "whole tree m" "sound tree s" "m s = (r, s')"
  shows "sound tree s' \<and> tree (of_base s') = tree (of_base s) \<and> (isl r \<longrightarrow> of_tb s' = of_tb s)"
  using assms(1) [unfolded whole_def] assms(2,3) by (metis fst_conv snd_conv)

lemma whole_calm: "calm tree m \<Longrightarrow> whole tree m"
  by (simp add: whole_def calm_def)

lemma whole_first [whole_intros]:
  "calm tree m \<Longrightarrow> (\<And>x. whole tree (f x)) \<Longrightarrow> whole tree (andThen m f)"
  unfolding whole_def calm_def andThen_def by (auto split: prod.split sum.split)

lemma whole_attempt [whole_intros]:
  "calm tree m \<Longrightarrow> (\<And>x. whole tree (f x)) \<Longrightarrow> whole tree (attempt m f)"
  unfolding whole_def calm_def attempt_def by (auto split: prod.split)

lemma whole_last [whole_intros]:
  assumes "whole tree m" "\<And>x. calm tree (f x)" "\<And>x. unfailing (f x)"
  shows "whole tree (andThen m f)"
  using assms unfolding whole_def calm_def unfailing_def andThen_def
  by (auto split: prod.split sum.split)

lemma unfailing_basic:
  "unfailing (ret x)" "unfailing (changes f)" "unfailing (bumpSeqLocked is)" "unfailing (markDirtyLocked is)"
  "unfailing (drop_staged C i)"
  by (simp_all add: unfailing_def ret_def changes_def bumpSeqLocked_def markDirtyLocked_def andThen_def
      drop_staged_def whenever_def)

lemma unfailing_then: "unfailing m \<Longrightarrow> (\<And>x. unfailing (f x)) \<Longrightarrow> unfailing (andThen m f)"
  by (auto simp: unfailing_def andThen_def isl_def split: prod.split sum.split) (metis fst_conv)+

lemma whole_ret [whole_intros]: "whole tree (ret x)" and whole_fail [whole_intros]: "whole tree (fail e)"
  by (simp_all add: whole_calm calm_intros)

section \<open>The operations\<close>

lemma exec_writing [writing_intros]:
  "writing tree (exec (\<lambda>t. t\<lparr>tb_next := f t\<rparr>))"
  "writing tree (exec (\<lambda>t. t\<lparr>tb_ocontent := g t\<rparr>))"
  "writing tree (exec (\<lambda>t. t\<lparr>tb_osymlink := h t\<rparr>))"
  "writing tree (exec (\<lambda>t. t\<lparr>tb_oxattr := k t\<rparr>))"
  "writing tree (exec (\<lambda>t. t\<lparr>tb_oedge := e t\<rparr>))"
  by (simp_all add: writing_exec)

lemma alloc_writing [writing_intros]: "writing tree allocInodeLocked"
  unfolding allocInodeLocked_def by (auto intro!: writing_intros split: option.split)

lemma emptyDir_reading [reading_intros]: "genfs_serves B tree \<Longrightarrow> reading tree (emptyDirLocked B d)"
  unfolding emptyDirLocked_def by (auto intro!: reading_intros genfs_steady split: prod.split)

lemma baseHasEdge_reading [reading_intros]: "genfs_serves B tree \<Longrightarrow> reading tree (baseHasEdgeLocked B p nm)"
  unfolding baseHasEdgeLocked_def
  by (auto intro!: reading_intros baseLookup_reading split: prod.split sum.split)

lemma base_prefix_reading:
  "genfs_serves B tree \<Longrightarrow> reading tree (base_prefix B i tries off left acc)"
  by (induction tries arbitrary: off left acc) (auto intro!: reading_intros genfs_steady)

lemma getattr_reading [reading_intros]:
  "genfs_serves B tree \<Longrightarrow> reading tree (on_base (bo_GetAttr B i))"
  by (intro reading_intros genfs_steady)

lemma checkParent_reading [reading_intros]: "genfs_serves B tree \<Longrightarrow> reading tree (checkParentDirLocked B p)"
  unfolding checkParentDirLocked_def by (auto intro!: reading_intros)

lemma checkAbsent_reading [reading_intros]: "genfs_serves B tree \<Longrightarrow> reading tree (checkAbsentLocked B p nm)"
  unfolding checkAbsentLocked_def by (auto intro!: reading_intros split: sum.split)

lemma removeEdge_writing [writing_intros]: "genfs_serves B tree \<Longrightarrow> writing tree (removeEdgeLocked B p nm ov)"
  unfolding removeEdgeLocked_def
  by (auto intro!: writing_intros writing_reading [OF baseHasEdge_reading])

lemma purge_writing [writing_intros]: "writing tree (purgeNodeLocked i)"
  unfolding purgeNodeLocked_def by (intro writing_intros writing_exec) simp

lemma removeDir_writing [writing_intros]: "writing tree (removeDirLocked i)"
  unfolding removeDirLocked_def by (intro writing_intros)

lemma drop_from_row_writing [writing_intros]: "writing tree (drop_from_row now i r)"
  unfolding drop_from_row_def by (auto intro!: writing_intros)

lemma dropNodeRef_writing [writing_intros]: "genfs_serves B tree \<Longrightarrow> writing tree (dropNodeRefLocked B now i h)"
  unfolding dropNodeRefLocked_def
  by (auto intro!: writing_intros writing_reading [OF ensureBase_reading] writing_reading [OF getattr_reading]
      split: option.split)

lemma materializeAttrs_writing [writing_intros]: "genfs_serves B tree \<Longrightarrow> writing tree (materializeAttrsLocked B i)"
  unfolding materializeAttrsLocked_def
  by (auto intro!: writing_intros writing_reading [OF ensureBase_reading] writing_reading [OF getattr_reading]
      split: option.split)

lemma materializeContent_writing [writing_intros]:
  "genfs_serves B tree \<Longrightarrow> writing tree (materializeContentLocked B C r n)"
  unfolding materializeContentLocked_def Let_def
  by (auto intro!: writing_intros writing_reading [OF ensureBase_reading] writing_reading [OF base_prefix_reading])

lemma move_over_writing [writing_intros]: "genfs_serves B tree \<Longrightarrow> writing tree (move_over B now p nm d)"
  unfolding move_over_def by (auto intro!: writing_intros split: option.split)

lemma may_replace_calm [calm_intros]: "genfs_serves B tree \<Longrightarrow> calm tree (may_replace B src dst)"
  unfolding may_replace_def by (auto intro!: calm_intros calm_reading [OF emptyDir_reading])

lemma persistChain_writing [writing_intros]:
  fixes tree :: "'b \<Rightarrow> base_tree"
  assumes B: "genfs_serves B tree"
  shows "writing tree (persistChainLocked B ino :: (('b, 'c) ofs, unit) prog)"
proof -
  have "sound tree s \<Longrightarrow> of_rows s = None \<Longrightarrow> persistChainLocked B ino s = (r, s') \<Longrightarrow>
      sound tree s' \<and> of_rows s' = None \<and> tree (of_base s') = tree (of_base s)"
    for s s' :: "('b, 'c) ofs" and r
  proof (induction "card (- dom (map_of (tb_obase (of_tb s))))" arbitrary: ino s rule: less_induct)
    case less
    show ?case
    proof (cases "ino = RootInode \<or> map_of (tb_obase (of_tb s)) ino \<noteq> None")
      case True
      then have "persistChainLocked B ino s = (Inr (), s)" by (subst persistChainLocked.simps) auto
      then show ?thesis using less.prems by simp
    next
      case False
      define step where "step =
        (case map_of (of_prov s) ino of
           Some pe \<Rightarrow> (Inr pe, s)
         | None \<Rightarrow>
             (case on_base (bo_Edge B ino) s of
                (Inl e, s') \<Rightarrow> (Inl (Wrapped e), s')
              | (Inr pe, s') \<Rightarrow> (Inr pe, s')))"
      have unfold: "persistChainLocked B ino s = (case step of
          (Inl e, s') \<Rightarrow> (Inl e, s')
        | (Inr pe, s') \<Rightarrow> persistChainLocked B (pe_parent pe)
            (snd (exec (\<lambda>t. t\<lparr>tb_obase := put_row ino pe (tb_obase t)\<rparr>) s')))"
        using False unfolding step_def by (subst persistChainLocked.simps) (simp only: if_False de_Morgan_disj not_False_eq_True)
      obtain q u where q: "step = (q, u)" by fastforce
      have edge: "reading tree (on_base (bo_Edge B ino) :: (('b, 'c) ofs, prov_edge) prog)"
        using B by (intro reading_intros genfs_steady)
      have u: "sound tree u \<and> of_tb u = of_tb s \<and> of_rows u = None \<and> tree (of_base u) = tree (of_base s)"
        using q less.prems(1,2) reading_run [OF edge less.prems(1)]
        by (auto simp: step_def same_view_def split: option.splits prod.splits sum.splits)
      show ?thesis
      proof (cases q)
        case (Inl e)
        then show ?thesis using less.prems(3) False q u
          by (simp add: unfold)
      next
        case (Inr pe)
        let ?v = "u\<lparr>of_tb := (of_tb u)\<lparr>tb_obase := put_row ino pe (tb_obase (of_tb u))\<rparr>\<rparr>"
        have run: "persistChainLocked B (pe_parent pe) ?v = (r, s')"
          using less.prems(3) False q Inr
          by (simp add: unfold exec_def changes_def)
        have "bt_edge (tree (of_base s)) (pe_parent pe) (pe_name pe) = Some ino"
          using q Inr less.prems(1) genfs_Edge [OF B]
          by (auto simp: step_def sound_def chains_ok_def on_base_def split: option.splits prod.splits sum.splits)
        then have v: "sound tree ?v" using u by (auto simp: sound_def chains_ok_def map_of_put_row)
        have "insert ino (dom (map_of (tb_obase (of_tb s)))) = dom (map_of (tb_obase (of_tb ?v)))"
          using u by (simp add: map_of_put_row)
        then have "card (- dom (map_of (tb_obase (of_tb ?v)))) < card (- dom (map_of (tb_obase (of_tb s))))"
          using False by (intro psubset_card_mono) auto
        from less.hyps [OF this v _ run] show ?thesis using u by simp
      qed
    qed
  qed
  then show ?thesis unfolding writing_def by (metis prod.collapse)
qed

text \<open>One change a client asks for; its answer is not kept.\<close>

datatype request =
    Create uint64 string uint32 uint32 uint32
  | Mkdir uint64 string uint32 uint32 uint32
  | Symlink uint64 string string uint32 uint32
  | Mknod uint64 string byte uint32 uint32 uint32 uint32
  | Unlink uint64 string
  | Rmdir uint64 string
  | Rename uint64 string uint64 string
  | Link uint64 uint64 string
  | Write uint64 int64 bytes
  | SetAttr uint64 set_attr_in
  | SetXattr uint64 string bytes
  | RemoveXattr uint64 string

definition done_with :: "('s, 'a) prog \<Rightarrow> ('s, unit) prog" where
  "done_with m = andThen m (\<lambda>_. ret ())"

fun perform :: "'b base_ops \<Rightarrow> 'c content_ops \<Rightarrow> int64 \<Rightarrow> request \<Rightarrow> (('b, 'c) ofs, unit) prog" where
  "perform B C now (Create p nm mode uid gid) = done_with (ov_Create B C now p nm mode uid gid)"
| "perform B C now (Mkdir p nm mode uid gid) = done_with (ov_Mkdir B now p nm mode uid gid)"
| "perform B C now (Symlink p nm target uid gid) = done_with (ov_Symlink B now p nm target uid gid)"
| "perform B C now (Mknod p nm ty mode uid gid rdev) = done_with (ov_Mknod B now p nm ty mode uid gid rdev)"
| "perform B C now (Unlink p nm) = ov_Unlink B C now p nm"
| "perform B C now (Rmdir p nm) = ov_Rmdir B p nm"
| "perform B C now (Rename p nm q nm') = ov_Rename B C now p nm q nm'"
| "perform B C now (Link i p nm) = done_with (ov_Link B now i p nm)"
| "perform B C now (Write i off data) = done_with (ov_Write B C now i off data)"
| "perform B C now (SetAttr i inp) = done_with (ov_SetAttr B C now i inp)"
| "perform B C now (SetXattr i nm v) = ov_SetXattr B i nm v"
| "perform B C now (RemoveXattr i nm) = ov_RemoveXattr B i nm"

lemma done_with_whole [whole_intros]: "whole tree m \<Longrightarrow> whole tree (done_with m)"
  unfolding done_with_def by (rule whole_last) (simp_all add: calm_intros unfailing_basic)

lemma createNode_whole [whole_intros]:
  assumes "genfs_serves B tree" "\<And>ino. writing tree (extra ino)"
  shows "whole tree (createNodeLocked B p nm tmpl extra)"
  unfolding createNodeLocked_def
  by (intro whole_intros calm_reading checkParent_reading checkAbsent_reading assms writing_intros
      calm_intros unfailing_then unfailing_basic)

lemma resize_writing [writing_intros]: "genfs_serves B tree \<Longrightarrow> writing tree (resize B C now i sz r)"
  unfolding resize_def by (auto intro!: writing_intros split: option.split)

lemma rename_tx_writing [writing_intros]:
  "genfs_serves B tree \<Longrightarrow> writing tree (rename_tx B now p nm src q nm' dst)"
  unfolding rename_tx_def by (auto intro!: writing_intros)

lemma tx_then_drop [whole_intros]:
  "writing tree fn \<Longrightarrow> whole tree (andThen (withTx fn) (drop_staged C))"
  by (intro whole_last whole_intros calm_intros unfailing_basic)

lemma tx_then_ret [whole_intros]:
  "writing tree fn \<Longrightarrow> whole tree (andThen (withTx fn) (\<lambda>_. ret x))"
  by (intro whole_last whole_intros calm_intros unfailing_basic)

lemma case_prod_whole: "(\<And>a b. whole tree (f a b)) \<Longrightarrow> whole tree (case x of (a, b) \<Rightarrow> f a b)"
  by (cases x) simp

lemma unless_tomb:
  "whole tree m \<Longrightarrow> whole tree (case x of Some (v, True) \<Rightarrow> fail e | _ \<Rightarrow> m)"
  by (simp add: whole_fail split: option.split prod.split bool.split)

lemma baseHasXattr_reading: "genfs_serves B tree \<Longrightarrow> reading tree (baseHasXattr B i nm b)"
  unfolding baseHasXattr_def by (auto intro!: reading_intros genfs_steady split: sum.split)

lemma perform_whole:
  assumes B: "genfs_serves B tree"
  shows "whole tree (perform B C now q)"
proof (cases q)
  case (Create p nm mode uid gid)
  then show ?thesis using B by (simp add: ov_Create_def) (intro whole_intros writing_intros)
next
  case (Mkdir p nm mode uid gid)
  then show ?thesis using B by (simp add: ov_Mkdir_def) (intro whole_intros writing_intros)
next
  case (Symlink p nm target uid gid)
  then show ?thesis using B by (simp add: ov_Symlink_def) (intro whole_intros writing_intros)
next
  case (Mknod p nm ty mode uid gid rdev)
  then show ?thesis using B by (auto simp: ov_Mknod_def intro!: whole_intros writing_intros)
next
  case (Unlink p nm)
  then show ?thesis using B
    by (auto simp: ov_Unlink_def intro!: whole_intros calm_intros writing_intros unfailing_basic calm_reading [OF resolve_reading])
next
  case (Rmdir p nm)
  then show ?thesis using B
    by (auto simp: ov_Rmdir_def intro!: whole_intros calm_intros writing_intros calm_reading [OF resolve_reading]
        calm_reading [OF emptyDir_reading])
next
  case (Rename p nm p' nm')
  then show ?thesis using B
    by (auto simp: ov_Rename_def intro!: whole_intros calm_intros writing_intros unfailing_basic calm_reading [OF resolve_reading]
        split: sum.split)
next
  case (Link i p nm)
  then show ?thesis using B
    by (auto simp: ov_Link_def Let_def intro!: whole_intros calm_intros writing_intros persistChain_writing
        calm_reading [OF attrs_reading] calm_reading [OF checkParent_reading] calm_reading [OF checkAbsent_reading])
next
  case (Write i off data)
  then show ?thesis using B
    by (auto simp: ov_Write_def Let_def intro!: whole_intros calm_intros writing_intros unfailing_basic)
next
  case (SetAttr i inp)
  then show ?thesis using B
    by (auto simp: ov_SetAttr_def Let_def intro!: whole_intros calm_intros writing_intros)
next
  case (SetXattr i nm v)
  then show ?thesis using B
    by (auto simp: ov_SetXattr_def intro!: whole_intros calm_intros writing_intros calm_reading [OF attrs_reading])
next
  case (RemoveXattr i nm)
  have last: "whole tree (if row = None \<and> \<not> has then fail ErrNotExist else withTx (exec (xattr_removed i nm has)))"
    for row :: "(bytes \<times> bool) option" and has
    by (auto intro!: whole_intros writing_exec simp: xattr_removed_def)
  show ?thesis
    unfolding RemoveXattr perform.simps ov_RemoveXattr_def
    by (intro whole_first calm_intros case_prod_whole)
      (rule unless_tomb, rule whole_first [OF calm_reading [OF baseHasXattr_reading [OF B]] last])
qed

section \<open>What each operation does to the view\<close>

definition ready :: "('b \<Rightarrow> base_tree) \<Rightarrow> ('b, 'c) ofs \<Rightarrow> bool" where
  "ready tree s \<longleftrightarrow> tidy tree s \<and> of_rows s = None"

definition moved :: "('b \<Rightarrow> base_tree) \<Rightarrow> ('b, 'c) ofs \<Rightarrow> ('b, 'c) ofs
    \<Rightarrow> (uint64 \<Rightarrow> string \<Rightarrow> uint64 option) \<Rightarrow> (uint64 \<Rightarrow> node option) \<Rightarrow> bool" where
  "moved tree s s' E N \<longleftrightarrow> ready tree s' \<and> tree (of_base s') = tree (of_base s) \<and>
     tb_next (of_tb s') = tb_next (of_tb s) \<and> edges tree s' = E \<and> nodes tree s' = N"

lemma ready_parts:
  assumes "ready tree s"
  shows "sound tree s" "of_rows s = None" "tree_ok (tree (of_base s))" "well_typed (of_tb s) (tree (of_base s))"
  using assms by (simp_all add: ready_def tidy_def)

lemma moved_reading:
  assumes "reading tree m" "ready tree s" "m s = (r, s')"
  shows "moved tree s s' (edges tree s) (nodes tree s)"
  using reading_run [OF assms(1) _ assms(3)] assms(2) by (auto simp: moved_def ready_def tidy_def same_view_def)

lemma moved_refl: "ready tree s \<Longrightarrow> moved tree s s (edges tree s) (nodes tree s)"
  by (simp add: moved_def)

lemma moved_trans:
  "moved tree s u E N \<Longrightarrow> moved tree u s' E' N' \<Longrightarrow> moved tree s s' E' N'"
  by (auto simp: moved_def)

lemma moved_tables:
  assumes r: "ready tree s" and s': "s' = s\<lparr>of_tb := t\<rparr>"
    and t: "well_typed t (tree (of_base s))" "tb_next t = tb_next (of_tb s)" "tb_obase t = tb_obase (of_tb s)"
    and v: "m_edge t (tree (of_base s)) = E" "m_node t (tree (of_base s)) = N"
  shows "moved tree s s' E N"
  using ready_parts [OF r] t v by (auto simp: s' moved_def ready_def tidy_def sound_def chains_ok_def)

lemma row_kept [simp]:
  "tb_next (with_node r t) = tb_next t" "tb_next (with_edge p nm i ty t) = tb_next t"
  "tb_next (without_edge p nm t) = tb_next t" "tb_next (purged i t) = tb_next t" "tb_next (emptied i t) = tb_next t"
  "tb_obase (with_node r t) = tb_obase t" "tb_obase (with_edge p nm i ty t) = tb_obase t"
  "tb_obase (without_edge p nm t) = tb_obase t" "tb_obase (purged i t) = tb_obase t" "tb_obase (emptied i t) = tb_obase t"
  by (simp_all add: row_changes)

lemma whiteout_moves:
  assumes "ready tree s" "\<And>k. tb_next (of_tb s) = Some k \<Longrightarrow> p < k"
  shows "moved tree s (s\<lparr>of_tb := with_edge p nm 0 ty (of_tb s)\<rparr>) (upd2 (edges tree s) p nm None) (nodes tree s)"
  by (rule moved_tables [OF assms(1) refl typed_whiteout [OF ready_parts(4) [OF assms(1)] assms(2)]])
    (simp_all add: m_edge_whiteout)

lemma edge_moves:
  assumes "ready tree s" "i \<noteq> 0" "\<And>k. tb_next (of_tb s) = Some k \<Longrightarrow> p < k \<and> i < k"
    and "\<And>n. nodes tree s i = Some n \<Longrightarrow> n_Type n = ty" "nodes tree s p = Some d" "n_Type d = TypeDir"
  shows "moved tree s (s\<lparr>of_tb := with_edge p nm i ty (of_tb s)\<rparr>) (upd2 (edges tree s) p nm (Some i)) (nodes tree s)"
  by (rule moved_tables [OF assms(1) refl typed_with_edge [OF ready_parts(4) [OF assms(1)] assms(2-6)]])
    (use assms(2) in \<open>simp_all add: m_edge_with_edge\<close>)

lemma baseHasEdge_no:
  assumes B: "genfs_serves B tree" and s: "sound tree s" and r: "baseHasEdgeLocked B p nm s = (Inr False, s')"
  shows "backed (of_tb s) p \<longrightarrow> bt_edge (tree (of_base s)) p nm = None"
proof
  assume "backed (of_tb s) p"
  then obtain u e where u: "ensureBaseLocked B p s = (Inr (), u)" "baseLookupLocked B p nm u = (Inl e, s')" "is_err ErrNotExist e"
    using r by (auto simp: baseHasEdgeLocked_def run_simps baseBacked_eq [OF s])
  have "tree (of_base u) = tree (of_base s)"
    using reading_run [OF ensureBase_reading [OF B] s u(1)] by (simp add: same_view_def)
  then show "bt_edge (tree (of_base s)) p nm = None" using baseLookup_absent [OF B u(2,3)] by simp
qed

text \<open>The row goes before the base is asked: the base's answer decides whether a whiteout replaces it.\<close>

lemma baseHasEdge_blind:
  "sound tree s \<Longrightarrow> of_rows s = None \<Longrightarrow> sound tree (s\<lparr>of_tb := without_edge p nm (of_tb s)\<rparr>)"
  by (simp add: sound_def chains_ok_def)

lemma removeEdge_moves:
  assumes B: "genfs_serves B tree" and s: "ready tree s" and k: "\<And>k. tb_next (of_tb s) = Some k \<Longrightarrow> p < k"
    and run: "removeEdgeLocked B p nm ov s = (Inr x, s')"
  shows "moved tree s s' (upd2 (edges tree s) p nm None) (nodes tree s)"
proof (cases ov)
  case False
  then show ?thesis using run whiteout_moves [OF s k, of nm 0] by (simp add: removeEdgeLocked_def)
next
  case True
  note parts = ready_parts [OF s]
  let ?u = "s\<lparr>of_tb := without_edge p nm (of_tb s)\<rparr>"
  have u: "sound tree ?u" using baseHasEdge_blind parts by blast
  obtain shadow v where v: "baseHasEdgeLocked B p nm ?u = (Inr shadow, v)"
    and rest: "(if \<not> shadow then ret () else putWhiteout p nm) v = (Inr x, s')"
    using run True by (auto simp: removeEdgeLocked_def andThen_Inr)
  have same: "sound tree v" "of_tb v = without_edge p nm (of_tb s)" "tree (of_base v) = tree (of_base s)" "of_rows v = None"
    using reading_run [OF baseHasEdge_reading [OF B] u v] parts(2) by (auto simp: same_view_def)
  show ?thesis
  proof (cases shadow)
    case False
    have "backed (of_tb s) p \<longrightarrow> bt_edge (tree (of_base s)) p nm = None"
      using baseHasEdge_no [OF B u] v False by (simp add: backed_def without_edge_def)
    then show ?thesis
      using False rest same typed_without_edge [OF parts(4)] m_edge_without parts(3)
      by (simp add: moved_def ready_def tidy_def)
  next
    case True
    have t: "of_tb s' = with_edge p nm 0 0 (without_edge p nm (of_tb s))" "of_base s' = of_base v" "of_rows s' = None"
      and sv: "sound tree s'"
      using True rest same by (auto simp: sound_def chains_ok_def)
    have w: "well_typed (with_edge p nm 0 0 (without_edge p nm (of_tb s))) (tree (of_base s))"
    proof (rule typed_edges [OF typed_whiteout [OF parts(4), of p nm 0]])
      show "with_edge p nm 0 0 (without_edge p nm (of_tb s)) = (with_edge p nm 0 0 (of_tb s))
          \<lparr>tb_oedge := put_row (p, nm) (0, 0) (drop_rows (\<lambda>k. k = (p, nm)) (tb_oedge (of_tb s)))\<rparr>"
        by (simp add: row_changes)
      show "distinct (map fst (put_row (p, nm) (0, 0) (drop_rows (\<lambda>k. k = (p, nm)) (tb_oedge (of_tb s)))))"
        using typed_parts(1) [OF parts(4)] by (intro distinct_put_row distinct_drop_rows)
    qed (use k in \<open>auto simp: row_changes map_of_put_row map_of_drop_rows m_edge_def backed_def split: if_splits option.splits\<close>)
    have "m_edge (with_edge p nm 0 0 (without_edge p nm (of_tb s))) (tree (of_base s)) = upd2 (edges tree s) p nm None"
      by (intro ext) (simp add: m_edge_def row_changes map_of_put_row map_of_drop_rows backed_def upd2_app)
    then show ?thesis using t sv w parts(3) same by (simp add: moved_def ready_def tidy_def)
  qed
qed

definition one_link_less :: "int64 \<Rightarrow> node option \<Rightarrow> node \<Rightarrow> node option" where
  "one_link_less now base n =
     (if 1 < n_Nlink n then Some (n\<lparr>n_Nlink := n_Nlink n - 1, n_CtimeNS := now\<rparr>) else base)"

lemma purge_run: "purgeNodeLocked i s =
    (Inr (if map_of (tb_ocontent (of_tb s)) i \<noteq> None then i else 0), s\<lparr>of_tb := purged i (of_tb s)\<rparr>)"
  by (simp add: purgeNodeLocked_def andThen_def asks_def exec_def changes_def ret_def purged_def)

lemma removeDir_run: "removeDirLocked d s = (Inr (), s\<lparr>of_tb := purged d (emptied d (of_tb s))\<rparr>)"
  by (simp add: removeDirLocked_def andThen_def exec_def changes_def ret_def purge_run emptied_def)

lemma removeDir_moves:
  assumes "ready tree s" "removeDirLocked d s = (Inr x, s')"
  shows "moved tree s s' ((edges tree s)(d := bt_edge (tree (of_base s)) d))
    ((nodes tree s)(d := bt_node (tree (of_base s)) d))"
  using removed_dir [OF ready_parts(4,3) [OF assms(1)], of d] assms(2)
  by (intro moved_tables [OF assms(1), of _ "purged d (emptied d (of_tb s))"]) (auto simp: removeDir_run)

lemma leaf_no_edges:
  assumes "well_typed t T" "m_node t T i = Some n" "n_Type n \<noteq> TypeDir"
  shows "m_edge t T i nm = None"
  using typed_parts(4) [OF assms(1)] assms(2,3) unfolding parents_typed_def by fastforce

lemma drop_row_moves:
  assumes s: "ready tree s" and i: "n_Inode (or_node r) = i" "nodes tree s i = Some (or_node r)"
    and b: "or_base r \<longleftrightarrow> bt_node (tree (of_base s)) i \<noteq> None" and leaf: "n_Type (or_node r) \<noteq> TypeDir"
    and run: "drop_from_row now i r s = (Inr x, s')"
  shows "moved tree s s' (edges tree s)
    ((nodes tree s)(i := one_link_less now (bt_node (tree (of_base s)) i) (or_node r)))"
proof (cases "1 < n_Nlink (or_node r)")
  case True
  note parts = ready_parts [OF s]
  let ?r = "r\<lparr>or_node := (or_node r)\<lparr>n_Nlink := n_Nlink (or_node r) - 1, n_CtimeNS := now\<rparr>\<rparr>"
  have s': "s' = s\<lparr>of_tb := with_node ?r (of_tb s)\<rparr>"
    using run True by (simp add: drop_from_row_def andThen_def ret_def)
  have "well_typed (with_node ?r (of_tb s)) (tree (of_base s))"
    "m_edge (with_node ?r (of_tb s)) (tree (of_base s)) = edges tree s"
    using typed_rewrite [OF parts(4,3) i(2), of ?r] i(1) b by simp_all
  then show ?thesis
    using i True by (intro moved_tables [OF s s']) (simp_all add: m_node_with_node one_link_less_def)
next
  case False
  note parts = ready_parts [OF s]
  have "s' = s\<lparr>of_tb := purged i (of_tb s)\<rparr>" using run False by (simp add: drop_from_row_def purge_run)
  then show ?thesis
    using typed_purged [OF parts(4,3) leaf_no_edges [OF parts(4) i(2) leaf]] False
    by (intro moved_tables [OF s, of _ "purged i (of_tb s)"])
      (simp_all add: m_edge_purged [OF parts(3) typed_parts(2) [OF parts(4)]] m_node_purged one_link_less_def)
qed

lemma row_typed:
  assumes "nodes_typed t T" "map_of (tb_onode t) i = Some r"
  shows "n_Inode (or_node r) = i \<and> (or_base r \<longleftrightarrow> bt_node T i \<noteq> None)"
  using assms(1) [unfolded nodes_typed_def, rule_format, OF assms(2)] by (auto split: if_splits)

lemma dropNodeRef_moves:
  assumes B: "genfs_serves B tree" and s: "ready tree s"
    and h: "\<And>n. h = Some n \<Longrightarrow> bt_node (tree (of_base s)) i = Some n"
    and leaf: "\<And>n. nodes tree s i = Some n \<Longrightarrow> n_Type n \<noteq> TypeDir"
    and run: "dropNodeRefLocked B now i h s = (Inr x, s')"
  shows "\<exists>n. nodes tree s i = Some n \<and> moved tree s s' (edges tree s)
    ((nodes tree s)(i := one_link_less now (bt_node (tree (of_base s)) i) n))"
proof (cases "map_of (tb_onode (of_tb s)) i")
  case (Some r)
  note parts = ready_parts [OF s]
  have n: "nodes tree s i = Some (or_node r)" using Some by (simp add: m_node_def)
  have "n_Inode (or_node r) = i" "or_base r \<longleftrightarrow> bt_node (tree (of_base s)) i \<noteq> None"
    using row_typed [OF typed_parts(2) [OF parts(4)] Some] by simp_all
  then show ?thesis
    using drop_row_moves [OF s _ n _ leaf [OF n]] n run Some by (auto simp: dropNodeRefLocked_def run_simps)
next
  case None
  note parts = ready_parts [OF s]
  obtain n u where u: "(case h of Some n \<Rightarrow> ret n
      | None \<Rightarrow> andThen (ensureBaseLocked B i) (\<lambda>_. on_base (bo_GetAttr B i))) s = (Inr n, u)"
    and rest: "(if n_Nlink n \<le> 1 then ret 0 else drop_from_row now i \<lparr>or_node = n, or_base = True\<rparr>) u = (Inr x, s')"
    using run None by (auto simp: dropNodeRefLocked_def andThen_Inr)
  have attrs: "attrsLocked B i h s = (Inr n, u)"
    using u None ready_parts(1,2) [OF s]
    by (simp add: attrsLocked_def andThen_def asks_def onodeLocked_def cur_def)
  from attrs_answer [OF B parts(1) attrs h] have n: "nodes tree s i = Some n" .
  then have b: "bt_node (tree (of_base s)) i = Some n" using None by (simp add: m_node_def)
  have m: "moved tree s u (edges tree s) (nodes tree s)"
    by (rule moved_reading [OF attrs_reading [OF B] s attrs])
  then have v: "edges tree u = edges tree s" "nodes tree u = nodes tree s" "ready tree u" "tree (of_base u) = tree (of_base s)"
    by (auto simp: moved_def)
  have i: "n_Inode n = i" using parts(3) b by (simp add: tree_ok_def)
  show ?thesis
  proof (cases "n_Nlink n \<le> 1")
    case True
    then show ?thesis using rest m n b by (auto simp: one_link_less_def fun_upd_idem)
  next
    case False
    then have "drop_from_row now i \<lparr>or_node = n, or_base = True\<rparr> u = (Inr x, s')" using rest by simp
    from drop_row_moves [OF v(3) _ _ _ _ this] show ?thesis
      using i n b leaf [OF n] v moved_trans [OF m] by auto
  qed
qed

end
