(* ===== verification/Overlay_Effects.thy ===== *)
theory Overlay_Effects
  imports Overlay_Tree
begin

text \<open>
  The refinement of \<open>internal/overlay/write.go\<close>: what a successful operation makes of the
  merged edges and inodes, operation by operation.
\<close>

section \<open>Whole operations\<close>

definition becomes :: "('b \<Rightarrow> base_tree) \<Rightarrow> ('b, 'c) ofs \<Rightarrow> ('b, 'c) ofs
    \<Rightarrow> (uint64 \<Rightarrow> string \<Rightarrow> uint64 option) \<Rightarrow> (uint64 \<Rightarrow> node option) \<Rightarrow> bool" where
  "becomes tree s s' E N \<longleftrightarrow> tidy tree s' \<and> tree (of_base s') = tree (of_base s) \<and>
     edges tree s' = E \<and> nodes tree s' = N"

lemma moved_becomes: "moved tree s s' E N \<Longrightarrow> becomes tree s s' E N"
  by (auto simp: moved_def becomes_def ready_def)

lemma becomes_refl: "tidy tree s \<Longrightarrow> becomes tree s s (edges tree s) (nodes tree s)"
  by (simp add: becomes_def)

lemma becomes_trans: "becomes tree s u E N \<Longrightarrow> becomes tree u s' E' N' \<Longrightarrow> becomes tree s s' E' N'"
  by (auto simp: becomes_def)

text \<open>A state that differs at most in bookkeeping, caches and the inside of the generation below.\<close>

definition still :: "('b \<Rightarrow> base_tree) \<Rightarrow> ('b, 'c) ofs \<Rightarrow> ('b, 'c) ofs \<Rightarrow> bool" where
  "still tree s s' \<longleftrightarrow> tidy tree s' \<and> of_tb s' = of_tb s \<and> tree (of_base s') = tree (of_base s)"

lemma still_refl: "tidy tree s \<Longrightarrow> still tree s s"
  by (simp add: still_def)

lemma still_calm:
  assumes "still tree s u" "calm tree m" "m u = (r, s')"
  shows "still tree s s'"
  using calm_run [OF assms(2) _ assms(3)] assms(1) by (auto simp: still_def tidy_def)

lemma still_view:
  assumes "still tree s u"
  shows "tidy tree u" "of_tb u = of_tb s" "tree (of_base u) = tree (of_base s)"
  using assms by (auto simp: still_def)

lemma becomes_still: "still tree s u \<Longrightarrow> becomes tree u s' E N \<Longrightarrow> becomes tree s s' E N"
  by (auto simp: becomes_def still_def)

lemma becomes_calm:
  assumes "becomes tree s u E N" "calm tree m" "m u = (r, s')"
  shows "becomes tree s s' E N"
  using calm_run [OF assms(2) _ assms(3)] assms(1) by (auto simp: becomes_def tidy_def)

lemma tidy_parts:
  assumes "tidy tree s"
  shows "sound tree s" "tree_ok (tree (of_base s))" "well_typed (of_tb s) (tree (of_base s))"
  using assms by (simp_all add: tidy_def)

abbreviation in_tx :: "('b, 'c) ofs \<Rightarrow> ('b, 'c) ofs" where
  "in_tx s \<equiv> s\<lparr>of_rows := None\<rparr>"

lemma in_tx_ready: "tidy tree s \<Longrightarrow> ready tree (in_tx s)"
  by (simp add: ready_def tidy_def sound_def chains_ok_def)

lemma withTx_ok:
  assumes "withTx fn s = (Inr x, s')"
  obtains u es where "fn (in_tx s) = (Inr x, u)" "s' = u\<lparr>of_commits := es\<rparr>"
proof -
  obtain r u where u: "fn (in_tx s) = (r, u)" by fastforce
  have "s' = u\<lparr>of_commits := of_commits s'\<rparr> \<and> r = Inr x"
    using assms u by (auto simp: withTx_def split: sum.splits list.splits option.splits)
  then show ?thesis using that u by blast
qed

lemma withTx_becomes:
  assumes "withTx fn s = (Inr x, s')"
    and "\<And>u. fn (in_tx s) = (Inr x, u) \<Longrightarrow> becomes tree (in_tx s) u E N"
  shows "becomes tree s s' E N"
proof -
  obtain u es where u: "fn (in_tx s) = (Inr x, u)" "s' = u\<lparr>of_commits := es\<rparr>"
    using assms(1) by (rule withTx_ok)
  from assms(2) [OF u(1)] show ?thesis
    by (auto simp: u(2) becomes_def tidy_def sound_def chains_ok_def)
qed

lemma parent_below_next:
  assumes "tidy tree s" "edges tree s p nm = Some i" "tb_next (of_tb s) = Some k"
  shows "p < k"
proof -
  note parts = typed_parts [OF tidy_parts(3) [OF assms(1)]]
  obtain n where "nodes tree s p = Some n" using parts(4) assms(2) unfolding parents_typed_def by blast
  then show ?thesis using node_below_next [OF parts(5)] assms(3) by blast
qed

lemma resolved_type:
  assumes B: "genfs_serves B tree" and s: "tidy tree s" and r: "resolveLocked B p nm s = (Inr x, s')"
    and n: "nodes tree s (rs_ino x) = Some n"
  shows "n_Type n = rs_typ x"
proof -
  note t = typed_parts [OF tidy_parts(3) [OF s]]
  note f = resolve_found [OF B tidy_parts(1) [OF s] r]
  show ?thesis
  proof (cases "rs_overlay x")
    case True
    then show ?thesis using f(2) t(3) n unfolding edges_typed_def by blast
  next
    case False
    then obtain b where "bt_node (tree (of_base s)) (rs_ino x) = Some b" "n_Type b = rs_typ x" using f(3) by blast
    then show ?thesis using backed_node(1) [OF t(2) n] by simp
  qed
qed

lemma resolved_hint:
  assumes "genfs_serves B tree" "sound tree s" "resolveLocked B p nm s = (Inr x, s')" "rs_node x = Some n"
  shows "bt_node (tree (of_base s)) (rs_ino x) = Some n"
  using resolve_found(2,3) [OF assms(1-3)] assms(4) by (cases "rs_overlay x") auto

lemma emptyDir_empty:
  assumes B: "genfs_serves B tree" and s: "tidy tree s" and r: "emptyDirLocked B d s = (Inr x, s')"
  shows "edges tree s d nm = None"
proof -
  let ?t = "of_tb s"
  note sound = tidy_parts(1) [OF s] and dist = typed_parts(1) [OF tidy_parts(3) [OF s]]
  have no: "\<not> list_ex (\<lambda>(nm, (i, ty)). i \<noteq> 0) (names_in d ?t)"
    using r by (auto simp: emptyDirLocked_def run_simps)
  have over: "map_of (names_in d ?t) nm = map_of (tb_oedge ?t) (d, nm)" by (rule names_in_lookup [OF dist])
  show ?thesis
  proof (cases "map_of (tb_oedge ?t) (d, nm)")
    case (Some e)
    then have "(nm, e) \<in> set (names_in d ?t)" using over by (metis map_of_SomeD)
    then show ?thesis using no Some by (cases e) (auto simp: list_ex_iff m_edge_def)
  next
    case None
    show ?thesis
    proof (cases "backed ?t d")
      case True
      then obtain u v es where u: "ensureBaseLocked B d s = (Inr (), u)" "on_base (bo_Readdir B d) u = (Inr es, v)"
        and all: "\<not> list_ex (\<lambda>(nm, n). map_of (names_in d ?t) nm = None) es"
        using r no by (auto simp: emptyDirLocked_def andThen_Inr baseBacked_eq [OF sound] if_run)
      have "tree (of_base u) = tree (of_base s)"
        using reading_run [OF ensureBase_reading [OF B] sound u(1)] by (simp add: same_view_def)
      then have "listing_of (tree (of_base s)) d es"
        using u(2) genfs_Readdir(1) [OF B, of d "of_base u" es] by (auto simp: on_base_def split: prod.splits)
      moreover have "nm \<notin> fst ` set es" using all None over by (auto simp: list_ex_iff)
      ultimately have "bt_edge (tree (of_base s)) d nm = None"
        unfolding listing_of_def by (metis option.exhaust)
      then show ?thesis using None by (simp add: m_edge_def)
    next
      case False
      then show ?thesis using None by (simp add: m_edge_def)
    qed
  qed
qed

section \<open>Removing\<close>

lemma unlink_effect:
  assumes B: "genfs_serves B tree" and s: "tidy tree s" and run: "ov_Unlink B C now p nm s = (Inr (), s')"
  shows "\<exists>i n. edges tree s p nm = Some i \<and> nodes tree s i = Some n \<and> n_Type n \<noteq> TypeDir \<and>
    becomes tree s s' (upd2 (edges tree s) p nm None)
      ((nodes tree s)(i := one_link_less now (bt_node (tree (of_base s)) i) n))"
proof -
  obtain m r v w y x where m: "markDirtyLocked [p] s = (Inr (), m)" "resolveLocked B p nm m = (Inr r, v)"
    and ty: "rs_typ r \<noteq> TypeDir" and w: "bumpSeqLocked [rs_ino r] v = (Inr (), w)"
    and tx: "withTx (andThen (removeEdgeLocked B p nm (rs_overlay r)) (\<lambda>_.
            dropNodeRefLocked B now (rs_ino r) (rs_node r))) w = (Inr x, y)"
    and l: "drop_staged C x y = (Inr (), s')"
    using run by (auto simp: ov_Unlink_def andThen_Inr if_run)
  have m_still: "still tree s m" using still_calm [OF still_refl [OF s] mark_calm m(1)] .
  have w_still: "still tree s w"
    using still_calm [OF still_calm [OF m_still calm_reading [OF resolve_reading [OF B]] m(2)] bump_calm w] .
  note mv = still_view [OF m_still] and wv = still_view [OF w_still]
  have e: "edges tree s p nm = Some (rs_ino r)"
    using resolve_found(1) [OF B tidy_parts(1) [OF mv(1)] m(2)] mv(2,3) by simp
  have ty_n: "n_Type n = rs_typ r" if "nodes tree s (rs_ino r) = Some n" for n
    using resolved_type [OF B mv(1) m(2)] mv(2,3) that by simp
  have hint: "bt_node (tree (of_base s)) (rs_ino r) = Some n" if "rs_node r = Some n" for n
    using resolved_hint [OF B tidy_parts(1) [OF mv(1)] m(2) that] mv(3) by simp
  obtain u0 u1 where u0: "removeEdgeLocked B p nm (rs_overlay r) (in_tx w) = (Inr (), u0)"
    and u1: "dropNodeRefLocked B now (rs_ino r) (rs_node r) u0 = (Inr x, u1)"
    using tx by (elim withTx_ok) (auto simp: andThen_Inr)
  have m0: "moved tree (in_tx w) u0 (upd2 (edges tree s) p nm None) (nodes tree s)"
    using removeEdge_moves [OF B in_tx_ready [OF wv(1)] _ u0] parent_below_next [OF s e] wv(2,3) by simp
  then have v0: "ready tree u0" "nodes tree u0 = nodes tree s" "tree (of_base u0) = tree (of_base s)"
    "edges tree u0 = upd2 (edges tree s) p nm None"
    using wv(3) by (auto simp: moved_def)
  obtain n where n: "nodes tree s (rs_ino r) = Some n" "moved tree u0 u1 (upd2 (edges tree s) p nm None)
    ((nodes tree s)(rs_ino r := one_link_less now (bt_node (tree (of_base s)) (rs_ino r)) n))"
    using dropNodeRef_moves [OF B v0(1) _ _ u1] hint ty_n ty v0 by auto
  have "becomes tree w y (upd2 (edges tree s) p nm None)
    ((nodes tree s)(rs_ino r := one_link_less now (bt_node (tree (of_base s)) (rs_ino r)) n))"
    by (rule withTx_becomes [OF tx]) (use moved_becomes [OF moved_trans [OF m0 n(2)]] u0 u1 in \<open>auto simp: andThen_Inr\<close>)
  from becomes_calm [OF becomes_still [OF w_still this] drop_staged_calm l]
  show ?thesis using e n(1) ty_n [OF n(1)] ty by auto
qed

lemma rmdir_effect:
  assumes B: "genfs_serves B tree" and s: "tidy tree s" and run: "ov_Rmdir B p nm s = (Inr (), s')"
  shows "\<exists>d. edges tree s p nm = Some d \<and> (\<forall>x. edges tree s d x = None) \<and>
    (\<forall>n. nodes tree s d = Some n \<longrightarrow> n_Type n = TypeDir) \<and>
    becomes tree s s' (upd2 ((edges tree s)(d := bt_edge (tree (of_base s)) d)) p nm None)
      ((nodes tree s)(d := bt_node (tree (of_base s)) d))"
proof -
  obtain m r v w x where m: "markDirtyLocked [p] s = (Inr (), m)" "resolveLocked B p nm m = (Inr r, v)"
    and ty: "rs_typ r = TypeDir" and em: "emptyDirLocked B (rs_ino r) v = (Inr (), w)"
    and b: "bumpSeqLocked [rs_ino r] w = (Inr (), x)"
    and tx: "withTx (andThen (removeDirLocked (rs_ino r)) (\<lambda>_. removeEdgeLocked B p nm (rs_overlay r))) x = (Inr (), s')"
    using run by (auto simp: ov_Rmdir_def andThen_Inr if_run)
  have m_still: "still tree s m" using still_calm [OF still_refl [OF s] mark_calm m(1)] .
  have v_still: "still tree s v" using still_calm [OF m_still calm_reading [OF resolve_reading [OF B]] m(2)] .
  have x_still: "still tree s x"
    using still_calm [OF still_calm [OF v_still calm_reading [OF emptyDir_reading [OF B]] em] bump_calm b] .
  note mv = still_view [OF m_still] and vv = still_view [OF v_still] and xv = still_view [OF x_still]
  have e: "edges tree s p nm = Some (rs_ino r)"
    using resolve_found(1) [OF B tidy_parts(1) [OF mv(1)] m(2)] mv(2,3) by simp
  have dir: "n_Type n = TypeDir" if "nodes tree s (rs_ino r) = Some n" for n
    using resolved_type [OF B mv(1) m(2)] mv(2,3) that ty by simp
  have none: "edges tree s (rs_ino r) k = None" for k
    using emptyDir_empty [OF B vv(1) em] vv(2,3) by simp
  let ?E = "(edges tree s)(rs_ino r := bt_edge (tree (of_base s)) (rs_ino r))"
  let ?N = "(nodes tree s)(rs_ino r := bt_node (tree (of_base s)) (rs_ino r))"
  obtain u0 u1 where u0: "removeDirLocked (rs_ino r) (in_tx x) = (Inr (), u0)"
    and u1: "removeEdgeLocked B p nm (rs_overlay r) u0 = (Inr (), u1)"
    using tx by (elim withTx_ok) (auto simp: andThen_Inr)
  have m0: "moved tree (in_tx x) u0 ?E ?N"
    using removeDir_moves [OF in_tx_ready [OF xv(1)] u0] xv(2,3) by simp
  then have v0: "ready tree u0" "edges tree u0 = ?E" "nodes tree u0 = ?N" "tb_next (of_tb u0) = tb_next (of_tb s)"
    using xv by (auto simp: moved_def)
  have m1: "moved tree u0 u1 (upd2 ?E p nm None) ?N"
    using removeEdge_moves [OF B v0(1) _ u1] parent_below_next [OF s e] v0 by simp
  have "becomes tree x s' (upd2 ?E p nm None) ?N"
    by (rule withTx_becomes [OF tx]) (use moved_becomes [OF moved_trans [OF m0 m1]] u0 u1 in \<open>auto simp: andThen_Inr\<close>)
  from becomes_still [OF x_still this] show ?thesis using e none dir by blast
qed

section \<open>Renaming\<close>

lemma persistChain_tables:
  fixes tree :: "'b \<Rightarrow> base_tree" and s :: "('b, 'c) ofs"
  shows "persistChainLocked B ino s = (r, s') \<Longrightarrow> \<exists>t. of_tb s' = (of_tb s)\<lparr>tb_obase := t\<rparr>"
proof (induction "card (- dom (map_of (tb_obase (of_tb s))))" arbitrary: ino s rule: less_induct)
  case less
  show ?case
  proof (cases "ino = RootInode \<or> map_of (tb_obase (of_tb s)) ino \<noteq> None")
    case True
    then have "persistChainLocked B ino s = (Inr (), s)" by (subst persistChainLocked.simps) auto
    then show ?thesis using less.prems by (auto intro: exI [of _ "tb_obase (of_tb s)"])
  next
    case False
    define step where "step =
      (case map_of (of_prov s) ino of
         Some pe \<Rightarrow> (Inr pe, s)
       | None \<Rightarrow>
           (case on_base (bo_Edge B ino) s of
              (Inl e, s') \<Rightarrow> (Inl (Wrapped e), s')
            | (Inr pe, s') \<Rightarrow> (Inr pe, s')))"
    have unfold: "persistChainLocked B ino s = (case step of
        (Inl e, s') \<Rightarrow> (Inl e, s')
      | (Inr pe, s') \<Rightarrow> persistChainLocked B (pe_parent pe)
          (snd (exec (\<lambda>t. t\<lparr>tb_obase := put_row ino pe (tb_obase t)\<rparr>) s')))"
      using False unfolding step_def by (subst persistChainLocked.simps) (simp only: if_False de_Morgan_disj not_False_eq_True)
    obtain q u where q: "step = (q, u)" by fastforce
    have u: "of_tb u = of_tb s"
      using q on_base_tb [of "bo_Edge B ino" s]
      by (auto simp: step_def split: option.splits prod.splits sum.splits)
    show ?thesis
    proof (cases q)
      case (Inl e)
      then show ?thesis using less.prems q u by (auto simp: unfold intro: exI [of _ "tb_obase (of_tb s)"])
    next
      case (Inr pe)
      let ?v = "u\<lparr>of_tb := (of_tb u)\<lparr>tb_obase := put_row ino pe (tb_obase (of_tb u))\<rparr>\<rparr>"
      have run: "persistChainLocked B (pe_parent pe) ?v = (r, s')"
        using less.prems q Inr by (simp add: unfold exec_def changes_def)
      have "insert ino (dom (map_of (tb_obase (of_tb s)))) = dom (map_of (tb_obase (of_tb ?v)))"
        using u by (simp add: map_of_put_row)
      then have "card (- dom (map_of (tb_obase (of_tb ?v)))) < card (- dom (map_of (tb_obase (of_tb s))))"
        using False by (intro psubset_card_mono) auto
      from less.hyps [OF this run] show ?thesis by (auto simp: u)
    qed
  qed
qed

lemma persistChain_moves:
  assumes B: "genfs_serves B tree" and s: "ready tree s" and run: "persistChainLocked B i s = (Inr x, s')"
  shows "moved tree s s' (edges tree s) (nodes tree s)"
proof -
  note parts = ready_parts [OF s]
  have w: "sound tree s'" "of_rows s' = None" "tree (of_base s') = tree (of_base s)"
    using writing_run [OF persistChain_writing [OF B] parts(1,2) run] by auto
  obtain t where t: "of_tb s' = (of_tb s)\<lparr>tb_obase := t\<rparr>" using persistChain_tables [OF run] by blast
  have e: "m_edge (of_tb s') T = m_edge (of_tb s) T" and n: "m_node (of_tb s') T = m_node (of_tb s) T" for T
    by (auto simp: t fun_eq_iff m_edge_def m_node_def backed_def)
  have "well_typed (of_tb s') (tree (of_base s))"
    using parts(4) by (simp add: well_typed_def nodes_typed_def edges_typed_def parents_typed_def next_unused_def e n)
      (simp add: t)
  then show ?thesis using w parts(3) e n by (simp add: moved_def ready_def tidy_def) (simp add: t)
qed

lemma child_below_next:
  assumes s: "tidy tree s" and e: "edges tree s p nm = Some i"
  shows "i \<noteq> 0" "tb_next (of_tb s) = Some k \<Longrightarrow> i < k"
proof -
  note parts = typed_parts [OF tidy_parts(3) [OF s]]
  have "i \<noteq> 0 \<and> (tb_next (of_tb s) = Some k \<longrightarrow> i < k)"
  proof (cases "map_of (tb_oedge (of_tb s)) (p, nm)")
    case (Some x)
    then have "\<exists>ty. map_of (tb_oedge (of_tb s)) (p, nm) = Some (i, ty) \<and> i \<noteq> 0"
      using e by (cases x) (auto simp: m_edge_def split: if_splits)
    then show ?thesis using parts(5) unfolding next_unused_def by blast
  next
    case None
    then have b: "bt_edge (tree (of_base s)) p nm = Some i" using e by (auto simp: m_edge_def split: if_splits)
    then obtain n where "bt_node (tree (of_base s)) i = Some n" "i \<noteq> 0"
      using tidy_parts(2) [OF s] unfolding tree_ok_def by blast
    moreover from this have "\<exists>n. nodes tree s i = Some n" by (simp add: m_node_def split: option.split)
    ultimately show ?thesis using node_below_next [OF parts(5)] by blast
  qed
  then show "i \<noteq> 0" "tb_next (of_tb s) = Some k \<Longrightarrow> i < k" by auto
qed

text \<open>The place a name is moved to, cleared of what it named.\<close>

definition cleared :: "('b \<Rightarrow> base_tree) \<Rightarrow> int64 \<Rightarrow> ('b, 'c) ofs \<Rightarrow> uint64 \<Rightarrow> string
    \<Rightarrow> (uint64 \<Rightarrow> string \<Rightarrow> uint64 option) \<Rightarrow> (uint64 \<Rightarrow> node option) \<Rightarrow> bool" where
  "cleared tree now s p nm E N \<longleftrightarrow>
     (case edges tree s p nm of
        None \<Rightarrow> E = edges tree s \<and> N = nodes tree s
      | Some d \<Rightarrow>
          (\<exists>n. nodes tree s d = Some n \<and> n_Type n \<noteq> TypeDir \<and> E = edges tree s \<and>
             N = (nodes tree s)(d := one_link_less now (bt_node (tree (of_base s)) d) n)) \<or>
          ((\<forall>x. edges tree s d x = None) \<and> (\<forall>n. nodes tree s d = Some n \<longrightarrow> n_Type n = TypeDir) \<and>
             E = (edges tree s)(d := bt_edge (tree (of_base s)) d) \<and>
             N = (nodes tree s)(d := bt_node (tree (of_base s)) d)))"

lemma delete_moves:
  assumes s: "ready tree s" and d: "nodes tree s p = Some d" "n_Type d = TypeDir"
  shows "moved tree s (s\<lparr>of_tb := without_edge p nm (of_tb s)\<rparr>)
    (upd2 (edges tree s) p nm (if backed (of_tb s) p then bt_edge (tree (of_base s)) p nm else None)) (nodes tree s)"
proof (rule moved_tables [OF s refl])
  note parts = ready_parts [OF s]
  let ?T = "tree (of_base s)"
  have e: "m_edge (without_edge p nm (of_tb s)) ?T =
      upd2 (edges tree s) p nm (if backed (of_tb s) p then bt_edge ?T p nm else None)"
    by (intro ext) (auto simp: m_edge_def without_edge_def map_of_drop_rows backed_def upd2_app)
  then show "m_edge (without_edge p nm (of_tb s)) ?T =
      upd2 (edges tree s) p nm (if backed (of_tb s) p then bt_edge ?T p nm else None)" .
  show "well_typed (without_edge p nm (of_tb s)) ?T"
  proof (rule typed_edges [OF parts(4) without_edge_def])
    show "distinct (map fst (drop_rows (\<lambda>k. k = (p, nm)) (tb_oedge (of_tb s))))"
      using typed_parts(1) [OF parts(4)] by (rule distinct_drop_rows)
    show "edges tree s q k \<noteq> None \<or> (\<exists>n. nodes tree s q = Some n \<and> n_Type n = TypeDir)"
      if "m_edge (without_edge p nm (of_tb s)) ?T q k = Some i" for q k i
      using that d by (auto simp: e upd2_app split: if_splits)
  qed (auto simp: map_of_drop_rows split: if_splits)
qed simp_all

lemma move_over_moves:
  assumes B: "genfs_serves B tree" and s: "ready tree s" and par: "nodes tree s p = Some pd" "n_Type pd = TypeDir"
    and e: "edges tree s p nm = Some (rs_ino d)"
    and ty: "\<And>n. nodes tree s (rs_ino d) = Some n \<Longrightarrow> n_Type n = rs_typ d"
    and hint: "\<And>n. rs_node d = Some n \<Longrightarrow> bt_node (tree (of_base s)) (rs_ino d) = Some n"
    and none: "rs_typ d = TypeDir \<Longrightarrow> (\<forall>x. edges tree s (rs_ino d) x = None)"
    and run: "move_over B now p nm (Some d) s = (Inr st, s')"
  shows "\<exists>E N x. cleared tree now s p nm E N \<and> moved tree s s' (upd2 E p nm x) N \<and> p \<noteq> rs_ino d"
proof -
  let ?i = "rs_ino d"
  have apart: "p \<noteq> ?i" using par ty none e by (cases "rs_typ d = TypeDir") auto
  obtain u where u: "whenever (rs_overlay d) (deleteOEdge p nm) s = (Inr (), u)"
    and rest: "(if rs_typ d = TypeDir then andThen (removeDirLocked ?i) (\<lambda>_. ret 0)
            else dropNodeRefLocked B now ?i (rs_node d)) u = (Inr st, s')"
    using run by (auto simp: move_over_def andThen_Inr)
  obtain x where m: "moved tree s u (upd2 (edges tree s) p nm x) (nodes tree s)"
  proof (cases "rs_overlay d")
    case True
    then show ?thesis using that u delete_moves [OF s par, of nm] by (auto simp: whenever_def)
  next
    case False
    have "upd2 (edges tree s) p nm (edges tree s p nm) = edges tree s" by (simp add: upd2_def)
    then show ?thesis using False that [of "edges tree s p nm"] u moved_refl [OF s] by (auto simp: whenever_def)
  qed
  then have v: "ready tree u" "edges tree u = upd2 (edges tree s) p nm x" "nodes tree u = nodes tree s"
    "tree (of_base u) = tree (of_base s)" by (auto simp: moved_def)
  show ?thesis
  proof (cases "rs_typ d = TypeDir")
    case True
    then have r: "removeDirLocked ?i u = (Inr (), s')" using rest by (auto simp: andThen_Inr)
    have "(upd2 (edges tree s) p nm x)(?i := bt_edge (tree (of_base s)) ?i) =
      upd2 ((edges tree s)(?i := bt_edge (tree (of_base s)) ?i)) p nm x"
      using apart by (simp add: upd2_def fun_upd_twist)
    then have "moved tree u s' (upd2 ((edges tree s)(?i := bt_edge (tree (of_base s)) ?i)) p nm x)
        ((nodes tree s)(?i := bt_node (tree (of_base s)) ?i))"
      using removeDir_moves [OF v(1) r] v by simp
    then show ?thesis using moved_trans [OF m] none [OF True] ty True e apart by (fastforce simp: cleared_def)
  next
    case False
    then obtain n where "nodes tree s ?i = Some n" "moved tree u s' (upd2 (edges tree s) p nm x)
        ((nodes tree s)(?i := one_link_less now (bt_node (tree (of_base s)) ?i) n))"
      using dropNodeRef_moves [OF B v(1), of "rs_node d" ?i now st s'] rest hint ty v by auto
    then show ?thesis using moved_trans [OF m] ty False e apart
      by (intro exI [of _ "edges tree s"] exI [of _ "(nodes tree s)(?i := one_link_less now (bt_node (tree (of_base s)) ?i) n)"]
          exI [of _ x]) (auto simp: cleared_def)
  qed
qed

lemma rename_tx_moves:
  assumes B: "genfs_serves B tree" and s: "ready tree s" and par: "nodes tree s p' = Some pd" "n_Type pd = TypeDir"
    and src: "edges tree s p nm = Some (rs_ino r)" "\<And>n. nodes tree s (rs_ino r) = Some n \<Longrightarrow> n_Type n = rs_typ r"
    and free: "dst = None \<Longrightarrow> edges tree s p' nm' = None"
    and dst: "\<And>d. dst = Some d \<Longrightarrow> edges tree s p' nm' = Some (rs_ino d) \<and> rs_ino d \<noteq> rs_ino r \<and>
      (\<forall>n. nodes tree s (rs_ino d) = Some n \<longrightarrow> n_Type n = rs_typ d) \<and>
      (\<forall>n. rs_node d = Some n \<longrightarrow> bt_node (tree (of_base s)) (rs_ino d) = Some n) \<and>
      (rs_typ d = TypeDir \<longrightarrow> (\<forall>x. edges tree s (rs_ino d) x = None))"
    and run: "rename_tx B now p nm r p' nm' dst s = (Inr st, s')"
  shows "\<exists>E N. cleared tree now s p' nm' E N \<and>
    moved tree s s' (upd2 (upd2 E p nm None) p' nm' (Some (rs_ino r))) N"
proof -
  have t: "tidy tree s" using s by (simp add: ready_def)
  obtain u v where u: "move_over B now p' nm' dst s = (Inr st, u)"
    and v: "(if rs_overlay r then removeEdgeLocked B p nm True
        else andThen (persistChainLocked B (rs_ino r)) (\<lambda>_. putWhiteout p nm)) u = (Inr (), v)"
    and s': "s' = v\<lparr>of_tb := with_edge p' nm' (rs_ino r) (rs_typ r) (of_tb v)\<rparr>"
    using run by (auto simp: rename_tx_def andThen_Inr)
  have "\<exists>E N x. cleared tree now s p' nm' E N \<and> moved tree s u (upd2 E p' nm' x) N \<and>
      N (rs_ino r) = nodes tree s (rs_ino r) \<and> N p' = nodes tree s p'"
  proof (cases dst)
    case None
    have "upd2 (edges tree s) p' nm' None = edges tree s" using free None by (auto simp: fun_eq_iff upd2_app)
    then show ?thesis using None u free moved_refl [OF s] 
      by (intro exI [of _ "edges tree s"] exI [of _ "nodes tree s"] exI [of _ None]) (auto simp: move_over_def cleared_def)
  next
    case (Some d)
    note D = dst [OF Some]
    obtain E N x where x: "cleared tree now s p' nm' E N" "moved tree s u (upd2 E p' nm' x) N" "p' \<noteq> rs_ino d"
      using move_over_moves [OF B s par, of nm' d now st u] D u Some by auto
    then have "N q = nodes tree s q" if "q \<noteq> rs_ino d" for q
      using D that by (auto simp: cleared_def)
    then show ?thesis using x D by metis
  qed
  then obtain E N x where c: "cleared tree now s p' nm' E N" and mu: "moved tree s u (upd2 E p' nm' x) N"
    and N: "N (rs_ino r) = nodes tree s (rs_ino r)" "N p' = nodes tree s p'" by blast
  have U: "ready tree u" "edges tree u = upd2 E p' nm' x" "nodes tree u = N" "tb_next (of_tb u) = tb_next (of_tb s)"
    using mu by (auto simp: moved_def)
  have k: "p < k" if "tb_next (of_tb s) = Some k" for k using parent_below_next [OF t src(1) that] .
  have mv: "moved tree u v (upd2 (upd2 E p' nm' x) p nm None) N"
  proof (cases "rs_overlay r")
    case True
    then show ?thesis using removeEdge_moves [OF B U(1), of p nm True "()" v] v k U by auto
  next
    case False
    then obtain w where w: "persistChainLocked B (rs_ino r) u = (Inr (), w)" "putWhiteout p nm w = (Inr (), v)"
      using v by (auto simp: andThen_Inr)
    have mw: "moved tree u w (upd2 E p' nm' x) N" using persistChain_moves [OF B U(1) w(1)] U by simp
    then have W: "ready tree w" "edges tree w = upd2 E p' nm' x" "nodes tree w = N" "tb_next (of_tb w) = tb_next (of_tb s)"
      using U by (auto simp: moved_def)
    show ?thesis using moved_trans [OF mw whiteout_moves [OF W(1), of p nm 0]] w(2) k W by auto
  qed
  then have V: "ready tree v" "edges tree v = upd2 (upd2 E p' nm' x) p nm None" "nodes tree v = N"
    "tb_next (of_tb v) = tb_next (of_tb s)" using U by (auto simp: moved_def)
  have "p' < k" if "tb_next (of_tb s) = Some k" for k
    using node_below_next [OF typed_parts(5) [OF tidy_parts(3) [OF t]] par(1) that] .
  then have last: "moved tree v s' (upd2 (upd2 (upd2 E p' nm' x) p nm None) p' nm' (Some (rs_ino r))) N"
    unfolding s' using edge_moves [OF V(1), of "rs_ino r" p' "rs_typ r" pd nm'] child_below_next [OF t src(1)] src(2) par N V by simp
  have "upd2 (upd2 (upd2 E p' nm' x) p nm None) p' nm' y = upd2 (upd2 E p nm None) p' nm' y" for y
    by (intro ext) (simp add: upd2_app)
  then show ?thesis using c moved_trans [OF mu moved_trans [OF mv last]] by auto
qed

text \<open>What \<open>Rename\<close> knows of the name it replaces.\<close>

definition replaceable :: "('b \<Rightarrow> base_tree) \<Rightarrow> ('b, 'c) ofs \<Rightarrow> uint64 \<Rightarrow> string \<Rightarrow> uint64 \<Rightarrow> resolved \<Rightarrow> bool" where
  "replaceable tree s p nm i d \<longleftrightarrow> edges tree s p nm = Some (rs_ino d) \<and> rs_ino d \<noteq> i \<and>
     (\<forall>n. nodes tree s (rs_ino d) = Some n \<longrightarrow> n_Type n = rs_typ d) \<and>
     (\<forall>n. rs_node d = Some n \<longrightarrow> bt_node (tree (of_base s)) (rs_ino d) = Some n) \<and>
     (rs_typ d = TypeDir \<longrightarrow> (\<forall>x. edges tree s (rs_ino d) x = None))"

lemma rename_finish:
  assumes B: "genfs_serves B tree" and par: "nodes tree s p' = Some pd" "n_Type pd = TypeDir"
    and src: "edges tree s p nm = Some (rs_ino r)" "\<And>n. nodes tree s (rs_ino r) = Some n \<Longrightarrow> n_Type n = rs_typ r"
    and y: "still tree s y" "andThen (withTx (rename_tx B now p nm r p' nm' dst)) (drop_staged C) y = (Inr (), s')"
    and free: "dst = None \<Longrightarrow> edges tree s p' nm' = None"
    and dst: "\<And>d. dst = Some d \<Longrightarrow> replaceable tree s p' nm' (rs_ino r) d"
  shows "\<exists>E N. cleared tree now s p' nm' E N \<and>
    becomes tree s s' (upd2 (upd2 E p nm None) p' nm' (Some (rs_ino r))) N"
proof -
  note yv = still_view [OF y(1)]
  obtain st z where z: "withTx (rename_tx B now p nm r p' nm' dst) y = (Inr st, z)" "drop_staged C st z = (Inr (), s')"
    using y(2) by (auto simp: andThen_Inr)
  obtain u es where u: "rename_tx B now p nm r p' nm' dst (in_tx y) = (Inr st, u)" "z = u\<lparr>of_commits := es\<rparr>"
    using z(1) by (rule withTx_ok)
  obtain E N where EN: "cleared tree now (in_tx y) p' nm' E N"
    "moved tree (in_tx y) u (upd2 (upd2 E p nm None) p' nm' (Some (rs_ino r))) N"
    using rename_tx_moves [OF B in_tx_ready [OF yv(1)] _ _ _ _ _ _ u(1), of pd] par src free dst yv(2,3)
    by (auto simp: replaceable_def)
  have tx_same: "of_tb (in_tx y) = of_tb s" "tree (of_base (in_tx y)) = tree (of_base s)"
    using yv(2,3) by simp_all
  have "becomes tree y z (upd2 (upd2 E p nm None) p' nm' (Some (rs_ino r))) N"
    by (rule withTx_becomes [OF z(1)]) (use moved_becomes [OF EN(2)] u(1) in auto)
  from becomes_calm [OF becomes_still [OF y(1) this] drop_staged_calm z(2)]
  have "becomes tree s s' (upd2 (upd2 E p nm None) p' nm' (Some (rs_ino r))) N" .
  moreover have "cleared tree now s p' nm' E N"
    using EN(1) unfolding cleared_def tx_same .
  ultimately show ?thesis by blast
qed

lemma replace_checked:
  assumes B: "genfs_serves B tree" and w: "still tree s w" and q: "resolveLocked B p nm w = (Inr d, x)"
    and i: "rs_ino d \<noteq> rs_ino r" and run: "may_replace B r d x = (Inr (), y)"
  shows "replaceable tree s p nm (rs_ino r) d" "still tree s y"
proof -
  have x: "still tree s x" using still_calm [OF w calm_reading [OF resolve_reading [OF B]] q] .
  note wv = still_view [OF w]
  have "edges tree s (rs_ino d) k = None" if dir: "rs_typ d = TypeDir" for k
  proof -
    obtain a where a: "bumpSeqLocked [rs_ino d] x = (Inr (), a)" "emptyDirLocked B (rs_ino d) a = (Inr (), y)"
      using run dir by (auto simp: may_replace_def andThen_Inr if_run split: if_splits)
    have "still tree s a" using still_calm [OF x bump_calm a(1)] .
    from emptyDir_empty [OF B still_view(1) [OF this] a(2)] still_view(2,3) [OF this] show ?thesis by simp
  qed
  moreover have "n_Type n = rs_typ d" if "nodes tree s (rs_ino d) = Some n" for n
    using resolved_type [OF B wv(1) q] wv(2,3) that by simp
  moreover have "bt_node (tree (of_base s)) (rs_ino d) = Some n" if "rs_node d = Some n" for n
    using resolved_hint [OF B tidy_parts(1) [OF wv(1)] q that] wv(3) by simp
  moreover have "edges tree s p nm = Some (rs_ino d)"
    using resolve_found(1) [OF B tidy_parts(1) [OF wv(1)] q] wv(2,3) by simp
  ultimately show "replaceable tree s p nm (rs_ino r) d" using i by (simp add: replaceable_def)
  show "still tree s y" using still_calm [OF x may_replace_calm [OF B] run] .
qed

lemma rename_effect:
  assumes B: "genfs_serves B tree" and s: "tidy tree s" and run: "ov_Rename B C now p nm p' nm' s = (Inr (), s')"
    and par: "nodes tree s p' = Some pd" "n_Type pd = TypeDir"
  shows "\<exists>i. edges tree s p nm = Some i \<and>
    (if (p, nm) = (p', nm') \<or> edges tree s p' nm' = Some i then becomes tree s s' (edges tree s) (nodes tree s)
     else \<exists>E N. cleared tree now s p' nm' E N \<and> becomes tree s s' (upd2 (upd2 E p nm None) p' nm' (Some i)) N)"
proof -
  obtain m r v where m: "markDirtyLocked [p, p'] s = (Inr (), m)" "resolveLocked B p nm m = (Inr r, v)"
    and rest: "(if p = p' \<and> nm = nm' then ret ()
       else andThen (markDirtyLocked [rs_ino r]) (\<lambda>_.
         attempt (resolveLocked B p' nm') (\<lambda>found.
           case found of
             Inl e \<Rightarrow>
               if \<not> is_err ErrNotExist e then fail e
               else andThen (withTx (rename_tx B now p nm r p' nm' None)) (drop_staged C)
           | Inr dst \<Rightarrow>
               if rs_ino dst = rs_ino r then ret ()
               else andThen (may_replace B r dst) (\<lambda>_.
                 andThen (withTx (rename_tx B now p nm r p' nm' (Some dst))) (drop_staged C))))) v = (Inr (), s')"
    using run by (auto simp: ov_Rename_def andThen_Inr)
  have m_still: "still tree s m" using still_calm [OF still_refl [OF s] mark_calm m(1)] .
  have v_still: "still tree s v" using still_calm [OF m_still calm_reading [OF resolve_reading [OF B]] m(2)] .
  note mv = still_view [OF m_still]
  have e: "edges tree s p nm = Some (rs_ino r)"
    using resolve_found(1) [OF B tidy_parts(1) [OF mv(1)] m(2)] mv(2,3) by simp
  have ty: "n_Type n = rs_typ r" if "nodes tree s (rs_ino r) = Some n" for n
    using resolved_type [OF B mv(1) m(2)] mv(2,3) that by simp
  show ?thesis
  proof (cases "p = p' \<and> nm = nm'")
    case True
    then show ?thesis using rest v_still e by (auto simp: still_def becomes_def)
  next
    case False
    then obtain w where w: "markDirtyLocked [rs_ino r] v = (Inr (), w)"
      using rest by (simp only: if_False) (auto simp: andThen_Inr)
    have w_still: "still tree s w" using still_calm [OF v_still mark_calm w] .
    note wv = still_view [OF w_still]
    consider (free) c x where "resolveLocked B p' nm' w = (Inl c, x)" "is_err ErrNotExist c"
        "andThen (withTx (rename_tx B now p nm r p' nm' None)) (drop_staged C) x = (Inr (), s')"
      | (same) d where "resolveLocked B p' nm' w = (Inr d, s')" "rs_ino d = rs_ino r"
      | (taken) d x y where "resolveLocked B p' nm' w = (Inr d, x)" "rs_ino d \<noteq> rs_ino r" "may_replace B r d x = (Inr (), y)"
        "andThen (withTx (rename_tx B now p nm r p' nm' (Some d))) (drop_staged C) y = (Inr (), s')"
      using rest w False by (auto simp: run_simps)
    then show ?thesis
    proof cases
      case free
      have x: "still tree s x" using still_calm [OF w_still calm_reading [OF resolve_reading [OF B]] free(1)] .
      have "edges tree s p' nm' = None"
        using resolve_absent [OF B tidy_parts(1) [OF wv(1)] free(1,2)] wv(2,3) by simp
      then show ?thesis using rename_finish [OF B par e ty x free(3)] e False by auto
    next
      case same
      have "still tree s s'" using still_calm [OF w_still calm_reading [OF resolve_reading [OF B]] same(1)] .
      moreover have "edges tree s p' nm' = Some (rs_ino r)"
        using resolve_found(1) [OF B tidy_parts(1) [OF wv(1)] same(1)] wv(2,3) same(2) by simp
      ultimately show ?thesis using e by (auto simp: still_def becomes_def)
    next
      case taken
      note d = replace_checked [OF B w_still taken(1-3)]
      then have "edges tree s p' nm' \<noteq> Some (rs_ino r)" by (simp add: replaceable_def)
      then show ?thesis using rename_finish [OF B par e ty d(2) taken(4)] d(1) e False by auto
    qed
  qed
qed

end
