(* ===== verification/Overlay_Births.thy ===== *)
theory Overlay_Births
  imports Overlay_Effects
begin

text \<open>
  The other half of the refinement of \<open>internal/overlay/write.go\<close>: names and inodes that come to be
  (\<open>Create\<close>, \<open>Mkdir\<close>, \<open>Symlink\<close>, \<open>Mknod\<close>, \<open>Link\<close>), attributes and contents that change, and from both
  halves that every request keeps the rows well typed.
\<close>

section \<open>Changes outside the tree\<close>

definition same_rows :: "tables \<Rightarrow> tables \<Rightarrow> bool" where
  "same_rows t t' \<longleftrightarrow> tb_onode t' = tb_onode t \<and> tb_oedge t' = tb_oedge t \<and> tb_next t' = tb_next t"

lemma same_rows_view:
  assumes "same_rows t t'"
  shows "m_edge t' T = m_edge t T" "m_node t' T = m_node t T" "well_typed t' T = well_typed t T"
proof -
  show e: "m_edge t' T = m_edge t T" and n: "m_node t' T = m_node t T"
    using assms by (auto simp: same_rows_def m_edge_def m_node_def backed_def fun_eq_iff)
  show "well_typed t' T = well_typed t T"
    using assms unfolding well_typed_def nodes_typed_def edges_typed_def parents_typed_def next_unused_def e n
    by (simp add: same_rows_def)
qed

lemma same_rows_moves:
  assumes "writing tree m" "ready tree s" "m s = (r, s')" "same_rows (of_tb s) (of_tb s')"
  shows "moved tree s s' (edges tree s) (nodes tree s)"
proof -
  note parts = ready_parts [OF assms(2)]
  have "sound tree s'" "of_rows s' = None" "tree (of_base s') = tree (of_base s)"
    using writing_run [OF assms(1) parts(1,2) assms(3)] by auto
  then show ?thesis
    using parts same_rows_view [OF assms(4), of "tree (of_base s)"] assms(4)
    by (simp add: moved_def ready_def tidy_def) (simp add: same_rows_def)
qed

lemma same_rows_refl: "same_rows t t"
  by (simp add: same_rows_def)

lemma rewrite_moves:
  assumes s: "ready tree s" and m: "nodes tree s i = Some n"
    and r: "n_Inode (or_node r) = i" "n_Type (or_node r) = n_Type n" "or_base r \<longleftrightarrow> bt_node (tree (of_base s)) i \<noteq> None"
  shows "moved tree s (s\<lparr>of_tb := with_node r (of_tb s)\<rparr>) (edges tree s) ((nodes tree s)(i \<mapsto> or_node r))"
  using typed_rewrite [OF ready_parts(4,3) [OF s] m r] r(1)
  by (intro moved_tables [OF s refl]) (simp_all add: m_node_with_node)

lemma materialize_moves:
  assumes B: "genfs_serves B tree" and s: "ready tree s" and run: "materializeAttrsLocked B i s = (Inr r, s')"
  shows "moved tree s s' (edges tree s) (nodes tree s)" "nodes tree s i = Some (or_node r)"
    "n_Inode (or_node r) = i" "or_base r \<longleftrightarrow> bt_node (tree (of_base s)) i \<noteq> None"
proof -
  note parts = ready_parts [OF s]
  have "moved tree s s' (edges tree s) (nodes tree s) \<and> nodes tree s i = Some (or_node r) \<and>
    n_Inode (or_node r) = i \<and> (or_base r \<longleftrightarrow> bt_node (tree (of_base s)) i \<noteq> None)"
  proof (cases "map_of (tb_onode (of_tb s)) i")
    case (Some q)
    then have "r = q" "s' = s" using run by (auto simp: materializeAttrsLocked_def run_simps)
    then show ?thesis using row_typed [OF typed_parts(2) [OF parts(4)] Some] moved_refl [OF s] Some
      by (simp add: m_node_def)
  next
    case None
    then obtain u v n where u: "ensureBaseLocked B i s = (Inr (), u)" "on_base (bo_GetAttr B i) u = (Inr n, v)"
      and r: "r = \<lparr>or_node = n, or_base = True\<rparr>" "s' = v\<lparr>of_tb := with_node r (of_tb v)\<rparr>"
      using run by (auto simp: materializeAttrsLocked_def run_simps)
    have a: "attrsLocked B i None s = (Inr n, v)"
      using u None parts(2) by (simp add: attrsLocked_def andThen_def asks_def onodeLocked_def cur_def)
    have n: "nodes tree s i = Some n" using attrs_answer [OF B parts(1) a] by simp
    then have b: "bt_node (tree (of_base s)) i = Some n" using None by (simp add: m_node_def)
    have i: "n_Inode n = i" using parts(3) b by (simp add: tree_ok_def)
    have m: "moved tree s v (edges tree s) (nodes tree s)" by (rule moved_reading [OF attrs_reading [OF B] s a])
    then have v: "ready tree v" "edges tree v = edges tree s" "nodes tree v = nodes tree s" "tree (of_base v) = tree (of_base s)"
      by (auto simp: moved_def)
    have "moved tree v s' (edges tree s) (nodes tree s)"
      using rewrite_moves [OF v(1), of i n r] v n b i r by (simp add: fun_upd_idem)
    then show ?thesis using moved_trans [OF m] n i b r by simp
  qed
  then show "moved tree s s' (edges tree s) (nodes tree s)" "nodes tree s i = Some (or_node r)"
    "n_Inode (or_node r) = i" "or_base r \<longleftrightarrow> bt_node (tree (of_base s)) i \<noteq> None" by auto
qed

section \<open>New inodes\<close>

definition other_rows :: "(('b, 'c) ofs, 'a) prog \<Rightarrow> bool" where
  "other_rows m \<longleftrightarrow> (\<forall>s. same_rows (of_tb s) (of_tb (snd (m s))))"

lemma other_rows_andThen: "other_rows m \<Longrightarrow> (\<And>x. other_rows (f x)) \<Longrightarrow> other_rows (andThen m f)"
  unfolding other_rows_def andThen_def same_rows_def by (auto split: prod.split sum.split) (metis snd_conv)+

lemma other_rows_basic:
  "other_rows (ret x)" "other_rows (fail e)" "other_rows (on_content g)" "other_rows (on_base h)" "other_rows (asks k)"
  "(\<And>t. same_rows t (f t)) \<Longrightarrow> other_rows (exec f)"
  by (simp_all add: other_rows_def ret_def fail_def on_content_def on_base_def asks_def exec_def changes_def same_rows_refl
      split: prod.split)

lemma born_moves:
  assumes s: "ready tree s" and k: "tb_next (of_tb s) = Some k" "k + 1 \<noteq> 0"
    and par: "nodes tree s p = Some d" "n_Type d = TypeDir" and n: "n_Inode n = k"
    and s': "s' = s\<lparr>of_tb := with_edge p nm k (n_Type n) (with_node \<lparr>or_node = n, or_base = False\<rparr>
       ((of_tb s)\<lparr>tb_next := Some (k + 1)\<rparr>))\<rparr>"
  shows "ready tree s' \<and> tree (of_base s') = tree (of_base s) \<and> edges tree s' = upd2 (edges tree s) p nm (Some k) \<and>
    nodes tree s' = (nodes tree s)(k \<mapsto> n) \<and> nodes tree s k = None \<and> k \<noteq> p"
proof -
  note parts = ready_parts [OF s]
  let ?T = "tree (of_base s)" and ?t = "(of_tb s)\<lparr>tb_next := Some (k + 1)\<rparr>"
  let ?r = "\<lparr>or_node = n, or_base = False\<rparr>"
  note al = typed_alloc [OF parts(4) k, of ] and un = typed_parts(5) [OF parts(4)]
  have lt: "k < k + 1" using k(2) unatSuc [of k] by (simp add: word_less_nat_alt add.commute)
  have fresh: "k \<noteq> 0" "nodes tree s k = None" "\<And>q m i ty. map_of (tb_oedge (of_tb s)) (q, m) = Some (i, ty) \<Longrightarrow> i < k"
    using un k(1) unfolding next_unused_def by (auto, blast)
  have b: "bt_node ?T k = None" using fresh(2) by (simp add: m_node_def split: option.splits)
  have pk: "p < k" using node_below_next [OF un par(1) k(1)] .
  have w1: "well_typed (with_node ?r ?t) ?T"
  proof (rule typed_with_node [OF al(1) parts(3)])
    show "n_Inode (or_node ?r) = k" "k \<noteq> 0" using n fresh(1) by simp_all
    show "ty = n_Type (or_node ?r)" if "map_of (tb_oedge ?t) (q, m) = Some (k, ty)" for q m ty
      using fresh(3) [of q m k ty] that by simp
  qed (use b al(3) fresh(2) lt in auto)
  have e1: "m_edge (with_node ?r ?t) ?T = edges tree s"
    using m_edge_with_node [OF parts(3) typed_parts(2) [OF al(1)], of ?r] b n al(2) by simp
  have n1: "m_node (with_node ?r ?t) ?T = (nodes tree s)(k \<mapsto> n)"
    using al(3) n by (simp add: m_node_with_node)
  have "well_typed (with_edge p nm k (n_Type n) (with_node ?r ?t)) ?T"
    by (rule typed_with_edge [OF w1 fresh(1)]) (use n1 pk lt par in \<open>auto intro: less_trans\<close>)
  then have "ready tree s'" using parts(1-3) by (simp add: s' ready_def tidy_def sound_def chains_ok_def)
  then show ?thesis using fresh(1,2) e1 n1 pk by (auto simp: s' m_edge_with_edge)
qed

lemma checked_place:
  assumes B: "genfs_serves B tree" and s: "tidy tree s"
    and c: "checkParentDirLocked B p s = (Inr (), u)" "checkAbsentLocked B p nm u = (Inr (), v)"
  shows "still tree s v" "\<exists>d. nodes tree s p = Some d \<and> n_Type d = TypeDir" "edges tree s p nm = None"
proof -
  obtain n where n: "attrsLocked B p None s = (Inr n, u)" "n_Type n = TypeDir"
    using c(1) by (auto simp: checkParentDirLocked_def andThen_Inr if_run split: if_splits)
  then show "\<exists>d. nodes tree s p = Some d \<and> n_Type d = TypeDir"
    using attrs_answer [OF B tidy_parts(1) [OF s] n(1)] by auto
  have u: "still tree s u" using still_calm [OF still_refl [OF s] calm_reading [OF checkParent_reading [OF B]] c(1)] .
  show "still tree s v" using still_calm [OF u calm_reading [OF checkAbsent_reading [OF B]] c(2)] .
  obtain e where e: "resolveLocked B p nm u = (Inl e, v)" "is_err ErrNotExist e"
    using c(2) by (auto simp: checkAbsentLocked_def run_simps)
  show "edges tree s p nm = None"
    using resolve_absent [OF B tidy_parts(1) [OF still_view(1) [OF u]] e] still_view(2,3) [OF u] by simp
qed

definition space_left :: "('b, 'c) ofs \<Rightarrow> bool" where
  "space_left s \<longleftrightarrow> (\<forall>k. tb_next (of_tb s) = Some k \<longrightarrow> k + 1 \<noteq> 0)"

lemma createNode_becomes:
  assumes B: "genfs_serves B tree" and s: "tidy tree s" and k: "space_left s"
    and extra: "\<And>i. writing tree (extra i)" "\<And>i. other_rows (extra i)"
    and run: "createNodeLocked B p nm tmpl extra s = (Inr out, s')"
  shows "\<exists>k d. tb_next (of_tb s) = Some k \<and> nodes tree s p = Some d \<and> n_Type d = TypeDir \<and>
    edges tree s p nm = None \<and> nodes tree s k = None \<and> out = tmpl\<lparr>n_Inode := k\<rparr> \<and>
    becomes tree s s' (upd2 (edges tree s) p nm (Some k)) ((nodes tree s)(k \<mapsto> out))"
proof -
  obtain u v w where c: "checkParentDirLocked B p s = (Inr (), u)" "checkAbsentLocked B p nm u = (Inr (), v)"
    and tx: "withTx (andThen allocInodeLocked (\<lambda>ino.
          andThen (putONode \<lparr>or_node = tmpl\<lparr>n_Inode := ino\<rparr>, or_base = False\<rparr>) (\<lambda>_.
          andThen (putOEdge p nm ino (n_Type tmpl)) (\<lambda>_.
          andThen (extra ino) (\<lambda>_. ret (tmpl\<lparr>n_Inode := ino\<rparr>)))))) v = (Inr out, w)"
    and m: "markDirtyLocked [p, n_Inode out] w = (Inr (), s')"
    using run by (auto simp: createNodeLocked_def andThen_Inr)
  note place = checked_place [OF B s c]
  note vv = still_view [OF place(1)]
  obtain d where d: "nodes tree s p = Some d" "n_Type d = TypeDir" using place(2) by blast
  obtain x es where x: "andThen allocInodeLocked (\<lambda>ino.
          andThen (putONode \<lparr>or_node = tmpl\<lparr>n_Inode := ino\<rparr>, or_base = False\<rparr>) (\<lambda>_.
          andThen (putOEdge p nm ino (n_Type tmpl)) (\<lambda>_.
          andThen (extra ino) (\<lambda>_. ret (tmpl\<lparr>n_Inode := ino\<rparr>))))) (in_tx v) = (Inr out, x)"
    "w = x\<lparr>of_commits := es\<rparr>"
    using tx by (rule withTx_ok)
  then obtain q where q: "tb_next (of_tb s) = Some q" "out = tmpl\<lparr>n_Inode := q\<rparr>"
    and ex: "extra q ((in_tx v)\<lparr>of_tb := with_edge p nm q (n_Type out) (with_node \<lparr>or_node = out, or_base = False\<rparr>
       ((of_tb (in_tx v))\<lparr>tb_next := Some (q + 1)\<rparr>))\<rparr>) = (Inr (), x)"
    using vv(2) by (auto simp: allocInodeLocked_def run_simps exec_def)
  let ?y = "(in_tx v)\<lparr>of_tb := with_edge p nm q (n_Type out) (with_node \<lparr>or_node = out, or_base = False\<rparr>
       ((of_tb (in_tx v))\<lparr>tb_next := Some (q + 1)\<rparr>))\<rparr>"
  have y: "ready tree ?y \<and> tree (of_base ?y) = tree (of_base (in_tx v)) \<and>
      edges tree ?y = upd2 (edges tree (in_tx v)) p nm (Some q) \<and>
      nodes tree ?y = (nodes tree (in_tx v))(q \<mapsto> out) \<and> nodes tree (in_tx v) q = None \<and> q \<noteq> p"
    by (rule born_moves [OF in_tx_ready [OF vv(1)]]) (use q k d vv in \<open>auto simp: space_left_def\<close>)
  have "same_rows (of_tb ?y) (of_tb x)"
    using extra(2) [of q, unfolded other_rows_def, rule_format, of ?y] unfolding ex snd_conv .
  then have "moved tree ?y x (edges tree ?y) (nodes tree ?y)"
    by (rule same_rows_moves [OF extra(1) conjunct1 [OF y] ex])
  then have "becomes tree (in_tx v) x (upd2 (edges tree s) p nm (Some q)) ((nodes tree s)(q \<mapsto> out))"
    using y vv by (auto simp: moved_def ready_def becomes_def)
  then have "becomes tree v w (upd2 (edges tree s) p nm (Some q)) ((nodes tree s)(q \<mapsto> out))"
    using x by (intro withTx_becomes [OF tx]) auto
  then show ?thesis
    using becomes_calm [OF becomes_still [OF place(1)] mark_calm m] q d place(3) y vv by auto
qed

lemma create_effect:
  assumes B: "genfs_serves B tree" and s: "tidy tree s" and k: "space_left s"
    and run: "ov_Create B C now p nm mode uid gid s = (Inr out, s') \<or>
      ov_Mkdir B now p nm mode uid gid s = (Inr out, s') \<or>
      ov_Symlink B now p nm target uid gid s = (Inr out, s') \<or>
      ov_Mknod B now p nm ty mode uid gid rdev s = (Inr out, s')"
  shows "\<exists>k d. tb_next (of_tb s) = Some k \<and> nodes tree s p = Some d \<and> n_Type d = TypeDir \<and>
    edges tree s p nm = None \<and> nodes tree s k = None \<and> n_Inode out = k \<and>
    becomes tree s s' (upd2 (edges tree s) p nm (Some k)) ((nodes tree s)(k \<mapsto> out))"
proof -
  have other: "other_rows (andThen (exec (\<lambda>t. t\<lparr>tb_ocontent := put_row ino () (tb_ocontent t)\<rparr>)) (\<lambda>_. on_content (co_Create C ino)))"
    "other_rows (exec (\<lambda>t. t\<lparr>tb_osymlink := put_row ino target (tb_osymlink t)\<rparr>))" "other_rows (ret ())" for ino
    by (intro other_rows_andThen other_rows_basic; simp add: same_rows_def)+
  obtain tmpl extra where t: "createNodeLocked B p nm tmpl extra s = (Inr out, s')"
    "\<And>i. writing tree (extra i)" "\<And>i. other_rows (extra i)"
  proof -
    have w: "writing tree (andThen (exec (\<lambda>t. t\<lparr>tb_ocontent := put_row ino () (tb_ocontent t)\<rparr>)) (\<lambda>_. on_content (co_Create C ino)))"
      "writing tree (exec (\<lambda>t. t\<lparr>tb_osymlink := put_row ino target (tb_osymlink t)\<rparr>))" "writing tree (ret ())" for ino
      by (intro writing_intros)+
    show ?thesis
      using run that other w unfolding ov_Create_def ov_Mkdir_def ov_Symlink_def ov_Mknod_def
      by (auto simp: if_run)
  qed
  show ?thesis using createNode_becomes [OF B s k t(2,3,1)] by auto
qed

lemma link_effect:
  assumes B: "genfs_serves B tree" and s: "tidy tree s" and run: "ov_Link B now i p nm s = (Inr out, s')"
  shows "\<exists>n d. nodes tree s i = Some n \<and> n_Type n \<noteq> TypeDir \<and> nodes tree s p = Some d \<and> n_Type d = TypeDir \<and>
    edges tree s p nm = None \<and> out = n\<lparr>n_Nlink := n_Nlink n + 1, n_CtimeNS := now\<rparr> \<and>
    becomes tree s s' (upd2 (edges tree s) p nm (Some i)) ((nodes tree s)(i \<mapsto> out))"
proof -
  obtain m n a u v where m: "markDirtyLocked [i, p] s = (Inr (), m)" and a: "attrsLocked B i None m = (Inr n, a)" "n_Type n \<noteq> TypeDir"
    and c: "checkParentDirLocked B p a = (Inr (), u)" "checkAbsentLocked B p nm u = (Inr (), v)"
    and tx: "withTx (andThen (materializeAttrsLocked B i) (\<lambda>row.
         andThen (if or_base row then persistChainLocked B i else ret ()) (\<lambda>_.
         let out = (or_node row)\<lparr>n_Nlink := n_Nlink (or_node row) + 1, n_CtimeNS := now\<rparr> in
         andThen (putONode (row\<lparr>or_node := out\<rparr>)) (\<lambda>_.
         andThen (putOEdge p nm i (n_Type (or_node row))) (\<lambda>_. ret out))))) v = (Inr out, s')"
    using run by (auto simp: ov_Link_def andThen_Inr if_run split: if_splits)
  have m_still: "still tree s m" using still_calm [OF still_refl [OF s] mark_calm m] .
  have a_still: "still tree s a" using still_calm [OF m_still calm_reading [OF attrs_reading [OF B]] a(1)] .
  note mv = still_view [OF m_still] and av = still_view [OF a_still]
  note place = checked_place [OF B av(1) c]
  have v_still: "still tree s v" using place(1) a_still by (simp add: still_def)
  note vv = still_view [OF v_still]
  have n: "nodes tree s i = Some n" using attrs_answer [OF B tidy_parts(1) [OF mv(1)] a(1)] mv(2,3) by simp
  obtain d where d: "nodes tree s p = Some d" "n_Type d = TypeDir" using place(2) av(2,3) by auto
  obtain x es where x: "s' = x\<lparr>of_commits := es\<rparr>" and "andThen (materializeAttrsLocked B i) (\<lambda>row.
         andThen (if or_base row then persistChainLocked B i else ret ()) (\<lambda>_.
         let out = (or_node row)\<lparr>n_Nlink := n_Nlink (or_node row) + 1, n_CtimeNS := now\<rparr> in
         andThen (putONode (row\<lparr>or_node := out\<rparr>)) (\<lambda>_.
         andThen (putOEdge p nm i (n_Type (or_node row))) (\<lambda>_. ret out)))) (in_tx v) = (Inr out, x)"
    using tx by (elim withTx_ok)
  then obtain r w y where w: "materializeAttrsLocked B i (in_tx v) = (Inr r, w)"
    and y: "(if or_base r then persistChainLocked B i else ret ()) w = (Inr (), y)"
    and out: "out = (or_node r)\<lparr>n_Nlink := n_Nlink (or_node r) + 1, n_CtimeNS := now\<rparr>"
    and xx: "x = y\<lparr>of_tb := with_edge p nm i (n_Type (or_node r)) (with_node (r\<lparr>or_node := out\<rparr>) (of_tb y))\<rparr>"
    by (auto simp: andThen_Inr Let_def)
  note mat = materialize_moves [OF B in_tx_ready [OF vv(1)] w]
  then have W: "ready tree w" "edges tree w = edges tree s" "nodes tree w = nodes tree s"
    "tree (of_base w) = tree (of_base s)" "tb_next (of_tb w) = tb_next (of_tb s)" and r: "or_node r = n"
    using vv(2,3) n by (auto simp: moved_def)
  have my: "moved tree w y (edges tree s) (nodes tree s)"
    using y persistChain_moves [OF B W(1), of i "()" y] moved_refl [OF W(1)] W(2,3) by (cases "or_base r") auto
  then have Y: "ready tree y" "edges tree y = edges tree s" "nodes tree y = nodes tree s"
    "tree (of_base y) = tree (of_base s)" "tb_next (of_tb y) = tb_next (of_tb s)" using W by (auto simp: moved_def)
  let ?z = "y\<lparr>of_tb := with_node (r\<lparr>or_node := out\<rparr>) (of_tb y)\<rparr>"
  have mz: "moved tree y ?z (edges tree s) ((nodes tree s)(i \<mapsto> out))"
    using rewrite_moves [OF Y(1), of i n "r\<lparr>or_node := out\<rparr>"] Y n r mat(3,4) vv(3) out by simp
  then have Z: "ready tree ?z" "edges tree ?z = edges tree s" "nodes tree ?z = (nodes tree s)(i \<mapsto> out)"
    "tb_next (of_tb ?z) = tb_next (of_tb s)" using Y by (auto simp: moved_def)
  note un = typed_parts(5,6) [OF tidy_parts(3) [OF s]]
  have "i \<noteq> 0" using un(2) n by auto
  moreover have "p < k \<and> i < k" if "tb_next (of_tb s) = Some k" for k
    using node_below_next [OF un(1)] n d(1) that by blast
  moreover have "p \<noteq> i" using n a(2) d by auto
  ultimately have "moved tree ?z x (upd2 (edges tree s) p nm (Some i)) ((nodes tree s)(i \<mapsto> out))"
    using edge_moves [OF Z(1), of i p "n_Type n" d nm] Z d out r xx by simp
  from moved_becomes [OF moved_trans [OF mat(1) moved_trans [OF my moved_trans [OF mz this]]]]
  have "becomes tree (in_tx v) x (upd2 (edges tree s) p nm (Some i)) ((nodes tree s)(i \<mapsto> out))" .
  then have "becomes tree v s' (upd2 (edges tree s) p nm (Some i)) ((nodes tree s)(i \<mapsto> out))"
    by (auto simp: x becomes_def tidy_def sound_def chains_ok_def)
  then show ?thesis using becomes_still [OF v_still] n a(2) d place(3) av(2,3) out r by auto
qed

section \<open>Attributes and contents\<close>

lemma base_prefix_tables: "base_prefix B i tries off left acc s = (r, s') \<Longrightarrow> of_tb s' = of_tb s"
  by (induction tries arbitrary: off left acc s)
    (auto simp: run_simps on_base_def andThen_def ret_def fail_def split: prod.splits sum.splits if_splits)

lemma ensureBaseDepth_tables:
  fixes s :: "('b, 'c) ofs"
  assumes "genfs_serves B tree" "sound tree s" "ensureBaseLocked B i s = (r, s')"
  shows "of_tb s' = of_tb s"
  using reading_run [OF ensureBase_reading [OF assms(1)] assms(2,3)] by (simp add: same_view_def)

lemma content_rows:
  assumes B: "genfs_serves B tree" and s: "ready tree s" and run: "materializeContentLocked B C r n s = (Inr x, s')"
  shows "moved tree s s' (edges tree s) (nodes tree s)"
proof (rule same_rows_moves [OF materializeContent_writing [OF B] s run])
  show "same_rows (of_tb s) (of_tb s')"
  proof (cases "map_of (tb_ocontent (of_tb s)) (n_Inode (or_node r)) \<noteq> None")
    case True
    then show ?thesis using run by (auto simp: materializeContentLocked_def Let_def run_simps same_rows_refl)
  next
    case False
    define m where "m = (if n_Length (or_node r) <s n then n_Length (or_node r) else n)"
    obtain body u v where u: "(if 0 <s m then andThen (ensureBaseLocked B (n_Inode (or_node r))) (\<lambda>_.
               if co_Reads C then base_prefix B (n_Inode (or_node r)) (nat (sint m)) 0 (nat (sint m)) [] else ret [])
             else ret []) s = (Inr body, u)"
      and v: "on_content (co_Adopt C (n_Inode (or_node r)) m body) u = (Inr (), v)"
      and s': "exec (\<lambda>t. t\<lparr>tb_ocontent := put_row (n_Inode (or_node r)) () (tb_ocontent t)\<rparr>) v = (Inr (), s')"
      using run False by (auto simp: materializeContentLocked_def Let_def andThen_Inr if_run m_def split: if_splits)
    have "of_tb u = of_tb s"
    proof (cases "0 <s m")
      case True
      then obtain w where w: "ensureBaseLocked B (n_Inode (or_node r)) s = (Inr (), w)"
        "(if co_Reads C then base_prefix B (n_Inode (or_node r)) (nat (sint m)) 0 (nat (sint m)) [] else ret []) w = (Inr body, u)"
        using u by (auto simp: andThen_Inr)
      have "of_tb u = of_tb w" using w(2) base_prefix_tables by (auto simp: if_run)
      then show ?thesis using ensureBaseDepth_tables [OF B ready_parts(1) [OF s] w(1)] by simp
    qed (use u in simp)
    then show ?thesis using v s' by (auto simp: on_content_def exec_def same_rows_def split: prod.splits)
  qed
qed

lemma content_op_moves: "ready tree s \<Longrightarrow> on_content f s = (r, s') \<Longrightarrow> moved tree s s' (edges tree s) (nodes tree s)"
  by (rule same_rows_moves [OF writing_content]) (auto simp: on_content_def same_rows_refl split: prod.splits)

lemma resize_moves:
  assumes B: "genfs_serves B tree" and s: "ready tree s" and run: "resize B C now i sz r s = (Inr n, s')"
  shows "moved tree s s' (edges tree s) (nodes tree s)"
    "n = or_node r \<or> (\<exists>k. n = (or_node r)\<lparr>n_Length := k, n_MtimeNS := now\<rparr>)"
proof -
  have "moved tree s s' (edges tree s) (nodes tree s) \<and>
    (n = or_node r \<or> (\<exists>k. n = (or_node r)\<lparr>n_Length := k, n_MtimeNS := now\<rparr>))"
  proof (cases sz)
    case None
    then show ?thesis using run moved_refl [OF s] by (simp add: resize_def)
  next
    case (Some k)
    then obtain u where u: "materializeContentLocked B C r k s = (Inr (), u)" "on_content (co_Truncate C i k) u = (Inr (), s')"
      and n: "n = (or_node r)\<lparr>n_Length := k, n_MtimeNS := now\<rparr>"
      using run by (auto simp: resize_def andThen_Inr if_run split: if_splits)
    note m = content_rows [OF B s u(1)]
    then have "moved tree u s' (edges tree s) (nodes tree s)"
      using content_op_moves [OF _ u(2), of tree] by (auto simp: moved_def)
    then show ?thesis using moved_trans [OF m] n by auto
  qed
  then show "moved tree s s' (edges tree s) (nodes tree s)"
    "n = or_node r \<or> (\<exists>k. n = (or_node r)\<lparr>n_Length := k, n_MtimeNS := now\<rparr>)" by auto
qed

lemma still_tx_becomes:
  assumes "still tree s v" "withTx fn v = (Inr x, s')"
    and "\<And>u. fn (in_tx v) = (Inr x, u) \<Longrightarrow> moved tree (in_tx v) u E N"
  shows "becomes tree s s' E N"
  by (rule becomes_still [OF assms(1) withTx_becomes [OF assms(2) moved_becomes [OF assms(3)]]])

lemma set_attr_effect:
  assumes B: "genfs_serves B tree" and s: "tidy tree s" and run: "ov_SetAttr B C now i inp s = (Inr out, s')"
  shows "\<exists>n. nodes tree s i = Some n \<and> n_Type out = n_Type n \<and> n_Inode out = i \<and> n_Nlink out = n_Nlink n \<and>
    n_CtimeNS out = now \<and> n_Mode out = or_else (sa_Mode inp) (n_Mode n) \<and>
    n_UID out = or_else (sa_UID inp) (n_UID n) \<and> n_GID out = or_else (sa_GID inp) (n_GID n) \<and>
    becomes tree s s' (edges tree s) ((nodes tree s)(i \<mapsto> out))"
proof -
  let ?out = "\<lambda>sized. sized\<lparr>n_Mode := or_else (sa_Mode inp) (n_Mode sized),
             n_UID := or_else (sa_UID inp) (n_UID sized), n_GID := or_else (sa_GID inp) (n_GID sized),
             n_MtimeNS := or_else (sa_MtimeNS inp) (n_MtimeNS sized), n_CtimeNS := now\<rparr>"
  obtain v where v: "markDirtyLocked [i] s = (Inr (), v)"
    and tx: "withTx (andThen (materializeAttrsLocked B i) (\<lambda>row.
       andThen (resize B C now i (sa_Size inp) row) (\<lambda>sized.
       andThen (putONode (row\<lparr>or_node := ?out sized\<rparr>)) (\<lambda>_. ret (?out sized))))) v = (Inr out, s')"
    using run by (auto simp: ov_SetAttr_def andThen_Inr Let_def)
  have st: "still tree s v" using still_calm [OF still_refl [OF s] mark_calm v] .
  note vv = still_view [OF st]
  obtain x es where x: "andThen (materializeAttrsLocked B i) (\<lambda>row.
       andThen (resize B C now i (sa_Size inp) row) (\<lambda>sized.
       andThen (putONode (row\<lparr>or_node := ?out sized\<rparr>)) (\<lambda>_. ret (?out sized)))) (in_tx v) = (Inr out, x)"
    using tx by (rule withTx_ok)
  then obtain r w n y where w: "materializeAttrsLocked B i (in_tx v) = (Inr r, w)"
    and y: "resize B C now i (sa_Size inp) r w = (Inr n, y)"
    and out: "out = ?out n" and xx: "x = y\<lparr>of_tb := with_node (r\<lparr>or_node := out\<rparr>) (of_tb y)\<rparr>"
    by (auto simp: andThen_Inr)
  note mat = materialize_moves [OF B in_tx_ready [OF vv(1)] w]
  then have W: "ready tree w" "edges tree w = edges tree s" "nodes tree w = nodes tree s"
    "tree (of_base w) = tree (of_base s)" and r: "nodes tree s i = Some (or_node r)"
    using vv(2,3) by (auto simp: moved_def)
  note rs = resize_moves [OF B W(1) y]
  then have Y: "ready tree y" "edges tree y = edges tree s" "nodes tree y = nodes tree s" "tree (of_base y) = tree (of_base s)"
    using W by (auto simp: moved_def)
  have keep: "n_Type out = n_Type (or_node r)" "n_Inode out = i" "n_Nlink out = n_Nlink (or_node r)"
    "n_Mode out = or_else (sa_Mode inp) (n_Mode (or_node r))" "n_UID out = or_else (sa_UID inp) (n_UID (or_node r))"
    "n_GID out = or_else (sa_GID inp) (n_GID (or_node r))" "n_CtimeNS out = now"
    using rs(2) mat(3) by (auto simp: out)
  have "moved tree y x (edges tree s) ((nodes tree s)(i \<mapsto> out))"
    using rewrite_moves [OF Y(1), of i "or_node r" "r\<lparr>or_node := out\<rparr>"] Y r keep(1,2) mat(4) vv(3) xx by simp
  then have "moved tree (in_tx v) x (edges tree s) ((nodes tree s)(i \<mapsto> out))"
    by (rule moved_trans [OF moved_trans [OF mat(1) rs(1)]])
  then have "becomes tree s s' (edges tree s) ((nodes tree s)(i \<mapsto> out))"
    using x by (intro still_tx_becomes [OF st tx]) auto
  then show ?thesis using r keep by blast
qed

lemma write_effect:
  assumes B: "genfs_serves B tree" and s: "tidy tree s" and run: "ov_Write B C now i off data s = (Inr c, s')"
  shows "\<exists>n out. nodes tree s i = Some n \<and> n_Type n = TypeFile \<and> n_Type out = TypeFile \<and>
    c = length data \<and> out = n\<lparr>n_Length := n_Length out, n_MtimeNS := now, n_CtimeNS := now\<rparr> \<and>
    n_Length n \<le>s n_Length out \<and> off + word_of_nat (length data) \<le>s n_Length out \<and>
    becomes tree s s' (edges tree s) ((nodes tree s)(i \<mapsto> out))"
proof -
  let ?len = "\<lambda>row. if n_Length (or_node row) <s off + word_of_nat (length data)
    then off + word_of_nat (length data) else n_Length (or_node row)"
  let ?out = "\<lambda>row. (or_node row)\<lparr>n_Length := ?len row, n_MtimeNS := now, n_CtimeNS := now\<rparr>"
  let ?tx = "andThen (materializeAttrsLocked B i) (\<lambda>row.
       if n_Type (or_node row) \<noteq> TypeFile then fail (BadType i (n_Type (or_node row)))
       else andThen (materializeContentLocked B C row (n_Length (or_node row))) (\<lambda>_.
         andThen (on_content (co_WriteAt C i off data)) (\<lambda>_. putONode (row\<lparr>or_node := ?out row\<rparr>))))"
  obtain v where v: "markDirtyLocked [i] s = (Inr (), v)" and tx: "withTx ?tx v = (Inr (), s')" and c: "c = length data"
    using run unfolding ov_Write_def Let_def by (auto simp: andThen_Inr if_run)
  have st: "still tree s v" using still_calm [OF still_refl [OF s] mark_calm v] .
  note vv = still_view [OF st]
  obtain x es where x: "?tx (in_tx v) = (Inr (), x)" using tx by (rule withTx_ok)
  then obtain r w y z where w: "materializeAttrsLocked B i (in_tx v) = (Inr r, w)"
    and ty: "n_Type (or_node r) = TypeFile"
    and y: "materializeContentLocked B C r (n_Length (or_node r)) w = (Inr (), y)"
    and z: "on_content (co_WriteAt C i off data) y = (Inr (), z)"
    and xx: "x = z\<lparr>of_tb := with_node (r\<lparr>or_node := ?out r\<rparr>) (of_tb z)\<rparr>"
    by (auto simp: andThen_Inr if_run split: if_splits)
  note mat = materialize_moves [OF B in_tx_ready [OF vv(1)] w]
  then have W: "ready tree w" "edges tree w = edges tree s" "nodes tree w = nodes tree s"
    "tree (of_base w) = tree (of_base s)" and r: "nodes tree s i = Some (or_node r)"
    using vv(2,3) by (auto simp: moved_def)
  note my = content_rows [OF B W(1) y]
  then have Y: "ready tree y" "edges tree y = edges tree s" "nodes tree y = nodes tree s" "tree (of_base y) = tree (of_base s)"
    using W by (auto simp: moved_def)
  note mz = content_op_moves [OF Y(1) z]
  then have Z: "ready tree z" "edges tree z = edges tree s" "nodes tree z = nodes tree s" "tree (of_base z) = tree (of_base s)"
    using Y by (auto simp: moved_def)
  have "moved tree z x (edges tree s) ((nodes tree s)(i \<mapsto> ?out r))"
    using rewrite_moves [OF Z(1), of i "or_node r" "r\<lparr>or_node := ?out r\<rparr>"] Z r mat(3,4) vv(3) xx by simp
  then have "moved tree (in_tx v) x (edges tree s) ((nodes tree s)(i \<mapsto> ?out r))"
    by (rule moved_trans [OF moved_trans [OF moved_trans [OF mat(1) my] mz]])
  then have "becomes tree s s' (edges tree s) ((nodes tree s)(i \<mapsto> ?out r))"
    using x by (intro still_tx_becomes [OF st tx]) auto
  then show ?thesis using r ty c by (intro exI [of _ "or_node r"] exI [of _ "?out r"]) (auto simp: word_sless_alt word_sle_eq)
qed

section \<open>Every request keeps the rows well typed\<close>

lemma set_xattr_tidy:
  assumes B: "genfs_serves B tree" and s: "tidy tree s" and run: "ov_SetXattr B i nm v s = (Inr (), s')"
  shows "becomes tree s s' (edges tree s) (nodes tree s)"
proof -
  obtain m n a where m: "markDirtyLocked [i] s = (Inr (), m)" "attrsLocked B i None m = (Inr n, a)"
    and tx: "withTx (exec (\<lambda>t. t\<lparr>tb_oxattr := put_row (i, nm) (v, False) (tb_oxattr t)\<rparr>)) a = (Inr (), s')"
    using run by (auto simp: ov_SetXattr_def andThen_Inr)
  have st: "still tree s a"
    using still_calm [OF still_calm [OF still_refl [OF s] mark_calm m(1)] calm_reading [OF attrs_reading [OF B]] m(2)] .
  note av = still_view [OF st]
  show ?thesis
  proof (rule still_tx_becomes [OF st tx])
    fix u
    assume "exec (\<lambda>t. t\<lparr>tb_oxattr := put_row (i, nm) (v, False) (tb_oxattr t)\<rparr>) (in_tx a) = (Inr (), u)"
    from same_rows_moves [OF exec_writing(4) in_tx_ready [OF av(1)] this]
    show "moved tree (in_tx a) u (edges tree s) (nodes tree s)"
      using \<open>exec _ _ = _\<close> av(2,3) by (auto simp: exec_def same_rows_def)
  qed
qed

lemma unless_tomb_run:
  "(case x of Some (v, True) \<Rightarrow> fail e | _ \<Rightarrow> m) s = (Inr y, s') \<Longrightarrow> m s = (Inr y, s')"
  by (auto split: option.splits prod.splits bool.splits)

lemma remove_xattr_tidy:
  assumes B: "genfs_serves B tree" and s: "tidy tree s" and run: "ov_RemoveXattr B i nm s = (Inr (), s')"
  shows "becomes tree s s' (edges tree s) (nodes tree s)"
proof -
  obtain m b has a where m: "markDirtyLocked [i] s = (Inr (), m)" and a: "baseHasXattr B i nm b m = (Inr has, a)"
    and tx: "withTx (exec (xattr_removed i nm has)) a = (Inr (), s')"
    using run unfolding ov_RemoveXattr_def
    by (auto simp: andThen_Inr if_run dest!: unless_tomb_run split: if_splits)
  have st: "still tree s a"
    using still_calm [OF still_calm [OF still_refl [OF s] mark_calm m] calm_reading [OF baseHasXattr_reading [OF B]] a] .
  note av = still_view [OF st]
  have w: "writing tree (exec (xattr_removed i nm has))" by (rule writing_exec) (simp add: xattr_removed_def)
  show ?thesis
  proof (rule still_tx_becomes [OF st tx])
    fix u
    assume "exec (xattr_removed i nm has) (in_tx a) = (Inr (), u)"
    from same_rows_moves [OF w in_tx_ready [OF av(1)] this]
    show "moved tree (in_tx a) u (edges tree s) (nodes tree s)"
      using \<open>exec _ _ = _\<close> av(2,3) by (auto simp: exec_def same_rows_def xattr_removed_def)
  qed
qed

lemma done_with_Inr: "done_with m s = (Inr (), s') \<longleftrightarrow> (\<exists>x. m s = (Inr x, s'))"
  by (auto simp: done_with_def andThen_Inr)

lemma success_tidy:
  assumes B: "genfs_serves B tree" and s: "tidy tree s" and k: "space_left s"
    and into: "\<And>p nm p' nm'. q = Rename p nm p' nm' \<Longrightarrow> \<exists>d. nodes tree s p' = Some d \<and> n_Type d = TypeDir"
    and run: "perform B C now q s = (Inr (), s')"
  shows "tidy tree s'"
proof (cases q)
  case (Rename p nm p' nm')
  then obtain d where "nodes tree s p' = Some d" "n_Type d = TypeDir" using into by blast
  then show ?thesis using rename_effect [OF B s, of C now p nm p' nm' s' d] run Rename
    by (auto simp: becomes_def split: if_splits)
next
  case (Unlink p nm)
  then show ?thesis using unlink_effect [OF B s, of C now p nm s'] run by (auto simp: becomes_def)
next
  case (Rmdir p nm)
  then show ?thesis using rmdir_effect [OF B s, of p nm s'] run by (auto simp: becomes_def)
next
  case (Link i p nm)
  then show ?thesis using link_effect [OF B s, of now i p nm _ s'] run by (auto simp: done_with_Inr becomes_def)
next
  case (Write i off data)
  then show ?thesis using write_effect [OF B s, of C now i off data _ s'] run
    by (auto simp: done_with_Inr becomes_def)
next
  case (SetAttr i inp)
  then show ?thesis using set_attr_effect [OF B s, of C now i inp _ s'] run
    by (auto simp: done_with_Inr becomes_def)
next
  case (SetXattr i nm v)
  then show ?thesis using set_xattr_tidy [OF B s, of i nm v s'] run by (simp add: becomes_def)
next
  case (RemoveXattr i nm)
  then show ?thesis using remove_xattr_tidy [OF B s, of i nm s'] run by (simp add: becomes_def)
qed (use create_effect [OF B s k, of C now _ _ _ _ _ _ s'] run in
    \<open>(auto simp: done_with_Inr becomes_def; blast)+\<close>)

end
