(* ===== verification/Overlay_Session.thy ===== *)
theory Overlay_Session
  imports Overlay_Births
begin

text \<open>
  Sessions of the overlay of \<open>internal/overlay\<close>: requests, reads and seals in any order, and what
  holds after every one of them, provided that renames go into directories and inode numbers
  last; a small generation to run them on; and two places where the code does less than it
  says: \<open>IsDirty\<close> after \<open>Unlink\<close>, and a removed directory still held.
\<close>

section \<open>Steps of a session\<close>

inductive session_step :: "'b base_ops \<Rightarrow> 'c content_ops \<Rightarrow> ('b \<Rightarrow> base_tree) \<Rightarrow> ('b, 'c) ofs \<Rightarrow> ('b, 'c) ofs \<Rightarrow> bool"
  for B C tree where
    requested: "perform B C now q s = (r, s') \<Longrightarrow> space_left s \<Longrightarrow>
      (\<And>p nm p' nm'. q = Rename p nm p' nm' \<Longrightarrow> \<exists>d. nodes tree s p' = Some d \<and> n_Type d = TypeDir) \<Longrightarrow>
      session_step B C tree s s'"
  | looked_up: "ov_Lookup B p nm s = (r, s') \<Longrightarrow> session_step B C tree s s'"
  | attributed: "ov_GetAttr B i s = (r, s') \<Longrightarrow> session_step B C tree s s'"
  | listed: "readdirLocked B p retain s = (r, s') \<Longrightarrow> session_step B C tree s s'"
  | armed: "PrepareSeal s = (r, s') \<Longrightarrow> session_step B C tree s s'"
  | released: "ReleaseSeal s = (r, s') \<Longrightarrow> session_step B C tree s s'"
  | asked_dirty: "IsDirty i s = (r, s') \<Longrightarrow> session_step B C tree s s'"

inductive_cases session_stepE: "session_step B C tree s s'"

lemma base_half_calm:
  assumes "sound tree s" "\<And>nm n. (nm, n) \<in> set es \<Longrightarrow> bt_edge (tree (of_base s)) ino nm = Some (n_Inode n)"
    and "base_half ino retain over acc es s = (r, s')"
  shows "sound tree s' \<and> same_view tree s s'"
  using base_half_run [OF assms(1,2), of es retain over acc] assms(3) by auto

lemma overlay_half_reading: "genfs_serves B tree \<Longrightarrow> reading tree (overlay_half B acc over)"
proof (induction over arbitrary: acc)
  case Nil
  then show ?case by (simp add: reading_ret)
next
  case (Cons e over)
  obtain nm i ty where "e = (nm, (i, ty))" by (metis prod.collapse)
  then show ?case using Cons by (auto intro!: reading_intros split: sum.split)
qed

lemma asks_then: "andThen (asks f) g s = g (f s) s"
  by (simp add: andThen_def asks_def)

lemma readdir_tidy:
  assumes B: "genfs_serves B tree" and s: "tidy tree s" and run: "readdirLocked B p retain s = (r, s')"
  shows "tidy tree s'"
proof -
  note sound = tidy_parts(1) [OF s]
  let ?over = "names_in p (of_tb s)"
  let ?lower = "if \<not> backed (of_tb s) p then ret []
        else andThen (ensureBaseLocked B p) (\<lambda>_.
          andThen (on_base (if retain then bo_ReaddirRetain B p else bo_Readdir B p))
            (base_half p retain ?over []))"
  obtain q u where u: "?lower s = (q, u)" by fastforce
  have "sound tree u \<and> same_view tree s u"
  proof (cases "backed (of_tb s) p")
    case False
    then show ?thesis using u sound by (auto simp: same_view_refl)
  next
    case True
    have rd: "reading tree (on_base (if retain then bo_ReaddirRetain B p else bo_Readdir B p))"
      using B by (auto intro!: reading_intros genfs_steady)
    obtain a v where v: "ensureBaseLocked B p s = (a, v)" by fastforce
    have kv: "sound tree v" "same_view tree s v" using reading_run [OF ensureBase_reading [OF B] sound v] by auto
    obtain b w where w: "on_base (if retain then bo_ReaddirRetain B p else bo_Readdir B p) v = (b, w)" by fastforce
    have kw: "sound tree w" "same_view tree s w"
      using reading_run [OF rd kv(1) w] same_view_trans [OF kv(2)] by auto
    show ?thesis
    proof (cases "\<exists>es. b = Inr es \<and> a = Inr ()")
      case True
      then obtain es where es: "b = Inr es" "a = Inr ()" by blast
      have "listing_of (tree (of_base v)) p es"
        using w es by (auto simp: on_base_def split: prod.splits if_splits dest: genfs_Readdir [OF B])
      then have "bt_edge (tree (of_base w)) p nm = Some (n_Inode n)" if "(nm, n) \<in> set es" for nm n
        using that kv(2) kw(2) by (simp add: listing_of_def same_view_def)
      moreover have "base_half p retain ?over [] es w = (q, u)"
        using u v w es \<open>backed (of_tb s) p\<close> by (simp add: andThen_def)
      ultimately have "sound tree u \<and> same_view tree w u" by (rule base_half_calm [OF kw(1)])
      then show ?thesis using same_view_trans [OF kw(2)] by blast
    next
      case False
      then have "u = v \<or> u = w" using u v w \<open>backed (of_tb s) p\<close> by (auto simp: andThen_def split: sum.splits)
      then show ?thesis using kv kw by auto
    qed
  qed
  then have ku: "sound tree u" "same_view tree s u" by auto
  have "readdirLocked B p retain s =
      andThen ?lower (\<lambda>lower. andThen (overlay_half B lower ?over) (\<lambda>all. ret (sort_key fst all))) s"
    unfolding readdirLocked_def asks_then prod.case oedgesOfLocked_def
      cur_tb [OF sound] baseBacked_eq [OF sound] by (rule refl)
  then have "s' = u \<or> (\<exists>acc q'. overlay_half B acc ?over u = (q', s'))"
    using run u by (auto simp: andThen_def ret_def split: sum.splits prod.splits)
  then have "sound tree s' \<and> same_view tree s s'"
    using ku reading_run [OF overlay_half_reading [OF B] ku(1)] same_view_trans [OF ku(2)] by blast
  then show ?thesis using s by (auto simp: tidy_def same_view_def)
qed

lemma session_step_tidy:
  assumes B: "genfs_serves B tree" and st: "session_step B C tree s s'" and s: "tidy tree s"
  shows "tidy tree s'"
  using st
proof cases
  case (requested now q r)
  show ?thesis
  proof (cases r)
    case (Inl e)
    then show ?thesis using whole_run [OF perform_whole [OF B] tidy_parts(1) [OF s] requested(1)] s
      by (simp add: tidy_def)
  next
    case (Inr x)
    then show ?thesis using success_tidy [OF B s requested(2,3)] requested(1) by simp
  qed
next
  case (looked_up p nm r)
  then show ?thesis using still_calm [OF still_refl [OF s] calm_reading [OF Lookup_reading [OF B]]] by (simp add: still_def)
next
  case (attributed i r)
  then show ?thesis using still_calm [OF still_refl [OF s] calm_reading [OF attrs_reading [OF B]]]
    by (simp add: still_def ov_GetAttr_def)
next
  case (listed p retain r)
  then show ?thesis using readdir_tidy [OF B s] by blast
next
  case (armed r)
  then show ?thesis using s by (auto simp: PrepareSeal_def tidy_def sound_def chains_ok_def cur_def)
next
  case (released r)
  then show ?thesis using s by (auto simp: ReleaseSeal_def tidy_def sound_def chains_ok_def)
next
  case (asked_dirty i r)
  then show ?thesis using s
    by (auto simp: IsDirty_def loadDirtyLocked_def andThen_def changes_def asks_def tidy_def sound_def chains_ok_def
        split: option.splits)
qed

section \<open>A generation to run on\<close>

text \<open>A generation held as two lists, all of it resident: the root, a directory with a file, a file of two names.\<close>

definition sample_node :: "uint64 \<Rightarrow> byte \<Rightarrow> uint32 \<Rightarrow> node" where
  "sample_node i ty links = (new_node ty 420 1 1 3 links)\<lparr>n_Inode := i\<rparr>"

definition sample_edges :: "((uint64 \<times> string) \<times> uint64) list" where
  "sample_edges = [((1, ''d''), 2), ((1, ''f''), 3), ((1, ''g''), 3), ((2, ''x''), 4)]"

definition sample_nodes :: "(uint64 \<times> node) list" where
  "sample_nodes = [(1, sample_node 1 TypeDir 2), (2, sample_node 2 TypeDir 2), (3, sample_node 3 TypeFile 2),
     (4, sample_node 4 TypeFile 1)]"

definition sample_tree :: "unit \<Rightarrow> base_tree" where
  "sample_tree u = \<lparr>bt_edge = \<lambda>p nm. map_of sample_edges (p, nm), bt_node = map_of sample_nodes\<rparr>"

definition or_absent :: "'a option \<Rightarrow> ofs_err + 'a" where
  "or_absent x = (case x of Some v \<Rightarrow> Inr v | None \<Rightarrow> Inl ErrNotExist)"

definition sample_listing :: "uint64 \<Rightarrow> (string \<times> node) list" where
  "sample_listing p =
     (if p = 1 then [(''d'', sample_node 2 TypeDir 2), (''f'', sample_node 3 TypeFile 2), (''g'', sample_node 3 TypeFile 2)]
      else if p = 2 then [(''x'', sample_node 4 TypeFile 1)] else [])"

definition sample_base :: "unit base_ops" where
  "sample_base = \<lparr>bo_Lookup = \<lambda>p nm u. (or_absent (case map_of sample_edges (p, nm) of
        None \<Rightarrow> None | Some i \<Rightarrow> map_of sample_nodes i), u),
      bo_GetAttr = \<lambda>i u. (or_absent (map_of sample_nodes i), u),
      bo_Readdir = \<lambda>i u. (Inr (sample_listing i), u), bo_ReaddirRetain = \<lambda>i u. (Inr (sample_listing i), u),
      bo_Readlink = \<lambda>i u. (Inl ErrNotExist, u), bo_GetXattr = \<lambda>i nm u. (Inl ErrNotExist, u),
      bo_ListXattr = \<lambda>i u. (Inr [], u), bo_Read = \<lambda>i off n u. (Inr [], u), bo_Resident = \<lambda>i u. True,
      bo_Edge = \<lambda>i u. (if i = 2 then Inr \<lparr>pe_parent = 1, pe_name = ''d''\<rparr>
        else if i = 3 then Inr \<lparr>pe_parent = 1, pe_name = ''f''\<rparr>
        else if i = 4 then Inr \<lparr>pe_parent = 2, pe_name = ''x''\<rparr> else Inl ErrNotExist, u),
      bo_RootCatalog = \<lambda>u. []\<rparr>"

definition sample_content :: "unit content_ops" where
  "sample_content = \<lparr>co_Create = \<lambda>i u. (Inr (), u), co_Reads = True, co_Adopt = \<lambda>i n b u. (Inr (), u),
      co_ReadAt = \<lambda>i off n u. (Inr [], u), co_WriteAt = \<lambda>i off b u. (Inr (), u),
      co_Truncate = \<lambda>i n u. (Inr (), u), co_Drop = \<lambda>i u. u, co_Size = \<lambda>i u. None\<rparr>"

definition sample_ofs :: "(unit, unit) ofs" where
  "sample_ofs = \<lparr>of_base = (), of_content = (),
      of_tb = \<lparr>tb_next = Some 5, tb_root = None, tb_gen = None, tb_onode = [], tb_oedge = [], tb_oxattr = [],
        tb_osymlink = [], tb_ocontent = [], tb_obase = []\<rparr>,
      of_rows = None, of_prov = [], of_dirtySet = None, of_seq = 0, of_modSeq = [], of_rebasedSeq = 0,
      of_snapEdges = [], of_commits = []\<rparr>"

lemmas sample_defs = sample_base_def sample_tree_def sample_edges_def sample_nodes_def sample_node_def
  sample_listing_def or_absent_def new_node_def TypeDir_def TypeFile_def

lemma sample_serves: "genfs_serves sample_base sample_tree"
  by (auto simp: genfs_serves_def steady_def listing_of_def sample_defs split: if_splits)

lemma sample_denies: "genfs_denies sample_base sample_tree"
  by (auto simp: genfs_denies_def sample_defs split: if_splits)

lemma sample_answers: "genfs_answers sample_base"
  by (auto simp: genfs_answers_def sample_base_def or_absent_def split: option.splits)

lemma sample_tidy: "tidy sample_tree sample_ofs"
proof -
  have "tree_ok (sample_tree ())"
    by (auto simp: tree_ok_def sample_defs split: if_splits)
  moreover have "well_typed (of_tb sample_ofs) (sample_tree ())"
    by (auto simp: well_typed_def nodes_typed_def edges_typed_def parents_typed_def next_unused_def sample_ofs_def
        m_node_def m_edge_def backed_def sample_defs split: if_splits) (simp add: word_le_nat_alt)
  ultimately show ?thesis by (simp add: tidy_def sound_def chains_ok_def sample_ofs_def)
qed

lemma sample_space: "space_left sample_ofs"
  by (simp add: space_left_def sample_ofs_def)

lemma run_value: "\<not> isl (fst x) \<Longrightarrow> x = (Inr (projr (fst x)), snd x)"
  by (cases x; cases "fst x") auto

lemma run_unit: "\<not> isl (fst x) \<Longrightarrow> x = (Inr (), snd x)"
  using run_value [of x] by simp

section \<open>Properties\<close>

text \<open>
  C37: Lookup and GetAttr answer the merged tree. A name found has the attributes of the inode the
  merged tree has there, its own row's before the base's; a name reported absent is not in it, or
  names an inode it does not have; and neither operation changes any table. No error of the
  descent through the base is ever mistaken for the absence of a name. Where the base has what is
  asked for resident and does not fail, each is answered: every name and inode of the merged
  tree with its attributes, every other one with an error that says it does not exist. (The base
  is taken to say that an inode does not exist only when its own tree lacks it.)
\<close>

theorem lookup_answers_the_merged_tree:
  assumes "genfs_serves B tree" "genfs_denies B tree" "sound tree s"
  shows "(\<forall>n. fst (ov_Lookup B p nm s) = Inr n \<longrightarrow> shown tree s p nm = Some n) \<and>
    (\<forall>e. fst (ov_Lookup B p nm s) = Inl e \<and> is_err ErrNotExist e \<longrightarrow> shown tree s p nm = None) \<and>
    (\<forall>n. fst (ov_GetAttr B i s) = Inr n \<longrightarrow> nodes tree s i = Some n) \<and>
    (\<forall>e. fst (ov_GetAttr B i s) = Inl e \<and> is_err ErrNotExist e \<longrightarrow> nodes tree s i = None) \<and>
    (genfs_answers B \<longrightarrow>
      (case shown tree s p nm of Some n \<Rightarrow> fst (ov_Lookup B p nm s) = Inr n
       | None \<Rightarrow> \<exists>e. fst (ov_Lookup B p nm s) = Inl e \<and> is_err ErrNotExist e) \<and>
      (case nodes tree s i of Some n \<Rightarrow> fst (ov_GetAttr B i s) = Inr n
       | None \<Rightarrow> \<exists>e. fst (ov_GetAttr B i s) = Inl e \<and> is_err ErrNotExist e)) \<and>
    same_view tree s (snd (ov_Lookup B p nm s)) \<and> same_view tree s (snd (ov_GetAttr B i s))"
proof -
  obtain l sl where l: "ov_Lookup B p nm s = (l, sl)" by fastforce
  obtain g sg where g: "ov_GetAttr B i s = (g, sg)" by fastforce
  note a = g [unfolded ov_GetAttr_def]
  have found: "shown tree s p nm = Some n" if "l = Inr n" for n
    using Lookup_shows_view [OF assms(1,3)] l that by (fastforce simp: shown_def)
  have absent: "shown tree s p nm = None" if "l = Inl e" "is_err ErrNotExist e" for e
    using Lookup_absent [OF assms] l that by blast
  have attr: "nodes tree s i = Some n" if "g = Inr n" for n
    using attrs_answer [OF assms(1,3), of i None n] a that by blast
  have no_attr: "nodes tree s i = None" if "g = Inl e" "is_err ErrNotExist e" for e
    using attrs_absent [OF assms] a that by blast
  have total: "is_err ErrNotExist e" if "genfs_answers B" "l = Inl e \<or> g = Inl e" for e
    using Lookup_error [OF that(1)] attrs_error [OF that(1)] l a that(2) by blast
  have "same_view tree s sl" "same_view tree s sg"
    using reading_run [OF Lookup_reading [OF assms(1)] assms(3) l] reading_run [OF attrs_reading [OF assms(1)] assms(3) a]
    by auto
  moreover have "case shown tree s p nm of Some n \<Rightarrow> l = Inr n | None \<Rightarrow> \<exists>e. l = Inl e \<and> is_err ErrNotExist e"
    if "genfs_answers B"
    using found absent total [OF that] by (cases l) auto
  moreover have "case nodes tree s i of Some n \<Rightarrow> g = Inr n | None \<Rightarrow> \<exists>e. g = Inl e \<and> is_err ErrNotExist e"
    if "genfs_answers B"
    using attr no_attr total [OF that] by (cases g) auto
  ultimately show ?thesis
    unfolding l g fst_conv snd_conv using found absent attr no_attr by blast
qed

theorem lookup_answers_the_merged_tree_witness:
  "shown sample_tree sample_ofs 2 ''x'' = Some (sample_node 4 TypeFile 1) \<and>
   fst (ov_Lookup sample_base 2 ''x'' sample_ofs) = Inr (sample_node 4 TypeFile 1) \<and>
   (\<exists>e. fst (ov_Lookup sample_base 2 ''y'' sample_ofs) = Inl e \<and> is_err ErrNotExist e)"
proof -
  have shown: "shown sample_tree sample_ofs 2 ''x'' = Some (sample_node 4 TypeFile 1)" "shown sample_tree sample_ofs 2 ''y'' = None"
    by (simp_all add: shown_def sample_ofs_def m_node_def m_edge_def backed_def sample_defs)
  note reads = lookup_answers_the_merged_tree [OF sample_serves sample_denies tidy_parts(1) [OF sample_tidy]]
  have "fst (ov_Lookup sample_base 2 ''x'' sample_ofs) = Inr (sample_node 4 TypeFile 1)"
    using reads [of 2 "''x''" 4, unfolded shown] sample_answers by (simp only: option.case)
  moreover have "\<exists>e. fst (ov_Lookup sample_base 2 ''y'' sample_ofs) = Inl e \<and> is_err ErrNotExist e"
    using reads [of 2 "''y''" 4, unfolded shown] sample_answers by (simp only: option.case)
  ultimately show ?thesis
    using shown(1) by blast
qed

text \<open>
  C36: A listing through the overlay, of either kind, is the merged directory: in name order, each
  name once, exactly the names that resolve there, each with the attributes its inode has;
  and listing leaves the view as it was.
\<close>

theorem listing_is_the_merged_directory:
  assumes "genfs_serves B tree" "sound tree s" "distinct (map fst (tb_oedge (of_tb s)))"
    and "ov_Readdir B p s = (Inr es, s') \<or> ov_ReaddirRetain B p s = (Inr es, s')"
  shows "distinct (map fst es) \<and> sorted (map fst es) \<and>
    (\<forall>nm. nm \<in> fst ` set es \<longleftrightarrow> edges tree s p nm \<noteq> None) \<and>
    (\<forall>(nm, n) \<in> set es. \<exists>i. edges tree s p nm = Some i \<and> nodes tree s i = Some n) \<and>
    edges tree s' = edges tree s \<and> nodes tree s' = nodes tree s"
proof -
  obtain retain where "readdirLocked B p retain s = (Inr es, s')"
    using assms(4) by (auto simp: ov_Readdir_def ov_ReaddirRetain_def)
  from readdir_run [OF assms(1-3) this] show ?thesis by (simp add: same_view_def)
qed

theorem listing_is_the_merged_directory_witness:
  "map fst (projr (fst (ov_Readdir sample_base 1 sample_ofs))) = [''d'', ''f'', ''g''] \<and>
    edges sample_tree sample_ofs 1 ''g'' \<noteq> None"
proof -
  have run: "\<not> isl (fst (ov_Readdir sample_base 1 sample_ofs))"
    "map fst (projr (fst (ov_Readdir sample_base 1 sample_ofs))) = [''d'', ''f'', ''g'']" by code_simp+
  have "''g'' \<in> fst ` set (projr (fst (ov_Readdir sample_base 1 sample_ofs))) \<longleftrightarrow> edges sample_tree sample_ofs 1 ''g'' \<noteq> None"
    using listing_is_the_merged_directory [OF sample_serves tidy_parts(1) [OF sample_tidy] _ disjI1 [OF run_value [OF run(1)]]]
    by (simp add: sample_ofs_def)
  moreover have "''g'' \<in> fst ` set (projr (fst (ov_Readdir sample_base 1 sample_ofs)))"
    using run(2) by (simp flip: set_map)
  ultimately show ?thesis using run(2) by simp
qed

text \<open>
  C38: A request that ends in an error, whatever the error and wherever it came from, a base read,
  the content store or the commit, leaves every table of the overlay as it was; so the merged
  tree is the one from before it.
\<close>

theorem failed_request_changes_nothing:
  assumes "genfs_serves B tree" "sound tree s" "perform B C now q s = (Inl e, s')"
  shows "of_tb s' = of_tb s \<and> edges tree s' = edges tree s \<and> nodes tree s' = nodes tree s \<and> sound tree s'"
  using whole_run [OF perform_whole [OF assms(1)] assms(2,3)] by simp

theorem failed_request_changes_nothing_witness:
  "of_tb (snd (perform sample_base sample_content 9 (Rmdir 1 ''d'') sample_ofs)) = of_tb sample_ofs"
proof -
  have "fst (perform sample_base sample_content 9 (Rmdir 1 ''d'') sample_ofs) = Inl ErrNotEmpty" by code_simp
  then show ?thesis
    using failed_request_changes_nothing [OF sample_serves tidy_parts(1) [OF sample_tidy]] by (metis prod.collapse)
qed

text \<open>
  C35: Creating a file, a directory, a symlink or a special file refines adding a leaf to a tree: the
  name was free in a directory, the inode is the next number, which no inode of the merged tree
  had, and afterwards exactly this name and this inode are new. So a number is never shared
  by two inodes, whether the base or the session made the other one, as long as the 64-bit
  numbers have not run out.
\<close>

theorem creating_adds_one_fresh_inode:
  assumes "genfs_serves B tree" and "tidy tree s" and "space_left s"
    and "ov_Create B C now p nm mode uid gid s = (Inr out, s') \<or>
      ov_Mkdir B now p nm mode uid gid s = (Inr out, s') \<or>
      ov_Symlink B now p nm target uid gid s = (Inr out, s') \<or>
      ov_Mknod B now p nm ty mode uid gid rdev s = (Inr out, s')"
  shows "\<exists>k d. tb_next (of_tb s) = Some k \<and> nodes tree s p = Some d \<and> n_Type d = TypeDir \<and>
    edges tree s p nm = None \<and> nodes tree s k = None \<and> n_Inode out = k \<and>
    becomes tree s s' (upd2 (edges tree s) p nm (Some k)) ((nodes tree s)(k \<mapsto> out))"
  by (rule create_effect [OF assms])

theorem creating_adds_one_fresh_inode_witness:
  "edges sample_tree (snd (ov_Symlink sample_base 9 2 ''l'' ''x'' 1 1 sample_ofs)) 2 ''l'' = Some 5"
proof -
  have "\<not> isl (fst (ov_Symlink sample_base 9 2 ''l'' ''x'' 1 1 sample_ofs))" by code_simp
  from creating_adds_one_fresh_inode [OF sample_serves sample_tidy sample_space, of sample_content 9 2 "''l''",
      OF disjI2 [OF disjI2 [OF disjI1 [OF run_value [OF this]]]]]
  show ?thesis by (auto simp: becomes_def upd2_app sample_ofs_def)
qed

text \<open>
  Link refines a second name for a file: it succeeds only for an inode that is no directory and for
  a free name in a directory; then exactly that name is new, and the inode has one link more
  and the new change time.
\<close>

theorem link_adds_one_name:
  assumes "genfs_serves B tree" and "tidy tree s" and "ov_Link B now i p nm s = (Inr out, s')"
  shows "\<exists>n d. nodes tree s i = Some n \<and> n_Type n \<noteq> TypeDir \<and> nodes tree s p = Some d \<and> n_Type d = TypeDir \<and>
    edges tree s p nm = None \<and> out = n\<lparr>n_Nlink := n_Nlink n + 1, n_CtimeNS := now\<rparr> \<and>
    becomes tree s s' (upd2 (edges tree s) p nm (Some i)) ((nodes tree s)(i \<mapsto> out))"
  by (rule link_effect [OF assms])

theorem link_adds_one_name_witness:
  "edges sample_tree (snd (ov_Link sample_base 9 4 1 ''y'' sample_ofs)) 1 ''y'' = Some 4"
proof -
  have "\<not> isl (fst (ov_Link sample_base 9 4 1 ''y'' sample_ofs))" by code_simp
  from link_adds_one_name [OF sample_serves sample_tidy run_value [OF this]]
  show ?thesis by (auto simp: becomes_def upd2_app)
qed

text \<open>
  C34: Unlink refines the removal of a name from a tree. When it succeeds the name resolved to an
  inode that is no directory; afterwards exactly this name is gone, the inode has one link
  less and the new change time, or, at its last link, nothing but the base's half of it is left,
  and no other name or inode of the merged tree changed.
\<close>

theorem unlink_removes_one_name:
  assumes "genfs_serves B tree" and "tidy tree s" and "ov_Unlink B C now p nm s = (Inr (), s')"
  shows "\<exists>i n. edges tree s p nm = Some i \<and> nodes tree s i = Some n \<and> n_Type n \<noteq> TypeDir \<and>
    becomes tree s s' (upd2 (edges tree s) p nm None)
      ((nodes tree s)(i := one_link_less now (bt_node (tree (of_base s)) i) n))"
  by (rule unlink_effect [OF assms])

theorem unlink_removes_one_name_witness:
  "\<exists>i n. edges sample_tree sample_ofs 1 ''g'' = Some i \<and> nodes sample_tree sample_ofs i = Some n \<and> n_Type n \<noteq> TypeDir \<and>
    becomes sample_tree sample_ofs (snd (ov_Unlink sample_base sample_content 9 1 ''g'' sample_ofs))
      (upd2 (edges sample_tree sample_ofs) 1 ''g'' None)
      ((nodes sample_tree sample_ofs)(i := one_link_less 9 (bt_node (sample_tree (of_base sample_ofs)) i) n))"
proof -
  have "\<not> isl (fst (ov_Unlink sample_base sample_content 9 1 ''g'' sample_ofs))" by code_simp
  from unlink_removes_one_name [OF sample_serves sample_tidy run_unit [OF this]] show ?thesis .
qed

text \<open>
  Rmdir refines the removal of an empty directory. When it succeeds the name resolved to a
  directory with no visible entry; afterwards the name is gone and no other name changed, except
  under the removed inode itself, where whatever the base generation has there is visible
  again to a client that still holds the inode.
\<close>

theorem rmdir_removes_an_empty_directory:
  assumes "genfs_serves B tree" and "tidy tree s" and "ov_Rmdir B p nm s = (Inr (), s')"
  shows "\<exists>d. edges tree s p nm = Some d \<and> (\<forall>x. edges tree s d x = None) \<and>
    (\<forall>n. nodes tree s d = Some n \<longrightarrow> n_Type n = TypeDir) \<and>
    becomes tree s s' (upd2 ((edges tree s)(d := bt_edge (tree (of_base s)) d)) p nm None)
      ((nodes tree s)(d := bt_node (tree (of_base s)) d))"
  by (rule rmdir_effect [OF assms])

theorem rmdir_removes_an_empty_directory_witness:
  "edges sample_tree (snd (ov_Rmdir sample_base 1 ''e'' (snd (ov_Mkdir sample_base 9 1 ''e'' 493 1 1 sample_ofs)))) 1 ''e'' = None"
proof -
  let ?s = "snd (ov_Mkdir sample_base 9 1 ''e'' 493 1 1 sample_ofs)"
  have "\<not> isl (fst (ov_Mkdir sample_base 9 1 ''e'' 493 1 1 sample_ofs))" by code_simp
  from create_effect [OF sample_serves sample_tidy sample_space, of sample_content 9 1 "''e''", OF disjI2 [OF disjI1 [OF run_value [OF this]]]]
  have s: "tidy sample_tree ?s" by (auto simp: becomes_def)
  have "\<not> isl (fst (ov_Rmdir sample_base 1 ''e'' ?s))" by code_simp
  from rmdir_removes_an_empty_directory [OF sample_serves s run_unit [OF this]]
  show ?thesis by (auto simp: becomes_def upd2_app)
qed

text \<open>
  C32: Rename refines moving a name in a tree. It does not check that the destination's parent is a
  directory, as Create and Link do, and leaves that to its caller; where it is one, and Rename
  succeeds, the source named an inode. If source and destination are one name, or already name
  the same inode, nothing changed. Otherwise the source name is gone and the destination names
  that inode; a file the destination named before has one link less and the new change time, or, at its
  last link, nothing but the base's half of it is left; a directory it named before was empty, and of
  it only the base's half is left. No other name or inode changed, except that under the inode of a
  replaced directory, which no longer has this name, whatever the base generation has there is
  visible again to a client that still holds the inode.
\<close>

theorem rename_moves_one_name:
  assumes "genfs_serves B tree" and "tidy tree s" and "ov_Rename B C now p nm p' nm' s = (Inr (), s')"
    and "nodes tree s p' = Some pd" "n_Type pd = TypeDir"
  shows "\<exists>i. edges tree s p nm = Some i \<and>
    (if (p, nm) = (p', nm') \<or> edges tree s p' nm' = Some i then becomes tree s s' (edges tree s) (nodes tree s)
     else \<exists>E N. cleared tree now s p' nm' E N \<and> becomes tree s s' (upd2 (upd2 E p nm None) p' nm' (Some i)) N)"
  by (rule rename_effect [OF assms])

theorem rename_moves_one_name_witness:
  "edges sample_tree (snd (ov_Rename sample_base sample_content 9 2 ''x'' 1 ''g'' sample_ofs)) 1 ''g'' = Some 4"
proof -
  have "\<not> isl (fst (ov_Rename sample_base sample_content 9 2 ''x'' 1 ''g'' sample_ofs))" by code_simp
  moreover have "nodes sample_tree sample_ofs 1 = Some (sample_node 1 TypeDir 2)" "n_Type (sample_node 1 TypeDir 2) = TypeDir"
    "edges sample_tree sample_ofs 2 ''x'' = Some 4" "edges sample_tree sample_ofs 1 ''g'' = Some 3"
    by (simp_all add: sample_ofs_def m_node_def m_edge_def backed_def sample_defs)
  ultimately show ?thesis
    using rename_moves_one_name [OF sample_serves sample_tidy run_unit, of sample_content 9 2 "''x''" 1 "''g''"]
    by (auto simp: becomes_def upd2_app)
qed

text \<open>
  SetAttr touches one inode: a success answers its attributes, of the same type, number and link
  count, with the new change time and the mode and owner asked for, or the old ones where none
  was asked; no name and no other inode of the merged tree changed.
\<close>

theorem set_attr_touches_one_inode:
  assumes "genfs_serves B tree" and "tidy tree s" and "ov_SetAttr B C now i inp s = (Inr out, s')"
  shows "\<exists>n. nodes tree s i = Some n \<and> n_Type out = n_Type n \<and> n_Inode out = i \<and> n_Nlink out = n_Nlink n \<and>
    n_CtimeNS out = now \<and> n_Mode out = or_else (sa_Mode inp) (n_Mode n) \<and>
    n_UID out = or_else (sa_UID inp) (n_UID n) \<and> n_GID out = or_else (sa_GID inp) (n_GID n) \<and>
    becomes tree s s' (edges tree s) ((nodes tree s)(i \<mapsto> out))"
  by (rule set_attr_effect [OF assms])

theorem set_attr_touches_one_inode_witness:
  "\<exists>n out. nodes sample_tree sample_ofs 4 = Some n \<and> n_Mode out = 384 \<and> n_UID out = n_UID n \<and>
    nodes sample_tree (snd (ov_SetAttr sample_base sample_content 9 4
      \<lparr>sa_Mode = Some 384, sa_UID = None, sa_GID = None, sa_MtimeNS = None, sa_Size = Some 0\<rparr> sample_ofs)) 4 = Some out"
proof -
  let ?inp = "\<lparr>sa_Mode = Some 384, sa_UID = None, sa_GID = None, sa_MtimeNS = None, sa_Size = Some 0\<rparr>"
  have "\<not> isl (fst (ov_SetAttr sample_base sample_content 9 4 ?inp sample_ofs))" by code_simp
  from set_attr_touches_one_inode [OF sample_serves sample_tidy run_value [OF this]]
  show ?thesis by (auto simp: becomes_def or_else_def)
qed

text \<open>
  C39: Write answers how much it took, all of it, only for a regular file and only when nothing
  failed; the file's length never shrinks and covers the end of what was written, its times are
  the write's, and no name and no other inode of the merged tree changed.
\<close>

theorem write_extends_one_file:
  assumes "genfs_serves B tree" and "tidy tree s" and "ov_Write B C now i off data s = (Inr c, s')"
  shows "\<exists>n out. nodes tree s i = Some n \<and> n_Type n = TypeFile \<and> n_Type out = TypeFile \<and>
    c = length data \<and> out = n\<lparr>n_Length := n_Length out, n_MtimeNS := now, n_CtimeNS := now\<rparr> \<and>
    n_Length n \<le>s n_Length out \<and> off + word_of_nat (length data) \<le>s n_Length out \<and>
    becomes tree s s' (edges tree s) ((nodes tree s)(i \<mapsto> out))"
  by (rule write_effect [OF assms])

theorem write_extends_one_file_witness:
  "fst (ov_Write sample_base sample_content 9 4 0 [7, 8] sample_ofs) = Inr 2"
proof -
  have "\<not> isl (fst (ov_Write sample_base sample_content 9 4 0 [7, 8] sample_ofs))" by code_simp
  note run = run_value [OF this]
  from write_extends_one_file [OF sample_serves sample_tidy run]
  have "projr (fst (ov_Write sample_base sample_content 9 4 0 [7, 8] sample_ofs)) = length [7 :: byte, 8]" by blast
  then show ?thesis using arg_cong [OF run, of fst] by (simp add: numeral_2_eq_2)
qed

text \<open>
  C33: The rows stay well typed through every session in which a rename is only asked for into a
  directory, which Rename itself does not check, and in which the 64-bit inode numbers have not run
  out: after any sequence of such requests, failed ones included, of reads and of seals, every
  edge row records the type its inode has, every name hangs under a directory, an inode that
  overrides one of the base keeps its type, every key has one row, and the next inode number is
  one that nothing uses.
\<close>

theorem sessions_keep_rows_well_typed:
  assumes "genfs_serves B tree" "tidy tree s" "(session_step B C tree)\<^sup>*\<^sup>* s s'"
  shows "well_typed (of_tb s') (tree (of_base s'))"
proof -
  have "tidy tree s'"
    using assms(3,2) by (induction rule: rtranclp_induct) (auto intro: session_step_tidy [OF assms(1)])
  then show ?thesis by (simp add: tidy_def)
qed

theorem sessions_keep_rows_well_typed_witness:
  "well_typed (of_tb (snd (ov_Rmdir sample_base 1 ''d'' sample_ofs))) (sample_tree ())"
proof -
  have step: "session_step sample_base sample_content sample_tree sample_ofs (snd (ov_Rmdir sample_base 1 ''d'' sample_ofs))"
    by (rule session_step.requested [where q = "Rmdir 1 ''d''" and now = 9 and r = "fst (ov_Rmdir sample_base 1 ''d'' sample_ofs)"])
      (simp_all add: sample_space)
  have "(session_step sample_base sample_content sample_tree)\<^sup>*\<^sup>* sample_ofs (snd (ov_Rmdir sample_base 1 ''d'' sample_ofs))"
    using step by (rule r_into_rtranclp)
  from sessions_keep_rows_well_typed [OF sample_serves sample_tidy this] show ?thesis by simp
qed

section \<open>Where the code does less than it says\<close>

text \<open>Programs that leave the set of dirty inodes alone.\<close>

definition unmarking :: "(('b, 'c) ofs, 'a) prog \<Rightarrow> bool" where
  "unmarking m \<longleftrightarrow> (\<forall>s. of_dirtySet (snd (m s)) = of_dirtySet s)"

named_theorems unmarking_intros

lemma unmarking_basic [unmarking_intros]:
  "unmarking (ret x)" "unmarking (fail e)" "unmarking (asks f)" "unmarking (exec g)" "unmarking (put_prov i pe)"
  "unmarking (bumpSeqLocked is)" "unmarking (drop_staged C i)" "unmarking (on_base h)"
  by (simp_all add: unmarking_def ret_def fail_def asks_def exec_def changes_def put_prov_def bumpSeqLocked_def Let_def
      drop_staged_def whenever_def on_base_def split: prod.split)

lemma unmarking_andThen [unmarking_intros]: "unmarking m \<Longrightarrow> (\<And>x. unmarking (f x)) \<Longrightarrow> unmarking (andThen m f)"
  unfolding unmarking_def andThen_def by (auto split: prod.split sum.split) (metis snd_conv)+

lemma unmarking_attempt [unmarking_intros]: "unmarking m \<Longrightarrow> (\<And>x. unmarking (f x)) \<Longrightarrow> unmarking (attempt m f)"
  unfolding unmarking_def attempt_def by (auto split: prod.split) (metis snd_conv)+

lemma unmarking_withTx [unmarking_intros]: "unmarking m \<Longrightarrow> unmarking (withTx m)"
proof -
  assume m: "unmarking m"
  show ?thesis
    unfolding unmarking_def
  proof
    fix s
    obtain r s' where run: "m (s\<lparr>of_rows := None\<rparr>) = (r, s')" by fastforce
    have "of_dirtySet s' = of_dirtySet s"
      using m [unfolded unmarking_def, rule_format, of "s\<lparr>of_rows := None\<rparr>"] run by simp
    then show "of_dirtySet (snd (withTx m s)) = of_dirtySet s"
      by (auto simp: withTx_def run split: sum.split list.split option.split)
  qed
qed

lemma baseLookup_unmarking [unmarking_intros]: "unmarking (baseLookupLocked B p nm)"
  unfolding baseLookupLocked_def by (intro unmarking_intros)

lemma ensureBase_unmarking [unmarking_intros]: "unmarking (ensureBaseLocked B ino :: (('b, 'c) ofs, unit) prog)"
proof -
  have "unmarking (ensureBaseDepth B ino d :: (('b, 'c) ofs, unit) prog)" for d
  proof (induction "Suc maxBaseChainDepth - d" arbitrary: ino d rule: less_induct)
    case less
    have deeper: "unmarking (ensureBaseDepth B i (Suc d) :: (('b, 'c) ofs, unit) prog)" if "\<not> maxBaseChainDepth < d" for i
      using less [of "Suc d" i] that by (simp add: Suc_diff_le)
    show ?case
      by (subst ensureBaseDepth.simps)
        (auto simp: Let_def intro!: unmarking_intros deeper split: option.splits sum.splits prod.splits)
  qed
  then show ?thesis by (simp add: ensureBaseLocked_def)
qed

lemma resolve_unmarking [unmarking_intros]: "unmarking (resolveLocked B p nm)"
  unfolding resolveLocked_def by (auto intro!: unmarking_intros split: option.split prod.split)

lemma removeEdge_unmarking [unmarking_intros]: "unmarking (removeEdgeLocked B p nm ov)"
  unfolding removeEdgeLocked_def baseHasEdgeLocked_def putWhiteout_def putOEdge_def deleteOEdge_def
  by (auto intro!: unmarking_intros split: prod.split sum.split)

lemma dropNodeRef_unmarking [unmarking_intros]: "unmarking (dropNodeRefLocked B now i h)"
  unfolding dropNodeRefLocked_def drop_from_row_def purgeNodeLocked_def putONode_def
  by (auto intro!: unmarking_intros split: option.split)

lemma Unlink_dirty_set:
  assumes "ov_Unlink B C now p nm s = (r, s')" "of_dirtySet s = Some d"
  shows "\<exists>d'. of_dirtySet s' = Some d' \<and> set d' \<subseteq> insert p (set d)"
proof -
  have m: "of_dirtySet (snd (markDirtyLocked [p] s)) = Some (if p = 0 then d else List.insert p d)" "\<not> isl (fst (markDirtyLocked [p] s))"
    using assms(2) by (simp_all add: markDirtyLocked_def andThen_def bumpSeqLocked_def changes_def Let_def)
  define rest where "rest = andThen (resolveLocked B p nm) (\<lambda>r.
       if rs_typ r = TypeDir then fail ErrIsDir
       else andThen (bumpSeqLocked [rs_ino r]) (\<lambda>_.
       andThen
         (withTx (andThen (removeEdgeLocked B p nm (rs_overlay r)) (\<lambda>_.
            dropNodeRefLocked B now (rs_ino r) (rs_node r)))) (drop_staged C)))"
  have "unmarking rest"
    unfolding rest_def by (auto intro!: unmarking_intros)
  moreover obtain u where u: "markDirtyLocked [p] s = (Inr (), u)"
    using m(2) by (cases "markDirtyLocked [p] s"; cases "fst (markDirtyLocked [p] s)") auto
  ultimately have "of_dirtySet s' = of_dirtySet (snd (markDirtyLocked [p] s))"
    using assms(1) unfolding ov_Unlink_def rest_def [symmetric] andThen_def [of "markDirtyLocked [p]"] u unmarking_def
    by (simp only: prod.case sum.case snd_conv) (metis snd_conv)
  then show ?thesis using m(1) by auto
qed

text \<open>
  C40: IsDirty, said to be exactly as authoritative as the tables, is not. Whenever the set it answers
  from is loaded and neither it nor any table names a file, removing one of several names of that
  file writes its row, with one link less and the new change time, so that the tables and
  DirtyInodes name it; IsDirty still answers that the session has not touched it.
\<close>

theorem unlinked_file_with_another_name_is_not_dirty:
  assumes "genfs_serves B tree" "tidy tree s" "of_dirtySet s = Some d" "i \<notin> set d" "i \<notin> set (loaded_dirty (of_tb s))"
    and "edges tree s p nm = Some i" "nodes tree s i = Some n" "1 < n_Nlink n" "ov_Unlink B C now p nm s = (Inr (), s')"
  shows "fst (IsDirty i s') = Inr False \<and>
    (\<exists>r. map_of (tb_onode (of_tb s')) i = Some r \<and> or_node r = n\<lparr>n_Nlink := n_Nlink n - 1, n_CtimeNS := now\<rparr>) \<and>
    i \<in> set (loaded_dirty (of_tb s')) \<and> (\<exists>named. fst (DirtyInodes s') = Inr named \<and> i \<in> set named)"
proof -
  have n: "n_Type n \<noteq> TypeDir" and eff: "becomes tree s s' (upd2 (edges tree s) p nm None)
      ((nodes tree s)(i \<mapsto> n\<lparr>n_Nlink := n_Nlink n - 1, n_CtimeNS := now\<rparr>))"
    using unlink_effect [OF assms(1,2,9)] assms(6-8) by (auto simp: one_link_less_def)
  have row: "map_of (tb_onode (of_tb s)) i = None"
    using assms(5) by (auto simp: loaded_dirty_def map_of_eq_None_iff)
  have "bt_node (tree (of_base s')) i = Some n"
    using assms(7) row eff by (simp add: m_node_def becomes_def)
  moreover have "n \<noteq> n\<lparr>n_Nlink := n_Nlink n - 1, n_CtimeNS := now\<rparr>"
  proof
    assume "n = n\<lparr>n_Nlink := n_Nlink n - 1, n_CtimeNS := now\<rparr>"
    then have "n_Nlink n = n_Nlink n - 1" by (rule trans [OF arg_cong [of _ _ n_Nlink]]) simp
    then show False by simp
  qed
  moreover have shows_it: "nodes tree s' i = Some (n\<lparr>n_Nlink := n_Nlink n - 1, n_CtimeNS := now\<rparr>)"
    using eff unfolding becomes_def by (metis fun_upd_same)
  ultimately obtain r where r: "map_of (tb_onode (of_tb s')) i = Some r" "or_node r = n\<lparr>n_Nlink := n_Nlink n - 1, n_CtimeNS := now\<rparr>"
    by (auto simp: m_node_def split: option.splits)
  then have named: "i \<in> set (loaded_dirty (of_tb s'))"
    by (auto simp: loaded_dirty_def dest: map_of_SomeD intro: rev_image_eqI)
  have tidy: "tidy tree s'" using eff by (simp add: becomes_def)
  have "\<exists>dn. nodes tree s p = Some dn \<and> n_Type dn = TypeDir"
    using typed_parts(4) [OF tidy_parts(3) [OF assms(2)]] assms(6) unfolding parents_typed_def by blast
  then have "p \<noteq> i" using n assms(7) by auto
  then have "fst (IsDirty i s') = Inr False"
    using Unlink_dirty_set [OF assms(9,3)] assms(4)
    by (auto simp: IsDirty_def loadDirtyLocked_def andThen_def changes_def asks_def)
  moreover have "fst (DirtyInodes s') = Inr (remdups (row_dirty (of_tb s') @ (case of_dirtySet s' of None \<Rightarrow> [] | Some d \<Rightarrow> d)))"
    using cur_tb [OF tidy_parts(1) [OF tidy]] by (simp add: DirtyInodes_def asks_def)
  ultimately show ?thesis using r named by (auto simp: row_dirty_def)
qed

theorem unlinked_file_with_another_name_is_not_dirty_witness:
  "let s = snd (IsDirty 3 sample_ofs)
   in fst (IsDirty 3 s) = Inr False \<and> fst (IsDirty 3 (snd (ov_Unlink sample_base sample_content 9 1 ''g'' s))) = Inr False \<and>
      3 \<in> set (loaded_dirty (of_tb (snd (ov_Unlink sample_base sample_content 9 1 ''g'' s))))"
proof -
  let ?s = "snd (IsDirty 3 sample_ofs)"
  have s: "tidy sample_tree ?s"
    using session_step_tidy [OF sample_serves asked_dirty [OF prod.collapse [symmetric]] sample_tidy] .
  have vals: "of_dirtySet ?s = Some []" "of_tb ?s = of_tb sample_ofs" "fst (IsDirty 3 ?s) = Inr False" "loaded_dirty (of_tb ?s) = []"
    by code_simp+
  have view: "edges sample_tree ?s 1 ''g'' = Some 3" "nodes sample_tree ?s 3 = Some (sample_node 3 TypeFile 2)"
    unfolding vals(2) by (simp_all add: sample_ofs_def m_node_def m_edge_def backed_def sample_defs)
  have "1 < n_Nlink (sample_node 3 TypeFile 2)"
    by (simp add: sample_node_def new_node_def)
  moreover have "\<not> isl (fst (ov_Unlink sample_base sample_content 9 1 ''g'' ?s))" by code_simp
  ultimately show ?thesis
    using unlinked_file_with_another_name_is_not_dirty [OF sample_serves s vals(1) _ _ view _ run_unit, of sample_content 9] vals(3,4)
    by simp
qed

text \<open>
  A directory of the base generation that was emptied and removed still works for a client that holds
  its inode: the entries removed from it are back, and a file created in it is accepted and
  kept under an inode that no name leads to.
\<close>

theorem removed_directory_takes_new_files:
  "let s = snd (ov_Rmdir sample_base 1 ''d'' (snd (ov_Unlink sample_base sample_content 9 2 ''x'' sample_ofs)))
   in fst (ov_Lookup sample_base 1 ''d'' s) = Inl ErrNotExist \<and>
      fst (ov_Lookup sample_base 2 ''x'' s) = Inr (sample_node 4 TypeFile 1) \<and>
      \<not> isl (fst (ov_Create sample_base sample_content 9 2 ''z'' 420 1 1 s))"
  by code_simp

end
