(* ===== verification/Binary_Heap.thy ===== *)
theory Binary_Heap
  imports Pelfs_Prelude "HOL-Library.Multiset"
begin

text \<open>
  The array heap of Go's \<open>container/heap\<close>, as \<open>internal/extsort\<close> uses it: \<open>Init\<close>, \<open>Fix\<close> of the
  root and \<open>Pop\<close> over a list ordered by a key. Child indices are \<open>2i+1\<close> and \<open>2i+2\<close>.
\<close>

section \<open>The operations\<close>

definition swap_at :: "'a list \<Rightarrow> nat \<Rightarrow> nat \<Rightarrow> 'a list" where
  "swap_at h i j = h[i := h ! j, j := h ! i]"

function heap_down :: "('a \<Rightarrow> 'k::linorder) \<Rightarrow> nat \<Rightarrow> 'a list \<Rightarrow> nat \<Rightarrow> 'a list" where
  "heap_down f n h i =
     (let j1 = 2 * i + 1 in
      if n \<le> j1 then h
      else
        let j = (if j1 + 1 < n \<and> f (h ! (j1 + 1)) < f (h ! j1) then j1 + 1 else j1) in
        if \<not> f (h ! j) < f (h ! i) then h
        else heap_down f n (swap_at h i j) j)"
  by pat_completeness auto
termination
  by (relation "measure (\<lambda>(f, n, h, i). n - i)") (auto simp: Let_def split: if_splits)

declare heap_down.simps [simp del]

definition heap_Init :: "('a \<Rightarrow> 'k::linorder) \<Rightarrow> 'a list \<Rightarrow> 'a list" where
  "heap_Init f h = fold (\<lambda>i h. heap_down f (length h) h i) (rev [0..<length h div 2]) h"

text \<open>\<open>Fix(h, 0)\<close>: what \<open>down\<close> does not move, \<open>up\<close> from the root does not move either.\<close>

definition heap_Fix0 :: "('a \<Rightarrow> 'k::linorder) \<Rightarrow> 'a list \<Rightarrow> 'a list" where
  "heap_Fix0 f h = heap_down f (length h) h 0"

definition heap_Pop :: "('a \<Rightarrow> 'k::linorder) \<Rightarrow> 'a list \<Rightarrow> 'a \<times> 'a list" where
  "heap_Pop f h =
     (let n = length h - 1; h' = heap_down f n (swap_at h 0 n) 0 in (last h', butlast h'))"

section \<open>The order they keep\<close>

definition child :: "nat \<Rightarrow> nat \<Rightarrow> bool" where
  "child a b \<longleftrightarrow> b = 2 * a + 1 \<or> b = 2 * a + 2"

definition heap_from :: "('a \<Rightarrow> 'k::linorder) \<Rightarrow> nat \<Rightarrow> nat \<Rightarrow> 'a list \<Rightarrow> bool" where
  "heap_from f k n h \<longleftrightarrow> (\<forall>a b. k \<le> a \<and> child a b \<and> b < n \<longrightarrow> f (h ! a) \<le> f (h ! b))"

definition heap_but :: "('a \<Rightarrow> 'k::linorder) \<Rightarrow> nat \<Rightarrow> nat \<Rightarrow> nat \<Rightarrow> 'a list \<Rightarrow> bool" where
  "heap_but f k n i h \<longleftrightarrow>
     (\<forall>a b. k \<le> a \<and> child a b \<and> b < n \<and> a \<noteq> i \<longrightarrow> f (h ! a) \<le> f (h ! b)) \<and>
     (\<forall>p b. k \<le> p \<and> child p i \<and> child i b \<and> b < n \<longrightarrow> f (h ! p) \<le> f (h ! b))"

lemma child_less: "child a b \<Longrightarrow> a < b"
  by (auto simp: child_def)

lemma child_parent: "child a b \<Longrightarrow> child a' b \<Longrightarrow> a = a'"
  unfolding child_def by presburger

lemma length_swap_at [simp]: "length (swap_at h i j) = length h"
  by (simp add: swap_at_def)

lemma nth_swap_at: "i < length h \<Longrightarrow> j < length h \<Longrightarrow>
    swap_at h i j ! a = (if a = j then h ! i else if a = i then h ! j else h ! a)"
  by (auto simp: swap_at_def nth_list_update)

lemma mset_swap_at: "i < length h \<Longrightarrow> j < length h \<Longrightarrow> mset (swap_at h i j) = mset h"
  by (simp add: swap_at_def mset_swap)

definition smaller_child :: "('a \<Rightarrow> 'k::linorder) \<Rightarrow> nat \<Rightarrow> 'a list \<Rightarrow> nat \<Rightarrow> nat" where
  "smaller_child f n h i =
     (if 2 * i + 2 < n \<and> f (h ! (2 * i + 2)) < f (h ! (2 * i + 1)) then 2 * i + 2 else 2 * i + 1)"

lemma heap_down_unfold: "heap_down f n h i =
    (if n \<le> 2 * i + 1 \<or> \<not> f (h ! smaller_child f n h i) < f (h ! i) then h
     else heap_down f n (swap_at h i (smaller_child f n h i)) (smaller_child f n h i))"
  by (subst heap_down.simps) (simp add: Let_def smaller_child_def)

lemma smaller_child:
  assumes "2 * i + 1 < n"
  shows "child i (smaller_child f n h i)" "smaller_child f n h i < n"
    "child i b \<Longrightarrow> b < n \<Longrightarrow> f (h ! smaller_child f n h i) \<le> f (h ! b)"
  using assms by (auto simp: smaller_child_def child_def)

lemma heap_but_swap:
  assumes n: "n \<le> length h" and i: "2 * i + 1 < n" "k \<le> i" and hp: "heap_but f k n i h"
    and less: "f (h ! smaller_child f n h i) < f (h ! i)"
  shows "heap_but f k n (smaller_child f n h i) (swap_at h i (smaller_child f n h i))"
proof -
  define j where "j = smaller_child f n h i"
  note c = smaller_child [where f = f and h = h, OF i(1), folded j_def]
  have len: "i < length h" "j < length h" using i n c(2) by auto
  have ij: "i < j" using child_less [OF c(1)] .
  note nth = nth_swap_at [OF len]
  have one: "f (swap_at h i j ! a) \<le> f (swap_at h i j ! b)" if ab: "k \<le> a" "child a b" "b < n" "a \<noteq> j" for a b
  proof (cases "a = i")
    case True
    show ?thesis
    proof (cases "b = j")
      case True
      then show ?thesis using \<open>a = i\<close> less [folded j_def] ij by (simp add: nth less_imp_le)
    next
      case False
      then show ?thesis using \<open>a = i\<close> ij c(3) ab child_less [OF ab(2)] by (simp add: nth)
    qed
  next
    case False
    then have "b \<noteq> j" using child_parent [OF c(1)] ab(2) by blast
    show ?thesis
    proof (cases "b = i")
      case True
      then have "f (h ! a) \<le> f (h ! j)" using hp ab c(1,2) unfolding heap_but_def by blast
      then show ?thesis using True False ab(4) ij by (simp add: nth)
    next
      case other: False
      then show ?thesis using hp ab False \<open>b \<noteq> j\<close> by (simp add: nth heap_but_def)
    qed
  qed
  moreover have "f (swap_at h i j ! p) \<le> f (swap_at h i j ! b)" if pb: "k \<le> p" "child p j" "child j b" "b < n" for p b
  proof -
    have "p = i" using child_parent [OF c(1) pb(2)] by simp
    moreover have "f (h ! j) \<le> f (h ! b)" using hp pb ij i(2) unfolding heap_but_def by auto
    moreover have "b \<noteq> i" "b \<noteq> j" using child_less [OF pb(3)] ij by auto
    ultimately show ?thesis using ij by (simp add: nth)
  qed
  ultimately show ?thesis unfolding heap_but_def j_def by blast
qed

lemma heap_down_heap:
  "n \<le> length h \<Longrightarrow> k \<le> i \<Longrightarrow> heap_but f k n i h \<Longrightarrow> heap_from f k n (heap_down f n h i)"
proof (induction "n - i" arbitrary: h i rule: less_induct)
  case less
  show ?case
  proof (cases "n \<le> 2 * i + 1 \<or> \<not> f (h ! smaller_child f n h i) < f (h ! i)")
    case True
    have "f (h ! a) \<le> f (h ! b)" if ab: "k \<le> a" "child a b" "b < n" for a b
    proof (cases "a = i")
      case True
      then have "2 * i + 1 < n" using ab by (auto simp: child_def)
      then show ?thesis using smaller_child(3) [of i n b f h] ab True
          \<open>n \<le> 2 * i + 1 \<or> \<not> f (h ! smaller_child f n h i) < f (h ! i)\<close> by force
    next
      case False
      then show ?thesis using less.prems(3) ab unfolding heap_but_def by blast
    qed
    then show ?thesis using True by (simp add: heap_down_unfold [of f n h i] heap_from_def)
  next
    case False
    then have i: "2 * i + 1 < n" and lt: "f (h ! smaller_child f n h i) < f (h ! i)" by auto
    have c: "i < smaller_child f n h i" "smaller_child f n h i < n"
      using smaller_child [OF i] child_less by blast+
    show ?thesis
      using less.hyps [OF _ _ _ heap_but_swap [OF less.prems(1) i less.prems(2,3) lt]] less.prems(1,2) c False
      by (simp add: heap_down_unfold [of f n h i] diff_less_mono2)
  qed
qed

lemma heap_down_keeps:
  "n \<le> length h \<Longrightarrow> length (heap_down f n h i) = length h \<and> mset (heap_down f n h i) = mset h \<and>
    (\<forall>a. n \<le> a \<longrightarrow> heap_down f n h i ! a = h ! a)"
proof (induction "n - i" arbitrary: h i rule: less_induct)
  case less
  show ?case
  proof (cases "n \<le> 2 * i + 1 \<or> \<not> f (h ! smaller_child f n h i) < f (h ! i)")
    case True
    then show ?thesis by (simp add: heap_down_unfold [of f n h i])
  next
    case False
    then have i: "2 * i + 1 < n" by auto
    have c: "i < smaller_child f n h i" "smaller_child f n h i < n"
      using smaller_child [OF i] child_less by blast+
    then show ?thesis
      using less.hyps [of "smaller_child f n h i" "swap_at h i (smaller_child f n h i)"] less.prems i False
      by (simp add: heap_down_unfold [of f n h i] diff_less_mono2 mset_swap_at nth_swap_at)
  qed
qed

lemma heap_top: "heap_from f 0 n h \<Longrightarrow> j < n \<Longrightarrow> f (h ! 0) \<le> f (h ! j)"
proof (induction j rule: less_induct)
  case (less j)
  show ?case
  proof (cases "j = 0")
    case False
    let ?p = "(j - 1) div 2"
    have "child ?p j" using False by (auto simp: child_def)
    then have "f (h ! ?p) \<le> f (h ! j)" using less.prems unfolding heap_from_def by blast
    moreover have "f (h ! 0) \<le> f (h ! ?p)" using less.IH [of ?p] less.prems False by auto
    ultimately show ?thesis by simp
  qed simp
qed

lemma heap_from_but: "heap_from f (Suc i) n h \<Longrightarrow> heap_but f i n i h"
  unfolding heap_from_def heap_but_def by (auto dest: child_less simp: Suc_le_eq)

lemma heap_Init_heap: "heap_from f 0 (length h) (heap_Init f h) \<and> mset (heap_Init f h) = mset h \<and>
    length (heap_Init f h) = length h"
proof -
  have "heap_from f 0 (length h) (fold (\<lambda>i h. heap_down f (length h) h i) (rev [0..<m]) g) \<and>
      mset (fold (\<lambda>i h. heap_down f (length h) h i) (rev [0..<m]) g) = mset g \<and>
      length (fold (\<lambda>i h. heap_down f (length h) h i) (rev [0..<m]) g) = length g"
    if "heap_from f m (length g) g" "length g = length h" for m g
    using that
  proof (induction m arbitrary: g)
    case (Suc m)
    have "heap_from f m (length g) (heap_down f (length g) g m)"
      using heap_down_heap [OF order_refl order_refl heap_from_but] Suc.prems(1) by blast
    then show ?case
      using Suc.IH [of "heap_down f (length g) g m"] heap_down_keeps [of "length g" g f m] Suc.prems(2) by simp
  qed simp
  moreover have "heap_from f (length h div 2) (length h) h"
    by (auto simp: heap_from_def child_def)
  ultimately show ?thesis by (simp add: heap_Init_def)
qed

text \<open>After the root changed, after the root left.\<close>

lemma heap_Fix0_heap:
  assumes "heap_from f 0 (length h) h"
  shows "heap_from f 0 (length h) (heap_Fix0 f (h[0 := x]))" "mset (heap_Fix0 f (h[0 := x])) = mset (h[0 := x])"
    "length (heap_Fix0 f (h[0 := x])) = length h"
proof -
  have "h[0 := x] ! b = h ! b" if "child a b" for a b
    using child_less [OF that] by simp
  then have "heap_but f 0 (length h) 0 (h[0 := x])"
    using assms by (auto simp: heap_but_def heap_from_def dest: child_less)
  then show "heap_from f 0 (length h) (heap_Fix0 f (h[0 := x]))"
    unfolding heap_Fix0_def using heap_down_heap [of "length h" "h[0 := x]" 0 0 f] by simp
  show "mset (heap_Fix0 f (h[0 := x])) = mset (h[0 := x])" "length (heap_Fix0 f (h[0 := x])) = length h"
    unfolding heap_Fix0_def using heap_down_keeps [of "length h" "h[0 := x]" f 0] by simp_all
qed

lemma heap_Pop_heap:
  assumes hp: "heap_from f 0 (length h) h" and ne: "h \<noteq> []" and p: "heap_Pop f h = (x, g)"
  shows "heap_from f 0 (length g) g" "x = h ! 0" "mset h = add_mset x (mset g)"
proof -
  define n where "n = length h - 1"
  define q where "q = heap_down f n (swap_at h 0 n) 0"
  have n: "n < length h" "length h = Suc n" using ne by (auto simp: n_def)
  have x: "x = last q" "g = butlast q" using p by (simp_all add: heap_Pop_def Let_def n_def q_def)
  have z: "0 < length h" using ne by simp
  have keep: "length q = length h" "mset q = mset h" "q ! n = h ! 0"
    using heap_down_keeps [of n "swap_at h 0 n" f 0] n mset_swap_at [OF z n(1)] nth_swap_at [OF z n(1)]
    by (auto simp: q_def)
  have "heap_but f 0 n 0 (swap_at h 0 n)"
    using hp n nth_swap_at [OF z n(1)] by (auto simp: heap_but_def heap_from_def dest: child_less)
  then have "heap_from f 0 n q" unfolding q_def using n by (intro heap_down_heap) auto
  then show "heap_from f 0 (length g) g"
    using keep n by (auto simp: x heap_from_def nth_butlast dest: child_less) (metis (no_types) child_less less_trans nth_butlast length_butlast diff_Suc_1)
  have q: "q \<noteq> []" using keep n by auto
  show "x = h ! 0" using keep n q by (simp add: x last_conv_nth)
  show "mset h = add_mset x (mset g)"
    using keep(2) q by (metis x append_butlast_last_id mset_append mset.simps(1) mset.simps(2) union_mset_add_mset_right add_0_right)
qed

end
