(* ===== verification/External_Sort.thy ===== *)
theory External_Sort
  imports Binary_Heap "HOL-Library.AList"
begin

text \<open>
  Sorting more fixed-width records than fit in memory, \<open>internal/extsort\<close>: the sorter that spills
  sorted runs to files, the merge that reads them back through a heap, and the table searched
  by key. Every call to the operating system may fail, and a run's file may become unreadable
  after some bytes. \<open>sort.Sort\<close> of the standard library, which keeps no order among equal
  keys, is an argument.
\<close>

section \<open>Files\<close>

datatype xs_err =
    Ragged nat
  | AfterMerge
  | IoFailed string
  | UnexpectedEOF

text \<open>The names the code formats, \<open>name-007.run\<close> and \<open>name.table\<close>.\<close>

datatype xs_file = RunFile string nat | TableFile string

text \<open>
  \<open>dk_fates\<close> says how the coming calls end, in order: \<open>None\<close> is success, an error of a write carries
  how many bytes got in. \<open>dk_bad\<close> says after how many bytes the reading of a file fails.
\<close>

record disk =
  dk_files :: "(xs_file \<times> bytes) list"
  dk_fates :: "(string \<times> nat) option list"
  dk_bad :: "(xs_file \<times> nat) list"

definition io_call :: "disk \<Rightarrow> (string \<times> nat) option \<times> disk" where
  "io_call d = (case dk_fates d of [] \<Rightarrow> (None, d) | x # xs \<Rightarrow> (x, d\<lparr>dk_fates := xs\<rparr>))"

definition file_of :: "disk \<Rightarrow> xs_file \<Rightarrow> bytes" where
  "file_of d fp = (case map_of (dk_files d) fp of Some b \<Rightarrow> b | None \<Rightarrow> [])"

definition put_file :: "xs_file \<Rightarrow> bytes \<Rightarrow> disk \<Rightarrow> disk" where
  "put_file fp b d = d\<lparr>dk_files := AList.update fp b (dk_files d)\<rparr>"

definition create_file :: "xs_file \<Rightarrow> disk \<Rightarrow> string option \<times> disk" where
  "create_file fp d =
     (case io_call d of
        (Some (e, n), d') \<Rightarrow> (Some e, d')
      | (None, d') \<Rightarrow> (None, put_file fp [] d'))"

definition write_file :: "xs_file \<Rightarrow> bytes \<Rightarrow> disk \<Rightarrow> string option \<times> disk" where
  "write_file fp b d =
     (case io_call d of
        (Some (e, n), d') \<Rightarrow> (Some e, put_file fp (file_of d' fp @ take n b) d')
      | (None, d') \<Rightarrow> (None, put_file fp (file_of d' fp @ b) d'))"

definition plain_call :: "disk \<Rightarrow> string option \<times> disk" where
  "plain_call d = (case io_call d of (r, d') \<Rightarrow> (map_option fst r, d'))"

section \<open>The sorter\<close>

text \<open>\<open>xs_nil\<close> tells the nil buffer that \<open>Close\<close> leaves from an empty one.\<close>

record sorter =
  xs_name :: string
  xs_recLen :: nat
  xs_keyLen :: nat
  xs_budget :: nat
  xs_buf :: bytes
  xs_nil :: bool
  xs_runs :: "xs_file list"
  xs_seq :: nat
  xs_count :: nat
  xs_done :: bool

definition DefaultBytes :: nat where "DefaultBytes = 67108864"

definition xs_New :: "string \<Rightarrow> nat \<Rightarrow> nat \<Rightarrow> int \<Rightarrow> sorter" where
  "xs_New name keyLen recLen budget =
     (let b = (if budget \<le> 0 then DefaultBytes else nat budget);
          c = (if b < recLen then recLen else b)
      in \<lparr>xs_name = name, xs_recLen = recLen, xs_keyLen = keyLen, xs_budget = c - c mod recLen,
          xs_buf = [], xs_nil = False, xs_runs = [], xs_seq = 0, xs_count = 0, xs_done = False\<rparr>)"

type_synonym sort_fun = "(bytes \<Rightarrow> bytes) \<Rightarrow> bytes list \<Rightarrow> bytes list"

definition records :: "nat \<Rightarrow> bytes \<Rightarrow> bytes list" where
  "records l b = rows b l (length b div l)"

definition sortBuf :: "sort_fun \<Rightarrow> sorter \<Rightarrow> sorter" where
  "sortBuf S s = s\<lparr>xs_buf := concat (S (take (xs_keyLen s)) (records (xs_recLen s) (xs_buf s)))\<rparr>"

definition xs_flush :: "sort_fun \<Rightarrow> sorter \<Rightarrow> disk \<Rightarrow> xs_err option \<times> sorter \<times> disk" where
  "xs_flush S s d =
     (if xs_buf s = [] then (None, s, d)
      else
        let s1 = sortBuf S s;
            fp = RunFile (xs_name s1) (xs_seq s1);
            s2 = s1\<lparr>xs_seq := xs_seq s1 + 1\<rparr>
        in case create_file fp d of
             (Some e, d1) \<Rightarrow> (Some (IoFailed e), s2, d1)
           | (None, d1) \<Rightarrow>
               (case write_file fp (xs_buf s2) d1 of
                  (w, d2) \<Rightarrow>
                    (case plain_call d2 of
                       (c, d3) \<Rightarrow>
                         (case w of
                            Some e \<Rightarrow> (Some (IoFailed e), s2, d3)
                          | None \<Rightarrow>
                              (case c of
                                 Some e \<Rightarrow> (Some (IoFailed e), s2, d3)
                               | None \<Rightarrow> (None, s2\<lparr>xs_runs := xs_runs s2 @ [fp], xs_buf := []\<rparr>, d3))))))"

lemma flush_buf: "xs_flush S s d = (None, s', d') \<Longrightarrow> xs_buf s' = [] \<and> xs_budget s' = xs_budget s"
  by (auto simp: xs_flush_def sortBuf_def Let_def split: if_splits prod.splits option.splits)

lemma flush_empties:
  assumes "(q, r) = xs_flush S s d" "None = q" "(s', d') = r"
  shows "xs_buf s' = []" "xs_budget s' = xs_budget s"
  using flush_buf [of S s d s' d'] assms by auto

text \<open>
  The loop of \<open>Add\<close>, which spills a large batch in pieces of the budget. A budget of 0 would come
  from records of no bytes, on which \<open>New\<close> panics.
\<close>

function xs_fill :: "sort_fun \<Rightarrow> bytes \<Rightarrow> sorter \<Rightarrow> disk \<Rightarrow> xs_err option \<times> sorter \<times> disk" where
  "xs_fill S recs s d =
     (if recs = [] \<or> xs_budget s = 0 then (None, s, d)
      else
        let n = min (xs_budget s - length (xs_buf s)) (length recs);
            s1 = s\<lparr>xs_buf := xs_buf s @ take n recs\<rparr>
        in if xs_budget s1 \<le> length (xs_buf s1)
           then (case xs_flush S s1 d of
                   (Some e, s2, d2) \<Rightarrow> (Some e, s2, d2)
                 | (None, s2, d2) \<Rightarrow> xs_fill S (drop n recs) s2 d2)
           else xs_fill S (drop n recs) s1 d)"
  by pat_completeness auto
termination
  by (relation "measure (\<lambda>(S, recs, s, d). 2 * length recs + (if xs_budget s \<le> length (xs_buf s) then 1 else 0))")
    (auto simp: flush_empties)

declare xs_fill.simps [simp del]

definition xs_Add :: "sort_fun \<Rightarrow> bytes \<Rightarrow> sorter \<Rightarrow> disk \<Rightarrow> xs_err option \<times> sorter \<times> disk" where
  "xs_Add S recs s d =
     (if recs = [] then (None, s, d)
      else if length recs mod xs_recLen s \<noteq> 0 then (Some (Ragged (length recs)), s, d)
      else if xs_done s then (Some AfterMerge, s, d)
      else xs_fill S recs (s\<lparr>xs_count := xs_count s + length recs div xs_recLen s\<rparr>) d)"

section \<open>The merge\<close>

record run_cursor =
  rc_rest :: bytes
  rc_left :: "nat option"
  rc_rec :: bytes
  rc_live :: bool

definition rc_next :: "nat \<Rightarrow> run_cursor \<Rightarrow> xs_err + run_cursor" where
  "rc_next l c =
     (let got = (case rc_left c of None \<Rightarrow> rc_rest c | Some k \<Rightarrow> take k (rc_rest c)) in
      if l \<le> length got then
        Inr (c\<lparr>rc_rest := drop l (rc_rest c), rc_left := map_option (\<lambda>k. k - l) (rc_left c),
               rc_rec := take l got, rc_live := True\<rparr>)
      else if case_option False (\<lambda>k. k \<le> length (rc_rest c)) (rc_left c) then Inl (IoFailed ''read'')
      else if rc_rest c = [] then Inr (c\<lparr>rc_live := False\<rparr>)
      else Inl UnexpectedEOF)"

record merged =
  mg_recLen :: nat
  mg_keyLen :: nat
  mg_mem :: "bytes option"
  mg_at :: nat
  mg_heap :: "run_cursor list"
  mg_err :: "xs_err option"

fun open_runs :: "nat \<Rightarrow> xs_file list \<Rightarrow> run_cursor list \<Rightarrow> disk \<Rightarrow> (xs_err + run_cursor list) \<times> disk" where
  "open_runs l [] acc d = (Inr acc, d)"
| "open_runs l (fp # fps) acc d =
     (case plain_call d of
        (Some e, d') \<Rightarrow> (Inl (IoFailed e), d')
      | (None, d') \<Rightarrow>
          (case rc_next l \<lparr>rc_rest = file_of d' fp, rc_left = map_of (dk_bad d') fp,
               rc_rec = replicate l 0, rc_live = False\<rparr> of
             Inl e \<Rightarrow> (Inl e, d')
           | Inr c \<Rightarrow> open_runs l fps (if rc_live c then acc @ [c] else acc) d'))"

definition head_of :: "nat \<Rightarrow> run_cursor \<Rightarrow> bytes" where
  "head_of keyLen c = take keyLen (rc_rec c)"

definition xs_Sorted :: "sort_fun \<Rightarrow> sorter \<Rightarrow> disk \<Rightarrow> (xs_err + merged) \<times> sorter \<times> disk" where
  "xs_Sorted S s0 d =
     (let s = s0\<lparr>xs_done := True\<rparr> in
      if xs_runs s = [] then
        let s1 = sortBuf S s
        in (Inr \<lparr>mg_recLen = xs_recLen s1, mg_keyLen = 0, mg_mem = (if xs_nil s1 then None else Some (xs_buf s1)), mg_at = 0, mg_heap = [],
               mg_err = None\<rparr>, s1, d)
      else
        (case xs_flush S s d of
           (Some e, s1, d1) \<Rightarrow> (Inl e, s1, d1)
         | (None, s1, d1) \<Rightarrow>
             (case open_runs (xs_recLen s1) (xs_runs s1) [] d1 of
                (Inl e, d2) \<Rightarrow> (Inl e, s1, d2)
              | (Inr cs, d2) \<Rightarrow>
                  (Inr \<lparr>mg_recLen = xs_recLen s1, mg_keyLen = xs_keyLen s1, mg_mem = None, mg_at = 0,
                     mg_heap = heap_Init (head_of (xs_keyLen s1)) cs, mg_err = None\<rparr>, s1, d2))))"

definition mg_Next :: "merged \<Rightarrow> bytes option \<times> merged" where
  "mg_Next m =
     (if mg_err m \<noteq> None then (None, m)
      else case mg_mem m of
        Some b \<Rightarrow>
          if length b < mg_at m + mg_recLen m then (None, m)
          else (Some (ext b (mg_at m) (mg_recLen m)), m\<lparr>mg_at := mg_at m + mg_recLen m\<rparr>)
      | None \<Rightarrow>
          if mg_heap m = [] then (None, m)
          else
            let top = mg_heap m ! 0 in
            case rc_next (mg_recLen m) top of
              Inl e \<Rightarrow> (None, m\<lparr>mg_err := Some e\<rparr>)
            | Inr c \<Rightarrow>
                let h = (mg_heap m)[0 := c] in
                if rc_live c then (Some (rc_rec top), m\<lparr>mg_heap := heap_Fix0 (head_of (mg_keyLen m)) h\<rparr>)
                else (Some (rc_rec top), m\<lparr>mg_heap := snd (heap_Pop (head_of (mg_keyLen m)) h)\<rparr>))"

text \<open>A caller's loop, with fuel: every record up to the end and the merge as it was left.\<close>

fun drain :: "nat \<Rightarrow> merged \<Rightarrow> (bytes list \<times> merged) option" where
  "drain 0 m = None"
| "drain (Suc n) m =
     (case mg_Next m of
        (None, m') \<Rightarrow> Some ([], m')
      | (Some r, m') \<Rightarrow> (case drain n m' of None \<Rightarrow> None | Some (rs, m'') \<Rightarrow> Some (r # rs, m'')))"

fun add_all :: "sort_fun \<Rightarrow> bytes list \<Rightarrow> sorter \<Rightarrow> disk \<Rightarrow> xs_err option \<times> sorter \<times> disk" where
  "add_all S [] s d = (None, s, d)"
| "add_all S (b # bs) s d =
     (case xs_Add S b s d of
        (Some e, s', d') \<Rightarrow> (Some e, s', d')
      | (None, s', d') \<Rightarrow> add_all S bs s' d')"

section \<open>The table\<close>

definition runReadBytes :: nat where "runReadBytes = 262144"

text \<open>The comparison is evaluated on binary numerals.\<close>

lemma runReadBytes_less [code_unfold]: "runReadBytes < n \<longleftrightarrow> (262144 :: int) < int n"
  by (simp add: runReadBytes_def)

text \<open>\<open>flushWriter\<close>: its file, what it holds back, and the disk.\<close>

definition fw_Flush :: "xs_file \<Rightarrow> bytes \<Rightarrow> disk \<Rightarrow> string option \<times> bytes \<times> disk" where
  "fw_Flush fp held d =
     (if held = [] then (None, held, d)
      else case write_file fp held d of
        (Some e, d') \<Rightarrow> (Some e, held, d')
      | (None, d') \<Rightarrow> (None, [], d'))"

definition fw_Write :: "xs_file \<Rightarrow> bytes \<Rightarrow> bytes \<Rightarrow> disk \<Rightarrow> string option \<times> bytes \<times> disk" where
  "fw_Write fp p held d =
     (case (if runReadBytes < length held + length p then fw_Flush fp held d else (None, held, d)) of
        (Some e, held', d') \<Rightarrow> (Some e, held', d')
      | (None, held', d') \<Rightarrow>
          if runReadBytes < length p then (case write_file fp p d' of (r, d2) \<Rightarrow> (r, held', d2))
          else (None, held' @ p, d'))"

definition remove_file :: "xs_file \<Rightarrow> disk \<Rightarrow> string option \<times> disk" where
  "remove_file fp d =
     (case plain_call d of
        (Some e, d') \<Rightarrow> (Some e, d')
      | (None, d') \<Rightarrow> (None, d'\<lparr>dk_files := filter (\<lambda>(f, b). f \<noteq> fp) (dk_files d')\<rparr>))"

fun remove_all :: "xs_file list \<Rightarrow> disk \<Rightarrow> string option \<times> disk" where
  "remove_all [] d = (None, d)"
| "remove_all (fp # fps) d =
     (case remove_file fp d of
        (e, d1) \<Rightarrow> (case remove_all fps d1 of (e', d2) \<Rightarrow> (case e of Some x \<Rightarrow> (Some x, d2) | None \<Rightarrow> (e', d2))))"

definition xs_Close :: "sorter \<Rightarrow> disk \<Rightarrow> string option \<times> sorter \<times> disk" where
  "xs_Close s d =
     (case remove_all (xs_runs s) d of
        (e, d') \<Rightarrow> (e, s\<lparr>xs_done := True, xs_buf := [], xs_nil := True, xs_runs := []\<rparr>, d'))"

record xs_table =
  tb_recLen :: nat
  tb_keyLen :: nat
  tb_bytes :: bytes
  tb_n :: nat

fun table_loop :: "nat \<Rightarrow> xs_file \<Rightarrow> merged \<Rightarrow> nat \<Rightarrow> bytes \<Rightarrow> disk
    \<Rightarrow> (string option \<times> merged \<times> nat \<times> bytes \<times> disk) option" where
  "table_loop 0 fp m n held d = None"
| "table_loop (Suc fuel) fp m n held d =
     (case mg_Next m of
        (None, m') \<Rightarrow> Some (None, m', n, held, d)
      | (Some r, m') \<Rightarrow>
          (case fw_Write fp r held d of
             (Some e, held', d') \<Rightarrow> Some (Some e, m', n, held', d')
           | (None, held', d') \<Rightarrow> table_loop fuel fp m' (n + 1) held' d'))"

definition xs_Table :: "sort_fun \<Rightarrow> nat \<Rightarrow> sorter \<Rightarrow> disk \<Rightarrow> ((xs_err + xs_table) \<times> sorter \<times> disk) option" where
  "xs_Table S fuel s d =
     (case xs_Sorted S s d of
        (Inl e, s1, d1) \<Rightarrow> Some (Inl e, s1, d1)
      | (Inr m, s1, d1) \<Rightarrow>
          (let fp = TableFile (xs_name s1);
               table = (\<lambda>b n. \<lparr>tb_recLen = xs_recLen s1, tb_keyLen = xs_keyLen s1, tb_bytes = b, tb_n = n\<rparr>);
               give_up = (\<lambda>e d. Some (Inl e, s1, snd (remove_file fp d))) in
           case mg_mem m of
             Some b \<Rightarrow> Some (Inr (table b (length b div xs_recLen s1)), s1, d1)
           | None \<Rightarrow>
               (case create_file fp d1 of
                  (Some e, d2) \<Rightarrow> Some (Inl (IoFailed e), s1, d2)
                | (None, d2) \<Rightarrow>
                    (case table_loop fuel fp m 0 [] d2 of
                       None \<Rightarrow> None
                     | Some (Some e, m', n, held, d3) \<Rightarrow> give_up (IoFailed e) d3
                     | Some (None, m', n, held, d3) \<Rightarrow>
                         (case mg_err m' of
                            Some e \<Rightarrow> give_up e d3
                          | None \<Rightarrow>
                              (case fw_Flush fp held d3 of
                                 (Some e, held', d4) \<Rightarrow> give_up (IoFailed e) d4
                               | (None, held', d4) \<Rightarrow>
                                   (case xs_Close s1 d4 of
                                      (Some e, s2, d5) \<Rightarrow> Some (Inl (IoFailed e), s2, snd (remove_file fp d5))
                                    | (None, s2, d5) \<Rightarrow>
                                        if n = 0 then Some (Inr (table [] 0), s2, d5)
                                        else
                                          (case plain_call d5 of
                                             (Some e, d6) \<Rightarrow> Some (Inl (IoFailed e), s2, snd (remove_file fp d6))
                                           | (None, d6) \<Rightarrow>
                                               Some (Inr (table (take (n * xs_recLen s1) (file_of d6 fp)) n), s2, d6)))))))))"

definition tb_At :: "xs_table \<Rightarrow> nat \<Rightarrow> bytes" where
  "tb_At t i = row (tb_bytes t) (tb_recLen t) i"

definition same_key_run :: "xs_table \<Rightarrow> bytes \<Rightarrow> nat \<Rightarrow> nat" where
  "same_key_run t key i =
     length (takeWhile (\<lambda>j. take (tb_keyLen t) (tb_At t j) = key) [i..<tb_n t])"

definition tb_Lookup :: "xs_table \<Rightarrow> bytes \<Rightarrow> (bytes option \<times> nat \<times> nat)" where
  "tb_Lookup t key =
     (let i = go_search (\<lambda>j. key \<le> take (tb_keyLen t) (tb_At t j)) 0 (tb_n t) in
      if i = tb_n t \<or> take (tb_keyLen t) (tb_At t i) \<noteq> key then (None, 0, 0)
      else (Some (tb_At t i), i, same_key_run t key i))"

end
