(* ===== verification/External_Order.thy ===== *)
theory External_Order
  imports External_Sort
begin

text \<open>
  What \<open>internal/extsort\<close> promises: every record handed to a sorter comes out of its merge, once
  for each time it was handed in, in key order, however the batches and the budget fell and
  whether or not anything spilled; a merge that cannot read a run says so.
\<close>

section \<open>Records\<close>

lemma records_Nil [simp]: "records l [] = []"
  by (simp add: records_def rows_def)

lemma records_uniform: "0 < l \<Longrightarrow> uniform l rs \<Longrightarrow> records l (concat rs) = rs"
  by (simp add: records_def rows_concat)

lemma uniform_split:
  assumes "0 < l" "length b mod l = 0"
  obtains rs where "uniform l rs" "b = concat rs"
proof -
  have "\<exists>rs. uniform l rs \<and> b = concat rs" if "length b = n * l" for n
    using that
  proof (induction n arbitrary: b)
    case 0
    then show ?case by (intro exI [of _ "[]"]) simp
  next
    case (Suc n)
    then have "length (drop l b) = n * l" by simp
    from Suc.IH [OF this] obtain rs where rs: "uniform l rs" "drop l b = concat rs" by blast
    moreover have "b = take l b @ drop l b" by simp
    ultimately show ?case using Suc.prems by (intro exI [of _ "take l b # rs"]) auto
  qed
  moreover have "length b = (length b div l) * l" using assms(2) by (metis div_mod_decomp add_0_right)
  ultimately show ?thesis using that by blast
qed

lemma whole_records:
  assumes "0 < l" "length b mod l = 0"
  shows "concat (records l b) = b" "uniform l (records l b)"
proof -
  obtain rs where "uniform l rs" "b = concat rs" using assms by (rule uniform_split)
  then show "concat (records l b) = b" "uniform l (records l b)" using records_uniform [OF assms(1)] by simp_all
qed

lemma records_append:
  assumes "0 < l" "length a mod l = 0" "length b mod l = 0"
  shows "records l (a @ b) = records l a @ records l b"
proof -
  obtain rs qs where "uniform l rs" "a = concat rs" "uniform l qs" "b = concat qs"
    using uniform_split [OF assms(1,2)] uniform_split [OF assms(1,3)] by metis
  then show ?thesis using records_uniform [OF assms(1), of "rs @ qs"] by (simp add: records_uniform assms(1))
qed

lemma records_Cons:
  assumes "0 < l" "length b mod l = 0" "l \<le> length b"
  shows "records l b = take l b # records l (drop l b)" "length (drop l b) mod l = 0"
proof -
  show m: "length (drop l b) mod l = 0" using assms by (metis le_mod_geq length_drop)
  have "records l (take l b @ drop l b) = records l (take l b) @ records l (drop l b)"
    using assms m by (intro records_append) auto
  moreover have "records l (take l b) = [take l b]"
    using records_uniform [OF assms(1), of "[take l b]"] assms by simp
  ultimately show "records l b = take l b # records l (drop l b)" by simp
qed

lemma length_records: "0 < l \<Longrightarrow> length (records l b) = length b div l"
  by (simp add: records_def)

section \<open>Reading runs\<close>

definition by_key :: "nat \<Rightarrow> bytes list \<Rightarrow> bool" where
  "by_key k rs \<longleftrightarrow> sorted (map (take k) rs)"

definition rc_pending :: "nat \<Rightarrow> run_cursor \<Rightarrow> bytes list" where
  "rc_pending l c = rc_rec c # records l (rc_rest c)"

definition rc_ok :: "nat \<Rightarrow> nat \<Rightarrow> run_cursor \<Rightarrow> bool" where
  "rc_ok l k c \<longleftrightarrow> rc_live c \<and> length (rc_rest c) mod l = 0 \<and> by_key k (rc_pending l c)"

lemma rc_next_Inr:
  assumes l: "0 < l" "length (rc_rest c) mod l = 0" and n: "rc_next l c = Inr c'"
  shows "if rc_live c' then rc_pending l c' = records l (rc_rest c) \<and> length (rc_rest c') mod l = 0
    else rc_rest c = [] \<and> rc_rec c' = rc_rec c"
proof (cases "l \<le> length (case rc_left c of None \<Rightarrow> rc_rest c | Some k \<Rightarrow> take k (rc_rest c))")
  case True
  then have c': "rc_live c'" "rc_rest c' = drop l (rc_rest c)" "rc_rec c' = take l (rc_rest c)" "l \<le> length (rc_rest c)"
    using n by (auto simp: rc_next_def min_def split: option.splits if_splits)
  then show ?thesis using records_Cons [OF l c'(4)] by (simp add: rc_pending_def)
next
  case False
  then show ?thesis using n by (auto simp: rc_next_def Let_def split: if_splits)
qed

lemma rc_next_ok:
  assumes l: "0 < l" and c: "rc_ok l k c" and n: "rc_next l c = Inr c'"
  shows "rc_live c' \<Longrightarrow> rc_ok l k c' \<and> rc_pending l c = rc_rec c # rc_pending l c'"
    "\<not> rc_live c' \<Longrightarrow> rc_pending l c = [rc_rec c] \<and> rc_rec c' = rc_rec c"
  using rc_next_Inr [OF l _ n] c by (auto simp: rc_ok_def rc_pending_def by_key_def)

section \<open>The merge\<close>

definition pending :: "nat \<Rightarrow> run_cursor list \<Rightarrow> bytes multiset" where
  "pending l h = (\<Sum>c \<in># mset h. mset (rc_pending l c))"

definition merging :: "merged \<Rightarrow> bool" where
  "merging m \<longleftrightarrow> 0 < mg_recLen m \<and> mg_mem m = None \<and>
     (\<forall>c \<in> set (mg_heap m). rc_ok (mg_recLen m) (mg_keyLen m) c) \<and>
     heap_from (head_of (mg_keyLen m)) 0 (length (mg_heap m)) (mg_heap m)"

lemma pending_least:
  assumes "merging m" "mg_heap m \<noteq> []" "r \<in># pending (mg_recLen m) (mg_heap m)"
  shows "take (mg_keyLen m) (rc_rec (mg_heap m ! 0)) \<le> take (mg_keyLen m) r"
proof -
  obtain c where c: "c \<in> set (mg_heap m)" "r \<in> set (rc_pending (mg_recLen m) c)"
    using assms(3) by (auto simp: pending_def)
  obtain j where j: "j < length (mg_heap m)" "mg_heap m ! j = c" using c(1) by (auto simp: in_set_conv_nth)
  have "take (mg_keyLen m) (rc_rec (mg_heap m ! 0)) \<le> take (mg_keyLen m) (rc_rec c)"
    using heap_top [of "head_of (mg_keyLen m)" "length (mg_heap m)" "mg_heap m" j] assms(1) j
    by (simp add: merging_def head_of_def)
  also have "\<dots> \<le> take (mg_keyLen m) r"
    using assms(1) c by (auto simp: merging_def rc_ok_def by_key_def rc_pending_def)
  finally show ?thesis .
qed

lemma merging_Next:
  assumes m: "merging m" and n: "mg_Next m = (Some r, m')"
  shows "merging m' \<and> mg_recLen m' = mg_recLen m \<and> mg_keyLen m' = mg_keyLen m \<and> mg_err m' = None \<and>
    pending (mg_recLen m) (mg_heap m) = add_mset r (pending (mg_recLen m) (mg_heap m')) \<and>
    (\<forall>q \<in># pending (mg_recLen m) (mg_heap m'). take (mg_keyLen m) r \<le> take (mg_keyLen m) q)"
proof -
  let ?h = "mg_heap m" and ?l = "mg_recLen m" and ?k = "mg_keyLen m"
  have ne: "?h \<noteq> []" and e: "mg_err m = None" and mem: "mg_mem m = None"
    using n m by (auto simp: mg_Next_def merging_def split: if_splits)
  obtain c where c: "rc_next ?l (?h ! 0) = Inr c" and r: "r = rc_rec (?h ! 0)"
    using n ne e mem by (auto simp: mg_Next_def Let_def split: sum.splits if_splits)
  obtain t rest where h: "?h = t # rest" using ne by (cases ?h) auto
  have l: "0 < ?l" and t: "rc_ok ?l ?k t" using m h by (auto simp: merging_def)
  have hp: "heap_from (head_of ?k) 0 (length ?h) ?h" using m by (simp add: merging_def)
  have p: "pending ?l ?h = mset (rc_pending ?l t) + pending ?l rest" by (simp add: h pending_def)
  have main: "merging m' \<and> mg_recLen m' = ?l \<and> mg_keyLen m' = ?k \<and> mg_err m' = None \<and>
      pending ?l ?h = add_mset r (pending ?l (mg_heap m'))"
  proof (cases "rc_live c")
    case True
    have m': "m' = m\<lparr>mg_heap := heap_Fix0 (head_of ?k) (?h[0 := c])\<rparr>"
      using n ne e mem c True by (simp add: mg_Next_def Let_def)
    note ok = rc_next_ok(1) [OF l t _ True] and fx = heap_Fix0_heap [OF hp, of c]
    have "set (heap_Fix0 (head_of ?k) (?h[0 := c])) = set (c # rest)"
      using arg_cong [OF fx(2), of set_mset] by (simp add: h)
    moreover have "pending ?l (heap_Fix0 (head_of ?k) (?h[0 := c])) = mset (rc_pending ?l c) + pending ?l rest"
      by (simp add: pending_def fx(2)) (simp add: h)
    ultimately show ?thesis
      using ok c m fx(1,3) p e r by (auto simp: m' merging_def h)
  next
    case False
    obtain x g where pop: "heap_Pop (head_of ?k) (?h[0 := c]) = (x, g)" by fastforce
    have m': "m' = m\<lparr>mg_heap := g\<rparr>"
      using n ne e mem c False pop by (simp add: mg_Next_def Let_def)
    note dead = rc_next_ok(2) [OF l t _ False]
    have same: "head_of ?k c = head_of ?k t" using dead c h by (simp add: head_of_def)
    have "head_of ?k (?h[0 := c] ! a) = head_of ?k (?h ! a)" for a
      using same by (simp add: h nth_Cons split: nat.split)
    then have "heap_from (head_of ?k) 0 (length (?h[0 := c])) (?h[0 := c])"
      using hp by (simp add: heap_from_def)
    note pp = heap_Pop_heap [OF this _ pop]
    have g: "mset g = mset rest" and x: "x = c" using pp(2,3) h by auto
    then have "set g = set rest" by (metis set_mset_mset)
    then show ?thesis using pp(1) dead c m p e r g h by (auto simp: m' merging_def pending_def)
  qed
  moreover have "take ?k r \<le> take ?k q" if "q \<in># pending ?l (mg_heap m')" for q
    using pending_least [OF m ne, of q] that main r by simp
  ultimately show ?thesis by blast
qed

text \<open>The records of an unreadable run, and the one at its top, are still in the heap when the merge stops.\<close>

lemma merging_stops:
  assumes m: "merging m" and n: "mg_Next m = (None, m')" "mg_err m = None"
  shows "pending (mg_recLen m) (mg_heap m') = pending (mg_recLen m) (mg_heap m) \<and>
    (mg_err m' = None \<longleftrightarrow> pending (mg_recLen m) (mg_heap m) = {#})"
  using assms by (auto simp: mg_Next_def merging_def pending_def rc_pending_def Let_def split: if_splits sum.splits)

lemma drain_merging:
  "merging m \<Longrightarrow> mg_err m = None \<Longrightarrow> drain n m = Some (rs, m') \<Longrightarrow>
    mset rs + pending (mg_recLen m) (mg_heap m') = pending (mg_recLen m) (mg_heap m) \<and>
    (mg_err m' = None \<longleftrightarrow> pending (mg_recLen m) (mg_heap m') = {#}) \<and> by_key (mg_keyLen m) rs"
proof (induction n arbitrary: m rs)
  case (Suc n)
  show ?case
  proof (cases "mg_Next m")
    case (Pair r m1)
    show ?thesis
    proof (cases r)
      case None
      then have "rs = []" "m1 = m'" using Suc.prems(3) Pair by simp_all
      then show ?thesis using merging_stops [OF Suc.prems(1) _ Suc.prems(2), of m'] Pair None by (simp add: by_key_def)
    next
      case (Some x)
      then obtain qs where q: "drain n m1 = Some (qs, m')" "rs = x # qs"
        using Suc.prems(3) Pair by (auto split: option.splits)
      note step = merging_Next [OF Suc.prems(1), of x m1]
      have ih: "mset qs + pending (mg_recLen m) (mg_heap m') = pending (mg_recLen m) (mg_heap m1) \<and>
          (mg_err m' = None \<longleftrightarrow> pending (mg_recLen m) (mg_heap m') = {#}) \<and> by_key (mg_keyLen m) qs"
        using Suc.IH [OF _ _ q(1)] step Pair Some by auto
      have "take (mg_keyLen m) x \<le> take (mg_keyLen m) y" if "y \<in> set qs" for y
      proof -
        have "y \<in># pending (mg_recLen m) (mg_heap m1)" using that ih by (metis union_iff set_mset_mset)
        then show ?thesis using step Pair Some by auto
      qed
      then show ?thesis using step ih Pair Some by (auto simp: q(2) by_key_def)
    qed
  qed
qed simp

lemma drain_returns:
  "merging m \<Longrightarrow> size (pending (mg_recLen m) (mg_heap m)) < n \<Longrightarrow> drain n m \<noteq> None"
proof (induction n arbitrary: m)
  case (Suc n)
  obtain r m1 where r: "mg_Next m = (r, m1)" by fastforce
  show ?case
  proof (cases r)
    case (Some x)
    then have "drain n m1 \<noteq> None"
      using Suc.IH [of m1] merging_Next [OF Suc.prems(1), of x m1] Suc.prems(2) r by auto
    then show ?thesis using r Some by auto
  qed (use r in simp)
qed simp

section \<open>The sorter\<close>

definition sorts :: "sort_fun \<Rightarrow> bool" where
  "sorts S \<longleftrightarrow> (\<forall>f rs. mset (S f rs) = mset rs \<and> sorted (map f (S f rs)))"

definition run_recs :: "nat \<Rightarrow> disk \<Rightarrow> xs_file list \<Rightarrow> bytes multiset" where
  "run_recs l d fps = (\<Sum>fp \<in># mset fps. mset (records l (file_of d fp)))"

definition holds_records :: "sorter \<Rightarrow> disk \<Rightarrow> bytes multiset \<Rightarrow> bool" where
  "holds_records s d M \<longleftrightarrow>
     \<not> xs_nil s \<and> 0 < xs_recLen s \<and> 0 < xs_budget s \<and> xs_budget s mod xs_recLen s = 0 \<and>
     length (xs_buf s) mod xs_recLen s = 0 \<and> length (xs_buf s) \<le> xs_budget s \<and>
     distinct (xs_runs s) \<and> (\<forall>fp \<in> set (xs_runs s). \<exists>k < xs_seq s. fp = RunFile (xs_name s) k) \<and>
     (\<forall>fp \<in> set (xs_runs s). length (file_of d fp) mod xs_recLen s = 0 \<and>
        by_key (xs_keyLen s) (records (xs_recLen s) (file_of d fp))) \<and>
     mset (records (xs_recLen s) (xs_buf s)) + run_recs (xs_recLen s) d (xs_runs s) = M"

lemma uniform_mset: "mset a = mset b \<Longrightarrow> uniform l a = uniform l b"
  unfolding uniform_def by (metis set_mset_mset)

lemma sortBuf_records:
  assumes S: "sorts S" and l: "0 < xs_recLen s" "length (xs_buf s) mod xs_recLen s = 0"
  shows "records (xs_recLen s) (xs_buf (sortBuf S s)) = S (take (xs_keyLen s)) (records (xs_recLen s) (xs_buf s))"
    "length (xs_buf (sortBuf S s)) = length (xs_buf s)"
proof -
  let ?rs = "records (xs_recLen s) (xs_buf s)" and ?q = "S (take (xs_keyLen s)) (records (xs_recLen s) (xs_buf s))"
  have m: "mset ?q = mset ?rs" using S by (simp add: sorts_def)
  have u: "uniform (xs_recLen s) ?q" using uniform_mset [OF m] whole_records(2) [OF l] by simp
  then show "records (xs_recLen s) (xs_buf (sortBuf S s)) = ?q"
    using records_uniform [OF l(1)] by (simp add: sortBuf_def)
  have "length (concat ?q) = length ?q * xs_recLen s" using u by simp
  also have "length ?q = length ?rs" using m by (metis size_mset)
  also have "length ?rs * xs_recLen s = length (concat ?rs)" using whole_records(2) [OF l] by simp
  finally show "length (xs_buf (sortBuf S s)) = length (xs_buf s)"
    using whole_records(1) [OF l] by (simp add: sortBuf_def)
qed

lemma sortBuf_holds:
  assumes "sorts S" "holds_records s d M"
  shows "holds_records (sortBuf S s) d M" "by_key (xs_keyLen s) (records (xs_recLen s) (xs_buf (sortBuf S s)))"
proof -
  have l: "0 < xs_recLen s" "length (xs_buf s) mod xs_recLen s = 0" using assms(2) by (simp_all add: holds_records_def)
  note r = sortBuf_records [OF assms(1) l]
  show "by_key (xs_keyLen s) (records (xs_recLen s) (xs_buf (sortBuf S s)))"
    using assms(1) by (simp add: r(1) by_key_def sorts_def)
  have "mset (records (xs_recLen s) (xs_buf (sortBuf S s))) = mset (records (xs_recLen s) (xs_buf s))"
    using assms(1) by (simp add: r(1) sorts_def)
  moreover have "xs_recLen (sortBuf S s) = xs_recLen s" "xs_budget (sortBuf S s) = xs_budget s"
    "xs_runs (sortBuf S s) = xs_runs s" "xs_seq (sortBuf S s) = xs_seq s" "xs_name (sortBuf S s) = xs_name s"
    "xs_keyLen (sortBuf S s) = xs_keyLen s" "xs_nil (sortBuf S s) = xs_nil s" by (simp_all add: sortBuf_def)
  ultimately show "holds_records (sortBuf S s) d M"
    using assms(2) r(2) by (simp add: holds_records_def)
qed

lemma sortBuf_keeps [simp]:
  "xs_recLen (sortBuf S s) = xs_recLen s" "xs_budget (sortBuf S s) = xs_budget s" "xs_runs (sortBuf S s) = xs_runs s"
  "xs_seq (sortBuf S s) = xs_seq s" "xs_name (sortBuf S s) = xs_name s" "xs_keyLen (sortBuf S s) = xs_keyLen s"
  "xs_count (sortBuf S s) = xs_count s" "xs_done (sortBuf S s) = xs_done s"
  by (simp_all add: sortBuf_def)

lemma file_of_put: "file_of (put_file fp b d) fp' = (if fp' = fp then b else file_of d fp')"
  by (simp add: file_of_def put_file_def update_conv')

lemma io_call_files: "io_call d = (r, d') \<Longrightarrow> file_of d' = file_of d"
  by (auto simp: io_call_def file_of_def fun_eq_iff split: list.splits)

lemma create_files: "create_file fp d = (r, d') \<Longrightarrow> fp' \<noteq> fp \<Longrightarrow> file_of d' fp' = file_of d fp'"
  "create_file fp d = (None, d') \<Longrightarrow> file_of d' fp = []"
  by (auto simp: create_file_def file_of_put dest!: io_call_files split: prod.splits option.splits)

lemma write_files: "write_file fp b d = (r, d') \<Longrightarrow> fp' \<noteq> fp \<Longrightarrow> file_of d' fp' = file_of d fp'"
  "write_file fp b d = (None, d') \<Longrightarrow> file_of d' fp = file_of d fp @ b"
  by (auto simp: write_file_def file_of_put dest!: io_call_files split: prod.splits option.splits)

lemma plain_files: "plain_call d = (r, d') \<Longrightarrow> file_of d' = file_of d"
  by (auto simp: plain_call_def dest!: io_call_files split: prod.splits)

lemma run_recs_cong: "(\<And>fp. fp \<in> set fps \<Longrightarrow> file_of d fp = file_of d' fp) \<Longrightarrow> run_recs l d fps = run_recs l d' fps"
  unfolding run_recs_def by (rule arg_cong [where f = sum_mset], rule image_mset_cong) simp

lemma flush_holds:
  assumes S: "sorts S" and h: "holds_records s d M" and f: "xs_flush S s d = (None, s', d')"
  shows "holds_records s' d' M \<and> xs_buf s' = [] \<and> xs_recLen s' = xs_recLen s \<and> xs_keyLen s' = xs_keyLen s \<and>
    xs_name s' = xs_name s \<and> xs_budget s' = xs_budget s \<and> xs_count s' = xs_count s \<and> xs_done s' = xs_done s \<and>
    (xs_buf s \<noteq> [] \<longrightarrow> xs_runs s' \<noteq> []) \<and> (xs_runs s \<noteq> [] \<longrightarrow> xs_runs s' \<noteq> [])"
proof (cases "xs_buf s = []")
  case True
  then show ?thesis using f h by (simp add: xs_flush_def)
next
  case False
  let ?s = "sortBuf S s" and ?fp = "RunFile (xs_name s) (xs_seq s)"
  note sb = sortBuf_holds [OF S h]
  obtain d1 d2 where d1: "create_file ?fp d = (None, d1)" and d2: "write_file ?fp (xs_buf ?s) d1 = (None, d2)"
    and d3: "plain_call d2 = (None, d')"
    and s': "s' = ?s\<lparr>xs_seq := xs_seq s + 1, xs_runs := xs_runs s @ [?fp], xs_buf := []\<rparr>"
    using f False by (auto simp: xs_flush_def Let_def split: prod.splits option.splits)
  have content: "file_of d' ?fp = xs_buf ?s"
    using create_files(2) [OF d1] write_files(2) [OF d2] plain_files [OF d3] by simp
  have other: "file_of d' fp = file_of d fp" if "fp \<in> set (xs_runs s)" for fp
  proof -
    have "fp \<noteq> ?fp" using h that by (auto simp: holds_records_def)
    then show ?thesis using create_files(1) [OF d1] write_files(1) [OF d2] plain_files [OF d3] by simp
  qed
  have "?fp \<notin> set (xs_runs s)" using h by (auto simp: holds_records_def)
  moreover have "run_recs (xs_recLen s) d' (xs_runs s @ [?fp]) =
      run_recs (xs_recLen s) d (xs_runs s) + mset (records (xs_recLen s) (xs_buf ?s))"
    using run_recs_cong [of "xs_runs s" d' d "xs_recLen s"] other content by (simp add: run_recs_def)
  ultimately show ?thesis
    using sb h content other by (auto simp: s' holds_records_def add.commute intro: less_SucI)
qed

lemma fill_holds:
  "sorts S \<Longrightarrow> holds_records s d M \<Longrightarrow> length recs mod xs_recLen s = 0 \<Longrightarrow> xs_fill S recs s d = (None, s', d') \<Longrightarrow>
    holds_records s' d' (M + mset (records (xs_recLen s) recs)) \<and> xs_recLen s' = xs_recLen s \<and>
    xs_keyLen s' = xs_keyLen s \<and> xs_name s' = xs_name s \<and> xs_count s' = xs_count s \<and> xs_done s' = xs_done s"
proof (induction S recs s d arbitrary: M rule: xs_fill.induct)
  case (1 S recs s d)
  let ?l = "xs_recLen s"
  show ?case
  proof (cases "recs = [] \<or> xs_budget s = 0")
    case True
    then show ?thesis using "1.prems" by (auto simp: xs_fill.simps [of S recs s d] holds_records_def)
  next
    case False
    define n where "n = min (xs_budget s - length (xs_buf s)) (length recs)"
    define s1 where "s1 = s\<lparr>xs_buf := xs_buf s @ take n recs\<rparr>"
    have l: "0 < ?l" and parts: "length (xs_buf s) mod ?l = 0" "xs_budget s mod ?l = 0" "length (xs_buf s) \<le> xs_budget s"
      using "1.prems"(2) by (auto simp: holds_records_def)
    have nm: "n mod ?l = 0"
      using parts "1.prems"(3) unfolding n_def min_def by (auto simp: mod_diff_right_eq intro: dvd_imp_mod_0 dvd_diff_nat simp flip: dvd_eq_mod_eq_0)
    have tk: "length (take n recs) mod ?l = 0" "length (drop n recs) mod ?l = 0"
      using nm "1.prems"(3) by (auto simp: n_def min_def dvd_diff_nat simp flip: dvd_eq_mod_eq_0)
    have split: "mset (records ?l recs) = mset (records ?l (take n recs)) + mset (records ?l (drop n recs))"
      using records_append [OF l tk] by (metis append_take_drop_id mset_append)
    have h1: "holds_records s1 d (M + mset (records ?l (take n recs)))"
      using "1.prems"(2) records_append [OF l parts(1) tk(1)] parts tk(1)
      by (auto simp: holds_records_def s1_def n_def dvd_add simp flip: dvd_eq_mod_eq_0)
    note unfold = xs_fill.simps [of S recs s d, folded n_def, unfolded Let_def, folded s1_def]
    show ?thesis
    proof (cases "xs_budget s1 \<le> length (xs_buf s1)")
      case True
      obtain s2 d2 where f: "xs_flush S s1 d = (None, s2, d2)" and r: "xs_fill S (drop n recs) s2 d2 = (None, s', d')"
        using "1.prems"(4) False True by (auto simp: unfold split: prod.splits option.splits)
      have s2: "holds_records s2 d2 (M + mset (records ?l (take n recs)))" "xs_recLen s2 = ?l"
        "xs_keyLen s2 = xs_keyLen s" "xs_name s2 = xs_name s" "xs_count s2 = xs_count s" "xs_done s2 = xs_done s"
        using flush_holds [OF "1.prems"(1) h1 f] by (auto simp: s1_def)
      have "holds_records s' d' (M + mset (records ?l (take n recs)) + mset (records ?l (drop n recs))) \<and>
          xs_recLen s' = ?l \<and> xs_keyLen s' = xs_keyLen s \<and> xs_name s' = xs_name s \<and> xs_count s' = xs_count s \<and>
          xs_done s' = xs_done s"
        using "1.IH"(1) [OF False refl refl] True f s2 "1.prems"(1) r tk(2)
        by (simp add: n_def [symmetric] s1_def [symmetric])
      then show ?thesis by (simp add: split add.assoc)
    next
      case F: False
      then have r: "xs_fill S (drop n recs) s1 d = (None, s', d')"
        using "1.prems"(4) False by (simp add: unfold)
      have "holds_records s' d' (M + mset (records ?l (take n recs)) + mset (records ?l (drop n recs))) \<and>
          xs_recLen s' = xs_recLen s1 \<and> xs_keyLen s' = xs_keyLen s1 \<and> xs_name s' = xs_name s1 \<and> xs_count s' = xs_count s1 \<and>
          xs_done s' = xs_done s1"
        using "1.IH"(2) [OF False refl refl, folded n_def, folded s1_def, OF F "1.prems"(1) h1 _ r] tk(2)
        by (simp add: s1_def)
      then show ?thesis by (simp add: split add.assoc s1_def)
    qed
  qed
qed

lemma add_all_holds:
  assumes S: "sorts S"
  shows "holds_records s d M \<Longrightarrow> add_all S bs s d = (None, s', d') \<Longrightarrow>
    holds_records s' d' (M + mset (records (xs_recLen s) (concat bs))) \<and> xs_recLen s' = xs_recLen s \<and>
    xs_keyLen s' = xs_keyLen s \<and> length (concat bs) mod xs_recLen s = 0 \<and>
    xs_count s' = xs_count s + length (concat bs) div xs_recLen s"
proof (induction bs arbitrary: s d M)
  case Nil
  then show ?case by simp
next
  case (Cons b bs)
  let ?l = "xs_recLen s"
  obtain s1 d1 where a: "xs_Add S b s d = (None, s1, d1)" and r: "add_all S bs s1 d1 = (None, s', d')"
    using Cons.prems(2) by (auto split: prod.splits option.splits)
  have l: "0 < ?l" using Cons.prems(1) by (simp add: holds_records_def)
  have one: "length b mod ?l = 0 \<and> holds_records s1 d1 (M + mset (records ?l b)) \<and> xs_recLen s1 = ?l \<and>
      xs_keyLen s1 = xs_keyLen s \<and> xs_count s1 = xs_count s + length b div ?l"
  proof (cases "b = []")
    case True
    then show ?thesis using a Cons.prems(1) by (simp add: xs_Add_def)
  next
    case False
    let ?s = "s\<lparr>xs_count := xs_count s + length b div ?l\<rparr>"
    have m: "length b mod ?l = 0" and f: "xs_fill S b ?s d = (None, s1, d1)"
      using a False by (auto simp: xs_Add_def split: if_splits)
    have "holds_records ?s d M" using Cons.prems(1) by (simp add: holds_records_def)
    from fill_holds [OF S this _ f] m show ?thesis by simp
  qed
  then have whole: "length (concat bs) mod ?l = 0" using Cons.IH [OF _ r] by auto
  have ih: "holds_records s' d' (M + mset (records ?l b) + mset (records ?l (concat bs)))"
      "xs_recLen s' = ?l" "xs_keyLen s' = xs_keyLen s"
      "xs_count s' = xs_count s + length b div ?l + length (concat bs) div ?l"
    using Cons.IH [of s1 d1 "M + mset (records ?l b)"] one r by simp_all
  have "records ?l (concat (b # bs)) = records ?l b @ records ?l (concat bs)"
    using records_append [OF l _ whole, of b] one by simp
  moreover have "?l dvd length b" "?l dvd length (concat bs)" using one whole by (simp_all add: dvd_eq_mod_eq_0)
  moreover from this have "length (concat (b # bs)) div ?l = length b div ?l + length (concat bs) div ?l"
    "length (concat (b # bs)) mod ?l = 0"
    by (simp_all add: div_add dvd_add flip: dvd_eq_mod_eq_0 del: length_concat)
  ultimately show ?case using ih by (simp only: mset_append add.assoc)
qed

lemma New_holds_none:
  assumes "0 < l"
  shows "holds_records (xs_New name k l budget) d {#}"
proof -
  have "l \<le> c \<Longrightarrow> 0 < c - c mod l" for c using assms by (metis mod_less_divisor mod_less_eq_dividend le_neq_implies_less nat_neq_iff not_le zero_less_diff)
  moreover have "(c - c mod l) mod l = 0" for c by (simp add: minus_mod_eq_mult_div)
  ultimately show ?thesis
    using assms by (auto simp: holds_records_def xs_New_def Let_def run_recs_def)
qed

section \<open>Opening the merge\<close>

lemma open_runs_ok:
  assumes "0 < l"
  shows "open_runs l fps acc d = (Inr cs, d') \<Longrightarrow>
    (\<forall>fp \<in> set fps. length (file_of d fp) mod l = 0 \<and> by_key k (records l (file_of d fp))) \<Longrightarrow>
    (\<forall>c \<in> set acc. rc_ok l k c) \<Longrightarrow>
    (\<forall>c \<in> set cs. rc_ok l k c) \<and> pending l cs = pending l acc + run_recs l d fps \<and> file_of d' = file_of d"
proof (induction fps arbitrary: acc d)
  case Nil
  then show ?case by (simp add: run_recs_def)
next
  case (Cons fp fps)
  obtain d1 c where d1: "plain_call d = (None, d1)"
    and c: "rc_next l \<lparr>rc_rest = file_of d1 fp, rc_left = map_of (dk_bad d1) fp,
               rc_rec = replicate l 0, rc_live = False\<rparr> = Inr c"
    and r: "open_runs l fps (if rc_live c then acc @ [c] else acc) d1 = (Inr cs, d')"
    using Cons.prems(1) by (auto split: prod.splits option.splits sum.splits)
  note files = plain_files [OF d1]
  have n: "if rc_live c then rc_pending l c = records l (file_of d fp) \<and> length (rc_rest c) mod l = 0
      else file_of d fp = []"
    using rc_next_Inr [OF assms _ c] Cons.prems(2) files by (simp split: if_splits)
  then have ok: "\<forall>c' \<in> set (if rc_live c then acc @ [c] else acc). rc_ok l k c'"
    using Cons.prems(2,3) by (auto simp: rc_ok_def)
  have "pending l (if rc_live c then acc @ [c] else acc) = pending l acc + mset (records l (file_of d fp))"
    using n by (auto simp: pending_def)
  moreover have "run_recs l d (fp # fps) = mset (records l (file_of d fp)) + run_recs l d fps"
    by (simp add: run_recs_def)
  moreover have "run_recs l d1 fps = run_recs l d fps" using files by (simp add: run_recs_def)
  ultimately show ?case
    using Cons.IH [OF r _ ok] Cons.prems(2) files by (simp add: add.assoc)
qed

lemma drain_resident:
  assumes "0 < mg_recLen m"
  shows "mg_mem m = Some b \<Longrightarrow> mg_err m = None \<Longrightarrow> length b mod mg_recLen m = 0 \<Longrightarrow> mg_at m \<le> length b \<Longrightarrow>
    mg_at m mod mg_recLen m = 0 \<Longrightarrow> drain n m = Some (rs, m') \<Longrightarrow>
    rs = records (mg_recLen m) (drop (mg_at m) b) \<and> mg_err m' = None"
  using assms
proof (induction n arbitrary: m rs)
  case (Suc n)
  let ?l = "mg_recLen m" and ?a = "mg_at m"
  show ?case
  proof (cases "length b < ?a + ?l")
    case True
    have "?l dvd length b - ?a" using Suc.prems(3,5) by (intro dvd_diff_nat) auto
    then have "(length b - ?a) mod ?l = 0" by simp
    moreover have "length b - ?a < ?l" using True Suc.prems by auto
    ultimately have "length b \<le> ?a" by auto
    then show ?thesis using Suc.prems True by (auto simp: mg_Next_def)
  next
    case False
    let ?m = "m\<lparr>mg_at := ?a + ?l\<rparr>"
    obtain qs where q: "drain n ?m = Some (qs, m')" "rs = ext b ?a ?l # qs"
      using Suc.prems False by (auto simp: mg_Next_def split: option.splits)
    have "?l dvd length b - ?a" using Suc.prems(3,5) by (intro dvd_diff_nat) auto
    then have "length (drop ?a b) mod ?l = 0" by simp
    note rc = records_Cons(1) [OF Suc.prems(7) this]
    have "qs = records ?l (drop (?a + ?l) b) \<and> mg_err m' = None"
      using Suc.IH [of ?m qs] Suc.prems q(1) False by simp
    then show ?thesis using rc False by (simp add: q(2) add.commute)
  qed
qed simp

text \<open>What the merge of a sorter holds.\<close>

lemma Sorted_merge:
  assumes S: "sorts S" and h: "holds_records s d M" and r: "xs_Sorted S s d = (Inr m, s', d')"
  shows "mg_recLen m = xs_recLen s \<and> mg_err m = None \<and> xs_recLen s' = xs_recLen s \<and> xs_keyLen s' = xs_keyLen s \<and>
    (case mg_mem m of
       Some b \<Rightarrow> mg_at m = 0 \<and> length b mod xs_recLen s = 0 \<and> mset (records (xs_recLen s) b) = M \<and>
         by_key (xs_keyLen s) (records (xs_recLen s) b)
     | None \<Rightarrow> merging m \<and> mg_keyLen m = xs_keyLen s \<and> pending (xs_recLen s) (mg_heap m) = M)"
proof (cases "xs_runs s = []")
  case True
  let ?s = "s\<lparr>xs_done := True\<rparr>"
  have "holds_records ?s d M" using h by (simp add: holds_records_def)
  from sortBuf_holds [OF S this] show ?thesis
    using r True by (auto simp: xs_Sorted_def Let_def holds_records_def run_recs_def)
next
  case False
  let ?s = "s\<lparr>xs_done := True\<rparr>"
  have hs: "holds_records ?s d M" using h by (simp add: holds_records_def)
  obtain e s1 d1 where f0: "xs_flush S ?s d = (e, s1, d1)" by (rule prod_cases3)
  obtain q d2 where o0: "open_runs (xs_recLen s1) (xs_runs s1) [] d1 = (q, d2)" by (rule prod.exhaust)
  note body = r [unfolded xs_Sorted_def Let_def, simplified False f0, simplified]
  have f: "xs_flush S ?s d = (None, s1, d1)" using body f0 False by (cases e) simp_all
  obtain cs where q: "q = Inr cs" using body False f f0 o0 by (cases q) simp_all
  note o = o0 [unfolded q]
  have made: "\<lparr>mg_recLen = xs_recLen s1, mg_keyLen = xs_keyLen s1, mg_mem = None, mg_at = 0,
      mg_heap = heap_Init (head_of (xs_keyLen s1)) cs, mg_err = None\<rparr> = m \<and> s1 = s' \<and> d2 = d'"
    using r by (simp (no_asm_use) add: xs_Sorted_def Let_def False f o)
  note m = made [THEN conjunct1, symmetric] and s' = made [THEN conjunct2, THEN conjunct1, symmetric]
  have s1: "holds_records s1 d1 M" "xs_buf s1 = []" "xs_recLen s1 = xs_recLen s" "xs_keyLen s1 = xs_keyLen s"
    using flush_holds [OF S hs f] by auto
  have op: "(\<forall>c \<in> set cs. rc_ok (xs_recLen s1) (xs_keyLen s1) c) \<and>
      pending (xs_recLen s1) cs = pending (xs_recLen s1) [] + run_recs (xs_recLen s1) d1 (xs_runs s1)"
    using open_runs_ok [of "xs_recLen s1" "xs_runs s1" "[]" d1 cs d2 "xs_keyLen s1"] o s1(1)
    by (auto simp: holds_records_def)
  have hi: "heap_from (head_of (xs_keyLen s1)) 0 (length (heap_Init (head_of (xs_keyLen s1)) cs))
      (heap_Init (head_of (xs_keyLen s1)) cs)" "mset (heap_Init (head_of (xs_keyLen s1)) cs) = mset cs"
    using heap_Init_heap [of "head_of (xs_keyLen s1)" cs] by auto
  then have "set (heap_Init (head_of (xs_keyLen s1)) cs) = set cs" by (metis set_mset_mset)
  then have "merging m" using hi(1) op s1(1) by (simp add: merging_def m holds_records_def)
  moreover have "pending (xs_recLen s1) (mg_heap m) = M"
    using op hi(2) s1(1,2) by (simp add: m pending_def holds_records_def)
  ultimately show ?thesis using s1(3,4) by (simp add: m s')
qed


section \<open>The merge of a sorter\<close>

definition stable_sort :: sort_fun where
  "stable_sort f rs = sort_key f rs"

lemma stable_sorts: "sorts stable_sort"
  by (simp add: sorts_def stable_sort_def)

lemma sorted_by_prefix: "by_key k rs \<Longrightarrow> mset rs = mset qs \<Longrightarrow> map (take k) rs = sort (map (take k) qs)"
  by (rule properties_for_sort [symmetric]) (simp_all add: by_key_def)

lemma New_fields: "xs_recLen (xs_New name k l budget) = l" "xs_keyLen (xs_New name k l budget) = k"
    "xs_count (xs_New name k l budget) = 0" "xs_name (xs_New name k l budget) = name"
  by (simp_all add: xs_New_def Let_def)

lemma added_holds:
  assumes "sorts S" "0 < l" "add_all S bs (xs_New name k l budget) d = (None, s, d1)"
  shows "holds_records s d1 (mset (records l (concat bs)))" "xs_recLen s = l" "xs_keyLen s = k"
    "xs_count s = length (records l (concat bs))"
  using add_all_holds [OF assms(1) New_holds_none [OF assms(2)] assms(3)]
  by (simp_all add: New_fields length_records [OF assms(2)])

lemma resident_returns: "mg_mem m = Some b \<Longrightarrow> 0 < mg_recLen m \<Longrightarrow> length b div mg_recLen m - mg_at m div mg_recLen m < n
    \<Longrightarrow> mg_at m mod mg_recLen m = 0 \<Longrightarrow> drain n m \<noteq> None"
proof (induction n arbitrary: m)
  case (Suc n)
  show ?case
  proof (cases "mg_err m \<noteq> None \<or> length b < mg_at m + mg_recLen m")
    case True
    then show ?thesis using Suc.prems(1) by (auto simp: mg_Next_def)
  next
    case False
    let ?m = "m\<lparr>mg_at := mg_at m + mg_recLen m\<rparr>"
    have "(mg_at m + mg_recLen m) div mg_recLen m \<le> length b div mg_recLen m" using False by (intro div_le_mono) simp
    then have "drain n ?m \<noteq> None" using Suc.prems by (intro Suc.IH) auto
    then show ?thesis using Suc.prems(1) False by (auto simp: mg_Next_def)
  qed
qed simp

lemma sorter_drains:
  assumes S: "sorts S" and l: "0 < l"
    and add: "add_all S bs (xs_New name k l budget) d = (None, s, d1)"
    and merge: "xs_Sorted S s d1 = (Inr m, s2, d2)"
    and dr: "drain n m = Some (rs, m')"
  shows "mset rs \<subseteq># mset (records l (concat bs)) \<and> by_key k rs \<and>
    (mg_err m' = None \<longleftrightarrow> mset rs = mset (records l (concat bs)))"
proof -
  note h = added_holds [OF S l add]
  note mg = Sorted_merge [OF S h(1) merge, unfolded h(2,3)]
  show ?thesis
  proof (cases "mg_mem m")
    case None
    then have m: "mset rs + pending l (mg_heap m') = mset (records l (concat bs)) \<and> by_key k rs \<and>
        (mg_err m' = None \<longleftrightarrow> pending l (mg_heap m') = {#})"
      using drain_merging [of m n rs m'] dr mg by auto
    then have "mset rs = mset (records l (concat bs)) \<longleftrightarrow> pending l (mg_heap m') = {#}"
      by (metis add.right_neutral add_left_cancel)
    then show ?thesis using m by (metis mset_subset_eq_add_left)
  next
    case (Some b)
    then have "rs = records (mg_recLen m) (drop (mg_at m) b) \<and> mg_err m' = None"
      using drain_resident [of m b n rs m'] mg l dr by simp
    then show ?thesis using mg Some by auto
  qed
qed

lemma merge_returns:
  assumes "sorts S" "0 < l" "add_all S bs (xs_New name k l budget) d = (None, s, d1)"
    and "xs_Sorted S s d1 = (Inr m, s2, d2)" "xs_count s < n"
  shows "drain n m \<noteq> None"
proof -
  note h = added_holds [OF assms(1-3)]
  note mg = Sorted_merge [OF assms(1) h(1) assms(4), unfolded h(2,3)]
  show ?thesis
  proof (cases "mg_mem m")
    case None
    then show ?thesis using drain_returns [of m n] mg h(4) assms(5) by simp
  next
    case (Some b)
    then have "size (mset (records l b)) = xs_count s" using mg h(4) by simp
    then show ?thesis using resident_returns [OF Some, of n] mg Some assms(2,5) by (simp add: length_records)
  qed
qed

text \<open>
  C30: a sort of any size. Whatever the batches, the budget and the number of runs it spilled, a
  sorter that took its records and opened its merge without an error hands out, in key order,
  records that were added and no others, and after at most as many calls as records were added
  the merge ends; it ends without an error exactly when every record came out once for each time
  it went in, and then the keys the caller read are the sorted list of the keys that were added.
\<close>
theorem external_sort_is_a_sort:
  assumes "sorts S" "0 < l"
    and "add_all S bs (xs_New name k l budget) d = (None, s, d1)"
    and "xs_Sorted S s d1 = (Inr m, s2, d2)"
  shows "\<exists>rs m'. drain (Suc (xs_count s)) m = Some (rs, m') \<and> sorted (map (take k) rs) \<and>
    mset rs \<subseteq># mset (records l (concat bs)) \<and>
    (if mg_err m' = None
     then mset rs = mset (records l (concat bs)) \<and>
       map (take k) rs = sort (map (take k) (records l (concat bs))) \<and> length rs = xs_count s
     else length rs < xs_count s)"
proof -
  let ?all = "records l (concat bs)"
  obtain rs m' where d: "drain (Suc (xs_count s)) m = Some (rs, m')"
    using merge_returns [OF assms, of "Suc (xs_count s)"] by auto
  note main = sorter_drains [OF assms d]
  have count: "xs_count s = size (mset ?all)" using added_holds(4) [OF assms(1-3)] by simp
  show ?thesis
  proof (cases "mg_err m' = None")
    case True
    then have m: "mset rs = mset ?all" using main by simp
    then have "length rs = xs_count s" using count by (metis size_mset)
    then show ?thesis using d main True m sorted_by_prefix [of k rs ?all] by (auto simp: by_key_def)
  next
    case False
    then have "mset rs \<subset># mset ?all" using main by (auto simp: subset_mset_def)
    then have "length rs < xs_count s" using count mset_subset_size by fastforce
    then show ?thesis using d main False by (auto simp: by_key_def)
  qed
qed

text \<open>Five records of two bytes, sorted by the first, with room for two: three runs.\<close>

definition tried_batches :: "bytes list" where
  "tried_batches = [[5, 1, 3, 2, 5, 3], [1, 4], [3, 5]]"

definition empty_disk :: disk where
  "empty_disk = \<lparr>dk_files = [], dk_fates = [], dk_bad = []\<rparr>"

definition tried_sorter :: "xs_err option \<times> sorter \<times> disk" where
  "tried_sorter = add_all stable_sort tried_batches (xs_New ''t'' 1 2 5) empty_disk"

definition tried_merge :: "(xs_err + merged) \<times> sorter \<times> disk" where
  "tried_merge = (case tried_sorter of (e, s, d) \<Rightarrow> xs_Sorted stable_sort s d)"

theorem external_sort_is_a_sort_witness:
  "\<exists>rs m'. drain 6 (projr (fst tried_merge)) = Some (rs, m') \<and> sorted (map (take 1) rs) \<and>
    map (take 1) rs = sort (map (take 1) (records 2 (concat tried_batches))) \<and>
    length (mg_heap (projr (fst tried_merge))) = 3"
proof -
  have a: "add_all stable_sort tried_batches (xs_New ''t'' 1 2 5) empty_disk =
      (None, fst (snd tried_sorter), snd (snd tried_sorter))" by code_simp
  have m: "xs_Sorted stable_sort (fst (snd tried_sorter)) (snd (snd tried_sorter)) =
      (Inr (projr (fst tried_merge)), fst (snd tried_merge), snd (snd tried_merge))" by code_simp
  have c: "xs_count (fst (snd tried_sorter)) = 5" by code_simp
  have e: "mg_err (snd (the (drain 6 (projr (fst tried_merge))))) = None" by code_simp
  have h: "length (mg_heap (projr (fst tried_merge))) = 3" by code_simp
  show ?thesis
    using external_sort_is_a_sort [OF stable_sorts _ a m, unfolded c] e h by (auto split: if_splits)
qed

end
