(* ===== verification/External_Table.thy ===== *)
theory External_Table
  imports External_Order
begin

text \<open>
  The table \<open>internal/extsort\<close> makes of a sorter's records, \<open>table.go\<close>: what the buffered writer
  puts in its file, which records the table then holds, and what a lookup answers.
\<close>

section \<open>Writing the table\<close>

lemma fw_Flush_writes: "fw_Flush fp held d = (None, held', d') \<Longrightarrow> held' = [] \<and> file_of d' fp = file_of d fp @ held"
  by (auto simp: fw_Flush_def dest!: write_files(2) split: if_splits prod.splits option.splits)

lemma fw_Write_writes:
  assumes w: "fw_Write fp p held d = (None, held', d')"
  shows "file_of d' fp @ held' = file_of d fp @ held @ p"
proof (cases "runReadBytes < length held + length p")
  case True
  obtain e h1 d1 where f0: "fw_Flush fp held d = (e, h1, d1)" by (rule prod_cases3)
  have f: "fw_Flush fp held d = (None, h1, d1)" using w True f0 by (cases e) (simp_all add: fw_Write_def)
  have b: "(if runReadBytes < length p then (case write_file fp p d1 of (r, d2) \<Rightarrow> (r, h1, d2))
      else (None, h1 @ p, d1)) = (None, held', d')"
    using w True f by (simp add: fw_Write_def)
  show ?thesis
    using fw_Flush_writes [OF f] b by (auto dest!: write_files(2) split: if_splits prod.splits)
next
  case False
  then show ?thesis using w by (simp add: fw_Write_def)
qed

lemma table_loop_writes:
  "table_loop fuel fp m n held d = Some (None, m', n', held', d') \<Longrightarrow>
    \<exists>rs. drain fuel m = Some (rs, m') \<and> n' = n + length rs \<and>
      file_of d' fp @ held' = file_of d fp @ held @ concat rs"
proof (induction fuel arbitrary: m n held d)
  case (Suc fuel)
  obtain r m1 where nx: "mg_Next m = (r, m1)" by (rule prod.exhaust)
  show ?case
  proof (cases r)
    case None
    then show ?thesis using Suc.prems nx by simp
  next
    case (Some x)
    obtain h1 d1 where w: "fw_Write fp x held d = (None, h1, d1)"
      and lp: "table_loop fuel fp m1 (n + 1) h1 d1 = Some (None, m', n', held', d')"
      using Suc.prems nx Some by (auto split: prod.splits option.splits)
    obtain rs where rs: "drain fuel m1 = Some (rs, m')" "n' = n + 1 + length rs"
        "file_of d' fp @ held' = file_of d1 fp @ h1 @ concat rs"
      using Suc.IH [OF lp] by blast
    have "file_of d' fp @ held' = file_of d fp @ held @ concat (x # rs)"
      using rs(3) fw_Write_writes [OF w] by simp
    then show ?thesis using nx Some rs(1,2) by (intro exI [of _ "x # rs"]) simp
  qed
qed simp

lemma table_loop_returns: "drain fuel m \<noteq> None \<Longrightarrow> table_loop fuel fp m n held d \<noteq> None"
proof (induction fuel arbitrary: m n held d)
  case (Suc fuel)
  then show ?case by (auto split: prod.splits option.splits)
qed simp

lemma remove_files: "remove_file fp d = (r, d') \<Longrightarrow> fp' \<noteq> fp \<Longrightarrow> file_of d' fp' = file_of d fp'"
proof -
  assume a: "remove_file fp d = (r, d')" "fp' \<noteq> fp"
  have "map_of (filter (\<lambda>(f, b). f \<noteq> fp) xs) fp' = map_of xs fp'" for xs :: "(xs_file \<times> bytes) list"
    using a(2) by (induction xs) auto
  then show ?thesis
    using a(1) by (auto simp: remove_file_def file_of_def dest!: plain_files [THEN fun_cong, of _ _ _ fp']
        split: prod.splits option.splits)
qed

lemma remove_all_files: "remove_all fps d = (r, d') \<Longrightarrow> fp' \<notin> set fps \<Longrightarrow> file_of d' fp' = file_of d fp'"
  by (induction fps arbitrary: d r) (auto split: prod.splits option.splits dest!: remove_files [of _ _ _ _ fp'])

lemma Close_files: "xs_Close s d = (r, s', d') \<Longrightarrow> fp' \<notin> set (xs_runs s) \<Longrightarrow> file_of d' fp' = file_of d fp'"
  by (auto simp: xs_Close_def dest!: remove_all_files split: prod.splits)

section \<open>What a table holds\<close>

definition table_of :: "nat \<Rightarrow> nat \<Rightarrow> bytes list \<Rightarrow> xs_table \<Rightarrow> bool" where
  "table_of l k rs t \<longleftrightarrow> uniform l rs \<and> by_key k rs \<and> tb_recLen t = l \<and> tb_keyLen t = k \<and>
     tb_bytes t = concat rs \<and> tb_n t = length rs"

lemma sub_uniform: "mset rs \<subseteq># mset qs \<Longrightarrow> uniform l qs \<Longrightarrow> uniform l rs"
  unfolding uniform_def by (metis mset_subset_eqD set_mset_mset)

lemma Sorted_runs:
  assumes S: "sorts S" and h: "holds_records s d M" and r: "xs_Sorted S s d = (Inr m, s', d')"
  shows "TableFile nm \<notin> set (xs_runs s')"
proof (cases "xs_runs s = []")
  case True
  then have "xs_runs s' = []" using r by (auto simp: xs_Sorted_def Let_def sortBuf_def)
  then show ?thesis by simp
next
  case False
  let ?s = "s\<lparr>xs_done := True\<rparr>"
  obtain e s1 d1 where f0: "xs_flush S ?s d = (e, s1, d1)" by (rule prod_cases3)
  have f: "xs_flush S ?s d = (None, s1, d1)" using r False f0 by (cases e) (simp_all add: xs_Sorted_def)
  have s': "s' = s1" using r False f
    by (simp add: xs_Sorted_def split: prod.splits sum.splits)
  have "holds_records ?s d M" using h by (simp add: holds_records_def)
  from flush_holds [OF S this f] show ?thesis by (auto simp: s' holds_records_def)
qed

text \<open>The part of \<open>Table\<close> after the merge was opened on runs.\<close>

lemma Table_spilled:
  assumes t: "xs_Table S fuel s d = Some (Inr t, s', d')"
    and m: "xs_Sorted S s d = (Inr m, s1, d1)" "mg_mem m = None"
  obtains m' n held d2 d3 d4 d5 where
    "create_file (TableFile (xs_name s1)) d1 = (None, d2)"
    "table_loop fuel (TableFile (xs_name s1)) m 0 [] d2 = Some (None, m', n, held, d3)"
    "mg_err m' = None" "fw_Flush (TableFile (xs_name s1)) held d3 = (None, [], d4)"
    "xs_Close s1 d4 = (None, s', d5)" "tb_recLen t = xs_recLen s1" "tb_keyLen t = xs_keyLen s1" "tb_n t = n"
    "tb_bytes t = (if n = 0 then [] else take (n * xs_recLen s1) (file_of d5 (TableFile (xs_name s1))))"
proof -
  let ?fp = "TableFile (xs_name s1)"
  note body = t [unfolded xs_Table_def m(1) Let_def, simplified m(2) prod.case sum.case option.case]
  obtain e d2 where c0: "create_file ?fp d1 = (e, d2)" by (rule prod.exhaust)
  have c: "create_file ?fp d1 = (None, d2)" using body c0 by (cases e) simp_all
  obtain q where l0: "table_loop fuel ?fp m 0 [] d2 = q" by simp
  obtain e m' n held d3 where q: "q = Some (e, m', n, held, d3)" using body c l0 by (cases q) auto
  have l: "table_loop fuel ?fp m 0 [] d2 = Some (None, m', n, held, d3)"
    using body c l0 q by (cases e) simp_all
  have err: "mg_err m' = None" using body c l by (cases "mg_err m'") simp_all
  obtain e held' d4 where w0: "fw_Flush ?fp held d3 = (e, held', d4)" by (rule prod_cases3)
  have w1: "fw_Flush ?fp held d3 = (None, held', d4)" using body c l err w0 by (cases e) simp_all
  have w: "fw_Flush ?fp held d3 = (None, [], d4)" using w1 fw_Flush_writes [OF w1] by simp
  obtain e s2 d5 where cl0: "xs_Close s1 d4 = (e, s2, d5)" by (rule prod_cases3)
  have cl: "xs_Close s1 d4 = (None, s2, d5)" using body c l err w cl0 by (cases e) simp_all
  obtain e d6 where p: "plain_call d5 = (e, d6)" by (rule prod.exhaust)
  have f6: "file_of d6 = file_of d5" using plain_files [OF p] .
  show thesis
  proof (cases "n = 0")
    case True
    then have "t = \<lparr>tb_recLen = xs_recLen s1, tb_keyLen = xs_keyLen s1, tb_bytes = [], tb_n = 0\<rparr> \<and> s' = s2"
      using body c l err w cl by auto
    then show ?thesis using that [OF c l err w] cl True by simp
  next
    case False
    have e: "e = None" using body c l err w cl p False by (cases e) simp_all
    then have "t = \<lparr>tb_recLen = xs_recLen s1, tb_keyLen = xs_keyLen s1,
        tb_bytes = take (n * xs_recLen s1) (file_of d5 ?fp), tb_n = n\<rparr> \<and> s' = s2"
      using body c l err w cl p False f6 by auto
    then show ?thesis using that [OF c l err w] cl False by simp
  qed
qed

lemma table_made:
  assumes S: "sorts S" and l: "0 < l"
    and add: "add_all S bs (xs_New name k l budget) d = (None, s, d1)"
    and tb: "xs_Table S fuel s d1 = Some (Inr t, s', d')"
  shows "\<exists>rs. table_of l k rs t \<and> mset rs = mset (records l (concat bs))"
proof -
  note h = added_holds [OF S l add]
  have uni: "uniform l (records l (concat bs))"
    using add_all_holds [OF S New_holds_none [OF l] add] whole_records(2) [OF l] by (simp add: New_fields)
  obtain q s1 d2 where m0: "xs_Sorted S s d1 = (q, s1, d2)" by (rule prod_cases3)
  obtain m where q: "q = Inr m" using tb m0 by (cases q) (simp_all add: xs_Table_def)
  note m = m0 [unfolded q]
  note mg = Sorted_merge [OF S h(1) m, unfolded h(2,3)]
  show ?thesis
  proof (cases "mg_mem m")
    case (Some b)
    then have t: "t = \<lparr>tb_recLen = l, tb_keyLen = k, tb_bytes = b, tb_n = length b div l\<rparr>"
      using tb m mg by (auto simp: xs_Table_def Let_def)
    have b: "length b mod l = 0" "mset (records l b) = mset (records l (concat bs))" "by_key k (records l b)"
      using mg Some by auto
    then have "table_of l k (records l b) t"
      using whole_records [OF l b(1)] by (simp add: table_of_def t length_records [OF l])
    then show ?thesis using b(2) by blast
  next
    case None
    obtain m' n held d3 d4 d5 d6 where c: "create_file (TableFile (xs_name s1)) d2 = (None, d3)"
      and lp: "table_loop fuel (TableFile (xs_name s1)) m 0 [] d3 = Some (None, m', n, held, d4)"
      and e: "mg_err m' = None" and w: "fw_Flush (TableFile (xs_name s1)) held d4 = (None, [], d5)"
      and cl: "xs_Close s1 d5 = (None, s', d6)"
      and t: "tb_recLen t = xs_recLen s1" "tb_keyLen t = xs_keyLen s1" "tb_n t = n"
        "tb_bytes t = (if n = 0 then [] else take (n * xs_recLen s1) (file_of d6 (TableFile (xs_name s1))))"
      by (rule Table_spilled [OF tb m None])
    obtain rs where rs: "drain fuel m = Some (rs, m')" "n = length rs"
        "file_of d4 (TableFile (xs_name s1)) @ held = concat rs"
      using table_loop_writes [OF lp] create_files(2) [OF c] by auto
    have fin: "file_of d6 (TableFile (xs_name s1)) = concat rs"
      using Close_files [OF cl Sorted_runs [OF S h(1) m]] fw_Flush_writes [OF w] rs(3) by simp
    note main = sorter_drains [OF S l add m rs(1)]
    have "uniform l rs" using main uni sub_uniform by blast
    then have "table_of l k rs t"
      using main t rs(2) fin mg by (simp add: table_of_def)
    then show ?thesis using main e by blast
  qed
qed

lemma Table_returns:
  assumes S: "sorts S" and l: "0 < l" and add: "add_all S bs (xs_New name k l budget) d = (None, s, d1)"
  shows "xs_Table S (Suc (xs_count s)) s d1 \<noteq> None"
proof -
  obtain q s1 d2 where m0: "xs_Sorted S s d1 = (q, s1, d2)" by (rule prod_cases3)
  show ?thesis
  proof (cases q)
    case (Inl e)
    then show ?thesis using m0 by (simp add: xs_Table_def)
  next
    case (Inr m)
    have none: "(table_loop (Suc (xs_count s)) fp m 0 [] d = None) = False" for fp d
      unfolding not_None_eq [symmetric] eq_False
      using merge_returns [OF S l add, of m s1 d2 "Suc (xs_count s)"] m0 Inr by (intro table_loop_returns) simp
    show ?thesis using m0 Inr by (simp add: xs_Table_def Let_def none split: prod.splits option.splits sum.splits del: table_loop.simps)
  qed
qed

section \<open>Looking a key up\<close>

lemma split_at_key:
  assumes "by_key k rs"
  obtains as es zs where "rs = as @ es @ zs" "\<forall>r \<in> set as. take k r < key" "\<forall>r \<in> set es. take k r = key"
    "\<forall>r \<in> set zs. key < take k r"
proof -
  define as where "as = takeWhile (\<lambda>r. take k r < key) rs"
  define ys where "ys = dropWhile (\<lambda>r. take k r < key) rs"
  define es where "es = takeWhile (\<lambda>r. take k r = key) ys"
  define zs where "zs = dropWhile (\<lambda>r. take k r = key) ys"
  have rs: "rs = as @ es @ zs" by (simp add: as_def es_def zs_def ys_def)
  have srt: "sorted (map (take k) ys)" "sorted (map (take k) zs)"
    using assms by (auto simp: rs by_key_def sorted_append ys_def [symmetric] es_def [symmetric]
        zs_def [symmetric] takeWhile_dropWhile_id [of "\<lambda>r. take k r = key" ys, folded es_def zs_def, symmetric])
  have ge: "\<forall>r \<in> set ys. key \<le> take k r"
  proof (cases ys)
    case (Cons y rest)
    then have "\<not> take k y < key" using hd_dropWhile [of "\<lambda>r. take k r < key" rs] by (simp add: ys_def [symmetric])
    then show ?thesis using srt(1) Cons by auto
  qed simp
  have "\<forall>r \<in> set zs. key < take k r"
  proof (cases zs)
    case (Cons z rest)
    then have "take k z \<noteq> key" using hd_dropWhile [of "\<lambda>r. take k r = key" ys] by (simp add: zs_def [symmetric])
    moreover have "key \<le> take k z" using ge Cons set_dropWhileD [of z "\<lambda>r. take k r = key" ys] by (simp add: zs_def [symmetric])
    ultimately show ?thesis using srt(2) Cons by fastforce
  qed simp
  then show ?thesis using that [OF rs] by (auto simp: as_def es_def dest: set_takeWhileD)
qed

lemma table_Lookup:
  assumes t: "table_of l k rs t" and L: "tb_Lookup t key = (r, i, n)"
  shows "mset (map (tb_At t) [i..<i + n]) = filter_mset (\<lambda>q. take k q = key) (mset rs) \<and> i + n \<le> tb_n t \<and>
    r = (if n = 0 then None else Some (tb_At t i))"
proof -
  obtain as es zs where rs: "rs = as @ es @ zs" and as: "\<forall>r \<in> set as. take k r < key"
    and es: "\<forall>r \<in> set es. take k r = key" and zs: "\<forall>r \<in> set zs. key < take k r"
  proof (rule split_at_key)
    show "by_key k rs" using t by (simp add: table_of_def)
  qed
  have At: "tb_At t j = rs ! j" if "j < length rs" for j
    using t that by (simp add: table_of_def tb_At_def row_concat)
  have tn: "tb_n t = length rs" "tb_keyLen t = k" using t by (simp_all add: table_of_def)
  define i0 where "i0 = length as"
  have find: "go_search (\<lambda>j. key \<le> take k (tb_At t j)) 0 (length rs) = i0"
  proof (rule go_search_unique)
    show "mono_pred (\<lambda>j. key \<le> take k (tb_At t j)) (length rs)"
      unfolding mono_pred_def
    proof (intro allI impI)
      fix a b assume ab: "a \<le> b" "b < length rs" "key \<le> take k (tb_At t a)"
      have "sorted (map (take k) rs)" using t by (simp add: table_of_def by_key_def)
      then have "take k (rs ! a) \<le> take k (rs ! b)" using ab(1,2) by (simp add: sorted_iff_nth_mono)
      then show "key \<le> take k (tb_At t b)" using At ab by simp
    qed
    show "i0 \<le> length rs" by (simp add: i0_def rs)
    show "\<not> key \<le> take k (tb_At t j)" if "j < i0" for j
      using that as by (simp add: At i0_def rs nth_append not_le)
    show "key \<le> take k (tb_At t i0)" if "i0 < length rs"
    proof -
      have "rs ! i0 = (es @ zs) ! 0" "es @ zs \<noteq> []" using that by (auto simp: rs i0_def nth_append)
      then have "rs ! i0 \<in> set (es @ zs)" by (metis length_greater_0_conv nth_mem)
      then show ?thesis using es zs that by (auto simp: At)
    qed
  qed
  have run: "same_key_run t key i0 = length es"
  proof -
    have split: "[i0..<length rs] = [i0..<i0 + length es] @ [i0 + length es..<length rs]"
      using upt_add_eq_append [of i0 "i0 + length es" "length zs"] by (simp add: rs i0_def add.assoc)
    have in_es: "take k (tb_At t j) = key" if "j \<in> set [i0..<i0 + length es]" for j
      using that es by (auto simp: At rs i0_def nth_append)
    have "take k (tb_At t j) \<noteq> key" if "j \<in> set [i0 + length es..<length rs]" for j
    proof -
      have "rs ! j \<in> set zs" using that by (auto simp: rs i0_def nth_append)
      then show ?thesis using zs that by (auto simp: At)
    qed
    then have "takeWhile (\<lambda>j. take k (tb_At t j) = key) [i0 + length es..<length rs] = []"
      by (cases "[i0 + length es..<length rs]") auto
    then show ?thesis
      using takeWhile_append2 [of "[i0..<i0 + length es]" "\<lambda>j. take k (tb_At t j) = key", OF in_es]
      by (simp add: same_key_run_def tn split)
  qed
  have "filter_mset (\<lambda>q. take k q = key) (mset rs) = mset es"
  proof -
    have "filter (\<lambda>q. take k q = key) as = []" "filter (\<lambda>q. take k q = key) zs = []"
      "filter (\<lambda>q. take k q = key) es = es"
      using as es zs by (auto simp: filter_empty_conv intro: filter_True)
    then have "filter (\<lambda>q. take k q = key) rs = es" by (simp add: rs)
    then show ?thesis by (metis mset_filter)
  qed
  moreover have "map (tb_At t) [i0..<i0 + length es] = es"
    by (rule nth_equalityI) (auto simp: At rs i0_def nth_append)
  moreover have "i0 = tb_n t \<or> take k (tb_At t i0) \<noteq> key \<longleftrightarrow> es = []"
    using es zs by (cases es; cases zs) (auto simp: At tn rs i0_def nth_append)
  ultimately show ?thesis
    using L find run unfolding tb_Lookup_def Let_def tn
    by (auto simp: rs i0_def tn split: if_splits)
qed

text \<open>
  C31: a table of any size answers for every record. Building a table from a sorter always comes
  to an end, and a table that was built holds as many records as were added; a lookup answers,
  for any key, the first of a run of rows that are exactly the added records with that key, once
  for each time they were added, and answers nothing exactly when no record has the key. This
  holds whether the table stayed in memory or went through runs, the merge and a file.
\<close>
theorem table_answers_for_every_record:
  assumes "sorts S" "0 < l" "add_all S bs (xs_New name k l budget) d = (None, s, d1)"
  shows "xs_Table S (Suc (xs_count s)) s d1 \<noteq> None \<and>
    (\<forall>fuel t s' d'. xs_Table S fuel s d1 = Some (Inr t, s', d') \<longrightarrow>
      tb_n t = length (records l (concat bs)) \<and>
      (\<forall>key r i n. tb_Lookup t key = (r, i, n) \<longrightarrow>
        mset (map (tb_At t) [i..<i + n]) = filter_mset (\<lambda>q. take k q = key) (mset (records l (concat bs))) \<and>
        r = (if n = 0 then None else Some (tb_At t i))))"
proof (intro conjI allI impI)
  show "xs_Table S (Suc (xs_count s)) s d1 \<noteq> None" by (rule Table_returns [OF assms])
  fix fuel t s' d' key r i n
  assume "xs_Table S fuel s d1 = Some (Inr t, s', d')"
  then obtain rs where rs: "table_of l k rs t" "mset rs = mset (records l (concat bs))"
    using table_made [OF assms] by blast
  show "tb_n t = length (records l (concat bs))"
    using rs by (metis size_mset table_of_def)
  assume "tb_Lookup t key = (r, i, n)"
  note answer = table_Lookup [OF rs(1) this]
  show "mset (map (tb_At t) [i..<i + n]) = filter_mset (\<lambda>q. take k q = key) (mset (records l (concat bs)))"
    "r = (if n = 0 then None else Some (tb_At t i))"
    using answer rs(2) by simp_all
qed

definition tried_table :: "((xs_err + xs_table) \<times> sorter \<times> disk) option" where
  "tried_table = (case tried_sorter of (e, s, d) \<Rightarrow> xs_Table stable_sort 6 s d)"

theorem table_answers_for_every_record_witness:
  "\<exists>t s' d' r i. tried_table = Some (Inr t, s', d') \<and> tb_n t = 5 \<and> tb_Lookup t [5] = (r, i, 2) \<and>
    mset (map (tb_At t) [i..<i + 2]) = {# [5, 1], [5, 3] #} \<and> r = Some (tb_At t i)"
proof -
  have a: "add_all stable_sort tried_batches (xs_New ''t'' 1 2 5) empty_disk =
      (None, fst (snd tried_sorter), snd (snd tried_sorter))" by code_simp
  let ?t = "projr (fst (the tried_table))"
  have t: "tried_table = Some (Inr ?t, fst (snd (the tried_table)), snd (snd (the tried_table)))" by code_simp
  then have t': "xs_Table stable_sort 6 (fst (snd tried_sorter)) (snd (snd tried_sorter)) =
      Some (Inr ?t, fst (snd (the tried_table)), snd (snd (the tried_table)))"
    by (simp add: tried_table_def split_beta)
  have k: "tb_Lookup ?t [5] = (fst (tb_Lookup ?t [5]), fst (snd (tb_Lookup ?t [5])), 2)" by code_simp
  have f: "filter_mset (\<lambda>q. take 1 q = [5]) (mset (records 2 (concat tried_batches))) = {# [5, 1], [5, 3] #}"
    by (simp add: tried_batches_def records_def rows_def upt_rec)
  have n: "length (records 2 (concat tried_batches)) = 5" by code_simp
  have pos: "0 < (2 :: nat)" by simp
  note main = table_answers_for_every_record [OF stable_sorts pos a, THEN conjunct2, rule_format, OF t']
  note found = main [THEN conjunct2, rule_format, OF k, unfolded f]
  have five: "tb_n ?t = 5" using main [THEN conjunct1] n by simp
  have first: "fst (tb_Lookup ?t [5]) = Some (tb_At ?t (fst (snd (tb_Lookup ?t [5]))))"
    using found [THEN conjunct2] by simp
  show ?thesis
    by (intro exI conjI) (rule t, rule five, rule k, rule found [THEN conjunct1], rule first)
qed

end
