(* ===== verification/Spec2Isabelle.thy ===== *)
theory Spec2Isabelle
  imports Chunker Entry_Codec Identity Pack_Writer Retry_Policy Pack_Manifest Index_Reader Condemned_Ledger Pinned_Refs Write_Lease Merged_Tree Retention_Sweep Rotation_Limits Inode_Map Overlay_Session External_Table
begin

text \<open>
  A model of pelfs, a file system whose volumes live as immutable objects behind a Pelican
  origin. Files are cut into content-defined chunks; chunks are compressed, encrypted and
  appended to packs; each pack ends in a trailer that locates its entries; manifests and
  multi-pack indexes say which pack holds a chunk; a signed superblock names them all and is
  what a branch head points to; readers pin the key that signs it. Writers take turns by an
  advisory lease, keep a session's changes in an overlay, bring diverged branches together by a three-way merge, replace the key that
  signs by rotation, and give space back by a garbage collector that keeps a window of past
  generations.

  Theories and the Go packages they model (paths under \<open>src/internal\<close>), from the bytes up:

  \<^item> \<open>Pelfs_Prelude\<close>: bytes, little-endian integers, checked slices, \<open>sort.Search\<close>, lemmas on
    lists and words the others share.
  \<^item> \<open>Chunker\<close> (\<open>chunkid/chunker.go\<close>, \<open>gear.go\<close>): gear hashing and the cut of a stream. The chunks
    are the stream, their sizes are bounded, the cuts are the ones a reference definition on
    the whole stream makes.
  \<^item> \<open>Identity\<close> (\<open>chunkid/chunkid.go\<close>): hex identities and their parsing.
  \<^item> \<open>Entry_Codec\<close> (\<open>entrycodec\<close>): compression and sealing of an entry, and its round trip.
  \<^item> \<open>Key_Table\<close>: the interfaces of sorted tables as locales; interpreted by the table itself for
    pack trailers, manifests and multi-pack indexes, which are its clients.
  \<^item> \<open>Pack_Index\<close>, \<open>Pack_Merge\<close> (\<open>packidx\<close>): the sorted table, its remote windows, the k-way
    merge and the streaming writer. A table answers with what was added last, a window of it
    answers as the whole does, and a merge answers from the newest table that has the key.
  \<^item> \<open>Pack_Store\<close> (\<open>packstore/packstore.go\<close>, \<open>trailertable.go\<close>): trailers, footers, tails, and what
    the hash in a signed row protects.
  \<^item> \<open>Pack_Writer\<close> (\<open>packstore/writer.go\<close>): appending, sealing, uploading and aborting a pack; a
    sealed pack reads back entry by entry.
  \<^item> \<open>Retry_Policy\<close> (\<open>packstore/retry.go\<close>): retries and the shared link; attempts are bounded.
  \<^item> \<open>Pack_Manifest\<close> (\<open>manifest\<close>) and \<open>Multi_Pack\<close> (\<open>mpi/mpi.go\<close>): what tells readers where
    packs and chunks are, and that merging keeps every answer.
  \<^item> \<open>Index_Reader\<close> (\<open>mpi/remote.go\<close>): the same index consulted by ranges of a remote object; it
    answers as the whole index does and asks for no byte outside the object.
  \<^item> \<open>Superblock\<close> (\<open>superblock\<close>) and \<open>Condemned_Ledger\<close> (\<open>superblock/condemn.go\<close>): the signed
    root, and the grace ledger of what it no longer names.
  \<^item> \<open>Inode_Map\<close> (\<open>inodemap\<close>): renumbering one volume's inodes into lineages another owns, and back.
  \<^item> \<open>Mutable_Object\<close> (\<open>pelicanobj/pelicanobj.go\<close>) and \<open>Pinned_Refs\<close> (\<open>refs\<close>): reading and writing
    the one mutable object of a branch, the pins a reader keeps, and what can move them.
  \<^item> \<open>Write_Lease\<close> (\<open>lease\<close>): acquiring, renewing, fencing and releasing the right to write.
  \<^item> \<open>Three_Way_Merge\<close> (\<open>merge/decide.go\<close>, \<open>merge.go\<close>) and \<open>Merged_Tree\<close> (\<open>apply.go\<close>,
    \<open>fastforward.go\<close>): the decision for one name, the plan of a merge, and the tree published.
  \<^item> \<open>Retention_Window\<close> (\<open>retention/lastk.go\<close>) and \<open>Retention_Sweep\<close> (\<open>retention.go\<close>): which past
    generations count, and the collection of what none of them names.
  \<^item> \<open>Key_Files\<close>, \<open>Key_Rotation\<close>, \<open>Rotation_Limits\<close> (\<open>rotate\<close>): key files under torn writes, the
    two generations of a rotation with resumption and abort, the change between signed and
    unsigned, and where an interrupted change cannot go on.
  \<^item> \<open>Binary_Heap\<close>, \<open>External_Sort\<close>, \<open>External_Order\<close>, \<open>External_Table\<close> (\<open>extsort\<close>): sorting
    more records than fit in memory, with runs on disk whose every call may fail. The heap of the
    standard library keeps the least run on top; the merge hands out what was added, in order,
    and ends within as many calls as records; a table answers for every record.
  \<^item> \<open>Overlay_State\<close> (\<open>overlay/overlay.go\<close>, \<open>read.go\<close>, \<open>bulk.go\<close>) and \<open>Overlay_Write\<close>
    (\<open>write.go\<close>, \<open>accessors.go\<close>): one session's changes as rows over a generation, the tables of
    its database as association lists, its transactions as programs whose changes an error
    takes back. \<open>Overlay_View\<close> gives the merged tree and shows that reading answers it,
    \<open>Overlay_Rows\<close> what makes rows well typed, \<open>Overlay_Tree\<close>, \<open>Overlay_Effects\<close> and
    \<open>Overlay_Births\<close> that each operation is the plain operation on a tree, and
    \<open>Overlay_Session\<close> states the properties over whole sessions, on a sample generation too.

  How they interact: \<open>Pack_Writer\<close> seals what \<open>Entry_Codec\<close> encodes with a trailer of
  \<open>Pack_Store\<close>; trailers, manifests and indexes are tables of \<open>Pack_Index\<close> reached through the
  locales of \<open>Key_Table\<close>; a \<open>Superblock\<close> lists manifests and indexes and \<open>Pinned_Refs\<close> decides
  whether a reader accepts it; \<open>Merged_Tree\<close>, \<open>Key_Rotation\<close> and \<open>Retention_Sweep\<close> read heads
  through the same documents and flip them under the same rules. The overlay reads the
  generation below it and the content store beside it through records of operations, which are
  arguments: \<open>genfs_serves\<close> says what it relies on of the first, an immutable tree it answers
  from, with \<open>genfs_denies\<close> for its answers that an inode does not exist, and nothing is relied on
  of the second.

  Conventions. A Go struct is a record with prefixed fields, an error is the left of a sum or a
  constructor of the component's own type, an \<open>n\<close>-bit integer is a word of that width unless the
  text of a theory says why its value is a natural number. A Go map is an association list with
  one row per key, and where the code ranges over it, its order is the order of an argument.
  What another machine answers (an origin, a clock, a random source, a signature scheme, a
  compressor) is an argument, and what the code relies on of it is a named hypothesis of the
  property; a property with such a hypothesis has a witness with a concrete function. A crash is
  a step at which every later call fails, so that a property over all failures covers it. Text
  that is only logged is omitted.

  Bounds and fuel. The walk of a merge takes fuel and \<open>Compute_terminates\<close> shows that the depth
  of the trees is enough; the retry loop, the prefix reads of an index and the second looks of
  the collector are bounded by the code's own counts, and so is the overlay's descent into the
  base (4096 steps), while the chain it persists grows a table that has one row per inode; the
  merge of an external sort takes fuel, and one more than the records added is enough;
  the chunker's loop over a stream is a partial function into an option, and is shown to return on every stream.

  Not modelled: transports and federation discovery (\<open>pelicanobj/direct.go\<close>, \<open>fedstore.go\<close>), which
  are the arguments above; the catalogs, whose lookups are queries of a database engine; opening,
  freezing and rebasing an overlay, publishing, the memtable and the generation reader, whose
  laws the overlay takes as a hypothesis; the front ends (FUSE, NFS, WebDAV, web API), sign-in and the command line, which wire the
  packages to third-party servers; test support. The manifest names the reason for each.
\<close>

end
